(* ===== verification/Prelude.thy ===== *)
theory Prelude
  imports Main "HOL-Library.Word"
begin

text \<open>
  The vocabulary shared by every component: the machine integer types of \<open>page.hpp\<close>,
  the result type of an operation (\<open>run\<close>: a value, a failed assertion or fatal error, or
  a loop that has not returned), the compare-and-swap of \<open>std::atomic\<close>, and generic
  facts about words and lists that the component theories use.
\<close>

unbundle bit_operations_syntax

named_theorems run_simps \<open>rewrite rules for the result type of operations\<close>

section \<open>Machine integers\<close>

type_synonym u8 = "8 word"
type_synonym u16 = "16 word"
type_synonym u32 = "32 word"
type_synonym u64 = "64 word"
type_synonym PID = u64

text \<open>\<open>std::numeric_limits<u64>::max()\<close>, the page id that stands for "no page".\<close>

abbreviation pid_none :: PID where
  "pid_none \<equiv> - 1"

section \<open>Results of operations\<close>

text \<open>
  \<open>Assertion s\<close> is the failure of the \<open>assert\<close> with text \<open>s\<close> (the debug
  build stops there), \<open>Fatal s\<close> a call of \<open>die\<close>, \<open>OutOfBounds i n\<close> an access
  to index \<open>i\<close> of an array of \<open>n\<close> elements. \<open>Loop\<close> says that a loop of the
  source has used up the fuel it was given without returning.
\<close>

datatype err = Assertion string | Fatal string | OutOfBounds nat nat

datatype 'a run = Ret 'a | Err err | Loop

fun bind_run :: "'a run \<Rightarrow> ('a \<Rightarrow> 'b run) \<Rightarrow> 'b run" where
  "bind_run (Ret a) f = f a"
| "bind_run (Err e) f = Err e"
| "bind_run Loop f = Loop"

definition check :: "bool \<Rightarrow> string \<Rightarrow> 'a run \<Rightarrow> 'a run" where
  "check b msg k = (if b then k else Err (Assertion msg))"

lemma bind_run_eq_Ret [run_simps]:
  "bind_run m f = Ret r \<longleftrightarrow> (\<exists>a. m = Ret a \<and> f a = Ret r)"
  by (cases m) auto

lemma check_eq_Ret [run_simps]: "check b msg k = Ret r \<longleftrightarrow> b \<and> k = Ret r"
  by (simp add: check_def)

lemma check_True [simp]: "check True msg k = k"
  by (simp add: check_def)

lemma check_False [simp]: "check False msg k = Err (Assertion msg)"
  by (simp add: check_def)

text \<open>Array accesses, with the bounds the source relies on made explicit.\<close>

definition aget :: "'a list \<Rightarrow> nat \<Rightarrow> 'a run" where
  "aget xs i = (if i < length xs then Ret (xs ! i) else Err (OutOfBounds i (length xs)))"

definition aset :: "'a list \<Rightarrow> nat \<Rightarrow> 'a \<Rightarrow> 'a list run" where
  "aset xs i x = (if i < length xs then Ret (xs[i := x]) else Err (OutOfBounds i (length xs)))"

lemma aget_Ret [simp]: "i < length xs \<Longrightarrow> aget xs i = Ret (xs ! i)"
  by (simp add: aget_def)

lemma aset_Ret [simp]: "i < length xs \<Longrightarrow> aset xs i x = Ret (xs[i := x])"
  by (simp add: aset_def)

section \<open>Atomic cells\<close>

text \<open>
  \<open>compare_exchange_strong(expected, desired)\<close> on a cell that holds \<open>c\<close>: whether it
  succeeded, and the cell's new content. \<open>cas_weak\<close> may also fail spuriously.
\<close>

definition cas :: "'a \<Rightarrow> 'a \<Rightarrow> 'a \<Rightarrow> bool \<times> 'a" where
  "cas c expected desired = (if c = expected then (True, desired) else (False, c))"

definition cas_weak :: "bool \<Rightarrow> 'a \<Rightarrow> 'a \<Rightarrow> 'a \<Rightarrow> bool \<times> 'a" where
  "cas_weak spurious c expected desired =
     (if \<not> spurious \<and> c = expected then (True, desired) else (False, c))"

lemma cas_self [simp]: "cas c c d = (True, d)"
  by (simp add: cas_def)

lemma cas_weak_strong: "cas_weak False c e d = cas c e d"
  by (simp add: cas_weak_def cas_def)

section \<open>Words\<close>

text \<open>
  The mixing steps of the program's hash functions and generators are injective: a word is
  determined by its xor with its own right or left shift, bit by bit from the end that the
  shift leaves alone.
\<close>

lemma xor_drop_bit_inj:
  fixes x y :: "'a::len word"
  assumes "0 < n" and eq: "x XOR drop_bit n x = y XOR drop_bit n y"
  shows "x = y"
proof (rule bit_word_eqI)
  have *: "bit x i = bit y i" for i
  proof (induction "LENGTH('a) - i" arbitrary: i rule: less_induct)
    case less
    show ?case
    proof (cases "i < LENGTH('a)")
      case False
      then show ?thesis by (auto dest: bit_imp_le_length)
    next
      case True
      have "bit x (i + n) = bit y (i + n)"
        by (rule less) (use True \<open>0 < n\<close> in simp)
      moreover have "bit (x XOR drop_bit n x) i = bit (y XOR drop_bit n y) i"
        by (simp only: eq)
      ultimately show ?thesis by (auto simp: bit_simps add.commute)
    qed
  qed
  show "bit x i = bit y i" for i by (rule *)
qed

lemma xor_push_bit_inj:
  fixes x y :: "'a::len word"
  assumes "0 < n" and eq: "x XOR push_bit n x = y XOR push_bit n y"
  shows "x = y"
proof (rule bit_word_eqI)
  have *: "bit x i = bit y i" for i
  proof (induction i rule: less_induct)
    case (less i)
    show ?case
    proof (cases "i < LENGTH('a)")
      case False
      then show ?thesis by (auto dest: bit_imp_le_length)
    next
      case True
      have "n \<le> i \<Longrightarrow> bit x (i - n) = bit y (i - n)"
        using \<open>0 < n\<close> by (intro less) simp
      moreover have "bit (x XOR push_bit n x) i = bit (y XOR push_bit n y) i"
        by (simp only: eq)
      ultimately show ?thesis using True by (auto simp: bit_simps)
    qed
  qed
  show "bit x i = bit y i" for i by (rule *)
qed

lemma xor_drop_bit_inj_iff:
  fixes x y :: "'a::len word"
  shows "0 < n \<Longrightarrow> x XOR drop_bit n x = y XOR drop_bit n y \<longleftrightarrow> x = y"
  using xor_drop_bit_inj by blast

lemma xor_cancel_left: "(a :: 'a::len word) XOR x = a XOR y \<longleftrightarrow> x = y"
  by (metis xor.left_commute xor_self_eq xor.right_neutral)

lemma xor_cancel_right: "(x :: 'a::len word) XOR a = y XOR a \<longleftrightarrow> x = y"
  by (simp add: xor.commute [of _ a] xor_cancel_left)

lemma take_bit_word_small: "unat x < 2 ^ n \<Longrightarrow> take_bit n x = x" for x :: "'a::len word"
  by (simp add: word_unat_eq_iff unsigned_take_bit_eq take_bit_nat_eq_self)

lemma drop_push_bit: "drop_bit n (push_bit n x) = take_bit (LENGTH('a) - n) x" for x :: "'a::len word"
  by (rule bit_word_eqI) (auto simp: bit_simps)

lemma unat_pow2: "k < LENGTH('a) \<Longrightarrow> unat (2 ^ k :: 'a::len word) = 2 ^ k"
  by (metis mult_1 push_bit_eq_mult unat_1 unsigned_push_bit_eq take_bit_push_bit push_bit_of_1
      take_bit_nat_eq_self power_strict_increasing_iff one_less_numeral_iff semiring_norm(76))

lemma unat_of_nat_small: "n < 2 ^ LENGTH('a) \<Longrightarrow> unat (of_nat n :: 'a::len word) = n"
  by (simp add: unat_of_nat)

lemma word_eq_of_nat: "unat x = n \<Longrightarrow> x = of_nat n" for x :: "'a::len word"
  by (metis of_nat_unat ucast_id)

lemma mult_unit_inj:
  fixes x y m i :: "'a::len word"
  assumes "m * i = 1"
  shows "x * m = y * m \<longleftrightarrow> x = y"
proof
  assume "x * m = y * m"
  then have "x * (m * i) = y * (m * i)" by (simp only: mult.assoc [symmetric])
  then show "x = y" by (simp add: assms)
qed simp

end
