(* ===== verification/Hashing.thy ===== *)
theory Hashing
  imports Prelude
begin

text \<open>
  Hashing of page ids: the Murmur mixers of \<open>ResidentPageSet::hash\<close> (\<open>page.hpp\<close>)
  and \<open>hashPID\<close> (\<open>buffer_manager.hpp\<close>), the power-of-two helpers behind the table
  sizes and the promotion masks, and the reductions to a preferred frame and to a hash table
  bucket. The dividers of \<open>libdivide\<close> compute the exact quotient, so a quotient is
  written \<open>div\<close>.
\<close>

section \<open>Mixers\<close>

definition murmur_m :: u64 where "murmur_m = 0xc6a4a7935bd1e995"

definition rs_hash :: "u64 \<Rightarrow> u64" where
  "rs_hash k0 =
     (let m = murmur_m; r = 47;
          h = 0x8445d61a4e774912 XOR (8 * m);
          k = k0 * m;
          k = k XOR drop_bit r k;
          k = k * m;
          h = h XOR k;
          h = h * m;
          h = h XOR drop_bit r h;
          h = h * m;
          h = h XOR drop_bit r h
      in h)"

definition hashPID :: "PID \<Rightarrow> u64 \<Rightarrow> u64" where
  "hashPID pid frames =
     (let k = pid; m = murmur_m; r = 47;
          h = 0x8445d61a4e774912 XOR (8 * m);
          k = k * m;
          k = k XOR drop_bit r k;
          k = k * m;
          h = h XOR k;
          h = h * m;
          h = h XOR drop_bit r h;
          h = h * m;
          h = h XOR drop_bit r h;
          result = h
      in result)"

lemma murmur_m_unit: "murmur_m * 6879827495036328381 = 1"
  by (simp add: murmur_m_def)

lemma mix_inj:
  "(x :: u64) * murmur_m = y * murmur_m \<longleftrightarrow> x = y"
  "(x :: u64) XOR drop_bit 47 x = y XOR drop_bit 47 y \<longleftrightarrow> x = y"
  using mult_unit_inj [OF murmur_m_unit] xor_drop_bit_inj_iff [of 47 x y] by auto

text \<open>
  C33: the two mixers are one function, whatever pool size \<open>hashPID\<close> is called with, and it
  is injective: different page ids never share their 64-bit hash, so two pages collide only
  through the reductions to a frame, a bucket or a slot.
\<close>

theorem hashPID_injective:
  "hashPID p n = rs_hash p \<and> (hashPID p n = hashPID q n' \<longleftrightarrow> p = q)"
  by (simp add: hashPID_def rs_hash_def Let_def mix_inj xor_cancel_left)

section \<open>Powers of two\<close>

definition nextPowerOf2 :: "u64 \<Rightarrow> u64" where
  "nextPowerOf2 n0 =
     (if n0 = 0 then 1
      else let n = n0 - 1;
               n = n OR drop_bit 1 n;
               n = n OR drop_bit 2 n;
               n = n OR drop_bit 4 n;
               n = n OR drop_bit 8 n;
               n = n OR drop_bit 16 n;
               n = n OR drop_bit 32 n
           in n + 1)"

text \<open>\<open>__builtin_clzl\<close> is 64 less the number of significant bits.\<close>

fun bit_length :: "nat \<Rightarrow> nat" where
  "bit_length n = (if n = 0 then 0 else Suc (bit_length (n div 2)))"

declare bit_length.simps [simp del]

text \<open>
  The private \<open>next_pow2\<close> of the resident set and of the hash table shifts an
  \<open>int\<close>: counting leading zeros of 0 and shifts beyond 31 are undefined, and a shift by 31
  yields the negative minimum, sign-extended on the way to \<open>u64\<close>.
\<close>

definition next_pow2 :: "u64 \<Rightarrow> u64 run" where
  "next_pow2 x =
     (if x - 1 = 0 then Err (Fatal ''undefined: __builtin_clzl(0)'')
      else let n = bit_length (unat (x - 1)) in
        if n < 31 then Ret (push_bit n 1)
        else if n = 31 then Ret 0xFFFFFFFF80000000
        else Err (Fatal ''undefined: shift of int by 32 or more''))"

lemma less_bit_length: "i < bit_length m \<longleftrightarrow> 2 ^ i \<le> m"
proof (induction m arbitrary: i rule: bit_length.induct)
  case (1 m)
  show ?case
  proof (cases "m = 0")
    case True
    then show ?thesis by (simp add: bit_length.simps)
  next
    case False
    note IH = "1.IH" [OF this]
    show ?thesis
    proof (cases i)
      case 0
      then show ?thesis using False by (simp add: bit_length.simps [of m])
    next
      case (Suc j)
      have "2 ^ j \<le> m div 2 \<longleftrightarrow> 2 ^ j * 2 \<le> m" by (simp add: less_eq_div_iff_mult_less_eq)
      then show ?thesis using False IH [of j] Suc
        by (simp add: bit_length.simps [of m] mult.commute)
    qed
  qed
qed

lemma bit_length_le: "m < 2 ^ k \<Longrightarrow> bit_length m \<le> k"
  using less_bit_length [of k m] by linarith

text \<open>
  The shift-or cascade of \<open>nextPowerOf2\<close> smears the highest set bit downwards: after the
  step by \<open>k\<close>, a bit is set if one of the \<open>2 * k\<close> bits from it upwards was.
\<close>

definition smeared :: "nat \<Rightarrow> u64 \<Rightarrow> u64 \<Rightarrow> bool" where
  "smeared k x y \<longleftrightarrow> (\<forall>i. bit y i \<longleftrightarrow> (\<exists>j. i \<le> j \<and> j < i + k \<and> bit x j))"

lemma smeared_1: "smeared 1 x x"
proof -
  have "i \<le> j \<and> j < i + 1 \<longleftrightarrow> j = i" for i j :: nat by auto
  then have "(\<exists>j. i \<le> j \<and> j < i + 1 \<and> bit x j) \<longleftrightarrow> bit x i" for i
    unfolding conj_assoc [symmetric] by simp
  then show ?thesis unfolding smeared_def by blast
qed

lemma smeared_double:
  assumes "smeared k x y" and "k2 = 2 * k"
  shows "smeared k2 x (y OR drop_bit k y)"
  unfolding smeared_def
proof
  fix i
  have "bit (y OR drop_bit k y) i \<longleftrightarrow>
      (\<exists>j. i \<le> j \<and> j < i + k \<and> bit x j) \<or> (\<exists>j. k + i \<le> j \<and> j < k + i + k \<and> bit x j)"
    using assms by (simp add: smeared_def bit_or_iff bit_drop_bit_eq)
  also have "\<dots> \<longleftrightarrow> (\<exists>j. i \<le> j \<and> j < i + k2 \<and> bit x j)"
    unfolding ex_disj_distrib [symmetric]
    by (rule arg_cong [where f = Ex], rule ext) (use assms(2) in auto)
  finally show "bit (y OR drop_bit k y) i \<longleftrightarrow> (\<exists>j. i \<le> j \<and> j < i + k2 \<and> bit x j)" .
qed

lemma high_bit_iff: "(\<exists>j. i \<le> j \<and> j < i + 64 \<and> bit x j) \<longleftrightarrow> 2 ^ i \<le> unat x" for x :: u64
proof -
  have "2 ^ i \<le> unat x \<longleftrightarrow> unat x div 2 ^ i \<noteq> 0"
    by (auto simp: div_eq_0_iff)
  also have "unat x div 2 ^ i = unat (drop_bit i x)"
    unfolding unat_drop_bit_eq by (rule drop_bit_eq_div [symmetric])
  also have "unat (drop_bit i x) \<noteq> 0 \<longleftrightarrow> (\<exists>n. bit (drop_bit i x) n)"
  proof -
    have "drop_bit i x = 0 \<longleftrightarrow> (\<forall>n. \<not> bit (drop_bit i x) n)"
      by (metis bit_0_eq bot_apply bot_bool_def bit_word_eqI)
    then show ?thesis by (simp add: unat_eq_zero)
  qed
  also have "\<dots> \<longleftrightarrow> (\<exists>j. i \<le> j \<and> j < i + 64 \<and> bit x j)"
  proof
    assume "\<exists>n. bit (drop_bit i x) n"
    then obtain n where "bit x (i + n)" by (auto simp: bit_drop_bit_eq)
    moreover from this have "i + n < 64" by (auto dest: bit_imp_le_length)
    ultimately show "\<exists>j. i \<le> j \<and> j < i + 64 \<and> bit x j" by (intro exI [of _ "i + n"]) simp
  next
    assume "\<exists>j. i \<le> j \<and> j < i + 64 \<and> bit x j"
    then obtain j where "i \<le> j" and "bit x j" by blast
    then have "bit (drop_bit i x) (j - i)" by (simp add: bit_drop_bit_eq)
    then show "\<exists>n. bit (drop_bit i x) n" ..
  qed
  finally show ?thesis by simp
qed

lemma smeared_mask:
  assumes "smeared 64 x y"
  shows "y = mask (bit_length (unat x))"
proof (rule bit_word_eqI)
  fix i assume "i < LENGTH(64)"
  then show "bit y i = bit (mask (bit_length (unat x)) :: u64) i"
    using assms by (simp add: smeared_def high_bit_iff less_bit_length bit_mask_iff)
qed

lemma nextPowerOf2_mask:
  assumes "n \<noteq> 0"
  shows "nextPowerOf2 n = mask (bit_length (unat (n - 1))) + 1"
proof -
  define x where "x = n - 1"
  define y1 where "y1 = x OR drop_bit 1 x"
  define y2 where "y2 = y1 OR drop_bit 2 y1"
  define y4 where "y4 = y2 OR drop_bit 4 y2"
  define y8 where "y8 = y4 OR drop_bit 8 y4"
  define y16 where "y16 = y8 OR drop_bit 16 y8"
  define y32 where "y32 = y16 OR drop_bit 32 y16"
  have "smeared 2 x y1" unfolding y1_def by (rule smeared_double [OF smeared_1]) simp
  then have "smeared 4 x y2" unfolding y2_def by (rule smeared_double) simp
  then have "smeared 8 x y4" unfolding y4_def by (rule smeared_double) simp
  then have "smeared 16 x y8" unfolding y8_def by (rule smeared_double) simp
  then have "smeared 32 x y16" unfolding y16_def by (rule smeared_double) simp
  then have "smeared 64 x y32" unfolding y32_def by (rule smeared_double) simp
  then have "y32 = mask (bit_length (unat x))" by (rule smeared_mask)
  moreover have "nextPowerOf2 n = y32 + 1"
    unfolding nextPowerOf2_def Let_def if_not_P [OF assms]
    by (simp only: x_def y1_def y2_def y4_def y8_def y16_def y32_def)
  ultimately show ?thesis by (simp only: x_def)
qed

lemma nextPowerOf2_spec:
  assumes "0 < n"
  shows "if n \<le> 2 ^ 63
    then \<exists>k < 64. nextPowerOf2 n = 2 ^ k \<and> unat n \<le> 2 ^ k \<and> (\<forall>j. unat n \<le> 2 ^ j \<longrightarrow> k \<le> j)
    else nextPowerOf2 n = 0"
proof -
  define k where "k = bit_length (unat (n - 1))"
  have n1: "unat (n - 1) = unat n - 1" "0 < unat n"
  proof -
    have "n \<noteq> 0" using assms by auto
    then show "unat (n - 1) = unat n - 1" by (rule unat_minus_one)
    show "0 < unat n" using assms by (simp add: word_less_nat_alt)
  qed
  have eq: "nextPowerOf2 n = 2 ^ k"
    using nextPowerOf2_mask [of n] assms by (simp add: k_def mask_eq_exp_minus_1)
  have least: "unat n \<le> 2 ^ j \<longleftrightarrow> k \<le> j" for j
    using less_bit_length [of j "unat n - 1"] n1 by (auto simp: k_def not_less [symmetric])
  show ?thesis
  proof (cases "n \<le> 2 ^ 63")
    case True
    then have "k < 64" using least [of 63] by (simp add: word_le_nat_alt)
    then show ?thesis using True eq least by auto
  next
    case False
    then have "64 \<le> k" using least [of 63] by (simp add: word_le_nat_alt)
    moreover have "bit_length (unat (n - 1)) \<le> 64"
      using unsigned_less [of "n - 1"] by (intro bit_length_le) simp
    ultimately show ?thesis using False eq by (simp add: k_def)
  qed
qed

text \<open>
  \<open>nextPowerOf2\<close> is the least power of two that is at least its argument, for every
  argument up to \<open>2 ^ 63\<close>; above it the sum wraps to 0.
\<close>

theorem nextPowerOf2_least:
  assumes "0 < n"
  shows "if n \<le> 2 ^ 63
    then \<exists>k < 64. nextPowerOf2 n = 2 ^ k \<and> unat n \<le> 2 ^ k \<and> (\<forall>j. unat n \<le> 2 ^ j \<longrightarrow> k \<le> j)
    else nextPowerOf2 n = 0"
  using assms by (rule nextPowerOf2_spec)

theorem nextPowerOf2_least_witness:
  "(0::u64) < 33 \<and> nextPowerOf2 33 = 64 \<and>
   (\<exists>k < 64. nextPowerOf2 33 = 2 ^ k \<and> unat (33::u64) \<le> 2 ^ k \<and> (\<forall>j. unat (33::u64) \<le> 2 ^ j \<longrightarrow> k \<le> j))"
  using nextPowerOf2_least [of 33] by (simp add: nextPowerOf2_def Let_def)

section \<open>Reduction to frames and buckets\<close>

text \<open>\<open>BufferManager::intendedFrame\<close> as an index into \<open>virtMem\<close>, and \<open>HTBufferManager::index\<close>.\<close>

definition intendedFrame :: "u64 \<Rightarrow> u64 \<Rightarrow> u64" where
  "intendedFrame frameCount hash = hash - hash div frameCount * frameCount"

definition ht_index :: "u64 \<Rightarrow> u64 \<Rightarrow> u64" where
  "ht_index count hash = hash - hash div count * count"

lemma intendedFrame_mod: "intendedFrame n h = h mod n"
  by (simp add: intendedFrame_def minus_div_mult_eq_mod)

lemma ht_index_mod: "ht_index n h = h mod n"
  by (simp add: ht_index_def minus_div_mult_eq_mod)

lemma unat_mod_less: "0 < n \<Longrightarrow> unat (h mod n) < unat n" for n :: "'a::len word"
  by (simp add: unat_mod word_less_nat_alt)

lemma intendedFrame_less: "0 < n \<Longrightarrow> unat (intendedFrame n h) < unat n"
  by (simp add: intendedFrame_mod unat_mod_less)

lemma ht_index_less: "0 < n \<Longrightarrow> unat (ht_index n h) < unat n"
  by (simp add: ht_index_mod unat_mod_less)

end
