(* ===== verification/Page_State.thy ===== *)
theory Page_State
  imports Prelude
begin

text \<open>
  \<open>PageState\<close> of \<open>page.hpp\<close>: the hybrid page latch, one atomic 64-bit word whose top
  byte is the state (0 unlocked, 1 to 252 the number of shared holders, 253 marked for
  eviction, 254 exclusively locked, 255 invalid) and whose low 56 bits are a version that
  every exclusive release increments. Each operation is a function of the word's content at
  the moment of its atomic access; failed assertions are errors. The lemmas give the state
  and the version of every word the operations write, and what happens when the 56-bit
  version wraps.
\<close>

section \<open>The packed word\<close>

abbreviation Unlocked :: u64 where "Unlocked \<equiv> 0"
abbreviation MaxShared :: u64 where "MaxShared \<equiv> 252"
abbreviation Marked :: u64 where "Marked \<equiv> 253"
abbreviation Locked :: u64 where "Locked \<equiv> 254"
abbreviation Invalid :: u64 where "Invalid \<equiv> 255"

definition sameVersion :: "u64 \<Rightarrow> u64 \<Rightarrow> u64" where
  "sameVersion oldStateAndVersion newState =
     drop_bit 8 (push_bit 8 oldStateAndVersion) OR push_bit 56 newState"

definition nextVersion :: "u64 \<Rightarrow> u64 \<Rightarrow> u64" where
  "nextVersion oldStateAndVersion newState =
     (drop_bit 8 (push_bit 8 oldStateAndVersion) + 1) OR push_bit 56 newState"

definition getState :: "u64 \<Rightarrow> u64" where
  "getState v = drop_bit 56 v"

text \<open>The version field, for the statements: the low 56 bits.\<close>

definition versionOf :: "u64 \<Rightarrow> u64" where
  "versionOf v = take_bit 56 v"

section \<open>Operations\<close>

definition ps_init :: u64 where
  "ps_init = sameVersion 0 Invalid"

definition tryLockX :: "u64 \<Rightarrow> u64 \<Rightarrow> (bool \<times> u64) run" where
  "tryLockX cell old =
     check (getState old = Unlocked \<or> getState old > MaxShared)
       ''getState(oldStateAndVersion) == Unlocked || getState(oldStateAndVersion) > MaxShared''
       (Ret (cas cell old (sameVersion old Locked)))"

definition unlockX :: "u64 \<Rightarrow> u64 run" where
  "unlockX cell = check (getState cell = Locked) ''getState() == Locked''
     (Ret (nextVersion cell Unlocked))"

definition unlockXInvalid :: "u64 \<Rightarrow> u64 run" where
  "unlockXInvalid cell = check (getState cell = Locked) ''getState() == Locked''
     (Ret (nextVersion cell Invalid))"

definition downgradeLock :: "u64 \<Rightarrow> u64 run" where
  "downgradeLock cell = check (getState cell = Locked) ''getState() == Locked''
     (Ret (nextVersion cell 1))"

definition tryLockS :: "u64 \<Rightarrow> u64 \<Rightarrow> bool \<times> u64" where
  "tryLockS cell old =
     (let s = getState old in
      if s < MaxShared then cas cell old (sameVersion old (s + 1))
      else if s = Marked then cas cell old (sameVersion old 1)
      else (False, cell))"

text \<open>
  The loop of \<open>unlockS\<close>, given for each iteration what the cell holds at the load and
  what it holds at the compare-and-swap.
\<close>

fun unlockS :: "(u64 \<times> u64) list \<Rightarrow> u64 run" where
  "unlockS [] = Loop"
| "unlockS ((old, cell) # later) =
     (let state = getState old in
      check (state > 0 \<and> state \<le> MaxShared) ''state > 0 && state <= MaxShared''
        (case cas cell old (sameVersion old (state - 1)) of
           (True, c) \<Rightarrow> Ret c
         | (False, _) \<Rightarrow> unlockS later))"

definition tryMark :: "u64 \<Rightarrow> u64 \<Rightarrow> (bool \<times> u64) run" where
  "tryMark cell old =
     check (getState old = Unlocked) ''getState(oldStateAndVersion) == Unlocked''
       (Ret (cas cell old (sameVersion old Marked)))"

section \<open>State and version of the packed word\<close>

lemma shift_out_state: "drop_bit 8 (push_bit 8 v) = versionOf v"
  by (rule bit_word_eqI) (auto simp: versionOf_def bit_simps)

lemma getState_pack: "s < 256 \<Longrightarrow> getState (versionOf v OR push_bit 56 s) = s"
proof (rule bit_word_eqI)
  fix n assume s: "s < 256" and n: "n < LENGTH(64)"
  have "take_bit 8 s = s"
    using s by (intro take_bit_word_small) (simp add: word_less_nat_alt)
  then have "bit s n \<longleftrightarrow> n < 8 \<and> bit s n"
    by (metis bit_take_bit_iff)
  then show "bit (getState (versionOf v OR push_bit 56 s)) n = bit s n"
    using n by (auto simp: getState_def versionOf_def bit_simps)
qed

lemma versionOf_pack: "versionOf (versionOf v OR push_bit 56 s) = versionOf v"
  by (rule bit_word_eqI) (auto simp: versionOf_def bit_simps)

lemma getState_sameVersion [simp]: "s < 256 \<Longrightarrow> getState (sameVersion v s) = s"
  by (simp add: sameVersion_def shift_out_state getState_pack)

lemma versionOf_sameVersion [simp]: "versionOf (sameVersion v s) = versionOf v"
  by (simp add: sameVersion_def shift_out_state versionOf_pack)

lemma getState_less: "getState v < 256"
proof -
  have "unat (drop_bit 56 v) = unat v div 2 ^ 56"
    unfolding unat_drop_bit_eq by (rule drop_bit_eq_div)
  moreover have "unat v < 2 ^ 64"
    using unsigned_less [of v] by simp
  ultimately show ?thesis
    by (simp add: getState_def word_less_nat_alt)
qed

lemma state_version_eq: "v = w \<longleftrightarrow> getState v = getState w \<and> versionOf v = versionOf w"
proof
  assume *: "getState v = getState w \<and> versionOf v = versionOf w"
  have "push_bit 56 (drop_bit 56 v) OR take_bit 56 v = push_bit 56 (drop_bit 56 w) OR take_bit 56 w"
    using * by (simp add: getState_def versionOf_def)
  moreover have "push_bit 56 (drop_bit 56 x) OR take_bit 56 x = x" for x :: u64
    by (rule bit_word_eqI) (auto simp: bit_simps)
  ultimately show "v = w" by simp
qed simp

lemma shift_version_eq: "push_bit 8 v = push_bit 8 w \<longleftrightarrow> versionOf v = versionOf w" for v w :: u64
proof
  assume "push_bit 8 v = push_bit 8 w"
  then show "versionOf v = versionOf w" by (metis shift_out_state)
next
  have "push_bit 8 x = push_bit 8 (versionOf x)" for x :: u64
    by (rule bit_word_eqI) (auto simp: versionOf_def bit_simps)
  moreover assume "versionOf v = versionOf w"
  ultimately show "push_bit 8 v = push_bit 8 w" by metis
qed

text \<open>The version as a number, and its increment below the wrap-around.\<close>

lemma versionOf_le: "unat (versionOf v) < 2 ^ 56"
  unfolding versionOf_def unsigned_take_bit_eq by (rule take_bit_nat_less_exp)

lemma versionOf_add1:
  assumes "unat (versionOf v) + 1 < 2 ^ 56"
  shows "versionOf (versionOf v + 1) = versionOf v + 1"
proof -
  have "unat (versionOf v + 1) = unat (versionOf v) + 1"
    using assms by (simp add: unat_word_ariths)
  then have "unat (versionOf v + 1) < 2 ^ 56" using assms by simp
  then show ?thesis
    by (simp only: versionOf_def take_bit_word_small)
qed

lemma nextVersion_below:
  assumes "unat (versionOf v) + 1 < 2 ^ 56"
  shows "s < 256 \<Longrightarrow> getState (nextVersion v s) = s"
    and "versionOf (nextVersion v s) = versionOf v + 1"
    and "unat (versionOf (nextVersion v s)) = unat (versionOf v) + 1"
proof -
  have *: "nextVersion v s = versionOf (versionOf v + 1) OR push_bit 56 s"
    using versionOf_add1 [OF assms] by (simp add: nextVersion_def shift_out_state)
  show "s < 256 \<Longrightarrow> getState (nextVersion v s) = s"
    by (simp add: * getState_pack)
  show 2: "versionOf (nextVersion v s) = versionOf v + 1"
    unfolding * versionOf_pack by (rule versionOf_add1 [OF assms])
  show "unat (versionOf (nextVersion v s)) = unat (versionOf v) + 1"
    using assms by (simp add: 2 unat_word_ariths)
qed

text \<open>
  At the wrap-around the increment carries into the state byte: the new state is the
  requested one with its lowest bit set, so an exclusive release leaves a shared lock that
  nobody holds.
\<close>

lemma nextVersion_wrap:
  assumes "unat (versionOf v) = 2 ^ 56 - 1"
  shows "nextVersion v s = push_bit 56 (s OR 1)"
proof -
  have "versionOf v = of_nat (2 ^ 56 - 1)"
    using assms by (rule word_eq_of_nat)
  then have "versionOf v + 1 = push_bit 56 1" by (simp add: push_bit_eq_mult)
  then show ?thesis
    by (simp add: nextVersion_def shift_out_state push_bit_or or.commute)
qed

text \<open>
  What an exclusive release stores. Below the wrap-around the page is unlocked and its
  version has grown by one; at the last version the increment carries into the state byte
  and the released page is left with a shared lock that nobody holds (state 1, version 0).
\<close>

theorem unlockX_word:
  assumes "getState v = Locked"
  shows "\<exists>w. unlockX v = Ret w \<and>
    (if unat (versionOf v) < 2 ^ 56 - 1
     then getState w = Unlocked \<and> unat (versionOf w) = unat (versionOf v) + 1
     else getState w = 1 \<and> versionOf w = 0)"
proof (cases "unat (versionOf v) < 2 ^ 56 - 1")
  case True
  then have "unat (versionOf v) + 1 < 2 ^ 56" by simp
  from nextVersion_below [OF this] True assms show ?thesis by (simp add: unlockX_def)
next
  case False
  then have "unat (versionOf v) = 2 ^ 56 - 1" using versionOf_le [of v] by simp
  from nextVersion_wrap [OF this] have "nextVersion v Unlocked = 2 ^ 56" by (simp add: push_bit_eq_mult)
  with False assms show ?thesis by (simp add: unlockX_def getState_def versionOf_def)
qed

theorem unlockX_word_witness:
  "unlockX (sameVersion 7 Locked) = Ret 8 \<and> getState 8 = Unlocked"
proof -
  have "getState (sameVersion 7 Locked) = Locked" by simp
  from unlockX_word [OF this] show ?thesis
    by (simp add: unlockX_def sameVersion_def nextVersion_def getState_def versionOf_def)
qed

end
