(* ===== verification/Versioned_Lock.thy ===== *)
theory Versioned_Lock
  imports Prelude
begin

text \<open>
  \<open>VersionedLock\<close> of \<open>versioned_lock.hpp\<close>, the latch of a hash table bucket: one
  atomic word whose top bit is the lock and whose other 63 bits are a version. The two
  overloads of \<open>tryLock\<close> and the spinning \<open>lock\<close> are modelled with their
  assertions; \<open>lock\<close> takes, for each iteration, the word at the load and at the
  compare-and-swap.
\<close>

definition vl_init :: u64 where "vl_init = 0"

definition isLocked :: "u64 \<Rightarrow> bool" where
  "isLocked v \<longleftrightarrow> drop_bit 63 v = 1"

definition vl_lock_bit :: u64 where "vl_lock_bit = push_bit 63 1"

fun vl_lock :: "(u64 \<times> u64) list \<Rightarrow> u64 run" where
  "vl_lock [] = Loop"
| "vl_lock ((v, cell) # later) =
     (if drop_bit 63 v = 0 then
        (case cas cell v (v OR vl_lock_bit) of
           (True, c) \<Rightarrow> check (isLocked v) ''VersionedLock::isLocked(v)'' (Ret c)
         | (False, _) \<Rightarrow> vl_lock later)
      else vl_lock later)"

definition vl_tryLock :: "u64 \<Rightarrow> u64 \<Rightarrow> (bool \<times> u64) run" where
  "vl_tryLock cell oldVersion =
     check (drop_bit 63 oldVersion = 0) ''oldVersion >> 63 == 0''
       (Ret (cas cell oldVersion (oldVersion OR vl_lock_bit)))"

definition vl_tryLock_now :: "u64 \<Rightarrow> u64 \<Rightarrow> bool \<times> u64" where
  "vl_tryLock_now v cell =
     (if drop_bit 63 v = 0 then cas cell v (v OR vl_lock_bit) else (False, cell))"

definition vl_unlock :: "u64 \<Rightarrow> u64 run" where
  "vl_unlock cell = check (drop_bit 63 cell = 1) ''version.load() >> 63 == 1''
     (Ret (drop_bit 1 (push_bit 1 cell) + 1))"

section \<open>The lock bit and the version\<close>

lemma top_bit: "drop_bit 63 v = 0 \<or> drop_bit 63 v = 1" for v :: u64
proof -
  have "unat (drop_bit 63 v) = unat v div 2 ^ 63"
    unfolding unat_drop_bit_eq by (rule drop_bit_eq_div)
  moreover have "unat v < 2 * 2 ^ 63" using unsigned_less [of v] by simp
  ultimately have "unat (drop_bit 63 v) < 2" by (simp only: less_mult_imp_div_less)
  then show ?thesis by (auto simp: word_unat_eq_iff)
qed

lemma lock_bit_iff: "drop_bit 63 v = 0 \<longleftrightarrow> \<not> isLocked v"
  using top_bit [of v] by (auto simp: isLocked_def)

lemma isLocked_bit: "isLocked v \<longleftrightarrow> bit v 63"
  using top_bit [of v] by (auto simp: isLocked_def bit_iff_odd_drop_bit)

lemma isLocked_or: "isLocked (v OR vl_lock_bit)"
  by (simp add: isLocked_bit vl_lock_bit_def bit_simps)

lemma version_of_locked: "\<not> isLocked v \<Longrightarrow> drop_bit 1 (push_bit 1 (v OR vl_lock_bit)) = v"
  unfolding drop_push_bit
proof (rule bit_word_eqI)
  fix n assume "\<not> isLocked v" and "n < LENGTH(64)"
  then show "bit (take_bit (LENGTH(64) - 1) (v OR vl_lock_bit)) n = bit v n"
    by (cases "n = 63") (auto simp: isLocked_bit vl_lock_bit_def bit_simps)
qed

lemma unlocked_less: "\<not> isLocked v \<longleftrightarrow> unat v < 2 ^ 63"
proof -
  have "unat (drop_bit 63 v) = unat v div 2 ^ 63"
    unfolding unat_drop_bit_eq by (rule drop_bit_eq_div)
  then show ?thesis
    unfolding lock_bit_iff [symmetric] by (simp add: word_unat_eq_iff div_eq_0_iff)
qed

lemma vl_section:
  assumes "\<not> isLocked v"
  shows "vl_tryLock v v = Ret (True, v OR vl_lock_bit)" and "vl_unlock (v OR vl_lock_bit) = Ret (v + 1)"
    and "isLocked (v + 1) \<longleftrightarrow> unat v = 2 ^ 63 - 1"
proof -
  have "drop_bit 63 v = 0" using assms lock_bit_iff by blast
  then show "vl_tryLock v v = Ret (True, v OR vl_lock_bit)" by (simp add: vl_tryLock_def)
  show "vl_unlock (v OR vl_lock_bit) = Ret (v + 1)"
    unfolding vl_unlock_def version_of_locked [OF assms]
    using isLocked_or [of v] by (simp add: isLocked_def)
  have "unat v < 2 ^ 63" using assms unlocked_less by blast
  then have "unat (v + 1) = unat v + 1" by (simp add: unat_word_ariths)
  then show "isLocked (v + 1) \<longleftrightarrow> unat v = 2 ^ 63 - 1"
    using unlocked_less [of "v + 1"] \<open>unat v < 2 ^ 63\<close> by auto
qed

text \<open>
  C36: one critical section of a bucket. A \<open>tryLock\<close> on the current unlocked word
  succeeds and sets the lock bit, so that no second \<open>tryLock\<close> with the same version can
  succeed, and the \<open>unlock\<close> that ends the section stores the next version; only from the
  last version does it leave the lock bit set.
\<close>

theorem vl_critical_section:
  assumes "\<not> isLocked v"
  shows "\<exists>l. vl_tryLock v v = Ret (True, l) \<and> isLocked l \<and> vl_tryLock l v = Ret (False, l) \<and>
           vl_unlock l = Ret (v + 1) \<and> (isLocked (v + 1) \<longleftrightarrow> unat v = 2 ^ 63 - 1)"
proof -
  have "v OR vl_lock_bit \<noteq> v" using isLocked_or assms by metis
  moreover have "drop_bit 63 v = 0" using assms lock_bit_iff by blast
  ultimately show ?thesis
    using isLocked_or [of v] vl_section [OF assms] by (simp add: vl_tryLock_def cas_def)
qed

theorem vl_critical_section_witness: "vl_tryLock 5 5 = Ret (True, 5 OR vl_lock_bit) \<and>
  vl_unlock (5 OR vl_lock_bit) = Ret 6"
proof -
  have "\<not> isLocked 5" by (simp add: isLocked_def)
  from vl_critical_section [OF this] show ?thesis by (auto simp: vl_tryLock_def)
qed

text \<open>
  \<open>lock\<close> cannot return in the debug build. Its assertion looks at the expected value,
  which a successful compare-and-swap leaves as it was (unlocked), so every acquisition
  ends in the failed assertion, whatever the other threads do; \<open>unlocked\<close> iterations
  that lose the race only spin.
\<close>

theorem vl_lock_never_returns:
  "vl_lock sched = Loop \<or> vl_lock sched = Err (Assertion ''VersionedLock::isLocked(v)'')"
  by (induction sched rule: vl_lock.induct)
    (auto simp: lock_bit_iff cas_def check_def)

end
