(* ===== verification/Hash_Table.thy ===== *)
theory Hash_Table
  imports Hashing Page_State Versioned_Lock "HOL-Library.Multiset"
begin

text \<open>
  \<open>HTBufferManager\<close> of \<open>ht.hpp\<close> and \<open>BufferFrame\<close> of \<open>buffer_frame.hpp\<close>: the
  chained hash table of buffer frames, with the first entry of a bucket inlined in the bucket
  head. Chain entries live in a heap of entries addressed by position, linked by their
  \<open>next\<close> pointers; removed entries go to a free queue and are used again. The operations
  are those of one thread running alone, so a bucket that is locked makes them spin
  (\<open>Loop\<close>); the latches, the page states and the assertions are those of the source. The
  queues are \<open>moodycamel::ConcurrentQueue\<close>: which of its elements \<open>try_dequeue\<close> returns, and
  whether it returns one at all, is the parameter \<open>deq\<close>.
\<close>

section \<open>Frames, entries and buckets\<close>

record frame =
  bpid :: PID
  bpage :: "nat option"
  bstate :: u64
  intendedSlot :: bool

record entry =
  ebf :: frame
  enext :: "nat option"

record chain_head =
  hlock :: u64
  head :: entry

record htab =
  table :: "chain_head list"
  heap :: "entry list"
  entryFreeList :: "nat list"
  hcount :: u64

text \<open>The address of a frame: in the head of a bucket, or in an entry of the heap.\<close>

datatype fref = Head nat | Chain nat

definition new_entry :: "PID \<Rightarrow> nat option \<Rightarrow> nat option \<Rightarrow> entry" where
  "new_entry pid page nxt =
     \<lparr>ebf = \<lparr>bpid = pid, bpage = page, bstate = ps_init, intendedSlot = False\<rparr>, enext = nxt\<rparr>"

definition new_chain_head :: chain_head where
  "new_chain_head = \<lparr>hlock = vl_init, head = new_entry pid_none None None\<rparr>"

definition ht_new :: "u64 \<Rightarrow> htab" where
  "ht_new n = \<lparr>table = replicate (unat n) new_chain_head, heap = [], entryFreeList = [],
     hcount = n\<rparr>"

definition isInlined :: "fref \<Rightarrow> bool" where
  "isInlined r = (case r of Head i \<Rightarrow> True | Chain e \<Rightarrow> False)"

definition frame_at :: "htab \<Rightarrow> fref \<Rightarrow> frame" where
  "frame_at t r = (case r of Head i \<Rightarrow> ebf (head (table t ! i)) | Chain e \<Rightarrow> ebf (heap t ! e))"

definition upd_head :: "nat \<Rightarrow> (entry \<Rightarrow> entry) \<Rightarrow> htab \<Rightarrow> htab" where
  "upd_head i f t = t\<lparr>table := (table t)[i := (table t ! i)\<lparr>head := f (head (table t ! i))\<rparr>]\<rparr>"

definition upd_entry :: "nat \<Rightarrow> (entry \<Rightarrow> entry) \<Rightarrow> htab \<Rightarrow> htab" where
  "upd_entry e f t = t\<lparr>heap := (heap t)[e := f (heap t ! e)]\<rparr>"

definition upd_lock :: "nat \<Rightarrow> u64 \<Rightarrow> htab \<Rightarrow> htab" where
  "upd_lock i v t = t\<lparr>table := (table t)[i := (table t ! i)\<lparr>hlock := v\<rparr>]\<rparr>"

definition upd_frame :: "fref \<Rightarrow> (frame \<Rightarrow> frame) \<Rightarrow> htab \<Rightarrow> htab" where
  "upd_frame r f = (case r of
      Head i \<Rightarrow> upd_head i (\<lambda>en. en\<lparr>ebf := f (ebf en)\<rparr>)
    | Chain e \<Rightarrow> upd_entry e (\<lambda>en. en\<lparr>ebf := f (ebf en)\<rparr>))"

definition moveContents :: "frame \<Rightarrow> frame \<Rightarrow> frame \<times> frame" where
  "moveContents bf other =
     (bf\<lparr>bpage := bpage other, bpid := bpid other, intendedSlot := intendedSlot other\<rparr>,
      other\<lparr>bpage := None, bpid := pid_none, intendedSlot := False\<rparr>)"

section \<open>Walking a chain\<close>

text \<open>The entry with the given page id, and the same with the entry before it.\<close>

fun find_chain :: "nat \<Rightarrow> entry list \<Rightarrow> PID \<Rightarrow> nat option \<Rightarrow> nat option run" where
  "find_chain fuel es pid None = Ret None"
| "find_chain 0 es pid (Some e) = Loop"
| "find_chain (Suc fuel) es pid (Some e) =
     bind_run (aget es e) (\<lambda>en.
       if bpid (ebf en) = pid then Ret (Some e) else find_chain fuel es pid (enext en))"

fun find_prev ::
  "nat \<Rightarrow> entry list \<Rightarrow> PID \<Rightarrow> nat option \<Rightarrow> nat option \<Rightarrow> (nat option \<times> nat option) run" where
  "find_prev fuel es pid prev None = Ret (prev, None)"
| "find_prev 0 es pid prev (Some e) = Loop"
| "find_prev (Suc fuel) es pid prev (Some e) =
     bind_run (aget es e) (\<lambda>en.
       if bpid (ebf en) = pid then Ret (prev, Some e) else find_prev fuel es pid (Some e) (enext en))"

text \<open>Writing the \<open>next\<close> pointer of the entry before, or of the head.\<close>

definition set_next :: "nat \<Rightarrow> nat option \<Rightarrow> nat option \<Rightarrow> htab \<Rightarrow> htab" where
  "set_next i prev nxt t = (case prev of
      None \<Rightarrow> upd_head i (\<lambda>en. en\<lparr>enext := nxt\<rparr>) t
    | Some p \<Rightarrow> upd_entry p (\<lambda>en. en\<lparr>enext := nxt\<rparr>) t)"

section \<open>insert\<close>

text \<open>Locking the frame at \<open>r\<close> for its new page, then unlocking the bucket.\<close>

definition lock_new_frame :: "nat \<Rightarrow> fref \<Rightarrow> htab \<Rightarrow> (fref option \<times> htab) run" where
  "lock_new_frame i r t =
     (let v = bstate (frame_at t r) in
      check (getState v = Invalid) ''PageState::getState(v) == PageState::Invalid''
        (bind_run (tryLockX v v) (\<lambda>(succ, w).
          check succ ''succ''
            (bind_run (vl_unlock (hlock (table t ! i))) (\<lambda>lk.
              let t = upd_lock i lk (upd_frame r (\<lambda>bf. bf\<lparr>bstate := w\<rparr>) t) in
              check (getState (bstate (frame_at t r)) = Locked)
                ''bf.state.getState() == PageState::Locked'' (Ret (Some r, t)))))))"

text \<open>An entry from the free queue, or a new one.\<close>

definition take_entry ::
  "(nat list \<Rightarrow> (nat \<times> nat list) option) \<Rightarrow> PID \<Rightarrow> nat option \<Rightarrow> htab \<Rightarrow> nat \<times> htab" where
  "take_entry deq pid nxt t = (case deq (entryFreeList t) of
      Some (e, q) \<Rightarrow>
        (e, upd_entry e (\<lambda>en. en\<lparr>ebf := (ebf en)\<lparr>bpid := pid\<rparr>, enext := nxt\<rparr>) (t\<lparr>entryFreeList := q\<rparr>))
    | None \<Rightarrow> (length (heap t), t\<lparr>heap := heap t @ [new_entry pid None nxt]\<rparr>))"

definition ht_insert ::
  "(nat list \<Rightarrow> (nat \<times> nat list) option) \<Rightarrow> PID \<Rightarrow> u64 \<Rightarrow> htab \<Rightarrow> (fref option \<times> htab) run" where
  "ht_insert deq pid hash t =
     (let i = unat (ht_index (hcount t) hash) in
      bind_run (aget (table t) i) (\<lambda>b.
        let v = hlock b in
        if isLocked v then Loop
        else if bpid (ebf (head b)) = pid then Ret (None, t)
        else bind_run (find_chain (length (heap t)) (heap t) pid (enext (head b))) (\<lambda>found.
          if found \<noteq> None then Ret (None, t)
          else bind_run (vl_tryLock (hlock b) v) (\<lambda>(succ, lk).
            if \<not> succ then Loop
            else
              let t = upd_lock i lk t in
              bind_run (find_chain (length (heap t)) (heap t) pid (enext (head b))) (\<lambda>again.
                check (bpid (ebf (head b)) \<noteq> pid \<and> again = None) ''cur->bf.pid != pid''
                  (if bpid (ebf (head b)) = pid_none then
                     lock_new_frame i (Head i) (upd_frame (Head i) (\<lambda>bf. bf\<lparr>bpid := pid\<rparr>) t)
                   else
                     let (e, t) = take_entry deq pid (enext (head b)) t
                     in lock_new_frame i (Chain e) (upd_head i (\<lambda>en. en\<lparr>enext := Some e\<rparr>) t)))))))"

section \<open>remove\<close>

text \<open>
  The page's frame must be locked exclusively. The branch under \<open>if (false && ...)\<close> is dead
  code and left out.
\<close>

definition ht_remove :: "PID \<Rightarrow> u64 \<Rightarrow> htab \<Rightarrow> (bool \<times> htab) run" where
  "ht_remove pid hash t =
     (let i = unat (ht_index (hcount t) hash) in
      bind_run (aget (table t) i) (\<lambda>b.
        let v = hlock b in
        if isLocked v then Loop
        else bind_run (vl_tryLock (hlock b) v) (\<lambda>(succ, lk).
          if \<not> succ then Loop
          else
            let t = upd_lock i lk t in
            if bpid (ebf (head b)) = pid then
              check (getState (bstate (ebf (head b))) = Locked)
                ''bucket.head.bf.state.getState() == PageState::Locked''
                (bind_run (unlockXInvalid (bstate (ebf (head b)))) (\<lambda>w.
                  let t = upd_frame (Head i) (\<lambda>bf. bf\<lparr>bpid := pid_none, bpage := None, bstate := w\<rparr>) t in
                  bind_run (vl_unlock (hlock (table t ! i))) (\<lambda>lk. Ret (True, upd_lock i lk t))))
            else
              bind_run (find_prev (length (heap t)) (heap t) pid None (enext (head b))) (\<lambda>(prev, cur).
                case cur of
                  None \<Rightarrow> bind_run (vl_unlock lk) (\<lambda>lk. Ret (False, upd_lock i lk t))
                | Some e \<Rightarrow>
                    check (getState (bstate (frame_at t (Chain e))) = Locked)
                      ''(*cur)->bf.state.getState() == PageState::Locked''
                      (let t = upd_frame (Chain e) (\<lambda>bf. bf\<lparr>bpid := pid_none, bpage := None\<rparr>) t;
                           t = set_next i prev (enext (heap t ! e)) t
                       in bind_run (vl_unlock (hlock (table t ! i))) (\<lambda>lk.
                            let t = upd_lock i lk t in
                            bind_run (unlockXInvalid (bstate (frame_at t (Chain e)))) (\<lambda>w.
                              let t = upd_frame (Chain e) (\<lambda>bf. bf\<lparr>bstate := w\<rparr>) t in
                              Ret (True, t\<lparr>entryFreeList := entryFreeList t @ [e]\<rparr>))))))))"

section \<open>access\<close>

text \<open>
  Moving a found chain entry into an empty head. The guard is the source's expression as C++
  parses it, \<open>getRandU64() & (7 == 0)\<close>.
\<close>

definition move_guard :: "u64 \<Rightarrow> bool" where
  "move_guard r \<longleftrightarrow> r AND (if (7 :: u64) = 0 then 1 else 0) \<noteq> 0"

definition move_to_head ::
  "nat \<Rightarrow> nat option \<Rightarrow> nat \<Rightarrow> u64 \<Rightarrow> htab \<Rightarrow> ((fref option \<times> u64) \<times> htab) run" where
  "move_to_head i prev e vEntry t =
     bind_run (vl_tryLock (hlock (table t ! i)) (hlock (table t ! i))) (\<lambda>(_, lk).
       let t = upd_lock i lk t;
           vHeader = bstate (frame_at t (Head i))
       in bind_run (tryLockX vHeader vHeader) (\<lambda>(succ, w).
         check succ ''succ''
           (let t = upd_frame (Head i) (\<lambda>bf. bf\<lparr>bstate := w\<rparr>) t in
            if getState vEntry = Unlocked then
              bind_run (tryLockX (bstate (frame_at t (Chain e))) vEntry) (\<lambda>(_, we).
                let (bf, other) = moveContents (frame_at t (Head i)) ((frame_at t (Chain e))\<lparr>bstate := we\<rparr>);
                    t = upd_frame (Head i) (\<lambda>_. bf) (upd_frame (Chain e) (\<lambda>_. other) t);
                    t = set_next i prev (enext (heap t ! e)) t
                in bind_run (unlockXInvalid we) (\<lambda>wi.
                   bind_run (unlockX w) (\<lambda>wh.
                   bind_run (vl_unlock lk) (\<lambda>lk.
                     let t = upd_frame (Chain e) (\<lambda>bf. bf\<lparr>bstate := wi\<rparr>) t;
                         t = t\<lparr>entryFreeList := entryFreeList t @ [e]\<rparr>;
                         t = upd_lock i lk (upd_frame (Head i) (\<lambda>bf. bf\<lparr>bstate := wh\<rparr>) t)
                     in Ret ((Some (Head i), wh), t)))))
            else
              bind_run (unlockXInvalid w) (\<lambda>wi.
              bind_run (vl_unlock lk) (\<lambda>lk.
                let t = upd_lock i lk (upd_frame (Head i) (\<lambda>bf. bf\<lparr>bstate := wi\<rparr>) t)
                in Ret ((Some (Chain e), vEntry), t))))))"

definition ht_access ::
  "bool \<Rightarrow> u64 \<Rightarrow> PID \<Rightarrow> u64 \<Rightarrow> htab \<Rightarrow> ((fref option \<times> u64) \<times> htab) run" where
  "ht_access move r pid hash t =
     (let i = unat (ht_index (hcount t) hash) in
      bind_run (aget (table t) i) (\<lambda>b.
        if isLocked (hlock b) then Loop
        else if bpid (ebf (head b)) = pid then Ret ((Some (Head i), bstate (ebf (head b))), t)
        else bind_run (find_prev (length (heap t)) (heap t) pid None (enext (head b))) (\<lambda>(prev, cur).
          case cur of
            None \<Rightarrow> Ret ((None, 0), t)
          | Some e \<Rightarrow>
              let vEntry = bstate (frame_at t (Chain e)) in
              if move \<and> bpid (ebf (head b)) = pid_none \<and> move_guard r
              then move_to_head i prev e vEntry t
              else Ret ((Some (Chain e), vEntry), t))))"

section \<open>Reachable entries and the invariant\<close>

fun path :: "entry list \<Rightarrow> nat option \<Rightarrow> nat list \<Rightarrow> bool" where
  "path es p [] \<longleftrightarrow> p = None"
| "path es p (e # xs) \<longleftrightarrow> p = Some e \<and> e < length es \<and> path es (enext (es ! e)) xs"

definition home :: "htab \<Rightarrow> PID \<Rightarrow> nat" where
  "home t p = unat (ht_index (hcount t) (hashPID p 0))"

abbreviation buckets :: "htab \<Rightarrow> nat" where "buckets t \<equiv> length (table t)"

text \<open>The frames of bucket \<open>i\<close> when \<open>chs i\<close> lists its chain; all frames in use or in a head.\<close>

definition bucket :: "(nat \<Rightarrow> nat list) \<Rightarrow> nat \<Rightarrow> fref set" where
  "bucket chs i = insert (Head i) (Chain ` set (chs i))"

definition all_refs :: "(nat \<Rightarrow> nat list) \<Rightarrow> htab \<Rightarrow> fref set" where
  "all_refs chs t = (\<Union>i < buckets t. bucket chs i)"

definition pid_at :: "htab \<Rightarrow> fref \<Rightarrow> PID" where
  "pid_at t r = bpid (frame_at t r)"

definition shape :: "(nat \<Rightarrow> nat list) \<Rightarrow> htab \<Rightarrow> bool" where
  "shape chs t \<longleftrightarrow> buckets t = unat (hcount t) \<and> 0 < hcount t \<and>
     (\<forall>i < buckets t. path (heap t) (enext (head (table t ! i))) (chs i) \<and> distinct (chs i) \<and>
        set (chs i) \<inter> set (entryFreeList t) = {}) \<and>
     (\<forall>i < buckets t. \<forall>j < buckets t. i \<noteq> j \<longrightarrow> set (chs i) \<inter> set (chs j) = {}) \<and>
     distinct (entryFreeList t) \<and> (\<forall>e \<in> set (entryFreeList t). e < length (heap t))"

text \<open>
  Every page id is in its home bucket and in one frame only; only heads can be empty, and
  frames that hold no page are invalid.
\<close>

definition content :: "(nat \<Rightarrow> nat list) \<Rightarrow> htab \<Rightarrow> bool" where
  "content chs t \<longleftrightarrow>
     (\<forall>i < buckets t. \<forall>r \<in> bucket chs i. pid_at t r \<noteq> pid_none \<longrightarrow> home t (pid_at t r) = i) \<and>
     (\<forall>r \<in> all_refs chs t. \<forall>r' \<in> all_refs chs t. pid_at t r \<noteq> pid_none \<longrightarrow> pid_at t r = pid_at t r' \<longrightarrow> r = r') \<and>
     (\<forall>r \<in> all_refs chs t. pid_at t r = pid_none \<longrightarrow> isInlined r \<and> getState (bstate (frame_at t r)) = Invalid) \<and>
     (\<forall>e \<in> set (entryFreeList t). getState (bstate (frame_at t (Chain e))) = Invalid)"

text \<open>No bucket is locked, and none reaches the last version within \<open>n\<close> more operations.\<close>

definition lock_room :: "nat \<Rightarrow> htab \<Rightarrow> bool" where
  "lock_room n t \<longleftrightarrow> (\<forall>b \<in> set (table t). unat (hlock b) + n < 2 ^ 63)"

definition ht_ok :: "nat \<Rightarrow> htab \<Rightarrow> bool" where
  "ht_ok n t \<longleftrightarrow> lock_room n t \<and> (\<exists>chs. shape chs t \<and> content chs t)"

definition ht_lookup :: "htab \<Rightarrow> PID \<Rightarrow> fref option" where
  "ht_lookup t p =
     (let i = home t p; b = table t ! i in
      if p = pid_none then None
      else if bpid (ebf (head b)) = p then Some (Head i)
      else case find_chain (length (heap t)) (heap t) p (enext (head b)) of
          Ret (Some e) \<Rightarrow> Some (Chain e)
        | _ \<Rightarrow> None)"

section \<open>Chains\<close>

lemma path_length: "path es p xs \<Longrightarrow> set xs \<subseteq> {..< length es}"
  by (induction xs arbitrary: p) auto

lemma path_fuel: "path es p xs \<Longrightarrow> distinct xs \<Longrightarrow> length xs \<le> length es"
  using path_length [of es p xs] card_mono [of "{..< length es}" "set xs"] by (simp add: distinct_card)

lemma find_chain_path:
  "path es p xs \<Longrightarrow> length xs \<le> fuel \<Longrightarrow>
    find_chain fuel es pid p = Ret (find (\<lambda>e. bpid (ebf (es ! e)) = pid) xs)"
proof (induction xs arbitrary: p fuel)
  case (Cons e xs)
  then show ?case by (cases fuel) auto
qed simp

lemma find_prev_hit:
  "path es p (us @ e # ws) \<Longrightarrow> length us < fuel \<Longrightarrow> bpid (ebf (es ! e)) = pid \<Longrightarrow>
    \<forall>u \<in> set us. bpid (ebf (es ! u)) \<noteq> pid \<Longrightarrow>
    find_prev fuel es pid prev p = Ret (if us = [] then prev else Some (last us), Some e)"
proof (induction us arbitrary: p fuel prev)
  case Nil
  then show ?case by (cases fuel) auto
next
  case (Cons u us)
  then show ?case by (cases fuel) auto
qed

lemma find_prev_miss:
  "path es p xs \<Longrightarrow> length xs \<le> fuel \<Longrightarrow> \<forall>u \<in> set xs. bpid (ebf (es ! u)) \<noteq> pid \<Longrightarrow>
    \<exists>prev'. find_prev fuel es pid prev p = Ret (prev', None)"
proof (induction xs arbitrary: p fuel prev)
  case (Cons u xs)
  then show ?case by (cases fuel) auto
qed simp

text \<open>A chain is not affected by changes of other entries, or of the frames of its own.\<close>

lemma path_cong:
  "path es p xs \<Longrightarrow> length es \<le> length es' \<Longrightarrow> \<forall>e \<in> set xs. enext (es' ! e) = enext (es ! e) \<Longrightarrow> path es' p xs"
  by (induction xs arbitrary: p) auto

lemma path_upd [simp]: "e \<notin> set xs \<Longrightarrow> path (es[e := x]) p xs = path es p xs"
  by (induction xs arbitrary: p) auto

lemma path_unlink:
  "path es p (us @ e # ws) \<Longrightarrow> distinct (us @ e # ws) \<Longrightarrow> us \<noteq> [] \<Longrightarrow>
    path (es[last us := (es ! last us)\<lparr>enext := enext (es ! e)\<rparr>]) p (us @ ws)"
proof (induction us arbitrary: p)
  case (Cons u us)
  show ?case
  proof (cases "us = []")
    case True
    then have "path es (enext (es ! e)) ws" "u \<notin> set ws" "u < length es" "p = Some u" using Cons.prems by auto
    then show ?thesis using True by (auto intro: path_cong)
  next
    case False
    then have "last us \<noteq> u" using Cons.prems(2) by auto
    then show ?thesis using Cons False by auto
  qed
qed simp

lemma path_suffix: "path es p (us @ e # ws) \<Longrightarrow> path es (enext (es ! e)) ws \<and> e < length es"
  by (induction us arbitrary: p) auto

lemma path_head: "path es p (e # ws) \<Longrightarrow> p = Some e"
  by simp

section \<open>Lookup\<close>

lemma hashPID_frames: "hashPID p n = hashPID p 0"
  by (simp add: hashPID_def Let_def)

lemma home_less: "shape chs t \<Longrightarrow> home t p < buckets t"
  using ht_index_less [of "hcount t"] by (simp add: shape_def home_def)

lemma shapeD:
  assumes "shape chs t" and "i < buckets t"
  shows "path (heap t) (enext (head (table t ! i))) (chs i)" "distinct (chs i)"
    "length (chs i) \<le> length (heap t)"
  using assms path_fuel unfolding shape_def by blast+

lemma find_eq_Some: "find P xs = Some e \<Longrightarrow> e \<in> set xs \<and> P e"
  by (induction xs) (auto split: if_splits)

lemma find_eq_None: "find P xs = None \<longleftrightarrow> (\<forall>e \<in> set xs. \<not> P e)"
  by (induction xs) auto

lemma bucket_all: "i < buckets t \<Longrightarrow> r \<in> bucket chs i \<Longrightarrow> r \<in> all_refs chs t"
  by (auto simp: all_refs_def)

lemma lookup_chain:
  assumes "shape chs t" and "p \<noteq> pid_none"
  shows "ht_lookup t p =
    (if pid_at t (Head (home t p)) = p then Some (Head (home t p))
     else map_option Chain (find (\<lambda>e. pid_at t (Chain e) = p) (chs (home t p))))"
  using find_chain_path [OF shapeD(1) shapeD(3), OF assms(1) home_less [OF assms(1)] assms(1) home_less [OF assms(1)], of p]
  by (simp add: ht_lookup_def Let_def assms(2) pid_at_def frame_at_def split: option.split)

lemma lookup_chainD:
  assumes "shape chs t" and "p \<noteq> pid_none" and "ht_lookup t p = Some r"
  shows "if pid_at t (Head (home t p)) = p then r = Head (home t p)
    else \<exists>e. find (\<lambda>e. pid_at t (Chain e) = p) (chs (home t p)) = Some e \<and> e \<in> set (chs (home t p)) \<and>
      pid_at t (Chain e) = p \<and> r = Chain e"
  using assms(3) find_eq_Some unfolding lookup_chain [OF assms(1,2)] by (fastforce split: if_splits)

lemma lookup_iff:
  assumes "shape chs t" and "content chs t" and "p \<noteq> pid_none"
  shows "ht_lookup t p = Some r \<longleftrightarrow> r \<in> all_refs chs t \<and> pid_at t r = p"
proof
  assume "ht_lookup t p = Some r"
  then have "r \<in> bucket chs (home t p) \<and> pid_at t r = p"
    using lookup_chain [OF assms(1,3)] find_eq_Some [of "\<lambda>e. pid_at t (Chain e) = p" "chs (home t p)"]
    by (auto simp: bucket_def split: if_splits)
  then show "r \<in> all_refs chs t \<and> pid_at t r = p"
    using bucket_all home_less [OF assms(1)] by blast
next
  assume r: "r \<in> all_refs chs t \<and> pid_at t r = p"
  then obtain i where "i < buckets t" "r \<in> bucket chs i" by (auto simp: all_refs_def)
  moreover from this have "home t p = i" using r assms(2,3) by (auto simp: content_def)
  ultimately have b: "r \<in> bucket chs (home t p)" by simp
  have uniq: "r' = r" if "r' \<in> all_refs chs t" "pid_at t r' = p" for r'
    using that r assms(2,3) by (auto simp: content_def)
  have "ht_lookup t p \<noteq> None"
    using b r lookup_chain [OF assms(1,3)] find_eq_None [of "\<lambda>e. pid_at t (Chain e) = p" "chs (home t p)"]
    by (auto simp: bucket_def)
  then obtain r' where r': "ht_lookup t p = Some r'" by blast
  then have "r' \<in> bucket chs (home t p) \<and> pid_at t r' = p"
    using lookup_chain [OF assms(1,3)] find_eq_Some [of "\<lambda>e. pid_at t (Chain e) = p" "chs (home t p)"]
    by (auto simp: bucket_def split: if_splits)
  then show "ht_lookup t p = Some r"
    using uniq [of r'] bucket_all home_less [OF assms(1)] r' by blast
qed

section \<open>What the updates leave alone\<close>

named_theorems ht_simps \<open>selectors applied to the updates of a table\<close>

definition valid_ref :: "htab \<Rightarrow> fref \<Rightarrow> bool" where
  "valid_ref t r = (case r of Head i \<Rightarrow> i < buckets t | Chain e \<Rightarrow> e < length (heap t))"

lemma valid_ref_iff [simp]: "valid_ref t (Head i) \<longleftrightarrow> i < buckets t" "valid_ref t (Chain e) \<longleftrightarrow> e < length (heap t)"
  by (simp_all add: valid_ref_def)

lemma buckets_upd [simp]:
  "buckets (upd_head i f t) = buckets t" "buckets (upd_entry e f t) = buckets t"
  "buckets (upd_lock i v t) = buckets t" "buckets (upd_frame r g t) = buckets t"
  "buckets (set_next i p n t) = buckets t"
  by (simp_all add: upd_head_def upd_entry_def upd_lock_def upd_frame_def set_next_def split: fref.split option.split)

lemma hcount_upd [simp]:
  "hcount (upd_head i f t) = hcount t" "hcount (upd_entry e f t) = hcount t"
  "hcount (upd_lock i v t) = hcount t" "hcount (upd_frame r g t) = hcount t"
  "hcount (set_next i p n t) = hcount t"
  by (simp_all add: upd_head_def upd_entry_def upd_lock_def upd_frame_def set_next_def split: fref.split option.split)

lemma free_upd [simp]:
  "entryFreeList (upd_head i f t) = entryFreeList t" "entryFreeList (upd_entry e f t) = entryFreeList t"
  "entryFreeList (upd_lock i v t) = entryFreeList t" "entryFreeList (upd_frame r g t) = entryFreeList t"
  "entryFreeList (set_next i p n t) = entryFreeList t"
  by (simp_all add: upd_head_def upd_entry_def upd_lock_def upd_frame_def set_next_def split: fref.split option.split)

lemma heap_length_upd [simp]:
  "length (heap (upd_head i f t)) = length (heap t)" "length (heap (upd_entry e f t)) = length (heap t)"
  "length (heap (upd_lock i v t)) = length (heap t)" "length (heap (upd_frame r g t)) = length (heap t)"
  "length (heap (set_next i p n t)) = length (heap t)"
  by (simp_all add: upd_head_def upd_entry_def upd_lock_def upd_frame_def set_next_def split: fref.split option.split)

lemma heap_upd [simp]: "heap (upd_head i f t) = heap t" "heap (upd_lock i v t) = heap t"
  by (simp_all add: upd_head_def upd_lock_def)

lemma table_nth_upd:
  "k < buckets t \<Longrightarrow> table (upd_head i f t) ! k = (if k = i then (table t ! k)\<lparr>head := f (head (table t ! k))\<rparr> else table t ! k)"
  "k < buckets t \<Longrightarrow> table (upd_lock i v t) ! k = (if k = i then (table t ! k)\<lparr>hlock := v\<rparr> else table t ! k)"
  "table (upd_entry e g t) = table t"
  by (simp_all add: upd_head_def upd_lock_def upd_entry_def nth_list_update)

lemma hlock_upd [simp]:
  "hlock (table (upd_head i f t) ! k) = hlock (table t ! k)"
  "hlock (table (upd_entry e f t) ! k) = hlock (table t ! k)"
  "hlock (table (upd_frame r g t) ! k) = hlock (table t ! k)"
  "hlock (table (set_next j p n t) ! k) = hlock (table t ! k)"
  "k < buckets t \<Longrightarrow> hlock (table (upd_lock i v t) ! k) = (if k = i then v else hlock (table t ! k))"
proof -
  show head: "hlock (table (upd_head i f t) ! k) = hlock (table t ! k)" for i f
    by (cases "i < buckets t") (auto simp: upd_head_def nth_list_update list_update_beyond)
  show "hlock (table (upd_entry e f t) ! k) = hlock (table t ! k)" by (simp add: upd_entry_def)
  show "hlock (table (upd_frame r g t) ! k) = hlock (table t ! k)"
    by (simp add: upd_frame_def head upd_entry_def split: fref.split)
  show "hlock (table (set_next j p n t) ! k) = hlock (table t ! k)"
    by (simp add: set_next_def head upd_entry_def split: option.split)
qed (simp add: upd_lock_def nth_list_update)

lemma frame_at_free [simp]: "frame_at (t\<lparr>entryFreeList := q\<rparr>) r = frame_at t r"
  by (simp add: frame_at_def split: fref.split)

lemma frame_at_lock [simp]: "frame_at (upd_lock i v t) r = frame_at t r"
  by (cases "i < buckets t")
    (auto simp: frame_at_def upd_lock_def nth_list_update list_update_beyond split: fref.split)

lemma frame_at_upd:
  "valid_ref t r \<Longrightarrow> frame_at (upd_frame r f t) r' = (if r' = r then f (frame_at t r) else frame_at t r')"
  by (cases r; cases r')
    (auto simp: frame_at_def upd_frame_def upd_head_def upd_entry_def nth_list_update)

lemma frame_at_next [simp]:
  "frame_at (upd_head i (\<lambda>en. en\<lparr>enext := n\<rparr>) t) r = frame_at t r"
  "frame_at (upd_entry e (\<lambda>en. en\<lparr>enext := n\<rparr>) t) r = frame_at t r"
proof -
  show "frame_at (upd_head i (\<lambda>en. en\<lparr>enext := n\<rparr>) t) r = frame_at t r"
    by (cases "i < buckets t")
      (auto simp: frame_at_def upd_head_def nth_list_update list_update_beyond split: fref.split)
  show "frame_at (upd_entry e (\<lambda>en. en\<lparr>enext := n\<rparr>) t) r = frame_at t r"
    by (cases "e < length (heap t)")
      (auto simp: frame_at_def upd_entry_def nth_list_update list_update_beyond split: fref.split)
qed

lemma frame_at_set_next [simp]: "frame_at (set_next i p n t) r = frame_at t r"
  by (simp add: set_next_def split: option.split)

text \<open>The \<open>next\<close> pointers, which frame and latch updates keep.\<close>

definition next_at :: "htab \<Rightarrow> fref \<Rightarrow> nat option" where
  "next_at t r = (case r of Head i \<Rightarrow> enext (head (table t ! i)) | Chain e \<Rightarrow> enext (heap t ! e))"

lemma next_at_upd [simp]:
  "next_at (upd_frame r f t) r' = next_at t r'"
  "next_at (upd_lock i v t) r' = next_at t r'"
  "next_at (t\<lparr>entryFreeList := q\<rparr>) r' = next_at t r'"
proof -
  show "next_at (upd_frame r f t) r' = next_at t r'"
  proof (cases "valid_ref t r")
    case True
    then show ?thesis
      by (cases r; cases r') (auto simp: next_at_def upd_frame_def upd_head_def upd_entry_def nth_list_update)
  next
    case False
    then show ?thesis
      by (cases r; cases r') (auto simp: next_at_def upd_frame_def upd_head_def upd_entry_def list_update_beyond)
  qed
  show "next_at (upd_lock i v t) r' = next_at t r'"
    by (cases "i < buckets t")
      (auto simp: next_at_def upd_lock_def nth_list_update list_update_beyond split: fref.split)
qed (simp add: next_at_def split: fref.split)

lemma path_next:
  "path (heap t) p xs \<Longrightarrow> length (heap t) \<le> length (heap t') \<Longrightarrow>
    \<forall>e \<in> set xs. next_at t' (Chain e) = next_at t (Chain e) \<Longrightarrow> path (heap t') p xs"
  by (erule path_cong) (simp_all add: next_at_def)

lemma shape_cong:
  assumes "shape chs t" and "buckets t' = buckets t" and "hcount t' = hcount t"
    and "length (heap t) \<le> length (heap t')" and "entryFreeList t' = entryFreeList t"
    and "\<And>r. r \<in> all_refs chs t \<Longrightarrow> next_at t' r = next_at t r"
  shows "shape chs t'"
proof -
  have "path (heap t') (enext (head (table t' ! i))) (chs i)" if i: "i < buckets t" for i
  proof -
    have "next_at t' (Head i) = next_at t (Head i)" and ch: "\<forall>e \<in> set (chs i). next_at t' (Chain e) = next_at t (Chain e)"
      using assms(6) bucket_all [OF i, of _ chs] by (auto simp: bucket_def)
    then have "enext (head (table t' ! i)) = enext (head (table t ! i))" by (simp add: next_at_def)
    then show ?thesis using path_next [OF shapeD(1) [OF assms(1) i] assms(4) ch] by simp
  qed
  moreover have "\<forall>e \<in> set (entryFreeList t). e < length (heap t')"
    using assms(1,4) by (auto simp: shape_def)
  ultimately show ?thesis using assms(1,2,3,5) by (simp add: shape_def)
qed

section \<open>Changes of the content\<close>

lemma contentD:
  assumes "content chs t"
  shows "i < buckets t \<Longrightarrow> r \<in> bucket chs i \<Longrightarrow> pid_at t r \<noteq> pid_none \<Longrightarrow> home t (pid_at t r) = i"
    and "r \<in> all_refs chs t \<Longrightarrow> r' \<in> all_refs chs t \<Longrightarrow> pid_at t r \<noteq> pid_none \<Longrightarrow> pid_at t r = pid_at t r' \<Longrightarrow> r = r'"
    and "r \<in> all_refs chs t \<Longrightarrow> pid_at t r = pid_none \<Longrightarrow> isInlined r \<and> getState (bstate (frame_at t r)) = Invalid"
    and "e \<in> set (entryFreeList t) \<Longrightarrow> getState (bstate (frame_at t (Chain e))) = Invalid"
  using assms by (simp_all add: content_def)

lemma home_cong: "hcount t' = hcount t \<Longrightarrow> home t' p = home t p"
  by (simp add: home_def)

text \<open>One frame of bucket \<open>home t p\<close> takes a page that is not in the table.\<close>

lemma content_insert:
  assumes c: "content chs t" and t': "buckets t' = buckets t" "hcount t' = hcount t"
    and old: "\<And>i r. i < buckets t \<Longrightarrow> r \<in> bucket chs' i \<Longrightarrow> r \<noteq> r0 \<Longrightarrow> r \<in> bucket chs i \<and> frame_at t' r = frame_at t r"
    and r0: "\<And>i. i < buckets t \<Longrightarrow> r0 \<in> bucket chs' i \<Longrightarrow> i = home t p" "pid_at t' r0 = p" "p \<noteq> pid_none"
    and new: "\<forall>r \<in> all_refs chs t. pid_at t r \<noteq> p"
    and free: "set (entryFreeList t') \<subseteq> set (entryFreeList t)"
      "\<forall>e \<in> set (entryFreeList t'). frame_at t' (Chain e) = frame_at t (Chain e)"
  shows "content chs' t'"
proof -
  have all: "r \<in> all_refs chs t \<and> frame_at t' r = frame_at t r \<and> pid_at t' r = pid_at t r"
    if "r \<in> all_refs chs' t'" "r \<noteq> r0" for r
    using that old t' by (force simp: all_refs_def pid_at_def)
  show ?thesis
    unfolding content_def
  proof (intro conjI allI ballI impI)
    fix i r assume i: "i < buckets t'" "r \<in> bucket chs' i" "pid_at t' r \<noteq> pid_none"
    show "home t' (pid_at t' r) = i"
    proof (cases "r = r0")
      case True
      then show ?thesis using i r0 t' home_cong by metis
    next
      case False
      then show ?thesis using i old t' c home_cong [OF t'(2)] by (auto simp: content_def pid_at_def)
    qed
  next
    fix r r' assume r: "r \<in> all_refs chs' t'" "r' \<in> all_refs chs' t'" "pid_at t' r \<noteq> pid_none" "pid_at t' r = pid_at t' r'"
    show "r = r'"
    proof (cases "r = r0 \<or> r' = r0")
      case True
      then show ?thesis using r all [of r] all [of r'] new r0(2) by metis
    next
      case False
      then show ?thesis using r all [of r] all [of r'] c by (simp add: content_def)
    qed
  next
    fix r assume r: "r \<in> all_refs chs' t'" "pid_at t' r = pid_none"
    then have "r \<noteq> r0" using r0(2,3) by metis
    from all [OF r(1) this] show "isInlined r" and "getState (bstate (frame_at t' r)) = Invalid"
      using r(2) c by (simp_all add: content_def)
  next
    fix e assume "e \<in> set (entryFreeList t')"
    then show "getState (bstate (frame_at t' (Chain e))) = Invalid" using free c by (auto simp: content_def)
  qed
qed

text \<open>The frames of \<open>t'\<close> are those of \<open>t\<close>, except that a head has become empty.\<close>

lemma content_remove:
  assumes c: "content chs t" and t': "buckets t' = buckets t" "hcount t' = hcount t"
    and sub: "\<And>i. i < buckets t \<Longrightarrow> bucket chs' i \<subseteq> bucket chs i"
    and old: "\<And>r. r \<in> all_refs chs' t' \<Longrightarrow> frame_at t' r = frame_at t r \<or>
      pid_at t' r = pid_none \<and> isInlined r \<and> getState (bstate (frame_at t' r)) = Invalid"
    and free: "\<forall>e \<in> set (entryFreeList t'). getState (bstate (frame_at t' (Chain e))) = Invalid"
  shows "content chs' t'"
proof -
  have all: "r \<in> all_refs chs t" if "r \<in> all_refs chs' t'" for r
    using that sub t' by (auto simp: all_refs_def)
  have live: "pid_at t' r = pid_at t r" if "r \<in> all_refs chs' t'" "pid_at t' r \<noteq> pid_none" for r
    using old [OF that(1)] that(2) by (auto simp: pid_at_def)
  show ?thesis
    unfolding content_def
  proof (intro conjI allI ballI impI)
    fix i r assume i: "i < buckets t'" "r \<in> bucket chs' i" "pid_at t' r \<noteq> pid_none"
    then have "r \<in> all_refs chs' t'" "r \<in> bucket chs i" using sub t' bucket_all [of i t'] by auto
    then show "home t' (pid_at t' r) = i"
      using i live [of r] c t' home_cong [OF t'(2)] by (simp add: content_def)
  next
    fix r r' assume "r \<in> all_refs chs' t'" "r' \<in> all_refs chs' t'" "pid_at t' r \<noteq> pid_none" "pid_at t' r = pid_at t' r'"
    then show "r = r'" using all [of r] all [of r'] live [of r] live [of r'] c by (simp add: content_def)
  next
    fix r assume r: "r \<in> all_refs chs' t'" "pid_at t' r = pid_none"
    have "isInlined r \<and> getState (bstate (frame_at t' r)) = Invalid"
    proof (cases "frame_at t' r = frame_at t r")
      case True
      then show ?thesis using contentD(3) [OF c all [OF r(1)]] r(2) by (simp add: pid_at_def)
    next
      case False
      then show ?thesis using old [OF r(1)] by blast
    qed
    then show "isInlined r" and "getState (bstate (frame_at t' r)) = Invalid" by blast+
  qed (use free in blast)
qed

section \<open>insert\<close>

text \<open>What is relied on of the queue: an element that is dequeued was in it, and leaves it.\<close>

definition deq_ok :: "(nat list \<Rightarrow> (nat \<times> nat list) option) \<Rightarrow> bool" where
  "deq_ok deq \<longleftrightarrow> (\<forall>q x q'. deq q = Some (x, q') \<longrightarrow> mset q = add_mset x (mset q'))"

definition fifo :: "nat list \<Rightarrow> (nat \<times> nat list) option" where
  "fifo q = (case q of [] \<Rightarrow> None | x # q' \<Rightarrow> Some (x, q'))"

lemma fifo_ok: "deq_ok fifo"
  by (auto simp: deq_ok_def fifo_def split: list.splits)

lemma deq_okD:
  assumes "deq_ok deq" and "deq q = Some (x, q')"
  shows "x \<in> set q" "set q' \<subseteq> set q" "distinct q \<Longrightarrow> distinct q' \<and> x \<notin> set q'"
proof -
  have m: "mset q = mset (x # q')" using assms by (simp add: deq_ok_def)
  then have s: "set q = set (x # q')" by (rule mset_eq_setD)
  then show "x \<in> set q" "set q' \<subseteq> set q" by auto
  show "distinct q' \<and> x \<notin> set q'" if "distinct q"
    using mset_eq_imp_distinct_iff [OF m] that by simp
qed

lemma lock_room_mono: "lock_room n t \<Longrightarrow> m \<le> n \<Longrightarrow> lock_room m t"
  by (fastforce simp: lock_room_def)

lemma lock_roomD:
  assumes "lock_room (Suc n) t" and "i < buckets t"
  shows "\<not> isLocked (hlock (table t ! i))" "vl_tryLock (hlock (table t ! i)) (hlock (table t ! i)) =
      Ret (True, hlock (table t ! i) OR vl_lock_bit)"
    "vl_unlock (hlock (table t ! i) OR vl_lock_bit) = Ret (hlock (table t ! i) + 1)"
    "unat (hlock (table t ! i) + 1) + n < 2 ^ 63"
proof -
  let ?v = "hlock (table t ! i)"
  have r: "unat ?v + Suc n < 2 ^ 63" using assms by (simp add: lock_room_def)
  then show nl: "\<not> isLocked ?v" by (simp add: unlocked_less)
  from vl_section [OF nl] show "vl_tryLock ?v ?v = Ret (True, ?v OR vl_lock_bit)"
    "vl_unlock (?v OR vl_lock_bit) = Ret (?v + 1)" by simp_all
  have "unat (?v + 1) = unat ?v + 1" using r by (simp add: unat_word_ariths)
  then show "unat (?v + 1) + n < 2 ^ 63" using r by simp
qed

text \<open>After a critical section of bucket \<open>i\<close>.\<close>

lemma lock_room_step:
  assumes "lock_room (Suc n) t" and "buckets t' = buckets t"
    and "\<And>j. j < buckets t \<Longrightarrow> hlock (table t' ! j) = (if j = i then hlock (table t ! i) + 1 else hlock (table t ! j))"
  shows "lock_room n t'"
  unfolding lock_room_def
proof
  fix b assume "b \<in> set (table t')"
  then obtain j where j: "j < buckets t" "b = table t' ! j" using assms(2) by (auto simp: in_set_conv_nth)
  have "unat (hlock (table t ! j)) + n < 2 ^ 63" using assms(1) nth_mem [OF j(1)] unfolding lock_room_def by fastforce
  then show "unat (hlock b) + n < 2 ^ 63"
    using lock_roomD(4) [OF assms(1)] assms(3) [OF j(1)] j by (cases "j = i") auto
qed

lemma lock_new_frame_ret:
  assumes "i < buckets t" and "hlock (table t ! i) = v OR vl_lock_bit" and "\<not> isLocked v"
    and "valid_ref t r" and "getState (bstate (frame_at t r)) = Invalid"
  shows "lock_new_frame i r t = Ret (Some r, upd_lock i (v + 1)
    (upd_frame r (\<lambda>bf. bf\<lparr>bstate := sameVersion (bstate (frame_at t r)) Locked\<rparr>) t))"
  using assms vl_section(2) [OF assms(3)]
  by (simp add: lock_new_frame_def Let_def tryLockX_def frame_at_upd)

lemma option_eqI: "(\<And>r. x = Some r \<longleftrightarrow> y = Some r) \<Longrightarrow> x = y"
  by (metis option.exhaust)

lemma lookup_none [simp]: "ht_lookup t pid_none = None"
  by (simp add: ht_lookup_def Let_def)

lemma lookup_absent:
  assumes "shape chs t" and "content chs t" and "p \<noteq> pid_none" and "ht_lookup t p = None"
  shows "\<forall>r \<in> all_refs chs t. pid_at t r \<noteq> p"
  using lookup_iff [OF assms(1-3)] assms(4) by auto

lemma insert_commit:
  assumes s: "shape chs t" "content chs t" and s': "shape chs' t'" "buckets t' = buckets t" "hcount t' = hcount t"
    and p: "p \<noteq> pid_none" "\<forall>r \<in> all_refs chs t. pid_at t r \<noteq> p"
    and r0: "r0 \<in> all_refs chs t \<Longrightarrow> pid_at t r0 = pid_none" "pid_at t' r0 = p"
    and b: "\<And>i. i < buckets t \<Longrightarrow> bucket chs' i = (if i = home t p then insert r0 (bucket chs i) else bucket chs i)"
      "\<And>i. i < buckets t \<Longrightarrow> i \<noteq> home t p \<Longrightarrow> r0 \<notin> bucket chs i"
    and same: "\<And>r. r \<in> all_refs chs t \<Longrightarrow> r \<noteq> r0 \<Longrightarrow> frame_at t' r = frame_at t r"
    and free: "set (entryFreeList t') \<subseteq> set (entryFreeList t)"
      "\<forall>e \<in> set (entryFreeList t'). frame_at t' (Chain e) = frame_at t (Chain e)"
  shows "content chs' t'" "ht_lookup t' = (ht_lookup t)(p \<mapsto> r0)"
    "\<forall>q r. ht_lookup t q = Some r \<longrightarrow> frame_at t' r = frame_at t r"
proof -
  note h = home_less [OF s(1)]
  show c': "content chs' t'"
  proof (rule content_insert [OF s(2) s'(2,3)])
    fix i r assume i: "i < buckets t" "r \<in> bucket chs' i" "r \<noteq> r0"
    then have "r \<in> bucket chs i" using b(1) [OF i(1)] by (auto split: if_splits)
    then show "r \<in> bucket chs i \<and> frame_at t' r = frame_at t r"
      using same bucket_all [OF i(1)] i(3) by blast
  next
    fix i assume "i < buckets t" "r0 \<in> bucket chs' i"
    then show "i = home t p" using b by (metis)
  qed (use p r0 free in auto)
  have all': "all_refs chs' t' = insert r0 (all_refs chs t)"
    using b(1) h by (auto simp: all_refs_def s'(2) split: if_splits)
  have live: "r \<in> all_refs chs' t' \<and> pid_at t' r = q \<longleftrightarrow>
      (if q = p then r = r0 else r \<in> all_refs chs t \<and> pid_at t r = q)" if "q \<noteq> pid_none" for q r
    using that r0 p(2) same all' by (cases "r = r0") (auto simp: pid_at_def)
  show "ht_lookup t' = (ht_lookup t)(p \<mapsto> r0)"
  proof (rule ext, rule option_eqI)
    fix q r show "ht_lookup t' q = Some r \<longleftrightarrow> ((ht_lookup t)(p \<mapsto> r0)) q = Some r"
      using lookup_iff [OF s'(1) c', of q] lookup_iff [OF s, of q] live [of q r] p(1)
      by (cases "q = pid_none") auto
  qed
  show "\<forall>q r. ht_lookup t q = Some r \<longrightarrow> frame_at t' r = frame_at t r"
  proof (intro allI impI)
    fix q r assume l: "ht_lookup t q = Some r"
    then have "q \<noteq> pid_none" by auto
    with l have "r \<in> all_refs chs t" "pid_at t r = q" using lookup_iff [OF s] by auto
    then show "frame_at t' r = frame_at t r" using same r0(1) \<open>q \<noteq> pid_none\<close> by blast
  qed
qed

text \<open>A page that is not in the table gets a frame, locked for the caller.\<close>

definition fresh_frame :: "PID \<Rightarrow> frame \<Rightarrow> bool" where
  "fresh_frame p f \<longleftrightarrow> bpid f = p \<and> getState (bstate f) = Locked"

lemma head_ref: "i < buckets t \<Longrightarrow> Head i \<in> all_refs chs t"
  and chain_ref: "i < buckets t \<Longrightarrow> e \<in> set (chs i) \<Longrightarrow> Chain e \<in> all_refs chs t"
  by (auto simp: all_refs_def bucket_def)

lemma all_refs_cases:
  assumes "r \<in> all_refs chs t"
  obtains i where "i < buckets t" "r = Head i" | i e where "i < buckets t" "e \<in> set (chs i)" "r = Chain e"
  using assms by (auto simp: all_refs_def bucket_def)

lemma all_refs_valid:
  assumes "shape chs t" and "r \<in> all_refs chs t"
  shows "valid_ref t r"
  using assms(2)
proof (cases rule: all_refs_cases)
  case (2 i e)
  then show ?thesis using path_length [OF shapeD(1) [OF assms(1) 2(1)]] by auto
qed simp

lemma absent_chain:
  assumes "shape chs t" and "i < buckets t" and "\<forall>r \<in> all_refs chs t. pid_at t r \<noteq> p"
  shows "find_chain (length (heap t)) (heap t) p (enext (head (table t ! i))) = Ret None"
    and "bpid (ebf (head (table t ! i))) \<noteq> p"
proof -
  have "bpid (ebf (heap t ! e)) \<noteq> p" if "e \<in> set (chs i)" for e
    using assms(3) chain_ref [of i t e chs, OF assms(2) that] by (auto simp: pid_at_def frame_at_def)
  then have "find (\<lambda>e. bpid (ebf (heap t ! e)) = p) (chs i) = None" by (simp add: find_eq_None)
  then show "find_chain (length (heap t)) (heap t) p (enext (head (table t ! i))) = Ret None"
    using find_chain_path [OF shapeD(1,3) [OF assms(1,2)]] by simp
  show "bpid (ebf (head (table t ! i))) \<noteq> p"
    using assms(3) head_ref [OF assms(2), where chs = chs] by (auto simp: pid_at_def frame_at_def)
qed

lemma bucket_index: "unat (ht_index (hcount t) (hashPID p m)) = home t p"
  by (simp add: home_def hashPID_frames [of p m])

lemma next_at_set_head:
  "i < buckets t \<Longrightarrow> next_at (upd_head i (\<lambda>en. en\<lparr>enext := n\<rparr>) t) r = (if r = Head i then n else next_at t r)"
  by (auto simp: next_at_def upd_head_def nth_list_update split: fref.split)

lemma next_at_set_entry:
  "e < length (heap t) \<Longrightarrow> next_at (upd_entry e (\<lambda>en. en\<lparr>enext := n\<rparr>) t) r = (if r = Chain e then n else next_at t r)"
  by (auto simp: next_at_def upd_entry_def nth_list_update split: fref.split)

lemma take_entry_ok:
  assumes "shape chs t" and inv: "\<forall>e \<in> set (entryFreeList t). getState (bstate (frame_at t (Chain e))) = Invalid"
    and "deq_ok deq" and "take_entry deq p nxt t = (e, t1)"
  shows "\<forall>i < buckets t. e \<notin> set (chs i)" "e < length (heap t1)" "length (heap t) \<le> length (heap t1)"
    "table t1 = table t" "hcount t1 = hcount t" "next_at t1 (Chain e) = nxt" "pid_at t1 (Chain e) = p"
    "getState (bstate (frame_at t1 (Chain e))) = Invalid"
    "\<And>r. r \<noteq> Chain e \<Longrightarrow> valid_ref t r \<Longrightarrow> frame_at t1 r = frame_at t r \<and> next_at t1 r = next_at t r"
    "set (entryFreeList t1) \<subseteq> set (entryFreeList t)" "e \<notin> set (entryFreeList t1)" "distinct (entryFreeList t1)"
proof -
  note s = assms(1)
  consider (reuse) q where "deq (entryFreeList t) = Some (e, q)"
      "t1 = upd_entry e (\<lambda>en. en\<lparr>ebf := (ebf en)\<lparr>bpid := p\<rparr>, enext := nxt\<rparr>) (t\<lparr>entryFreeList := q\<rparr>)"
    | (fresh) "e = length (heap t)" "t1 = t\<lparr>heap := heap t @ [new_entry p None nxt]\<rparr>"
    using assms(4) by (auto simp: take_entry_def split: option.splits)
  note cs = this
  have free: "distinct (entryFreeList t)" "\<forall>e \<in> set (entryFreeList t). e < length (heap t)"
    "\<forall>i < buckets t. set (chs i) \<inter> set (entryFreeList t) = {}"
    using s by (simp_all add: shape_def)
  have chs: "\<forall>i < buckets t. \<forall>e \<in> set (chs i). e < length (heap t)"
    using all_refs_valid [OF s chain_ref] by auto
  show "\<forall>i < buckets t. e \<notin> set (chs i)"
    using cs
  proof cases
    case reuse
    then show ?thesis using deq_okD(1) [OF assms(3) reuse(1)] free(3) by blast
  next
    case fresh
    then show ?thesis using chs by blast
  qed
  show "e < length (heap t1)"
    using cs deq_okD(1) [OF assms(3)] free(2) by cases auto
  show "getState (bstate (frame_at t1 (Chain e))) = Invalid"
    using cs
  proof cases
    case reuse
    then show ?thesis using deq_okD(1) [OF assms(3) reuse(1)] inv free(2)
      by (auto simp: upd_entry_def frame_at_def)
  next
    case fresh
    then show ?thesis by (simp add: frame_at_def new_entry_def ps_init_def)
  qed
  show "set (entryFreeList t1) \<subseteq> set (entryFreeList t)" "distinct (entryFreeList t1)" "e \<notin> set (entryFreeList t1)"
    using cs deq_okD(2,3) [OF assms(3)] free by (cases; force)+
  show "next_at t1 (Chain e) = nxt" "pid_at t1 (Chain e) = p"
    using cs deq_okD(1) [OF assms(3)] free(2)
    by (cases; force simp: next_at_def pid_at_def frame_at_def upd_entry_def new_entry_def)+
  show "r \<noteq> Chain e \<Longrightarrow> valid_ref t r \<Longrightarrow> frame_at t1 r = frame_at t r \<and> next_at t1 r = next_at t r" for r
    using cs
    by cases (auto simp: next_at_def frame_at_def upd_entry_def nth_append nth_list_update split: fref.split)
qed (use assms(4) in \<open>auto simp: take_entry_def upd_entry_def split: option.splits\<close>)

lemma ht_insert_head:
  assumes inv: "lock_room (Suc n) t" "shape chs t" "content chs t"
    and p: "p \<noteq> pid_none" "ht_lookup t p = None" and e: "pid_at t (Head (home t p)) = pid_none"
  shows "\<exists>t'. ht_insert deq p (hashPID p m) t = Ret (Some (Head (home t p)), t') \<and>
    lock_room n t' \<and> shape chs t' \<and> content chs t' \<and> hcount t' = hcount t \<and>
    ht_lookup t' = (ht_lookup t)(p \<mapsto> Head (home t p)) \<and> fresh_frame p (frame_at t' (Head (home t p))) \<and>
    (\<forall>q r. ht_lookup t q = Some r \<longrightarrow> frame_at t' r = frame_at t r)"
proof -
  let ?i = "home t p" and ?v = "hlock (table t ! home t p)"
  note h = home_less [OF inv(2)] and abs = lookup_absent [OF inv(2,3) p]
  note L = lock_roomD [OF inv(1) h]
  note r0 = head_ref [OF h, where chs = chs] and nf = absent_chain [OF inv(2) h abs]
  have st: "getState (bstate (frame_at t (Head ?i))) = Invalid"
    using contentD(3) [OF inv(3) r0 e] by blast
  define t1 where "t1 = upd_frame (Head ?i) (\<lambda>bf. bf\<lparr>bpid := p\<rparr>) (upd_lock ?i (?v OR vl_lock_bit) t)"
  define t' where "t' = upd_lock ?i (?v + 1)
    (upd_frame (Head ?i) (\<lambda>bf. bf\<lparr>bstate := sameVersion (bstate (frame_at t1 (Head ?i))) Locked\<rparr>) t1)"
  have "lock_new_frame ?i (Head ?i) t1 = Ret (Some (Head ?i), t')"
    unfolding t'_def by (rule lock_new_frame_ret) (use h L(1) st in \<open>simp_all add: t1_def frame_at_upd\<close>)
  moreover have "bpid (ebf (head (table t ! ?i))) = pid_none" using e by (simp add: pid_at_def frame_at_def)
  ultimately have ret: "ht_insert deq p (hashPID p m) t = Ret (Some (Head ?i), t')"
    using h L(1,2) nf p(1) not_sym [OF p(1)]
    by (simp add: ht_insert_def bucket_index Let_def t1_def [symmetric])
  have fr: "frame_at t' r = (if r = Head ?i then (frame_at t r)\<lparr>bpid := p, bstate := sameVersion (bstate (frame_at t r)) Locked\<rparr>
      else frame_at t r)" for r
    using h by (simp add: t'_def t1_def frame_at_upd)
  have eqs: "buckets t' = buckets t" "hcount t' = hcount t" "entryFreeList t' = entryFreeList t"
    by (simp_all add: t'_def t1_def)
  have s': "shape chs t'"
    by (rule shape_cong [OF inv(2) eqs(1,2) _ eqs(3)]) (simp_all add: t'_def t1_def)
  have lr: "lock_room n t'"
    by (rule lock_room_step [OF inv(1) eqs(1), of ?i]) (use h in \<open>auto simp: t'_def t1_def\<close>)
  have "content chs t'" "ht_lookup t' = (ht_lookup t)(p \<mapsto> Head ?i)"
    "\<forall>q r. ht_lookup t q = Some r \<longrightarrow> frame_at t' r = frame_at t r"
    by (rule insert_commit [OF inv(2,3) s' eqs(1,2) p(1) abs, of "Head ?i"];
        use e fr eqs in \<open>auto simp: bucket_def pid_at_def\<close>)+
  then show ?thesis using ret lr s' eqs fr by (simp add: fresh_frame_def)
qed

lemma ht_insert_chain:
  assumes inv: "lock_room (Suc n) t" "shape chs t" "content chs t" and deq: "deq_ok deq"
    and p: "p \<noteq> pid_none" "ht_lookup t p = None" and e: "pid_at t (Head (home t p)) \<noteq> pid_none"
  shows "\<exists>r t' chs'. ht_insert deq p (hashPID p m) t = Ret (Some r, t') \<and>
    lock_room n t' \<and> shape chs' t' \<and> content chs' t' \<and> hcount t' = hcount t \<and>
    ht_lookup t' = (ht_lookup t)(p \<mapsto> r) \<and> fresh_frame p (frame_at t' r) \<and>
    (\<forall>q r. ht_lookup t q = Some r \<longrightarrow> frame_at t' r = frame_at t r)"
proof -
  let ?i = "home t p" and ?v = "hlock (table t ! home t p)"
  let ?nxt = "enext (head (table t ! ?i))"
  note h = home_less [OF inv(2)] and abs = lookup_absent [OF inv(2,3) p]
  note L = lock_roomD [OF inv(1) h] and nf = absent_chain [OF inv(2) h abs]
  have hp: "bpid (ebf (head (table t ! ?i))) \<noteq> pid_none" using e by (simp add: pid_at_def frame_at_def)
  define t0 where "t0 = upd_lock ?i (?v OR vl_lock_bit) t"
  have t0: "shape chs t0" by (rule shape_cong [OF inv(2)]) (simp_all add: t0_def)
  obtain e t1 where et: "take_entry deq p ?nxt t0 = (e, t1)" by fastforce
  have "\<forall>e \<in> set (entryFreeList t0). getState (bstate (frame_at t0 (Chain e))) = Invalid"
    using contentD(4) [OF inv(3)] by (simp add: t0_def)
  note E = take_entry_ok [OF t0 this deq et]
  define t2 where "t2 = upd_head ?i (\<lambda>en. en\<lparr>enext := Some e\<rparr>) t1"
  define t' where "t' = upd_lock ?i (?v + 1)
    (upd_frame (Chain e) (\<lambda>bf. bf\<lparr>bstate := sameVersion (bstate (frame_at t2 (Chain e))) Locked\<rparr>) t2)"
  have b1: "buckets t1 = buckets t" by (simp add: E(4) t0_def)
  have "lock_new_frame ?i (Chain e) t2 = Ret (Some (Chain e), t')"
    unfolding t'_def by (rule lock_new_frame_ret) (use h L(1) E b1 in \<open>simp_all add: t2_def t0_def\<close>)
  then have ret: "ht_insert deq p (hashPID p m) t = Ret (Some (Chain e), t')"
    using h L(1,2) nf hp et by (simp add: ht_insert_def bucket_index Let_def t0_def t2_def)
  have eqs: "buckets t' = buckets t" "hcount t' = hcount t" "entryFreeList t' = entryFreeList t1"
    by (simp_all add: t'_def t2_def b1 E(5)) (simp add: t0_def)
  have fr: "frame_at t' r = frame_at t r" if "r \<in> all_refs chs t" for r
  proof -
    have "r \<noteq> Chain e" using that E(1) by (auto simp: all_refs_def bucket_def t0_def)
    then show ?thesis
      using E(9) [of r] all_refs_valid [OF t0, of r] that E(2)
      by (simp add: t'_def t2_def frame_at_upd t0_def all_refs_def)
  qed
  have fresh: "fresh_frame p (frame_at t' (Chain e))"
    using E(2,7) by (simp add: t'_def t2_def frame_at_upd fresh_frame_def pid_at_def)
  define chs' where "chs' = chs(?i := e # chs ?i)"
  have nx: "next_at t' r = (if r = Head ?i then Some e else if r = Chain e then ?nxt else next_at t r)"
    if "valid_ref t r \<or> r = Chain e" for r
    using that h E(6) E(9) [of r] b1 by (cases r) (auto simp: t'_def t2_def next_at_set_head t0_def)
  have len: "length (heap t) \<le> length (heap t')" "e < length (heap t')"
    using E(2,3) by (simp_all add: t'_def t2_def t0_def)
  have old: "path (heap t') (next_at t (Head j)) (chs j)" if j: "j < buckets t" for j
  proof (rule path_next [OF _ len(1)])
    show "path (heap t) (next_at t (Head j)) (chs j)" using shapeD(1) [OF inv(2) j] by (simp add: next_at_def)
    show "\<forall>d \<in> set (chs j). next_at t' (Chain d) = next_at t (Chain d)"
      using nx all_refs_valid [OF inv(2) chain_ref [OF j]] E(1) j by (auto simp: t0_def)
  qed
  have s': "shape chs' t'"
    unfolding shape_def
  proof (intro conjI allI impI)
    fix j assume "j < buckets t'"
    then have j: "j < buckets t" by (simp add: eqs)
    have "enext (head (table t' ! j)) = (if j = ?i then Some e else next_at t (Head j))"
      using nx [of "Head j"] j by (simp add: next_at_def)
    moreover have "enext (heap t' ! e) = next_at t (Head ?i)"
      using nx [of "Chain e"] by (simp add: next_at_def)
    ultimately show "path (heap t') (enext (head (table t' ! j))) (chs' j)"
      using old [OF j] len by (cases "j = ?i") (simp_all add: chs'_def)
    show "distinct (chs' j)" using shapeD(2) [OF inv(2) j] E(1) h by (cases "j = ?i") (simp_all add: chs'_def t0_def)
    have "set (chs j) \<inter> set (entryFreeList t) = {}" using inv(2) j by (simp add: shape_def)
    then show "set (chs' j) \<inter> set (entryFreeList t') = {}"
      using E(10,11) by (auto simp: chs'_def eqs t0_def)
  next
    fix j k assume "j < buckets t'" "k < buckets t'" "j \<noteq> k"
    then have "j < buckets t" "k < buckets t" "j \<noteq> k" "set (chs j) \<inter> set (chs k) = {}"
      using inv(2) by (simp_all add: eqs shape_def)
    then show "set (chs' j) \<inter> set (chs' k) = {}" using E(1) by (auto simp: chs'_def t0_def)
  next
    have "\<forall>d \<in> set (entryFreeList t). d < length (heap t)" using inv(2) by (simp add: shape_def)
    then show "\<forall>d \<in> set (entryFreeList t'). d < length (heap t')"
      using E(10) len by (fastforce simp: eqs t0_def)
  qed (use inv(2) eqs E(12) in \<open>auto simp: shape_def\<close>)
  have lr: "lock_room n t'"
    by (rule lock_room_step [OF inv(1) eqs(1), of ?i]) (use h b1 in \<open>auto simp: t'_def t2_def E(4) t0_def\<close>)
  have "content chs' t'" "ht_lookup t' = (ht_lookup t)(p \<mapsto> Chain e)"
    "\<forall>q r. ht_lookup t q = Some r \<longrightarrow> frame_at t' r = frame_at t r"
  proof -
    have nr: "Chain e \<notin> all_refs chs t" using E(1) by (auto simp: all_refs_def bucket_def t0_def)
    have fl: "\<forall>d \<in> set (entryFreeList t'). frame_at t' (Chain d) = frame_at t (Chain d)"
    proof
      fix d assume d: "d \<in> set (entryFreeList t')"
      then have "d \<noteq> e" "valid_ref t0 (Chain d)" using E(10,11) t0 by (auto simp: eqs shape_def)
      then show "frame_at t' (Chain d) = frame_at t (Chain d)"
        using E(9) [of "Chain d"] E(2) by (simp add: t'_def t2_def frame_at_upd t0_def)
    qed
    show "content chs' t'" "ht_lookup t' = (ht_lookup t)(p \<mapsto> Chain e)"
      "\<forall>q r. ht_lookup t q = Some r \<longrightarrow> frame_at t' r = frame_at t r"
      by (rule insert_commit [OF inv(2,3) s' eqs(1,2) p(1) abs, of "Chain e"];
          use nr fr fl fresh eqs(3) E(10) E(1) in
            \<open>auto simp: bucket_def chs'_def pid_at_def fresh_frame_def t0_def\<close>)+
  qed
  then show ?thesis using ret lr s' eqs fresh by blast
qed

section \<open>remove\<close>

lemma remove_commit:
  assumes s: "shape chs t" "content chs t" and s': "shape chs' t'" "buckets t' = buckets t" "hcount t' = hcount t"
    and r0: "r0 \<in> all_refs chs t" "pid_at t r0 = p" "p \<noteq> pid_none"
    and gone: "r0 \<in> all_refs chs' t' \<Longrightarrow>
      pid_at t' r0 = pid_none \<and> isInlined r0 \<and> getState (bstate (frame_at t' r0)) = Invalid"
    and b: "\<And>i. i < buckets t \<Longrightarrow> bucket chs' i \<subseteq> bucket chs i"
      "\<And>i. i < buckets t \<Longrightarrow> bucket chs i \<subseteq> insert r0 (bucket chs' i)"
    and same: "\<And>r. r \<in> all_refs chs t \<Longrightarrow> r \<noteq> r0 \<Longrightarrow> frame_at t' r = frame_at t r"
    and free: "\<forall>e \<in> set (entryFreeList t'). getState (bstate (frame_at t' (Chain e))) = Invalid"
  shows "content chs' t'" "ht_lookup t' = (ht_lookup t)(p := None)"
    "\<forall>q r. q \<noteq> p \<longrightarrow> ht_lookup t q = Some r \<longrightarrow> frame_at t' r = frame_at t r"
proof -
  have sub: "all_refs chs' t' \<subseteq> all_refs chs t" and sup: "all_refs chs t \<subseteq> insert r0 (all_refs chs' t')"
    using b s'(2) by (fastforce simp: all_refs_def)+
  show c': "content chs' t'"
  proof (rule content_remove [OF s(2) s'(2,3)])
    fix r assume "r \<in> all_refs chs' t'"
    then show "frame_at t' r = frame_at t r \<or>
        pid_at t' r = pid_none \<and> isInlined r \<and> getState (bstate (frame_at t' r)) = Invalid"
      using same [of r] gone sub by (cases "r = r0") auto
  qed (use b free in auto)
  have live: "r \<in> all_refs chs' t' \<and> pid_at t' r = q \<longleftrightarrow> q \<noteq> p \<and> r \<in> all_refs chs t \<and> pid_at t r = q"
    if q: "q \<noteq> pid_none" for q r
  proof (cases "r = r0")
    case True
    then show ?thesis using gone r0 q by auto
  next
    case False
    have "pid_at t r \<noteq> p" if "r \<in> all_refs chs t"
      using contentD(2) [OF s(2) that r0(1)] r0 False by auto
    then show ?thesis using False same [of r] sub sup by (auto simp: pid_at_def)
  qed
  show "ht_lookup t' = (ht_lookup t)(p := None)"
  proof (rule ext, rule option_eqI)
    fix q r show "ht_lookup t' q = Some r \<longleftrightarrow> ((ht_lookup t)(p := None)) q = Some r"
      using lookup_iff [OF s'(1) c', of q] lookup_iff [OF s, of q] live [of q r]
      by (cases "q = pid_none") auto
  qed
  show "\<forall>q r. q \<noteq> p \<longrightarrow> ht_lookup t q = Some r \<longrightarrow> frame_at t' r = frame_at t r"
  proof (intro allI impI)
    fix q r assume q: "q \<noteq> p" "ht_lookup t q = Some r"
    then have "q \<noteq> pid_none" by auto
    with q have "r \<in> all_refs chs t" "pid_at t r = q" using lookup_iff [OF s] by auto
    then show "frame_at t' r = frame_at t r" using same r0(2) q(1) by blast
  qed
qed

lemma nextVersion_Invalid [simp]: "getState (nextVersion v Invalid) = Invalid"
proof (cases "unat (versionOf v) + 1 < 2 ^ 56")
  case True
  then show ?thesis by (rule nextVersion_below(1)) simp
next
  case False
  then have "unat (versionOf v) = 2 ^ 56 - 1" using versionOf_le [of v] by simp
  from nextVersion_wrap [OF this, of Invalid] show ?thesis by (simp add: getState_def)
qed

definition invalid_frame :: "frame \<Rightarrow> frame" where
  "invalid_frame bf = bf\<lparr>bpid := pid_none, bpage := None, bstate := nextVersion (bstate bf) Invalid\<rparr>"

lemma ht_remove_head:
  assumes inv: "lock_room (Suc n) t" "shape chs t" "content chs t"
    and p: "p \<noteq> pid_none" "pid_at t (Head (home t p)) = p"
    and st: "getState (bstate (frame_at t (Head (home t p)))) = Locked"
  shows "\<exists>t'. ht_remove p (hashPID p m) t = Ret (True, t') \<and>
    lock_room n t' \<and> shape chs t' \<and> content chs t' \<and> hcount t' = hcount t \<and>
    ht_lookup t' = (ht_lookup t)(p := None) \<and>
    (\<forall>q r. q \<noteq> p \<longrightarrow> ht_lookup t q = Some r \<longrightarrow> frame_at t' r = frame_at t r)"
proof -
  let ?i = "home t p" and ?v = "hlock (table t ! home t p)"
  note h = home_less [OF inv(2)] and r0 = head_ref [OF home_less [OF inv(2)], where chs = chs]
  note L = lock_roomD [OF inv(1) h]
  define t' where "t' = upd_lock ?i (?v + 1)
    (upd_frame (Head ?i) (\<lambda>bf. bf\<lparr>bpid := pid_none, bpage := None,
        bstate := nextVersion (bstate (frame_at t (Head ?i))) Invalid\<rparr>) (upd_lock ?i (?v OR vl_lock_bit) t))"
  have f: "frame_at t (Head ?i) = ebf (head (table t ! ?i))" by (simp add: frame_at_def)
  have ret: "ht_remove p (hashPID p m) t = Ret (True, t')"
    using h L(1-3) p(2) st by (simp add: ht_remove_def bucket_index Let_def t'_def f pid_at_def unlockXInvalid_def)
  have fr: "frame_at t' r = (if r = Head ?i then invalid_frame (frame_at t r) else frame_at t r)" for r
    using h by (simp add: t'_def frame_at_upd invalid_frame_def)
  have eqs: "buckets t' = buckets t" "hcount t' = hcount t" "entryFreeList t' = entryFreeList t"
    by (simp_all add: t'_def)
  have s': "shape chs t'"
    by (rule shape_cong [OF inv(2) eqs(1,2) _ eqs(3)]) (simp_all add: t'_def)
  have lr: "lock_room n t'"
    by (rule lock_room_step [OF inv(1) eqs(1), of ?i]) (use h in \<open>auto simp: t'_def\<close>)
  have "content chs t'" "ht_lookup t' = (ht_lookup t)(p := None)"
    "\<forall>q r. q \<noteq> p \<longrightarrow> ht_lookup t q = Some r \<longrightarrow> frame_at t' r = frame_at t r"
    by (rule remove_commit [OF inv(2,3) s' eqs(1,2) r0 p(2,1)];
        use fr eqs contentD(4) [OF inv(3)] in \<open>auto simp: pid_at_def invalid_frame_def isInlined_def\<close>)+
  then show ?thesis using ret lr s' eqs by blast
qed

lemma next_at_set_next:
  "i < buckets t \<Longrightarrow> (\<And>u. prev = Some u \<Longrightarrow> u < length (heap t)) \<Longrightarrow>
    next_at (set_next i prev n t) r = (if r = (case prev of None \<Rightarrow> Head i | Some u \<Rightarrow> Chain u) then n else next_at t r)"
  by (cases prev) (simp_all add: set_next_def next_at_set_head next_at_set_entry)

lemma split_first: "x \<in> set xs \<Longrightarrow> distinct xs \<Longrightarrow> \<exists>us ws. xs = us @ x # ws \<and> x \<notin> set us \<and> x \<notin> set ws"
  by (metis distinct.simps(2) distinct_append split_list in_set_conv_decomp_first not_distinct_conv_prefix)

lemma ht_remove_chain:
  assumes inv: "lock_room (Suc n) t" "shape chs t" "content chs t"
    and p: "p \<noteq> pid_none" "e \<in> set (chs (home t p))" "pid_at t (Chain e) = p"
    and st: "getState (bstate (frame_at t (Chain e))) = Locked"
  shows "\<exists>t' chs'. ht_remove p (hashPID p m) t = Ret (True, t') \<and>
    lock_room n t' \<and> shape chs' t' \<and> content chs' t' \<and> hcount t' = hcount t \<and>
    ht_lookup t' = (ht_lookup t)(p := None) \<and>
    (\<forall>q r. q \<noteq> p \<longrightarrow> ht_lookup t q = Some r \<longrightarrow> frame_at t' r = frame_at t r)"
proof -
  let ?i = "home t p" and ?v = "hlock (table t ! home t p)"
  note h = home_less [OF inv(2), of p]
  note r0 = chain_ref [of ?i t e chs, OF h p(2)]
  note L = lock_roomD [OF inv(1) h] and S = shapeD [OF inv(2) h]
  have uniq: "r = Chain e" if "r \<in> all_refs chs t" "pid_at t r = p" for r
    using contentD(2) [OF inv(3) that(1) r0] that(2) p(1,3) by simp
  obtain us ws where ch: "chs ?i = us @ e # ws" "e \<notin> set us" "e \<notin> set ws"
    using split_first [OF p(2) S(2)] by blast
  have hp: "bpid (ebf (head (table t ! ?i))) \<noteq> p"
    using uniq [OF head_ref [OF h, where chs = chs]] by (auto simp: pid_at_def frame_at_def)
  have us: "\<forall>u \<in> set us. bpid (ebf (heap t ! u)) \<noteq> p"
  proof
    fix u assume "u \<in> set us"
    then show "bpid (ebf (heap t ! u)) \<noteq> p"
      using uniq [OF chain_ref [of ?i t u chs, OF h]] ch by (auto simp: pid_at_def frame_at_def)
  qed
  define prev where "prev = (if us = [] then None else Some (last us))"
  have e_len: "e < length (heap t)" using all_refs_valid [OF inv(2) r0] by simp
  have fp: "find_prev (length (heap t)) (heap t) p None (enext (head (table t ! ?i))) = Ret (prev, Some e)"
    unfolding prev_def
    by (rule find_prev_hit [where ws = ws])
      (use S(1,3) [unfolded ch(1)] us p(3) in \<open>simp_all add: pid_at_def frame_at_def\<close>)
  define t1 where "t1 = upd_frame (Chain e) (\<lambda>bf. bf\<lparr>bpid := pid_none, bpage := None\<rparr>) (upd_lock ?i (?v OR vl_lock_bit) t)"
  define t2 where "t2 = upd_lock ?i (?v + 1) (set_next ?i prev (enext (heap t1 ! e)) t1)"
  define t3 where "t3 = upd_frame (Chain e) (\<lambda>bf. bf\<lparr>bstate := nextVersion (bstate (frame_at t2 (Chain e))) Invalid\<rparr>) t2"
  define t' where "t' = t3\<lparr>entryFreeList := entryFreeList t3 @ [e]\<rparr>"
  have st2: "bstate (frame_at t2 (Chain e)) = bstate (frame_at t (Chain e))"
    using e_len by (simp add: t2_def t1_def frame_at_upd)
  have ret: "ht_remove p (hashPID p m) t = Ret (True, t')"
    using h L(1-3) hp fp st st2
    by (simp add: ht_remove_def bucket_index Let_def unlockXInvalid_def t'_def t3_def
        flip: t1_def) (simp add: t2_def t1_def)
  have fr: "frame_at t' r = (if r = Chain e then invalid_frame (frame_at t r) else frame_at t r)" for r
    using e_len by (simp add: t'_def t3_def t2_def t1_def frame_at_upd invalid_frame_def)
  have eqs: "buckets t' = buckets t" "hcount t' = hcount t" "entryFreeList t' = entryFreeList t @ [e]"
    "length (heap t') = length (heap t)"
    by (simp_all add: t'_def t3_def t2_def t1_def)
  define chs' where "chs' = chs(?i := us @ ws)"
  let ?r1 = "if us = [] then Head ?i else Chain (last us)"
  have last_us: "us \<noteq> [] \<Longrightarrow> last us \<in> set (chs ?i)" by (simp add: ch(1))
  have nx: "next_at t' r = (if r = ?r1 then next_at t (Chain e) else next_at t r)" for r
  proof -
    have "\<And>u. prev = Some u \<Longrightarrow> u < length (heap t1)"
      using last_us all_refs_valid [OF inv(2) chain_ref [of ?i t _ chs, OF h]]
      by (auto simp: prev_def t1_def split: if_splits)
    from next_at_set_next [where i = ?i and n = "enext (heap t1 ! e)" and r = r, OF _ this] h
    have "next_at t2 r = (if r = ?r1 then enext (heap t1 ! e) else next_at t r)"
      by (auto simp: t2_def t1_def prev_def)
    moreover have "enext (heap t1 ! e) = next_at t1 (Chain e)" by (simp add: next_at_def)
    ultimately show ?thesis by (simp add: t'_def t3_def) (simp add: t1_def)
  qed
  have path_i: "path (heap t') (next_at t' (Head ?i)) (us @ ws)"
  proof (cases "us = []")
    case True
    have "path (heap t) (next_at t (Chain e)) ws"
      using path_suffix [of "heap t" _ us e ws] S(1) ch(1) by (simp add: next_at_def)
    moreover have "\<forall>d \<in> set ws. next_at t' (Chain d) = next_at t (Chain d)" using nx True by simp
    ultimately show ?thesis using path_next [of t] eqs(4) nx [of "Head ?i"] True by simp
  next
    case False
    have "path ((heap t)[last us := (heap t ! last us)\<lparr>enext := enext (heap t ! e)\<rparr>]) (next_at t (Head ?i)) (us @ ws)"
      using path_unlink [of "heap t" _ us e ws] S(1,2) False by (simp add: ch(1) next_at_def)
    then have "path (heap t') (next_at t (Head ?i)) (us @ ws)"
    proof (rule path_cong)
      have "last us < length (heap t)"
        using last_us [OF False] all_refs_valid [OF inv(2) chain_ref [of ?i t _ chs, OF h]] by auto
      then show "\<forall>d \<in> set (us @ ws). enext (heap t' ! d) =
          enext ((heap t)[last us := (heap t ! last us)\<lparr>enext := enext (heap t ! e)\<rparr>] ! d)"
        using nx [of "Chain d" for d] False by (auto simp: next_at_def nth_list_update)
    qed (simp add: eqs(4))
    then show ?thesis using nx [of "Head ?i"] False by simp
  qed
  have s': "shape chs' t'"
    unfolding shape_def
  proof (intro conjI allI impI)
    fix j assume "j < buckets t'"
    then have j: "j < buckets t" by (simp add: eqs)
    have dj: "j \<noteq> ?i \<Longrightarrow> set (chs j) \<inter> set (chs ?i) = {}" using inv(2) j h by (simp add: shape_def)
    show "path (heap t') (enext (head (table t' ! j))) (chs' j)"
    proof (cases "j = ?i")
      case True
      then show ?thesis using path_i by (simp add: chs'_def next_at_def)
    next
      case False
      have "\<forall>d \<in> set (chs j). next_at t' (Chain d) = next_at t (Chain d)"
        using nx dj [OF False] last_us by (auto split: if_splits)
      from path_next [OF shapeD(1) [OF inv(2) j] _ this] show ?thesis
        using False eqs(4) nx [of "Head j"] by (simp add: chs'_def next_at_def split: if_splits)
    qed
    show "distinct (chs' j)"
      using shapeD(2) [OF inv(2) j] S(2) ch by (cases "j = ?i") (auto simp: chs'_def)
    have "set (chs j) \<inter> set (entryFreeList t) = {}" using inv(2) j by (simp add: shape_def)
    then show "set (chs' j) \<inter> set (entryFreeList t') = {}"
      using dj ch p(2) by (cases "j = ?i") (auto simp: chs'_def eqs)
  next
    fix j k assume "j < buckets t'" "k < buckets t'" "j \<noteq> k"
    then have "set (chs j) \<inter> set (chs k) = {}" using inv(2) by (simp add: eqs shape_def)
    then show "set (chs' j) \<inter> set (chs' k) = {}" using ch(1) by (auto simp: chs'_def)
  next
    have "set (chs ?i) \<inter> set (entryFreeList t) = {}" "distinct (entryFreeList t)"
      "\<forall>d \<in> set (entryFreeList t). d < length (heap t)"
      using inv(2) h by (simp_all add: shape_def)
    then show "distinct (entryFreeList t')" "\<forall>d \<in> set (entryFreeList t'). d < length (heap t')"
      using p(2) e_len by (auto simp: eqs)
  qed (use inv(2) eqs in \<open>simp_all add: shape_def\<close>)
  have lr: "lock_room n t'"
    by (rule lock_room_step [OF inv(1) eqs(1), of ?i]) (use h in \<open>auto simp: t'_def t3_def t2_def t1_def\<close>)
  have "content chs' t'" "ht_lookup t' = (ht_lookup t)(p := None)"
    "\<forall>q r. q \<noteq> p \<longrightarrow> ht_lookup t q = Some r \<longrightarrow> frame_at t' r = frame_at t r"
  proof -
    have ne: "Chain e \<notin> all_refs chs' t'"
    proof
      assume "Chain e \<in> all_refs chs' t'"
      then obtain j where j: "j < buckets t" "e \<in> set (chs' j)" by (auto simp: all_refs_def bucket_def eqs)
      then have "j \<noteq> ?i" using ch by (auto simp: chs'_def)
      then have "set (chs j) \<inter> set (chs ?i) = {}" using inv(2) j h by (simp add: shape_def)
      then show False using j \<open>j \<noteq> ?i\<close> p(2) by (auto simp: chs'_def)
    qed
    have fl: "\<forall>d \<in> set (entryFreeList t'). getState (bstate (frame_at t' (Chain d))) = Invalid"
      using contentD(4) [OF inv(3)] fr by (auto simp: eqs invalid_frame_def)
    have b: "bucket chs' j \<subseteq> bucket chs j" "bucket chs j \<subseteq> insert (Chain e) (bucket chs' j)" for j
      using ch(1) by (auto simp: bucket_def chs'_def)
    show "content chs' t'" "ht_lookup t' = (ht_lookup t)(p := None)"
      "\<forall>q r. q \<noteq> p \<longrightarrow> ht_lookup t q = Some r \<longrightarrow> frame_at t' r = frame_at t r"
      by (rule remove_commit [OF inv(2,3) s' eqs(1,2) r0 p(3,1)]; use ne fl b fr in \<open>simp; blast?\<close>)+
  qed
  then show ?thesis using ret lr s' eqs by blast
qed

lemma lock_room_nth: "lock_room n t \<longleftrightarrow> (\<forall>i < buckets t. unat (hlock (table t ! i)) + n < 2 ^ 63)"
  unfolding lock_room_def all_set_conv_all_nth ..

lemma lock_room_unlocked: "lock_room n t \<Longrightarrow> i < buckets t \<Longrightarrow> \<not> isLocked (hlock (table t ! i))"
  unfolding unlocked_less lock_room_nth using add_lessD1 by blast

lemma absent_entries:
  assumes "\<forall>r \<in> all_refs chs t. pid_at t r \<noteq> p" and "i < buckets t"
  shows "\<forall>e \<in> set (chs i). bpid (ebf (heap t ! e)) \<noteq> p"
proof
  fix e assume "e \<in> set (chs i)"
  then have "pid_at t (Chain e) \<noteq> p" using chain_ref [of i t e chs, OF assms(2)] assms(1) by blast
  then show "bpid (ebf (heap t ! e)) \<noteq> p" by (simp add: pid_at_def frame_at_def)
qed

lemma ht_remove_absent:
  assumes inv: "lock_room (Suc n) t" "shape chs t" "content chs t"
    and p: "p \<noteq> pid_none" "ht_lookup t p = None"
  shows "\<exists>t'. ht_remove p (hashPID p m) t = Ret (False, t') \<and>
    lock_room n t' \<and> shape chs t' \<and> content chs t' \<and> hcount t' = hcount t \<and>
    ht_lookup t' = ht_lookup t \<and> (\<forall>r. frame_at t' r = frame_at t r)"
proof -
  let ?i = "home t p" and ?v = "hlock (table t ! home t p)"
  note h = home_less [OF inv(2), of p] and abs = lookup_absent [OF inv(2,3) p]
  note L = lock_roomD [OF inv(1) h] and S = shapeD [OF inv(2) h]
  from find_prev_miss [OF S(1,3) absent_entries [OF abs h]] obtain prev where
    fp: "find_prev (length (heap t)) (heap t) p None (enext (head (table t ! ?i))) = Ret (prev, None)" by blast
  define t' where "t' = upd_lock ?i (?v + 1) (upd_lock ?i (?v OR vl_lock_bit) t)"
  have ret: "ht_remove p (hashPID p m) t = Ret (False, t')"
    using h L(1-3) absent_chain(2) [OF inv(2) h abs] fp
    by (simp add: ht_remove_def bucket_index Let_def t'_def)
  have eqs: "buckets t' = buckets t" "hcount t' = hcount t" "entryFreeList t' = entryFreeList t"
    by (simp_all add: t'_def)
  have fr: "frame_at t' r = frame_at t r" for r by (simp add: t'_def)
  have s': "shape chs t'"
    by (rule shape_cong [OF inv(2) eqs(1,2) _ eqs(3)]) (simp_all add: t'_def)
  have lr: "lock_room n t'"
    by (rule lock_room_step [OF inv(1) eqs(1), of ?i]) (use h in \<open>auto simp: t'_def\<close>)
  have c': "content chs t'"
    by (rule content_remove [OF inv(3) eqs(1,2)]) (use fr contentD(4) [OF inv(3)] in \<open>auto simp: eqs\<close>)
  have "ht_lookup t' q = ht_lookup t q" for q
  proof (rule option_eqI)
    show "ht_lookup t' q = Some r \<longleftrightarrow> ht_lookup t q = Some r" for r
      using lookup_iff [OF s' c', of q] lookup_iff [OF inv(2,3), of q]
      by (cases "q = pid_none") (auto simp: all_refs_def pid_at_def eqs fr)
  qed
  then show ?thesis using ret lr s' c' eqs fr by blast
qed

section \<open>access\<close>

lemma move_guard_False [simp]: "\<not> move_guard r"
  by (simp add: move_guard_def)

lemma ht_access_ok:
  assumes inv: "lock_room n t" "shape chs t" "content chs t" and p: "p \<noteq> pid_none"
  shows "ht_access move r p (hashPID p m) t =
    Ret (case ht_lookup t p of None \<Rightarrow> (None, 0) | Some x \<Rightarrow> (Some x, bstate (frame_at t x)), t)"
proof -
  let ?i = "home t p"
  note h = home_less [OF inv(2), of p] and S = shapeD [OF inv(2) home_less [OF inv(2), of p]]
  have "unat (hlock (table t ! ?i)) < 2 ^ 63"
    using inv(1) h by (fastforce simp: lock_room_nth)
  then have nl: "\<not> isLocked (hlock (table t ! ?i))" by (simp add: unlocked_less)
  have hd: "bpid (ebf (head (table t ! ?i))) = pid_at t (Head ?i)" by (simp add: pid_at_def frame_at_def)
  show ?thesis
  proof (cases "pid_at t (Head ?i) = p")
    case True
    then have "ht_lookup t p = Some (Head ?i)" using lookup_chain [OF inv(2) p] by simp
    then show ?thesis
      using True h nl hd by (simp add: ht_access_def bucket_index frame_at_def Let_def)
  next
    case False
    show ?thesis
    proof (cases "ht_lookup t p")
      case None
      from find_prev_miss [OF S(1,3) absent_entries [OF lookup_absent [OF inv(2,3) p None] h]] obtain prev where
        "find_prev (length (heap t)) (heap t) p None (enext (head (table t ! ?i))) = Ret (prev, None)" by blast
      then show ?thesis using None False h nl hd by (simp add: ht_access_def bucket_index Let_def)
    next
      case (Some x)
      then obtain e where e: "e \<in> set (chs ?i)" "pid_at t (Chain e) = p" "x = Chain e"
        using lookup_chain [OF inv(2) p] False find_eq_Some [of "\<lambda>e. pid_at t (Chain e) = p" "chs ?i"] by auto
      then obtain us ws where ch: "chs ?i = us @ e # ws" "e \<notin> set us" using split_first S(2) by metis
      have "\<forall>u \<in> set us. bpid (ebf (heap t ! u)) \<noteq> p"
      proof
        fix u assume "u \<in> set us"
        then show "bpid (ebf (heap t ! u)) \<noteq> p"
          using contentD(2) [OF inv(3) chain_ref [of ?i t u chs, OF h] chain_ref [of ?i t e chs, OF h]] ch e p
          by (auto simp: pid_at_def frame_at_def)
      qed
      from find_prev_hit [of "heap t" _ us e ws "length (heap t)" p None, OF _ _ _ this]
      obtain prev where "find_prev (length (heap t)) (heap t) p None (enext (head (table t ! ?i))) = Ret (prev, Some e)"
        using S(1,3) [unfolded ch(1)] e(2) by (auto simp: pid_at_def frame_at_def)
      then show ?thesis using Some False h nl hd e(3) by (simp add: ht_access_def bucket_index Let_def)
    qed
  qed
qed

section \<open>Changing a frame that holds a page\<close>

lemma upd_frame_ok:
  fixes g :: "frame \<Rightarrow> frame"
  assumes inv: "lock_room n t" "shape chs t" "content chs t" and p: "ht_lookup t p = Some r"
    and g: "bpid (g (frame_at t r)) = bpid (frame_at t r)"
  shows "lock_room n (upd_frame r g t) \<and> shape chs (upd_frame r g t) \<and> content chs (upd_frame r g t) \<and>
    ht_lookup (upd_frame r g t) = ht_lookup t \<and>
    (\<forall>r'. frame_at (upd_frame r g t) r' = (if r' = r then g (frame_at t r) else frame_at t r'))"
proof -
  let ?t = "upd_frame r g t"
  have p0: "p \<noteq> pid_none" using p by auto
  then have r: "r \<in> all_refs chs t" "pid_at t r = p" using lookup_iff [OF inv(2,3)] p by auto
  have fr: "frame_at ?t r' = (if r' = r then g (frame_at t r) else frame_at t r')" for r'
    by (rule frame_at_upd [OF all_refs_valid [OF inv(2) r(1)]])
  then have pid: "pid_at ?t r' = pid_at t r'" for r' using g by (simp add: pid_at_def)
  have s': "shape chs ?t" by (rule shape_cong [OF inv(2)]) simp_all
  have refs: "all_refs chs ?t = all_refs chs t" by (simp add: all_refs_def)
  have c': "content chs ?t"
    unfolding content_def
  proof (intro conjI allI ballI impI)
    fix i x assume "i < buckets ?t" "x \<in> bucket chs i" "pid_at ?t x \<noteq> pid_none"
    then show "home ?t (pid_at ?t x) = i" using contentD(1) [OF inv(3)] by (simp add: pid home_def)
  next
    fix x y assume "x \<in> all_refs chs ?t" "y \<in> all_refs chs ?t" "pid_at ?t x \<noteq> pid_none" "pid_at ?t x = pid_at ?t y"
    then show "x = y" using contentD(2) [OF inv(3)] by (simp add: pid refs)
  next
    fix x assume "x \<in> all_refs chs ?t" "pid_at ?t x = pid_none"
    moreover from this have "x \<noteq> r" using r(2) p0 by (auto simp: pid)
    ultimately show "isInlined x" and "getState (bstate (frame_at ?t x)) = Invalid"
      using contentD(3) [OF inv(3), of x] by (simp_all add: pid refs fr)
  next
    fix e assume e: "e \<in> set (entryFreeList ?t)"
    have "Chain e \<noteq> r"
      using r(1) inv(2) e by (auto simp: all_refs_def bucket_def shape_def)
    then show "getState (bstate (frame_at ?t (Chain e))) = Invalid"
      using contentD(4) [OF inv(3)] e by (simp add: fr)
  qed
  have "ht_lookup ?t q = ht_lookup t q" for q
  proof (rule option_eqI)
    show "ht_lookup ?t q = Some x \<longleftrightarrow> ht_lookup t q = Some x" for x
      using lookup_iff [OF s' c', of q] lookup_iff [OF inv(2,3), of q]
      by (cases "q = pid_none") (auto simp: refs pid)
  qed
  moreover have "lock_room n ?t"
    using inv(1) by (simp add: lock_room_nth)
  ultimately show ?thesis using s' c' fr by blast
qed

lemma ht_insert_old:
  assumes inv: "lock_room n t" "shape chs t" "content chs t" and p: "p \<noteq> pid_none" "ht_lookup t p = Some r"
  shows "ht_insert deq p (hashPID p m) t = Ret (None, t)"
proof -
  let ?i = "home t p"
  note h = home_less [OF inv(2), of p]
  note nl = lock_room_unlocked [OF inv(1) h]
  have hd: "bpid (ebf (head (table t ! ?i))) = pid_at t (Head ?i)" by (simp add: pid_at_def frame_at_def)
  show ?thesis
  proof (cases "pid_at t (Head ?i) = p")
    case True
    then show ?thesis using h nl hd by (simp add: ht_insert_def bucket_index Let_def)
  next
    case False
    then obtain e where "find (\<lambda>e. pid_at t (Chain e) = p) (chs ?i) = Some e"
      using lookup_chainD [OF inv(2) p] by auto
    then have "find_chain (length (heap t)) (heap t) p (enext (head (table t ! ?i))) = Ret (Some e)"
      using find_chain_path [OF shapeD(1,3) [OF inv(2) h], of p] by (simp add: pid_at_def frame_at_def)
    then show ?thesis using False h nl hd by (simp add: ht_insert_def bucket_index Let_def)
  qed
qed

lemma ht_remove_present:
  assumes inv: "lock_room (Suc n) t" "shape chs t" "content chs t" and p: "ht_lookup t p = Some r"
    and st: "getState (bstate (frame_at t r)) = Locked"
  shows "\<exists>t' chs'. ht_remove p (hashPID p m) t = Ret (True, t') \<and>
    lock_room n t' \<and> shape chs' t' \<and> content chs' t' \<and> hcount t' = hcount t \<and>
    ht_lookup t' = (ht_lookup t)(p := None) \<and>
    (\<forall>q x. q \<noteq> p \<longrightarrow> ht_lookup t q = Some x \<longrightarrow> frame_at t' x = frame_at t x)"
proof (cases "pid_at t (Head (home t p)) = p")
  have p0: "p \<noteq> pid_none" using p by auto
  {
    case True
    then have "r = Head (home t p)" using lookup_chainD [OF inv(2) p0 p] by simp
    then show ?thesis using ht_remove_head [OF inv p0 True] st by blast
  next
    case False
    then obtain e where e: "e \<in> set (chs (home t p))" "pid_at t (Chain e) = p" "r = Chain e"
      using lookup_chainD [OF inv(2) p0 p] by auto
    show ?thesis
      by (rule ht_remove_chain [OF inv p0 e(1,2)]) (use st e(3) in simp)
  }
qed

end
