(* ===== verification/Page_Table.thy ===== *)
theory Page_Table
  imports Hash_Table
begin

text \<open>
  What the buffer manager relies on of the hash table, as an interface: a map from page ids
  to frames with insert, remove, access and the change of a frame in place. The index \<open>n\<close> of
  \<open>ok\<close> bounds how many more operations the version counters of the bucket latches can take.
  The hash table of \<open>ht.hpp\<close> is shown to provide it, for every behaviour of its queues, and
  histories of operations are shown to be those of a set of page ids.
\<close>

locale page_table =
  fixes ins :: "PID \<Rightarrow> 't \<Rightarrow> ('r option \<times> 't) run"
    and rem :: "PID \<Rightarrow> 't \<Rightarrow> (bool \<times> 't) run"
    and acc :: "u64 \<Rightarrow> PID \<Rightarrow> 't \<Rightarrow> (('r option \<times> u64) \<times> 't) run"
    and look :: "'t \<Rightarrow> PID \<Rightarrow> 'r option"
    and fr :: "'t \<Rightarrow> 'r \<Rightarrow> frame"
    and upd :: "'r \<Rightarrow> (frame \<Rightarrow> frame) \<Rightarrow> 't \<Rightarrow> 't"
    and ok :: "nat \<Rightarrow> 't \<Rightarrow> bool"
  assumes ins_new: "ok (Suc n) t \<Longrightarrow> p \<noteq> pid_none \<Longrightarrow> look t p = None \<Longrightarrow>
      \<exists>r t'. ins p t = Ret (Some r, t') \<and> ok n t' \<and> look t' = (look t)(p \<mapsto> r) \<and> fresh_frame p (fr t' r) \<and>
        (\<forall>q x. look t q = Some x \<longrightarrow> fr t' x = fr t x)"
    and ins_old: "ok n t \<Longrightarrow> p \<noteq> pid_none \<Longrightarrow> look t p = Some r \<Longrightarrow> ins p t = Ret (None, t)"
    and rem_present: "ok (Suc n) t \<Longrightarrow> look t p = Some r \<Longrightarrow> getState (bstate (fr t r)) = Locked \<Longrightarrow>
      \<exists>t'. rem p t = Ret (True, t') \<and> ok n t' \<and> look t' = (look t)(p := None) \<and>
        (\<forall>q x. q \<noteq> p \<longrightarrow> look t q = Some x \<longrightarrow> fr t' x = fr t x)"
    and rem_absent: "ok (Suc n) t \<Longrightarrow> p \<noteq> pid_none \<Longrightarrow> look t p = None \<Longrightarrow>
      \<exists>t'. rem p t = Ret (False, t') \<and> ok n t' \<and> look t' = look t \<and> (\<forall>x. fr t' x = fr t x)"
    and acc_law: "ok n t \<Longrightarrow> p \<noteq> pid_none \<Longrightarrow>
      acc w p t = Ret (case look t p of None \<Rightarrow> (None, 0) | Some r \<Rightarrow> (Some r, bstate (fr t r)), t)"
    and look_pid: "ok n t \<Longrightarrow> look t p = Some r \<Longrightarrow> p \<noteq> pid_none \<and> bpid (fr t r) = p"
    and upd_law: "ok n t \<Longrightarrow> look t p = Some r \<Longrightarrow> bpid (g (fr t r)) = bpid (fr t r) \<Longrightarrow>
      ok n (upd r g t) \<and> look (upd r g t) = look t \<and>
      (\<forall>x. fr (upd r g t) x = (if x = r then g (fr t r) else fr t x))"
    and ok_less: "ok n t \<Longrightarrow> m \<le> n \<Longrightarrow> ok m t"

section \<open>Histories\<close>

text \<open>
  A history of operations with the answers they give: whether \<open>insert\<close> made a new frame,
  whether \<open>remove\<close> and \<open>access\<close> found the page; and the same history on a set.
\<close>

datatype tab_op = TInsert PID | TRemove PID | TAccess u64 PID

fun op_pid :: "tab_op \<Rightarrow> PID" where
  "op_pid (TInsert p) = p"
| "op_pid (TRemove p) = p"
| "op_pid (TAccess w p) = p"

fun run_tab ::
  "(PID \<Rightarrow> 't \<Rightarrow> ('r option \<times> 't) run) \<Rightarrow> (PID \<Rightarrow> 't \<Rightarrow> (bool \<times> 't) run) \<Rightarrow>
   (u64 \<Rightarrow> PID \<Rightarrow> 't \<Rightarrow> (('r option \<times> u64) \<times> 't) run) \<Rightarrow> tab_op list \<Rightarrow> 't \<Rightarrow> (bool list \<times> 't) run" where
  "run_tab ins rem acc [] t = Ret ([], t)"
| "run_tab ins rem acc (TInsert p # ops) t =
     bind_run (ins p t) (\<lambda>(r, t). bind_run (run_tab ins rem acc ops t) (\<lambda>(bs, t). Ret ((r \<noteq> None) # bs, t)))"
| "run_tab ins rem acc (TRemove p # ops) t =
     bind_run (rem p t) (\<lambda>(b, t). bind_run (run_tab ins rem acc ops t) (\<lambda>(bs, t). Ret (b # bs, t)))"
| "run_tab ins rem acc (TAccess w p # ops) t =
     bind_run (acc w p t) (\<lambda>((r, v), t). bind_run (run_tab ins rem acc ops t) (\<lambda>(bs, t). Ret ((r \<noteq> None) # bs, t)))"

fun spec_tab :: "tab_op list \<Rightarrow> PID set \<Rightarrow> bool list \<times> PID set" where
  "spec_tab [] S = ([], S)"
| "spec_tab (TInsert p # ops) S = (case spec_tab ops (insert p S) of (bs, S') \<Rightarrow> ((p \<notin> S) # bs, S'))"
| "spec_tab (TRemove p # ops) S = (case spec_tab ops (S - {p}) of (bs, S') \<Rightarrow> ((p \<in> S) # bs, S'))"
| "spec_tab (TAccess w p # ops) S = (case spec_tab ops S of (bs, S') \<Rightarrow> ((p \<in> S) # bs, S'))"

context page_table
begin

definition all_locked :: "'t \<Rightarrow> bool" where
  "all_locked t \<longleftrightarrow> (\<forall>p r. look t p = Some r \<longrightarrow> getState (bstate (fr t r)) = Locked)"

lemma look_inj:
  assumes "ok n t" and "look t p = Some r" and "look t q = Some r"
  shows "p = q"
  using assms look_pid by blast

lemma run_tab_refines:
  assumes "ok (length ops) t" and "\<forall>x \<in> set ops. op_pid x \<noteq> pid_none" and "all_locked t"
  shows "\<exists>t'. run_tab ins rem acc ops t = Ret (fst (spec_tab ops (dom (look t))), t') \<and>
    ok 0 t' \<and> dom (look t') = snd (spec_tab ops (dom (look t)))"
  using assms
proof (induction ops arbitrary: t)
  case Nil
  then show ?case by simp
next
  case (Cons x ops)
  have step: ?case if t1: "ok (length ops) t1" "all_locked t1"
      and run: "\<And>bs t'. run_tab ins rem acc ops t1 = Ret (bs, t') \<Longrightarrow> run_tab ins rem acc (x # ops) t = Ret (b # bs, t')"
      and spec: "\<And>bs S'. spec_tab ops (dom (look t1)) = (bs, S') \<Longrightarrow> spec_tab (x # ops) (dom (look t)) = (b # bs, S')"
    for t1 b
  proof -
    obtain bs S' where s: "spec_tab ops (dom (look t1)) = (bs, S')" by fastforce
    then obtain t' where "run_tab ins rem acc ops t1 = Ret (bs, t')" "ok 0 t'" "dom (look t') = S'"
      using Cons.IH [OF t1(1) _ t1(2)] Cons.prems(2) by auto
    then show ?thesis using run spec [OF s] by auto
  qed
  have ok1: "ok (Suc (length ops)) t" and ok0: "ok (length ops) t"
    using Cons.prems(1) ok_less [of "Suc (length ops)" t "length ops"] by auto
  have dom_iff: "q \<in> dom (look t) \<longleftrightarrow> look t q \<noteq> None" for q by blast
  show ?case
  proof (cases x)
    case (TInsert p)
    then have p: "p \<noteq> pid_none" using Cons.prems(2) by simp
    show ?thesis
    proof (cases "look t p")
      case None
      then obtain r t1 where t1: "ins p t = Ret (Some r, t1)" "ok (length ops) t1"
          "look t1 = (look t)(p \<mapsto> r)" "fresh_frame p (fr t1 r)" "\<forall>q x. look t q = Some x \<longrightarrow> fr t1 x = fr t x"
        using ins_new [OF ok1 p None] by blast
      have "all_locked t1"
        using t1(3-5) Cons.prems(3) by (auto simp: all_locked_def fresh_frame_def split: if_splits)
      then show ?thesis
        by (rule step [OF t1(2), where b = True]) (use t1 None TInsert dom_iff in auto)
    next
      case (Some r)
      then have "insert p (dom (look t)) = dom (look t)" by blast
      then show ?thesis
        by (intro step [OF ok0 Cons.prems(3), where b = False])
          (use ins_old [OF ok1 p Some] Some TInsert in auto)
    qed
  next
    case (TRemove p)
    then have p: "p \<noteq> pid_none" using Cons.prems(2) by simp
    show ?thesis
    proof (cases "look t p")
      case None
      then obtain t1 where t1: "rem p t = Ret (False, t1)" "ok (length ops) t1" "look t1 = look t" "\<forall>x. fr t1 x = fr t x"
        using rem_absent [OF ok1 p None] by blast
      have "all_locked t1" using t1(3,4) Cons.prems(3) by (simp add: all_locked_def)
      then show ?thesis
        by (rule step [OF t1(2), where b = False]) (use t1 None TRemove dom_iff in auto)
    next
      case (Some r)
      have "getState (bstate (fr t r)) = Locked" using Cons.prems(3) Some by (simp add: all_locked_def)
      then obtain t1 where t1: "rem p t = Ret (True, t1)" "ok (length ops) t1" "look t1 = (look t)(p := None)"
          "\<forall>q x. q \<noteq> p \<longrightarrow> look t q = Some x \<longrightarrow> fr t1 x = fr t x"
        using rem_present [OF ok1 Some] by blast
      have "all_locked t1"
        using t1(3,4) Cons.prems(3) by (auto simp: all_locked_def split: if_splits)
      then show ?thesis
        by (rule step [OF t1(2), where b = True]) (use t1 Some TRemove in auto)
    qed
  next
    case (TAccess w p)
    then have p: "p \<noteq> pid_none" using Cons.prems(2) by simp
    show ?thesis
      by (rule step [OF ok0 Cons.prems(3), where b = "look t p \<noteq> None"])
        (use acc_law [OF ok1 p, of w] TAccess in \<open>auto split: option.splits\<close>)
  qed
qed

end

section \<open>The hash table provides the interface\<close>

definition table_ok :: "(nat list \<Rightarrow> (nat \<times> nat list) option) \<Rightarrow> nat \<Rightarrow> htab \<Rightarrow> bool" where
  "table_ok deq n t \<longleftrightarrow> deq_ok deq \<and> ht_ok n t"

lemma table_okE:
  assumes "table_ok deq n t"
  obtains chs where "deq_ok deq" "lock_room n t" "shape chs t" "content chs t"
  using assms by (auto simp: table_ok_def ht_ok_def)

interpretation pt: page_table "\<lambda>p. ht_insert deq p (hashPID p m)" "\<lambda>p. ht_remove p (hashPID p m)"
    "\<lambda>w p. ht_access move w p (hashPID p m)" ht_lookup frame_at upd_frame "table_ok deq" for deq m move
proof
  fix n t p assume ok: "table_ok deq (Suc n) t" and p: "p \<noteq> pid_none" "ht_lookup t p = None"
  from ok obtain chs where t: "deq_ok deq" "lock_room (Suc n) t" "shape chs t" "content chs t"
    by (rule table_okE)
  show "\<exists>r t'. ht_insert deq p (hashPID p m) t = Ret (Some r, t') \<and> table_ok deq n t' \<and>
      ht_lookup t' = (ht_lookup t)(p \<mapsto> r) \<and> fresh_frame p (frame_at t' r) \<and>
      (\<forall>q x. ht_lookup t q = Some x \<longrightarrow> frame_at t' x = frame_at t x)"
  proof (cases "pid_at t (Head (home t p)) = pid_none")
    case True
    then show ?thesis
      using ht_insert_head [OF t(2-4) p, of deq m] t(1) unfolding table_ok_def ht_ok_def by blast
  next
    case False
    then show ?thesis
      using ht_insert_chain [OF t(2-4,1) p, of m] t(1) unfolding table_ok_def ht_ok_def by blast
  qed
  obtain t' where "ht_remove p (hashPID p m) t = Ret (False, t')" "lock_room n t'" "shape chs t'" "content chs t'"
      "ht_lookup t' = ht_lookup t" "\<forall>r. frame_at t' r = frame_at t r"
    using ht_remove_absent [OF t(2-4) p, of m] by blast
  then show "\<exists>t'. ht_remove p (hashPID p m) t = Ret (False, t') \<and> table_ok deq n t' \<and>
      ht_lookup t' = ht_lookup t \<and> (\<forall>x. frame_at t' x = frame_at t x)"
    using t(1) unfolding table_ok_def ht_ok_def by blast
next
  fix n t p r assume ok: "table_ok deq n t" and p: "p \<noteq> pid_none" "ht_lookup t p = Some r"
  from ok obtain chs where t: "deq_ok deq" "lock_room n t" "shape chs t" "content chs t"
    by (rule table_okE)
  show "ht_insert deq p (hashPID p m) t = Ret (None, t)"
    by (rule ht_insert_old [OF t(2-4) p])
next
  fix n t p r
  assume ok: "table_ok deq (Suc n) t" and p: "ht_lookup t p = Some r" and st: "getState (bstate (frame_at t r)) = Locked"
  from ok obtain chs where t: "deq_ok deq" "lock_room (Suc n) t" "shape chs t" "content chs t"
    by (rule table_okE)
  obtain t' chs' where "ht_remove p (hashPID p m) t = Ret (True, t')" "lock_room n t'" "shape chs' t'" "content chs' t'"
    "ht_lookup t' = (ht_lookup t)(p := None)"
    "\<forall>q x. q \<noteq> p \<longrightarrow> ht_lookup t q = Some x \<longrightarrow> frame_at t' x = frame_at t x"
    using ht_remove_present [OF t(2-4) p st, of m] by blast
  then show "\<exists>t'. ht_remove p (hashPID p m) t = Ret (True, t') \<and> table_ok deq n t' \<and>
      ht_lookup t' = (ht_lookup t)(p := None) \<and>
      (\<forall>q x. q \<noteq> p \<longrightarrow> ht_lookup t q = Some x \<longrightarrow> frame_at t' x = frame_at t x)"
    using t(1) unfolding table_ok_def ht_ok_def by blast
next
  fix n t p w assume "table_ok deq n t" and p: "p \<noteq> pid_none"
  then show "ht_access move w p (hashPID p m) t =
      Ret (case ht_lookup t p of None \<Rightarrow> (None, 0) | Some r \<Rightarrow> (Some r, bstate (frame_at t r)), t)"
    using ht_access_ok by (blast elim: table_okE)
next
  fix n t p r assume ok: "table_ok deq n t" and p: "ht_lookup t p = Some r"
  from ok obtain chs where t: "deq_ok deq" "lock_room n t" "shape chs t" "content chs t"
    by (rule table_okE)
  show "p \<noteq> pid_none \<and> bpid (frame_at t r) = p"
    using lookup_iff [OF t(3,4), of p r] p by (cases "p = pid_none") (auto simp: pid_at_def)
  fix g :: "frame \<Rightarrow> frame" assume "bpid (g (frame_at t r)) = bpid (frame_at t r)"
  from upd_frame_ok [OF t(2-4) p, of g, OF this]
  show "table_ok deq n (upd_frame r g t) \<and> ht_lookup (upd_frame r g t) = ht_lookup t \<and>
      (\<forall>x. frame_at (upd_frame r g t) x = (if x = r then g (frame_at t r) else frame_at t x))"
    using t(1) unfolding table_ok_def ht_ok_def by blast
next
  fix n t k assume "table_ok deq n t" "k \<le> n"
  then show "table_ok deq k t" using lock_room_mono by (auto simp: table_ok_def ht_ok_def)
qed

section \<open>The new table\<close>

lemma ht_new_ok:
  assumes "0 < c" and "n < 2 ^ 63"
  shows "ht_ok n (ht_new c)" and "ht_lookup (ht_new c) = Map.empty"
proof -
  have nth: "table (ht_new c) ! i = new_chain_head" if "i < unat c" for i using that by (simp add: ht_new_def)
  have refs: "r \<in> all_refs (\<lambda>_. []) (ht_new c) \<Longrightarrow>
      pid_at (ht_new c) r = pid_none \<and> isInlined r \<and> getState (bstate (frame_at (ht_new c) r)) = Invalid" for r
    by (auto simp: all_refs_def bucket_def pid_at_def frame_at_def isInlined_def ht_new_def
        new_chain_head_def new_entry_def ps_init_def)
  have s: "shape (\<lambda>_. []) (ht_new c)"
    using assms(1) nth by (simp add: shape_def ht_new_def new_chain_head_def new_entry_def)
  moreover have c: "content (\<lambda>_. []) (ht_new c)"
    unfolding content_def using refs bucket_all by (auto simp: ht_new_def)
  moreover have "lock_room n (ht_new c)"
    using assms(2) by (simp add: lock_room_nth ht_new_def new_chain_head_def vl_init_def)
  ultimately show "ht_ok n (ht_new c)" unfolding ht_ok_def by blast
  show "ht_lookup (ht_new c) = Map.empty"
  proof
    fix p show "ht_lookup (ht_new c) p = None"
    proof (cases "p = pid_none")
      case False
      then show ?thesis using lookup_iff [OF s c False] refs by (metis option.exhaust)
    qed simp
  qed
qed

text \<open>
  C8: the hash table implements a set of page ids. From a new table with at least one bucket,
  every history of inserts, removes and accesses returns, whatever its free queue does, gives
  the answers of the same history on a set, and leaves the table holding that set.
\<close>

theorem hash_table_refines:
  assumes "deq_ok deq" and "0 < c" and "length ops < 2 ^ 63" and "\<forall>x \<in> set ops. op_pid x \<noteq> pid_none"
  shows "\<exists>t. run_tab (\<lambda>p. ht_insert deq p (hashPID p m)) (\<lambda>p. ht_remove p (hashPID p m))
      (\<lambda>w p. ht_access move w p (hashPID p m)) ops (ht_new c) = Ret (fst (spec_tab ops {}), t) \<and>
    ht_ok 0 t \<and> dom (ht_lookup t) = snd (spec_tab ops {})"
proof -
  have "table_ok deq (length ops) (ht_new c)"
    using assms(1) ht_new_ok(1) [OF assms(2,3)] by (simp add: table_ok_def)
  moreover have "pt.all_locked (ht_new c)"
    using ht_new_ok(2) [OF assms(2,3)] by (simp add: pt.all_locked_def)
  ultimately show ?thesis
    using pt.run_tab_refines [of deq ops "ht_new c" m move] assms(4) ht_new_ok(2) [OF assms(2,3)]
    by (auto simp: table_ok_def)
qed

theorem hash_table_refines_witness:
  "\<exists>t. run_tab (\<lambda>p. ht_insert fifo p (hashPID p 4)) (\<lambda>p. ht_remove p (hashPID p 4))
      (\<lambda>w p. ht_access True w p (hashPID p 4))
      [TInsert 7, TInsert 8, TRemove 7, TInsert 9, TAccess 5 7, TAccess 1 9] (ht_new 1) =
    Ret ([True, True, True, True, False, True], t) \<and> dom (ht_lookup t) = {8, 9}"
proof -
  have "spec_tab [TInsert 7, TInsert 8, TRemove 7, TInsert 9, TAccess 5 7, TAccess 1 9] {} =
    ([True, True, True, True, False, True], {8, 9})" by auto
  then show ?thesis
    using hash_table_refines [OF fifo_ok, of 1 "[TInsert 7, TInsert 8, TRemove 7, TInsert 9, TAccess 5 7, TAccess 1 9]" 4 True]
    by auto
qed

text \<open>
  C35: \<open>access\<close> never changes the table. The guard of the move of a chain entry to an empty
  head draws a random word but never holds, as \<open>& 7 == 0\<close> compares first; so the entry stays
  in the chain for good, whatever is drawn.
\<close>

theorem access_never_moves:
  assumes "ht_access move w p h t = Ret (res, t')"
  shows "t' = t"
  using assms by (auto simp: ht_access_def Let_def run_simps split: if_splits option.splits)

theorem access_never_moves_witness:
  "ht_access True 0 3 (hashPID 3 4) (ht_new 4) = Ret ((None, 0), ht_new 4)"
proof -
  have "ht_ok 0 (ht_new 4)" "ht_lookup (ht_new 4) 3 = None" using ht_new_ok [of 4 0] by simp_all
  then have "table_ok fifo 0 (ht_new 4)" by (simp add: table_ok_def fifo_ok)
  from pt.acc_law [OF this, of 3 True 0 4] \<open>ht_lookup (ht_new 4) 3 = None\<close>
  have "ht_access True 0 3 (hashPID 3 4) (ht_new 4) = Ret ((None, 0), ht_new 4)" by simp
  with access_never_moves [OF this] show ?thesis by simp
qed

end
