(* ===== verification/Resident_Set.thy ===== *)
theory Resident_Set
  imports Hashing
begin

text \<open>
  \<open>ResidentPageSet\<close> of \<open>page.hpp\<close>: the open-addressing table of the resident page
  ids, with linear probing, tombstones and a clock hand for the second-chance replacement.
  The loops take fuel; a table of \<open>count\<close> slots is probed with fuel \<open>count\<close>, and the
  lemmas show that this is enough whenever the loop of the source returns at all. The
  interface \<open>page_set\<close> states what the buffer manager relies on.
\<close>

section \<open>State\<close>

abbreviation rs_empty :: u64 where "rs_empty \<equiv> - 1"
abbreviation rs_tombstone :: u64 where "rs_tombstone \<equiv> - 2"

record rset =
  slots :: "u64 list"
  rcount :: u64
  rmask :: u64
  clockPos :: u64
  rsize :: u64

definition rs_new :: "u64 \<Rightarrow> rset run" where
  "rs_new maxCount = bind_run (next_pow2 (of_nat (unat maxCount * 3 div 2)))
     (\<lambda>count. Ret \<lparr>slots = replicate (unat count) rs_empty, rcount = count, rmask = count - 1,
        clockPos = 0, rsize = 0\<rparr>)"

section \<open>Operations\<close>

fun rs_insert_loop :: "nat \<Rightarrow> u64 \<Rightarrow> u64 \<Rightarrow> u64 \<Rightarrow> u64 list \<Rightarrow> u64 list run" where
  "rs_insert_loop 0 msk pid pos ht = Loop"
| "rs_insert_loop (Suc fuel) msk pid pos ht =
     bind_run (aget ht (unat pos)) (\<lambda>curr.
       check (curr \<noteq> pid) ''curr != pid''
         (if curr = rs_empty \<or> curr = rs_tombstone then
            (case cas (ht ! unat pos) curr pid of
               (True, c) \<Rightarrow> Ret (ht[unat pos := c])
             | (False, _) \<Rightarrow> rs_insert_loop fuel msk pid ((pos + 1) AND msk) ht)
          else rs_insert_loop fuel msk pid ((pos + 1) AND msk) ht))"

definition rs_insert :: "u64 \<Rightarrow> rset \<Rightarrow> rset run" where
  "rs_insert pid r =
     bind_run (rs_insert_loop (length (slots r)) (rmask r) pid (rs_hash pid AND rmask r) (slots r))
       (\<lambda>ht. Ret (r\<lparr>slots := ht, rsize := rsize r + 1\<rparr>))"

fun rs_remove_loop :: "nat \<Rightarrow> u64 \<Rightarrow> u64 \<Rightarrow> u64 \<Rightarrow> u64 list \<Rightarrow> (bool \<times> u64 list) run" where
  "rs_remove_loop 0 msk pid pos ht = Loop"
| "rs_remove_loop (Suc fuel) msk pid pos ht =
     bind_run (aget ht (unat pos)) (\<lambda>curr.
       if curr = rs_empty then Ret (False, ht)
       else if curr = pid then
         (case cas (ht ! unat pos) curr rs_tombstone of
            (True, c) \<Rightarrow> Ret (True, ht[unat pos := c])
          | (False, _) \<Rightarrow> rs_remove_loop fuel msk pid ((pos + 1) AND msk) ht)
       else rs_remove_loop fuel msk pid ((pos + 1) AND msk) ht)"

definition rs_remove :: "u64 \<Rightarrow> rset \<Rightarrow> (bool \<times> rset) run" where
  "rs_remove pid r =
     bind_run (rs_remove_loop (length (slots r)) (rmask r) pid (rs_hash pid AND rmask r) (slots r))
       (\<lambda>(found, ht). Ret (found, if found then r\<lparr>slots := ht, rsize := rsize r - 1\<rparr> else r))"

text \<open>
  The two iterations call back into the buffer manager, which may change the set: they take
  the state \<open>'s\<close> of the caller, and \<open>get\<close> and \<open>put\<close> reach the set in it.
\<close>

fun clock_loop ::
  "('s \<Rightarrow> rset) \<Rightarrow> (PID \<Rightarrow> 's \<Rightarrow> 's run) \<Rightarrow> nat \<Rightarrow> u64 \<Rightarrow> 's \<Rightarrow> 's run" where
  "clock_loop get fn 0 pos s = Ret s"
| "clock_loop get fn (Suc n) pos s =
     bind_run (aget (slots (get s)) (unat pos)) (\<lambda>curr.
       bind_run (if curr \<noteq> rs_tombstone \<and> curr \<noteq> rs_empty then fn curr s else Ret s)
         (\<lambda>s'. clock_loop get fn n ((pos + 1) AND rmask (get s')) s'))"

definition iterateClockBatch ::
  "('s \<Rightarrow> rset) \<Rightarrow> (rset \<Rightarrow> 's \<Rightarrow> 's) \<Rightarrow> u64 \<Rightarrow> (PID \<Rightarrow> 's \<Rightarrow> 's run) \<Rightarrow> 's \<Rightarrow> 's run" where
  "iterateClockBatch get put batch fn s =
     (let pos = clockPos (get s);
          newPos = (pos + batch) mod rcount (get s)
      in clock_loop get fn (unat batch) pos (put (get s\<lparr>clockPos := newPos\<rparr>) s))"

fun all_loop :: "('s \<Rightarrow> rset) \<Rightarrow> (PID \<Rightarrow> 's \<Rightarrow> 's run) \<Rightarrow> nat \<Rightarrow> nat \<Rightarrow> 's \<Rightarrow> 's run" where
  "all_loop get fn 0 i s = Ret s"
| "all_loop get fn (Suc n) i s =
     bind_run (aget (slots (get s)) i) (\<lambda>curr.
       bind_run (if curr \<noteq> rs_tombstone \<and> curr \<noteq> rs_empty then fn curr s else Ret s)
         (\<lambda>s'. all_loop get fn n (Suc i) s'))"

definition iterateAll :: "('s \<Rightarrow> rset) \<Rightarrow> (PID \<Rightarrow> 's \<Rightarrow> 's run) \<Rightarrow> 's \<Rightarrow> 's run" where
  "iterateAll get fn s = all_loop get fn (unat (rcount (get s))) 0 s"

section \<open>The set of resident pages and the probing invariant\<close>

definition real_pid :: "u64 \<Rightarrow> bool" where
  "real_pid x \<longleftrightarrow> x \<noteq> rs_empty \<and> x \<noteq> rs_tombstone"

definition members :: "rset \<Rightarrow> PID set" where
  "members r = {x \<in> set (slots r). real_pid x}"

definition rs_home :: "nat \<Rightarrow> u64 \<Rightarrow> nat" where
  "rs_home k pid = unat (take_bit k (rs_hash pid))"

text \<open>
  The table has \<open>2 ^ k\<close> slots. Every resident id sits where its probe sequence finds it:
  no slot from its home position up to it is empty (tombstones are allowed). No id is stored
  twice.
\<close>

definition reachable_slot :: "nat \<Rightarrow> u64 list \<Rightarrow> u64 \<Rightarrow> nat \<Rightarrow> bool" where
  "reachable_slot k ht x d \<longleftrightarrow> d < 2 ^ k \<and> ht ! ((rs_home k x + d) mod 2 ^ k) = x \<and>
     (\<forall>j < d. ht ! ((rs_home k x + j) mod 2 ^ k) \<noteq> rs_empty)"

definition rs_inv :: "nat \<Rightarrow> rset \<Rightarrow> bool" where
  "rs_inv k r \<longleftrightarrow> k < 64 \<and> length (slots r) = 2 ^ k \<and> rcount r = 2 ^ k \<and> rmask r = mask k \<and>
     unat (clockPos r) < 2 ^ k \<and>
     (\<forall>i < 2 ^ k. \<forall>j < 2 ^ k. real_pid (slots r ! i) \<longrightarrow> slots r ! i = slots r ! j \<longrightarrow> i = j) \<and>
     (\<forall>x \<in> members r. \<exists>d. reachable_slot k (slots r) x d) \<and>
     unat (rsize r) = card (members r)"

definition has_free :: "rset \<Rightarrow> bool" where
  "has_free r \<longleftrightarrow> (\<exists>x \<in> set (slots r). \<not> real_pid x)"

definition has_empty :: "rset \<Rightarrow> bool" where
  "has_empty r \<longleftrightarrow> rs_empty \<in> set (slots r)"

section \<open>The probe sequence\<close>

lemma probe_next:
  fixes pos :: u64
  assumes "unat pos < 2 ^ k" and "k < 64"
  shows "unat ((pos + 1) AND mask k) = (unat pos + 1) mod 2 ^ k"
    and "unat ((pos + 1) AND mask k) < 2 ^ k"
proof -
  have "unat pos + 1 < 2 ^ 64"
  proof -
    have "(2::nat) ^ k \<le> 2 ^ 63" using assms(2) by (intro power_increasing) auto
    then show ?thesis using assms(1) by simp
  qed
  then have "unat (pos + 1) = unat pos + 1" by (simp add: unat_word_ariths)
  then show "unat ((pos + 1) AND mask k) = (unat pos + 1) mod 2 ^ k"
    by (simp add: take_bit_eq_mask [symmetric] unsigned_take_bit_eq) (simp add: take_bit_eq_mod)
  then show "unat ((pos + 1) AND mask k) < 2 ^ k" by simp
qed

lemma probe_home: "unat (rs_hash pid AND mask k) = rs_home k pid" "rs_home k pid < 2 ^ k"
  by (simp_all add: rs_home_def take_bit_eq_mask [symmetric] unsigned_take_bit_eq)

lemma probe_shift: "(Suc p mod n + j) mod n = Suc (p + j) mod (n :: nat)"
  by (simp add: mod_add_left_eq)

lemma probe_onto: "p < n \<Longrightarrow> i < n \<Longrightarrow> \<exists>d < n. (p + d) mod n = (i :: nat)"
proof (cases "p \<le> i")
  case True
  assume "i < n"
  then show ?thesis using True by (intro exI [of _ "i - p"]) simp
next
  case False
  assume *: "p < n" "i < n"
  then have "(p + (n + i - p)) mod n = i" using False by simp
  then show ?thesis using False * by (intro exI [of _ "n + i - p"]) simp
qed

lemma probe_inj:
  assumes "(p + j) mod n = (p + d) mod n" and "j \<le> d" and "d < n"
  shows "j = (d :: nat)"
proof (rule ccontr)
  assume "j \<noteq> d"
  moreover have "n dvd (p + d) - (p + j)"
    using assms(1,2) mod_eq_dvd_iff_nat [of "p + j" "p + d" n] by simp
  ultimately show False using assms(2,3) nat_dvd_not_less [of "d - j" n] by simp
qed

text \<open>
  A loop that probes from \<open>pos\<close> stops at the first offset whose slot stops it. The two
  loops below behave as their first stopping offset says.
\<close>

lemma insert_loop_first:
  assumes "k < 64" and "length ht = 2 ^ k" and "unat pos < 2 ^ k"
    and "\<forall>j < d. real_pid (ht ! ((unat pos + j) mod 2 ^ k)) \<and> ht ! ((unat pos + j) mod 2 ^ k) \<noteq> pid"
    and "\<not> real_pid (ht ! ((unat pos + d) mod 2 ^ k))" and "real_pid pid" and "d < fuel"
  shows "rs_insert_loop fuel (mask k) pid pos ht = Ret (ht[(unat pos + d) mod 2 ^ k := pid])"
  using assms(3-5,7)
proof (induction d arbitrary: pos fuel)
  case 0
  then obtain f where "fuel = Suc f" by (cases fuel) auto
  then show ?case using 0 assms(2,6) by (auto simp: real_pid_def)
next
  case (Suc d)
  then obtain f where f: "fuel = Suc f" by (cases fuel) auto
  let ?pos' = "(pos + 1) AND mask k"
  note next_pos = probe_next [OF Suc.prems(1) assms(1)]
  have "rs_insert_loop f (mask k) pid ?pos' ht = Ret (ht[(unat ?pos' + d) mod 2 ^ k := pid])"
  proof (rule Suc.IH)
    show "\<forall>j < d. real_pid (ht ! ((unat ?pos' + j) mod 2 ^ k)) \<and> ht ! ((unat ?pos' + j) mod 2 ^ k) \<noteq> pid"
      using Suc.prems(2) by (auto simp: next_pos(1) probe_shift dest: spec [of _ "Suc _"])
  qed (use Suc.prems f next_pos in \<open>simp_all add: probe_shift\<close>)
  moreover have "real_pid (ht ! unat pos)" "ht ! unat pos \<noteq> pid"
    using Suc.prems(1,2) by (auto dest!: spec [of _ 0])
  ultimately show ?case
    using f assms(2) Suc.prems(1) by (simp add: real_pid_def next_pos(1) probe_shift)
qed

lemma insert_loop_full:
  assumes "k < 64" and "length ht = 2 ^ k" and "unat pos < 2 ^ k"
    and "\<forall>x \<in> set ht. real_pid x \<and> x \<noteq> pid"
  shows "rs_insert_loop fuel (mask k) pid pos ht = Loop"
  using assms(3)
proof (induction fuel arbitrary: pos)
  case (Suc fuel)
  then have "ht ! unat pos \<in> set ht" using assms(2) by simp
  then show ?case
    using Suc assms probe_next [OF Suc.prems assms(1)] by (auto simp: real_pid_def)
qed simp

lemma remove_loop_first:
  assumes "k < 64" and "length ht = 2 ^ k" and "unat pos < 2 ^ k"
    and "\<forall>j < d. ht ! ((unat pos + j) mod 2 ^ k) \<noteq> rs_empty \<and> ht ! ((unat pos + j) mod 2 ^ k) \<noteq> pid"
    and "ht ! ((unat pos + d) mod 2 ^ k) = (if found then pid else rs_empty)"
    and "pid \<noteq> rs_empty" and "d < fuel"
  shows "rs_remove_loop fuel (mask k) pid pos ht =
    Ret (found, if found then ht[(unat pos + d) mod 2 ^ k := rs_tombstone] else ht)"
  using assms(3-5,7)
proof (induction d arbitrary: pos fuel)
  case 0
  then obtain f where "fuel = Suc f" by (cases fuel) auto
  then show ?case using 0 assms(2,6) by (auto split: if_splits)
next
  case (Suc d)
  then obtain f where f: "fuel = Suc f" by (cases fuel) auto
  let ?pos' = "(pos + 1) AND mask k"
  note next_pos = probe_next [OF Suc.prems(1) assms(1)]
  have "rs_remove_loop f (mask k) pid ?pos' ht =
      Ret (found, if found then ht[(unat ?pos' + d) mod 2 ^ k := rs_tombstone] else ht)"
  proof (rule Suc.IH)
    show "\<forall>j < d. ht ! ((unat ?pos' + j) mod 2 ^ k) \<noteq> rs_empty \<and> ht ! ((unat ?pos' + j) mod 2 ^ k) \<noteq> pid"
      using Suc.prems(2) by (auto simp: next_pos(1) probe_shift dest: spec [of _ "Suc _"])
  qed (use Suc.prems f next_pos in \<open>simp_all add: probe_shift\<close>)
  moreover have "ht ! unat pos \<noteq> rs_empty" "ht ! unat pos \<noteq> pid"
    using Suc.prems(1,2) by (auto dest!: spec [of _ 0])
  ultimately show ?case
    using f assms(2) Suc.prems(1) by (simp add: next_pos(1) probe_shift)
qed

lemma remove_loop_spins:
  assumes "k < 64" and "length ht = 2 ^ k" and "unat pos < 2 ^ k"
    and "rs_empty \<notin> set ht" and "pid \<notin> set ht"
  shows "rs_remove_loop fuel (mask k) pid pos ht = Loop"
  using assms(3)
proof (induction fuel arbitrary: pos)
  case (Suc fuel)
  then have "ht ! unat pos \<in> set ht" using assms(2) by simp
  then have "ht ! unat pos \<noteq> rs_empty" "ht ! unat pos \<noteq> pid" using assms(4,5) by auto
  then show ?case
    using Suc assms(2) probe_next [OF Suc.prems assms(1)] by simp
qed simp

section \<open>Correctness of insert and remove\<close>

lemma rs_invD:
  assumes "rs_inv k r"
  shows "k < 64" "length (slots r) = 2 ^ k" "rmask r = mask k" "rcount r = 2 ^ k"
    and "\<And>i j. i < 2 ^ k \<Longrightarrow> j < 2 ^ k \<Longrightarrow> real_pid (slots r ! i) \<Longrightarrow> slots r ! i = slots r ! j \<Longrightarrow> i = j"
    and "\<And>x. x \<in> members r \<Longrightarrow> \<exists>d. reachable_slot k (slots r) x d"
  using assms by (auto simp: rs_inv_def)

lemma members_nth: "length (slots r) = n \<Longrightarrow> x \<in> members r \<longleftrightarrow> real_pid x \<and> (\<exists>i < n. slots r ! i = x)"
  by (auto simp: members_def in_set_conv_nth)

lemma reachable_slot_upd:
  assumes "reachable_slot k ht x d" and "length ht = 2 ^ k"
    and "i \<noteq> (rs_home k x + d) mod 2 ^ k" and "y \<noteq> rs_empty"
  shows "reachable_slot k (ht[i := y]) x d"
proof (cases "i < 2 ^ k")
  case True
  then show ?thesis using assms by (auto simp: reachable_slot_def nth_list_update)
next
  case False
  then show ?thesis using assms by (simp add: list_update_beyond)
qed

lemma members_finite: "finite (members r)" "card (members r) \<le> length (slots r)"
proof -
  show "finite (members r)" by (simp add: members_def)
  have "card (members r) \<le> card (set (slots r))" by (rule card_mono) (auto simp: members_def)
  then show "card (members r) \<le> length (slots r)" using card_length le_trans by blast
qed

lemma first_stop:
  assumes "p < n" and "i < n" and "P (ht ! i)"
  shows "\<exists>d < n. P (ht ! ((p + d) mod n)) \<and> (\<forall>j < d. \<not> P (ht ! ((p + j) mod n)))"
proof -
  obtain d where "d < n" "(p + d) mod n = i" using probe_onto [OF assms(1,2)] by blast
  then have ex: "P (ht ! ((p + d) mod n))" using assms(3) by simp
  define m where "m = (LEAST d. P (ht ! ((p + d) mod n)))"
  have "P (ht ! ((p + m) mod n))" and "m \<le> d"
    unfolding m_def using ex by (rule LeastI, rule Least_le) 
  moreover have "\<forall>j < m. \<not> P (ht ! ((p + j) mod n))"
    unfolding m_def using not_less_Least by blast
  ultimately show ?thesis using \<open>d < n\<close> by (intro exI [of _ m]) auto
qed

lemma card_less_word: "rs_inv k r \<Longrightarrow> card (members r) \<le> 2 ^ 63"
  using members_finite(2) [of r] power_increasing [of k 63 "2::nat"]
  by (auto simp: rs_inv_def)

lemma rs_insert_ok:
  assumes inv: "rs_inv k r" and "real_pid pid" and "pid \<notin> members r" and "has_free r"
  shows "\<exists>r'. rs_insert pid r = Ret r' \<and> rs_inv k r' \<and> members r' = insert pid (members r) \<and>
    clockPos r' = clockPos r"
proof -
  let ?n = "2 ^ k :: nat" and ?h = "rs_home k pid"
  note I = rs_invD [OF inv]
  have nin: "\<And>i. i < ?n \<Longrightarrow> slots r ! i \<noteq> pid"
    using assms(2,3) members_nth [OF I(2)] by blast
  obtain i where "i < ?n" "\<not> real_pid (slots r ! i)"
    using assms(4) I(2) by (auto simp: has_free_def in_set_conv_nth)
  from first_stop [where P = "\<lambda>x. \<not> real_pid x", OF probe_home(2) this]
  obtain d where d: "d < ?n" "\<not> real_pid (slots r ! ((?h + d) mod ?n))"
    "\<forall>j < d. real_pid (slots r ! ((?h + j) mod ?n))" by blast
  define i where "i = (?h + d) mod ?n"
  define ht where "ht = (slots r)[i := pid]"
  have i: "i < ?n" by (simp add: i_def)
  have "rs_insert_loop (length (slots r)) (mask k) pid (rs_hash pid AND mask k) (slots r) = Ret ht"
    unfolding ht_def i_def probe_home(1) [symmetric]
    by (rule insert_loop_first) (use I d nin assms(2) in \<open>simp_all add: probe_home\<close>)
  then have ret: "rs_insert pid r = Ret (r\<lparr>slots := ht, rsize := rsize r + 1\<rparr>)"
    by (simp add: rs_insert_def I)
  let ?r = "r\<lparr>slots := ht, rsize := rsize r + 1\<rparr>"
  have nth: "j < ?n \<Longrightarrow> ht ! j = (if j = i then pid else slots r ! j)" for j
    by (simp add: ht_def I nth_list_update)
  have len: "length (slots ?r) = ?n" by (simp add: ht_def I)
  have free: "\<not> real_pid (slots r ! i)" using d(2) by (simp add: i_def)
  have "x \<in> members ?r \<longleftrightarrow> x = pid \<or> x \<in> members r" for x
  proof
    assume "x \<in> members ?r"
    then obtain j where "j < ?n" "ht ! j = x" "real_pid x" using members_nth [OF len] by auto
    then show "x = pid \<or> x \<in> members r"
      using nth members_nth [OF I(2), of x] by (auto split: if_splits)
  next
    assume "x = pid \<or> x \<in> members r"
    then obtain j where "j < ?n" "ht ! j = x" "real_pid x"
      using nth i free assms(2) members_nth [OF I(2), of x] by metis
    then show "x \<in> members ?r" using members_nth [OF len] by auto
  qed
  then have mem: "members ?r = insert pid (members r)" by blast
  have "unat (rsize r + 1) = unat (rsize r) + 1"
    using inv card_less_word [OF inv] by (simp add: unat_word_ariths rs_inv_def)
  then have size: "unat (rsize ?r) = card (members ?r)"
    unfolding mem using inv assms(3) members_finite(1) by (simp add: rs_inv_def)
  have "\<exists>d. reachable_slot k ht x d" if "x \<in> members ?r" for x
  proof (cases "x = pid")
    case True
    have "reachable_slot k ht pid d"
      using d nth i by (auto simp: reachable_slot_def i_def real_pid_def)
    then show ?thesis using True by blast
  next
    case False
    then have "x \<in> members r" using that unfolding mem by simp
    then obtain e where e: "reachable_slot k (slots r) x e" using I(6) by blast
    moreover have "real_pid x" using that by (simp add: members_def)
    ultimately have "i \<noteq> (rs_home k x + e) mod ?n" using free by (auto simp: reachable_slot_def)
    then show ?thesis
      using reachable_slot_upd [OF e I(2)] assms(2) unfolding ht_def
      by (intro exI [of _ e]) (simp add: real_pid_def)
  qed
  moreover have "\<forall>a < ?n. \<forall>b < ?n. real_pid (ht ! a) \<longrightarrow> ht ! a = ht ! b \<longrightarrow> a = b"
    using nth I(5) nin by (auto split: if_splits)
  ultimately have "rs_inv k ?r"
    using inv size len by (simp add: rs_inv_def)
  then show ?thesis using ret mem by simp
qed

lemma rs_remove_present:
  assumes inv: "rs_inv k r" and "pid \<in> members r"
  shows "\<exists>r'. rs_remove pid r = Ret (True, r') \<and> rs_inv k r' \<and> members r' = members r - {pid} \<and>
    clockPos r' = clockPos r"
proof -
  let ?n = "2 ^ k :: nat" and ?h = "rs_home k pid"
  note I = rs_invD [OF inv]
  have real: "real_pid pid" using assms(2) by (simp add: members_def)
  obtain d where d: "reachable_slot k (slots r) pid d" using I(6) assms(2) by blast
  define i where "i = (?h + d) mod ?n"
  have i: "i < ?n" "slots r ! i = pid" using d by (simp_all add: i_def reachable_slot_def)
  have before: "slots r ! ((?h + j) mod ?n) \<noteq> pid" if "j < d" for j
  proof
    assume "slots r ! ((?h + j) mod ?n) = pid"
    then have "(?h + j) mod ?n = i" using I(5) i real by simp
    moreover have "d < ?n" using d by (simp add: reachable_slot_def)
    ultimately show False using that probe_inj [of ?h j ?n d] unfolding i_def by simp
  qed
  define ht where "ht = (slots r)[i := rs_tombstone]"
  have "rs_remove_loop (length (slots r)) (mask k) pid (rs_hash pid AND mask k) (slots r) =
      Ret (True, if True then (slots r)[(unat (rs_hash pid AND mask k) + d) mod 2 ^ k := rs_tombstone] else slots r)"
    by (rule remove_loop_first)
      (use I d before real in \<open>simp_all add: probe_home reachable_slot_def real_pid_def\<close>)
  then have ret: "rs_remove pid r = Ret (True, r\<lparr>slots := ht, rsize := rsize r - 1\<rparr>)"
    by (simp add: rs_remove_def I ht_def i_def probe_home)
  let ?r = "r\<lparr>slots := ht, rsize := rsize r - 1\<rparr>"
  have nth: "j < ?n \<Longrightarrow> ht ! j = (if j = i then rs_tombstone else slots r ! j)" for j
    by (simp add: ht_def I nth_list_update)
  have len: "length (slots ?r) = ?n" by (simp add: ht_def I)
  have "x \<in> members ?r \<longleftrightarrow> x \<noteq> pid \<and> x \<in> members r" for x
  proof
    assume "x \<in> members ?r"
    then obtain j where j: "j < ?n" "ht ! j = x" "real_pid x" using members_nth [OF len] by auto
    then have x: "j \<noteq> i" "slots r ! j = x"
      using nth [OF j(1)] by (simp_all add: real_pid_def split: if_splits)
    then have "x \<noteq> pid" using I(5) [OF j(1) i(1)] i(2) real by auto
    then show "x \<noteq> pid \<and> x \<in> members r"
      using j x members_nth [OF I(2), of x] by auto
  next
    assume x: "x \<noteq> pid \<and> x \<in> members r"
    then obtain j where "j < ?n" "slots r ! j = x" "real_pid x" using members_nth [OF I(2)] by auto
    then have "j < ?n" "ht ! j = x" "real_pid x" using nth i x by auto
    then show "x \<in> members ?r" using members_nth [OF len] by auto
  qed
  then have mem: "members ?r = members r - {pid}" by blast
  have "0 < card (members r)" using assms(2) members_finite(1) card_gt_0_iff by blast
  then have "rsize r \<noteq> 0" using inv by (auto simp: rs_inv_def)
  then have "unat (rsize r - 1) = unat (rsize r) - 1" by (rule unat_minus_one)
  then have size: "unat (rsize ?r) = card (members ?r)"
    unfolding mem using inv assms(2) members_finite(1) by (simp add: rs_inv_def)
  have "\<exists>d. reachable_slot k ht x d" if x: "x \<in> members ?r" for x
  proof -
    obtain e where e: "reachable_slot k (slots r) x e" using I(6) x mem by blast
    then have "i \<noteq> (rs_home k x + e) mod ?n" using x mem i by (auto simp: reachable_slot_def)
    then show ?thesis
      using reachable_slot_upd [OF e I(2)] unfolding ht_def by (intro exI [of _ e]) simp
  qed
  moreover have "\<forall>a < ?n. \<forall>b < ?n. real_pid (ht ! a) \<longrightarrow> ht ! a = ht ! b \<longrightarrow> a = b"
    using nth I(5) by (auto simp: real_pid_def split: if_splits)
  ultimately have "rs_inv k ?r"
    using inv size len by (simp add: rs_inv_def)
  then show ?thesis using ret mem by simp
qed

lemma not_member_nth:
  "rs_inv k r \<Longrightarrow> real_pid pid \<Longrightarrow> pid \<notin> members r \<Longrightarrow> i < 2 ^ k \<Longrightarrow> slots r ! i \<noteq> pid"
  using members_nth [OF rs_invD(2)] by blast

lemma has_free_iff:
  assumes inv: "rs_inv k r"
  shows "has_free r \<longleftrightarrow> card (members r) < 2 ^ k"
proof -
  note I = rs_invD [OF inv]
  show ?thesis
  proof (cases "has_free r")
    case True
    then obtain i where i: "i < 2 ^ k" "\<not> real_pid (slots r ! i)"
      using I(2) by (auto simp: has_free_def in_set_conv_nth)
    have "members r \<subseteq> (!) (slots r) ` ({..< 2 ^ k} - {i})"
      using i by (auto simp: members_nth [OF I(2)])
    then have "card (members r) \<le> card ((!) (slots r) ` ({..< 2 ^ k} - {i}))"
      by (intro card_mono) auto
    also have "\<dots> \<le> card ({..< 2 ^ k} - {i})" by (intro card_image_le) auto
    also have "\<dots> < 2 ^ k" using i(1) by simp
    finally show ?thesis using True by simp
  next
    case False
    then have all: "\<And>i. i < 2 ^ k \<Longrightarrow> real_pid (slots r ! i)"
      using I(2) by (auto simp: has_free_def)
    then have "inj_on ((!) (slots r)) {..< 2 ^ k}" using I(5) by (auto intro!: inj_onI)
    moreover have "members r = (!) (slots r) ` {..< 2 ^ k}"
      by (auto simp: members_nth [OF I(2)] all)
    ultimately have "card (members r) = 2 ^ k" by (simp add: card_image)
    then show ?thesis using False by simp
  qed
qed

lemma rs_remove_absent:
  assumes inv: "rs_inv k r" and "real_pid pid" and "pid \<notin> members r"
  shows "rs_remove pid r = (if has_empty r then Ret (False, r) else Loop)"
proof -
  let ?n = "2 ^ k :: nat" and ?h = "rs_home k pid"
  note I = rs_invD [OF inv] and nin = not_member_nth [OF assms]
  show ?thesis
  proof (cases "has_empty r")
    case True
    then obtain i where "i < ?n" "slots r ! i = rs_empty"
      using I(2) by (auto simp: has_empty_def in_set_conv_nth)
    from first_stop [where P = "\<lambda>x. x = rs_empty", OF probe_home(2) this]
    obtain d where d: "d < ?n" "slots r ! ((?h + d) mod ?n) = rs_empty"
      "\<forall>j < d. slots r ! ((?h + j) mod ?n) \<noteq> rs_empty" by blast
    have "rs_remove_loop (length (slots r)) (mask k) pid (rs_hash pid AND mask k) (slots r) =
        Ret (False, if False then (slots r)[(unat (rs_hash pid AND mask k) + d) mod 2 ^ k := rs_tombstone] else slots r)"
      by (rule remove_loop_first)
        (use I d nin assms(2) in \<open>simp_all add: probe_home real_pid_def\<close>)
    then show ?thesis using True by (simp add: rs_remove_def I)
  next
    case False
    have "rs_remove_loop (length (slots r)) (mask k) pid (rs_hash pid AND mask k) (slots r) = Loop"
      by (rule remove_loop_spins)
        (use I False nin in \<open>auto simp: probe_home has_empty_def in_set_conv_nth\<close>)
    then show ?thesis using False by (simp add: rs_remove_def I)
  qed
qed

text \<open>
  Removal of a page id that is not resident. It reports \<open>false\<close> and changes nothing
  as long as the table still has a slot that was never used; once insertions and removals have
  turned every free slot into a tombstone the probe never ends, with any amount of fuel.
\<close>

theorem rs_remove_nonresident:
  assumes "rs_inv k r" and "real_pid pid" and "pid \<notin> members r"
  shows "if has_empty r then rs_remove pid r = Ret (False, r)
    else \<forall>fuel. rs_remove_loop fuel (rmask r) pid (rs_hash pid AND rmask r) (slots r) = Loop"
proof (cases "has_empty r")
  case True
  then show ?thesis using rs_remove_absent [OF assms] by simp
next
  case False
  note I = rs_invD [OF assms(1)] and nin = not_member_nth [OF assms]
  have "rs_remove_loop fuel (mask k) pid (rs_hash pid AND mask k) (slots r) = Loop" for fuel
    by (rule remove_loop_spins)
      (use I False nin in \<open>auto simp: probe_home has_empty_def in_set_conv_nth\<close>)
  then show ?thesis using False I(3) by simp
qed

text \<open>The empty table of \<open>2 ^ k\<close> slots.\<close>

definition rs_blank :: "nat \<Rightarrow> rset" where
  "rs_blank k = \<lparr>slots = replicate (2 ^ k) rs_empty, rcount = 2 ^ k, rmask = mask k,
     clockPos = 0, rsize = 0\<rparr>"

lemma members_blank: "members (rs_blank k) = {}"
  by (auto simp: members_def rs_blank_def real_pid_def)

lemma rs_inv_blank: "k < 64 \<Longrightarrow> rs_inv k (rs_blank k)"
  using members_blank [of k] by (simp add: rs_inv_def rs_blank_def real_pid_def)

theorem rs_remove_nonresident_witness: "rs_remove 7 (rs_blank 3) = Ret (False, rs_blank 3)"
proof -
  have "has_empty (rs_blank 3)" by (simp add: has_empty_def rs_blank_def)
  then show ?thesis
    using rs_remove_nonresident [OF rs_inv_blank, of 3 7] members_blank [of 3]
    by (simp add: real_pid_def)
qed

section \<open>The interface to the buffer manager\<close>

text \<open>
  What the buffer manager relies on: inserting a page id that is not resident into a set with
  room, and removing a resident one, succeed and change the set of members accordingly.
\<close>

locale page_set =
  fixes ins :: "PID \<Rightarrow> 's \<Rightarrow> 's run"
    and rem :: "PID \<Rightarrow> 's \<Rightarrow> (bool \<times> 's) run"
    and mem :: "'s \<Rightarrow> PID set"
    and ok :: "'s \<Rightarrow> bool"
    and room :: "'s \<Rightarrow> nat"
  assumes ins_law: "ok s \<Longrightarrow> real_pid p \<Longrightarrow> p \<notin> mem s \<Longrightarrow> card (mem s) < room s \<Longrightarrow>
      \<exists>s'. ins p s = Ret s' \<and> ok s' \<and> mem s' = insert p (mem s) \<and> room s' = room s"
    and rem_law: "ok s \<Longrightarrow> p \<in> mem s \<Longrightarrow>
      \<exists>s'. rem p s = Ret (True, s') \<and> ok s' \<and> mem s' = mem s - {p} \<and> room s' = room s"
    and fin: "ok s \<Longrightarrow> finite (mem s)"

text \<open>A history of page loads and evictions, run on an implementation and on a set.\<close>

datatype page_op = Load PID | Evict PID

fun run_page_ops ::
  "(PID \<Rightarrow> 's \<Rightarrow> 's run) \<Rightarrow> (PID \<Rightarrow> 's \<Rightarrow> (bool \<times> 's) run) \<Rightarrow> page_op list \<Rightarrow> 's \<Rightarrow> 's run" where
  "run_page_ops ins rem [] s = Ret s"
| "run_page_ops ins rem (Load p # ops) s = bind_run (ins p s) (run_page_ops ins rem ops)"
| "run_page_ops ins rem (Evict p # ops) s =
     bind_run (rem p s) (\<lambda>(found, s'). run_page_ops ins rem ops s')"

fun set_page_ops :: "page_op list \<Rightarrow> PID set \<Rightarrow> PID set" where
  "set_page_ops [] S = S"
| "set_page_ops (Load p # ops) S = set_page_ops ops (insert p S)"
| "set_page_ops (Evict p # ops) S = set_page_ops ops (S - {p})"

fun page_ops_ok :: "nat \<Rightarrow> page_op list \<Rightarrow> PID set \<Rightarrow> bool" where
  "page_ops_ok n [] S = True"
| "page_ops_ok n (Load p # ops) S =
     (real_pid p \<and> p \<notin> S \<and> card S < n \<and> page_ops_ok n ops (insert p S))"
| "page_ops_ok n (Evict p # ops) S = (p \<in> S \<and> page_ops_ok n ops (S - {p}))"

context page_set
begin

lemma run_refines:
  assumes "ok s" and "page_ops_ok (room s) ops (mem s)"
  shows "\<exists>s'. run_page_ops ins rem ops s = Ret s' \<and> ok s' \<and> mem s' = set_page_ops ops (mem s) \<and>
    room s' = room s"
  using assms
proof (induction ops arbitrary: s)
  case Nil
  then show ?case by simp
next
  case (Cons x ops)
  show ?case
  proof (cases x)
    case (Load p)
    then obtain s1 where "ins p s = Ret s1" "ok s1" "mem s1 = insert p (mem s)" "room s1 = room s"
      using Cons.prems ins_law [of s p] by auto
    then show ?thesis using Cons.IH [of s1] Cons.prems Load by auto
  next
    case (Evict p)
    then obtain s1 where "rem p s = Ret (True, s1)" "ok s1" "mem s1 = mem s - {p}" "room s1 = room s"
      using Cons.prems rem_law [of s p] by auto
    then show ?thesis using Cons.IH [of s1] Cons.prems Evict by auto
  qed
qed

end

definition rs_ok :: "rset \<Rightarrow> bool" where
  "rs_ok r \<longleftrightarrow> (\<exists>k. rs_inv k r)"

definition rs_room :: "rset \<Rightarrow> nat" where
  "rs_room r = unat (rcount r)"

lemma rs_room_inv: "rs_inv k r \<Longrightarrow> rs_room r = 2 ^ k"
proof -
  assume inv: "rs_inv k r"
  then have "k < LENGTH(64)" by (simp add: rs_inv_def)
  then have "unat ((2 :: u64) ^ k) = 2 ^ k" by (rule unat_pow2)
  then show ?thesis using rs_invD(4) [OF inv] by (simp add: rs_room_def)
qed

interpretation rs: page_set rs_insert rs_remove members rs_ok rs_room
proof
  fix s p assume "rs_ok s" "real_pid p" "p \<notin> members s" "card (members s) < rs_room s"
  moreover from this obtain k where k: "rs_inv k s" by (auto simp: rs_ok_def)
  ultimately have "has_free s" using has_free_iff rs_room_inv by simp
  then obtain s' where "rs_insert p s = Ret s'" "rs_inv k s'" "members s' = insert p (members s)"
    using rs_insert_ok [OF k] \<open>real_pid p\<close> \<open>p \<notin> members s\<close> by blast
  then show "\<exists>s'. rs_insert p s = Ret s' \<and> rs_ok s' \<and> members s' = insert p (members s) \<and> rs_room s' = rs_room s"
    using k rs_room_inv by (auto simp: rs_ok_def)
next
  fix s p assume "rs_ok s" "p \<in> members s"
  then obtain k s' where "rs_inv k s" "rs_remove p s = Ret (True, s')" "rs_inv k s'"
    "members s' = members s - {p}" using rs_remove_present unfolding rs_ok_def by blast
  then show "\<exists>s'. rs_remove p s = Ret (True, s') \<and> rs_ok s' \<and> members s' = members s - {p} \<and> rs_room s' = rs_room s"
    using rs_room_inv by (auto simp: rs_ok_def)
next
  fix s show "finite (members s)" by (rule members_finite)
qed

text \<open>
  C21: the open-addressing table implements a finite set. For every history of loads of
  fresh page ids and evictions of resident ones that never holds more ids than the table has
  slots, all operations return, and the members at the end are those of the same history run
  on a mathematical set; the invariant holds throughout.
\<close>

theorem resident_set_refines:
  assumes "rs_ok r" and "page_ops_ok (rs_room r) ops (members r)"
  shows "\<exists>r'. run_page_ops rs_insert rs_remove ops r = Ret r' \<and> rs_ok r' \<and>
    members r' = set_page_ops ops (members r)"
  using rs.run_refines [OF assms] by blast

theorem resident_set_refines_witness:
  "\<exists>r'. run_page_ops rs_insert rs_remove [Load 5, Load 9, Evict 5, Load 6] (rs_blank 2) = Ret r' \<and>
    members r' = {9, 6}"
proof -
  have "rs_ok (rs_blank 2)" using rs_inv_blank [of 2] by (auto simp: rs_ok_def)
  moreover have "page_ops_ok (rs_room (rs_blank 2)) [Load 5, Load 9, Evict 5, Load 6] (members (rs_blank 2))"
    using rs_room_inv [OF rs_inv_blank, of 2] by (simp add: members_blank real_pid_def)
  ultimately show ?thesis
    using resident_set_refines [of "rs_blank 2" "[Load 5, Load 9, Evict 5, Load 6]"]
    by (auto simp: members_blank)
qed

section \<open>The clock hand\<close>

text \<open>
  \<open>n\<close> consecutive calls of \<open>iterateClockBatch\<close> whose callback notes the page ids it is
  given.
\<close>

fun clock_sweep :: "nat \<Rightarrow> u64 \<Rightarrow> rset \<times> PID list \<Rightarrow> (rset \<times> PID list) run" where
  "clock_sweep 0 batch s = Ret s"
| "clock_sweep (Suc n) batch s =
     bind_run (iterateClockBatch fst (\<lambda>r (_, seen). (r, seen)) batch
         (\<lambda>pid (r, seen). Ret (r, seen @ [pid])) s)
       (clock_sweep n batch)"

definition clock_seen :: "rset \<Rightarrow> nat \<Rightarrow> nat \<Rightarrow> PID list" where
  "clock_seen r pos n = filter real_pid (map (\<lambda>i. slots r ! ((pos + i) mod length (slots r))) [0..<n])"

lemma clock_seen_Suc:
  "clock_seen r pos (Suc n) =
     filter real_pid [slots r ! (pos mod length (slots r))] @ clock_seen r (Suc pos) n"
  unfolding clock_seen_def
  by (simp add: upt_conv_Cons map_Suc_upt [symmetric] comp_def del: upt_Suc)

lemma clock_seen_add: "clock_seen r pos (m + n) = clock_seen r pos m @ clock_seen r (pos + m) n"
  by (induction m arbitrary: pos) (simp_all add: clock_seen_Suc clock_seen_def [of _ _ 0])

lemma clock_seen_mod:
  "clock_seen r (pos mod length (slots r)) n = clock_seen r pos n"
  by (simp add: clock_seen_def mod_add_left_eq)

lemma clock_loop_seen:
  assumes "k < 64" and "length (slots r) = 2 ^ k" and "rmask r = mask k" and "unat pos < 2 ^ k"
  shows "clock_loop fst (\<lambda>pid (r, seen). Ret (r, seen @ [pid])) n pos (r, seen) =
    Ret (r, seen @ clock_seen r (unat pos) n)"
  using assms(4)
proof (induction n arbitrary: pos seen)
  case 0
  then show ?case by (simp add: clock_seen_def)
next
  case (Suc n)
  note next_pos = probe_next [OF Suc.prems assms(1)]
  have "clock_seen r (unat ((pos + 1) AND mask k)) n = clock_seen r (Suc (unat pos)) n"
    unfolding next_pos(1) using clock_seen_mod [of r "Suc (unat pos)" n] assms(2) by simp
  then show ?case
    using Suc.IH [OF next_pos(2)] Suc.prems assms(2,3)
    by (simp add: clock_seen_Suc real_pid_def)
qed

lemma clockPos_next:
  fixes p b :: u64
  assumes "k < 64"
  shows "unat ((p + b) mod 2 ^ k) = (unat p + unat b) mod 2 ^ k"
proof -
  have "unat ((2 :: u64) ^ k) = 2 ^ k" using assms by (intro unat_pow2) simp
  then have "unat ((p + b) mod 2 ^ k) = ((unat p + unat b) mod 2 ^ 64) mod 2 ^ k"
    by (simp add: unat_mod unat_word_ariths)
  also have "\<dots> = (unat p + unat b) mod 2 ^ k"
    by (rule mod_mod_cancel, rule le_imp_power_dvd) (use assms in simp)
  finally show ?thesis .
qed

lemma iterateClockBatch_seen:
  fixes batch :: u64
  assumes inv: "rs_inv k r"
  defines "r' \<equiv> r\<lparr>clockPos := (clockPos r + batch) mod rcount r\<rparr>"
  shows "iterateClockBatch fst (\<lambda>r (_, seen). (r, seen)) batch
      (\<lambda>pid (r, seen). Ret (r, seen @ [pid])) (r, seen) =
    Ret (r', seen @ clock_seen r (unat (clockPos r)) (unat batch))"
    and "rs_inv k r'" and "unat (clockPos r') = (unat (clockPos r) + unat batch) mod 2 ^ k"
    and "slots r' = slots r"
proof -
  note I = rs_invD [OF inv]
  have "clock_seen r' = clock_seen r" by (simp add: clock_seen_def r'_def fun_eq_iff)
  then show "iterateClockBatch fst (\<lambda>r (_, seen). (r, seen)) batch
      (\<lambda>pid (r, seen). Ret (r, seen @ [pid])) (r, seen) =
    Ret (r', seen @ clock_seen r (unat (clockPos r)) (unat batch))"
    using clock_loop_seen [of k r' "clockPos r" "unat batch" seen] I inv
    by (simp add: iterateClockBatch_def Let_def r'_def rs_inv_def)
  show pos: "unat (clockPos r') = (unat (clockPos r) + unat batch) mod 2 ^ k"
    using clockPos_next [OF I(1)] I(4) by (simp add: r'_def)
  have "members r' = members r" by (simp add: members_def r'_def)
  then show "rs_inv k r'" using inv pos unfolding rs_inv_def by (auto simp: r'_def)
  show "slots r' = slots r" by (simp add: r'_def)
qed

lemma clock_sweep_seen:
  assumes "rs_inv k r"
  shows "\<exists>r'. clock_sweep n batch (r, seen) =
      Ret (r', seen @ clock_seen r (unat (clockPos r)) (n * unat batch)) \<and>
    rs_inv k r' \<and> slots r' = slots r \<and> unat (clockPos r') = (unat (clockPos r) + n * unat batch) mod 2 ^ k"
  using assms
proof (induction n arbitrary: r seen)
  case 0
  then show ?case by (simp add: clock_seen_def) (simp add: rs_inv_def)
next
  case (Suc n)
  note I = rs_invD [OF Suc.prems]
  define r' where "r' = r\<lparr>clockPos := (clockPos r + batch) mod rcount r\<rparr>"
  note step = iterateClockBatch_seen [OF Suc.prems, where batch = batch, folded r'_def]
  have "clock_seen r' (unat (clockPos r')) m = clock_seen r (unat (clockPos r) + unat batch) m" for m
    unfolding step(3) using clock_seen_mod [of r] I(2) step(4) by (simp add: clock_seen_def)
  moreover obtain r2 where
    "clock_sweep n batch (r', seen @ clock_seen r (unat (clockPos r)) (unat batch)) =
      Ret (r2, (seen @ clock_seen r (unat (clockPos r)) (unat batch)) @
               clock_seen r' (unat (clockPos r')) (n * unat batch))"
    "rs_inv k r2" "slots r2 = slots r'" "unat (clockPos r2) = (unat (clockPos r') + n * unat batch) mod 2 ^ k"
    using Suc.IH [OF step(2)] by blast
  ultimately show ?case using step(1,3,4) by (simp add: clock_seen_add mod_add_left_eq add.assoc)
qed

lemma clock_seen_count:
  assumes "real_pid p"
  shows "count_list (clock_seen r pos n) p = card {i. i < n \<and> slots r ! ((pos + i) mod length (slots r)) = p}"
proof -
  have "count_list (filter real_pid xs) p = count_list xs p" for xs
    using assms by (induction xs) auto
  moreover have "count_list (map f [0..<n]) p = card {i. i < n \<and> f i = p}" for f
  proof (induction n)
    case (Suc n)
    have "{i. i < Suc n \<and> f i = p} = (if f n = p then insert n else id) {i. i < n \<and> f i = p}"
      by (auto simp: less_Suc_eq)
    then show ?case using Suc.IH by simp
  qed simp
  ultimately show ?thesis by (simp add: clock_seen_def)
qed

text \<open>The slots of a turn from the hand: each resident id is at one distance from it.\<close>

lemma clock_turn:
  assumes inv: "rs_inv k r" and p: "p \<in> members r"
  shows "\<exists>d < 2 ^ k. slots r ! ((pos + d) mod 2 ^ k) = p \<and>
    (\<forall>n \<le> 2 ^ k. count_list (clock_seen r pos n) p = (if d < n then 1 else 0))"
proof -
  note I = rs_invD [OF inv]
  have p': "real_pid p" using p by (simp add: members_def)
  obtain j where j: "j < 2 ^ k" "slots r ! j = p" using p by (auto simp: members_nth [OF I(2)])
  obtain d where d: "d < 2 ^ k" "(pos + d) mod 2 ^ k = j"
    using probe_onto [of "pos mod 2 ^ k" "2 ^ k" j] j(1) by (auto simp: mod_add_left_eq)
  have only: "i = d" if "i < 2 ^ k" "slots r ! ((pos + i) mod 2 ^ k) = p" for i
  proof -
    have "(pos + i) mod 2 ^ k = (pos + d) mod 2 ^ k" using I(5) that(2) j d(2) p' by auto
    then show ?thesis using probe_inj [of pos i _ d] probe_inj [of pos d _ i] that(1) d(1) nat_le_linear [of i d] by metis
  qed
  have "count_list (clock_seen r pos n) p = (if d < n then 1 else 0)" if "n \<le> 2 ^ k" for n
  proof -
    have "slots r ! ((pos + d) mod 2 ^ k) = p" using d(2) j(2) by simp
    then have "i < n \<and> slots r ! ((pos + i) mod 2 ^ k) = p \<longleftrightarrow> i = d \<and> d < n" for i
      using only [of i] less_le_trans [of i n "2 ^ k"] that by blast
    then have "{i. i < n \<and> slots r ! ((pos + i) mod 2 ^ k) = p} = (if d < n then {d} else {})" by simp
    then show ?thesis unfolding clock_seen_count [OF p'] I(2) by simp
  qed
  then show ?thesis using d j(2) by blast
qed

lemma clock_turns:
  assumes "rs_inv k r" and "p \<in> members r"
  shows "count_list (clock_seen r pos (q * 2 ^ k + n)) p = q + count_list (clock_seen r pos n) p"
proof (induction q)
  case (Suc q)
  have "clock_seen r (pos + 2 ^ k) m = clock_seen r pos m" for m
    using clock_seen_mod [of r "pos + 2 ^ k" m] clock_seen_mod [of r pos m] rs_invD(2) [OF assms(1)] by simp
  moreover have "count_list (clock_seen r pos (2 ^ k)) p = 1" using clock_turn [OF assms, of pos] by auto
  moreover have "Suc q * 2 ^ k + n = 2 ^ k + (q * 2 ^ k + n)" by simp
  ultimately show ?case
    using Suc.IH clock_seen_add [of r pos "2 ^ k" "q * 2 ^ k + n"] by (simp only: count_list_append)
qed simp

text \<open>
  C25: the clock is fair to the resident pages. Successive batches cover consecutive slots,
  wrapping around with \<open>count\<close>, wherever the hand stood. Each resident page id is handed to the
  callback exactly once in every full turn of the table: after \<open>t = n * batch\<close> steps that is
  \<open>t div count\<close> times, and one time more for a page whose slot is less than \<open>t mod count\<close> slots
  from where the hand stood. Nothing but resident page ids is handed out, the table is unchanged
  and the hand has moved \<open>t\<close> slots.
\<close>

theorem clock_sweep_complete:
  assumes "rs_inv k r"
  shows "\<exists>r' seen. clock_sweep n batch (r, []) = Ret (r', seen) \<and> slots r' = slots r \<and>
    unat (clockPos r') = (unat (clockPos r) + n * unat batch) mod 2 ^ k \<and> set seen \<subseteq> members r \<and>
    (\<forall>p \<in> members r. \<exists>d < 2 ^ k. slots r ! ((unat (clockPos r) + d) mod 2 ^ k) = p \<and>
       count_list seen p = n * unat batch div 2 ^ k + (if d < n * unat batch mod 2 ^ k then 1 else 0))"
proof -
  note I = rs_invD [OF assms]
  define t where "t = n * unat batch"
  define c where "c = clock_seen r (unat (clockPos r)) t"
  obtain r' where r': "clock_sweep n batch (r, []) = Ret (r', c)" "slots r' = slots r"
    "unat (clockPos r') = (unat (clockPos r) + t) mod 2 ^ k"
    using clock_sweep_seen [OF assms, of n batch "[]"] by (auto simp: c_def t_def)
  have "set c \<subseteq> members r" by (auto simp: c_def clock_seen_def members_def I(2))
  moreover have "\<exists>d < 2 ^ k. slots r ! ((unat (clockPos r) + d) mod 2 ^ k) = p \<and>
      count_list c p = t div 2 ^ k + (if d < t mod 2 ^ k then 1 else 0)" if p: "p \<in> members r" for p
    using clock_turn [OF assms p, of "unat (clockPos r)"]
      clock_turns [OF assms p, of "unat (clockPos r)" "t div 2 ^ k" "t mod 2 ^ k", unfolded div_mult_mod_eq]
    by (fastforce simp: c_def less_imp_le)
  ultimately show ?thesis using r' unfolding t_def by blast
qed

theorem clock_sweep_complete_witness:
  "\<exists>r r' seen. members r = {5, 9} \<and> clock_sweep 2 2 (r, []) = Ret (r', seen) \<and> count_list seen 5 = 1 \<and> count_list seen 9 = 1"
proof -
  have i: "rs_inv 2 (rs_blank 2)" by (rule rs_inv_blank) simp
  then have "rs_ok (rs_blank 2)" by (auto simp: rs_ok_def)
  moreover have "page_ops_ok (rs_room (rs_blank 2)) [Load 5, Load 9] (members (rs_blank 2))"
    using rs_room_inv [OF i] by (simp add: members_blank real_pid_def)
  ultimately obtain r where r: "rs_ok r" "members r = {5, 9}"
    "rs_room r = 4"
    using rs.run_refines [of "rs_blank 2" "[Load 5, Load 9]"] rs_room_inv [OF i] by (auto simp: members_blank insert_commute)
  from r(1) obtain k where k: "rs_inv k r" by (auto simp: rs_ok_def)
  have "(2::nat) ^ k = 2 ^ 2" using rs_room_inv [OF k] r(3) by simp
  then have "k = 2" by (rule power_inject_exp [THEN iffD1, rotated]) simp
  then show ?thesis using clock_sweep_complete [OF k, of 2 2] r(2) by auto
qed

section \<open>Construction\<close>

lemma rs_new_blank:
  fixes n :: u64
  assumes "2 \<le> unat n * 3 div 2" and "unat n * 3 div 2 \<le> 2 ^ 30"
  shows "\<exists>k \<le> 30. rs_new n = Ret (rs_blank k) \<and> unat n * 3 div 2 \<le> 2 ^ k"
proof -
  define x where "x = unat n * 3 div 2"
  define k where "k = bit_length (x - 1)"
  have "x - 1 < 2 ^ 30" using assms by (simp add: x_def)
  then have k: "k \<le> 30" unfolding k_def by (rule bit_length_le)
  have "\<not> 2 ^ k \<le> x - 1" using less_bit_length [of k "x - 1"] by (simp add: k_def)
  then have room: "x \<le> 2 ^ k" using assms by (simp add: x_def)
  have "unat (of_nat x :: u64) = x" using assms by (intro unat_of_nat_small) (simp add: x_def)
  moreover from this have "(of_nat x :: u64) \<noteq> 0" using assms by (auto simp: x_def)
  ultimately have "unat (of_nat x - 1 :: u64) = x - 1" using unat_minus_one by metis
  moreover have "0 < x - 1" using assms by (simp add: x_def)
  ultimately have "next_pow2 (of_nat x) = Ret (2 ^ k)"
    using k by (auto simp: next_pow2_def Let_def k_def push_bit_eq_mult)
  moreover have "unat (2 ^ k :: u64) = 2 ^ k" using k by (intro unat_pow2) simp
  ultimately have "rs_new n = Ret (rs_blank k)"
    by (simp add: rs_new_def x_def rs_blank_def mask_eq_exp_minus_1)
  then show ?thesis using k room by (auto simp: x_def)
qed

text \<open>
  The constructor. For every pool whose one-and-a-half-fold number of frames is between
  2 and \<open>2 ^ 30\<close> it builds an empty table that satisfies the invariant and has room for all
  frames.
\<close>

theorem rs_new_ok:
  assumes "2 \<le> unat maxCount * 3 div 2" and "unat maxCount * 3 div 2 \<le> 2 ^ 30"
  shows "\<exists>k r. rs_new maxCount = Ret r \<and> rs_inv k r \<and> members r = {} \<and> unat maxCount \<le> rs_room r"
proof -
  obtain k where k: "k \<le> 30" "rs_new maxCount = Ret (rs_blank k)" "unat maxCount * 3 div 2 \<le> 2 ^ k"
    using rs_new_blank [OF assms] by blast
  moreover have "rs_inv k (rs_blank k)" using k(1) by (intro rs_inv_blank) simp
  ultimately show ?thesis using members_blank rs_room_inv by fastforce
qed

theorem rs_new_ok_witness:
  "\<exists>k r. rs_new 8 = Ret r \<and> rs_inv k r \<and> members r = {} \<and> 8 \<le> rs_room r"
  using rs_new_ok [of 8] by simp

end
