(* ===== verification/Promotion.thy ===== *)
theory Promotion
  imports Hashing
begin

text \<open>
  The promotion configuration of \<open>buffer_manager.hpp\<close>: chances and masks, their
  initialisation from the environment, and the decisions that compare a random word with a
  mask. The environment is a function from names to values; \<open>strtoull\<close> is the C library's
  conversion in base 10.
\<close>

section \<open>C string conversions\<close>

definition c_isspace :: "char \<Rightarrow> bool" where
  "c_isspace c \<longleftrightarrow> c \<in> {CHR '' '', CHR 0x09, CHR 0x0A, CHR 0x0B, CHR 0x0C, CHR 0x0D}"

definition c_isdigit :: "char \<Rightarrow> bool" where
  "c_isdigit c \<longleftrightarrow> 48 \<le> (of_char c :: nat) \<and> (of_char c :: nat) \<le> 57"

definition c_digits :: "string \<Rightarrow> nat" where
  "c_digits ds = foldl (\<lambda>n c. 10 * n + ((of_char c :: nat) - 48)) 0 ds"

text \<open>The number and whether a conversion took place (\<open>end != v\<close>).\<close>

definition strtoull10 :: "string \<Rightarrow> u64 \<times> bool" where
  "strtoull10 s =
     (let t = dropWhile c_isspace s;
          neg = (t \<noteq> [] \<and> hd t = CHR ''-'');
          u = (if t \<noteq> [] \<and> (hd t = CHR ''-'' \<or> hd t = CHR ''+'') then tl t else t);
          ds = takeWhile c_isdigit u;
          n = c_digits ds
      in if ds = [] then (0, False)
         else if n \<ge> 2 ^ 64 then (- 1, True)
         else (if neg then - of_nat n else of_nat n, True))"

definition envOrU :: "(string \<Rightarrow> string option) \<Rightarrow> string \<Rightarrow> u64 \<Rightarrow> u64" where
  "envOrU getenv env def =
     (case getenv env of
        None \<Rightarrow> def
      | Some v \<Rightarrow> (case strtoull10 v of (x, converted) \<Rightarrow> if converted then x else def))"

definition env_flag :: "(string \<Rightarrow> string option) \<Rightarrow> string \<Rightarrow> bool" where
  "env_flag getenv env =
     (case getenv env of
        None \<Rightarrow> False
      | Some [] \<Rightarrow> False
      | Some (c # _) \<Rightarrow> c = CHR ''1'' \<or> c = CHR ''y'' \<or> c = CHR ''Y'')"

section \<open>Configuration\<close>

record promo =
  promoteOptimisticChance :: u64
  promoteOptimisticMask :: u64
  promoteSharedChance :: u64
  promoteSharedMask :: u64
  promoteExclusiveChance :: u64
  promoteExclusiveMask :: u64
  promoteDisplaceChance :: u64
  promoteDisplaceMask :: u64
  promoteInnerChance :: u64
  promoteInnerMask :: u64
  promoteLeafChance :: u64
  promoteLeafMask :: u64
  perClassMode :: bool
  disablePredict :: bool

definition promo_default :: promo where
  "promo_default =
     \<lparr>promoteOptimisticChance = 32, promoteOptimisticMask = nextPowerOf2 32 - 1,
      promoteSharedChance = 32, promoteSharedMask = nextPowerOf2 32 - 1,
      promoteExclusiveChance = 32, promoteExclusiveMask = nextPowerOf2 32 - 1,
      promoteDisplaceChance = 16, promoteDisplaceMask = nextPowerOf2 16 - 1,
      promoteInnerChance = 16, promoteInnerMask = nextPowerOf2 16 - 1,
      promoteLeafChance = 16, promoteLeafMask = nextPowerOf2 16 - 1,
      perClassMode = False, disablePredict = False\<rparr>"

definition initPromoteChances :: "(string \<Rightarrow> string option) \<Rightarrow> promo \<Rightarrow> promo" where
  "initPromoteChances getenv p =
     (let opt = envOrU getenv ''PROMO_OPT'' (promoteOptimisticChance p);
          sh = envOrU getenv ''PROMO_SHARED'' (promoteSharedChance p);
          ex = envOrU getenv ''PROMO_EXCL'' (promoteExclusiveChance p);
          di = envOrU getenv ''PROMO_DISPLACE'' (promoteDisplaceChance p);
          inner = envOrU getenv ''PROMO_INNER'' (promoteInnerChance p);
          leaf = envOrU getenv ''PROMO_LEAF'' (promoteLeafChance p)
      in \<lparr>promoteOptimisticChance = opt, promoteOptimisticMask = nextPowerOf2 opt - 1,
          promoteSharedChance = sh, promoteSharedMask = nextPowerOf2 sh - 1,
          promoteExclusiveChance = ex, promoteExclusiveMask = nextPowerOf2 ex - 1,
          promoteDisplaceChance = di, promoteDisplaceMask = nextPowerOf2 di - 1,
          promoteInnerChance = inner, promoteInnerMask = nextPowerOf2 inner - 1,
          promoteLeafChance = leaf, promoteLeafMask = nextPowerOf2 leaf - 1,
          perClassMode = env_flag getenv ''PERCLASS'',
          disablePredict = env_flag getenv ''DISABLE_PRED''\<rparr>)"

section \<open>Decisions\<close>

text \<open>The argument \<open>r\<close> is the word drawn from the thread's generator.\<close>

definition decidePromotionOptimistic :: "promo \<Rightarrow> u64 \<Rightarrow> bool" where
  "decidePromotionOptimistic p r \<longleftrightarrow> r AND promoteOptimisticMask p = 0"

definition decidePromotionShared :: "promo \<Rightarrow> u64 \<Rightarrow> bool" where
  "decidePromotionShared p r \<longleftrightarrow> r AND promoteSharedMask p = 0"

definition decidePromotionExclusive :: "promo \<Rightarrow> u64 \<Rightarrow> bool" where
  "decidePromotionExclusive p r \<longleftrightarrow> r AND promoteExclusiveMask p = 0"

text \<open>\<open>promoMaskForPage\<close> on the page's byte at \<open>btreeIsLeafOffset\<close>.\<close>

definition promoMaskForPage :: "promo \<Rightarrow> u8 \<Rightarrow> u64" where
  "promoMaskForPage p isLeafByte =
     (if isLeafByte \<noteq> 0 then promoteLeafMask p else promoteInnerMask p)"

section \<open>How often a mask promotes\<close>

definition promoting_words :: "u64 \<Rightarrow> u64 set" where
  "promoting_words msk = {r. r AND msk = 0}"

lemma card_promoting_mask:
  assumes "k \<le> 64"
  shows "card (promoting_words (mask k)) = 2 ^ (64 - k)"
proof -
  have "promoting_words (mask k) = (push_bit k :: u64 \<Rightarrow> u64) ` {x. unat x < 2 ^ (64 - k)}"
  proof (intro set_eqI iffI)
    fix r assume "r \<in> promoting_words (mask k)"
    then have "take_bit k r = 0" by (simp add: promoting_words_def take_bit_eq_mask)
    then have "r = push_bit k (drop_bit k r)" using bits_ident [of k r] by simp
    moreover have "unat (drop_bit k r) < 2 ^ (64 - k)"
    proof -
      have "unat (drop_bit k r) = unat r div 2 ^ k"
        unfolding unat_drop_bit_eq by (rule drop_bit_eq_div)
      moreover have "unat r < 2 ^ (64 - k) * 2 ^ k"
        using unsigned_less [of r] assms by (simp add: power_add [symmetric])
      ultimately show ?thesis by (simp add: less_mult_imp_div_less)
    qed
    ultimately show "r \<in> push_bit k ` {x. unat x < 2 ^ (64 - k)}" by blast
  next
    fix r :: u64 assume "r \<in> push_bit k ` {x. unat x < 2 ^ (64 - k)}"
    then obtain x where "r = push_bit k x" by blast
    then have "take_bit k r = 0" by (simp add: take_bit_push_bit)
    then show "r \<in> promoting_words (mask k)" by (simp add: promoting_words_def take_bit_eq_mask)
  qed
  moreover have "inj_on (push_bit k :: u64 \<Rightarrow> u64) {x. unat x < 2 ^ (64 - k)}"
  proof (rule inj_onI)
    fix x y :: u64
    assume "x \<in> {x. unat x < 2 ^ (64 - k)}" "y \<in> {x. unat x < 2 ^ (64 - k)}"
    then have "drop_bit k (push_bit k x) = x" "drop_bit k (push_bit k y) = y"
      by (simp_all add: drop_push_bit take_bit_word_small)
    moreover assume "push_bit k x = push_bit k y"
    ultimately show "x = y" by metis
  qed
  moreover have "card {x :: u64. unat x < 2 ^ (64 - k)} = 2 ^ (64 - k)"
  proof -
    have "bij_betw unat {x :: u64. unat x < 2 ^ (64 - k)} {..< 2 ^ (64 - k)}"
    proof (rule bij_betw_byWitness [where f' = of_nat])
      have "(2::nat) ^ (64 - k) \<le> 2 ^ 64" by (rule power_increasing) auto
      then show "\<forall>n \<in> {..< 2 ^ (64 - k)}. unat (of_nat n :: u64) = n"
        and "of_nat ` {..< 2 ^ (64 - k)} \<subseteq> {x :: u64. unat x < 2 ^ (64 - k)}"
        by (auto simp: unat_of_nat_small)
    qed auto
    then show ?thesis by (simp add: bij_betw_same_card)
  qed
  ultimately show ?thesis by (simp add: card_image)
qed

text \<open>
  A decision on a random word \<open>has_chance\<close> \<open>c\<close>: a chance of 0 is met by every word, and a chance
  between 1 and \<open>2 ^ 63\<close> by one in \<open>2 ^ k\<close> words, where \<open>2 ^ k\<close> is the least power of two that is at
  least \<open>c\<close>.
\<close>

definition has_chance :: "u64 \<Rightarrow> (u64 \<Rightarrow> bool) \<Rightarrow> bool" where
  "has_chance c decide \<longleftrightarrow> (c = 0 \<longrightarrow> (\<forall>r. decide r)) \<and>
     (0 < c \<and> c \<le> 2 ^ 63 \<longrightarrow>
       (\<exists>k < 64. unat c \<le> 2 ^ k \<and> (\<forall>j. unat c \<le> 2 ^ j \<longrightarrow> k \<le> j) \<and> card {r. decide r} * 2 ^ k = 2 ^ 64))"

lemma mask_chance: "has_chance c (\<lambda>r. r AND (nextPowerOf2 c - 1) = 0)"
  unfolding has_chance_def
proof (intro conjI impI)
  assume "c = 0"
  then show "\<forall>r. r AND (nextPowerOf2 c - 1) = 0" by (simp add: nextPowerOf2_def)
next
  assume "0 < c \<and> c \<le> 2 ^ 63"
  then obtain k where k: "k < 64" "nextPowerOf2 c = 2 ^ k" "unat c \<le> 2 ^ k"
    "\<forall>j. unat c \<le> 2 ^ j \<longrightarrow> k \<le> j" using nextPowerOf2_spec [of c] by auto
  have "card {r. r AND (nextPowerOf2 c - 1) = 0} * 2 ^ k = 2 ^ (64 - k) * 2 ^ k"
    using card_promoting_mask [of k] k(1,2) by (simp add: mask_eq_exp_minus_1 promoting_words_def)
  also have "\<dots> = 2 ^ 64" using k(1) by (simp add: power_add [symmetric])
  finally show "\<exists>k < 64. unat c \<le> 2 ^ k \<and> (\<forall>j. unat c \<le> 2 ^ j \<longrightarrow> k \<le> j) \<and>
       card {r. r AND (nextPowerOf2 c - 1) = 0} * 2 ^ k = 2 ^ 64" using k by blast
qed

lemma decide_words:
  "decidePromotionOptimistic q = (\<lambda>r. r AND promoteOptimisticMask q = 0)"
  "decidePromotionShared q = (\<lambda>r. r AND promoteSharedMask q = 0)"
  "decidePromotionExclusive q = (\<lambda>r. r AND promoteExclusiveMask q = 0)"
  by (simp_all add: fun_eq_iff decidePromotionOptimistic_def decidePromotionShared_def decidePromotionExclusive_def)

text \<open>
  C34: what a configured chance means. Each of the six dice of a run (for an optimistic, a shared
  and an exclusive access, for the displacement of an occupied home frame, and per page class for
  leaves and inner nodes) has the chance that its own environment variable sets, or its default if that is not a number: of all words that the generator
  can give, exactly the fraction \<open>1 / 2 ^ k\<close> promotes, with \<open>2 ^ k\<close> the chance, if it is
  from 1 to \<open>2 ^ 63\<close>, rounded up to a power of two. A chance of 0, which the experiments label as promotion switched off, makes every
  word promote.
\<close>

theorem chance_frequency:
  "has_chance (envOrU getenv ''PROMO_OPT'' (promoteOptimisticChance p))
     (decidePromotionOptimistic (initPromoteChances getenv p)) \<and>
   has_chance (envOrU getenv ''PROMO_SHARED'' (promoteSharedChance p))
     (decidePromotionShared (initPromoteChances getenv p)) \<and>
   has_chance (envOrU getenv ''PROMO_EXCL'' (promoteExclusiveChance p))
     (decidePromotionExclusive (initPromoteChances getenv p)) \<and>
   has_chance (envOrU getenv ''PROMO_DISPLACE'' (promoteDisplaceChance p))
     (\<lambda>r. r AND promoteDisplaceMask (initPromoteChances getenv p) = 0) \<and>
   (\<forall>leaf. has_chance (if leaf \<noteq> 0 then envOrU getenv ''PROMO_LEAF'' (promoteLeafChance p)
                      else envOrU getenv ''PROMO_INNER'' (promoteInnerChance p))
      (\<lambda>r. r AND promoMaskForPage (initPromoteChances getenv p) leaf = 0))"
  unfolding decide_words by (simp add: initPromoteChances_def Let_def promoMaskForPage_def mask_chance)

lemma configured_zero: "getenv v = Some ''0'' \<Longrightarrow> envOrU getenv v d = 0"
  by (simp add: envOrU_def strtoull10_def c_isspace_def c_isdigit_def c_digits_def)

theorem chance_frequency_witness:
  "card {r. decidePromotionShared (initPromoteChances Map.empty promo_default) r} * 2 ^ 5 = 2 ^ 64 \<and>
   decidePromotionOptimistic (initPromoteChances [''PROMO_OPT'' \<mapsto> ''0''] promo_default) 12345"
proof
  have c: "envOrU Map.empty ''PROMO_SHARED'' (promoteSharedChance promo_default) = 32"
    by (simp add: envOrU_def promo_default_def)
  obtain k where k: "32 \<le> (2::nat) ^ k" "\<forall>j. 32 \<le> (2::nat) ^ j \<longrightarrow> k \<le> j"
    "card {r. decidePromotionShared (initPromoteChances Map.empty promo_default) r} * 2 ^ k = 2 ^ 64"
    using chance_frequency [of Map.empty promo_default, THEN conjunct2, THEN conjunct1] unfolding has_chance_def c by auto
  have "k \<le> 5" using k(2) by simp
  moreover have "\<not> k < 5" using k(1) power_strict_increasing [of k 5 "2::nat"] by auto
  ultimately have "k = 5" by simp
  then show "card {r. decidePromotionShared (initPromoteChances Map.empty promo_default) r} * 2 ^ 5 = 2 ^ 64"
    using k(3) by simp
  have "envOrU [''PROMO_OPT'' \<mapsto> ''0''] ''PROMO_OPT'' (promoteOptimisticChance promo_default) = 0"
    by (rule configured_zero) simp
  then show "decidePromotionOptimistic (initPromoteChances [''PROMO_OPT'' \<mapsto> ''0''] promo_default) 12345"
    using chance_frequency [of "[''PROMO_OPT'' \<mapsto> ''0'']" promo_default, THEN conjunct1] by (simp add: has_chance_def)
qed

end
