(* ===== verification/Floats.thy ===== *)
theory Floats
  imports Complex_Main "HOL-Library.Log_Nat"
begin

text \<open>
  The floating-point arithmetic of the controllers: a value is a rational, and every operation
  of the source is the exact operation followed by rounding to the nearest number with a
  \<open>p\<close>-bit significand, ties to even (\<open>p = 24\<close> for \<open>float\<close>, \<open>p = 53\<close> for
  \<open>double\<close>). The exponent is unbounded: the values of the program are counters below
  \<open>2 ^ 64\<close>, their ratios and products with small constants, far from overflow.
\<close>

section \<open>Rounding\<close>

definition round_even :: "rat \<Rightarrow> int" where
  "round_even y =
     (let f = \<lfloor>y\<rfloor>; d = y - of_int f in
      if d < 1 / 2 then f else if 1 / 2 < d then f + 1 else if even f then f else f + 1)"

definition fexp :: "rat \<Rightarrow> int" where
  "fexp x = (case quotient_of x of (a, b) \<Rightarrow>
     let e = bitlen a - bitlen b in if x < 2 powi e then e - 1 else e)"

definition fround :: "nat \<Rightarrow> rat \<Rightarrow> rat" where
  "fround p x =
     (if x = 0 then 0
      else let q = 2 powi (fexp \<bar>x\<bar> - (int p - 1)) in of_int (round_even (x / q)) * q)"

abbreviation flt :: "rat \<Rightarrow> rat" where "flt \<equiv> fround 24"
abbreviation dbl :: "rat \<Rightarrow> rat" where "dbl \<equiv> fround 53"

definition representable :: "nat \<Rightarrow> rat \<Rightarrow> bool" where
  "representable p x \<longleftrightarrow> (\<exists>m k. \<bar>m\<bar> \<le> 2 ^ p \<and> x = of_int m * 2 powi k)"

section \<open>Rounding to an integer\<close>

lemma round_even_of_int [simp]: "round_even (of_int n) = n"
  by (simp add: round_even_def)

lemma round_even_bounds: "\<lfloor>y\<rfloor> \<le> round_even y" "round_even y \<le> \<lfloor>y\<rfloor> + 1"
  by (simp_all add: round_even_def Let_def)

lemma round_even_mono: "y \<le> z \<Longrightarrow> round_even y \<le> round_even z"
proof -
  assume le: "y \<le> z"
  then have "\<lfloor>y\<rfloor> \<le> \<lfloor>z\<rfloor>" by (rule floor_mono)
  then consider "\<lfloor>y\<rfloor> = \<lfloor>z\<rfloor>" | "\<lfloor>y\<rfloor> + 1 \<le> \<lfloor>z\<rfloor>" by linarith
  then show ?thesis
  proof cases
    case 1
    then show ?thesis using le by (auto simp: round_even_def Let_def)
  next
    case 2
    then show ?thesis using round_even_bounds [of y] round_even_bounds [of z] by linarith
  qed
qed

lemma round_even_minus: "round_even (- y) = - round_even y"
proof (cases "y = of_int \<lfloor>y\<rfloor>")
  case True
  then show ?thesis by (metis of_int_minus round_even_of_int)
next
  case False
  have "\<lfloor>- y\<rfloor> = - \<lfloor>y\<rfloor> - 1"
    using False by (simp add: floor_eq_iff) linarith
  then show ?thesis by (auto simp: round_even_def Let_def)
qed

section \<open>The exponent\<close>

lemma pow2_less [simp]: "(2 :: rat) powi m < 2 powi n \<longleftrightarrow> m < n"
  by (metis not_less one_less_numeral_iff order_less_imp_le power_int_increasing
      power_int_strict_increasing semiring_norm(76))

lemma pow2_pos: "(0 :: rat) < 2 powi n"
  by simp

lemma bitlen_rat:
  assumes "0 < a"
  shows "2 powi (bitlen a - 1) \<le> rat_of_int a" and "rat_of_int a < 2 powi (bitlen a)"
proof -
  have len: "1 \<le> bitlen a" using assms bitlen_nonneg [of a] bitlen_eq_zero_iff [of a] by linarith
  have "of_int (2 ^ nat (bitlen a - 1)) \<le> rat_of_int a"
    and "rat_of_int a < of_int (2 ^ nat (bitlen a))"
    using bitlen_bounds [OF assms] by (simp_all only: of_int_le_iff of_int_less_iff)
  then show "2 powi (bitlen a - 1) \<le> rat_of_int a" and "rat_of_int a < 2 powi (bitlen a)"
    using len by (simp_all add: power_int_def)
qed

lemma fexp_bounds:
  assumes "0 < x"
  shows "2 powi (fexp x) \<le> x" and "x < 2 powi (fexp x + 1)"
proof -
  obtain a b where ab: "quotient_of x = (a, b)" by fastforce
  have b: "0 < b" using quotient_of_denom_pos [OF ab] .
  have x: "x = of_int a / of_int b" using quotient_of_div [OF ab] .
  then have a: "0 < a" using assms b by (simp add: zero_less_divide_iff)
  let ?e = "bitlen a - bitlen b"
  have up: "x < 2 powi (?e + 1)"
  proof -
    have "x * 2 powi (bitlen b - 1) \<le> x * of_int b"
      using bitlen_rat(1) [OF b] assms by (intro mult_left_mono) auto
    also have "\<dots> < 2 powi (bitlen a)" using bitlen_rat(2) [OF a] b by (simp add: x)
    also have "\<dots> = 2 powi (?e + 1) * 2 powi (bitlen b - 1)"
      by (simp add: power_int_add [symmetric])
    finally show ?thesis by simp
  qed
  have low: "2 powi (?e - 1) \<le> x"
  proof -
    have "2 powi (?e - 1) * of_int b \<le> 2 powi (?e - 1) * (2 powi (bitlen b) :: rat)"
      using bitlen_rat(2) [OF b] by (intro mult_left_mono) auto
    also have "\<dots> = 2 powi (bitlen a - 1)" by (simp add: power_int_add [symmetric])
    also have "\<dots> \<le> of_int a" by (rule bitlen_rat(1) [OF a])
    also have "\<dots> = x * of_int b" using b by (simp add: x)
    finally show ?thesis using b by simp
  qed
  show "2 powi (fexp x) \<le> x" "x < 2 powi (fexp x + 1)"
    using up low by (auto simp: fexp_def ab Let_def)
qed

lemma fexp_unique: "2 powi e \<le> x \<Longrightarrow> x < 2 powi (e + 1) \<Longrightarrow> fexp x = e"
proof -
  assume e: "2 powi e \<le> x" "x < 2 powi (e + 1)"
  have "(0::rat) < 2 powi e" by simp
  then have "0 < x" using e(1) by linarith
  note f = fexp_bounds [OF this]
  have "(2::rat) powi e < 2 powi (fexp x + 1)" "(2::rat) powi (fexp x) < 2 powi (e + 1)"
    using e f by linarith+
  then have "e < fexp x + 1" "fexp x < e + 1"
    by (simp_all)
  then show ?thesis by linarith
qed

lemma fexp_mono: "0 < x \<Longrightarrow> x \<le> y \<Longrightarrow> fexp x \<le> fexp y"
proof -
  assume "0 < x" "x \<le> y"
  then have "(2::rat) powi (fexp x) < 2 powi (fexp y + 1)"
    using fexp_bounds [of x] fexp_bounds [of y] by linarith
  then show ?thesis by (simp)
qed

section \<open>Properties of the rounded operations\<close>

lemma fround_zero [simp]: "fround p 0 = 0"
  by (simp add: fround_def)

lemma fround_minus: "fround p (- x) = - fround p x"
  by (simp add: fround_def Let_def round_even_minus)

lemma fround_pos:
  assumes "0 < x" and "0 < p"
  shows "2 powi (fexp x) \<le> fround p x" and "fround p x \<le> 2 powi (fexp x + 1)"
proof -
  let ?q = "2 powi (fexp x - (int p - 1)) :: rat"
  have x: "fround p x = of_int (round_even (x / ?q)) * ?q"
    using assms by (simp add: fround_def Let_def)
  have split: "2 powi (fexp x) = of_int (2 ^ (p - 1)) * ?q" "2 powi (fexp x + 1) = of_int (2 ^ p) * ?q"
    using assms(2) by (simp_all add: power_int_add [symmetric] flip: power_int_of_nat)
  have "of_int (2 ^ (p - 1)) \<le> x / ?q" "x / ?q \<le> of_int (2 ^ p)"
    using fexp_bounds [OF assms(1)] unfolding split by (simp_all add: field_simps)
  then have "2 ^ (p - 1) \<le> round_even (x / ?q)" "round_even (x / ?q) \<le> 2 ^ p"
    using round_even_mono round_even_of_int by metis+
  then show "2 powi (fexp x) \<le> fround p x" "fround p x \<le> 2 powi (fexp x + 1)"
    unfolding x split using pow2_pos by (simp_all only: mult_le_cancel_right_pos of_int_le_iff)
qed

lemma fround_mono_pos:
  assumes "0 < x" and "x \<le> y" and "0 < p"
  shows "fround p x \<le> fround p y"
proof (cases "fexp x = fexp y")
  case True
  then show ?thesis
    using assms by (auto simp: fround_def Let_def intro!: mult_right_mono round_even_mono divide_right_mono)
next
  case False
  then have "fexp x + 1 \<le> fexp y" using fexp_mono [OF assms(1,2)] by linarith
  then have "(2::rat) powi (fexp x + 1) \<le> 2 powi (fexp y)" by (simp add: power_int_increasing)
  moreover have "0 < y" using assms by linarith
  ultimately show ?thesis
    using fround_pos(2) [OF assms(1,3)] fround_pos(1) [of y p] assms(3) by linarith
qed

lemma fround_nonneg: "0 \<le> x \<Longrightarrow> 0 < p \<Longrightarrow> 0 \<le> fround p x"
proof (cases "x = 0")
  case False
  assume "0 \<le> x" "0 < p"
  then have "2 powi (fexp x) \<le> fround p x" using False by (intro fround_pos) auto
  moreover have "(0::rat) \<le> 2 powi (fexp x)" by simp
  ultimately show ?thesis by linarith
qed simp

lemma fround_mono:
  assumes "x \<le> y" and "0 < p"
  shows "fround p x \<le> fround p y"
proof -
  consider "0 < x" | "x \<le> 0" "0 \<le> y" | "y < 0" by linarith
  then show ?thesis
  proof cases
    case 1
    then show ?thesis using assms fround_mono_pos by blast
  next
    case 2
    then show ?thesis
      using fround_nonneg [of "- x" p] fround_nonneg [of y p] assms(2) by (simp add: fround_minus)
  next
    case 3
    then show ?thesis
      using fround_mono_pos [of "- y" "- x" p] assms by (simp add: fround_minus)
  qed
qed

lemma representable_zero [simp]: "representable p 0"
  by (auto simp: representable_def intro: exI [of _ 0])

lemma fround_id:
  assumes "representable p x" and "0 < p"
  shows "fround p x = x"
proof (cases "x = 0")
  case False
  obtain m k where mk: "\<bar>m\<bar> \<le> 2 ^ p" "x = of_int m * 2 powi k"
    using assms(1) by (auto simp: representable_def)
  have "0 < \<bar>x\<bar>" using False by simp
  let ?e = "fexp \<bar>x\<bar>"
  let ?q = "2 powi (?e - (int p - 1)) :: rat"
  have "\<exists>n. x / ?q = of_int n"
  proof (cases "\<bar>m\<bar> = 2 ^ p")
    case True
    then have ax: "\<bar>x\<bar> = 2 powi (int p + k)"
      by (simp add: mk(2) abs_mult power_int_add flip: of_int_abs)
    then have "?e = int p + k" by (intro fexp_unique) (simp_all)
    then have "x / ?q = of_int m * (2 powi k / 2 powi (k + 1))"
      by (simp add: mk(2) algebra_simps)
    also have "\<dots> = of_int m / 2" by (simp add: power_int_add)
    also have "\<dots> = of_int (m div 2)"
    proof -
      have "even m" using True assms(2) by (metis dvd_power even_abs_add_iff even_add even_zero abs_zero add_0 dvd_refl)
      then obtain h where "m = 2 * h" by (rule evenE)
      then show ?thesis by simp
    qed
    finally show ?thesis by blast
  next
    case False
    have "\<bar>x\<bar> = of_int \<bar>m\<bar> * 2 powi k" by (simp add: mk(2) abs_mult)
    also have "\<dots> < of_int (2 ^ p) * 2 powi k"
      using False mk(1) by (simp del: of_int_power add: mult_strict_right_mono)
    also have "\<dots> = 2 powi (int p + k)" by (simp add: power_int_add)
    finally have "(2::rat) powi ?e < 2 powi (int p + k)"
      using fexp_bounds(1) [OF \<open>0 < \<bar>x\<bar>\<close>] by linarith
    then have "0 \<le> k - (?e - (int p - 1))" by (simp)
    moreover have "x / ?q = of_int m * 2 powi (k - (?e - (int p - 1)))"
      by (simp add: mk(2) power_int_diff)
    ultimately have "x / ?q = of_int (m * 2 ^ nat (k - (?e - (int p - 1))))"
      by (simp add: power_int_def)
    then show ?thesis by blast
  qed
  then obtain n where n: "x / ?q = of_int n" by blast
  then have "fround p x = of_int n * ?q" using False by (simp add: fround_def Let_def)
  then show ?thesis by (simp flip: n)
qed simp

lemma representable_fround:
  assumes "0 < p"
  shows "representable p (fround p x)"
proof -
  have pos: "representable p (fround p x)" if x: "0 < x" for x
  proof -
    let ?q = "2 powi (fexp x - (int p - 1)) :: rat"
    have eq: "fround p x = of_int (round_even (x / ?q)) * ?q"
      using x by (simp add: fround_def Let_def)
    have "of_int (round_even (x / ?q)) * ?q \<le> of_int (2 ^ p) * ?q"
      using fround_pos(2) [OF x assms]
      by (simp add: eq power_int_add [symmetric] flip: power_int_of_nat)
    then have "round_even (x / ?q) \<le> 2 ^ p"
      using pow2_pos by (simp only: mult_le_cancel_right_pos of_int_le_iff)
    moreover have "0 \<le> round_even (x / ?q)"
      using round_even_mono [of 0 "x / ?q"] round_even_of_int [of 0] x by simp
    ultimately show ?thesis unfolding representable_def eq
      by (intro exI [of _ "round_even (x / ?q)"] exI [of _ "fexp x - (int p - 1)"]) simp
  qed
  consider "x = 0" | "0 < x" | "0 < - x" by linarith
  then show ?thesis
  proof cases
    case 3
    then have "representable p (- fround p x)" using pos fround_minus by metis
    then show ?thesis unfolding representable_def
      by (metis abs_minus_cancel minus_minus minus_mult_left of_int_minus)
  qed (auto intro: pos)
qed

lemma representable_half: "representable p x \<Longrightarrow> representable p (x / 2)"
  unfolding representable_def
proof (elim exE conjE)
  fix m k assume "\<bar>m\<bar> \<le> 2 ^ p" "x = of_int m * 2 powi k"
  then show "\<exists>m k. \<bar>m\<bar> \<le> 2 ^ p \<and> x / 2 = of_int m * 2 powi k"
    by (intro exI [of _ m] exI [of _ "k - 1"]) (simp add: power_int_diff)
qed

lemma representable_double: "representable p x \<Longrightarrow> representable p (2 * x)"
  unfolding representable_def
proof (elim exE conjE)
  fix m k assume "\<bar>m\<bar> \<le> 2 ^ p" "x = of_int m * 2 powi k"
  then show "\<exists>m k. \<bar>m\<bar> \<le> 2 ^ p \<and> 2 * x = of_int m * 2 powi k"
    by (intro exI [of _ m] exI [of _ "k + 1"]) (simp add: power_int_add)
qed

lemma representable_int: "\<bar>m\<bar> \<le> 2 ^ p \<Longrightarrow> representable p (of_int m)"
  unfolding representable_def by (intro exI [of _ m] exI [of _ 0]) simp

lemma fround_nat: "n \<le> 2 ^ p \<Longrightarrow> 0 < p \<Longrightarrow> fround p (of_nat n) = of_nat n"
proof -
  assume "n \<le> 2 ^ p" "0 < p"
  then have "\<bar>int n\<bar> \<le> 2 ^ p" by (metis abs_of_nat of_nat_le_iff of_nat_numeral of_nat_power)
  then show ?thesis using representable_int [of "int n" p] fround_id [of p "of_nat n"] \<open>0 < p\<close> by simp
qed

end
