(* ===== verification/Cbp_Controllers.thy ===== *)
theory Cbp_Controllers
  imports Promotion Floats
begin

text \<open>
  The promotion controllers of \<open>cbp.hpp\<close>: the per-class hill climber (v3), the two-armed
  bandit (v4) and the throughput-probed bandit (TPB), with their initialisation from the
  environment. Counters and chances are machine words, \<open>double\<close> and \<open>float\<close> values
  rationals rounded after each operation as the source writes them (without fused
  operations). Each call is one step on the record of the namespace's variables; the words
  drawn from the random generator and the thread id are arguments.
\<close>

section \<open>State\<close>

definition NUM_CLASSES :: u32 where "NUM_CLASSES = 64"
definition CLASS_MASK :: u32 where "CLASS_MASK = NUM_CLASSES - 1"
definition WINDOW :: u32 where "WINDOW = push_bit 12 1"
definition MIN_LOG :: u32 where "MIN_LOG = 1"
definition MAX_LOG :: u32 where "MAX_LOG = 14"
definition DEFAULT_LOG :: u32 where "DEFAULT_LOG = 5"
definition ALPHA :: rat where "ALPHA = flt (1 / 5)"
definition SAMPLE_MASK :: u32 where "SAMPLE_MASK = 7"
definition TPB_ACCEPT_EPS :: rat where "TPB_ACCEPT_EPS = dbl (5 / 1000)"
definition V4_FLUSH :: u32 where "V4_FLUSH = push_bit 12 1"
definition NUM_DECISION_EPOCHS :: u64 where "NUM_DECISION_EPOCHS = 8"

type_synonym i8 = "8 word"
type_synonym i32 = "32 word"

record class_stats =
  total :: u32
  in_pref :: u32
  promotes :: u32
  log_chance :: u8
  last_dir :: i8
  warmup :: u8
  last_score_q :: i32

record arm_global =
  g_total :: u64
  g_hits :: u64
  g_epoch :: u64

record thread_acc =
  arm_total :: "u32 list"
  arm_hits :: "u32 list"

record cbp =
  classes :: "class_stats list"
  enabled :: bool
  static_mode :: bool
  v4_mode :: bool
  tpb_mode :: bool
  tpb_lc_active :: u8
  tpb_lc_base :: u8
  tpb_lc_probe :: u8
  tpb_probing :: bool
  tpb_window_idx :: u32
  tpb_base_pre :: rat
  tpb_probe_tps :: rat
  tpb_last_dir :: i8
  tpb_base_ewma :: rat
  tpb_probe_every :: u32
  tpb_phase_tol :: rat
  g_arm :: "arm_global list"
  arm_lc :: "u8 list"
  g_last_decision_epoch :: u64
  t_acc :: "thread_acc list"

section \<open>Classes and masks\<close>

definition classOf :: "u64 \<Rightarrow> u32" where
  "classOf hash = ucast (drop_bit 6 hash AND ucast CLASS_MASK)"

text \<open>\<open>(1u << lc) - 1u\<close>; a shift by 32 or more is undefined.\<close>

definition lc_mask :: "u8 \<Rightarrow> u64 run" where
  "lc_mask lc = (if unat lc < 32 then Ret (ucast (push_bit (unat lc) (1 :: u32) - 1))
     else Err (Fatal ''undefined: shift of unsigned by 32 or more''))"

definition maskFor :: "u32 \<Rightarrow> cbp \<Rightarrow> u64 run" where
  "maskFor cls s =
     (if tpb_mode s then lc_mask (tpb_lc_active s)
      else if v4_mode s then bind_run (aget (arm_lc s) (unat (cls AND 1))) lc_mask
      else bind_run (aget (classes s) (unat cls)) (\<lambda>c. lc_mask (log_chance c)))"

definition decideForClass :: "u64 \<Rightarrow> u32 \<Rightarrow> cbp \<Rightarrow> bool run" where
  "decideForClass r cls s = bind_run (maskFor cls s) (\<lambda>m. Ret (r AND m = 0))"

definition noteAttempt :: "u32 \<Rightarrow> cbp \<Rightarrow> cbp run" where
  "noteAttempt cls s =
     (if v4_mode s then Ret s
      else bind_run (aget (classes s) (unat cls)) (\<lambda>c.
        Ret (s\<lparr>classes := (classes s)[unat cls := c\<lparr>promotes := promotes c + 1\<rparr>]\<rparr>)))"

section \<open>v4: the two-armed bandit\<close>

definition u64_dbl :: "u64 \<Rightarrow> rat" where "u64_dbl x = dbl (of_nat (unat x))"

definition v4_decide :: "cbp \<Rightarrow> cbp" where
  "v4_decide s =
     (let T0 = g_total (g_arm s ! 0); T1 = g_total (g_arm s ! 1);
          H0 = g_hits (g_arm s ! 0); H1 = g_hits (g_arm s ! 1)
      in if T0 < ucast V4_FLUSH \<or> T1 < ucast V4_FLUSH then s
         else
           let hr0 = dbl (u64_dbl H0 / u64_dbl T0);
               hr1 = dbl (u64_dbl H1 / u64_dbl T1);
               margin = dbl (5 / 1000);
               lo = arm_lc s ! 0; hi = arm_lc s ! 1;
               lcs = (if dbl (hr0 - hr1) > margin \<and> ucast lo > MIN_LOG then [lo - 1, lo]
                      else if dbl (hr1 - hr0) > margin \<and> ucast hi < MAX_LOG then [hi, hi + 1]
                      else arm_lc s)
           in s\<lparr>arm_lc := lcs, g_arm := map (\<lambda>a. a\<lparr>g_total := 0, g_hits := 0\<rparr>) (g_arm s)\<rparr>)"

definition v4_flush :: "nat \<Rightarrow> u32 \<Rightarrow> u32 \<Rightarrow> cbp \<Rightarrow> cbp" where
  "v4_flush arm tot hits s =
     (let a = g_arm s ! arm;
          s = s\<lparr>g_arm := (g_arm s)[arm := a\<lparr>g_total := g_total a + ucast tot,
                 g_hits := g_hits a + ucast hits, g_epoch := g_epoch a + 1\<rparr>]\<rparr>;
          total_epochs = g_epoch (g_arm s ! 0) + g_epoch (g_arm s ! 1);
          prev = g_last_decision_epoch s
      in if total_epochs - prev < NUM_DECISION_EPOCHS then s
         else case cas (g_last_decision_epoch s) prev total_epochs of
           (True, e) \<Rightarrow> v4_decide (s\<lparr>g_last_decision_epoch := e\<rparr>)
         | (False, _) \<Rightarrow> s)"

definition noteAccessV4 :: "u16 \<Rightarrow> u32 \<Rightarrow> bool \<Rightarrow> cbp \<Rightarrow> cbp run" where
  "noteAccessV4 tid cls hit s =
     bind_run (aget (t_acc s) (unat tid)) (\<lambda>a.
       let arm = unat (cls AND 1) in
       bind_run (aget (arm_total a) arm) (\<lambda>tot0.
       bind_run (aget (arm_hits a) arm) (\<lambda>hits0.
         let tot = tot0 + 1; hits = hits0 + (if hit then 1 else 0);
             acc = (\<lambda>t h. s\<lparr>t_acc := (t_acc s)[unat tid :=
               a\<lparr>arm_total := (arm_total a)[arm := t], arm_hits := (arm_hits a)[arm := h]\<rparr>]\<rparr>)
         in if tot < V4_FLUSH then Ret (acc tot hits)
            else Ret (v4_flush arm tot hits (acc 0 0)))))"

section \<open>v3: the hill climber of a class\<close>

text \<open>Conversion of a \<open>float\<close> to \<open>int32_t\<close>, and subtraction of two of them.\<close>

definition trunc :: "rat \<Rightarrow> int" where
  "trunc x = (if 0 \<le> x then \<lfloor>x\<rfloor> else \<lceil>x\<rceil>)"

definition to_i32 :: "int \<Rightarrow> i32 run" where
  "to_i32 n = (if - (2 ^ 31) \<le> n \<and> n < 2 ^ 31 then Ret (word_of_int n)
     else Err (Fatal ''undefined: value out of range of int32_t''))"

definition u32_flt :: "u32 \<Rightarrow> rat" where "u32_flt x = flt (of_nat (unat x))"

definition v3_score :: "u32 \<Rightarrow> u32 \<Rightarrow> u32 \<Rightarrow> i32 run" where
  "v3_score hits prom T =
     (let hit_rate = flt (u32_flt hits / u32_flt T);
          prom_rate = flt (u32_flt prom / u32_flt T);
          score = flt (hit_rate - flt (ALPHA * prom_rate))
      in to_i32 (trunc (flt (score * flt 1000000))))"

definition EPS_Q :: int where "EPS_Q = 5000"

definition v3_adapt :: "u32 \<Rightarrow> i32 \<Rightarrow> i32 \<Rightarrow> class_stats \<Rightarrow> class_stats run" where
  "v3_adapt cls score_q last_q c =
     (let dir = (if last_dir c = 0 then (if cls AND 1 \<noteq> 0 then - 1 else 1) else last_dir c) in
      bind_run (to_i32 (sint score_q - sint last_q)) (\<lambda>up.
      bind_run (to_i32 (sint last_q - sint score_q)) (\<lambda>down.
        let improved = sint up > EPS_Q; worsened = sint down > EPS_Q;
            dir = (if worsened then - dir else dir);
            lc = log_chance c;
            lc = (if improved \<or> worsened then
                    (if sint dir < 0 \<and> ucast lc > MIN_LOG then lc - 1
                     else if sint dir > 0 \<and> ucast lc < MAX_LOG then lc + 1 else lc)
                  else lc)
        in Ret (c\<lparr>log_chance := lc, last_dir := dir\<rparr>))))"

definition v3_observe :: "bool \<Rightarrow> u32 \<Rightarrow> bool \<Rightarrow> class_stats \<Rightarrow> class_stats run" where
  "v3_observe static cls hit c =
     (let c = c\<lparr>in_pref := in_pref c + (if hit then 1 else 0)\<rparr>;
          before = total c;
          c = c\<lparr>total := total c + 1\<rparr>
      in if before + 1 < WINDOW then Ret c
         else if static then Ret (c\<lparr>total := 0, in_pref := 0, promotes := 0\<rparr>)
         else case cas (total c) (before + 1) 0 of
           (False, _) \<Rightarrow> Ret c
         | (True, t) \<Rightarrow>
             let hits = in_pref c; prom = promotes c; T = before + 1;
                 c = c\<lparr>total := t, in_pref := 0, promotes := 0\<rparr>
             in bind_run (v3_score hits prom T) (\<lambda>score_q.
                  let wu = warmup c; last_q = last_score_q c;
                      c = c\<lparr>warmup := warmup c + 1, last_score_q := score_q\<rparr>
                  in if wu < 3 then Ret c else v3_adapt cls score_q last_q c))"

definition noteAccess :: "u16 \<Rightarrow> u64 \<Rightarrow> u32 \<Rightarrow> bool \<Rightarrow> cbp \<Rightarrow> cbp run" where
  "noteAccess tid r cls hit s =
     (if tpb_mode s then Ret s
      else if v4_mode s then noteAccessV4 tid cls hit s
      else if r AND ucast SAMPLE_MASK \<noteq> 0 then Ret s
      else bind_run (aget (classes s) (unat cls)) (\<lambda>c.
        bind_run (v3_observe (static_mode s) cls hit c) (\<lambda>c'.
          Ret (s\<lparr>classes := (classes s)[unat cls := c']\<rparr>))))"

section \<open>TPB: one statistics window\<close>

definition tpbOnWindow :: "u64 \<Rightarrow> cbp \<Rightarrow> cbp" where
  "tpbOnWindow tx_delta s =
     (if \<not> tpb_mode s then s
      else
        let tps = u64_dbl tx_delta;
            s = s\<lparr>tpb_window_idx := tpb_window_idx s + 1\<rparr>
        in if tpb_probing s then
             (if tpb_probe_tps s = 0 then
                s\<lparr>tpb_probe_tps := tps, tpb_lc_active := tpb_lc_base s\<rparr>
              else
                let base_post = tps; base_pre = tpb_base_pre s;
                    base_avg = dbl (dbl (1 / 2) * dbl (base_pre + base_post));
                    phase_stable = (base_pre > 0 \<and>
                      dbl (\<bar>dbl (base_pre - base_post)\<bar> / base_pre) < tpb_phase_tol s);
                    s = (if phase_stable \<and>
                            tpb_probe_tps s > dbl (base_avg * dbl (1 + TPB_ACCEPT_EPS))
                         then s\<lparr>tpb_lc_base := tpb_lc_probe s,
                                tpb_last_dir := - (if tpb_lc_probe s > tpb_lc_base s then 1 else - 1)\<rparr>
                         else s)
                in s\<lparr>tpb_lc_active := tpb_lc_base s,
                     tpb_base_ewma := dbl (dbl (dbl (7 / 10) * tpb_base_ewma s) + dbl (dbl (3 / 10) * base_avg)),
                     tpb_probing := False, tpb_probe_tps := 0\<rparr>)
           else
             let s = s\<lparr>tpb_base_ewma :=
                   dbl (dbl (dbl (7 / 10) * tpb_base_ewma s) + dbl (dbl (3 / 10) * tps))\<rparr>
             in if tpb_window_idx s mod tpb_probe_every s = 0 then
                  let s = s\<lparr>tpb_base_pre := tps\<rparr>;
                      new_lc = uint (tpb_lc_base s) + sint (tpb_last_dir s);
                      s = (if new_lc < uint MIN_LOG \<or> new_lc > uint MAX_LOG
                           then s\<lparr>tpb_last_dir := - tpb_last_dir s\<rparr> else s);
                      new_lc = uint (tpb_lc_base s) + sint (tpb_last_dir s);
                      s = s\<lparr>tpb_lc_probe := word_of_int new_lc\<rparr>
                  in s\<lparr>tpb_lc_active := tpb_lc_probe s, tpb_probing := True, tpb_probe_tps := 0\<rparr>
                else s\<lparr>tpb_lc_active := tpb_lc_base s\<rparr>)"

section \<open>Initialisation\<close>

text \<open>
  The C library's \<open>strtol\<close> in base 10 clamps to \<open>long\<close>, and \<open>atoi\<close> (of glibc)
  truncates its result to \<open>int\<close>; the source casts that to \<open>unsigned\<close>. \<open>atof\<close> reads
  a decimal number; \<open>inf\<close> and \<open>nan\<close> are read as 0 here, which the range check of
  \<open>init\<close> treats alike, and hexadecimal numbers are not modelled.
\<close>

definition split_sign :: "string \<Rightarrow> bool \<times> string" where
  "split_sign s =
     (let t = dropWhile c_isspace s in
      (t \<noteq> [] \<and> hd t = CHR ''-'', if t \<noteq> [] \<and> (hd t = CHR ''-'' \<or> hd t = CHR ''+'') then tl t else t))"

definition strtol10 :: "string \<Rightarrow> int" where
  "strtol10 s = (case split_sign s of (neg, u) \<Rightarrow>
     let n = int (c_digits (takeWhile c_isdigit u))
     in if neg then max (- (2 ^ 63)) (- n) else min (2 ^ 63 - 1) n)"

definition atoi_u :: "string \<Rightarrow> u32" where
  "atoi_u s = word_of_int (strtol10 s)"

definition c_exponent :: "string \<Rightarrow> int" where
  "c_exponent s =
     (if s \<noteq> [] \<and> (hd s = CHR ''e'' \<or> hd s = CHR ''E'') then
        let u = tl s; neg = (u \<noteq> [] \<and> hd u = CHR ''-'');
            v = (if u \<noteq> [] \<and> (hd u = CHR ''-'' \<or> hd u = CHR ''+'') then tl u else u);
            n = int (c_digits (takeWhile c_isdigit v))
        in if neg then - n else n
      else 0)"

definition atof :: "string \<Rightarrow> rat" where
  "atof s = (case split_sign s of (neg, u) \<Rightarrow>
     let whole = takeWhile c_isdigit u; rest = dropWhile c_isdigit u;
         (frac, rest) = (if rest \<noteq> [] \<and> hd rest = CHR ''.''
           then (takeWhile c_isdigit (tl rest), dropWhile c_isdigit (tl rest)) else ([], rest));
         m = of_nat (c_digits (whole @ frac)) * 10 powi (c_exponent rest - int (length frac))
     in if whole = [] \<and> frac = [] then 0 else dbl (if neg then - m else m))"

definition log_from_env :: "(string \<Rightarrow> string option) \<Rightarrow> string \<Rightarrow> u32 \<Rightarrow> u32" where
  "log_from_env getenv name start =
     (case getenv name of
        None \<Rightarrow> start
      | Some v \<Rightarrow> (let x = atoi_u v in if x \<ge> MIN_LOG \<and> x \<le> MAX_LOG then x else start))"

definition cbp_init :: "(string \<Rightarrow> string option) \<Rightarrow> cbp" where
  "cbp_init getenv =
     (let en = env_flag getenv ''CBP''; st = env_flag getenv ''CBP_STATIC'';
          v4 = env_flag getenv ''CBP_V4''; tpb = env_flag getenv ''TPB'';
          start = log_from_env getenv ''CBP_LOG'' DEFAULT_LOG;
          tpb_start = log_from_env getenv ''TPB_INIT_LC'' start
      in \<lparr>classes = replicate (unat NUM_CLASSES)
            \<lparr>total = 0, in_pref = 0, promotes = 0, log_chance = ucast start, last_dir = 0,
             warmup = 0, last_score_q = 0\<rparr>,
          enabled = (en \<or> st \<or> v4 \<or> tpb), static_mode = st, v4_mode = v4, tpb_mode = tpb,
          tpb_lc_active = ucast tpb_start, tpb_lc_base = ucast tpb_start,
          tpb_lc_probe = ucast tpb_start, tpb_probing = False, tpb_window_idx = 0,
          tpb_base_pre = 0, tpb_probe_tps = 0, tpb_last_dir = - 1, tpb_base_ewma = 0,
          tpb_probe_every = (case getenv ''TPB_PROBE_EVERY'' of
              None \<Rightarrow> 8
            | Some v \<Rightarrow> (let x = atoi_u v in if x \<ge> 2 \<and> x \<le> 1024 then x else 8)),
          tpb_phase_tol = (case getenv ''TPB_PHASE_TOL'' of
              None \<Rightarrow> dbl (15 / 100)
            | Some v \<Rightarrow> (let x = atof v in
                if x > 0 \<and> x < 100000 then dbl (x / 100) else dbl (15 / 100))),
          g_arm = replicate 2 \<lparr>g_total = 0, g_hits = 0, g_epoch = 0\<rparr>,
          arm_lc = [ucast start, ucast (start + 1)],
          g_last_decision_epoch = 0,
          t_acc = replicate 256 \<lparr>arm_total = [0, 0], arm_hits = [0, 0]\<rparr>\<rparr>)"

section \<open>Runs of the controllers\<close>

datatype cbp_event = Access u16 u64 u32 bool | Attempt u32 | Window u64

definition cbp_step :: "cbp_event \<Rightarrow> cbp \<Rightarrow> cbp run" where
  "cbp_step e s = (case e of
       Access tid r cls hit \<Rightarrow> noteAccess tid r cls hit s
     | Attempt cls \<Rightarrow> noteAttempt cls s
     | Window d \<Rightarrow> Ret (tpbOnWindow d s))"

fun cbp_run :: "cbp_event list \<Rightarrow> cbp \<Rightarrow> cbp run" where
  "cbp_run [] s = Ret s"
| "cbp_run (e # es) s = bind_run (cbp_step e s) (cbp_run es)"

text \<open>What the buffer manager passes: one of 256 worker threads, a class from \<open>classOf\<close>.\<close>

fun event_ok :: "cbp_event \<Rightarrow> bool" where
  "event_ok (Access tid r cls hit) \<longleftrightarrow> unat tid < 256 \<and> unat cls < 64"
| "event_ok (Attempt cls) \<longleftrightarrow> unat cls < 64"
| "event_ok (Window d) \<longleftrightarrow> True"

section \<open>Invariants\<close>

definition lc_range :: "nat \<Rightarrow> u8 \<Rightarrow> bool" where
  "lc_range hi lc \<longleftrightarrow> 1 \<le> unat lc \<and> unat lc \<le> hi"

definition tpb_inv :: "cbp \<Rightarrow> bool" where
  "tpb_inv s \<longleftrightarrow> lc_range 14 (tpb_lc_base s) \<and> lc_range 14 (tpb_lc_probe s) \<and>
     (tpb_last_dir s = 1 \<or> tpb_last_dir s = - 1) \<and>
     (if tpb_probing s then
        (uint (tpb_lc_probe s) = uint (tpb_lc_base s) + 1 \<or> uint (tpb_lc_probe s) = uint (tpb_lc_base s) - 1) \<and>
        (tpb_lc_active s = tpb_lc_base s \<or> tpb_probe_tps s = 0 \<and> tpb_lc_active s = tpb_lc_probe s)
      else tpb_lc_active s = tpb_lc_base s \<and> tpb_probe_tps s = 0)"

text \<open>
  The second arm of v4 starts one above \<open>CBP_LOG\<close>, which is out of range for \<open>CBP_LOG=14\<close>: it may
  be 15 then (\<open>over\<close>), and only then.
\<close>

definition v4_inv :: "bool \<Rightarrow> cbp \<Rightarrow> bool" where
  "v4_inv over s \<longleftrightarrow> length (g_arm s) = 2 \<and>
     (\<exists>lo hi. arm_lc s = [lo, hi] \<and> 1 \<le> unat lo \<and> unat hi = unat lo + 1 \<and> unat hi \<le> (if over then 15 else 14)) \<and>
     length (t_acc s) = 256 \<and>
     (\<forall>a \<in> set (t_acc s). length (arm_total a) = 2 \<and> length (arm_hits a) = 2)"

definition v3_inv :: "cbp \<Rightarrow> bool" where
  "v3_inv s \<longleftrightarrow> length (classes s) = 64 \<and> (\<forall>c \<in> set (classes s). lc_range 14 (log_chance c))"

definition cbp_within :: "bool \<Rightarrow> cbp \<Rightarrow> bool" where
  "cbp_within over s \<longleftrightarrow> tpb_inv s \<and> v4_inv over s \<and> v3_inv s"

text \<open>What the buffer manager needs of the controllers, whatever \<open>CBP_LOG\<close> is.\<close>

abbreviation cbp_inv :: "cbp \<Rightarrow> bool" where
  "cbp_inv \<equiv> cbp_within True"

lemma cbp_within_inv: "cbp_within over s \<Longrightarrow> cbp_inv s"
  by (auto simp: cbp_within_def v4_inv_def split: if_splits)

definition starts_at_top :: "(string \<Rightarrow> string option) \<Rightarrow> bool" where
  "starts_at_top getenv \<longleftrightarrow> log_from_env getenv ''CBP_LOG'' DEFAULT_LOG = MAX_LOG"

lemmas cbp_invs = tpb_inv_def v4_inv_def v3_inv_def lc_range_def

subsection \<open>Words of chances\<close>

lemma uint_unat: "uint x = int (unat x)" for x :: "'a::len word"
  by simp

lemma lc_dec: "1 < unat lc \<Longrightarrow> unat (lc - 1) = unat lc - 1" for lc :: u8
  by (metis not_less_zero unat_0 unat_minus_one)

lemma lc_inc: "unat lc < 100 \<Longrightarrow> unat (lc + 1) = unat lc + 1" for lc :: u8
  by (simp add: unat_word_ariths)

lemma lc_cmp:
  fixes lc :: u8
  shows "ucast lc > MIN_LOG \<longleftrightarrow> 1 < unat lc" "ucast lc < MAX_LOG \<longleftrightarrow> unat lc < 14"
  by (simp_all add: MIN_LOG_def MAX_LOG_def word_less_nat_alt unsigned_ucast_eq take_bit_nat_eq_self
      unsigned_less [THEN less_le_trans])

lemma log_from_env_range:
  assumes "1 \<le> unat start \<and> unat start \<le> 14"
  shows "1 \<le> unat (log_from_env e name start) \<and> unat (log_from_env e name start) \<le> 14"
  using assms
  by (auto simp: log_from_env_def Let_def MIN_LOG_def MAX_LOG_def word_le_nat_alt split: option.split)

lemma ucast_log: "unat (x :: u32) < 256 \<Longrightarrow> unat (ucast x :: u8) = unat x"
  by (simp add: unsigned_ucast_eq take_bit_nat_eq_self)

lemma cbp_init_within: "cbp_within (starts_at_top getenv) (cbp_init getenv)"
proof -
  let ?start = "log_from_env getenv ''CBP_LOG'' DEFAULT_LOG"
  let ?tpb = "log_from_env getenv ''TPB_INIT_LC'' ?start"
  have s: "1 \<le> unat ?start \<and> unat ?start \<le> 14"
    by (rule log_from_env_range) (simp add: DEFAULT_LOG_def)
  have t: "1 \<le> unat ?tpb \<and> unat ?tpb \<le> 14" by (rule log_from_env_range [OF s])
  have "unat (?start + 1) = unat ?start + 1" using s by (simp add: unat_word_ariths)
  moreover have "unat ?start \<le> 13" if "\<not> starts_at_top getenv"
  proof -
    have "?start \<noteq> MAX_LOG" using that by (simp add: starts_at_top_def)
    then have "unat ?start \<noteq> 14" by (simp add: word_unat_eq_iff MAX_LOG_def)
    then show ?thesis using s by simp
  qed
  ultimately show ?thesis
    using s t by (simp add: cbp_within_def cbp_invs cbp_init_def Let_def ucast_log NUM_CLASSES_def)
qed

lemmas cbp_init_inv = cbp_init_within [THEN cbp_within_inv]

subsection \<open>Preservation\<close>

lemma sint_i8 [simp]: "sint (1 :: i8) = 1" "sint (- 1 :: i8) = - 1"
  by simp_all

lemma uint_probe: "0 \<le> n \<Longrightarrow> n < 256 \<Longrightarrow> uint (word_of_int n :: u8) = n"
  by (simp add: take_bit_int_eq_self uint_word_of_int)

lemma uint_lc: "lc_range hi lc \<longleftrightarrow> 1 \<le> uint lc \<and> uint lc \<le> int hi"
proof -
  have "uint lc = int (unat lc)" by (rule uint_unat)
  then show ?thesis unfolding lc_range_def by presburger
qed

text \<open>The probe that opens a sandwich: one step from the base, in range.\<close>

definition probe_dir :: "cbp \<Rightarrow> i8" where
  "probe_dir s = (let n = uint (tpb_lc_base s) + sint (tpb_last_dir s) in
     if n < uint MIN_LOG \<or> n > uint MAX_LOG then - tpb_last_dir s else tpb_last_dir s)"

definition probe_lc :: "cbp \<Rightarrow> u8" where
  "probe_lc s = word_of_int (uint (tpb_lc_base s) + sint (probe_dir s))"

lemma probe_lc_ok:
  assumes "lc_range 14 (tpb_lc_base s)" and "tpb_last_dir s = 1 \<or> tpb_last_dir s = - 1"
  shows "probe_dir s = 1 \<or> probe_dir s = - 1" and "lc_range 14 (probe_lc s)"
    and "uint (probe_lc s) = uint (tpb_lc_base s) + sint (probe_dir s)"
proof -
  have b: "1 \<le> uint (tpb_lc_base s)" "uint (tpb_lc_base s) \<le> 14"
    using assms(1) by (simp_all add: uint_lc)
  show dir: "probe_dir s = 1 \<or> probe_dir s = - 1"
    using assms(2) by (auto simp: probe_dir_def Let_def)
  have "1 \<le> uint (tpb_lc_base s) + sint (probe_dir s) \<and> uint (tpb_lc_base s) + sint (probe_dir s) \<le> 14"
    using assms(2) b by (auto simp: probe_dir_def Let_def MIN_LOG_def MAX_LOG_def)
  moreover from this show "uint (probe_lc s) = uint (tpb_lc_base s) + sint (probe_dir s)"
    unfolding probe_lc_def by (intro uint_probe) auto
  ultimately show "lc_range 14 (probe_lc s)" by (simp only: uint_lc) simp
qed

text \<open>The three kinds of window, as equations.\<close>

definition opens_probe :: "cbp \<Rightarrow> bool" where
  "opens_probe s \<longleftrightarrow> tpb_mode s \<and> \<not> tpb_probing s \<and> (tpb_window_idx s + 1) mod tpb_probe_every s = 0"

definition accepts :: "u64 \<Rightarrow> cbp \<Rightarrow> bool" where
  "accepts d s \<longleftrightarrow> tpb_base_pre s > 0 \<and>
     dbl (\<bar>dbl (tpb_base_pre s - u64_dbl d)\<bar> / tpb_base_pre s) < tpb_phase_tol s \<and>
     tpb_probe_tps s > dbl (dbl (dbl (1 / 2) * dbl (tpb_base_pre s + u64_dbl d)) * dbl (1 + TPB_ACCEPT_EPS))"

lemma window_off: "\<not> tpb_mode s \<Longrightarrow> tpbOnWindow d s = s"
  by (simp add: tpbOnWindow_def)

lemma window_open:
  assumes "opens_probe s"
  shows "tpb_probing (tpbOnWindow d s)" "tpb_probe_tps (tpbOnWindow d s) = 0"
    "tpb_lc_base (tpbOnWindow d s) = tpb_lc_base s" "tpb_lc_probe (tpbOnWindow d s) = probe_lc s"
    "tpb_lc_active (tpbOnWindow d s) = probe_lc s" "tpb_last_dir (tpbOnWindow d s) = probe_dir s"
    "tpb_base_pre (tpbOnWindow d s) = u64_dbl d" "tpb_phase_tol (tpbOnWindow d s) = tpb_phase_tol s"
    "tpb_mode (tpbOnWindow d s)"
  using assms by (simp_all add: opens_probe_def tpbOnWindow_def probe_dir_def probe_lc_def Let_def)

lemma window_idle:
  assumes "tpb_mode s" "\<not> tpb_probing s" "\<not> opens_probe s"
  shows "\<not> tpb_probing (tpbOnWindow d s)" "tpb_probe_tps (tpbOnWindow d s) = tpb_probe_tps s"
    "tpb_lc_base (tpbOnWindow d s) = tpb_lc_base s" "tpb_lc_probe (tpbOnWindow d s) = tpb_lc_probe s"
    "tpb_lc_active (tpbOnWindow d s) = tpb_lc_base s" "tpb_last_dir (tpbOnWindow d s) = tpb_last_dir s"
  using assms by (simp_all add: opens_probe_def tpbOnWindow_def Let_def)

lemma window_measure:
  assumes "tpb_mode s" "tpb_probing s" "tpb_probe_tps s = 0"
  shows "tpbOnWindow d s = s\<lparr>tpb_window_idx := tpb_window_idx s + 1, tpb_probe_tps := u64_dbl d,
    tpb_lc_active := tpb_lc_base s\<rparr>"
  using assms by (simp add: tpbOnWindow_def Let_def)

lemma window_close:
  assumes "tpb_mode s" "tpb_probing s" "tpb_probe_tps s \<noteq> 0"
  shows "\<not> tpb_probing (tpbOnWindow d s)" "tpb_probe_tps (tpbOnWindow d s) = 0"
    "tpb_lc_base (tpbOnWindow d s) = (if accepts d s then tpb_lc_probe s else tpb_lc_base s)"
    "tpb_lc_probe (tpbOnWindow d s) = tpb_lc_probe s"
    "tpb_lc_active (tpbOnWindow d s) = tpb_lc_base (tpbOnWindow d s)"
    "tpb_last_dir (tpbOnWindow d s) =
       (if accepts d s then (if tpb_lc_probe s > tpb_lc_base s then - 1 else 1) else tpb_last_dir s)"
  using assms by (simp_all add: tpbOnWindow_def accepts_def Let_def)

lemma window_tpb_inv:
  assumes "tpb_inv s"
  shows "tpb_inv (tpbOnWindow d s)"
proof -
  consider "\<not> tpb_mode s" | "opens_probe s" | "tpb_mode s" "\<not> tpb_probing s" "\<not> opens_probe s"
    | "tpb_mode s" "tpb_probing s" "tpb_probe_tps s = 0" | "tpb_mode s" "tpb_probing s" "tpb_probe_tps s \<noteq> 0"
    by blast
  then show ?thesis
  proof cases
    case 2
    have b: "lc_range 14 (tpb_lc_base s)" "tpb_last_dir s = 1 \<or> tpb_last_dir s = - 1"
      using assms by (simp_all add: tpb_inv_def)
    show ?thesis using probe_lc_ok [OF b] b by (auto simp: tpb_inv_def window_open [OF 2])
  next
    case 4
    then show ?thesis using assms by (simp add: tpb_inv_def window_measure)
  next
    case 5
    then show ?thesis using assms by (simp add: tpb_inv_def window_close)
  qed (use assms in \<open>simp_all add: window_off window_idle tpb_inv_def\<close>)
qed

lemma window_inv: "cbp_within over s \<Longrightarrow> cbp_within over (tpbOnWindow d s)"
proof -
  have "classes (tpbOnWindow d s) = classes s" "g_arm (tpbOnWindow d s) = g_arm s"
    "arm_lc (tpbOnWindow d s) = arm_lc s" "t_acc (tpbOnWindow d s) = t_acc s"
    by (simp_all add: tpbOnWindow_def Let_def)
  then show "cbp_within over s \<Longrightarrow> cbp_within over (tpbOnWindow d s)"
    by (simp add: cbp_within_def v4_inv_def v3_inv_def window_tpb_inv)
qed

lemma tpb_inv_cong:
  "tpb_inv (s\<lparr>classes := x\<rparr>) = tpb_inv s" "tpb_inv (s\<lparr>g_arm := y\<rparr>) = tpb_inv s"
  "tpb_inv (s\<lparr>arm_lc := z\<rparr>) = tpb_inv s" "tpb_inv (s\<lparr>t_acc := w\<rparr>) = tpb_inv s"
  "tpb_inv (s\<lparr>g_last_decision_epoch := e\<rparr>) = tpb_inv s"
  by (simp_all add: tpb_inv_def)

lemma v3_inv_cong:
  "v3_inv (s\<lparr>g_arm := y\<rparr>) = v3_inv s" "v3_inv (s\<lparr>arm_lc := z\<rparr>) = v3_inv s"
  "v3_inv (s\<lparr>t_acc := w\<rparr>) = v3_inv s" "v3_inv (s\<lparr>g_last_decision_epoch := e\<rparr>) = v3_inv s"
  by (simp_all add: v3_inv_def)

lemma v4_decide_inv: "cbp_within over s \<Longrightarrow> cbp_within over (v4_decide s)"
proof -
  assume inv: "cbp_within over s"
  then obtain lo hi where lcs: "arm_lc s = [lo, hi]" "1 \<le> unat lo" "unat hi = unat lo + 1" "unat hi \<le> (if over then 15 else 14)"
    by (auto simp: cbp_within_def v4_inv_def)
  have down: "1 < unat lo \<Longrightarrow> unat (lo - 1) = unat lo - 1" by (rule lc_dec)
  have up: "unat (hi + 1) = unat hi + 1" using lcs by (intro lc_inc) (simp split: if_splits)
  show ?thesis
    using inv lcs down up
    by (auto simp: cbp_within_def v4_inv_def v4_decide_def Let_def tpb_inv_cong v3_inv_cong lc_cmp
        simp del: unat_eq_zero)
qed

lemma cbp_inv_upd:
  "cbp_within over s \<Longrightarrow> length g = 2 \<Longrightarrow> cbp_within over (s\<lparr>g_arm := g\<rparr>)"
  "cbp_within over s \<Longrightarrow> cbp_within over (s\<lparr>g_last_decision_epoch := e\<rparr>)"
  by (simp_all add: cbp_within_def v4_inv_def tpb_inv_cong v3_inv_cong)

lemma v4_flush_inv: "cbp_within over s \<Longrightarrow> cbp_within over (v4_flush arm tot hits s)"
proof -
  assume inv: "cbp_within over s"
  define s' where "s' = s\<lparr>g_arm := (g_arm s)[arm := (g_arm s ! arm)\<lparr>g_total := g_total (g_arm s ! arm) + ucast tot,
    g_hits := g_hits (g_arm s ! arm) + ucast hits, g_epoch := g_epoch (g_arm s ! arm) + 1\<rparr>]\<rparr>"
  have "cbp_within over s'"
    unfolding s'_def using inv by (intro cbp_inv_upd) (simp_all add: cbp_within_def v4_inv_def)
  moreover have "v4_flush arm tot hits s = s' \<or> (\<exists>e. v4_flush arm tot hits s = v4_decide (s'\<lparr>g_last_decision_epoch := e\<rparr>))"
    unfolding v4_flush_def Let_def s'_def [symmetric] by auto
  ultimately show ?thesis using v4_decide_inv [OF cbp_inv_upd(2)] by auto
qed

lemma noteAccessV4_inv:
  assumes "cbp_within over s" and "unat tid < 256"
  shows "\<exists>s'. noteAccessV4 tid cls hit s = Ret s' \<and> cbp_within over s'"
proof -
  have acc: "length (t_acc s) = 256" "\<forall>a \<in> set (t_acc s). length (arm_total a) = 2 \<and> length (arm_hits a) = 2"
    using assms(1) by (simp_all add: cbp_within_def v4_inv_def)
  define a where "a = t_acc s ! unat tid"
  define arm where "arm = unat (cls AND 1)"
  have "a \<in> set (t_acc s)" using acc(1) assms(2) by (simp add: a_def)
  then have a: "length (arm_total a) = 2" "length (arm_hits a) = 2" using acc(2) by auto
  have arm: "arm < 2" by (simp add: arm_def and_one_eq unat_mod)
  have upd: "cbp_within over (s\<lparr>t_acc := (t_acc s)[unat tid :=
      a\<lparr>arm_total := (arm_total a)[arm := t], arm_hits := (arm_hits a)[arm := h]\<rparr>]\<rparr>)" for t h
    using assms(1) a by (auto simp: cbp_within_def v4_inv_def tpb_inv_cong v3_inv_cong
        dest!: set_update_subset_insert [THEN subsetD])
  show ?thesis
    using acc(1) assms(2) a arm upd
    by (auto simp: noteAccessV4_def a_def [symmetric] arm_def [symmetric] Let_def intro!: v4_flush_inv)
qed

definition int_overflow :: err where
  "int_overflow = Fatal ''undefined: value out of range of int32_t''"

lemma to_i32_cases: obtains q where "to_i32 n = Ret q" | "to_i32 n = Err int_overflow"
  by (cases "- (2 ^ 31) \<le> n \<and> n < 2 ^ 31") (auto simp: to_i32_def int_overflow_def)

lemma v3_score_cases: "(\<exists>q. v3_score h p T = Ret q) \<or> v3_score h p T = Err int_overflow"
  unfolding v3_score_def Let_def by (metis to_i32_cases)

text \<open>A completed window moves the chance of its class by at most one, inside its range.\<close>

lemma lc_move:
  fixes lc :: u8 and A B C :: bool
  assumes "lc_range 14 lc"
  defines "lc' \<equiv> (if A then (if B \<and> ucast lc > MIN_LOG then lc - 1
    else if C \<and> ucast lc < MAX_LOG then lc + 1 else lc) else lc)"
  shows "lc_range 14 lc' \<and> unat lc' \<le> unat lc + 1 \<and> unat lc \<le> unat lc' + 1"
proof -
  have *: "1 < unat lc \<Longrightarrow> unat (lc - 1) = unat lc - 1" "unat lc < 14 \<Longrightarrow> unat (lc + 1) = unat lc + 1"
    using lc_dec lc_inc by auto
  have "lc' = lc \<or> lc' = lc - 1 \<and> 1 < unat lc \<or> lc' = lc + 1 \<and> unat lc < 14"
    by (simp add: lc'_def lc_cmp)
  then show ?thesis using assms(1) * by (auto simp: lc_range_def simp del: unat_eq_zero)
qed

lemma v3_adapt_cases:
  assumes "lc_range 14 (log_chance c)"
  shows "v3_adapt cls q q' c = Err int_overflow \<or>
    (\<exists>c'. v3_adapt cls q q' c = Ret c' \<and> lc_range 14 (log_chance c') \<and>
      unat (log_chance c') \<le> unat (log_chance c) + 1 \<and> unat (log_chance c) \<le> unat (log_chance c') + 1)"
proof (rule to_i32_cases [of "sint q - sint q'"])
  fix up assume up: "to_i32 (sint q - sint q') = Ret up"
  show ?thesis
  proof (rule to_i32_cases [of "sint q' - sint q"])
    fix down assume "to_i32 (sint q' - sint q) = Ret down"
    then show ?thesis
      using lc_move [OF assms] by (simp only: v3_adapt_def Let_def up bind_run.simps) simp
  qed (use up in \<open>simp add: v3_adapt_def Let_def\<close>)
qed (simp add: v3_adapt_def Let_def)

lemma v3_observe_cases:
  assumes "lc_range 14 (log_chance c)"
  shows "(\<not> static \<and> v3_observe static cls hit c = Err int_overflow) \<or>
    (\<exists>c'. v3_observe static cls hit c = Ret c' \<and> lc_range 14 (log_chance c') \<and>
      unat (log_chance c') \<le> unat (log_chance c) + 1 \<and> unat (log_chance c) \<le> unat (log_chance c') + 1)"
proof (cases "total c + 1 < WINDOW \<or> static")
  case True
  then show ?thesis using assms by (auto simp: v3_observe_def Let_def)
next
  case False
  define c2 where "c2 q = c\<lparr>total := 0, in_pref := 0, promotes := 0, warmup := warmup c + 1, last_score_q := q\<rparr>" for q
  define hits where "hits = in_pref c + (if hit then 1 else 0)"
  have eq: "v3_observe static cls hit c = bind_run (v3_score hits (promotes c) (total c + 1))
      (\<lambda>q. if warmup c < 3 then Ret (c2 q) else v3_adapt cls q (last_score_q c) (c2 q))"
    using False by (simp add: v3_observe_def Let_def c2_def hits_def cong: if_cong)
  have c2: "lc_range 14 (log_chance (c2 q))" "log_chance (c2 q) = log_chance c" for q
    using assms by (simp_all add: c2_def)
  show ?thesis
  proof (cases "v3_score hits (promotes c) (total c + 1) = Err int_overflow")
    case True
    then have "v3_observe static cls hit c = Err int_overflow" by (simp add: eq)
    then show ?thesis using False by blast
  next
    case score: False
    then obtain q where "v3_score hits (promotes c) (total c + 1) = Ret q" using v3_score_cases by blast
    then have eq': "v3_observe static cls hit c =
        (if warmup c < 3 then Ret (c2 q) else v3_adapt cls q (last_score_q c) (c2 q))"
      by (simp add: eq)
    show ?thesis
    proof (cases "warmup c < 3")
      case True
      then have "v3_observe static cls hit c = Ret (c2 q)" by (simp add: eq')
      then show ?thesis using c2 by simp
    next
      case w: False
      then have "v3_observe static cls hit c = v3_adapt cls q (last_score_q c) (c2 q)" by (simp add: eq')
      then show ?thesis using False v3_adapt_cases [OF c2(1), of cls q "last_score_q c" q]
        by (simp only: c2(2)) blast
    qed
  qed
qed

lemma noteAccess_cases:
  assumes "cbp_within over s" and "unat tid < 256" and "unat cls < 64"
  shows "(\<not> tpb_mode s \<and> \<not> v4_mode s \<and> \<not> static_mode s \<and> noteAccess tid r cls hit s = Err int_overflow) \<or>
    (\<exists>s'. noteAccess tid r cls hit s = Ret s' \<and> cbp_within over s')"
proof (cases "tpb_mode s \<or> v4_mode s \<or> r AND ucast SAMPLE_MASK \<noteq> 0")
  case True
  then show ?thesis using assms noteAccessV4_inv by (auto simp: noteAccess_def)
next
  case False
  have c: "length (classes s) = 64" "\<forall>c \<in> set (classes s). lc_range 14 (log_chance c)"
    using assms(1) by (simp_all add: cbp_within_def v3_inv_def)
  then have "lc_range 14 (log_chance (classes s ! unat cls))" using assms(3) by simp
  note obs = v3_observe_cases [OF this, of "static_mode s" cls hit]
  have "cbp_within over (s\<lparr>classes := (classes s)[unat cls := c']\<rparr>)" if "lc_range 14 (log_chance c')" for c'
    using assms(1) that by (auto simp: cbp_within_def v3_inv_def v4_inv_def tpb_inv_cong
        dest!: set_update_subset_insert [THEN subsetD])
  then show ?thesis using obs False c(1) assms(3) by (auto simp: noteAccess_def)
qed

lemma noteAttempt_inv:
  assumes "cbp_within over s" and "unat cls < 64"
  shows "\<exists>s'. noteAttempt cls s = Ret s' \<and> cbp_within over s'"
proof -
  have c: "length (classes s) = 64" "\<forall>c \<in> set (classes s). lc_range 14 (log_chance c)"
    using assms(1) by (simp_all add: cbp_within_def v3_inv_def)
  then have "lc_range 14 (log_chance (classes s ! unat cls))" using assms(2) by simp
  then have "cbp_within over (s\<lparr>classes := (classes s)[unat cls := (classes s ! unat cls)\<lparr>promotes := promotes (classes s ! unat cls) + 1\<rparr>]\<rparr>)"
    using assms by (auto simp: cbp_within_def v3_inv_def v4_inv_def tpb_inv_cong
        dest!: set_update_subset_insert [THEN subsetD])
  then show ?thesis using assms c by (auto simp: noteAttempt_def)
qed

text \<open>The modes are chosen once, at initialisation.\<close>

definition modes :: "cbp \<Rightarrow> bool \<times> bool \<times> bool" where
  "modes s = (tpb_mode s, v4_mode s, static_mode s)"

lemma modes_upd [simp]:
  "modes (s\<lparr>classes := x\<rparr>) = modes s" "modes (s\<lparr>t_acc := w\<rparr>) = modes s" "modes (tpbOnWindow d s) = modes s"
  "modes (v4_decide s) = modes s" "modes (v4_flush a t h s) = modes s"
  by (simp_all add: modes_def tpbOnWindow_def v4_decide_def v4_flush_def Let_def)

lemma modes_step: "cbp_step e s = Ret s' \<Longrightarrow> modes s' = modes s"
  by (cases e) (auto simp: cbp_step_def noteAccess_def noteAttempt_def noteAccessV4_def Let_def run_simps
      split: if_splits)

lemma cbp_step_cases:
  assumes "cbp_within over s" and "event_ok e"
  shows "(modes s = (False, False, False) \<and> cbp_step e s = Err int_overflow) \<or>
    (\<exists>s'. cbp_step e s = Ret s' \<and> cbp_within over s' \<and> modes s' = modes s)"
proof -
  have "(modes s = (False, False, False) \<and> cbp_step e s = Err int_overflow) \<or>
      (\<exists>s'. cbp_step e s = Ret s' \<and> cbp_within over s')"
    using assms noteAccess_cases [where over = over] noteAttempt_inv [where over = over] window_inv [where over = over]
    by (cases e) (fastforce simp: cbp_step_def modes_def)+
  then show ?thesis using modes_step by blast
qed

lemma cbp_run_cases:
  assumes "cbp_within over s" and "list_all event_ok es"
  shows "(modes s = (False, False, False) \<and> cbp_run es s = Err int_overflow) \<or>
    (\<exists>s'. cbp_run es s = Ret s' \<and> cbp_within over s' \<and> modes s' = modes s)"
  using assms
proof (induction es arbitrary: s)
  case (Cons e es)
  then show ?case using cbp_step_cases [of over s e] by fastforce
qed simp

lemma lc_mask_range:
  assumes "lc_range 15 lc"
  shows "lc_mask lc = Ret (mask (unat lc))"
proof -
  have n: "unat lc < 32" using assms by (simp add: lc_range_def)
  have "ucast (mask (unat lc) :: u32) = (mask (unat lc) :: u64)"
    using n by (intro bit_word_eqI) (auto simp: bit_simps)
  then show ?thesis
    using n by (simp add: lc_mask_def push_bit_of_1 flip: mask_eq_exp_minus_1)
qed

lemma maskFor_inv:
  assumes "cbp_within over s" and "unat cls < 64"
  shows "\<exists>lc \<ge> 1. lc \<le> (if over \<and> v4_mode s then 15 else 14) \<and> maskFor cls s = Ret (mask lc)"
proof -
  have lc: "\<exists>n \<ge> 1. n \<le> top \<and> lc_mask lc = Ret (mask n)" if "lc_range top lc" "top \<le> 15" for lc top
  proof -
    have "lc_range 15 lc" using that by (simp add: lc_range_def)
    then show ?thesis using lc_mask_range that(1) by (intro exI [of _ "unat lc"]) (simp add: lc_range_def)
  qed
  have tpb: "lc_range 14 (tpb_lc_active s)"
    using assms(1) by (auto simp: cbp_within_def tpb_inv_def lc_range_def split: if_splits)
  have v3: "unat cls < length (classes s)" "lc_range 14 (log_chance (classes s ! unat cls))"
    using assms nth_mem by (auto simp: cbp_within_def v3_inv_def)
  have arm: "unat (cls AND 1) < 2" by (simp add: and_one_eq unat_mod)
  obtain lo hi where a: "arm_lc s = [lo, hi]" "1 \<le> unat lo" "unat hi = unat lo + 1" "unat hi \<le> (if over then 15 else 14)"
    using assms(1) unfolding cbp_within_def v4_inv_def by blast
  have v4: "unat (cls AND 1) < length (arm_lc s)" "lc_range (if over then 15 else 14) (arm_lc s ! unat (cls AND 1))"
    using arm a by (auto simp: lc_range_def less_2_cases_iff)
  show ?thesis
  proof (cases "tpb_mode s")
    case True
    then show ?thesis using lc [OF tpb] by (force simp: maskFor_def)
  next
    case False
    show ?thesis
    proof (cases "v4_mode s")
      case True
      then show ?thesis using False lc [OF v4(2)] v4(1) by (simp add: maskFor_def)
    qed (use False lc [OF v3(2)] v3(1) in \<open>force simp: maskFor_def\<close>)
  qed
qed

text \<open>
  C26: the chances stay in range. Whatever the environment and whatever accesses, attempts and
  statistics windows follow, the controllers stay within their invariant: TPB keeps its base
  and its probe between 1 and 14, one step apart while it probes, and runs at one of the two;
  the two arms of v4 stay one apart and between 1 and 14; v3 keeps every class between 1 and 14.
  Every mask is then \<open>2 ^ lc - 1\<close> with \<open>lc\<close> between 1 and 14. The exception is a v4 that was
  started with \<open>CBP_LOG=14\<close>, whose second arm is 15 from the beginning. Only the adapting v3 can
  stop, in the conversion of a score to \<open>int32_t\<close>.
\<close>

theorem chances_in_range:
  assumes "list_all event_ok es"
  shows "case cbp_run es (cbp_init getenv) of
      Ret s \<Rightarrow> cbp_within (starts_at_top getenv) s \<and> (\<forall>cls. unat cls < 64 \<longrightarrow>
        (\<exists>lc \<ge> 1. lc \<le> (if starts_at_top getenv \<and> v4_mode s then 15 else 14) \<and> maskFor cls s = Ret (mask lc)))
    | Err e \<Rightarrow> e = int_overflow \<and> modes (cbp_init getenv) = (False, False, False)
    | Loop \<Rightarrow> False"
  using cbp_run_cases [OF cbp_init_within [of getenv] assms] maskFor_inv by fastforce

theorem chances_in_range_witness:
  "\<exists>s lc. cbp_run [Window 100, Access 3 0 5 True, Attempt 7] (cbp_init [''TPB'' \<mapsto> ''1'']) = Ret s \<and>
    cbp_within False s \<and> lc \<le> 14 \<and> maskFor 9 s = Ret (mask lc)"
proof -
  have "modes (cbp_init [''TPB'' \<mapsto> ''1'']) \<noteq> (False, False, False)" "\<not> starts_at_top [''TPB'' \<mapsto> ''1'']"
    by (simp_all add: modes_def cbp_init_def Let_def env_flag_def starts_at_top_def log_from_env_def DEFAULT_LOG_def MAX_LOG_def)
  then show ?thesis
    using chances_in_range [of "[Window 100, Access 3 0 5 True, Attempt 7]" "[''TPB'' \<mapsto> ''1'']"]
    by (auto split: run.splits dest: spec [of _ 9])
qed

end
