(* ===== verification/Random_Generator.thy ===== *)
theory Random_Generator
  imports Prelude
begin

text \<open>
  \<open>utils/RandomGenerator.hpp\<close>: the 64-bit Mersenne Twister behind \<open>RandomGenerator\<close>
  (array accesses with their bounds) and the xorshift128+ generator behind
  \<open>FastRandomGenerator\<close>, which the promotion decisions draw from. The four words of
  \<open>std::random_device\<close> are a parameter of the functions that may seed.
\<close>

section \<open>Mersenne Twister\<close>

record mtwister =
  mt :: "u64 list"
  mti :: nat

abbreviation NN :: nat where "NN \<equiv> 312"
abbreviation MM :: nat where "MM \<equiv> 156"

definition MATRIX_A :: u64 where "MATRIX_A = 0xB5026F5AA96619E9"
definition UM :: u64 where "UM = 0xFFFFFFFF80000000"
definition LM :: u64 where "LM = 0x7FFFFFFF"

definition mag01 :: "u64 list" where "mag01 = [0, MATRIX_A]"

fun mt_seed :: "nat \<Rightarrow> u64 \<Rightarrow> nat \<Rightarrow> u64 list" where
  "mt_seed 0 prev i = []"
| "mt_seed (Suc n) prev i =
     (let x = 6364136223846793005 * (prev XOR drop_bit 62 prev) + of_nat i
      in x # mt_seed n x (Suc i))"

definition mt_init :: "u64 \<Rightarrow> mtwister" where
  "mt_init seed = \<lparr>mt = seed # mt_seed (NN - 1) seed 1, mti = NN\<rparr>"

text \<open>
  One word of the generation loop: \<open>x\<close> mixes \<open>mt[i]\<close> with \<open>mt[j]\<close>, and \<open>mt[i]\<close>
  is rewritten from \<open>mt[l]\<close>.
\<close>

definition mt_word :: "nat \<Rightarrow> nat \<Rightarrow> nat \<Rightarrow> u64 list \<Rightarrow> u64 list run" where
  "mt_word i j l m =
     bind_run (aget m i) (\<lambda>a. bind_run (aget m j) (\<lambda>b.
       let x = (a AND UM) OR (b AND LM) in
       bind_run (aget m l) (\<lambda>c. bind_run (aget mag01 (unat (x AND 1))) (\<lambda>g.
         aset m i (c XOR drop_bit 1 x XOR g)))))"

fun mt_loop :: "nat \<Rightarrow> (nat \<Rightarrow> nat) \<Rightarrow> nat \<Rightarrow> u64 list \<Rightarrow> u64 list run" where
  "mt_loop 0 src i m = Ret m"
| "mt_loop (Suc n) src i m =
     bind_run (mt_word i (i + 1) (src i) m) (mt_loop n src (Suc i))"

definition mt_generate :: "u64 list \<Rightarrow> u64 list run" where
  "mt_generate m =
     bind_run (mt_loop (NN - MM) (\<lambda>i. i + MM) 0 m) (\<lambda>m.
     bind_run (mt_loop (NN - 1 - (NN - MM)) (\<lambda>i. nat (int i + (int MM - int NN))) (NN - MM) m) (\<lambda>m.
     mt_word (NN - 1) 0 (MM - 1) m))"

definition mt_temper :: "u64 \<Rightarrow> u64" where
  "mt_temper x0 =
     (let x = x0 XOR (drop_bit 29 x0 AND 0x5555555555555555);
          x = x XOR (push_bit 17 x AND 0x71D67FFFEDA60000);
          x = x XOR (push_bit 37 x AND 0xFFF7EEE000000000)
      in x XOR drop_bit 43 x)"

definition mt_rnd :: "mtwister \<Rightarrow> (u64 \<times> mtwister) run" where
  "mt_rnd g =
     bind_run (if mti g \<ge> NN then bind_run (mt_generate (mt g)) (\<lambda>m. Ret (g\<lparr>mt := m, mti := 0\<rparr>))
               else Ret g) (\<lambda>g.
     bind_run (aget (mt g) (mti g)) (\<lambda>x. Ret (mt_temper x, g\<lparr>mti := mti g + 1\<rparr>)))"

section \<open>Ranges\<close>

text \<open>\<open>getRandU64(min, max)\<close> of both generators: a remainder by zero traps.\<close>

definition rand_range :: "u64 \<Rightarrow> u64 \<Rightarrow> u64 \<Rightarrow> u64 run" where
  "rand_range r lo hi =
     (if hi - lo = 0 then Err (Fatal ''division by zero'')
      else let rand = lo + r mod (hi - lo) in
        check (rand < hi) ''rand < max'' (check (rand \<ge> lo) ''rand >= min'' (Ret rand)))"

definition mt_getRandU64 :: "u64 \<Rightarrow> u64 \<Rightarrow> mtwister \<Rightarrow> (u64 \<times> mtwister) run" where
  "mt_getRandU64 lo hi g = bind_run (mt_rnd g) (\<lambda>(r, g').
     bind_run (rand_range r lo hi) (\<lambda>x. Ret (x, g')))"

fun getRandString :: "nat \<Rightarrow> mtwister \<Rightarrow> (u8 list \<times> mtwister) run" where
  "getRandString 0 g = Ret ([], g)"
| "getRandString (Suc n) g =
     bind_run (mt_getRandU64 48 123 g) (\<lambda>(x, g').
     bind_run (getRandString n g') (\<lambda>(xs, g''). Ret (ucast x # xs, g'')))"

section \<open>xorshift128+\<close>

type_synonym xorshift = "u64 \<times> u64"

definition xs_init :: "u32 \<times> u32 \<times> u32 \<times> u32 \<Rightarrow> xorshift" where
  "xs_init rd = (case rd of (r0, r1, r2, r3) \<Rightarrow>
     (push_bit 32 (ucast r0) OR ucast r1, push_bit 32 (ucast r2) OR ucast r3))"

definition xs_next :: "xorshift \<Rightarrow> u64 \<times> xorshift" where
  "xs_next st =
     (let s1 = fst st; s0 = snd st;
          result = s0 + s1;
          s1 = s1 XOR push_bit 23 s1
      in (result, (s0, s1 XOR s0 XOR drop_bit 18 s1 XOR drop_bit 5 s0)))"

definition xs_rnd :: "u32 \<times> u32 \<times> u32 \<times> u32 \<Rightarrow> xorshift \<Rightarrow> u64 \<times> xorshift" where
  "xs_rnd rd st = xs_next (if fst st = 0 \<and> snd st = 0 then xs_init rd else st)"

definition fast_getRandU64 ::
  "u32 \<times> u32 \<times> u32 \<times> u32 \<Rightarrow> u64 \<Rightarrow> u64 \<Rightarrow> xorshift \<Rightarrow> (u64 \<times> xorshift) run" where
  "fast_getRandU64 rd lo hi st = (case xs_rnd rd st of (r, st') \<Rightarrow>
     bind_run (rand_range r lo hi) (\<lambda>x. Ret (x, st')))"

section \<open>Facts\<close>

lemma rand_range_ok: "lo < hi \<Longrightarrow> \<exists>x. rand_range r lo hi = Ret x \<and> lo \<le> x \<and> x < hi"
proof -
  assume less: "lo < hi"
  let ?d = "hi - lo"
  have d: "unat ?d = unat hi - unat lo" "0 < unat ?d"
    using less by (simp_all add: unat_sub less_imp_le word_less_nat_alt)
  then have "?d \<noteq> 0" by auto
  have r: "unat (r mod ?d) < unat ?d" using d by (simp add: unat_mod)
  moreover have "unat hi < 2 ^ 64" using unsigned_less [of hi] by simp
  ultimately have "unat (lo + r mod ?d) = unat lo + unat (r mod ?d)"
    using d by (simp add: unat_word_ariths)
  then have "lo \<le> lo + r mod ?d" "lo + r mod ?d < hi"
    using r d by (simp_all add: word_le_nat_alt word_less_nat_alt)
  then show ?thesis using \<open>?d \<noteq> 0\<close> by (simp add: rand_range_def Let_def)
qed

definition mt_ok :: "mtwister \<Rightarrow> bool" where
  "mt_ok g \<longleftrightarrow> length (mt g) = NN \<and> mti g \<le> NN"

lemma length_mt_seed: "length (mt_seed n x i) = n"
  by (induction n arbitrary: x i) (simp_all add: Let_def)

lemma mt_ok_init: "mt_ok (mt_init seed)"
  by (simp add: mt_ok_def mt_init_def length_mt_seed)

lemma mag01_ok: "unat (x AND 1 :: u64) < length mag01"
proof -
  have "x AND 1 \<le> 1" by (rule word_and_le1)
  then show ?thesis by (simp add: mag01_def word_le_nat_alt)
qed

lemma mt_word_ok:
  assumes "length m = n" and "i < n" and "j < n" and "l < n"
  shows "\<exists>m'. mt_word i j l m = Ret m' \<and> length m' = n"
  using assms mag01_ok by (simp add: mt_word_def Let_def)

lemma mt_loop_ok:
  assumes "length m = NN" and "i + n < NN" and "\<And>h. i \<le> h \<Longrightarrow> h < i + n \<Longrightarrow> src h < NN"
  shows "\<exists>m'. mt_loop n src i m = Ret m' \<and> length m' = NN"
  using assms
proof (induction n arbitrary: i m)
  case 0
  then show ?case by simp
next
  case (Suc n)
  obtain m1 where m1: "mt_word i (i + 1) (src i) m = Ret m1" "length m1 = NN"
    using mt_word_ok [OF Suc.prems(1), of i "i + 1" "src i"] Suc.prems(2,3) by auto
  then obtain m2 where "mt_loop n src (Suc i) m1 = Ret m2" "length m2 = NN"
    using Suc.IH [OF m1(2), of "Suc i"] Suc.prems(2,3) by auto
  then show ?case using m1 by simp
qed

lemma mt_generate_ok: "length m = NN \<Longrightarrow> \<exists>m'. mt_generate m = Ret m' \<and> length m' = NN"
proof -
  assume m: "length m = NN"
  obtain m1 where m1: "mt_loop (NN - MM) (\<lambda>i. i + MM) 0 m = Ret m1" "length m1 = NN"
    using mt_loop_ok [OF m, of 0 "NN - MM" "\<lambda>i. i + MM"] by auto
  have "\<exists>m'. mt_loop (NN - 1 - (NN - MM)) (\<lambda>i. nat (int i + (int MM - int NN))) (NN - MM) m1 = Ret m' \<and>
      length m' = NN"
    by (rule mt_loop_ok [OF m1(2)]) auto
  then obtain m2 where m2: "mt_loop (NN - 1 - (NN - MM)) (\<lambda>i. nat (int i + (int MM - int NN))) (NN - MM) m1 = Ret m2"
    "length m2 = NN" by blast
  obtain m3 where "mt_word (NN - 1) 0 (MM - 1) m2 = Ret m3" "length m3 = NN"
    using mt_word_ok [OF m2(2), of "NN - 1" 0 "MM - 1"] by auto
  then show ?thesis using m1 m2 by (simp add: mt_generate_def)
qed

lemma mt_rnd_ok: "mt_ok g \<Longrightarrow> \<exists>x g'. mt_rnd g = Ret (x, g') \<and> mt_ok g'"
proof -
  assume ok: "mt_ok g"
  then obtain m where "mt_generate (mt g) = Ret m" "length m = NN"
    using mt_generate_ok by (auto simp: mt_ok_def)
  then show ?thesis using ok by (simp add: mt_rnd_def mt_ok_def)
qed

lemma mt_getRandU64_ok:
  "mt_ok g \<Longrightarrow> lo < hi \<Longrightarrow> \<exists>x g'. mt_getRandU64 lo hi g = Ret (x, g') \<and> mt_ok g' \<and> lo \<le> x \<and> x < hi"
proof -
  assume "mt_ok g" and "lo < hi"
  then obtain r g' x where "mt_rnd g = Ret (r, g')" "mt_ok g'" "rand_range r lo hi = Ret x" "lo \<le> x" "x < hi"
    using mt_rnd_ok [of g] rand_range_ok [of lo hi] by metis
  then show ?thesis by (simp add: mt_getRandU64_def)
qed

text \<open>
  From any seed the Mersenne Twister never reads or writes outside its arrays, and
  every string it generates is made of the requested number of bytes between 48 and 122.
\<close>

theorem getRandString_ok:
  "\<exists>xs g'. getRandString n (mt_init seed) = Ret (xs, g') \<and> mt_ok g' \<and> length xs = n \<and>
     list_all (\<lambda>b. 48 \<le> b \<and> b < 123) xs"
proof -
  have "\<exists>xs g'. getRandString n g = Ret (xs, g') \<and> mt_ok g' \<and> length xs = n \<and>
     list_all (\<lambda>b. 48 \<le> b \<and> b < 123) xs" if "mt_ok g" for g
    using that
  proof (induction n arbitrary: g)
    case 0
    then show ?case by simp
  next
    case (Suc n)
    obtain x g1 where x: "mt_getRandU64 48 123 g = Ret (x, g1)" "mt_ok g1" "48 \<le> x" "x < 123"
      using mt_getRandU64_ok [OF Suc.prems, of 48 123] by auto
    obtain xs g2 where "getRandString n g1 = Ret (xs, g2)" "mt_ok g2" "length xs = n"
      "list_all (\<lambda>b. 48 \<le> b \<and> b < 123) xs" using Suc.IH [OF x(2)] by blast
    moreover have "unat (ucast x :: u8) = unat x"
      using x(4) by (simp add: unsigned_ucast_eq word_less_nat_alt take_bit_nat_eq_self)
    then have "48 \<le> (ucast x :: u8)" "(ucast x :: u8) < 123"
      using x(3,4) by (simp_all add: word_le_nat_alt word_less_nat_alt)
    ultimately show ?case using x by simp
  qed
  from this [OF mt_ok_init] show ?thesis .
qed

text \<open>
  Xorshift128+ is a permutation of its 128-bit state that fixes zero: two different
  states never step to the same state, and a state that is not zero never steps to zero, so a
  generator that holds a seed never goes back to the random device.
\<close>

theorem xorshift_permutation:
  "(snd (xs_next st) = snd (xs_next st') \<longleftrightarrow> st = st') \<and> (snd (xs_next st) = (0, 0) \<longleftrightarrow> st = (0, 0)) \<and>
   (st \<noteq> (0, 0) \<longrightarrow> xs_rnd rd st = xs_next st \<and> snd (xs_rnd rd st) \<noteq> (0, 0))"
proof -
  have inj: "snd (xs_next st) = snd (xs_next st') \<longleftrightarrow> st = st'" for st st'
  proof
    assume eq: "snd (xs_next st) = snd (xs_next st')"
    then have s0: "snd st = snd st'" by (simp add: xs_next_def Let_def)
    let ?f = "\<lambda>s :: u64. s XOR push_bit 23 s"
    have reorder: "a XOR b XOR c XOR d = (a XOR c) XOR (b XOR d)" for a b c d :: u64
      by (simp add: ac_simps)
    have "?f (fst st) XOR snd st XOR drop_bit 18 (?f (fst st)) XOR drop_bit 5 (snd st) =
          ?f (fst st') XOR snd st XOR drop_bit 18 (?f (fst st')) XOR drop_bit 5 (snd st)"
      using eq s0 by (simp add: xs_next_def Let_def)
    then have "(?f (fst st) XOR drop_bit 18 (?f (fst st))) XOR (snd st XOR drop_bit 5 (snd st)) =
          (?f (fst st') XOR drop_bit 18 (?f (fst st'))) XOR (snd st XOR drop_bit 5 (snd st))"
      by (simp only: reorder)
    then have "?f (fst st) XOR drop_bit 18 (?f (fst st)) = ?f (fst st') XOR drop_bit 18 (?f (fst st'))"
      by (simp only: xor_cancel_right)
    then have "?f (fst st) = ?f (fst st')" by (rule xor_drop_bit_inj [rotated]) simp
    then have "fst st = fst st'" by (rule xor_push_bit_inj [rotated]) simp
    with s0 show "st = st'" by (rule prod_eqI [rotated])
  qed simp
  moreover have zero: "snd (xs_next (0, 0)) = (0, 0)" by (simp add: xs_next_def)
  ultimately have "snd (xs_next st) = (0, 0) \<longleftrightarrow> st = (0, 0)" using inj [of st "(0, 0)"] by simp
  then show ?thesis using inj by (auto simp: xs_rnd_def prod_eq_iff)
qed

theorem xorshift_permutation_witness: "xs_rnd (0, 0, 0, 0) (1, 2) = xs_next (1, 2)"
  using xorshift_permutation [of "(1, 2)" "(1, 2)" "(0, 0, 0, 0)"] by simp

end
