(* ===== verification/Buffer_Manager.thy ===== *)
theory Buffer_Manager
  imports Page_Table Resident_Set Cbp_Controllers Random_Generator
begin

text \<open>
  \<open>BufferManager\<close> of \<open>buffer_manager.hpp\<close> with the batch writer of
  \<open>libaio_interface.hpp\<close>: the pool of frames, the page id of every frame, the free list, the
  resident set, the hash table, the block files, and the operations that fault, fix, unfix,
  promote, evict, flush and clear pages. An operation is a function of the manager's state, run
  by one thread alone; its assertions are those of the debug build.

  The concurrent queue of free frames and the kernel are outside the program: \<open>queue_pop\<close> is
  what \<open>try_dequeue\<close> answers, \<open>io_submit\<close> how many requests of a batch complete,
  \<open>weak_fails\<close> which compare-and-swaps fail spuriously, and \<open>disk\<close> what the files hold.
\<close>

section \<open>State\<close>

text \<open>A page of the pool or of a file: the header of \<open>Page\<close>, and the bytes after it.\<close>

record page =
  dirty :: bool
  ppid :: PID
  body :: "u8 list"

record bm =
  frameCount :: u64
  residentSet :: rset
  allocCount :: u64
  readCount :: u64
  writeCount :: u64
  virtMem :: "page list"
  virtMemPids :: "PID list"
  batch :: u64
  ht :: htab
  freeList :: "nat list"
  evictsHTCache :: u64
  blockfds :: u64
  disk :: "u64 \<times> u64 \<Rightarrow> page option"
  promo_cfg :: promo
  cbp_state :: cbp
  btreeIsLeafOffset :: nat
  tid :: u16
  rng :: xorshift
  rng_seed :: "u32 \<times> u32 \<times> u32 \<times> u32"
  queue_pop :: "nat list \<Rightarrow> (nat \<times> nat list) option"
  io_submit :: "nat \<Rightarrow> nat"
  weak_fails :: "bool list"

definition maxIOs :: nat where "maxIOs = 256"

section \<open>Accesses to the parts\<close>

definition intended :: "bm \<Rightarrow> PID \<Rightarrow> nat" where
  "intended s pid = unat (intendedFrame (frameCount s) (hashPID pid (frameCount s)))"

definition bm_hash :: "bm \<Rightarrow> PID \<Rightarrow> u64" where
  "bm_hash s pid = hashPID pid (frameCount s)"

definition bf_at :: "bm \<Rightarrow> fref \<Rightarrow> frame" where
  "bf_at s r = frame_at (ht s) r"

definition upd_bf :: "fref \<Rightarrow> (frame \<Rightarrow> frame) \<Rightarrow> bm \<Rightarrow> bm" where
  "upd_bf r f s = s\<lparr>ht := upd_frame r f (ht s)\<rparr>"

text \<open>Dereferencing \<open>bf->page\<close>.\<close>

definition page_of :: "bm \<Rightarrow> fref \<Rightarrow> nat run" where
  "page_of s r = (case bpage (bf_at s r) of None \<Rightarrow> Err (Fatal ''null page'') | Some x \<Rightarrow> Ret x)"

definition upd_page :: "nat \<Rightarrow> (page \<Rightarrow> page) \<Rightarrow> bm \<Rightarrow> bm run" where
  "upd_page x f s = bind_run (aget (virtMem s) x) (\<lambda>p. Ret (s\<lparr>virtMem := (virtMem s)[x := f p]\<rparr>))"

definition copy_page :: "nat \<Rightarrow> nat \<Rightarrow> bm \<Rightarrow> bm run" where
  "copy_page dst src s = bind_run (aget (virtMem s) src) (\<lambda>p. upd_page dst (\<lambda>_. p) s)"

definition set_pid :: "nat \<Rightarrow> PID \<Rightarrow> bm \<Rightarrow> bm run" where
  "set_pid x pid s = bind_run (aset (virtMemPids s) x pid) (\<lambda>ps. Ret (s\<lparr>virtMemPids := ps\<rparr>))"

definition trySetPresent :: "nat \<Rightarrow> PID \<Rightarrow> bm \<Rightarrow> (bool \<times> bm) run" where
  "trySetPresent x pid s = bind_run (aget (virtMemPids s) x) (\<lambda>cur.
     case cas cur pid_none pid of (ok, c) \<Rightarrow> Ret (ok, s\<lparr>virtMemPids := (virtMemPids s)[x := c]\<rparr>))"

definition enqueue_free :: "nat \<Rightarrow> bm \<Rightarrow> bm" where
  "enqueue_free x s = s\<lparr>freeList := freeList s @ [x]\<rparr>"

text \<open>A word from the thread's generator; whether the next weak compare-and-swap fails.\<close>

definition draw :: "bm \<Rightarrow> u64 \<times> bm" where
  "draw s = (case xs_rnd (rng_seed s) (rng s) of (r, g) \<Rightarrow> (r, s\<lparr>rng := g\<rparr>))"

definition next_weak :: "bm \<Rightarrow> bool \<times> bm" where
  "next_weak s = (case weak_fails s of [] \<Rightarrow> (False, s) | w # ws \<Rightarrow> (w, s\<lparr>weak_fails := ws\<rparr>))"

text \<open>
  \<open>ht.access\<close>. It draws a random word when it has found the page behind an empty head.
\<close>

definition bm_access :: "PID \<Rightarrow> u64 \<Rightarrow> bm \<Rightarrow> ((fref option \<times> u64) \<times> bm) run" where
  "bm_access pid hash s =
     (case draw s of (w, s1) \<Rightarrow>
        bind_run (ht_access True w pid hash (ht s)) (\<lambda>((r, v), t).
          let i = unat (ht_index (hcount (ht s)) hash);
              drawn = (r \<noteq> None \<and> r \<noteq> Some (Head i) \<and> bpid (ebf (head (table (ht s) ! i))) = pid_none)
          in Ret ((r, v), (if drawn then s1 else s)\<lparr>ht := t\<rparr>)))"

section \<open>The block files\<close>

definition getFileAndIndex :: "u64 \<Rightarrow> PID \<Rightarrow> u64 \<times> u64" where
  "getFileAndIndex n pid = (pid mod n, pid div n)"

text \<open>
  \<open>LibaioInterface::writePages\<close>: every page is marked clean and its write prepared; then the
  whole batch is submitted and awaited.
\<close>

fun prep_writes :: "(PID \<times> nat) list \<Rightarrow> bm \<Rightarrow> bm run" where
  "prep_writes [] s = Ret s"
| "prep_writes ((pid, x) # ws) s = bind_run (upd_page x (\<lambda>p. p\<lparr>dirty := False\<rparr>) s) (prep_writes ws)"

fun do_writes :: "(PID \<times> nat) list \<Rightarrow> bm \<Rightarrow> bm run" where
  "do_writes [] s = Ret s"
| "do_writes ((pid, x) # ws) s = bind_run (aget (virtMem s) x) (\<lambda>p.
     do_writes ws (s\<lparr>disk := (disk s)(getFileAndIndex (blockfds s) pid \<mapsto> p)\<rparr>))"

definition writePages :: "(PID \<times> nat) list \<Rightarrow> bm \<Rightarrow> bm run" where
  "writePages ws s =
     check (length ws < maxIOs) ''pages.size() < maxIOs''
       (bind_run (prep_writes ws s) (\<lambda>s.
         check (io_submit s (length ws) = length ws) ''cnt == pages.size()'' (do_writes ws s)))"

text \<open>\<open>pread\<close> beyond the end of a file is short, which the first assertion catches.\<close>

definition readPageToHTCache :: "PID \<Rightarrow> nat \<Rightarrow> bm \<Rightarrow> bm run" where
  "readPageToHTCache pid x s =
     (case disk s (pid mod blockfds s, pid div blockfds s) of
        None \<Rightarrow> Err (Assertion ''ret==pageSize'')
      | Some p \<Rightarrow> bind_run (upd_page x (\<lambda>_. p) s) (\<lambda>s.
          check (\<not> dirty p) ''!bufferFrame->dirty'' (Ret (s\<lparr>readCount := readCount s + 1\<rparr>))))"

section \<open>Eviction\<close>

text \<open>The counters and vectors that the callback of \<open>evict\<close> captures.\<close>

record evicting =
  evicted :: u64
  toWrite :: "(PID \<times> nat \<times> fref) list"
  evictedHTCache :: "PID list"

definition evict_clean :: "PID \<Rightarrow> u64 \<Rightarrow> nat \<Rightarrow> bm \<Rightarrow> bm run" where
  "evict_clean pid hash x s =
     bind_run (rs_remove pid (residentSet s)) (\<lambda>(_, rs).
     bind_run (ht_remove pid hash (ht s)) (\<lambda>(_, t).
     bind_run (set_pid x pid_none (s\<lparr>residentSet := rs, ht := t\<rparr>)) (\<lambda>s.
     Ret (enqueue_free x s))))"

definition evict_visit :: "PID \<Rightarrow> bm \<times> evicting \<Rightarrow> (bm \<times> evicting) run" where
  "evict_visit pid = (\<lambda>(s, ev).
     let hash = bm_hash s pid in
     bind_run (ht_access False 0 pid hash (ht s)) (\<lambda>((rf, v), _).
       case rf of
         None \<Rightarrow> Ret (s, ev)
       | Some r \<Rightarrow>
           if getState v = Marked then
             (case tryLockS (bstate (bf_at s r)) v of
                (False, _) \<Rightarrow> Ret (s, ev)
              | (True, w) \<Rightarrow>
                  let s = upd_bf r (\<lambda>bf. bf\<lparr>bstate := w\<rparr>) s;
                      ev = ev\<lparr>evicted := evicted ev + 1\<rparr>
                  in bind_run (page_of s r) (\<lambda>x. bind_run (aget (virtMem s) x) (\<lambda>p.
                     if dirty p then Ret (s, ev\<lparr>toWrite := toWrite ev @ [(pid, x, r)]\<rparr>)
                     else
                       let v = bstate (bf_at s r); (weak, s) = (if getState v = 1 then next_weak s else (False, s))
                       in case cas_weak weak (bstate (bf_at s r)) v (sameVersion v Locked) of
                            (ok, w) \<Rightarrow>
                              if getState v = 1 \<and> ok then
                                bind_run (evict_clean pid hash x (upd_bf r (\<lambda>bf. bf\<lparr>bstate := w\<rparr>) s))
                                  (\<lambda>s. Ret (s, ev\<lparr>evicted := evicted ev + 1,
                                                  evictedHTCache := evictedHTCache ev @ [pid]\<rparr>))
                              else
                                bind_run (unlockS [(v, v)]) (\<lambda>w.
                                  Ret (upd_bf r (\<lambda>bf. bf\<lparr>bstate := w\<rparr>) s, ev)))))
           else if getState v = Unlocked then
             bind_run (tryMark (bstate (bf_at s r)) v) (\<lambda>(_, w).
               Ret (upd_bf r (\<lambda>bf. bf\<lparr>bstate := w\<rparr>) s, ev))
           else Ret (s, ev)))"

text \<open>The search loop: at most 10000 batches of the clock, until a batch is evicted.\<close>

definition rs_get :: "bm \<times> evicting \<Rightarrow> rset" where
  "rs_get = (\<lambda>(s, ev). residentSet s)"

definition rs_put :: "rset \<Rightarrow> bm \<times> evicting \<Rightarrow> bm \<times> evicting" where
  "rs_put rs = (\<lambda>(s, ev). (s\<lparr>residentSet := rs\<rparr>, ev))"

fun evict_search :: "nat \<Rightarrow> bm \<times> evicting \<Rightarrow> (bm \<times> evicting) run" where
  "evict_search 0 se = Ret se"
| "evict_search (Suc n) se =
     (if evicted (snd se) < batch (fst se)
      then bind_run (iterateClockBatch rs_get rs_put (batch (fst se)) evict_visit se) (evict_search n)
      else Ret se)"

text \<open>Upgrading the locks of the written pages; the pages to remove are returned.\<close>

fun evict_upgrade :: "(PID \<times> nat \<times> fref) list \<Rightarrow> bm \<Rightarrow> (PID list \<times> bm) run" where
  "evict_upgrade [] s = Ret ([], s)"
| "evict_upgrade ((pid, x, r) # ws) s =
     (let v = bstate (bf_at s r); (weak, s) = (if getState v = 1 then next_weak s else (False, s)) in
      case cas_weak weak (bstate (bf_at s r)) v (sameVersion v Locked) of
        (ok, w) \<Rightarrow>
          if getState v = 1 \<and> ok then
            let s = upd_bf r (\<lambda>bf. bf\<lparr>bstate := w\<rparr>) s in
            bind_run (page_of s r) (\<lambda>slot. bind_run (set_pid slot pid_none s) (\<lambda>s.
              bind_run (evict_upgrade ws (enqueue_free x s)) (\<lambda>(pids, s). Ret (pid # pids, s))))
          else
            bind_run (unlockS [(bstate (bf_at s r), bstate (bf_at s r))]) (\<lambda>w.
              evict_upgrade ws (upd_bf r (\<lambda>bf. bf\<lparr>bstate := w\<rparr>) s)))"

fun evict_remove :: "PID list \<Rightarrow> bm \<Rightarrow> bm run" where
  "evict_remove [] s = Ret s"
| "evict_remove (pid # pids) s =
     bind_run (rs_remove pid (residentSet s)) (\<lambda>(succ, rs).
       check succ ''succ''
         (bind_run (ht_remove pid (bm_hash s pid) (ht s)) (\<lambda>(_, t).
           evict_remove pids (s\<lparr>residentSet := rs, ht := t\<rparr>))))"

definition evict :: "bm \<Rightarrow> bm run" where
  "evict s =
     bind_run (evict_search 10000 (s, \<lparr>evicted = 0, toWrite = [], evictedHTCache = []\<rparr>)) (\<lambda>(s, ev).
     bind_run (writePages (map (\<lambda>(pid, x, r). (pid, x)) (toWrite ev)) s) (\<lambda>s.
     let s = s\<lparr>writeCount := writeCount s + of_nat (length (toWrite ev))\<rparr> in
     bind_run (evict_upgrade (toWrite ev) s) (\<lambda>(pids, s).
     bind_run (evict_remove pids s) (\<lambda>s.
     Ret (s\<lparr>evictsHTCache := evictsHTCache s + of_nat (length (evictedHTCache ev) + length pids)\<rparr>)))))"

fun getFreePageHTCache :: "nat \<Rightarrow> PID \<Rightarrow> bm \<Rightarrow> (nat \<times> bm) run" where
  "getFreePageHTCache 0 pid s = Loop"
| "getFreePageHTCache (Suc fuel) pid s =
     (case queue_pop s (freeList s) of
        Some (x, q) \<Rightarrow>
          bind_run (trySetPresent x pid (s\<lparr>freeList := q\<rparr>)) (\<lambda>(ok, s).
            if ok then Ret (x, s) else getFreePageHTCache fuel pid s)
      | None \<Rightarrow> bind_run (evict s) (getFreePageHTCache fuel pid))"

section \<open>Allocation and faults\<close>

text \<open>
  The common step of allocation, faults and promotion: the preferred frame of the page if it
  is empty, otherwise one from the free list; and whether it is the preferred one.
\<close>

definition claim_frame :: "nat \<Rightarrow> PID \<Rightarrow> bm \<Rightarrow> ((nat \<times> bool) \<times> bm) run" where
  "claim_frame fuel pid s =
     bind_run (trySetPresent (intended s pid) pid s) (\<lambda>(ok, s).
       if ok then Ret ((intended s pid, True), s)
       else bind_run (getFreePageHTCache fuel pid s) (\<lambda>(x, s). Ret ((x, False), s)))"

definition with_page :: "nat \<Rightarrow> bool \<Rightarrow> frame \<Rightarrow> frame" where
  "with_page x inIntended bf = bf\<lparr>bpage := Some x, intendedSlot := inIntended\<rparr>"

definition allocPage :: "nat \<Rightarrow> bm \<Rightarrow> (fref \<times> bm) run" where
  "allocPage fuel s =
     (let pid = allocCount s; s = s\<lparr>allocCount := allocCount s + 1\<rparr>; hash = bm_hash s pid in
      bind_run (ht_insert (queue_pop s) pid hash (ht s)) (\<lambda>(bf, t).
      bind_run (rs_insert pid (residentSet s)) (\<lambda>rs.
      case bf of
        None \<Rightarrow> Err (Fatal ''null frame'')
      | Some r \<Rightarrow>
          let s = s\<lparr>ht := t, residentSet := rs\<rparr>;
              s = upd_bf r (with_page (intended s pid) (\<not> disablePredict (promo_cfg s))) s
          in bind_run (claim_frame fuel pid s) (\<lambda>((x, ok), s).
             let s = (if ok then s else upd_bf r (with_page x False) s) in
             bind_run (set_pid x pid s) (\<lambda>s.
             bind_run (upd_page x (\<lambda>p. p\<lparr>dirty := True, ppid := pid\<rparr>) s) (\<lambda>s.
             Ret (r, s)))))))"

definition handleFault :: "nat \<Rightarrow> PID \<Rightarrow> bm \<Rightarrow> (fref option \<times> bm) run" where
  "handleFault fuel pid s =
     (let hash = bm_hash s pid in
      bind_run (ht_insert (queue_pop s) pid hash (ht s)) (\<lambda>(bf, t).
      case bf of
        None \<Rightarrow> Ret (None, s\<lparr>ht := t\<rparr>)
      | Some r \<Rightarrow>
          bind_run (rs_insert pid (residentSet s)) (\<lambda>rs.
          let s = s\<lparr>ht := t, residentSet := rs\<rparr> in
          check (getState (bstate (bf_at s r)) = Locked) ''bf->state.getState() == PageState::Locked''
          (check (bpid (bf_at s r) = pid) ''bf->pid == pid''
            (bind_run (claim_frame fuel pid s) (\<lambda>((x, ok), s).
             let s = upd_bf r (with_page x (ok \<and> \<not> disablePredict (promo_cfg s))) s in
             bind_run (readPageToHTCache pid x s) (\<lambda>s.
             bind_run (set_pid x pid s) (\<lambda>s.
             Ret (Some r, s)))))))))"

section \<open>Fixing pages\<close>

text \<open>The loops of \<open>fixX\<close> and \<open>fixS\<close>, with fuel for their iterations.\<close>

fun fixX :: "nat \<Rightarrow> nat \<Rightarrow> PID \<Rightarrow> bm \<Rightarrow> (fref \<times> bm) run" where
  "fixX ffuel 0 pid s = Loop"
| "fixX ffuel (Suc fuel) pid s =
     bind_run (bm_access pid (bm_hash s pid) s) (\<lambda>((bf, v), s).
       case bf of
         None \<Rightarrow> bind_run (handleFault ffuel pid s) (\<lambda>(bf, s).
           case bf of None \<Rightarrow> fixX ffuel fuel pid s | Some r \<Rightarrow> Ret (r, s))
       | Some r \<Rightarrow>
           if getState v = Unlocked \<or> getState v = Marked then
             bind_run (tryLockX (bstate (bf_at s r)) v) (\<lambda>(ok, w).
               if ok then Ret (r, upd_bf r (\<lambda>bf. bf\<lparr>bstate := w\<rparr>) s) else fixX ffuel fuel pid s)
           else fixX ffuel fuel pid s)"

fun fixS :: "nat \<Rightarrow> nat \<Rightarrow> PID \<Rightarrow> bm \<Rightarrow> (fref \<times> bm) run" where
  "fixS ffuel 0 pid s = Loop"
| "fixS ffuel (Suc fuel) pid s =
     bind_run (bm_access pid (bm_hash s pid) s) (\<lambda>((bf, v), s).
       case bf of
         None \<Rightarrow> bind_run (handleFault ffuel pid s) (\<lambda>(bf, s).
           case bf of
             None \<Rightarrow> fixS ffuel fuel pid s
           | Some r \<Rightarrow> bind_run (downgradeLock (bstate (bf_at s r))) (\<lambda>w.
               Ret (r, upd_bf r (\<lambda>bf. bf\<lparr>bstate := w\<rparr>) s)))
       | Some r \<Rightarrow>
           (case tryLockS (bstate (bf_at s r)) v of
              (True, w) \<Rightarrow> Ret (r, upd_bf r (\<lambda>bf. bf\<lparr>bstate := w\<rparr>) s)
            | (False, _) \<Rightarrow> fixS ffuel fuel pid s))"

section \<open>Promotion\<close>

definition promoteLocked :: "nat \<Rightarrow> fref \<Rightarrow> bm \<Rightarrow> bm run" where
  "promoteLocked fuel r s =
     (let pid = bpid (bf_at s r); hash = bm_hash s pid; slot = intended s pid;
          finish = (\<lambda>s. bind_run (page_of s r) (\<lambda>old.
            bind_run (copy_page slot old s) (\<lambda>s.
            bind_run (set_pid old pid_none s) (\<lambda>s.
            bind_run (set_pid slot pid (enqueue_free old s)) (\<lambda>s.
            Ret (upd_bf r (with_page slot (\<not> disablePredict (promo_cfg s))) s))))))
      in bind_run (trySetPresent slot pid s) (\<lambda>(ok, s).
         if ok then finish s
         else bind_run (aget (virtMemPids s) slot) (\<lambda>pidMove.
           bind_run (bm_access pidMove hash s) (\<lambda>((bfMove, v), s).
           case bfMove of
             None \<Rightarrow> Ret s
           | Some m \<Rightarrow>
               if getState v \<noteq> Unlocked then Ret s
               else bind_run (tryLockX (bstate (bf_at s m)) v) (\<lambda>(locked, w).
                 if \<not> locked then Ret s
                 else
                   let s = upd_bf m (\<lambda>bf. bf\<lparr>bstate := w\<rparr>) s in
                   bind_run (claim_frame fuel pidMove s) (\<lambda>((new, ok), s).
                   bind_run (copy_page new slot s) (\<lambda>s.
                   bind_run (set_pid new pidMove s) (\<lambda>s.
                   bind_run (set_pid slot pid s) (\<lambda>s.
                   let s = upd_bf m (with_page new (ok \<and> \<not> disablePredict (promo_cfg s))) s in
                   bind_run (unlockX (bstate (bf_at s m))) (\<lambda>w.
                   finish (upd_bf m (\<lambda>bf. bf\<lparr>bstate := w\<rparr>) s)))))))))))"

text \<open>Whether the page in the preferred frame may be displaced: it is not in its own preferred
  frame, or the dice say so.\<close>

definition may_displace :: "nat \<Rightarrow> bm \<Rightarrow> (bool \<times> bm) run" where
  "may_displace slot s = bind_run (aget (virtMemPids s) slot) (\<lambda>replacing.
     if intended s replacing = slot then
       (case draw s of (w, s) \<Rightarrow> Ret (w AND promoteDisplaceMask (promo_cfg s) = 0, s))
     else Ret (True, s))"

fun tryPromote_loop :: "nat \<Rightarrow> nat \<Rightarrow> PID \<Rightarrow> bm \<Rightarrow> bm run" where
  "tryPromote_loop fuel 0 pid s = Ret s"
| "tryPromote_loop fuel (Suc n) pid s =
     bind_run (bm_access pid (bm_hash s pid) s) (\<lambda>((bf, v), s).
       case bf of
         None \<Rightarrow> Ret s
       | Some r \<Rightarrow>
           if getState v = Marked \<or> getState v = Unlocked then
             (if bpage (bf_at s r) = Some (intended s pid) then Ret s
              else bind_run (may_displace (intended s pid) s) (\<lambda>(may, s).
                if \<not> may then Ret s
                else bind_run (tryLockX (bstate (bf_at s r)) v) (\<lambda>(locked, w).
                  if \<not> locked then tryPromote_loop fuel n pid s
                  else
                    let s = upd_bf r (\<lambda>bf. bf\<lparr>bstate := w\<rparr>) s in
                    bind_run (aget (virtMemPids s) (intended s pid)) (\<lambda>cur.
                    bind_run (if cur = pid then Ret s else promoteLocked fuel r s) (\<lambda>s.
                    bind_run (unlockX (bstate (bf_at s r))) (\<lambda>w.
                    Ret (upd_bf r (\<lambda>bf. bf\<lparr>bstate := w\<rparr>) s)))))))
           else tryPromote_loop fuel n pid s)"

definition tryPromote :: "nat \<Rightarrow> PID \<Rightarrow> bm \<Rightarrow> bm run" where
  "tryPromote fuel pid s = tryPromote_loop fuel 100 pid s"

section \<open>Unfixing pages\<close>

text \<open>The controller's observation of an access; v3 samples with a random word.\<close>

definition bm_noteAccess :: "u32 \<Rightarrow> bool \<Rightarrow> bm \<Rightarrow> bm run" where
  "bm_noteAccess cls hit s =
     (let (w, s) = (if tpb_mode (cbp_state s) \<or> v4_mode (cbp_state s) then (0, s) else draw s) in
      bind_run (noteAccess (tid s) w cls hit (cbp_state s)) (\<lambda>c. Ret (s\<lparr>cbp_state := c\<rparr>)))"

definition bm_decideForClass :: "u32 \<Rightarrow> bm \<Rightarrow> (bool \<times> bm) run" where
  "bm_decideForClass cls s = (case draw s of (w, s) \<Rightarrow>
     bind_run (decideForClass w cls (cbp_state s)) (\<lambda>b. Ret (b, s)))"

definition bm_noteAttempt :: "u32 \<Rightarrow> bm \<Rightarrow> bm run" where
  "bm_noteAttempt cls s = bind_run (noteAttempt cls (cbp_state s)) (\<lambda>c. Ret (s\<lparr>cbp_state := c\<rparr>))"

text \<open>The byte at \<open>btreeIsLeafOffset\<close>; the header of a page takes 16 bytes.\<close>

definition leaf_byte :: "bm \<Rightarrow> nat \<Rightarrow> u8 run" where
  "leaf_byte s x = bind_run (aget (virtMem s) x) (\<lambda>p.
     let off = btreeIsLeafOffset s in
     if off = 0 then Ret (if dirty p then 1 else 0)
     else if off < 8 then Ret 0
     else if off < 16 then Ret (ucast (drop_bit (8 * (off - 8)) (ppid p)))
     else aget (body p) (off - 16))"

definition decide_perclass :: "fref \<Rightarrow> bm \<Rightarrow> (bool \<times> bm) run" where
  "decide_perclass r s = (case draw s of (w, s) \<Rightarrow>
     bind_run (page_of s r) (\<lambda>x. bind_run (leaf_byte s x) (\<lambda>b.
       Ret (w AND promoMaskForPage (promo_cfg s) b = 0, s))))"

definition unfixS :: "nat \<Rightarrow> fref \<Rightarrow> bm \<Rightarrow> bm run" where
  "unfixS fuel r s =
     (let pid = bpid (bf_at s r); cls = classOf (bm_hash s pid);
          inPreferred = (bpage (bf_at s r) = Some (intended s pid))
      in bind_run (unlockS [(bstate (bf_at s r), bstate (bf_at s r))]) (\<lambda>w.
         let s = upd_bf r (\<lambda>bf. bf\<lparr>bstate := w\<rparr>) s in
         if enabled (cbp_state s) then
           bind_run (bm_noteAccess cls inPreferred s) (\<lambda>s.
             if \<not> inPreferred \<and> isInlined r then
               bind_run (bm_decideForClass cls s) (\<lambda>(d, s).
                 if d then bind_run (bm_noteAttempt cls s) (tryPromote fuel pid) else Ret s)
             else Ret s)
         else
           bind_run (if perClassMode (promo_cfg s) then decide_perclass r s
                     else (case draw s of (w, s) \<Rightarrow> Ret (decidePromotionShared (promo_cfg s) w, s))) (\<lambda>(d, s).
             if \<not> inPreferred \<and> isInlined r \<and> d then tryPromote fuel pid s else Ret s)))"

definition unfixX :: "nat \<Rightarrow> fref \<Rightarrow> bm \<Rightarrow> bm run" where
  "unfixX fuel r s =
     (let pid = bpid (bf_at s r); cls = classOf (bm_hash s pid);
          inPreferred = (bpage (bf_at s r) = Some (intended s pid));
          unlock = (\<lambda>s. bind_run (unlockX (bstate (bf_at s r))) (\<lambda>w.
            Ret (upd_bf r (\<lambda>bf. bf\<lparr>bstate := w\<rparr>) s)))
      in bind_run (if enabled (cbp_state s) then bm_noteAccess cls inPreferred s else Ret s) (\<lambda>s.
         bind_run (if enabled (cbp_state s) then bm_decideForClass cls s
                   else if perClassMode (promo_cfg s) then decide_perclass r s
                   else (case draw s of (w, s) \<Rightarrow> Ret (decidePromotionExclusive (promo_cfg s) w, s))) (\<lambda>(d, s).
         if \<not> isInlined r \<or> inPreferred \<or> \<not> d then unlock s
         else bind_run (may_displace (intended s pid) s) (\<lambda>(may, s).
           bind_run (if may then
               bind_run (if enabled (cbp_state s) then bm_noteAttempt cls s else Ret s) (promoteLocked fuel r)
             else Ret s) unlock))))"

section \<open>Flush and clear\<close>

text \<open>\<open>flush\<close> collects the dirty pages in batches of \<open>maxIOs\<close>, oldest batch first.\<close>

type_synonym batches = "(PID \<times> nat) list list"

definition flush_collect :: "PID \<Rightarrow> bm \<times> batches \<Rightarrow> (bm \<times> batches) run" where
  "flush_collect pid = (\<lambda>(s, bs).
     bind_run (bm_access pid (bm_hash s pid) s) (\<lambda>((bf, v), s).
       case bf of
         None \<Rightarrow> Ret (s, bs)
       | Some r \<Rightarrow> bind_run (page_of s r) (\<lambda>x. bind_run (aget (virtMem s) x) (\<lambda>p.
           if \<not> dirty p then Ret (s, bs)
           else
             let bs = (if length (last bs) = maxIOs then bs @ [[]] else bs)
             in Ret (s, butlast bs @ [last bs @ [(pid, x)]])))))"

fun write_batches :: "batches \<Rightarrow> bm \<Rightarrow> bm run" where
  "write_batches [] s = Ret s"
| "write_batches (b # bs) s = bind_run (writePages b s) (write_batches bs)"

definition flush_verify :: "PID \<Rightarrow> bm \<Rightarrow> bm run" where
  "flush_verify pid s =
     bind_run (bm_access pid (bm_hash s pid) s) (\<lambda>((bf, v), s).
       case bf of
         None \<Rightarrow> Ret s
       | Some r \<Rightarrow> bind_run (page_of s r) (\<lambda>x. bind_run (aget (virtMem s) x) (\<lambda>p.
           check (\<not> dirty p) ''bf == nullptr || !bf->page->dirty'' (Ret s))))"

definition flush :: "bm \<Rightarrow> bm run" where
  "flush s =
     bind_run (iterateAll (\<lambda>(s, bs). residentSet s) flush_collect (s, [[]])) (\<lambda>(s, bs).
     bind_run (write_batches bs s) (iterateAll residentSet flush_verify))"

text \<open>
  \<open>clear\<close> reads \<open>bf->page\<close> again after \<open>ht.remove\<close>. A null page put on the free list, which
  the program would trip over when it is dequeued, is an error here at once.
\<close>

fun clear_pages :: "PID list \<Rightarrow> bm \<Rightarrow> bm run" where
  "clear_pages [] s = Ret s"
| "clear_pages (pid # pids) s =
     bind_run (bm_access pid (bm_hash s pid) s) (\<lambda>((bf, v), s).
       case bf of
         None \<Rightarrow> Err (Assertion ''bf'')
       | Some r \<Rightarrow> bind_run (page_of s r) (\<lambda>x. bind_run (set_pid x pid_none s) (\<lambda>s.
           bind_run (ht_remove pid (bm_hash s pid) (ht s)) (\<lambda>(_, t).
           bind_run (rs_remove pid (residentSet s)) (\<lambda>(_, rs).
           let s = s\<lparr>ht := t, residentSet := rs\<rparr> in
           bind_run (page_of s r) (\<lambda>y. clear_pages pids (enqueue_free y s)))))))"

definition clear :: "bm \<Rightarrow> bm run" where
  "clear s =
     bind_run (flush s) (\<lambda>s.
     bind_run (iterateAll (\<lambda>(s, pids). residentSet s) (\<lambda>pid (s, pids). Ret (s, pids @ [pid])) (s, []))
       (\<lambda>(s, pids). clear_pages pids s))"

end
