(* ===== verification/Pool_Invariant.thy ===== *)
theory Pool_Invariant
  imports Buffer_Manager
begin

text \<open>
  The invariant of the buffer pool between the steps of its operations, and what a client can
  see of a page: its content, wherever it is kept. The hash table and the resident set hold
  the same pages; a resident page owns the frame that names it; a frame without a page is in
  the free list; and a clean page is on disk as it is in memory. Operations break parts of the
  invariant for a moment: \<open>H\<close> is the set of pages that are locked and have no frame yet (or no
  more), \<open>E\<close> the set of frames reserved for a page that does not use them yet.
\<close>

section \<open>The abstract state\<close>

abbreviation res :: "bm \<Rightarrow> PID \<Rightarrow> fref option" where
  "res s \<equiv> ht_lookup (ht s)"

definition pg :: "bm \<Rightarrow> PID \<Rightarrow> nat option" where
  "pg s p = (case res s p of None \<Rightarrow> None | Some r \<Rightarrow> bpage (bf_at s r))"

definition st :: "bm \<Rightarrow> PID \<Rightarrow> u64" where
  "st s p = (case res s p of None \<Rightarrow> 0 | Some r \<Rightarrow> getState (bstate (bf_at s r)))"

abbreviation loc :: "bm \<Rightarrow> PID \<Rightarrow> u64 \<times> u64" where
  "loc s p \<equiv> getFileAndIndex (blockfds s) p"

text \<open>The content of a page, as a client sees it.\<close>

definition view :: "bm \<Rightarrow> PID \<Rightarrow> u8 list option" where
  "view s p = (if res s p = None then map_option body (disk s (loc s p))
     else map_option (\<lambda>x. body (virtMem s ! x)) (pg s p))"

section \<open>The invariant\<close>

definition tab_inv :: "nat \<Rightarrow> bm \<Rightarrow> bool" where
  "tab_inv n s \<longleftrightarrow> table_ok (queue_pop s) (n + card (dom (res s))) (ht s) \<and>
     rs_ok (residentSet s) \<and> members (residentSet s) = dom (res s) \<and>
     unat (frameCount s) < rs_room (residentSet s)"

definition frame_inv :: "PID set \<Rightarrow> nat set \<Rightarrow> bm \<Rightarrow> bool" where
  "frame_inv H E s \<longleftrightarrow> 0 < frameCount s \<and> length (virtMem s) = unat (frameCount s) \<and>
     length (virtMemPids s) = unat (frameCount s) \<and>
     (\<forall>p \<in> dom (res s) - H. \<exists>x < unat (frameCount s). pg s p = Some x \<and> virtMemPids s ! x = p) \<and>
     (\<forall>p \<in> H. p \<in> dom (res s) \<and> st s p = Locked) \<and>
     (\<forall>x < unat (frameCount s). virtMemPids s ! x \<noteq> pid_none \<longrightarrow>
        x \<in> E \<or> virtMemPids s ! x \<in> dom (res s) - H \<and> pg s (virtMemPids s ! x) = Some x) \<and>
     (\<forall>x < unat (frameCount s). virtMemPids s ! x = pid_none \<longrightarrow> x \<in> set (freeList s)) \<and>
     set (freeList s) \<subseteq> {..< unat (frameCount s)}"

definition disk_inv :: "PID set \<Rightarrow> bm \<Rightarrow> bool" where
  "disk_inv H s \<longleftrightarrow> 0 < blockfds s \<and> (\<forall>n. io_submit s n = n) \<and>
     (\<forall>l q. disk s l = Some q \<longrightarrow> \<not> dirty q) \<and>
     (\<forall>p \<in> dom (res s) - H. \<forall>x. pg s p = Some x \<longrightarrow> \<not> dirty (virtMem s ! x) \<longrightarrow>
        map_option body (disk s (loc s p)) = Some (body (virtMem s ! x)))"

definition pool_inv :: "nat \<Rightarrow> PID set \<Rightarrow> nat set \<Rightarrow> bm \<Rightarrow> bool" where
  "pool_inv n H E s \<longleftrightarrow> tab_inv n s \<and> frame_inv H E s \<and> disk_inv H s"

text \<open>What no operation changes.\<close>

definition env :: "bm \<Rightarrow> u64 \<times> u64 \<times> u64 \<times> (nat list \<Rightarrow> (nat \<times> nat list) option) \<times> (nat \<Rightarrow> nat) \<times> nat" where
  "env s = (frameCount s, batch s, blockfds s, queue_pop s, io_submit s, rs_room (residentSet s))"

lemma env_eqD:
  assumes "env s' = env s"
  shows "frameCount s' = frameCount s" "batch s' = batch s" "blockfds s' = blockfds s"
    "queue_pop s' = queue_pop s" "io_submit s' = io_submit s"
    "rs_room (residentSet s') = rs_room (residentSet s)"
    "intended s' p = intended s p" "bm_hash s' p = bm_hash s p"
  using assms by (simp_all add: env_def intended_def bm_hash_def)

section \<open>Places on disk\<close>

lemma loc_inj: "0 < n \<Longrightarrow> getFileAndIndex n p = getFileAndIndex n q \<longleftrightarrow> p = q"
  unfolding getFileAndIndex_def by (metis prod.inject div_mult_mod_eq)

section \<open>Reading the hash table\<close>

lemma tab_invD:
  assumes "tab_inv n s"
  shows "table_ok (queue_pop s) (n + card (dom (res s))) (ht s)" "finite (dom (res s))"
    "members (residentSet s) = dom (res s)" "rs_ok (residentSet s)"
    "p \<in> dom (res s) \<Longrightarrow> real_pid p"
  using assms members_finite(1) [of "residentSet s"] by (auto simp: tab_inv_def members_def)

lemma real_pid_none: "real_pid p \<Longrightarrow> p \<noteq> pid_none"
  by (simp add: real_pid_def)

lemma res_none [simp]: "res s pid_none = None"
  by simp

lemma pg_st_Some: "res s p = Some r \<Longrightarrow> pg s p = bpage (bf_at s r) \<and> st s p = getState (bstate (bf_at s r))"
  by (simp add: pg_def st_def)

lemma bf_pid: "tab_inv n s \<Longrightarrow> res s p = Some r \<Longrightarrow> bpid (bf_at s r) = p"
  unfolding bf_at_def using pt.look_pid tab_invD(1) by blast

lemma access_res:
  assumes "tab_inv n s" and "p \<noteq> pid_none"
  shows "ht_access move w p (bm_hash s p) (ht s) =
    Ret (case res s p of None \<Rightarrow> (None, 0) | Some r \<Rightarrow> (Some r, bstate (bf_at s r)), ht s)"
  unfolding bm_hash_def bf_at_def by (rule pt.acc_law [OF tab_invD(1) [OF assms(1)] assms(2)])

text \<open>\<open>access\<close> returns the frame and leaves all but the generator as it was; the same holds for the
  outcome of a weak compare-and-swap.\<close>

definition same_but_rng :: "bm \<Rightarrow> bm \<Rightarrow> bool" where
  "same_but_rng s s' \<longleftrightarrow> (\<exists>g w. s' = s\<lparr>rng := g, weak_fails := w\<rparr>)"

lemma bm_access_res:
  assumes "tab_inv n s" and "p \<noteq> pid_none"
  shows "\<exists>s'. bm_access p (bm_hash s p) s =
      Ret (case res s p of None \<Rightarrow> (None, 0) | Some r \<Rightarrow> (Some r, bstate (bf_at s r)), s') \<and> same_but_rng s s'"
proof -
  define w where "w = fst (xs_rnd (rng_seed s) (rng s))"
  define g where "g = snd (xs_rnd (rng_seed s) (rng s))"
  have d: "draw s = (w, s\<lparr>rng := g\<rparr>)" by (simp add: draw_def case_prod_beta w_def g_def)
  let ?x = "case res s p of None \<Rightarrow> (None, 0) | Some r \<Rightarrow> (Some r, bstate (bf_at s r))"
  let ?i = "unat (ht_index (hcount (ht s)) (bm_hash s p))"
  let ?b = "res s p \<noteq> None \<and> res s p \<noteq> Some (Head ?i) \<and> bpid (ebf (head (table (ht s) ! ?i))) = pid_none"
  have "bm_access p (bm_hash s p) s = Ret (?x, (if ?b then s\<lparr>rng := g\<rparr> else s)\<lparr>ht := ht s\<rparr>)"
    using access_res [OF assms, of True w] by (cases "res s p") (simp_all add: bm_access_def d Let_def)
  moreover have "same_but_rng s ((if b then s\<lparr>rng := g\<rparr> else s)\<lparr>ht := ht s\<rparr>)" for b
    unfolding same_but_rng_def
    by (rule exI [of _ "if b then g else rng s"], rule exI [of _ "weak_fails s"]) simp
  ultimately show ?thesis by blast
qed

lemma same_but_rng_inv:
  assumes "same_but_rng s s'"
  shows "tab_inv n s' = tab_inv n s" "frame_inv H E s' = frame_inv H E s" "disk_inv H s' = disk_inv H s"
    "pool_inv n H E s' = pool_inv n H E s" "view s' = view s" "env s' = env s" "ht s' = ht s"
    "bf_at s' = bf_at s" "pg s' = pg s" "st s' = st s" "virtMem s' = virtMem s" "virtMemPids s' = virtMemPids s"
    "disk s' = disk s"
proof -
  obtain g w where s': "s' = s\<lparr>rng := g, weak_fails := w\<rparr>" using assms unfolding same_but_rng_def by blast
  let ?s = "s\<lparr>rng := g, weak_fails := w\<rparr>"
  have b: "bf_at ?s = bf_at s" by (simp add: bf_at_def fun_eq_iff)
  have p: "pg ?s = pg s" "st ?s = st s" by (simp_all add: pg_def st_def b fun_eq_iff split: option.split)
  show "bf_at s' = bf_at s" "pg s' = pg s" "st s' = st s" unfolding s' by (rule b p)+
  show t: "tab_inv n s' = tab_inv n s" by (simp add: tab_inv_def s')
  show f: "frame_inv H E s' = frame_inv H E s" by (simp add: frame_inv_def p s')
  show d: "disk_inv H s' = disk_inv H s" by (simp add: disk_inv_def p s')
  show "pool_inv n H E s' = pool_inv n H E s" by (simp add: pool_inv_def t f d)
  show "view s' = view s" by (simp add: view_def p s' fun_eq_iff)
qed (use assms in \<open>auto simp: same_but_rng_def env_def\<close>)

lemma next_weak_same: "same_but_rng s (snd (next_weak s))"
proof -
  have "\<exists>w. snd (next_weak s) = s\<lparr>rng := rng s, weak_fails := w\<rparr>"
  proof (cases "weak_fails s")
    case Nil
    then show ?thesis by (intro exI [of _ "[]"]) (simp add: next_weak_def)
  next
    case (Cons w ws)
    then show ?thesis by (intro exI [of _ ws]) (simp add: next_weak_def)
  qed
  then show ?thesis unfolding same_but_rng_def by blast
qed

lemma draw_same: "same_but_rng s (snd (draw s))"
proof -
  have "snd (draw s) = s\<lparr>rng := snd (xs_rnd (rng_seed s) (rng s)), weak_fails := weak_fails s\<rparr>"
    by (simp add: draw_def case_prod_beta)
  then show ?thesis unfolding same_but_rng_def by blast
qed

lemma same_but_rng_refl: "same_but_rng s s"
proof -
  have "s = s\<lparr>rng := rng s, weak_fails := weak_fails s\<rparr>" by simp
  then show ?thesis unfolding same_but_rng_def by blast
qed

section \<open>Changing a frame\<close>

lemma upd_bf_sel [simp]:
  "frameCount (upd_bf r g s) = frameCount s" "residentSet (upd_bf r g s) = residentSet s"
  "virtMem (upd_bf r g s) = virtMem s" "virtMemPids (upd_bf r g s) = virtMemPids s"
  "batch (upd_bf r g s) = batch s" "freeList (upd_bf r g s) = freeList s"
  "blockfds (upd_bf r g s) = blockfds s" "disk (upd_bf r g s) = disk s"
  "queue_pop (upd_bf r g s) = queue_pop s" "io_submit (upd_bf r g s) = io_submit s"
  "ht (upd_bf r g s) = upd_frame r g (ht s)" "allocCount (upd_bf r g s) = allocCount s"
  "promo_cfg (upd_bf r g s) = promo_cfg s" "cbp_state (upd_bf r g s) = cbp_state s"
  "env (upd_bf r g s) = env s" "bm_hash (upd_bf r g s) = bm_hash s" "intended (upd_bf r g s) = intended s"
  by (simp_all add: upd_bf_def env_def bm_hash_def intended_def fun_eq_iff)

lemma upd_bf_facts:
  fixes g :: "frame \<Rightarrow> frame"
  assumes t: "tab_inv n s" and p: "res s p = Some r" and g: "bpid (g (bf_at s r)) = bpid (bf_at s r)"
  shows "tab_inv n (upd_bf r g s)" "res (upd_bf r g s) = res s"
    "bf_at (upd_bf r g s) r = g (bf_at s r)"
    "res s q = Some r' \<Longrightarrow> q \<noteq> p \<Longrightarrow> bf_at (upd_bf r g s) r' = bf_at s r'"
    "pg (upd_bf r g s) q = (if q = p then bpage (g (bf_at s r)) else pg s q)"
    "st (upd_bf r g s) q = (if q = p then getState (bstate (g (bf_at s r))) else st s q)"
proof -
  have u: "table_ok (queue_pop s) (n + card (dom (res s))) (upd_frame r g (ht s)) \<and>
      ht_lookup (upd_frame r g (ht s)) = res s \<and>
      (\<forall>x. frame_at (upd_frame r g (ht s)) x = (if x = r then g (frame_at (ht s) r) else frame_at (ht s) x))"
    by (rule pt.upd_law [OF tab_invD(1) [OF t] p]) (use g in \<open>simp add: bf_at_def\<close>)
  then show "tab_inv n (upd_bf r g s)" using t by (simp add: tab_inv_def)
  show rs: "res (upd_bf r g s) = res s" using u by simp
  show fr: "bf_at (upd_bf r g s) r = g (bf_at s r)" using u by (simp add: bf_at_def)
  show oth: "res s q = Some r' \<Longrightarrow> q \<noteq> p \<Longrightarrow> bf_at (upd_bf r g s) r' = bf_at s r'" for q r'
    using u pt.look_inj [OF tab_invD(1) [OF t] p] by (auto simp: bf_at_def)
  show "pg (upd_bf r g s) q = (if q = p then bpage (g (bf_at s r)) else pg s q)"
    using rs fr oth p by (auto simp: pg_def split: option.split)
  show "st (upd_bf r g s) q = (if q = p then getState (bstate (g (bf_at s r))) else st s q)"
    using rs fr oth p by (auto simp: st_def split: option.split)
qed

text \<open>A change of the page state alone, on a page that is not held.\<close>

lemma upd_state_inv:
  assumes inv: "pool_inv n H E s" and p: "res s p = Some r" and h: "p \<in> H \<Longrightarrow> getState w = Locked"
  defines "s' \<equiv> upd_bf r (\<lambda>bf. bf\<lparr>bstate := w\<rparr>) s"
  shows "pool_inv n H E s'" "view s' = view s" "res s' = res s" "pg s' = pg s"
    "st s' q = (if q = p then getState w else st s q)" "tab_inv n s'"
    "\<And>q x. res s q = Some x \<Longrightarrow> bpage (bf_at s' x) = bpage (bf_at s x)" "bstate (bf_at s' r) = w"
proof -
  have t: "tab_inv n s" using inv by (simp add: pool_inv_def)
  have "bpid ((\<lambda>bf. bf\<lparr>bstate := w\<rparr>) (bf_at s r)) = bpid (bf_at s r)" by simp
  note F = upd_bf_facts [where g = "\<lambda>bf. bf\<lparr>bstate := w\<rparr>", OF t p this, folded s'_def]
  show rs: "res s' = res s" by (rule F(2))
  show pgs: "pg s' = pg s" using F(5) pg_st_Some [OF p] by (simp add: fun_eq_iff)
  show sts: "st s' q = (if q = p then getState w else st s q)" for q using F(6) by simp
  show "tab_inv n s'" by (rule F(1))
  then show "pool_inv n H E s'"
    using inv h by (simp add: pool_inv_def frame_inv_def disk_inv_def pgs rs sts) (simp add: s'_def)
  show "view s' = view s" by (simp add: view_def rs pgs fun_eq_iff) (simp add: s'_def)
  show "\<And>q x. res s q = Some x \<Longrightarrow> bpage (bf_at s' x) = bpage (bf_at s x)" using pgs rs by (metis pg_st_Some)
  show "bstate (bf_at s' r) = w" using F(3) by simp
qed

end
