(* ===== verification/Eviction.thy ===== *)
theory Eviction
  imports Pool_Invariant
begin

text \<open>
  Correctness of \<open>BufferManager::evict\<close> and of the batch writer: eviction keeps the invariant
  of the pool and the content of every page, and does not touch the pages that clients hold.
\<close>

section \<open>Taking a page out of the table and of the resident set\<close>

lemma drop_page:
  assumes t: "tab_inv n s" and p: "res s p = Some r" and l: "st s p = Locked"
  shows "\<exists>rs tb. rs_remove p (residentSet s) = Ret (True, rs) \<and> ht_remove p (bm_hash s p) (ht s) = Ret (True, tb) \<and>
    (let s1 = s\<lparr>residentSet := rs, ht := tb\<rparr> in
      tab_inv n s1 \<and> res s1 = (res s)(p := None) \<and> env s1 = env s \<and>
      (\<forall>q. q \<noteq> p \<longrightarrow> pg s1 q = pg s q \<and> st s1 q = st s q) \<and>
      (\<forall>q x. q \<noteq> p \<longrightarrow> res s q = Some x \<longrightarrow> bf_at s1 x = bf_at s x))"
proof -
  note T = tab_invD [OF t]
  have pin: "p \<in> dom (res s)" using p by blast
  from rs.rem_law [OF T(4), of p] obtain rs where rs: "rs_remove p (residentSet s) = Ret (True, rs)"
    "rs_ok rs" "members rs = dom (res s) - {p}" "rs_room rs = rs_room (residentSet s)"
    using pin T(3) by auto
  have "n + card (dom (res s)) = Suc (n + card (dom (res s) - {p}))"
    using card_Suc_Diff1 [OF T(2) pin] by simp
  then have ok: "table_ok (queue_pop s) (Suc (n + card (dom (res s) - {p}))) (ht s)" using T(1) by simp
  have "getState (bstate (frame_at (ht s) r)) = Locked" using l pg_st_Some [OF p] by (simp add: bf_at_def)
  from pt.rem_present [OF ok p this, of "frameCount s"] obtain tb where
    tb: "ht_remove p (bm_hash s p) (ht s) = Ret (True, tb)" "table_ok (queue_pop s) (n + card (dom (res s) - {p})) tb"
      "ht_lookup tb = (res s)(p := None)"
      "\<forall>q x. q \<noteq> p \<longrightarrow> res s q = Some x \<longrightarrow> frame_at tb x = frame_at (ht s) x"
    by (auto simp: bm_hash_def)
  define s1 where "s1 = s\<lparr>residentSet := rs, ht := tb\<rparr>"
  have r1: "res s1 = (res s)(p := None)" by (simp add: s1_def tb(3))
  have b1: "\<forall>q x. q \<noteq> p \<longrightarrow> res s q = Some x \<longrightarrow> bf_at s1 x = bf_at s x"
    using tb(4) by (simp add: bf_at_def s1_def)
  have "tab_inv n s1"
    using tb rs t by (simp add: tab_inv_def s1_def)
  moreover have "env s1 = env s" using rs(4) by (simp add: env_def s1_def)
  moreover have "\<forall>q. q \<noteq> p \<longrightarrow> pg s1 q = pg s q \<and> st s1 q = st s q"
    using r1 b1 by (auto simp: pg_def st_def split: option.split)
  ultimately have "tab_inv n s1 \<and> res s1 = (res s)(p := None) \<and> env s1 = env s \<and>
      (\<forall>q. q \<noteq> p \<longrightarrow> pg s1 q = pg s q \<and> st s1 q = st s q) \<and>
      (\<forall>q x. q \<noteq> p \<longrightarrow> res s q = Some x \<longrightarrow> bf_at s1 x = bf_at s x)" using r1 b1 by blast
  then show ?thesis using rs(1) tb(1) unfolding s1_def Let_def by blast
qed

section \<open>Pages that clients hold\<close>

definition pinned :: "bm \<Rightarrow> PID set" where
  "pinned s = {p \<in> dom (res s). st s p \<noteq> Unlocked \<and> st s p \<noteq> Marked}"

text \<open>The pages of \<open>K\<close> are in their frames of \<open>s0\<close>, which have not changed; eviction skips them.\<close>

definition held :: "PID set \<Rightarrow> bm \<Rightarrow> bm \<Rightarrow> bool" where
  "held K s0 s \<longleftrightarrow> (\<forall>q \<in> K. \<exists>r. res s0 q = Some r \<and> res s q = Some r \<and> bf_at s r = bf_at s0 r \<and>
     st s q \<noteq> Unlocked \<and> st s q \<noteq> Marked)"

lemma heldI_other:
  assumes "held K s0 s" and "p \<notin> K" and "\<And>q x. q \<noteq> p \<Longrightarrow> res s q = Some x \<Longrightarrow> res s' q = Some x \<and> bf_at s' x = bf_at s x"
  shows "held K s0 s'"
  unfolding held_def
proof
  fix q assume q: "q \<in> K"
  then obtain r where r: "res s0 q = Some r" "res s q = Some r" "bf_at s r = bf_at s0 r"
    "st s q \<noteq> Unlocked" "st s q \<noteq> Marked" using assms(1) by (auto simp: held_def)
  have "q \<noteq> p" using q assms(2) by blast
  then have "res s' q = Some r" "bf_at s' r = bf_at s r" using assms(3) r(2) by blast+
  then show "\<exists>r. res s0 q = Some r \<and> res s' q = Some r \<and> bf_at s' r = bf_at s0 r \<and> st s' q \<noteq> Unlocked \<and> st s' q \<noteq> Marked"
    using r pg_st_Some [of s] pg_st_Some [of s'] by auto
qed

lemma held_upd:
  assumes "held K s0 s" and t: "tab_inv n s" and p: "res s p = Some r" "p \<notin> K"
    and g: "bpid (g (bf_at s r)) = bpid (bf_at s r)"
  shows "held K s0 (upd_bf r g s)"
  by (rule heldI_other [OF assms(1) p(2)]) (use upd_bf_facts [where g = g, OF t p(1) g] in auto)

section \<open>Evicting a clean page\<close>

lemma frame_invD:
  assumes "frame_inv H E s"
  shows "length (virtMem s) = unat (frameCount s)" "length (virtMemPids s) = unat (frameCount s)"
    "p \<in> dom (res s) \<Longrightarrow> p \<notin> H \<Longrightarrow> \<exists>x < unat (frameCount s). pg s p = Some x \<and> virtMemPids s ! x = p"
    "p \<in> H \<Longrightarrow> p \<in> dom (res s) \<and> st s p = Locked"
    "x < unat (frameCount s) \<Longrightarrow> virtMemPids s ! x \<noteq> pid_none \<Longrightarrow>
       x \<in> E \<or> virtMemPids s ! x \<in> dom (res s) - H \<and> pg s (virtMemPids s ! x) = Some x"
    "x < unat (frameCount s) \<Longrightarrow> virtMemPids s ! x = pid_none \<Longrightarrow> x \<in> set (freeList s)"
    "set (freeList s) \<subseteq> {..< unat (frameCount s)}" "0 < frameCount s"
  using assms by (simp_all add: frame_inv_def)

lemma owned_slot:
  assumes "frame_inv H E s" and "res s p = Some r" and "p \<notin> H"
  obtains x where "x < unat (frameCount s)" "pg s p = Some x" "bpage (bf_at s r) = Some x" "virtMemPids s ! x = p"
    "x < length (virtMem s)" "x < length (virtMemPids s)"
proof -
  have "p \<in> dom (res s)" using assms(2) by blast
  then obtain x where "x < unat (frameCount s)" "pg s p = Some x" "virtMemPids s ! x = p"
    using frame_invD(3) [OF assms(1)] assms(3) by blast
  then show thesis using that frame_invD(1,2) [OF assms(1)] pg_st_Some [OF assms(2)] by simp
qed

lemma page_of_owned: "bpage (bf_at s r) = Some x \<Longrightarrow> page_of s r = Ret x"
  by (simp add: page_of_def)

text \<open>The frame of a page is given back: it carries no page id any more and is in the free list.\<close>

definition give_back :: "nat \<Rightarrow> bm \<Rightarrow> bm" where
  "give_back x s = s\<lparr>virtMemPids := (virtMemPids s)[x := pid_none], freeList := freeList s @ [x]\<rparr>"

lemma give_back_sel [simp]:
  "ht (give_back x s) = ht s" "residentSet (give_back x s) = residentSet s" "virtMem (give_back x s) = virtMem s"
  "frameCount (give_back x s) = frameCount s" "disk (give_back x s) = disk s" "blockfds (give_back x s) = blockfds s"
  "env (give_back x s) = env s" "bf_at (give_back x s) = bf_at s" "pg (give_back x s) = pg s" "st (give_back x s) = st s"
  "view (give_back x s) = view s" "batch (give_back x s) = batch s" "queue_pop (give_back x s) = queue_pop s"
  "io_submit (give_back x s) = io_submit s" "virtMemPids (give_back x s) = (virtMemPids s)[x := pid_none]"
  "freeList (give_back x s) = freeList s @ [x]" "tab_inv n (give_back x s) = tab_inv n s"
  by (simp_all add: give_back_def env_def bf_at_def pg_def st_def view_def tab_inv_def fun_eq_iff cong: option.case_cong)

lemma set_pid_give_back:
  "x < length (virtMemPids s) \<Longrightarrow> bind_run (set_pid x pid_none s) (\<lambda>s. Ret (enqueue_free x s)) = Ret (give_back x s)"
  by (simp add: set_pid_def enqueue_free_def give_back_def)

lemma frame_inv_give_back:
  assumes f: "frame_inv H E s" and x: "x < unat (frameCount s)" "virtMemPids s ! x = p" "p \<notin> H" "p \<noteq> pid_none"
    and d: "dom (res s') = dom (res s) - {p} \<and> H' = H \<or> dom (res s') = dom (res s) \<and> H' = insert p H \<and> st s' p = Locked \<and> p \<in> dom (res s)"
    and same: "\<And>q. q \<noteq> p \<Longrightarrow> pg s' q = pg s q \<and> st s' q = st s q" and pgp: "pg s p = Some x"
    and arr: "virtMemPids s' = (virtMemPids s)[x := pid_none]" "freeList s' = freeList s @ [x]"
      "virtMem s' = virtMem s" "frameCount s' = frameCount s"
  shows "frame_inv H' E s'"
proof -
  note F = frame_invD [OF f]
  have sub: "dom (res s') - H' \<subseteq> dom (res s) - insert p H" "dom (res s) - insert p H \<subseteq> dom (res s') - H'" using d by auto
  have "\<exists>y < unat (frameCount s). pg s' q = Some y \<and> virtMemPids s' ! y = q" if q: "q \<in> dom (res s') - H'" for q
  proof -
    have q': "q \<in> dom (res s)" "q \<notin> H" "q \<noteq> p" using q sub(1) by auto
    then obtain y where y: "y < unat (frameCount s)" "pg s q = Some y" "virtMemPids s ! y = q" using F(3) by blast
    then have "y \<noteq> x" using x(2) q'(3) by auto
    then show ?thesis using y same q'(3) by (auto simp: arr)
  qed
  moreover have "q \<in> dom (res s') \<and> st s' q = Locked" if q: "q \<in> H'" for q
  proof (cases "q = p")
    case True
    then show ?thesis using q d x(3) by auto
  next
    case False
    then show ?thesis using q d F(4) [of q] same by auto
  qed
  moreover have "y \<in> E \<or> virtMemPids s' ! y \<in> dom (res s') - H' \<and> pg s' (virtMemPids s' ! y) = Some y"
    if y: "y < unat (frameCount s)" "virtMemPids s' ! y \<noteq> pid_none" for y
  proof -
    have yx: "y \<noteq> x" using y F(2) by (auto simp: arr)
    then have yx: "y \<noteq> x" "virtMemPids s' ! y = virtMemPids s ! y" by (simp_all add: arr)
    have "virtMemPids s ! y \<noteq> p" if "y \<notin> E"
      using F(5) [OF y(1)] y(2) yx that pgp by auto
    then show ?thesis using F(5) [OF y(1)] y(2) yx same sub(2) by auto
  qed
  moreover have "y \<in> set (freeList s')" if "y < unat (frameCount s)" "virtMemPids s' ! y = pid_none" for y
    using that F(6) [of y] by (cases "y = x") (simp_all add: arr)
  moreover have "set (freeList s') \<subseteq> {..< unat (frameCount s)}" using F(7) x(1) by (simp add: arr)
  ultimately show ?thesis
    using F(1,2,8) by (simp add: frame_inv_def arr(3,4)) (simp add: arr)
qed


lemma disk_inv_sub:
  assumes "disk_inv H s" and "dom (res s') - H' \<subseteq> dom (res s) - H"
    and "\<And>q. q \<in> dom (res s') - H' \<Longrightarrow> pg s' q = pg s q"
    and "virtMem s' = virtMem s" "disk s' = disk s" "blockfds s' = blockfds s" "io_submit s' = io_submit s"
  shows "disk_inv H' s'"
proof -
  have "map_option body (disk s (loc s p)) = Some (body (virtMem s ! x))"
    if p: "p \<in> dom (res s') - H'" "pg s' p = Some x" "\<not> dirty (virtMem s ! x)" for p x
  proof -
    have "p \<in> dom (res s) - H" "pg s p = Some x" using assms(2,3) p(1,2) by auto
    then show ?thesis using assms(1) p(3) unfolding disk_inv_def by blast
  qed
  moreover have "0 < blockfds s \<and> (\<forall>n. io_submit s n = n) \<and> (\<forall>l q. disk s l = Some q \<longrightarrow> \<not> dirty q)"
    using assms(1) unfolding disk_inv_def by blast
  ultimately show ?thesis unfolding disk_inv_def assms(4-) by blast
qed

lemma disk_invD:
  assumes "disk_inv H s"
  shows "p \<in> dom (res s) \<Longrightarrow> p \<notin> H \<Longrightarrow> pg s p = Some x \<Longrightarrow> \<not> dirty (virtMem s ! x) \<Longrightarrow>
      map_option body (disk s (loc s p)) = Some (body (virtMem s ! x))"
    and "0 < blockfds s" "io_submit s n = n" "disk s l = Some q \<Longrightarrow> \<not> dirty q"
  using assms unfolding disk_inv_def by blast+

lemma evict_clean_ok:
  assumes inv: "pool_inv n H E s" and p: "res s p = Some r" "p \<notin> H" "st s p = Locked"
    and x: "pg s p = Some x" "\<not> dirty (virtMem s ! x)"
  shows "\<exists>s'. evict_clean p (bm_hash s p) x s = Ret s' \<and> pool_inv n H E s' \<and> view s' = view s \<and> env s' = env s \<and>
    res s' = (res s)(p := None) \<and> (\<forall>q. q \<noteq> p \<longrightarrow> pg s' q = pg s q \<and> st s' q = st s q) \<and>
    (\<forall>q y. q \<noteq> p \<longrightarrow> res s q = Some y \<longrightarrow> bf_at s' y = bf_at s y) \<and> disk s' = disk s"
proof -
  have I: "tab_inv n s" "frame_inv H E s" "disk_inv H s" using inv by (simp_all add: pool_inv_def)
  obtain x' where own: "x' < unat (frameCount s)" "pg s p = Some x'" "virtMemPids s ! x' = p" "x' < length (virtMemPids s)"
    using owned_slot [OF I(2) p(1,2)] by blast
  then have xx: "x < unat (frameCount s)" "virtMemPids s ! x = p" "x < length (virtMemPids s)" using x(1) by auto
  have pin: "p \<in> dom (res s)" using p(1) by blast
  have p0: "p \<noteq> pid_none" using tab_invD(5) [OF I(1) pin] by (rule real_pid_none)
  obtain rs tb where d: "rs_remove p (residentSet s) = Ret (True, rs)" "ht_remove p (bm_hash s p) (ht s) = Ret (True, tb)"
    and s1: "let s1 = s\<lparr>residentSet := rs, ht := tb\<rparr> in
      tab_inv n s1 \<and> res s1 = (res s)(p := None) \<and> env s1 = env s \<and>
      (\<forall>q. q \<noteq> p \<longrightarrow> pg s1 q = pg s q \<and> st s1 q = st s q) \<and>
      (\<forall>q x. q \<noteq> p \<longrightarrow> res s q = Some x \<longrightarrow> bf_at s1 x = bf_at s x)"
    using drop_page [OF I(1) p(1,3)] by blast
  define s1 where "s1 = s\<lparr>residentSet := rs, ht := tb\<rparr>"
  define s' where "s' = give_back x s1"
  note S1 = s1 [unfolded Let_def, folded s1_def]
  have sel: "virtMem s1 = virtMem s" "virtMemPids s1 = virtMemPids s" "frameCount s1 = frameCount s"
    "freeList s1 = freeList s" "disk s1 = disk s" "blockfds s1 = blockfds s" "io_submit s1 = io_submit s"
    by (simp_all add: s1_def)
  have "bind_run (set_pid x pid_none s1) (\<lambda>s. Ret (enqueue_free x s)) = Ret s'"
    unfolding s'_def by (rule set_pid_give_back) (use xx(3) sel in simp)
  then have ret: "evict_clean p (bm_hash s p) x s = Ret s'"
    using d by (simp add: evict_clean_def flip: s1_def)
  have r': "res s' = (res s)(p := None)" using S1 by (simp add: s'_def)
  have f: "frame_inv H E s'"
    by (rule frame_inv_give_back [where p = p and x = x, OF I(2) xx(1,2) p(2) p0])
      (use S1 x(1) sel in \<open>auto simp: s'_def\<close>)
  have d': "disk_inv H s'"
    by (rule disk_inv_sub [OF I(3)]) (use S1 sel in \<open>auto simp: s'_def\<close>)
  have "view s' q = view s q" for q
  proof (cases "q = p")
    case True
    then show ?thesis using disk_invD(1) [OF I(3) pin p(2) x] r' p(1) x(1) sel by (simp add: view_def s'_def)
  next
    case False
    then have "res s' q = res s q" "pg s' q = pg s q" using S1 by (simp_all add: s'_def)
    then show ?thesis using sel by (simp add: view_def s'_def)
  qed
  then have "view s' = view s" by blast
  then show ?thesis using ret f d' S1 r' sel unfolding pool_inv_def by (simp add: s'_def)
qed

section \<open>Visiting a page\<close>

definition ev_inv :: "PID set \<Rightarrow> bm \<Rightarrow> evicting \<Rightarrow> bool" where
  "ev_inv H s ev \<longleftrightarrow> length (toWrite ev) \<le> unat (evicted ev) \<and> distinct (map fst (toWrite ev)) \<and>
     (\<forall>(p, x, r) \<in> set (toWrite ev). p \<notin> H \<and> res s p = Some r \<and> pg s p = Some x \<and> st s p = 1)"

lemma ev_inv_other:
  assumes "ev_inv H s ev" and "\<And>q. q \<in> fst ` set (toWrite ev) \<Longrightarrow> res s' q = res s q \<and> pg s' q = pg s q \<and> st s' q = st s q"
  shows "ev_inv H s' ev"
  using assms by (force simp: ev_inv_def)

text \<open>Only the pages of \<open>K\<close> and those to be written are locked.\<close>

definition loose :: "PID set \<Rightarrow> bm \<Rightarrow> evicting \<Rightarrow> bool" where
  "loose K s ev \<longleftrightarrow> pinned s \<subseteq> K \<union> fst ` set (toWrite ev)"

lemma loose_drop: "loose K s ev \<Longrightarrow> pinned s' \<subseteq> insert p (pinned s) \<Longrightarrow> toWrite ev' = toWrite ev \<Longrightarrow> p \<notin> pinned s' \<Longrightarrow> loose K s' ev'"
  by (auto simp: loose_def)

lemma pinned_state:
  assumes "res s' = res s" and "\<And>q. st s' q = (if q = p then w else st s q)"
  shows "pinned s' \<subseteq> insert p (pinned s)" and "w = Unlocked \<or> w = Marked \<Longrightarrow> p \<notin> pinned s'"
  using assms by (auto simp: pinned_def split: if_splits)

definition visit_inv :: "nat \<Rightarrow> PID set \<Rightarrow> nat set \<Rightarrow> PID set \<Rightarrow> bm \<Rightarrow> bm \<Rightarrow> evicting \<Rightarrow> bool" where
  "visit_inv n H E K s0 s ev \<longleftrightarrow> pool_inv n H E s \<and> ev_inv H s ev \<and> held K s0 s \<and> view s = view s0 \<and>
     env s = env s0 \<and> disk s = disk s0 \<and> (\<forall>q \<in> K. q \<notin> fst ` set (toWrite ev))"

lemma visit_invD:
  assumes "visit_inv n H E K s0 s ev"
  shows "pool_inv n H E s" "tab_inv n s" "frame_inv H E s" "ev_inv H s ev" "held K s0 s" "env s = env s0"
  using assms by (simp_all add: visit_inv_def pool_inv_def)

text \<open>A page that can be marked or taken is neither held, nor without a frame, nor to be written.\<close>

lemma visitable:
  assumes v: "visit_inv n H E K s0 s ev" and p: "res s p = Some r" and s: "st s p = Unlocked \<or> st s p = Marked"
  shows "p \<notin> H" "p \<notin> K" "p \<notin> fst ` set (toWrite ev)"
proof -
  show "p \<notin> H" using frame_invD(4) [OF visit_invD(3) [OF v], of p] s by auto
  show "p \<notin> K" using visit_invD(5) [OF v] s by (auto simp: held_def)
  show "p \<notin> fst ` set (toWrite ev)"
    using visit_invD(4) [OF v] s by (auto simp: ev_inv_def)
qed

lemma visit_state:
  fixes w :: u64
  assumes v: "visit_inv n H E K s0 s ev" and p: "res s p = Some r" "p \<notin> H" "p \<notin> K" "p \<notin> fst ` set (toWrite ev)"
  defines "s' \<equiv> upd_bf r (\<lambda>bf. bf\<lparr>bstate := w\<rparr>) s"
  shows "visit_inv n H E K s0 s' ev"
proof -
  note D = visit_invD [OF v]
  note U = upd_state_inv [where w = w, OF D(1) p(1), folded s'_def]
  have "held K s0 s'" unfolding s'_def by (rule held_upd [OF D(5,2) p(1,3)]) simp
  moreover have "ev_inv H s' ev"
    by (rule ev_inv_other [OF D(4)]) (use U p in auto)
  ultimately show ?thesis using v U p(2) by (simp add: visit_inv_def) (simp add: s'_def)
qed

lemma visit_weak:
  assumes "visit_inv n H E K s0 s ev" and "same_but_rng s s'"
  shows "visit_inv n H E K s0 s' ev"
proof -
  note R = same_but_rng_inv [OF assms(2)]
  show ?thesis using assms(1) by (simp add: visit_inv_def R ev_inv_def held_def)
qed

lemma visit_evicted:
  assumes "visit_inv n H E K s0 s ev" and "unat (evicted ev) + 1 < 2 ^ 64"
  shows "visit_inv n H E K s0 s (ev\<lparr>evicted := evicted ev + 1\<rparr>)"
    and "unat (evicted ev + 1) = unat (evicted ev) + 1"
proof -
  show "unat (evicted ev + 1) = unat (evicted ev) + 1" using assms(2) by (simp add: unat_word_ariths)
  then show "visit_inv n H E K s0 s (ev\<lparr>evicted := evicted ev + 1\<rparr>)"
    using assms(1) by (auto simp: visit_inv_def ev_inv_def)
qed

text \<open>The clean branch, from the point where the page is locked in shared mode.\<close>

lemma visit_clean:
  fixes w :: u64
  assumes v: "visit_inv n H E K s0 s ev" and p: "res s p = Some r" "p \<notin> H" "p \<notin> K" "p \<notin> fst ` set (toWrite ev)"
    and x: "pg s p = Some x" "\<not> dirty (virtMem s ! x)"
  defines "s1 \<equiv> upd_bf r (\<lambda>bf. bf\<lparr>bstate := sameVersion w Locked\<rparr>) s"
  shows "\<exists>s'. evict_clean p (bm_hash s p) x s1 = Ret s' \<and> visit_inv n H E K s0 s' ev \<and> pinned s' \<subseteq> pinned s - {p}"
proof -
  have v1: "visit_inv n H E K s0 s1 ev" unfolding s1_def by (rule visit_state [OF v p])
  note D = visit_invD [OF v1]
  note U = upd_state_inv [where w = "sameVersion w Locked", OF visit_invD(1) [OF v] p(1), folded s1_def]
  have r1: "res s1 p = Some r" "st s1 p = Locked" "pg s1 p = Some x" "virtMem s1 = virtMem s"
    "bm_hash s1 p = bm_hash s p"
    using U(3-5) p x by (simp_all add: s1_def)
  obtain s' where s': "evict_clean p (bm_hash s1 p) x s1 = Ret s'" "pool_inv n H E s'" "view s' = view s1"
    "env s' = env s1" "res s' = (res s1)(p := None)" "\<forall>q. q \<noteq> p \<longrightarrow> pg s' q = pg s1 q \<and> st s' q = st s1 q"
    "\<forall>q y. q \<noteq> p \<longrightarrow> res s1 q = Some y \<longrightarrow> bf_at s' y = bf_at s1 y" "disk s' = disk s1"
    using evict_clean_ok [OF D(1) r1(1) p(2) r1(2,3)] x r1 by auto
  have "held K s0 s'" by (rule heldI_other [OF D(5) p(3)]) (use s'(5,7) in auto)
  moreover have "ev_inv H s' ev"
    by (rule ev_inv_other [OF D(4)]) (use s'(5,6) p(4) in auto)
  ultimately have "visit_inv n H E K s0 s' ev" using v1 s'(2-4,8) by (simp add: visit_inv_def)
  moreover have "pinned s' \<subseteq> pinned s - {p}" using s'(5,6) U(3,5) p(2) by (auto simp: pinned_def split: if_splits)
  ultimately show ?thesis using s'(1) r1(5) by auto
qed

lemma tryLockS_marked: "getState v = Marked \<Longrightarrow> tryLockS v v = (True, sameVersion v 1)"
  by (simp add: tryLockS_def Let_def)

lemma unlockS_once:
  "0 < getState v \<Longrightarrow> getState v \<le> MaxShared \<Longrightarrow> unlockS [(v, v)] = Ret (sameVersion v (getState v - 1))"
  by simp

lemma evict_visit_ok:
  assumes v: "visit_inv n H E K s0 s ev" and p: "p \<noteq> pid_none" and room: "unat (evicted ev) + 2 < 2 ^ 64"
  shows "\<exists>s' ev'. evict_visit p (s, ev) = Ret (s', ev') \<and> visit_inv n H E K s0 s' ev' \<and>
    unat (evicted ev') \<le> unat (evicted ev) + 2 \<and> length (toWrite ev') \<le> length (toWrite ev) + 1 \<and>
    (loose K s ev \<longrightarrow> loose K s' ev')"
proof (cases "res s p")
  note D = visit_invD [OF v]
  note acc = access_res [where move = False and w = 0, OF D(2) p]
  {
    case None
    then show ?thesis using acc v by (intro exI [of _ s] exI [of _ ev]) (simp add: evict_visit_def Let_def)
  next
    case (Some r)
    let ?v = "bstate (bf_at s r)"
    have stv: "st s p = getState ?v" using pg_st_Some [OF Some] by simp
    consider (marked) "getState ?v = Marked" | (unlocked) "getState ?v = Unlocked"
      | (other) "getState ?v \<noteq> Marked" "getState ?v \<noteq> Unlocked" by blast
    then show ?thesis
    proof cases
      case other
      then show ?thesis
        using acc Some v by (intro exI [of _ s] exI [of _ ev]) (simp add: evict_visit_def Let_def)
    next
      case unlocked
      note free = visitable [OF v Some]
      define s1 where "s1 = upd_bf r (\<lambda>bf. bf\<lparr>bstate := sameVersion ?v Marked\<rparr>) s"
      have "visit_inv n H E K s0 s1 ev" unfolding s1_def
        by (rule visit_state [OF v Some]) (use free stv unlocked in auto)
      moreover have "evict_visit p (s, ev) = Ret (s1, ev)"
        using acc Some unlocked by (simp add: evict_visit_def Let_def tryMark_def s1_def)
      moreover have "loose K s ev \<longrightarrow> loose K s1 ev"
      proof -
        note U = upd_state_inv [where w = "sameVersion ?v Marked", OF D(1) Some, folded s1_def]
        have "st s1 q = (if q = p then Marked else st s q)" "res s1 = res s" for q
          using U(3,5) free stv unlocked by simp_all
        from pinned_state [OF this(2,1)] show ?thesis using loose_drop by blast
      qed
      ultimately show ?thesis by auto
    next
      case marked
      note free = visitable [OF v Some, unfolded stv, OF disjI2, OF marked]
      obtain x where x: "x < unat (frameCount s)" "pg s p = Some x" "x < length (virtMem s)"
        using owned_slot [OF D(3) Some free(1)] by blast
      define u where "u = sameVersion ?v 1"
      define s1 where "s1 = upd_bf r (\<lambda>bf. bf\<lparr>bstate := u\<rparr>) s"
      define ev1 where "ev1 = ev\<lparr>evicted := evicted ev + 1\<rparr>"
      note U = upd_state_inv [where w = u, OF D(1) Some, folded s1_def]
      have E1: "visit_inv n H E K s0 s1 ev1" "unat (evicted ev1) = unat (evicted ev) + 1" "toWrite ev1 = toWrite ev"
        using visit_evicted [OF visit_state [OF v Some free, of u, folded s1_def]] room by (simp_all add: ev1_def)
      have r1: "res s1 p = Some r" "pg s1 p = Some x" "st s1 p = 1" "bstate (bf_at s1 r) = u" "getState u = 1"
        "virtMem s1 = virtMem s" "page_of s1 r = Ret x" "bm_hash s1 p = bm_hash s p"
        using U free x Some by (simp_all add: u_def page_of_owned pg_st_Some) (simp_all add: s1_def)
      have P1: "pinned s1 \<subseteq> insert p (pinned s)"
        by (rule pinned_state(1) [where w = 1]) (use U(3,5) free in \<open>simp_all add: u_def\<close>)
      show ?thesis
      proof (cases "dirty (virtMem s ! x)")
        case True
        define ev2 where "ev2 = ev1\<lparr>toWrite := toWrite ev1 @ [(p, x, r)]\<rparr>"
        have "evict_visit p (s, ev) = Ret (s1, ev2)"
          using acc Some marked r1 x(3) True
          by (simp add: evict_visit_def Let_def tryLockS_marked flip: u_def s1_def ev1_def) (simp add: ev2_def E1(3))
        moreover have "visit_inv n H E K s0 s1 ev2"
          using E1 visit_invD(4) [OF v] r1 free by (auto simp: visit_inv_def ev_inv_def ev2_def)
        moreover have "unat (evicted ev2) \<le> unat (evicted ev) + 2" "length (toWrite ev2) \<le> length (toWrite ev) + 1"
          using E1 by (simp_all add: ev2_def)
        moreover have "loose K s ev \<longrightarrow> loose K s1 ev2" using P1 E1(3) by (auto simp: loose_def ev2_def)
        ultimately show ?thesis by blast
      next
        case False
        define weak where "weak = fst (next_weak s1)"
        define s2 where "s2 = snd (next_weak s1)"
        note R = same_but_rng_inv [OF next_weak_same [of s1], folded s2_def]
        have V2: "visit_inv n H E K s0 s2 ev1" by (rule visit_weak [OF E1(1)]) (simp add: s2_def next_weak_same)
        have r2: "res s2 p = Some r" "pg s2 p = Some x" "virtMem s2 = virtMem s" "bstate (bf_at s2 r) = u"
          "bm_hash s2 p = bm_hash s p" "pinned s2 = pinned s1"
          using r1 R env_eqD(8) [OF R(6)] by (simp_all add: pinned_def)
        show ?thesis
        proof (cases weak)
          case True
          define s3 where "s3 = upd_bf r (\<lambda>bf. bf\<lparr>bstate := sameVersion u 0\<rparr>) s2"
          have "evict_visit p (s, ev) = Ret (s3, ev1)"
            using acc Some marked r1 r2 x(3) False True
            by (simp add: evict_visit_def Let_def tryLockS_marked case_prod_beta cas_weak_def
                unlockS_once flip: u_def s1_def ev1_def s2_def weak_def del: unlockS.simps) (simp add: s3_def)
          moreover have "visit_inv n H E K s0 s3 ev1"
            unfolding s3_def by (rule visit_state [OF V2 r2(1)]) (use free E1 in auto)
          moreover have "loose K s ev \<longrightarrow> loose K s3 ev1"
          proof -
            note U3 = upd_state_inv [where w = "sameVersion u 0", OF visit_invD(1) [OF V2] r2(1), folded s3_def]
            have "st s3 q = (if q = p then Unlocked else st s2 q)" "res s3 = res s2" for q using U3(3,5) free by simp_all
            from pinned_state [OF this(2,1)] show ?thesis using P1 r2(6) E1(3) by (auto simp: loose_def)
          qed
          ultimately show ?thesis using E1 by auto
        next
          case nw: False
          obtain s3 where s3: "evict_clean p (bm_hash s p) x (upd_bf r (\<lambda>bf. bf\<lparr>bstate := sameVersion u Locked\<rparr>) s2) = Ret s3"
              "visit_inv n H E K s0 s3 ev1" "pinned s3 \<subseteq> pinned s2 - {p}"
            using visit_clean [OF V2 r2(1) free(1,2) _ r2(2), of u] free(3) E1(3) False r2 by auto
          define ev3 where "ev3 = ev1\<lparr>evicted := evicted ev1 + 1, evictedHTCache := evictedHTCache ev1 @ [p]\<rparr>"
          have "evict_visit p (s, ev) = Ret (s3, ev3)"
            using acc Some marked r1 r2 x(3) False nw s3(1)
            by (simp add: evict_visit_def Let_def tryLockS_marked case_prod_beta cas_weak_def
                flip: u_def s1_def ev1_def s2_def weak_def) (simp add: ev3_def ev1_def)
          moreover have "visit_inv n H E K s0 s3 ev3" "unat (evicted ev3) = unat (evicted ev) + 2"
            using visit_evicted [OF s3(2)] room E1(2) by (simp_all add: ev3_def visit_inv_def ev_inv_def)
          moreover have "loose K s ev \<longrightarrow> loose K s3 ev3" using s3(3) P1 r2(6) E1(3) by (auto simp: loose_def ev3_def)
          ultimately show ?thesis using E1(3) by (auto simp: ev3_def)
        qed
      qed
    qed
  }
qed

section \<open>The search for candidates\<close>

lemma clock_loop_preserves:
  assumes step: "\<And>i s p. i < M \<Longrightarrow> P i s \<Longrightarrow> real_pid p \<Longrightarrow> \<exists>s'. fn p s = Ret s' \<and> P (Suc i) s'"
    and skip: "\<And>i s. P i s \<Longrightarrow> P (Suc i) s"
    and inv: "\<And>i s. P i s \<Longrightarrow> rs_inv k (get s)"
  shows "P i s \<Longrightarrow> i + m \<le> M \<Longrightarrow> unat pos < 2 ^ k \<Longrightarrow> \<exists>s'. clock_loop get fn m pos s = Ret s' \<and> P (i + m) s'"
proof (induction m arbitrary: i s pos)
  case 0
  then show ?case by simp
next
  case (Suc m)
  note I = rs_invD [OF inv [OF Suc.prems(1)]]
  define c where "c = slots (get s) ! unat pos"
  have get: "aget (slots (get s)) (unat pos) = Ret c" using Suc.prems(3) I(2) by (simp add: c_def)
  have "\<exists>s'. (if c \<noteq> rs_tombstone \<and> c \<noteq> rs_empty then fn c s else Ret s) = Ret s' \<and> P (Suc i) s'"
  proof (cases "real_pid c")
    case True
    then show ?thesis using step [of i s c] Suc.prems(1,2) by (auto simp: real_pid_def)
  next
    case False
    then show ?thesis using skip [OF Suc.prems(1)] by (auto simp: real_pid_def)
  qed
  then obtain s' where s': "(if c \<noteq> rs_tombstone \<and> c \<noteq> rs_empty then fn c s else Ret s) = Ret s'" "P (Suc i) s'" by blast
  note I' = rs_invD [OF inv [OF s'(2)]]
  have "unat ((pos + 1) AND rmask (get s')) < 2 ^ k"
    using probe_next(2) [OF Suc.prems(3) I(1)] I'(3) by simp
  then obtain s'' where "clock_loop get fn m ((pos + 1) AND rmask (get s')) s' = Ret s''" "P (Suc i + m) s''"
    using Suc.IH [OF s'(2)] Suc.prems(2) by auto
  then show ?case using get s' by auto
qed

lemma rs_inv_clock: "rs_inv k r \<Longrightarrow> unat c < 2 ^ k \<Longrightarrow> rs_inv k (r\<lparr>clockPos := c\<rparr>)"
  by (simp add: rs_inv_def members_def) blast

lemma rs_ok_k:
  assumes "rs_ok r" and "rs_room r = 2 ^ k"
  shows "rs_inv k r"
proof -
  obtain k' where "rs_inv k' r" using assms(1) by (auto simp: rs_ok_def)
  moreover from this have "(2::nat) ^ k' = 2 ^ k" using rs_room_inv assms(2) by metis
  ultimately show ?thesis by simp
qed

lemma visit_clock:
  assumes v: "visit_inv n H E K s0 s ev" and k: "rs_inv k (residentSet s)" "unat c < 2 ^ k"
  shows "visit_inv n H E K s0 (s\<lparr>residentSet := residentSet s\<lparr>clockPos := c\<rparr>\<rparr>) ev"
proof -
  let ?s = "s\<lparr>residentSet := residentSet s\<lparr>clockPos := c\<rparr>\<rparr>"
  have rs: "rs_ok (residentSet ?s)" "members (residentSet ?s) = members (residentSet s)"
    "rs_room (residentSet ?s) = rs_room (residentSet s)"
    using rs_inv_clock [OF k] by (auto simp: rs_ok_def members_def rs_room_def)
  have b: "bf_at ?s = bf_at s" "pg ?s = pg s" "st ?s = st s"
    by (simp_all add: bf_at_def pg_def st_def fun_eq_iff cong: option.case_cong)
  have "tab_inv n ?s" using visit_invD(2) [OF v] rs by (simp add: tab_inv_def)
  moreover have "env ?s = env s" using rs(3) by (simp add: env_def)
  moreover have "view ?s = view s" by (simp add: view_def b fun_eq_iff)
  moreover have "frame_inv H E ?s = frame_inv H E s" "disk_inv H ?s = disk_inv H s"
    by (simp_all add: frame_inv_def disk_inv_def b)
  ultimately show ?thesis
    using v unfolding visit_inv_def pool_inv_def ev_inv_def held_def by (simp add: b)
qed

lemma clock_batch_ok:
  assumes v: "visit_inv n H E K s0 s ev" and b: "unat (evicted ev) + 2 * unat (batch s) < 2 ^ 63"
  shows "\<exists>s' ev'. iterateClockBatch rs_get rs_put (batch s) evict_visit (s, ev) = Ret (s', ev') \<and>
    visit_inv n H E K s0 s' ev' \<and> unat (evicted ev') \<le> unat (evicted ev) + 2 * unat (batch s) \<and>
    length (toWrite ev') \<le> length (toWrite ev) + unat (batch s) \<and> (loose K s ev \<longrightarrow> loose K s' ev')"
proof -
  obtain k where k: "rs_inv k (residentSet s)" using tab_invD(4) [OF visit_invD(2) [OF v]] by (auto simp: rs_ok_def)
  let ?P = "\<lambda>i (s', ev'). visit_inv n H E K s0 s' ev' \<and> unat (evicted ev') \<le> unat (evicted ev) + 2 * i \<and>
    length (toWrite ev') \<le> length (toWrite ev) + i \<and> (loose K s ev \<longrightarrow> loose K s' ev')"
  have pos: "unat (clockPos (residentSet s)) < 2 ^ k" using k by (simp add: rs_inv_def)
  define c where "c = (clockPos (residentSet s) + batch s) mod rcount (residentSet s)"
  have "unat (rcount (residentSet s)) = 2 ^ k" using rs_room_inv [OF k] by (simp add: rs_room_def)
  moreover have "0 < rcount (residentSet s)"
    using calculation by (simp add: word_less_nat_alt)
  ultimately have c: "unat c < 2 ^ k" using unat_mod_less unfolding c_def by metis
  have "\<exists>se. clock_loop rs_get evict_visit (unat (batch s)) (clockPos (residentSet s))
      (s\<lparr>residentSet := residentSet s\<lparr>clockPos := c\<rparr>\<rparr>, ev) = Ret se \<and> ?P (0 + unat (batch s)) se"
  proof (rule clock_loop_preserves [where k = k and M = "unat (batch s)"])
    fix i se p assume i: "i < unat (batch s)" "?P i se" "real_pid p"
    obtain s1 ev1 where se: "se = (s1, ev1)" by fastforce
    have "unat (evicted ev1) + 2 < 2 ^ 64" using i b by (simp add: se)
    then obtain s2 ev2 where "evict_visit p (s1, ev1) = Ret (s2, ev2)" "visit_inv n H E K s0 s2 ev2"
        "unat (evicted ev2) \<le> unat (evicted ev1) + 2" "length (toWrite ev2) \<le> length (toWrite ev1) + 1"
        "loose K s1 ev1 \<longrightarrow> loose K s2 ev2"
      using evict_visit_ok [of n H E K s0 s1 ev1 p] i(2) real_pid_none [OF i(3)] by (auto simp: se)
    then show "\<exists>se'. evict_visit p se = Ret se' \<and> ?P (Suc i) se'" using i(2) by (auto simp: se)
  next
    fix i se assume "?P i se"
    then show "?P (Suc i) se" by auto
  next
    fix i se assume "?P i se"
    then obtain s1 ev1 where se: "se = (s1, ev1)" "visit_inv n H E K s0 s1 ev1" by fastforce
    have "env s1 = env s" using visit_invD(6) [OF se(2)] visit_invD(6) [OF v] by simp
    then have "rs_room (residentSet s1) = 2 ^ k" using env_eqD(6) rs_room_inv [OF k] by metis
    then show "rs_inv k (rs_get se)"
      using rs_ok_k tab_invD(4) [OF visit_invD(2) [OF se(2)]] by (simp add: se rs_get_def)
  next
    have "pinned (s\<lparr>residentSet := residentSet s\<lparr>clockPos := c\<rparr>\<rparr>) = pinned s"
      by (simp add: pinned_def st_def bf_at_def cong: option.case_cong)
    then show "?P 0 (s\<lparr>residentSet := residentSet s\<lparr>clockPos := c\<rparr>\<rparr>, ev)" using visit_clock [OF v k c] by (simp add: loose_def)
  qed (use pos in auto)
  then show ?thesis
    by (auto simp: iterateClockBatch_def rs_get_def rs_put_def Let_def c_def)
qed

lemma evict_search_ok:
  assumes v: "visit_inv n H E K s0 s ev" and b: "unat (batch s) \<le> 128" and w: "length (toWrite ev) \<le> 255"
  shows "\<exists>s' ev'. evict_search m (s, ev) = Ret (s', ev') \<and> visit_inv n H E K s0 s' ev' \<and> length (toWrite ev') \<le> 255 \<and>
    (loose K s ev \<longrightarrow> loose K s' ev')"
  using v b w
proof (induction m arbitrary: s ev)
  case 0
  then show ?case by simp
next
  case (Suc m)
  show ?case
  proof (cases "evicted ev < batch s")
    case True
    then have e: "unat (evicted ev) < unat (batch s)" by (simp add: word_less_nat_alt)
    moreover have "length (toWrite ev) \<le> unat (evicted ev)"
      using visit_invD(4) [OF Suc.prems(1)] by (simp add: ev_inv_def)
    moreover obtain s1 ev1 where s1: "iterateClockBatch rs_get rs_put (batch s) evict_visit (s, ev) = Ret (s1, ev1)"
        "visit_inv n H E K s0 s1 ev1" "length (toWrite ev1) \<le> length (toWrite ev) + unat (batch s)"
        "loose K s ev \<longrightarrow> loose K s1 ev1"
      using clock_batch_ok [OF Suc.prems(1)] e Suc.prems(2) by auto
    ultimately have "length (toWrite ev1) \<le> 255" using Suc.prems(2) by linarith
    moreover have "batch s1 = batch s"
      using visit_invD(6) [OF s1(2)] visit_invD(6) [OF Suc.prems(1)] env_eqD(2) by metis
    ultimately show ?thesis using Suc.IH [OF s1(2)] Suc.prems(2) s1(1,4) True by fastforce
  next
    case False
    then show ?thesis using Suc.prems by simp
  qed
qed

section \<open>Writing a batch\<close>

definition cleaned :: "nat set \<Rightarrow> page list \<Rightarrow> page list" where
  "cleaned X vm = map (\<lambda>i. if i \<in> X then (vm ! i)\<lparr>dirty := False\<rparr> else vm ! i) [0..<length vm]"

lemma cleaned_length [simp]: "length (cleaned X vm) = length vm"
  by (simp add: cleaned_def)

lemma cleaned_nth: "i < length vm \<Longrightarrow> cleaned X vm ! i = (if i \<in> X then (vm ! i)\<lparr>dirty := False\<rparr> else vm ! i)"
  by (simp add: cleaned_def)

lemma cleaned_empty [simp]: "cleaned {} vm = vm"
  by (rule nth_equalityI) (simp_all add: cleaned_nth)

lemma cleaned_insert:
  "x < length vm \<Longrightarrow> cleaned X (vm[x := (vm ! x)\<lparr>dirty := False\<rparr>]) = cleaned (insert x X) vm"
  by (rule nth_equalityI) (auto simp: cleaned_nth nth_list_update)

lemma prep_writes_ok:
  "\<forall>w \<in> set ws. snd w < length (virtMem s) \<Longrightarrow>
    prep_writes ws s = Ret (s\<lparr>virtMem := cleaned (snd ` set ws) (virtMem s)\<rparr>)"
proof (induction ws arbitrary: s)
  case (Cons w ws)
  obtain p x where w: "w = (p, x)" by fastforce
  define s1 where "s1 = s\<lparr>virtMem := (virtMem s)[x := (virtMem s ! x)\<lparr>dirty := False\<rparr>]\<rparr>"
  have "prep_writes ws s1 = Ret (s1\<lparr>virtMem := cleaned (snd ` set ws) (virtMem s1)\<rparr>)"
    by (rule Cons.IH) (use Cons.prems in \<open>simp add: s1_def\<close>)
  then show ?case using Cons.prems by (simp add: w upd_page_def s1_def cleaned_insert)
qed simp

definition disk_after :: "bm \<Rightarrow> (PID \<times> nat) list \<Rightarrow> u64 \<times> u64 \<Rightarrow> page option" where
  "disk_after s ws = foldl (\<lambda>d (p, x). d(loc s p \<mapsto> virtMem s ! x)) (disk s) ws"

lemma do_writes_ok:
  "\<forall>w \<in> set ws. snd w < length (virtMem s) \<Longrightarrow> do_writes ws s = Ret (s\<lparr>disk := disk_after s ws\<rparr>)"
proof (induction ws arbitrary: s)
  case (Cons w ws)
  obtain p x where w: "w = (p, x)" by fastforce
  define s1 where "s1 = s\<lparr>disk := (disk s)(loc s p \<mapsto> virtMem s ! x)\<rparr>"
  have "do_writes ws s1 = Ret (s1\<lparr>disk := disk_after s1 ws\<rparr>)"
    by (rule Cons.IH) (use Cons.prems in \<open>simp add: s1_def\<close>)
  then show ?case using Cons.prems by (simp add: w s1_def disk_after_def)
qed (simp add: disk_after_def)

lemma disk_after_out:
  "l \<notin> loc s ` fst ` set ws \<Longrightarrow> disk_after s ws l = disk s l"
proof -
  have "l \<notin> loc s ` fst ` set ws \<Longrightarrow> foldl (\<lambda>d (p, x). d(loc s p \<mapsto> virtMem s ! x)) d ws l = d l" for d
    by (induction ws arbitrary: d) (auto split: prod.splits)
  then show "l \<notin> loc s ` fst ` set ws \<Longrightarrow> disk_after s ws l = disk s l" by (simp add: disk_after_def)
qed

lemma disk_after_in:
  assumes "(p, x) \<in> set ws" and "distinct (map fst ws)" and "0 < blockfds s"
  shows "disk_after s ws (loc s p) = Some (virtMem s ! x)"
proof -
  have out: "l \<notin> loc s ` fst ` set ws \<Longrightarrow> foldl (\<lambda>d (p, x). d(loc s p \<mapsto> virtMem s ! x)) d ws l = d l" for d l ws
    by (induction ws arbitrary: d) (auto split: prod.splits)
  have "foldl (\<lambda>d (p, x). d(loc s p \<mapsto> virtMem s ! x)) d ws (loc s p) = Some (virtMem s ! x)" for d
    using assms(1,2)
  proof (induction ws arbitrary: d)
    case (Cons w ws)
    show ?case
    proof (cases "w = (p, x)")
      case True
      then have "p \<notin> fst ` set ws" using Cons.prems(2) by simp
      then have "loc s p \<notin> loc s ` fst ` set ws" using loc_inj [OF assms(3)] by blast
      then show ?thesis using out [of "loc s p" ws "d(loc s p \<mapsto> virtMem s ! x)"] True by (simp add: fun_upd_def)
    next
      case False
      then show ?thesis using Cons by (auto split: prod.split)
    qed
  qed simp
  then show ?thesis by (simp add: disk_after_def)
qed

definition to_write_ok :: "PID set \<Rightarrow> bm \<Rightarrow> (PID \<times> nat) list \<Rightarrow> bool" where
  "to_write_ok H s ws \<longleftrightarrow> distinct (map fst ws) \<and> length ws < maxIOs \<and>
     (\<forall>(p, x) \<in> set ws. p \<in> dom (res s) \<and> p \<notin> H \<and> pg s p = Some x)"

lemma slot_inj:
  assumes "frame_inv H E s" and "p \<in> dom (res s)" "p \<notin> H" "q \<in> dom (res s)" "q \<notin> H" and "pg s p = pg s q"
  shows "p = q"
  using frame_invD(3) [OF assms(1,2,3)] frame_invD(3) [OF assms(1,4,5)] assms(6) by auto

lemma writePages_ok:
  assumes inv: "pool_inv n H E s" and ws: "to_write_ok H s ws"
  shows "\<exists>s'. writePages ws s = Ret s' \<and> pool_inv n H E s' \<and> (\<forall>p. p \<notin> H \<longrightarrow> view s' p = view s p) \<and> env s' = env s \<and>
    ht s' = ht s \<and> residentSet s' = residentSet s \<and>
    (\<forall>(p, x) \<in> set ws. disk s' (loc s' p) = Some (virtMem s' ! x) \<and> \<not> dirty (virtMem s' ! x)) \<and>
    (\<forall>x < length (virtMem s). x \<notin> snd ` set ws \<longrightarrow> virtMem s' ! x = virtMem s ! x) \<and>
    (\<forall>p \<in> H. disk s' (loc s p) = disk s (loc s p))"
proof -
  have I: "tab_inv n s" "frame_inv H E s" "disk_inv H s" using inv by (simp_all add: pool_inv_def)
  note F = frame_invD [OF I(2)] and Dk = disk_invD [OF I(3)]
  have W: "p \<in> dom (res s)" "p \<notin> H" "pg s p = Some x" "x < length (virtMem s)" if "(p, x) \<in> set ws" for p x
  proof -
    show *: "p \<in> dom (res s)" "p \<notin> H" "pg s p = Some x" using that ws by (auto simp: to_write_ok_def)
    show "x < length (virtMem s)" using F(1) F(3) [OF *(1,2)] *(3) by auto
  qed
  have wlen: "\<forall>w \<in> set ws. snd w < length (virtMem s)" using W(4) by auto
  define s1 where "s1 = s\<lparr>virtMem := cleaned (snd ` set ws) (virtMem s)\<rparr>"
  define s' where "s' = s1\<lparr>disk := disk_after s1 ws\<rparr>"
  have "prep_writes ws s = Ret s1" unfolding s1_def by (rule prep_writes_ok [OF wlen])
  moreover have "do_writes ws s1 = Ret s'" unfolding s'_def
    by (rule do_writes_ok) (use wlen in \<open>simp add: s1_def\<close>)
  moreover have "io_submit s1 (length ws) = length ws" using Dk(3) by (simp add: s1_def)
  ultimately have ret: "writePages ws s = Ret s'" using ws by (simp add: writePages_def to_write_ok_def)
  have sel: "ht s' = ht s" "residentSet s' = residentSet s" "env s' = env s" "virtMemPids s' = virtMemPids s"
    "frameCount s' = frameCount s" "freeList s' = freeList s" "blockfds s' = blockfds s" "io_submit s' = io_submit s"
    "virtMem s' = cleaned (snd ` set ws) (virtMem s)" "queue_pop s' = queue_pop s"
    by (simp_all add: s'_def s1_def env_def)
  have b: "bf_at s' = bf_at s" "pg s' = pg s" "st s' = st s"
    by (simp_all add: bf_at_def pg_def st_def sel(1) fun_eq_iff cong: option.case_cong)
  have locs: "loc s1 p = loc s p" for p by (simp add: s1_def)
  have din: "disk s' (loc s p) = Some (virtMem s' ! x)" if "(p, x) \<in> set ws" for p x
    using disk_after_in [OF that, of s1] ws Dk(2) by (simp add: s'_def to_write_ok_def s1_def)
  have dout: "disk s' (loc s p) = disk s (loc s p)" if "p \<notin> fst ` set ws" for p
  proof -
    have "loc s p \<notin> loc s1 ` fst ` set ws" using that loc_inj [OF Dk(2)] by (auto simp: s1_def)
    then show ?thesis using disk_after_out by (simp add: s'_def) (simp add: s1_def)
  qed
  have body_eq: "body (virtMem s' ! x) = body (virtMem s ! x)" if "x < length (virtMem s)" for x
    using that by (simp add: sel cleaned_nth)
  have clean: "\<not> dirty (virtMem s' ! x)" if "(p, x) \<in> set ws" for p x
  proof -
    have "x \<in> snd ` set ws" using that by force
    then show ?thesis using W(4) [OF that] by (simp add: sel cleaned_nth)
  qed
  have other: "virtMem s' ! x = virtMem s ! x" if "x < length (virtMem s)" "x \<notin> snd ` set ws" for x
    using that by (simp add: sel cleaned_nth)
  have t': "tab_inv n s'" using I(1) by (simp add: tab_inv_def sel)
  have f': "frame_inv H E s'" using I(2) by (simp add: frame_inv_def sel b)
  have view: "view s' p = view s p" if "p \<notin> H" for p
  proof (cases "res s p")
    case None
    then have "p \<notin> fst ` set ws" using W(1) by force
    then show ?thesis using None dout by (simp add: view_def sel)
  next
    case (Some r)
    show ?thesis
    proof (cases "pg s p")
      case px: (Some x)
      then have "x < length (virtMem s)" using F(1) F(3) [of p] Some that by auto
      then show ?thesis using Some px body_eq by (simp add: view_def sel b)
    qed (simp add: view_def sel b Some)
  qed
  have d': "disk_inv H s'"
    unfolding disk_inv_def
  proof (intro conjI allI impI ballI)
    fix l q assume q: "disk s' l = Some q"
    show "\<not> dirty q"
    proof (cases "l \<in> loc s1 ` fst ` set ws")
      case True
      then obtain p x where "(p, x) \<in> set ws" "l = loc s p" by (auto simp: locs)
      then show ?thesis using din clean q by auto
    next
      case False
      then show ?thesis using disk_after_out [OF False] Dk(4) q by (simp add: s'_def) (simp add: s1_def)
    qed
  next
    fix p x assume p: "p \<in> dom (res s') - H" "pg s' p = Some x" "\<not> dirty (virtMem s' ! x)"
    then have p': "p \<in> dom (res s)" "p \<notin> H" "pg s p = Some x" by (simp_all add: sel b)
    have x: "x < length (virtMem s)" using F(1) F(3) [OF p'(1,2)] p'(3) by auto
    show "map_option body (disk s' (loc s' p)) = Some (body (virtMem s' ! x))"
    proof (cases "p \<in> fst ` set ws")
      case True
      then obtain y where y: "(p, y) \<in> set ws" by auto
      then have "y = x" using W(3) p'(3) by auto
      then show ?thesis using din [OF y] by (simp add: sel)
    next
      case False
      have "x \<notin> snd ` set ws"
      proof
        assume "x \<in> snd ` set ws"
        then obtain q where q: "(q, x) \<in> set ws" by auto
        then have "q = p" using slot_inj [OF I(2) W(1,2) [OF q] p'(1,2)] W(3) [OF q] p'(3) by simp
        then show False using q False by force
      qed
      then have "virtMem s' ! x = virtMem s ! x" by (rule other [OF x])
      then show ?thesis using Dk(1) [OF p'(1,2,3)] p(3) dout [OF False] by (simp add: sel)
    qed
  qed (use Dk in \<open>simp_all add: sel\<close>)
  have "\<forall>(p, x) \<in> set ws. disk s' (loc s' p) = Some (virtMem s' ! x) \<and> \<not> dirty (virtMem s' ! x)"
    using din clean by (auto simp: sel)
  moreover have "\<forall>p \<in> H. disk s' (loc s p) = disk s (loc s p)"
    using dout W(2) by fastforce
  ultimately show ?thesis using ret t' f' d' sel other view unfolding pool_inv_def by blast
qed

section \<open>Upgrading and removing the written pages\<close>

definition upgradable :: "PID set \<Rightarrow> PID set \<Rightarrow> bm \<Rightarrow> (PID \<times> nat \<times> fref) list \<Rightarrow> bool" where
  "upgradable H K s ws \<longleftrightarrow> distinct (map fst ws) \<and>
     (\<forall>(p, x, r) \<in> set ws. p \<notin> H \<and> p \<notin> K \<and> res s p = Some r \<and> pg s p = Some x \<and> st s p = 1)"

lemma upgradable_Cons:
  assumes "upgradable H K s ((p, x, r) # ws)" and "res s' = res s" and "pg s' = pg s"
    and "\<And>q. q \<noteq> p \<Longrightarrow> st s' q = st s q" and "H' = H \<or> H' = insert p H"
  shows "upgradable H' K s' ws"
proof -
  have "q \<notin> H' \<and> q \<notin> K \<and> res s' q = Some y \<and> pg s' q = Some z \<and> st s' q = 1" if q: "(q, z, y) \<in> set ws" for q y z
  proof -
    have "q \<noteq> p" using assms(1) q by (force simp: upgradable_def)
    then show ?thesis using assms q by (auto simp: upgradable_def)
  qed
  then show ?thesis using assms(1) by (auto simp: upgradable_def)
qed

lemma evict_upgrade_ok:
  assumes "pool_inv n H E s" and "upgradable H K s ws" and "held K s0 s"
  shows "\<exists>ps s'. evict_upgrade ws s = Ret (ps, s') \<and> pool_inv n (H \<union> set ps) E s' \<and> distinct ps \<and>
    set ps \<subseteq> fst ` set ws \<and> view s' = view s \<and> env s' = env s \<and> held K s0 s' \<and>
    virtMem s' = virtMem s \<and> disk s' = disk s \<and> pg s' = pg s \<and> res s' = res s \<and>
    pinned s' \<subseteq> pinned s - fst ` set ws \<union> set ps"
  using assms
proof (induction ws arbitrary: H s)
  case Nil
  then show ?case by auto
next
  case (Cons w ws)
  obtain p x r where w: "w = (p, x, r)" by (cases w)
  have p: "p \<notin> H" "p \<notin> K" "res s p = Some r" "pg s p = Some x" "st s p = 1"
    using Cons.prems(2) by (simp_all add: upgradable_def w)
  have nin: "p \<notin> fst ` set ws" using Cons.prems(2) by (simp add: upgradable_def w)
  define u where "u = bstate (bf_at s r)"
  have u: "getState u = 1" using pg_st_Some [OF p(3)] p(5) by (simp add: u_def)
  define weak where "weak = fst (next_weak s)"
  define s1 where "s1 = snd (next_weak s)"
  note R = same_but_rng_inv [OF next_weak_same [of s], folded s1_def]
  obtain g wf where "s1 = s\<lparr>rng := g, weak_fails := wf\<rparr>"
    using next_weak_same [of s] unfolding same_but_rng_def s1_def by blast
  then have D1: "disk s1 = disk s" "blockfds s1 = blockfds s" "freeList s1 = freeList s" by simp_all
  have I1: "pool_inv n H E s1" "res s1 p = Some r" "pg s1 p = Some x" "bstate (bf_at s1 r) = u" "held K s0 s1"
    using Cons.prems(1,3) p by (simp_all add: R u_def held_def)
  have f1: "frame_inv H E s1" "tab_inv n s1" using I1(1) by (simp_all add: pool_inv_def)
  define s2 where "s2 = upd_bf r (\<lambda>bf. bf\<lparr>bstate := sameVersion u (if weak then 0 else Locked)\<rparr>) s1"
  note U = upd_state_inv [where w = "sameVersion u (if weak then 0 else Locked)", OF I1(1,2), folded s2_def]
  have inv2: "pool_inv n H E s2" using U(1) p(1) by blast
  have h2: "held K s0 s2" unfolding s2_def by (rule held_upd [OF I1(5) f1(2) I1(2) p(2)]) simp
  have eq2: "view s2 = view s" "env s2 = env s" "virtMem s2 = virtMem s" "disk s2 = disk s" "pg s2 = pg s" "res s2 = res s"
    using U(2-4) p(1) R D1 by (simp_all add: s2_def)
  have st2: "st s2 q = (if q = p then (if weak then 0 else Locked) else st s q)" for q
    using U(5) p(1) R by simp
  show ?case
  proof (cases weak)
    case True
    have "upgradable H K s2 ws"
      by (rule upgradable_Cons [OF Cons.prems(2) [unfolded w]]) (use eq2 st2 in auto)
    then obtain ps s' where ih: "evict_upgrade ws s2 = Ret (ps, s')" "pool_inv n (H \<union> set ps) E s'" "distinct ps"
      "set ps \<subseteq> fst ` set ws" "view s' = view s2" "env s' = env s2" "held K s0 s'" "virtMem s' = virtMem s2"
      "disk s' = disk s2" "pg s' = pg s2" "res s' = res s2" "pinned s' \<subseteq> pinned s2 - fst ` set ws \<union> set ps"
      using Cons.IH [OF inv2 _ h2] by auto
    have "evict_upgrade (w # ws) s = Ret (ps, s')"
      using True u I1(4) ih(1)
      by (simp add: w Let_def case_prod_beta cas_weak_def unlockS_once flip: u_def s1_def weak_def del: unlockS.simps)
        (simp add: s2_def)
    moreover have "pinned s2 \<subseteq> pinned s - {p}" using True by (auto simp: pinned_def eq2(6) st2 split: if_splits)
    ultimately show ?thesis using ih eq2 by (auto simp: w)
  next
    case False
    define s3 where "s3 = give_back x s2"
    have own: "x < unat (frameCount s2)" "virtMemPids s2 ! x = p" "x < length (virtMemPids s2)" "page_of s2 r = Ret x"
    proof -
      have "res s2 p = Some r" using eq2 p by simp
      from owned_slot [OF _ this p(1)] inv2 obtain y where "y < unat (frameCount s2)" "pg s2 p = Some y"
        "bpage (bf_at s2 r) = Some y" "virtMemPids s2 ! y = p" "y < length (virtMemPids s2)"
        by (auto simp: pool_inv_def)
      then show "x < unat (frameCount s2)" "virtMemPids s2 ! x = p" "x < length (virtMemPids s2)" "page_of s2 r = Ret x"
        using eq2 p(4) by (simp_all add: page_of_owned)
    qed
    have p0: "p \<noteq> pid_none" using p(3) by auto
    have f3: "frame_inv (insert p H) E s3"
      by (rule frame_inv_give_back [where s = s2 and p = p and x = x])
        (use inv2 own p p0 eq2 st2 False in \<open>auto simp: s3_def pool_inv_def\<close>)
    have d3: "disk_inv (insert p H) s3"
      by (rule disk_inv_sub [where s = s2 and H = H]) (use inv2 in \<open>auto simp: s3_def pool_inv_def\<close>)
    have inv3: "pool_inv n (insert p H) E s3" using inv2 f3 d3 by (simp add: pool_inv_def s3_def)
    have h3: "held K s0 s3" using h2 by (simp add: held_def s3_def)
    have "upgradable (insert p H) K s3 ws"
      by (rule upgradable_Cons [OF Cons.prems(2) [unfolded w]]) (use eq2 st2 in \<open>auto simp: s3_def\<close>)
    then obtain ps s' where ih: "evict_upgrade ws s3 = Ret (ps, s')" "pool_inv n (insert p H \<union> set ps) E s'" "distinct ps"
      "set ps \<subseteq> fst ` set ws" "view s' = view s3" "env s' = env s3" "held K s0 s'" "virtMem s' = virtMem s3"
      "disk s' = disk s3" "pg s' = pg s3" "res s' = res s3" "pinned s' \<subseteq> pinned s3 - fst ` set ws \<union> set ps"
      using Cons.IH [OF inv3 _ h3] by auto
    have b2: "bstate (bf_at s2 r) = sameVersion u Locked" using U(8) p(1) False by simp
    have "bind_run (set_pid x pid_none s2) (\<lambda>s. Ret (enqueue_free x s)) = Ret s3"
      unfolding s3_def by (rule set_pid_give_back [OF own(3)])
    then obtain t where t: "set_pid x pid_none s2 = Ret t" "enqueue_free x t = s3" by (cases "set_pid x pid_none s2") auto
    have s2': "s2 = upd_bf r (\<lambda>bf. bf\<lparr>bstate := sameVersion u Locked\<rparr>) s1" using False by (simp add: s2_def)
    have "evict_upgrade (w # ws) s = Ret (p # ps, s')"
      using False u I1(4) ih(1) own(4) t
      by (simp add: w Let_def case_prod_beta cas_weak_def flip: u_def s1_def weak_def s2')
    moreover have "distinct (p # ps)" using ih(3,4) nin by auto
    moreover have "pinned s3 \<subseteq> insert p (pinned s)"
      by (auto simp: pinned_def s3_def eq2(6) st2 split: if_splits)
    ultimately show ?thesis using ih eq2 by (auto simp: w s3_def)
  qed
qed

lemma evict_remove_ok:
  assumes "pool_inv n H E s" and "distinct ps" and "set ps \<subseteq> H" and "held K s0 s" and "set ps \<inter> K = {}"
    and "\<forall>p \<in> set ps. map_option body (disk s (loc s p)) = view s p"
  shows "\<exists>s'. evict_remove ps s = Ret s' \<and> pool_inv n (H - set ps) E s' \<and> view s' = view s \<and> env s' = env s \<and> held K s0 s' \<and>
    disk s' = disk s \<and> pinned s' \<subseteq> pinned s - set ps"
  using assms
proof (induction ps arbitrary: H s)
  case Nil
  then show ?case by simp
next
  case (Cons p ps)
  have I: "tab_inv n s" "frame_inv H E s" "disk_inv H s" using Cons.prems(1) by (simp_all add: pool_inv_def)
  have "p \<in> H" using Cons.prems(3) by simp
  then obtain r where p: "res s p = Some r" "st s p = Locked" using frame_invD(4) [OF I(2)] by blast
  obtain rs tb where d: "rs_remove p (residentSet s) = Ret (True, rs)" "ht_remove p (bm_hash s p) (ht s) = Ret (True, tb)"
    and s1: "let s1 = s\<lparr>residentSet := rs, ht := tb\<rparr> in
      tab_inv n s1 \<and> res s1 = (res s)(p := None) \<and> env s1 = env s \<and>
      (\<forall>q. q \<noteq> p \<longrightarrow> pg s1 q = pg s q \<and> st s1 q = st s q) \<and>
      (\<forall>q x. q \<noteq> p \<longrightarrow> res s q = Some x \<longrightarrow> bf_at s1 x = bf_at s x)"
    using drop_page [OF I(1) p] by blast
  define s1 where "s1 = s\<lparr>residentSet := rs, ht := tb\<rparr>"
  note S1 = s1 [unfolded Let_def, folded s1_def]
  have sel: "virtMem s1 = virtMem s" "virtMemPids s1 = virtMemPids s" "frameCount s1 = frameCount s"
    "freeList s1 = freeList s" "disk s1 = disk s" "blockfds s1 = blockfds s" "io_submit s1 = io_submit s"
    by (simp_all add: s1_def)
  have dm: "dom (res s1) - (H - {p}) = dom (res s) - H" using S1 \<open>p \<in> H\<close> by auto
  have eqs: "\<And>q. q \<notin> H \<Longrightarrow> pg s1 q = pg s q" "\<And>q. q \<in> H - {p} \<Longrightarrow> st s1 q = st s q"
    using S1 \<open>p \<in> H\<close> by auto
  note F = frame_invD [OF I(2)]
  have "frame_inv (H - {p}) E s1"
    unfolding frame_inv_def dm sel
  proof (intro conjI ballI allI impI)
    fix q assume "q \<in> dom (res s) - H"
    then show "\<exists>x < unat (frameCount s). pg s1 q = Some x \<and> virtMemPids s ! x = q" using F(3) eqs(1) by auto
  next
    fix q assume q: "q \<in> H - {p}"
    then show "q \<in> dom (res s1)" "st s1 q = Locked" using F(4) [of q] S1 eqs(2) by auto
  next
    fix x assume x: "x < unat (frameCount s)" "virtMemPids s ! x \<noteq> pid_none"
    from F(5) [OF x] show "x \<in> E \<or> virtMemPids s ! x \<in> dom (res s) - H \<and> pg s1 (virtMemPids s ! x) = Some x"
      using eqs(1) by auto
  qed (use F in auto)
  moreover have "disk_inv (H - {p}) s1"
    by (rule disk_inv_sub [OF I(3)]) (use dm eqs sel in auto)
  ultimately have inv1: "pool_inv n (H - {p}) E s1" using S1 by (simp add: pool_inv_def)
  have hk: "held K s0 s1" by (rule heldI_other [where p = p, OF Cons.prems(4)]) (use Cons.prems(5) S1 in auto)
  have v: "view s1 q = view s q" for q
  proof (cases "q = p")
    case True
    then have "map_option body (disk s1 (loc s1 p)) = view s p" using Cons.prems(6) by (simp add: sel)
    then show ?thesis using True S1 by (simp add: view_def)
  next
    case False
    then show ?thesis using S1 by (simp add: view_def sel)
  qed
  then have vs: "view s1 = view s" by blast
  obtain s' where "evict_remove ps s1 = Ret s'" "pool_inv n (H - {p} - set ps) E s'" "view s' = view s1" "env s' = env s1" "held K s0 s'"
    "disk s' = disk s1" "pinned s' \<subseteq> pinned s1 - set ps"
    using Cons.IH [OF inv1 _ _ hk] Cons.prems(2,3,5,6) by (auto simp: vs sel)
  moreover have "pinned s1 \<subseteq> pinned s - {p}" using S1 by (auto simp: pinned_def split: if_splits)
  moreover have "H - {p} - set ps = H - set (p # ps)" by auto
  ultimately show ?case using d S1 vs sel(5) by (auto simp flip: s1_def)
qed

section \<open>evict\<close>

lemma held_refl: "K \<subseteq> pinned s \<Longrightarrow> held K s s"
  by (fastforce simp: held_def pinned_def)

lemma evict_correct:
  assumes inv: "pool_inv n H E s" and b: "unat (batch s) \<le> 128"
  shows "\<exists>s'. evict s = Ret s' \<and> pool_inv n H E s' \<and> (\<forall>p. p \<notin> H \<longrightarrow> view s' p = view s p) \<and> env s' = env s \<and>
    held (pinned s) s s' \<and> (\<forall>p \<in> H. disk s' (loc s p) = disk s (loc s p)) \<and> pinned s' \<subseteq> pinned s"
proof -
  let ?K = "pinned s"
  define ev0 where "ev0 = \<lparr>evicted = 0, toWrite = [], evictedHTCache = []\<rparr>"
  have "visit_inv n H E ?K s s ev0"
    using inv held_refl [of ?K s] by (simp add: visit_inv_def ev_inv_def ev0_def)
  from evict_search_ok [OF this b, of 10000] obtain s1 ev1 where
    s1: "evict_search 10000 (s, ev0) = Ret (s1, ev1)" "visit_inv n H E ?K s s1 ev1" "length (toWrite ev1) \<le> 255"
    "loose ?K s1 ev1"
    by (auto simp: ev0_def loose_def)
  note D1 = visit_invD [OF s1(2)]
  define ws where "ws = map (\<lambda>(pid, x, r). (pid, x)) (toWrite ev1)"
  have ws: "(p, x) \<in> set ws \<longleftrightarrow> (\<exists>r. (p, x, r) \<in> set (toWrite ev1))" for p x by (force simp: ws_def)
  have fsts: "map fst ws = map fst (toWrite ev1)" by (simp add: ws_def comp_def case_prod_beta)
  have TW: "p \<notin> H \<and> res s1 p = Some r \<and> pg s1 p = Some x \<and> st s1 p = 1 \<and> p \<notin> ?K" if "(p, x, r) \<in> set (toWrite ev1)" for p x r
    using D1(4) s1(2) that by (force simp: ev_inv_def visit_inv_def)
  have dist: "distinct (map fst (toWrite ev1))" using D1(4) by (simp add: ev_inv_def)
  have "to_write_ok H s1 ws"
    using TW dist s1(3) by (auto simp: to_write_ok_def fsts ws maxIOs_def) (simp add: ws_def)
  from writePages_ok [OF D1(1) this] obtain s2 where
    s2: "writePages ws s1 = Ret s2" "pool_inv n H E s2" "\<forall>p. p \<notin> H \<longrightarrow> view s2 p = view s1 p" "env s2 = env s1"
      "ht s2 = ht s1" "\<forall>(p, x) \<in> set ws. disk s2 (loc s2 p) = Some (virtMem s2 ! x) \<and> \<not> dirty (virtMem s2 ! x)"
      "\<forall>p \<in> H. disk s2 (loc s1 p) = disk s1 (loc s1 p)" by blast
  have b2: "bf_at s2 = bf_at s1" "pg s2 = pg s1" "st s2 = st s1"
    by (simp_all add: bf_at_def pg_def st_def s2(5) fun_eq_iff cong: option.case_cong)
  define s3 where "s3 = s2\<lparr>writeCount := writeCount s2 + of_nat (length (toWrite ev1))\<rparr>"
  have b3: "bf_at s3 = bf_at s2" "pg s3 = pg s2" "st s3 = st s2" "env s3 = env s2" "view s3 = view s2" "res s3 = res s2"
    by (simp_all add: bf_at_def pg_def st_def s3_def view_def env_def fun_eq_iff cong: option.case_cong)
  have inv3: "pool_inv n H E s3"
    using s2(2) by (simp add: pool_inv_def tab_inv_def frame_inv_def disk_inv_def b3) (simp add: s3_def)
  have up: "upgradable H ?K s3 (toWrite ev1)" using TW dist by (auto simp: upgradable_def b3 b2 s2(5))
  have h3: "held ?K s s3" using D1(5) by (simp add: held_def b3 b2 s2(5))
  obtain ps s4 where s4: "evict_upgrade (toWrite ev1) s3 = Ret (ps, s4)" "pool_inv n (H \<union> set ps) E s4" "distinct ps"
    "set ps \<subseteq> fst ` set (toWrite ev1)" "view s4 = view s3" "env s4 = env s3" "held ?K s s4"
    "virtMem s4 = virtMem s3" "disk s4 = disk s3" "pg s4 = pg s3" "res s4 = res s3"
    "pinned s4 \<subseteq> pinned s3 - fst ` set (toWrite ev1) \<union> set ps"
    using evict_upgrade_ok [OF inv3 up h3] by blast
  have psH: "set ps \<inter> H = {}" "set ps \<inter> ?K = {}" using s4(4) TW by force+
  have vw: "\<forall>p \<in> set ps. map_option body (disk s4 (loc s4 p)) = view s4 p"
  proof
    fix p assume "p \<in> set ps"
    then obtain x r where t: "(p, x, r) \<in> set (toWrite ev1)" using s4(4) by auto
    then have "disk s2 (loc s2 p) = Some (virtMem s2 ! x)" using s2(6) ws by auto
    moreover have "loc s4 p = loc s2 p" using env_eqD(3) s4(6) b3(4) by metis
    moreover have "res s4 p = Some r" "pg s4 p = Some x" using TW [OF t] by (simp_all add: s4 b3 b2 s2(5))
    ultimately show "map_option body (disk s4 (loc s4 p)) = view s4 p"
      by (simp add: view_def s4(8,9)) (simp add: s3_def)
  qed
  obtain s5 where s5: "evict_remove ps s4 = Ret s5" "pool_inv n (H \<union> set ps - set ps) E s5" "view s5 = view s4"
    "env s5 = env s4" "held ?K s s5" "disk s5 = disk s4" "pinned s5 \<subseteq> pinned s4 - set ps"
    using evict_remove_ok [OF s4(2,3) _ s4(7) psH(2) vw] by auto
  define s6 where "s6 = s5\<lparr>evictsHTCache := evictsHTCache s5 + of_nat (length (evictedHTCache ev1) + length ps)\<rparr>"
  have b6: "bf_at s6 = bf_at s5" "pg s6 = pg s5" "st s6 = st s5" "env s6 = env s5" "view s6 = view s5" "res s6 = res s5"
    by (simp_all add: bf_at_def pg_def st_def s6_def view_def env_def fun_eq_iff cong: option.case_cong)
  have "H \<union> set ps - set ps = H" using psH(1) by auto
  then have "pool_inv n H E s6"
    using s5(2) by (simp add: pool_inv_def tab_inv_def frame_inv_def disk_inv_def b6) (simp add: s6_def)
  moreover have "evict s = Ret s6"
    using s1(1) s2(1) s4(1) s5(1)
    by (simp add: evict_def flip: ev0_def ws_def) (simp add: s3_def s6_def)
  moreover have "held ?K s s6" using s5(5) by (simp add: held_def b6)
  moreover have "env s6 = env s" using b6 s5 s4 b3 s2 D1(6) by simp
  moreover have "\<forall>p. p \<notin> H \<longrightarrow> view s6 p = view s p"
    using s2(3) s1(2) by (simp add: b6 s5 s4 b3 visit_inv_def)
  moreover have "\<forall>p \<in> H. disk s6 (loc s p) = disk s (loc s p)"
  proof -
    have "disk s6 = disk s2" using s5(6) s4(9) by (simp add: s6_def s3_def)
    moreover have "disk s1 = disk s" "blockfds s1 = blockfds s"
      using s1(2) env_eqD(3) [OF D1(6)] by (simp_all add: visit_inv_def)
    ultimately show ?thesis using s2(7) by simp
  qed
  moreover have "pinned s6 \<subseteq> pinned s"
  proof -
    have "pinned s6 = pinned s5" "pinned s3 = pinned s1" by (simp_all add: pinned_def b6 b3 b2 s2(5))
    then show ?thesis using s5(7) s4(12) s1(4) by (auto simp: loose_def)
  qed
  ultimately show ?thesis by blast
qed

end
