(* ===== verification/Pool_Operations.thy ===== *)
theory Pool_Operations
  imports Eviction
begin

text \<open>
  Correctness of the operations on the pool: taking a free frame, faults, allocation, fixing
  and unfixing, and promotion to the preferred frame. Each keeps the invariant and what clients
  see of the pages.
\<close>

section \<open>Steps that change counters, dice and statistics only\<close>

definition same_core :: "bm \<Rightarrow> bm \<Rightarrow> bool" where
  "same_core s s' \<longleftrightarrow> ht s' = ht s \<and> residentSet s' = residentSet s \<and> virtMem s' = virtMem s \<and>
     virtMemPids s' = virtMemPids s \<and> freeList s' = freeList s \<and> disk s' = disk s \<and> frameCount s' = frameCount s \<and>
     batch s' = batch s \<and> blockfds s' = blockfds s \<and> queue_pop s' = queue_pop s \<and> io_submit s' = io_submit s"

lemma same_core_inv:
  assumes "same_core s s'"
  shows "tab_inv n s' = tab_inv n s" "frame_inv H E s' = frame_inv H E s" "disk_inv H s' = disk_inv H s"
    "pool_inv n H E s' = pool_inv n H E s" "view s' = view s" "env s' = env s" "ht s' = ht s"
    "bf_at s' = bf_at s" "pg s' = pg s" "st s' = st s" "virtMem s' = virtMem s" "virtMemPids s' = virtMemPids s"
    "disk s' = disk s" "pinned s' = pinned s" "bm_hash s' = bm_hash s" "intended s' = intended s" "batch s' = batch s"
proof -
  note S = assms [unfolded same_core_def]
  show b: "bf_at s' = bf_at s" by (simp add: bf_at_def S fun_eq_iff)
  show p: "pg s' = pg s" "st s' = st s" by (simp_all add: pg_def st_def b S fun_eq_iff split: option.split)
  show t: "tab_inv n s' = tab_inv n s" by (simp add: tab_inv_def S)
  show f: "frame_inv H E s' = frame_inv H E s" by (simp add: frame_inv_def p S)
  show d: "disk_inv H s' = disk_inv H s" by (simp add: disk_inv_def p S)
  show "pool_inv n H E s' = pool_inv n H E s" by (simp add: pool_inv_def t f d)
  show "view s' = view s" by (simp add: view_def p S fun_eq_iff)
  show "pinned s' = pinned s" by (simp add: pinned_def p S)
qed (use assms in \<open>auto simp: same_core_def env_def bm_hash_def intended_def fun_eq_iff\<close>)

lemma same_core_refl [simp]: "same_core s s"
  by (simp add: same_core_def)

lemma same_core_trans: "same_core s s' \<Longrightarrow> same_core s' s'' \<Longrightarrow> same_core s s''"
  by (simp add: same_core_def)

lemma same_core_rng: "same_but_rng s s' \<Longrightarrow> same_core s s'"
  by (auto simp: same_but_rng_def same_core_def)

section \<open>Reserving a frame\<close>

lemma pool_invD:
  assumes "pool_inv n H E s"
  shows "tab_inv n s" "frame_inv H E s" "disk_inv H s"
  using assms by (simp_all add: pool_inv_def)

text \<open>The pages that clients hold, before and after an operation.\<close>

definition keeps :: "PID set \<Rightarrow> bm \<Rightarrow> bm \<Rightarrow> bool" where
  "keeps K s s' \<longleftrightarrow> (\<forall>q \<in> K. \<forall>r. res s q = Some r \<longrightarrow> res s' q = Some r \<and> bf_at s' r = bf_at s r)"

lemma keeps_refl [simp]: "keeps K s s"
  by (simp add: keeps_def)

lemma keeps_trans: "keeps K s s' \<Longrightarrow> keeps K s' s'' \<Longrightarrow> keeps K s s''"
  by (fastforce simp: keeps_def)

lemma keeps_mono: "keeps K s s' \<Longrightarrow> L \<subseteq> K \<Longrightarrow> keeps L s s'"
  by (auto simp: keeps_def)

lemma held_keeps: "held (pinned s) s s' \<Longrightarrow> keeps (pinned s) s s'"
  by (fastforce simp: held_def keeps_def)

lemma keeps_pinned:
  assumes "keeps (pinned s) s s'"
  shows "pinned s \<subseteq> pinned s'"
proof
  fix q assume q: "q \<in> pinned s"
  then obtain r where r: "res s q = Some r" "st s q \<noteq> Unlocked" "st s q \<noteq> Marked" by (auto simp: pinned_def)
  then have "res s' q = Some r" "bf_at s' r = bf_at s r" using assms q by (auto simp: keeps_def)
  then show "q \<in> pinned s'" using r pg_st_Some [of s] pg_st_Some [of s'] by (auto simp: pinned_def)
qed

definition put_pid :: "nat \<Rightarrow> PID \<Rightarrow> bm \<Rightarrow> bm" where
  "put_pid x p s = s\<lparr>virtMemPids := (virtMemPids s)[x := p]\<rparr>"

lemma put_pid_sel [simp]:
  "ht (put_pid x p s) = ht s" "residentSet (put_pid x p s) = residentSet s" "virtMem (put_pid x p s) = virtMem s"
  "frameCount (put_pid x p s) = frameCount s" "disk (put_pid x p s) = disk s" "blockfds (put_pid x p s) = blockfds s"
  "env (put_pid x p s) = env s" "bf_at (put_pid x p s) = bf_at s" "pg (put_pid x p s) = pg s" "st (put_pid x p s) = st s"
  "view (put_pid x p s) = view s" "batch (put_pid x p s) = batch s" "queue_pop (put_pid x p s) = queue_pop s"
  "io_submit (put_pid x p s) = io_submit s" "virtMemPids (put_pid x p s) = (virtMemPids s)[x := p]"
  "freeList (put_pid x p s) = freeList s" "tab_inv n (put_pid x p s) = tab_inv n s"
  "disk_inv H (put_pid x p s) = disk_inv H s" "intended (put_pid x p s) = intended s"
  "bm_hash (put_pid x p s) = bm_hash s" "pinned (put_pid x p s) = pinned s"
  by (simp_all add: put_pid_def env_def bf_at_def pg_def st_def view_def tab_inv_def disk_inv_def intended_def
      bm_hash_def pinned_def fun_eq_iff cong: option.case_cong)

text \<open>The queue of free frames after an element has been taken from it.\<close>

definition pop_to :: "nat list \<Rightarrow> bm \<Rightarrow> bm" where
  "pop_to q s = s\<lparr>freeList := q\<rparr>"

lemma pop_to_sel [simp]:
  "ht (pop_to q s) = ht s" "residentSet (pop_to q s) = residentSet s" "virtMem (pop_to q s) = virtMem s"
  "frameCount (pop_to q s) = frameCount s" "disk (pop_to q s) = disk s" "blockfds (pop_to q s) = blockfds s"
  "env (pop_to q s) = env s" "bf_at (pop_to q s) = bf_at s" "pg (pop_to q s) = pg s" "st (pop_to q s) = st s"
  "view (pop_to q s) = view s" "batch (pop_to q s) = batch s" "queue_pop (pop_to q s) = queue_pop s"
  "io_submit (pop_to q s) = io_submit s" "virtMemPids (pop_to q s) = virtMemPids s"
  "freeList (pop_to q s) = q" "tab_inv n (pop_to q s) = tab_inv n s"
  "disk_inv H (pop_to q s) = disk_inv H s" "intended (pop_to q s) = intended s"
  "bm_hash (pop_to q s) = bm_hash s" "pinned (pop_to q s) = pinned s"
  by (simp_all add: pop_to_def env_def bf_at_def pg_def st_def view_def tab_inv_def disk_inv_def intended_def
      bm_hash_def pinned_def fun_eq_iff cong: option.case_cong)

lemma frame_inv_reserve:
  assumes f: "frame_inv H E s" and x: "x < unat (frameCount s)" "virtMemPids s ! x = pid_none" and p: "p \<noteq> pid_none"
  shows "frame_inv H (insert x E) (put_pid x p s)"
proof -
  note F = frame_invD [OF f]
  have "\<exists>y < unat (frameCount s). pg s q = Some y \<and> (virtMemPids s)[x := p] ! y = q" if q: "q \<in> dom (res s) - H" for q
  proof -
    obtain y where y: "y < unat (frameCount s)" "pg s q = Some y" "virtMemPids s ! y = q" using F(3) q by blast
    then have "y \<noteq> x" using q x(2) by auto
    then show ?thesis using y by auto
  qed
  moreover have "y \<in> set (freeList s)" if "y < unat (frameCount s)" "(virtMemPids s)[x := p] ! y = pid_none" for y
    using that F(2,6) p by (cases "y = x") simp_all
  moreover have "y \<in> insert x E \<or> (virtMemPids s)[x := p] ! y \<in> dom (res s) - H \<and> pg s ((virtMemPids s)[x := p] ! y) = Some y"
    if "y < unat (frameCount s)" "(virtMemPids s)[x := p] ! y \<noteq> pid_none" for y
    using that F(5) by (cases "y = x") simp_all
  ultimately show ?thesis using F by (simp add: frame_inv_def)
qed

lemma put_pid_same [simp]: "put_pid x (virtMemPids s ! x) s = s"
  by (simp add: put_pid_def)

lemma intended_less: "0 < frameCount s \<Longrightarrow> intended s p < unat (frameCount s)"
  unfolding intended_def by (rule intendedFrame_less)

lemma trySetPresent_ok:
  assumes inv: "pool_inv n H E s" and x: "x < unat (frameCount s)" and p: "p \<noteq> pid_none"
  shows "if virtMemPids s ! x = pid_none
    then trySetPresent x p s = Ret (True, put_pid x p s) \<and> pool_inv n H (insert x E) (put_pid x p s)
    else trySetPresent x p s = Ret (False, s)"
proof -
  have "x < length (virtMemPids s)" using x frame_invD(2) [OF pool_invD(2) [OF inv]] by simp
  then show ?thesis
    using frame_inv_reserve [OF pool_invD(2) [OF inv] x _ p] inv
    by (simp add: trySetPresent_def cas_def put_pid_def [symmetric] pool_inv_def)
qed

lemma queue_ok: "tab_inv n s \<Longrightarrow> deq_ok (queue_pop s)"
  by (simp add: tab_inv_def table_ok_def)

text \<open>A frame from the free list, or after evictions; it is reserved for the page.\<close>

definition reserved :: "nat \<Rightarrow> PID set \<Rightarrow> nat set \<Rightarrow> PID \<Rightarrow> bm \<Rightarrow> nat \<Rightarrow> bm \<Rightarrow> bool" where
  "reserved n H E p s x s' \<longleftrightarrow> x < unat (frameCount s) \<and> virtMemPids s' ! x = p \<and> pool_inv n H (insert x E) s' \<and>
     (\<forall>q. q \<notin> H \<longrightarrow> view s' q = view s q) \<and> env s' = env s \<and> keeps (pinned s) s s' \<and>
     (\<forall>q \<in> dom (res s') - H. pg s' q \<noteq> Some x) \<and> (\<forall>q \<in> H. disk s' (loc s q) = disk s (loc s q)) \<and>
     pinned s' \<subseteq> pinned s"

lemma reserve_put:
  assumes inv: "pool_inv n H E s" and x: "x < unat (frameCount s)" "virtMemPids s ! x = pid_none" and p: "p \<noteq> pid_none"
  shows "reserved n H E p s x (put_pid x p s)"
proof -
  note F = frame_invD [OF pool_invD(2) [OF inv]]
  have "pg s q \<noteq> Some x" if q: "q \<in> dom (res s) - H" for q
  proof
    assume "pg s q = Some x"
    then have "virtMemPids s ! x = q" using F(3) [of q] q by auto
    then show False using q x(2) by auto
  qed
  then show ?thesis
    using trySetPresent_ok [OF inv x(1) p] x F(2) by (simp add: reserved_def keeps_def)
qed

lemma getFreePage_ok:
  assumes "pool_inv n H E s" and "unat (batch s) \<le> 128" and "p \<noteq> pid_none"
  shows "getFreePageHTCache fuel p s = Loop \<or>
    (\<exists>x s'. getFreePageHTCache fuel p s = Ret (x, s') \<and> reserved n H E p s x s')"
  using assms
proof (induction fuel arbitrary: s)
  case 0
  then show ?case by simp
next
  case (Suc fuel)
  note inv = Suc.prems(1)
  note F = frame_invD [OF pool_invD(2) [OF inv]]
  show ?case
  proof (cases "queue_pop s (freeList s)")
    case None
    obtain s1 where s1: "evict s = Ret s1" "pool_inv n H E s1" "\<forall>q. q \<notin> H \<longrightarrow> view s1 q = view s q" "env s1 = env s"
      "held (pinned s) s s1" "\<forall>q \<in> H. disk s1 (loc s q) = disk s (loc s q)" "pinned s1 \<subseteq> pinned s" using evict_correct [OF inv Suc.prems(2)] by blast
    have k: "keeps (pinned s) s s1" by (rule held_keeps [OF s1(5)])
    have "unat (batch s1) \<le> 128" using Suc.prems(2) env_eqD(2) [OF s1(4)] by simp
    from Suc.IH [OF s1(2) this Suc.prems(3)]
    show ?thesis
    proof
      assume "getFreePageHTCache fuel p s1 = Loop"
      then show ?thesis using None s1(1) by simp
    next
      assume "\<exists>x s'. getFreePageHTCache fuel p s1 = Ret (x, s') \<and> reserved n H E p s1 x s'"
      then obtain x s' where r: "getFreePageHTCache fuel p s1 = Ret (x, s')" "reserved n H E p s1 x s'" by blast
      have "keeps (pinned s) s s'"
        using k r(2) keeps_pinned [OF k] keeps_trans keeps_mono unfolding reserved_def by blast
      then have "reserved n H E p s x s'" using r(2) s1(3,4,6,7) env_eqD(1,3) [OF s1(4)] by (auto simp: reserved_def)
      then show ?thesis using None s1(1) r(1) by auto
    qed
  next
    case (Some xq)
    obtain x q where xq: "xq = (x, q)" by fastforce
    have dq: "x \<in> set (freeList s)" "set q \<subseteq> set (freeList s)" "mset (freeList s) = add_mset x (mset q)"
      using deq_okD(1,2) [OF queue_ok [OF pool_invD(1) [OF inv]]] queue_ok [OF pool_invD(1) [OF inv]] Some xq
      by (auto simp: deq_ok_def)
    have x: "x < unat (frameCount s)" "x < length (virtMemPids s)" using dq(1) F(2,7) by auto
    have fl: "set (freeList s) = insert x (set q)"
      using arg_cong [OF dq(3), of set_mset] by simp
    show ?thesis
    proof (cases "virtMemPids s ! x = pid_none")
      case True
      define s1 where "s1 = pop_to q (put_pid x p s)"
      have f1: "frame_inv H (insert x E) (put_pid x p s)" using reserve_put [OF inv x(1) True Suc.prems(3)]
        by (simp add: reserved_def pool_inv_def)
      have "frame_inv H (insert x E) s1"
        using f1 fl x Suc.prems(3) unfolding frame_inv_def s1_def by (auto simp: nth_list_update split: if_splits)
      then have "reserved n H E p s x s1"
        using reserve_put [OF inv x(1) True Suc.prems(3)]
        by (simp add: reserved_def s1_def pool_inv_def keeps_def)
      moreover have "trySetPresent x p (s\<lparr>freeList := q\<rparr>) = Ret (True, s1)"
        using x True by (simp add: trySetPresent_def cas_def s1_def put_pid_def pop_to_def)
      ultimately show ?thesis using Some xq by auto
    next
      case False
      define s1 where "s1 = pop_to q s"
      have "frame_inv H E s1"
        using pool_invD(2) [OF inv] fl False unfolding frame_inv_def s1_def by auto
      then have inv1: "pool_inv n H E s1" using inv by (simp add: pool_inv_def s1_def)
      have "trySetPresent x p (s\<lparr>freeList := q\<rparr>) = Ret (False, s1)"
        using x False by (simp add: trySetPresent_def cas_def s1_def pop_to_def)
      then have eq: "getFreePageHTCache (Suc fuel) p s = getFreePageHTCache fuel p s1" using Some xq by simp
      have "reserved n H E p s1 y s' = reserved n H E p s y s'" for y s'
        by (simp add: reserved_def s1_def keeps_def)
      then show ?thesis using Suc.IH [OF inv1 _ Suc.prems(3)] Suc.prems(2) unfolding eq by (simp add: s1_def)
    qed
  qed
qed

section \<open>Giving a page its frame\<close>

definition put_page :: "nat \<Rightarrow> page \<Rightarrow> bm \<Rightarrow> bm" where
  "put_page x c s = s\<lparr>virtMem := (virtMem s)[x := c]\<rparr>"

lemma put_page_sel [simp]:
  "ht (put_page x c s) = ht s" "residentSet (put_page x c s) = residentSet s"
  "virtMem (put_page x c s) = (virtMem s)[x := c]"
  "frameCount (put_page x c s) = frameCount s" "disk (put_page x c s) = disk s" "blockfds (put_page x c s) = blockfds s"
  "env (put_page x c s) = env s" "bf_at (put_page x c s) = bf_at s" "pg (put_page x c s) = pg s" "st (put_page x c s) = st s"
  "batch (put_page x c s) = batch s" "queue_pop (put_page x c s) = queue_pop s"
  "io_submit (put_page x c s) = io_submit s" "virtMemPids (put_page x c s) = virtMemPids s"
  "freeList (put_page x c s) = freeList s" "tab_inv n (put_page x c s) = tab_inv n s"
  "intended (put_page x c s) = intended s" "frame_inv H E (put_page x c s) = frame_inv H E s"
  "bm_hash (put_page x c s) = bm_hash s" "pinned (put_page x c s) = pinned s"
  by (simp_all add: put_page_def env_def bf_at_def pg_def st_def tab_inv_def frame_inv_def intended_def
      bm_hash_def pinned_def fun_eq_iff cong: option.case_cong)

lemma upd_page_put: "x < length (virtMem s) \<Longrightarrow> upd_page x f s = Ret (put_page x (f (virtMem s ! x)) s)"
  by (simp add: upd_page_def put_page_def)

lemma copy_page_put:
  "x < length (virtMem s) \<Longrightarrow> y < length (virtMem s) \<Longrightarrow> copy_page x y s = Ret (put_page x (virtMem s ! y) s)"
  by (simp add: copy_page_def upd_page_put)

lemma set_pid_put: "x < length (virtMemPids s) \<Longrightarrow> set_pid x p s = Ret (put_pid x p s)"
  by (simp add: set_pid_def put_pid_def)

lemma with_page_sel [simp]:
  "bpid (with_page x b bf) = bpid bf" "bpage (with_page x b bf) = Some x" "bstate (with_page x b bf) = bstate bf"
  by (simp_all add: with_page_def)

lemma with_page_facts:
  assumes "tab_inv n s" and "res s p = Some r"
  shows "tab_inv n (upd_bf r (with_page x b) s)" "res (upd_bf r (with_page x b) s) = res s"
    "pg (upd_bf r (with_page x b) s) = (pg s)(p := Some x)" "st (upd_bf r (with_page x b) s) = st s"
    "res s q = Some r' \<Longrightarrow> q \<noteq> p \<Longrightarrow> bf_at (upd_bf r (with_page x b) s) r' = bf_at s r'"
    "bf_at (upd_bf r (with_page x b) s) r = with_page x b (bf_at s r)"
proof -
  have "bpid (with_page x b (bf_at s r)) = bpid (bf_at s r)" by simp
  note F = upd_bf_facts [where g = "with_page x b", OF assms this]
  show "tab_inv n (upd_bf r (with_page x b) s)" "res (upd_bf r (with_page x b) s) = res s"
    "bf_at (upd_bf r (with_page x b) s) r = with_page x b (bf_at s r)" by (rule F)+
  show "pg (upd_bf r (with_page x b) s) = (pg s)(p := Some x)" using F(5) by (simp add: fun_eq_iff)
  show "st (upd_bf r (with_page x b) s) = st s" using F(6) pg_st_Some [OF assms(2)] by (simp add: fun_eq_iff)
  show "res s q = Some r' \<Longrightarrow> q \<noteq> p \<Longrightarrow> bf_at (upd_bf r (with_page x b) s) r' = bf_at s r'" by (rule F)
qed

text \<open>
  The page \<open>p\<close>, which has no frame yet, gets the frame \<open>x\<close> that is reserved for it, with
  content \<open>c\<close>.
\<close>

lemma settle:
  fixes b :: bool and c :: page
  assumes inv: "pool_inv n {p} {x} s" and x: "x < unat (frameCount s)" "virtMemPids s ! x = p"
    and p: "res s p = Some r" and free: "\<forall>q \<in> dom (res s) - {p}. pg s q \<noteq> Some x"
    and c: "dirty c \<or> map_option body (disk s (loc s p)) = Some (body c)"
  defines "s' \<equiv> put_page x c (upd_bf r (with_page x b) s)"
  shows "pool_inv n {} {} s'" "res s' = res s" "pg s' = (pg s)(p := Some x)" "st s' = st s"
    "view s' p = Some (body c)" "q \<noteq> p \<Longrightarrow> view s' q = view s q" "env s' = env s" "keeps (dom (res s) - {p}) s s'"
    "bf_at s' r = with_page x b (bf_at s r)"
proof -
  note W = with_page_facts [where x = x and b = b, OF pool_invD(1) [OF inv] p]
  note F = frame_invD [OF pool_invD(2) [OF inv]] and D = disk_invD [OF pool_invD(3) [OF inv]]
  show rs: "res s' = res s" and pgs: "pg s' = (pg s)(p := Some x)" and sts: "st s' = st s" and "env s' = env s"
    using W by (simp_all add: s'_def)
  have xl: "x < length (virtMem s)" using x F(1) by simp
  have sel: "virtMem s' = (virtMem s)[x := c]" "virtMemPids s' = virtMemPids s" "frameCount s' = frameCount s"
    "freeList s' = freeList s" "disk s' = disk s" "blockfds s' = blockfds s" "io_submit s' = io_submit s"
    by (simp_all add: s'_def)
  have oth: "\<exists>y < unat (frameCount s). pg s q = Some y \<and> virtMemPids s ! y = q \<and> y \<noteq> x"
    if q: "q \<in> dom (res s)" "q \<noteq> p" for q
    using F(3) [OF q(1)] q free by auto
  have "frame_inv {} {} s'"
    unfolding frame_inv_def sel rs
  proof (intro conjI ballI allI impI)
    fix q assume "q \<in> dom (res s) - {}"
    then show "\<exists>y < unat (frameCount s). pg s' q = Some y \<and> virtMemPids s ! y = q"
      using oth [of q] x by (cases "q = p") (auto simp: pgs)
  next
    fix y assume y: "y < unat (frameCount s)" "virtMemPids s ! y \<noteq> pid_none"
    from F(5) [OF y] show "y \<in> {} \<or> virtMemPids s ! y \<in> dom (res s) - {} \<and> pg s' (virtMemPids s ! y) = Some y"
      using x(2) p by (auto simp: pgs)
  qed (use F in auto)
  moreover have "disk_inv {} s'"
    unfolding disk_inv_def sel rs
  proof (intro conjI allI impI ballI)
    fix q y assume q: "q \<in> dom (res s) - {}" "pg s' q = Some y" "\<not> dirty ((virtMem s)[x := c] ! y)"
    show "map_option body (disk s (loc s q)) = Some (body ((virtMem s)[x := c] ! y))"
    proof (cases "q = p")
      case True
      then show ?thesis using q c xl by (simp add: pgs)
    next
      case False
      then have "pg s q = Some y" "y \<noteq> x" using q oth [of q] by (auto simp: pgs)
      then show ?thesis using D(1) [of q y] q False by simp
    qed
  qed (use D in auto)
  ultimately show "pool_inv n {} {} s'" using W(1) by (simp add: pool_inv_def s'_def)
  show "view s' p = Some (body c)" using p xl by (simp add: view_def rs pgs sel)
  show "view s' q = view s q" if qp: "q \<noteq> p"
  proof (cases "res s q")
    case (Some y)
    have "q \<in> dom (res s)" using Some by blast
    then obtain z where "pg s q = Some z" "z \<noteq> x" using oth [of q] qp by blast
    then show ?thesis using Some qp by (simp add: view_def rs pgs sel)
  qed (simp add: view_def rs sel)
  show "keeps (dom (res s) - {p}) s s'" using W(2,5) by (auto simp: keeps_def s'_def)
  show "bf_at s' r = with_page x b (bf_at s r)" using W(6) by (simp add: s'_def)
qed

section \<open>A page that enters the pool\<close>

lemma card_resident:
  assumes "frame_inv {} E s" and "finite (dom (res s))"
  shows "card (dom (res s)) \<le> unat (frameCount s)"
proof -
  let ?f = "\<lambda>p. the (pg s p)"
  have "inj_on ?f (dom (res s))"
  proof (rule inj_onI)
    fix p q assume p: "p \<in> dom (res s)" "q \<in> dom (res s)" "the (pg s p) = the (pg s q)"
    obtain x y where "pg s p = Some x" "pg s q = Some y"
      using frame_invD(3) [OF assms(1)] p(1,2) by blast
    then have "pg s p = pg s q" using p(3) by simp
    then show "p = q" using slot_inj [OF assms(1) p(1) _ p(2)] by simp
  qed
  moreover have "?f ` dom (res s) \<subseteq> {..< unat (frameCount s)}"
    using frame_invD(3) [OF assms(1)] by fastforce
  ultimately show ?thesis using card_inj_on_le [of ?f "dom (res s)" "{..< unat (frameCount s)}"] by simp
qed

text \<open>The page table and the resident set take a new page, which is locked and has no frame yet.\<close>

lemma enter_page:
  assumes inv: "pool_inv (Suc (Suc n)) {} {} s" and p: "res s p = None" "real_pid p"
  shows "\<exists>r t rs. ht_insert (queue_pop s) p (bm_hash s p) (ht s) = Ret (Some r, t) \<and>
    rs_insert p (residentSet s) = Ret rs \<and>
    (let s1 = s\<lparr>ht := t, residentSet := rs\<rparr> in
      pool_inv n {p} {} s1 \<and> res s1 = (res s)(p \<mapsto> r) \<and> env s1 = env s \<and> bpid (bf_at s1 r) = p \<and>
      st s1 p = Locked \<and> (\<forall>q. q \<noteq> p \<longrightarrow> view s1 q = view s q) \<and> keeps (dom (res s)) s s1)"
proof -
  note I = pool_invD [OF inv] and F = frame_invD [OF pool_invD(2) [OF inv]] and T = tab_invD [OF pool_invD(1) [OF inv]]
  have p0: "p \<noteq> pid_none" by (rule real_pid_none [OF p(2)])
  have ok: "table_ok (queue_pop s) (Suc (n + Suc (card (dom (res s))))) (ht s)" using T(1) by simp
  from pt.ins_new [OF ok p0 p(1), of "frameCount s"] obtain r t where
    t: "ht_insert (queue_pop s) p (bm_hash s p) (ht s) = Ret (Some r, t)"
      "table_ok (queue_pop s) (n + Suc (card (dom (res s)))) t" "ht_lookup t = (res s)(p \<mapsto> r)"
      "fresh_frame p (frame_at t r)" "\<forall>q x. res s q = Some x \<longrightarrow> frame_at t x = frame_at (ht s) x"
    by (auto simp: bm_hash_def)
  have nin: "p \<notin> dom (res s)" using p(1) by blast
  have ne: "virtMemPids s ! x \<noteq> p" if "x < unat (frameCount s)" for x
    using F(5) [OF that] nin p0 by auto
  have "card (dom (res s)) < rs_room (residentSet s)"
    using card_resident [OF I(2) T(2)] I(1) by (simp add: tab_inv_def)
  from rs.ins_law [OF T(4) p(2) _ this [folded T(3)]] nin T(3) obtain rs where
    rs: "rs_insert p (residentSet s) = Ret rs" "rs_ok rs" "members rs = insert p (dom (res s))"
      "rs_room rs = rs_room (residentSet s)" by auto
  define s1 where "s1 = s\<lparr>ht := t, residentSet := rs\<rparr>"
  have r1: "res s1 = (res s)(p \<mapsto> r)" by (simp add: s1_def t(3))
  have b1: "\<forall>q x. res s q = Some x \<longrightarrow> bf_at s1 x = bf_at s x" using t(5) by (simp add: bf_at_def s1_def)
  have oth: "pg s1 q = pg s q \<and> st s1 q = st s q" if "q \<noteq> p" for q
    using that r1 b1 by (auto simp: pg_def st_def split: option.split)
  have old: "pg s1 q = pg s q" if "q \<in> dom (res s)" for q
    using oth [of q] that nin by blast
  have new: "bpid (bf_at s1 r) = p" "st s1 p = Locked"
    using t(4) r1 by (simp_all add: bf_at_def s1_def fresh_frame_def st_def)
  have sel: "virtMem s1 = virtMem s" "virtMemPids s1 = virtMemPids s" "frameCount s1 = frameCount s"
    "freeList s1 = freeList s" "disk s1 = disk s" "blockfds s1 = blockfds s" "io_submit s1 = io_submit s"
    "residentSet s1 = rs" "queue_pop s1 = queue_pop s" "ht s1 = t"
    by (simp_all add: s1_def)
  have dm: "dom (res s1) = insert p (dom (res s))" "dom (res s1) - {p} = dom (res s)" using r1 nin by auto
  have "card (dom (res s1)) = Suc (card (dom (res s)))" using T(2) nin by (simp add: dm(1))
  then have "tab_inv n s1"
    using t(2) rs I(1) dm(1) by (simp add: tab_inv_def sel t(3))
  moreover have "frame_inv {p} {} s1"
    unfolding frame_inv_def dm(2) sel(1-4)
  proof (intro conjI ballI allI impI)
    fix q assume q: "q \<in> dom (res s)"
    then have "pg s1 q = pg s q" using oth [of q] nin by blast
    then show "\<exists>x < unat (frameCount s). pg s1 q = Some x \<and> virtMemPids s ! x = q" using F(3) [OF q] by simp
  next
    fix q assume "q \<in> {p}"
    then show "q \<in> dom (res s1)" "st s1 q = Locked" using new dm by auto
  next
    fix x assume x: "x < unat (frameCount s)" "virtMemPids s ! x \<noteq> pid_none"
    from F(5) [OF x] show "x \<in> {} \<or> virtMemPids s ! x \<in> dom (res s) \<and> pg s1 (virtMemPids s ! x) = Some x"
      using oth ne [OF x(1)] by auto
  qed (use F in auto)
  moreover have "disk_inv {p} s1"
    by (rule disk_inv_sub [OF I(3)]) (use dm(2) old sel(1,5-7) in auto)
  ultimately have "pool_inv n {p} {} s1" by (simp add: pool_inv_def)
  moreover have "env s1 = env s" using rs(4) by (simp add: env_def s1_def)
  moreover have "\<forall>q. q \<noteq> p \<longrightarrow> view s1 q = view s q" using oth r1 by (simp add: view_def sel(1,5,6))
  moreover have "keeps (dom (res s)) s s1" using b1 r1 nin by (auto simp: keeps_def)
  ultimately show ?thesis using t(1) rs(1) r1 new unfolding s1_def Let_def by blast
qed

section \<open>Faults\<close>

text \<open>The frame of a new page: the preferred one or any other, reserved for it.\<close>

lemma claim_frame_ok:
  assumes inv: "pool_inv n H E s" and b: "unat (batch s) \<le> 128" and p: "p \<noteq> pid_none"
  shows "claim_frame fuel p s = Loop \<or>
    (\<exists>x ok s'. claim_frame fuel p s = Ret ((x, ok), s') \<and> reserved n H E p s x s')"
proof -
  have ix: "intended s p < unat (frameCount s)"
    by (rule intended_less [OF frame_invD(8) [OF pool_invD(2) [OF inv]]])
  show ?thesis
  proof (cases "virtMemPids s ! intended s p = pid_none")
    case True
    then have "claim_frame fuel p s = Ret ((intended s p, True), put_pid (intended s p) p s)"
      using trySetPresent_ok [OF inv ix p] by (simp add: claim_frame_def)
    then show ?thesis using reserve_put [OF inv ix True p] by blast
  next
    case False
    then show ?thesis
      using trySetPresent_ok [OF inv ix p] getFreePage_ok [OF inv b p, of fuel] by (auto simp: claim_frame_def)
  qed
qed

text \<open>What a fault leaves: the page is resident, locked, in a frame, with its content on disk.\<close>

definition loaded :: "nat \<Rightarrow> PID \<Rightarrow> bm \<Rightarrow> fref \<Rightarrow> bm \<Rightarrow> bool" where
  "loaded n p s r s' \<longleftrightarrow> pool_inv n {} {} s' \<and> res s' p = Some r \<and> st s' p = Locked \<and>
     view s' = view s \<and> env s' = env s \<and> keeps (pinned s) s s' \<and> pinned s' \<subseteq> insert p (pinned s)"

lemma pinned_kept:
  assumes "keeps (dom (res s) - {p}) s s'" and "dom (res s') \<subseteq> insert p (dom (res s))"
  shows "pinned s' \<subseteq> insert p (pinned s)"
proof
  fix q assume q: "q \<in> pinned s'"
  show "q \<in> insert p (pinned s)"
  proof (cases "q = p")
    case False
    then have "q \<in> dom (res s) - {p}" using q assms(2) by (auto simp: pinned_def)
    then obtain r where r: "res s q = Some r" by blast
    then have "res s' q = Some r" "bf_at s' r = bf_at s r" using assms(1) \<open>q \<in> dom (res s) - {p}\<close> by (auto simp: keeps_def)
    then show ?thesis using q r pg_st_Some [OF r] pg_st_Some [of s' q r] by (auto simp: pinned_def)
  qed simp
qed

lemma pinned_same_st: "res s' = res s \<Longrightarrow> st s' = st s \<Longrightarrow> pinned s' = pinned s"
  by (simp add: pinned_def)

lemma keeps_enter:
  assumes "keeps (dom (res s)) s s1" and "keeps (pinned s1) s1 s2" and "keeps (dom (res s2) - {p}) s2 s3" and "p \<notin> dom (res s)"
  shows "keeps (pinned s) s s3"
proof -
  have sub: "pinned s \<subseteq> dom (res s)" by (auto simp: pinned_def)
  have k1: "keeps (pinned s) s s1" by (rule keeps_mono [OF assms(1) sub])
  have k2: "keeps (pinned s) s1 s2" by (rule keeps_mono [OF assms(2) keeps_pinned [OF k1]])
  have k12: "keeps (pinned s) s s2" by (rule keeps_trans [OF k1 k2])
  have "pinned s \<subseteq> dom (res s2) - {p}"
    using k12 sub assms(4) by (force simp: keeps_def)
  then show ?thesis by (rule keeps_trans [OF k12 keeps_mono [OF assms(3)]])
qed

lemma handleFault_ok:
  assumes inv: "pool_inv (Suc (Suc n)) {} {} s" and b: "unat (batch s) \<le> 128"
    and p: "res s p = None" "real_pid p" and d: "disk s (loc s p) = Some c"
  shows "handleFault fuel p s = Loop \<or> (\<exists>r s'. handleFault fuel p s = Ret (Some r, s') \<and> loaded n p s r s')"
proof -
  have p0: "p \<noteq> pid_none" by (rule real_pid_none [OF p(2)])
  have nin: "p \<notin> dom (res s)" using p(1) by blast
  obtain r t rs where t: "ht_insert (queue_pop s) p (bm_hash s p) (ht s) = Ret (Some r, t)" "rs_insert p (residentSet s) = Ret rs"
    and S1: "let s1 = s\<lparr>ht := t, residentSet := rs\<rparr> in
      pool_inv n {p} {} s1 \<and> res s1 = (res s)(p \<mapsto> r) \<and> env s1 = env s \<and> bpid (bf_at s1 r) = p \<and>
      st s1 p = Locked \<and> (\<forall>q. q \<noteq> p \<longrightarrow> view s1 q = view s q) \<and> keeps (dom (res s)) s s1"
    using enter_page [OF inv p] by blast
  define s1 where "s1 = s\<lparr>ht := t, residentSet := rs\<rparr>"
  note S1 = S1 [unfolded Let_def, folded s1_def]
  have inv1: "pool_inv n {p} {} s1" and r1: "res s1 p = Some r" "p \<in> pinned s1"
    using S1 by (auto simp: pinned_def)
  have chk: "getState (bstate (bf_at s1 r)) = Locked" "bpid (bf_at s1 r) = p" using S1 pg_st_Some [OF r1(1)] by simp_all
  have "unat (batch s1) \<le> 128" using b by (simp add: s1_def)
  from claim_frame_ok [OF inv1 this p0, of fuel] show ?thesis
  proof
    assume "claim_frame fuel p s1 = Loop"
    then show ?thesis using t chk by (simp add: handleFault_def flip: s1_def)
  next
    assume "\<exists>x ok s2. claim_frame fuel p s1 = Ret ((x, ok), s2) \<and> reserved n {p} {} p s1 x s2"
    then obtain x ok s2 where c2: "claim_frame fuel p s1 = Ret ((x, ok), s2)" and R: "reserved n {p} {} p s1 x s2" by blast
    have e2: "env s2 = env s1" "env s2 = env s" using R S1 by (simp_all add: reserved_def)
    have r2: "res s2 p = Some r" "bf_at s2 r = bf_at s1 r" using R r1 by (auto simp: reserved_def keeps_def)
    have inv2: "pool_inv n {p} {x} s2" using R by (simp add: reserved_def)
    note F2 = frame_invD [OF pool_invD(2) [OF inv2]]
    have x: "x < unat (frameCount s2)" "virtMemPids s2 ! x = p" using R env_eqD(1) [OF e2(1)] by (simp_all add: reserved_def)
    have free: "\<forall>q \<in> dom (res s2) - {p}. pg s2 q \<noteq> Some x" using R by (simp add: reserved_def)
    define fl where "fl \<longleftrightarrow> ok \<and> \<not> disablePredict (promo_cfg s2)"
    have "disk s2 (loc s1 p) = disk s1 (loc s1 p)" using R by (simp add: reserved_def)
    then have dk: "disk s2 (loc s2 p) = Some c" using d env_eqD(3) [OF e2(1)] by (simp add: s1_def)
    have cl: "\<not> dirty c" by (rule disk_invD(4) [OF pool_invD(3) [OF inv2] dk])
    have len: "x < length (virtMem s2)" "x < length (virtMemPids s2)" using x F2 by simp_all
    define s3 where "s3 = upd_bf r (with_page x fl) s2"
    define s4 where "s4 = put_page x c s3"
    define s' where "s' = s4\<lparr>readCount := readCount s4 + 1\<rparr>"
    have "dirty c \<or> map_option body (disk s2 (loc s2 p)) = Some (body c)" using dk by simp
    note T = settle [where b = fl and c = c, OF inv2 x r2(1) free this, folded s3_def s4_def]
    have sc: "same_core s4 s'" by (simp add: same_core_def s'_def)
    note C = same_core_inv [OF sc]
    have vp: "view s q = view s4 q" for q
    proof (cases "q = p")
      case True
      have "view s4 p = Some (body c)" using T(5) dk by simp
      then show ?thesis using True d p(1) by (simp add: view_def [of s])
    next
      case False
      then show ?thesis using T(6) [of q] dk R S1 by (simp add: reserved_def)
    qed
    have "keeps (pinned s) s s4"
      by (rule keeps_enter [where p = p and ?s1.0 = s1 and ?s2.0 = s2]) (use S1 R T(8) nin in \<open>simp_all add: reserved_def\<close>)
    then have "keeps (pinned s) s s'" by (simp add: keeps_def C)
    moreover have "st s2 p = Locked" using R r2 S1 pg_st_Some [OF r1(1)] pg_st_Some [OF r2(1)] by simp
    moreover have "pinned s' \<subseteq> insert p (pinned s)"
    proof -
      have "pinned s1 \<subseteq> insert p (pinned s)"
        by (rule pinned_kept) (use S1 nin in \<open>auto simp: keeps_def\<close>)
      then show ?thesis using pinned_same_st [OF T(2,4)] R by (auto simp: C reserved_def)
    qed
    ultimately have "loaded n p s r s'"
      using T(1,2,4,7) vp r2(1) e2(2) by (simp add: loaded_def C fun_eq_iff)
    moreover have "readPageToHTCache p x s3 = Ret s'"
      using dk cl len by (simp add: readPageToHTCache_def s3_def getFileAndIndex_def upd_page_put flip: s4_def) (simp add: s4_def s'_def s3_def)
    moreover have "set_pid x p s' = Ret s'"
    proof -
      have "virtMemPids s' = virtMemPids s2" by (simp add: C) (simp add: s4_def s3_def)
      then show ?thesis using len x(2) set_pid_put [of x s' p] put_pid_same [of x s'] by simp
    qed
    moreover have "upd_bf r (with_page x (ok \<and> \<not> disablePredict (promo_cfg s2))) s2 = s3" by (simp add: s3_def fl_def)
    ultimately show ?thesis using t chk c2 by (simp add: handleFault_def flip: s1_def)
  qed
qed

section \<open>Allocation\<close>

lemma upd_bf_id: "g (bf_at s r) = bf_at s r \<Longrightarrow> upd_bf r g s = s"
  by (cases r) (simp_all add: upd_bf_def upd_frame_def upd_head_def upd_entry_def bf_at_def frame_at_def)

lemma with_page_again:
  "bpage (bf_at s r) = Some x \<Longrightarrow> upd_bf r (with_page x (intendedSlot (bf_at s r))) s = s"
  by (rule upd_bf_id) (simp add: with_page_def)

text \<open>The frame of a page that does not own one yet can be set to anything.\<close>

lemma with_page_held:
  fixes x :: nat and b :: bool
  assumes inv: "pool_inv n H E s" and p: "res s p = Some r" "p \<in> H"
  defines "s' \<equiv> upd_bf r (with_page x b) s"
  shows "pool_inv n H E s'" "q \<noteq> p \<Longrightarrow> view s' q = view s q" "pinned s' = pinned s" "res s' = res s" "st s' = st s"
    "keeps (dom (res s) - {p}) s s'"
proof -
  note W = with_page_facts [where x = x and b = b, OF pool_invD(1) [OF inv] p(1), folded s'_def]
  have sel: "virtMem s' = virtMem s" "virtMemPids s' = virtMemPids s" "frameCount s' = frameCount s"
    "freeList s' = freeList s" "disk s' = disk s" "blockfds s' = blockfds s" "io_submit s' = io_submit s"
    by (simp_all add: s'_def)
  have pgs: "pg s' q = pg s q" if "q \<notin> H" for q using W(3) p(2) that by auto
  note F = frame_invD [OF pool_invD(2) [OF inv]]
  have "frame_inv H E s'"
    unfolding frame_inv_def W(2,4) sel
  proof (intro conjI ballI allI impI)
    fix q assume "q \<in> dom (res s) - H"
    then show "\<exists>x < unat (frameCount s). pg s' q = Some x \<and> virtMemPids s ! x = q" using F(3) pgs by auto
  next
    fix x assume x: "x < unat (frameCount s)" "virtMemPids s ! x \<noteq> pid_none"
    from F(5) [OF x] show "x \<in> E \<or> virtMemPids s ! x \<in> dom (res s) - H \<and> pg s' (virtMemPids s ! x) = Some x"
      using pgs by auto
  qed (use F in auto)
  moreover have "disk_inv H s'"
    by (rule disk_inv_sub [OF pool_invD(3) [OF inv]]) (use W pgs sel in auto)
  ultimately show "pool_inv n H E s'" using W(1) by (simp add: pool_inv_def)
  show "q \<noteq> p \<Longrightarrow> view s' q = view s q" by (simp add: view_def W sel)
  show "pinned s' = pinned s" by (simp add: pinned_def W)
  show "res s' = res s" "st s' = st s" by (rule W)+
  show "keeps (dom (res s) - {p}) s s'" using W(2,5) by (auto simp: keeps_def)
qed

text \<open>What an allocation leaves: a new page, locked, dirty, with its page id in its header.\<close>

definition allocated :: "nat \<Rightarrow> PID \<Rightarrow> bm \<Rightarrow> fref \<Rightarrow> bm \<Rightarrow> bool" where
  "allocated n p s r s' \<longleftrightarrow> pool_inv n {} {} s' \<and> res s' p = Some r \<and> st s' p = Locked \<and>
     (\<exists>x. pg s' p = Some x \<and> dirty (virtMem s' ! x) \<and> ppid (virtMem s' ! x) = p) \<and>
     (\<forall>q. q \<noteq> p \<longrightarrow> view s' q = view s q) \<and> env s' = env s \<and> keeps (pinned s) s s' \<and> pinned s' \<subseteq> insert p (pinned s)"

lemma allocPage_ok:
  assumes inv: "pool_inv (Suc (Suc n)) {} {} s" and b: "unat (batch s) \<le> 128"
    and p: "res s (allocCount s) = None" "real_pid (allocCount s)"
  shows "allocPage fuel s = Loop \<or> (\<exists>r s'. allocPage fuel s = Ret (r, s') \<and> allocated n (allocCount s) s r s')"
proof -
  define p where "p = allocCount s"
  define s0 where "s0 = s\<lparr>allocCount := p + 1\<rparr>"
  have sc: "same_core s s0" by (simp add: same_core_def s0_def)
  note C = same_core_inv [OF sc]
  have p0: "p \<noteq> pid_none" using real_pid_none p(2) by (simp add: p_def)
  have nin: "p \<notin> dom (res s)" "res s p = None" using p(1) by (auto simp: p_def)
  have inv0: "pool_inv (Suc (Suc n)) {} {} s0" "res s0 p = None" using inv p(1) by (simp_all add: C p_def)
  obtain r t rs where t: "ht_insert (queue_pop s0) p (bm_hash s0 p) (ht s0) = Ret (Some r, t)" "rs_insert p (residentSet s0) = Ret rs"
    and S1: "let s1 = s0\<lparr>ht := t, residentSet := rs\<rparr> in
      pool_inv n {p} {} s1 \<and> res s1 = (res s0)(p \<mapsto> r) \<and> env s1 = env s0 \<and> bpid (bf_at s1 r) = p \<and>
      st s1 p = Locked \<and> (\<forall>q. q \<noteq> p \<longrightarrow> view s1 q = view s0 q) \<and> keeps (dom (res s0)) s0 s1"
    using enter_page [OF inv0 p(2) [folded p_def]] by blast
  define s1 where "s1 = s0\<lparr>ht := t, residentSet := rs\<rparr>"
  note S1 = S1 [unfolded Let_def, folded s1_def]
  have r1: "res s1 p = Some r" and inv1: "pool_inv n {p} {} s1" using S1 by simp_all
  define fl where "fl \<longleftrightarrow> \<not> disablePredict (promo_cfg s1)"
  define s2 where "s2 = upd_bf r (with_page (intended s1 p) fl) s1"
  note W = with_page_held [where x = "intended s1 p" and b = fl, OF inv1 r1 insertI1, folded s2_def]
  have e2: "env s2 = env s1" "intended s2 = intended s1" by (simp_all add: s2_def)
  have r2: "res s2 p = Some r" "p \<in> pinned s2" using r1 W(4,5) S1 by (auto simp: pinned_def)
  have k2: "keeps (dom (res s)) s s2"
  proof -
    have "keeps (dom (res s)) s0 s1" using S1 by (simp add: C)
    moreover have "dom (res s) \<subseteq> dom (res s1) - {p}" using S1 nin by (auto simp: C)
    ultimately have "keeps (dom (res s)) s0 s2" using W(6) keeps_mono keeps_trans by blast
    then show ?thesis by (simp add: keeps_def C)
  qed
  have s0_pc: "promo_cfg s0 = promo_cfg s1" by (simp add: s1_def)
  have alloc: "allocPage fuel s = bind_run (claim_frame fuel p s2) (\<lambda>((x, ok), s).
     let s = (if ok then s else upd_bf r (with_page x False) s) in
     bind_run (set_pid x p s) (\<lambda>s. bind_run (upd_page x (\<lambda>c. c\<lparr>dirty := True, ppid := p\<rparr>) s) (\<lambda>s. Ret (r, s))))"
    using t by (simp add: allocPage_def Let_def flip: p_def s0_def) (simp add: s2_def fl_def s0_pc flip: s1_def)
  have "unat (batch s2) \<le> 128" using b by (simp add: s2_def s1_def s0_def)
  from claim_frame_ok [OF W(1) this p0, of fuel] show ?thesis
  proof
    assume "claim_frame fuel p s2 = Loop"
    then show ?thesis using alloc by simp
  next
    assume "\<exists>x ok s3. claim_frame fuel p s2 = Ret ((x, ok), s3) \<and> reserved n {p} {} p s2 x s3"
    then obtain x ok s3 where c3: "claim_frame fuel p s2 = Ret ((x, ok), s3)" and R: "reserved n {p} {} p s2 x s3" by blast
    have r3: "res s3 p = Some r" "bf_at s3 r = bf_at s2 r" using R r2 by (auto simp: reserved_def keeps_def)
    have inv3: "pool_inv n {p} {x} s3" using R by (simp add: reserved_def)
    note F3 = frame_invD [OF pool_invD(2) [OF inv3]]
    have e3: "env s3 = env s" using R e2 S1 by (simp add: reserved_def C)
    have x: "x < unat (frameCount s3)" "virtMemPids s3 ! x = p"
      using R env_eqD(1) [of s3 s2] by (auto simp: reserved_def)
    have free: "\<forall>q \<in> dom (res s3) - {p}. pg s3 q \<noteq> Some x" using R by (simp add: reserved_def)
    have len: "x < length (virtMem s3)" "x < length (virtMemPids s3)" using x F3 by simp_all
    have i3: "intended s3 p = intended s1 p"
      using R e2(2) env_eqD(7) [of s3 s2] by (simp add: reserved_def)
    have ok: "ok \<Longrightarrow> x = intended s1 p"
      using c3 by (auto simp: claim_frame_def e2 i3 bind_run_eq_Ret split: if_splits)
    define b' where "b' = (if ok then intendedSlot (bf_at s3 r) else False)"
    define s4 where "s4 = upd_bf r (with_page x b') s3"
    have s4: "(if ok then s3 else upd_bf r (with_page x False) s3) = s4"
    proof (cases ok)
      case True
      have "bpage (bf_at s3 r) = Some x" using r3(2) with_page_facts(6) [OF pool_invD(1) [OF inv1] r1] ok [OF True]
        by (simp add: s2_def)
      then show ?thesis using True with_page_again by (simp add: s4_def b'_def)
    qed (simp add: s4_def b'_def)
    define c where "c = (virtMem s3 ! x)\<lparr>dirty := True, ppid := p\<rparr>"
    define s' where "s' = put_page x c s4"
    have "dirty c \<or> map_option body (disk s3 (loc s3 p)) = Some (body c)" by (simp add: c_def)
    note T = settle [where b = b' and c = c, OF inv3 x r3(1) free this, folded s4_def s'_def]
    have "set_pid x p s4 = Ret s4"
      using x(2) len(2) set_pid_put [of x s4 p] put_pid_same [of x s4] by (simp add: s4_def)
    moreover have "upd_page x (\<lambda>c. c\<lparr>dirty := True, ppid := p\<rparr>) s4 = Ret s'"
      using len(1) by (simp add: upd_page_put s'_def c_def s4_def)
    ultimately have "allocPage fuel s = Ret (r, s')" using alloc c3 s4 by simp
    moreover have "allocated n p s r s'"
    proof -
      have "keeps (pinned s) s s'"
        by (rule keeps_enter [where p = p and ?s1.0 = s2 and ?s2.0 = s3]) (use k2 R T(8) nin in \<open>simp_all add: reserved_def\<close>)
      moreover have "st s' p = Locked"
        using T(4) r3 r2 W(5) S1 pg_st_Some [OF r3(1)] pg_st_Some [OF r2(1)] by simp
      moreover have "view s' q = view s q" if "q \<noteq> p" for q
        using T(6) [OF that] W(2) [OF that] R S1 that by (simp add: reserved_def C)
      moreover have "pinned s' \<subseteq> insert p (pinned s)"
      proof -
        have "pinned s1 \<subseteq> insert p (pinned s0)"
          by (rule pinned_kept) (use S1 in \<open>auto simp: keeps_def\<close>)
        then have "pinned s2 \<subseteq> insert p (pinned s)" using W(3) by (simp add: C)
        then show ?thesis using pinned_same_st [OF T(2,4)] R by (auto simp: reserved_def)
      qed
      moreover have "virtMem s' ! x = c" using len(1) by (simp add: s'_def s4_def)
      ultimately show ?thesis using T(1-3,7) r3(1) e3 by (simp add: allocated_def c_def)
    qed
    ultimately show ?thesis unfolding p_def by blast
  qed
qed

end
