(* ===== verification/Fixing.thy ===== *)
theory Fixing
  imports Pool_Operations
begin

text \<open>
  \<open>fixX\<close> and \<open>fixS\<close>: what a thread that runs alone gets, for a page in the pool and for a
  page on disk, and that a second fix of a page that is fixed exclusively never returns.
\<close>

section \<open>The steps of a fix\<close>

lemma pool_inv_less: "pool_inv n H E s \<Longrightarrow> m \<le> n \<Longrightarrow> pool_inv m H E s"
  unfolding pool_inv_def tab_inv_def by (blast intro: pt.ok_less add_le_mono1)

definition set_state :: "fref \<Rightarrow> u64 \<Rightarrow> bm \<Rightarrow> bm" where
  "set_state r w s = upd_bf r (\<lambda>bf. bf\<lparr>bstate := w\<rparr>) s"

lemma set_state_ok:
  assumes inv: "pool_inv n {} E s" and p: "res s p = Some r"
  shows "pool_inv n {} E (set_state r w s)" "view (set_state r w s) = view s" "env (set_state r w s) = env s"
    "res (set_state r w s) = res s" "pg (set_state r w s) = pg s"
    "st (set_state r w s) = (st s)(p := getState w)" "keeps (dom (res s) - {p}) s (set_state r w s)"
    "bstate (bf_at (set_state r w s) r) = w" "bpage (bf_at (set_state r w s) r) = bpage (bf_at s r)"
    "bpid (bf_at (set_state r w s) r) = bpid (bf_at s r)"
proof -
  have t: "tab_inv n s" using inv by (rule pool_invD)
  note U = upd_state_inv [where w = w, OF inv p, folded set_state_def]
  show "pool_inv n {} E (set_state r w s)" "view (set_state r w s) = view s" "res (set_state r w s) = res s"
    "pg (set_state r w s) = pg s" "bstate (bf_at (set_state r w s) r) = w"
    "bpage (bf_at (set_state r w s) r) = bpage (bf_at s r)"
    using U p by simp_all
  show "st (set_state r w s) = (st s)(p := getState w)" using U(5) by (simp add: fun_eq_iff)
  show "env (set_state r w s) = env s" by (simp add: set_state_def)
  have "bpid ((\<lambda>bf. bf\<lparr>bstate := w\<rparr>) (bf_at s r)) = bpid (bf_at s r)" by simp
  note F = upd_bf_facts [where g = "\<lambda>bf. bf\<lparr>bstate := w\<rparr>", OF t p this, folded set_state_def]
  show "keeps (dom (res s) - {p}) s (set_state r w s)" using F(2,4) by (auto simp: keeps_def)
  show "bpid (bf_at (set_state r w s) r) = bpid (bf_at s r)" by (simp add: F(3))
qed

lemma tryLockX_self: "getState v = Unlocked \<or> getState v = Marked \<Longrightarrow> tryLockX v v = Ret (True, sameVersion v Locked)"
  by (auto simp: tryLockX_def)

lemma shared_room: "x < MaxShared \<Longrightarrow> x + 1 < 256" for x :: u64
  by (simp add: word_less_nat_alt unat_word_ariths)

lemma tryLockS_self:
  "getState v < MaxShared \<Longrightarrow> tryLockS v v = (True, sameVersion v (getState v + 1))"
  "getState v = Marked \<Longrightarrow> tryLockS v v = (True, sameVersion v 1)"
  by (simp_all add: tryLockS_def Let_def)

lemma downgrade_ok: "getState v = Locked \<Longrightarrow> \<exists>w. downgradeLock v = Ret w \<and> getState w = 1"
proof -
  assume l: "getState v = Locked"
  have "getState (nextVersion v 1) = 1"
  proof (cases "unat (versionOf v) + 1 < 2 ^ 56")
    case True
    then show ?thesis using nextVersion_below(1) by simp
  next
    case False
    then have "unat (versionOf v) = 2 ^ 56 - 1" using versionOf_le [of v] by simp
    from nextVersion_wrap [OF this] show ?thesis by (simp add: getState_def push_bit_eq_mult)
  qed
  then show ?thesis using l by (simp add: downgradeLock_def)
qed

section \<open>The outcome of a fix\<close>

text \<open>The page is in the pool in state \<open>w\<close>; nothing that a client sees has changed, and the
  other pages that clients hold are where they were.\<close>

definition fixed :: "nat \<Rightarrow> PID \<Rightarrow> u64 \<Rightarrow> bm \<Rightarrow> fref \<Rightarrow> bm \<Rightarrow> bool" where
  "fixed n p w s r s' \<longleftrightarrow> pool_inv n {} {} s' \<and> res s' p = Some r \<and> st s' p = w \<and> view s' = view s \<and>
     env s' = env s \<and> keeps (pinned s - {p}) s s' \<and> pinned s' \<subseteq> insert p (pinned s)"

lemma set_state_fixed:
  assumes inv: "pool_inv n {} {} s" and s1: "same_but_rng s s1" and p: "res s p = Some r"
  shows "fixed n p (getState w) s r (set_state r w s1)"
proof -
  note R = same_but_rng_inv [OF s1]
  have i1: "pool_inv n {} {} s1" and p1: "res s1 p = Some r" using inv p by (simp_all add: R)
  note S = set_state_ok [where w = w, OF i1 p1]
  have "pinned s - {p} \<subseteq> dom (res s1) - {p}" by (auto simp: pinned_def R)
  then have "keeps (pinned s - {p}) s1 (set_state r w s1)" using S(7) keeps_mono by blast
  moreover have "pinned (set_state r w s1) \<subseteq> insert p (pinned s1)" by (rule pinned_state(1) [OF S(4)]) (simp add: S(6))
  ultimately show ?thesis using S p1 by (simp add: fixed_def R keeps_def pinned_def)
qed

lemma fixX_resident:
  assumes inv: "pool_inv n {} {} s" and p: "res s p = Some r" and st: "st s p = Unlocked \<or> st s p = Marked"
  shows "\<exists>s'. fixX ff (Suc fuel) p s = Ret (r, s') \<and> fixed n p Locked s r s'"
proof -
  let ?v = "bstate (bf_at s r)"
  have t: "tab_inv n s" using inv by (rule pool_invD)
  have p0: "p \<noteq> pid_none" using p by auto
  obtain s1 where s1: "bm_access p (bm_hash s p) s = Ret ((Some r, ?v), s1)" "same_but_rng s s1"
    using bm_access_res [OF t p0] p by auto
  note R = same_but_rng_inv [OF s1(2)]
  have v: "getState ?v = Unlocked \<or> getState ?v = Marked" using st pg_st_Some [OF p] by simp
  have "fixX ff (Suc fuel) p s = Ret (r, set_state r (sameVersion ?v Locked) s1)"
    using s1(1) v tryLockX_self [OF v] by (simp add: R set_state_def)
  then show ?thesis using set_state_fixed [OF inv s1(2) p, of "sameVersion ?v Locked"] by simp
qed

lemma fixS_resident:
  assumes inv: "pool_inv n {} {} s" and p: "res s p = Some r" and st: "st s p < MaxShared \<or> st s p = Marked"
  shows "\<exists>s'. fixS ff (Suc fuel) p s = Ret (r, s') \<and> fixed n p (if st s p = Marked then 1 else st s p + 1) s r s'"
proof -
  let ?v = "bstate (bf_at s r)"
  have t: "tab_inv n s" using inv by (rule pool_invD)
  have p0: "p \<noteq> pid_none" using p by auto
  obtain s1 where s1: "bm_access p (bm_hash s p) s = Ret ((Some r, ?v), s1)" "same_but_rng s s1"
    using bm_access_res [OF t p0] p by auto
  note R = same_but_rng_inv [OF s1(2)]
  have stv: "st s p = getState ?v" using pg_st_Some [OF p] by simp
  define c where "c = (if st s p = Marked then 1 else st s p + 1)"
  have c: "c < 256" using st shared_room by (auto simp: c_def)
  have "tryLockS ?v ?v = (True, sameVersion ?v c)"
    using st tryLockS_self [of ?v] by (auto simp: c_def stv)
  then have "fixS ff (Suc fuel) p s = Ret (r, set_state r (sameVersion ?v c) s1)"
    using s1(1) by (simp add: R set_state_def)
  then show ?thesis using set_state_fixed [OF inv s1(2) p, of "sameVersion ?v c"] c by (simp add: c_def)
qed

lemma fault_access:
  assumes inv: "pool_inv (Suc (Suc n)) {} {} s" and b: "unat (batch s) \<le> 128" and p: "res s p = None" "real_pid p"
    and d: "disk s (loc s p) = Some c"
  obtains s1 where "bm_access p (bm_hash s p) s = Ret ((None, 0), s1)"
    "handleFault ff p s1 = Loop \<or> (\<exists>r s'. handleFault ff p s1 = Ret (Some r, s') \<and> loaded n p s r s')"
proof -
  have t: "tab_inv (Suc (Suc n)) s" using inv by (rule pool_invD)
  obtain s1 where s1: "bm_access p (bm_hash s p) s = Ret ((None, 0), s1)" "same_but_rng s s1"
    using bm_access_res [OF t real_pid_none [OF p(2)]] p(1) by auto
  note C = same_core_inv [OF same_core_rng [OF s1(2)]]
  have "pool_inv (Suc (Suc n)) {} {} s1" "unat (batch s1) \<le> 128" "res s1 p = None" "disk s1 (loc s1 p) = Some c"
    using inv b p d env_eqD(3) [OF C(6)] by (simp_all add: C)
  from handleFault_ok [OF this(1,2,3) p(2) this(4), of ff]
  have "handleFault ff p s1 = Loop \<or> (\<exists>r s'. handleFault ff p s1 = Ret (Some r, s') \<and> loaded n p s r s')"
    by (simp add: loaded_def keeps_def C)
  then show thesis using that s1(1) by blast
qed

lemma loaded_fixed: "loaded n p s r s' \<Longrightarrow> fixed n p Locked s r s'"
  by (auto simp: loaded_def fixed_def intro: keeps_mono)

lemma fixX_missing:
  assumes "pool_inv (Suc (Suc n)) {} {} s" and "unat (batch s) \<le> 128" and "res s p = None" "real_pid p"
    and "disk s (loc s p) = Some c"
  shows "fixX ff (Suc fuel) p s = Loop \<or> (\<exists>r s'. fixX ff (Suc fuel) p s = Ret (r, s') \<and> fixed n p Locked s r s')"
proof (rule fault_access [OF assms, of ff])
  fix s1 assume a: "bm_access p (bm_hash s p) s = Ret ((None, 0), s1)"
    and "handleFault ff p s1 = Loop \<or> (\<exists>r s'. handleFault ff p s1 = Ret (Some r, s') \<and> loaded n p s r s')"
  then consider "handleFault ff p s1 = Loop" | r s' where "handleFault ff p s1 = Ret (Some r, s')" "loaded n p s r s'" by blast
  then show ?thesis
  proof cases
    case 1
    have "fixX ff (Suc fuel) p s = Loop" unfolding fixX.simps a by (simp add: 1)
    then show ?thesis by (rule disjI1)
  next
    case 2
    have "fixX ff (Suc fuel) p s = Ret (r, s')" unfolding fixX.simps a by (simp add: 2(1))
    then show ?thesis using loaded_fixed [OF 2(2)] by blast
  qed
qed

lemma fixS_missing:
  assumes "pool_inv (Suc (Suc n)) {} {} s" and "unat (batch s) \<le> 128" and "res s p = None" "real_pid p"
    and "disk s (loc s p) = Some c"
  shows "fixS ff (Suc fuel) p s = Loop \<or> (\<exists>r s'. fixS ff (Suc fuel) p s = Ret (r, s') \<and> fixed n p 1 s r s')"
proof (rule fault_access [OF assms, of ff])
  fix s1 assume a: "bm_access p (bm_hash s p) s = Ret ((None, 0), s1)"
    and "handleFault ff p s1 = Loop \<or> (\<exists>r s'. handleFault ff p s1 = Ret (Some r, s') \<and> loaded n p s r s')"
  then consider "handleFault ff p s1 = Loop" | r s' where "handleFault ff p s1 = Ret (Some r, s')" "loaded n p s r s'" by blast
  then show ?thesis
  proof cases
    case 1
    have "fixS ff (Suc fuel) p s = Loop" unfolding fixS.simps a by (simp add: 1)
    then show ?thesis by (rule disjI1)
  next
    case 2
    then have l: "pool_inv n {} {} s'" "res s' p = Some r" "st s' p = Locked" "view s' = view s" "env s' = env s"
      "keeps (pinned s) s s'" "pinned s' \<subseteq> insert p (pinned s)" by (simp_all add: loaded_def)
    obtain w where w: "downgradeLock (bstate (bf_at s' r)) = Ret w" "getState w = 1"
      using downgrade_ok l(3) pg_st_Some [OF l(2)] by auto
    have "pinned s - {p} \<subseteq> dom (res s') - {p}" using l(6) by (auto simp: keeps_def pinned_def)
    then have "keeps (pinned s - {p}) s' (set_state r w s')" by (rule keeps_mono [OF set_state_ok(7) [OF l(1,2)]])
    then have "keeps (pinned s - {p}) s (set_state r w s')"
      by (rule keeps_trans [OF keeps_mono [OF l(6) Diff_subset]])
    moreover have "pinned (set_state r w s') \<subseteq> insert p (pinned s)"
      using pinned_state(1) [OF set_state_ok(4) [OF l(1,2)], of w p "getState w"] l(7) set_state_ok(6) [OF l(1,2), of w] by auto
    ultimately have "fixed n p 1 s r (set_state r w s')"
      using set_state_ok [OF l(1,2), of w] l w(2) by (simp add: fixed_def)
    moreover have "fixS ff (Suc fuel) p s = Ret (r, set_state r w s')"
      unfolding fixS.simps a by (simp add: 2(1) w(1) set_state_def)
    ultimately show ?thesis by blast
  qed
qed

text \<open>A page in a state that cannot be locked is waited for; alone, the thread waits for ever.\<close>

lemma fixX_blocked:
  assumes "pool_inv n {} {} s" and "res s p = Some r" and "st s p \<noteq> Unlocked" "st s p \<noteq> Marked"
  shows "fixX ff fuel p s = Loop"
  using assms
proof (induction fuel arbitrary: s)
  case (Suc fuel)
  have t: "tab_inv n s" using Suc.prems(1) by (rule pool_invD)
  have p0: "p \<noteq> pid_none" using Suc.prems(2) by auto
  obtain s1 where s1: "bm_access p (bm_hash s p) s = Ret ((Some r, bstate (bf_at s r)), s1)" "same_but_rng s s1"
    using bm_access_res [OF t p0] Suc.prems(2) by auto
  note R = same_but_rng_inv [OF s1(2)]
  have "fixX ff fuel p s1 = Loop" by (rule Suc.IH) (use Suc.prems in \<open>simp_all add: R\<close>)
  then show ?case using s1(1) Suc.prems(3,4) pg_st_Some [OF Suc.prems(2)] by simp
qed simp

end
