(* ===== verification/Pool_Promotion.thy ===== *)
theory Pool_Promotion
  imports Fixing
begin

text \<open>
  Promotion: \<open>promoteLocked\<close> and \<open>tryPromote\<close> move pages between frames, and \<open>unfixS\<close> and
  \<open>unfixX\<close> release them. Whatever they decide and move, the pool keeps its invariant and
  clients see the same pages.
\<close>

section \<open>A lookup with the hash of another page\<close>

lemma ht_access_elsewhere:
  assumes inv: "lock_room n t" "shape chs t" "content chs t" and p: "p \<noteq> pid_none" "home t q \<noteq> home t p"
  shows "ht_access move w p (hashPID q m) t = Ret ((None, 0), t)"
proof -
  let ?i = "home t q"
  note h = home_less [OF inv(2), of q]
  note S = shapeD [OF inv(2) home_less [OF inv(2), of q]]
  have nl: "\<not> isLocked (hlock (table t ! ?i))" by (rule lock_room_unlocked [OF inv(1) h])
  have no: "pid_at t r \<noteq> p" if "r \<in> bucket chs ?i" for r
    using contentD(1) [OF inv(3) h that] p by auto
  have "\<forall>e \<in> set (chs ?i). bpid (ebf (heap t ! e)) \<noteq> p"
  proof
    fix e assume "e \<in> set (chs ?i)"
    then show "bpid (ebf (heap t ! e)) \<noteq> p"
      using no [of "Chain e"] by (simp add: bucket_def pid_at_def frame_at_def)
  qed
  from find_prev_miss [OF S(1,3) this] obtain prev where
    "find_prev (length (heap t)) (heap t) p None (enext (head (table t ! ?i))) = Ret (prev, None)" by blast
  moreover have "bpid (ebf (head (table t ! ?i))) \<noteq> p"
    using no [of "Head ?i"] by (simp add: bucket_def pid_at_def frame_at_def)
  ultimately show ?thesis using h nl by (simp add: ht_access_def bucket_index Let_def)
qed

lemma ht_access_same_home:
  assumes "home t q = home t p"
  shows "ht_access move w p (hashPID q m) t = ht_access move w p (hashPID p m) t"
  by (simp add: ht_access_def bucket_index assms)

text \<open>The bucket of a page.\<close>

definition bucket_of :: "bm \<Rightarrow> PID \<Rightarrow> nat" where
  "bucket_of s p = home (ht s) p"

lemma bm_access_hash_of:
  assumes t: "tab_inv n s" and p: "p \<noteq> pid_none"
  shows "\<exists>s'. bm_access p (bm_hash s q) s = Ret (if bucket_of s q \<noteq> bucket_of s p then (None, 0)
      else case res s p of None \<Rightarrow> (None, 0) | Some r \<Rightarrow> (Some r, bstate (bf_at s r)), s') \<and> same_but_rng s s'"
proof (cases "bucket_of s q = bucket_of s p")
  case True
  then have h: "home (ht s) q = home (ht s) p" by (simp add: bucket_of_def)
  have "ht_access m w p (bm_hash s q) (ht s) = ht_access m w p (bm_hash s p) (ht s)" for m w
    unfolding bm_hash_def by (rule ht_access_same_home [OF h])
  moreover have "unat (ht_index (hcount (ht s)) (bm_hash s q)) = unat (ht_index (hcount (ht s)) (bm_hash s p))"
    unfolding bm_hash_def bucket_index by (rule h)
  ultimately have "bm_access p (bm_hash s q) s = bm_access p (bm_hash s p) s" by (simp only: bm_access_def)
  then show ?thesis using bm_access_res [OF t p] True by simp
next
  case False
  from tab_invD(1) [OF t] obtain chs where "lock_room (n + card (dom (res s))) (ht s)" "shape chs (ht s)" "content chs (ht s)"
    by (rule table_okE)
  then have a: "ht_access move w p (bm_hash s q) (ht s) = Ret ((None, 0), ht s)" for move w
    unfolding bm_hash_def using ht_access_elsewhere p False by (simp add: bucket_of_def)
  have "bm_access p (bm_hash s q) s = Ret ((None, 0), s)"
    by (simp add: bm_access_def a Let_def split: prod.split)
  then show ?thesis using False same_but_rng_refl by auto
qed

section \<open>Moving a page to another frame\<close>

text \<open>A page in frame \<open>y\<close> is copied to the reserved frame \<open>x\<close>, which becomes its own; its old
  frame is then the reserved one.\<close>

definition relocate :: "fref \<Rightarrow> nat \<Rightarrow> nat \<Rightarrow> bool \<Rightarrow> bm \<Rightarrow> bm" where
  "relocate r x y b s = upd_bf r (with_page x b) (put_page x (virtMem s ! y) s)"

lemma relocate_ok:
  fixes b :: bool
  assumes inv: "pool_inv n {} {x} s" and x: "x < unat (frameCount s)" "virtMemPids s ! x = p"
    and p: "res s p = Some r" "pg s p = Some y" "y \<noteq> x"
  defines "s' \<equiv> relocate r x y b s"
  shows "pool_inv n {} {y} s'" "view s' = view s" "env s' = env s" "res s' = res s" "pg s' = (pg s)(p := Some x)"
    "st s' = st s" "keeps (dom (res s) - {p}) s s'" "virtMemPids s' = virtMemPids s" "freeList s' = freeList s"
    "bf_at s' r = with_page x b (bf_at s r)"
proof -
  note F = frame_invD [OF pool_invD(2) [OF inv]] and D = disk_invD [OF pool_invD(3) [OF inv]]
  have t: "tab_inv n (put_page x (virtMem s ! y) s)" "res (put_page x (virtMem s ! y) s) p = Some r"
    using pool_invD(1) [OF inv] p(1) by simp_all
  note W = with_page_facts [where x = x and b = b, OF t, folded relocate_def, folded s'_def, simplified]
  show rs: "res s' = res s" and pgs: "pg s' = (pg s)(p := Some x)" and sts: "st s' = st s"
    and "bf_at s' r = with_page x b (bf_at s r)" by (rule W)+
  show "env s' = env s" by (simp add: s'_def relocate_def)
  show sel: "virtMemPids s' = virtMemPids s" "freeList s' = freeList s"
    by (simp_all add: s'_def relocate_def)
  have vm: "virtMem s' = (virtMem s)[x := virtMem s ! y]" "frameCount s' = frameCount s" "disk s' = disk s"
    "blockfds s' = blockfds s" "io_submit s' = io_submit s" by (simp_all add: s'_def relocate_def)
  have xl: "x < length (virtMem s)" using x F(1) by simp
  have pin: "p \<in> dom (res s)" using p(1) by blast
  have oth: "\<exists>z < unat (frameCount s). pg s q = Some z \<and> virtMemPids s ! z = q \<and> z \<noteq> x"
    if q: "q \<in> dom (res s)" "q \<noteq> p" for q
    using F(3) [OF q(1)] q x(2) by auto
  have "frame_inv {} {y} s'"
    unfolding frame_inv_def sel vm(2) rs
  proof (intro conjI ballI allI impI)
    fix q assume "q \<in> dom (res s) - {}"
    then show "\<exists>z < unat (frameCount s). pg s' q = Some z \<and> virtMemPids s ! z = q"
      using oth [of q] x by (cases "q = p") (auto simp: pgs)
  next
    fix z assume z: "z < unat (frameCount s)" "virtMemPids s ! z \<noteq> pid_none"
    from F(5) [OF z] show "z \<in> {y} \<or> virtMemPids s ! z \<in> dom (res s) - {} \<and> pg s' (virtMemPids s ! z) = Some z"
      using x(2) p pin by (auto simp: pgs)
  qed (use F xl in \<open>auto simp: vm\<close>)
  moreover have "disk_inv {} s'"
    unfolding disk_inv_def vm rs
  proof (intro conjI allI impI ballI)
    fix q z assume q: "q \<in> dom (res s) - {}" "pg s' q = Some z" "\<not> dirty ((virtMem s)[x := virtMem s ! y] ! z)"
    show "map_option body (disk s (loc s q)) = Some (body ((virtMem s)[x := virtMem s ! y] ! z))"
    proof (cases "q = p")
      case True
      then show ?thesis using q xl D(1) [OF pin _ p(2)] by (simp add: pgs)
    next
      case False
      then have "pg s q = Some z" "z \<noteq> x" using q oth [of q] by (auto simp: pgs)
      then show ?thesis using D(1) [of q z] q False by simp
    qed
  qed (use D in auto)
  ultimately show "pool_inv n {} {y} s'" using W(1) by (simp add: pool_inv_def)
  have "view s' q = view s q" for q
  proof (cases "q = p")
    case True
    then show ?thesis using xl p(1,2) by (simp add: view_def rs pgs vm)
  next
    case False
    show ?thesis
    proof (cases "res s q")
      case (Some z)
      then have "q \<in> dom (res s)" by blast
      then obtain z where "pg s q = Some z" "z \<noteq> x" using oth [of q] False by blast
      then show ?thesis using False by (simp add: view_def rs pgs vm)
    qed (simp add: view_def rs vm)
  qed
  then show "view s' = view s" by blast
  show "keeps (dom (res s) - {p}) s s'" using W(2,5) by (auto simp: keeps_def)
qed

text \<open>A reserved frame that no page uses is given back, or reserved for another page.\<close>

lemma release_frame:
  assumes inv: "pool_inv n {} {y} s" and y: "y < unat (frameCount s)" and free: "\<forall>q \<in> dom (res s). pg s q \<noteq> Some y"
  shows "pool_inv n {} {} (give_back y s)"
proof -
  note F = frame_invD [OF pool_invD(2) [OF inv]]
  have "frame_inv {} {} (give_back y s)"
    unfolding frame_inv_def
  proof (intro conjI ballI allI impI)
    fix q assume q: "q \<in> dom (res (give_back y s)) - {}"
    then obtain z where z: "z < unat (frameCount s)" "pg s q = Some z" "virtMemPids s ! z = q" using F(3) by auto
    then have "z \<noteq> y" using free q by auto
    then show "\<exists>z < unat (frameCount (give_back y s)). pg (give_back y s) q = Some z \<and> virtMemPids (give_back y s) ! z = q"
      using z by auto
  next
    fix z assume z: "z < unat (frameCount (give_back y s))" "virtMemPids (give_back y s) ! z \<noteq> pid_none"
    have "z \<noteq> y" using z F(2) by auto
    then show "z \<in> {} \<or> virtMemPids (give_back y s) ! z \<in> dom (res (give_back y s)) - {} \<and>
        pg (give_back y s) (virtMemPids (give_back y s) ! z) = Some z"
      using F(5) [of z] z by auto
  next
    fix z assume z: "z < unat (frameCount (give_back y s))" "virtMemPids (give_back y s) ! z = pid_none"
    then show "z \<in> set (freeList (give_back y s))" using F(6) [of z] by (cases "z = y") auto
  qed (use F y in auto)
  moreover have "disk_inv {} (give_back y s)"
    by (rule disk_inv_sub [OF pool_invD(3) [OF inv]]) auto
  ultimately show ?thesis using pool_invD(1) [OF inv] by (simp add: pool_inv_def)
qed

lemma retag_frame:
  assumes inv: "pool_inv n {} {y} s" and y: "y < unat (frameCount s)" and free: "\<forall>q \<in> dom (res s). pg s q \<noteq> Some y"
    and p: "p \<noteq> pid_none"
  shows "pool_inv n {} {y} (put_pid y p s)"
proof -
  note F = frame_invD [OF pool_invD(2) [OF inv]]
  have "frame_inv {} {y} (put_pid y p s)"
    unfolding frame_inv_def
  proof (intro conjI ballI allI impI)
    fix q assume q: "q \<in> dom (res (put_pid y p s)) - {}"
    then obtain z where z: "z < unat (frameCount s)" "pg s q = Some z" "virtMemPids s ! z = q" using F(3) by auto
    then have "z \<noteq> y" using free q by auto
    then show "\<exists>z < unat (frameCount (put_pid y p s)). pg (put_pid y p s) q = Some z \<and> virtMemPids (put_pid y p s) ! z = q"
      using z by auto
  next
    fix z assume z: "z < unat (frameCount (put_pid y p s))" "virtMemPids (put_pid y p s) ! z \<noteq> pid_none"
    then show "z \<in> {y} \<or> virtMemPids (put_pid y p s) ! z \<in> dom (res (put_pid y p s)) - {} \<and>
        pg (put_pid y p s) (virtMemPids (put_pid y p s) ! z) = Some z"
      using F(5) [of z] by (cases "z = y") auto
  next
    fix z assume z: "z < unat (frameCount (put_pid y p s))" "virtMemPids (put_pid y p s) ! z = pid_none"
    then show "z \<in> set (freeList (put_pid y p s))" using F(2) F(6) [of z] p y by (cases "z = y") auto
  qed (use F y in auto)
  then show ?thesis using inv by (simp add: pool_inv_def)
qed

section \<open>promoteLocked\<close>

text \<open>The page \<open>p\<close> may have moved, but is locked as before; nothing else that clients see or hold
  has changed.\<close>

text \<open>No version is about to wrap around, so that an exclusive release leaves the page unlocked.\<close>

definition low :: "bm \<Rightarrow> bool" where
  "low s \<longleftrightarrow> (\<forall>p r. res s p = Some r \<longrightarrow> unat (versionOf (bstate (bf_at s r))) + 1 < 2 ^ 56)"

lemma lowD: "low s \<Longrightarrow> res s p = Some r \<Longrightarrow> unat (versionOf (bstate (bf_at s r))) + 1 < 2 ^ 56"
  by (simp add: low_def)

lemma unlock_low:
  assumes "unlockX v = Ret w" and "unat (versionOf v) + 1 < 2 ^ 56"
  shows "getState w = Unlocked"
  using assms nextVersion_below(1) [of v 0] by (auto simp: unlockX_def run_simps)

definition moved :: "nat \<Rightarrow> PID \<Rightarrow> bm \<Rightarrow> fref \<Rightarrow> bm \<Rightarrow> bool" where
  "moved n p s r s' \<longleftrightarrow> pool_inv n {} {} s' \<and> view s' = view s \<and> env s' = env s \<and> res s' p = Some r \<and>
     bstate (bf_at s' r) = bstate (bf_at s r) \<and> keeps (pinned s - {p}) s s' \<and> (low s \<longrightarrow> pinned s' \<subseteq> pinned s)"

lemma moved_same:
  assumes "pool_inv n {} {} s" and "res s p = Some r" and "same_core s s'"
  shows "moved n p s r s'"
  using assms(1,2) by (simp add: moved_def keeps_def same_core_inv [OF assms(3)])

lemma upd_bf_give_back: "upd_bf r g (give_back y s) = give_back y (upd_bf r g s)"
  by (simp add: upd_bf_def give_back_def)

lemma upd_bf_put_pid: "upd_bf r g (put_pid y p s) = put_pid y p (upd_bf r g s)"
  by (simp add: upd_bf_def put_pid_def)

lemma page_of_pg: "res s p = Some r \<Longrightarrow> pg s p = Some x \<Longrightarrow> page_of s r = Ret x"
  by (rule page_of_owned) (use pg_st_Some [of s p r] in simp)

lemma used_frame:
  assumes "frame_inv {} E s" and "p \<in> dom (res s)" and "pg s p = Some x"
  shows "x < unat (frameCount s)" "virtMemPids s ! x = p"
  using frame_invD(3) [OF assms(1,2)] assms(3) by auto

text \<open>The second half of \<open>promoteLocked\<close>: the preferred frame is reserved for \<open>p\<close>.\<close>

lemma finish_ok:
  assumes inv: "pool_inv n {} {x} s" and x: "x < unat (frameCount s)" "virtMemPids s ! x = p"
    and p: "res s p = Some r" "pg s p = Some y" "y \<noteq> x"
  shows "\<exists>s'. bind_run (page_of s r) (\<lambda>old. bind_run (copy_page x old s) (\<lambda>s.
      bind_run (set_pid old pid_none s) (\<lambda>s. bind_run (set_pid x p (enqueue_free old s)) (\<lambda>s.
      Ret (upd_bf r (with_page x (\<not> disablePredict (promo_cfg s))) s))))) = Ret s' \<and>
    pool_inv n {} {} s' \<and> view s' = view s \<and> env s' = env s \<and> res s' = res s \<and>
    bstate (bf_at s' r) = bstate (bf_at s r) \<and> keeps (dom (res s) - {p}) s s' \<and> pinned s' = pinned s"
proof -
  note F = frame_invD [OF pool_invD(2) [OF inv]]
  have pin: "p \<in> dom (res s)" using p(1) by blast
  note y = used_frame [OF pool_invD(2) [OF inv] pin p(2)]
  have len: "x < length (virtMem s)" "y < length (virtMem s)" "x < length (virtMemPids s)" "y < length (virtMemPids s)"
    using x y F(1,2) by simp_all
  define b where "b = (\<not> disablePredict (promo_cfg s))"
  define s1 where "s1 = relocate r x y b s"
  note R = relocate_ok [where b = b, OF inv x p, folded s1_def]
  define s' where "s' = give_back y s1"
  have free: "\<forall>q \<in> dom (res s1). pg s1 q \<noteq> Some y"
  proof
    fix q assume q: "q \<in> dom (res s1)"
    show "pg s1 q \<noteq> Some y"
    proof (cases "q = p")
      case True
      then show ?thesis using p(3) by (simp add: R(5))
    next
      case False
      then show ?thesis
        using q slot_inj [OF pool_invD(2) [OF inv] _ _ pin, of q] p(2) by (auto simp: R(4,5))
    qed
  qed
  have "y < unat (frameCount s1)" using y(1) env_eqD(1) [OF R(3)] by simp
  then have "pool_inv n {} {} s'" unfolding s'_def by (rule release_frame [OF R(1) _ free])
  moreover have "page_of s r = Ret y" by (rule page_of_pg [OF p(1,2)])
  moreover have "copy_page x y s = Ret (put_page x (virtMem s ! y) s)" by (rule copy_page_put [OF len(1,2)])
  moreover have "bind_run (set_pid y pid_none (put_page x (virtMem s ! y) s)) (\<lambda>s. bind_run (set_pid x p (enqueue_free y s)) (\<lambda>s.
      Ret (upd_bf r (with_page x (\<not> disablePredict (promo_cfg s))) s))) = Ret s'"
  proof -
    let ?t = "put_page x (virtMem s ! y) s"
    have "(virtMemPids s)[y := pid_none, x := p] = (virtMemPids s)[y := pid_none]"
      using list_update_id [of "(virtMemPids s)[y := pid_none]" x] x(2) p(3) by simp
    then have "set_pid x p (give_back y ?t) = Ret (give_back y ?t)"
      using len by (simp add: set_pid_def)
    moreover have "enqueue_free y (put_pid y pid_none ?t) = give_back y ?t"
      by (simp add: enqueue_free_def put_pid_def give_back_def)
    moreover have "promo_cfg (give_back y ?t) = promo_cfg s" by (simp add: give_back_def put_page_def)
    ultimately show ?thesis
      using len by (simp add: set_pid_put s'_def s1_def relocate_def upd_bf_give_back [symmetric] b_def)
  qed
  moreover have "keeps (dom (res s) - {p}) s s'" using R(7) by (simp add: s'_def keeps_def)
  moreover have "pinned s' = pinned s" by (simp add: pinned_def s'_def R)
  ultimately show ?thesis using R by (simp add: s'_def)
qed


lemma promoteLocked_ok:
  assumes inv: "pool_inv n {} {} s" and bt: "unat (batch s) \<le> 128"
    and p: "res s p = Some r" "st s p = Locked" "bpage (bf_at s r) \<noteq> Some (intended s p)"
  shows "promoteLocked fuel r s = Loop \<or> (\<exists>s'. promoteLocked fuel r s = Ret s' \<and> moved n p s r s')"
proof -
  note I = pool_invD [OF inv]
  note F = frame_invD [OF I(2)]
  define x where "x = intended s p"
  have x: "x < unat (frameCount s)" unfolding x_def by (rule intended_less [OF F(8)])
  have pin: "p \<in> dom (res s)" using p(1) by blast
  obtain y where y: "y < unat (frameCount s)" "pg s p = Some y" "virtMemPids s ! y = p" using F(3) [OF pin] by blast
  have yx: "y \<noteq> x" using p(1,3) y(2) pg_st_Some [OF p(1)] by (simp add: x_def)
  have p0: "p \<noteq> pid_none" using p(1) by auto
  have bp: "bpid (bf_at s r) = p" by (rule bf_pid [OF I(1) p(1)])
  define fin where "fin = (\<lambda>s. bind_run (page_of s r) (\<lambda>old. bind_run (copy_page x old s) (\<lambda>s.
      bind_run (set_pid old pid_none s) (\<lambda>s. bind_run (set_pid x p (enqueue_free old s)) (\<lambda>s.
      Ret (upd_bf r (with_page x (\<not> disablePredict (promo_cfg s))) s))))))"
  show ?thesis
  proof (cases "virtMemPids s ! x = pid_none")
    case True
    define s1 where "s1 = put_pid x p s"
    have t: "trySetPresent x p s = Ret (True, s1)" "pool_inv n {} {x} s1"
      using trySetPresent_ok [OF inv x p0] True by (simp_all add: s1_def)
    have "x < unat (frameCount s1)" "virtMemPids s1 ! x = p" "res s1 p = Some r" "pg s1 p = Some y"
      using x F(2) p(1) y(2) by (simp_all add: s1_def)
    from finish_ok [OF t(2) this yx] obtain s' where s': "fin s1 = Ret s'" "pool_inv n {} {} s'" "view s' = view s1"
      "env s' = env s1" "res s' = res s1" "bstate (bf_at s' r) = bstate (bf_at s1 r)" "keeps (dom (res s1) - {p}) s1 s'" "pinned s' = pinned s1"
      unfolding fin_def by blast
    have "keeps (pinned s - {p}) s1 s'" by (rule keeps_mono [OF s'(7)]) (auto simp: pinned_def s1_def)
    then have "moved n p s r s'" using s' p(1) by (simp add: moved_def s1_def keeps_def)
    moreover have "promoteLocked fuel r s = Ret s'"
      using t(1) s'(1) by (simp add: promoteLocked_def bp Let_def fin_def flip: x_def)
    ultimately show ?thesis by blast
  next
    case False
    define q where "q = virtMemPids s ! x"
    have q: "q \<noteq> pid_none" "q \<in> dom (res s)" "pg s q = Some x" using F(5) [OF x] False by (auto simp: q_def)
    have qp: "q \<noteq> p" using q(3) y(2) yx by auto
    have t: "trySetPresent x p s = Ret (False, s)" using trySetPresent_ok [OF inv x p0] False by simp
    obtain s1 where s1: "bm_access q (bm_hash s p) s = Ret (if bucket_of s p \<noteq> bucket_of s q then (None, 0)
      else case res s q of None \<Rightarrow> (None, 0) | Some r \<Rightarrow> (Some r, bstate (bf_at s r)), s1)" "same_but_rng s s1"
      using bm_access_hash_of [OF I(1) q(1)] by blast
    note C = same_core_inv [OF same_core_rng [OF s1(2)]]
    obtain m where m: "res s q = Some m" using q(2) by blast
    have ag: "aget (virtMemPids s) x = Ret q" using x F(2) by (simp add: q_def)
    let ?v = "bstate (bf_at s m)"
    have stay: "moved n p s r s1" by (rule moved_same [OF inv p(1) same_core_rng [OF s1(2)]])
    show ?thesis
    proof (cases "bucket_of s p \<noteq> bucket_of s q \<or> getState ?v \<noteq> Unlocked")
      case True
      then have "promoteLocked fuel r s = Ret s1"
        using t s1(1) ag m by (auto simp: promoteLocked_def bp Let_def simp flip: x_def)
      then show ?thesis using stay by blast
    next
      case here: False
      then have un: "getState ?v = Unlocked" by simp
      define s2 where "s2 = set_state m (sameVersion ?v Locked) s1"
      have i1: "pool_inv n {} {} s1" "res s1 q = Some m" using inv m by (simp_all add: C)
      note S2 = set_state_ok [where w = "sameVersion ?v Locked", OF i1, folded s2_def]
      have b2: "unat (batch s2) \<le> 128" using bt env_eqD(2) [OF S2(3)] by (simp add: C)
      have r2: "res s2 p = Some r" "pg s2 p = Some y" "st s2 p = Locked" "res s2 q = Some m" "pg s2 q = Some x" "st s2 q = Locked"
        using p(1,2) y(2) m q(3) qp by (simp_all add: S2 C)
      have nq: "q \<notin> pinned s" using un pg_st_Some [OF m] by (simp add: pinned_def)
      have k2: "keeps (pinned s) s s2"
      proof -
        have "pinned s \<subseteq> dom (res s1) - {q}" using nq by (auto simp: pinned_def C)
        then have "keeps (pinned s) s1 s2" using S2(7) keeps_mono by blast
        then show ?thesis by (simp add: keeps_def C)
      qed
      have pr: "promoteLocked fuel r s = bind_run (claim_frame fuel q s2) (\<lambda>((new, ok), s).
                   bind_run (copy_page new x s) (\<lambda>s.
                   bind_run (set_pid new q s) (\<lambda>s.
                   bind_run (set_pid x p s) (\<lambda>s.
                   let s = upd_bf m (with_page new (ok \<and> \<not> disablePredict (promo_cfg s))) s in
                   bind_run (unlockX (bstate (bf_at s m))) (\<lambda>w. fin (set_state m w s))))))"
        using here un t s1(1) ag m tryLockX_self [of ?v]
        by (simp add: promoteLocked_def bp Let_def fin_def s2_def set_state_def C flip: x_def)
      from claim_frame_ok [OF S2(1) b2 q(1), of fuel] show ?thesis
      proof
        assume "claim_frame fuel q s2 = Loop"
        then show ?thesis unfolding pr by simp
      next
        assume "\<exists>z ok s3. claim_frame fuel q s2 = Ret ((z, ok), s3) \<and> reserved n {} {} q s2 z s3"
        then obtain z ok s3 where c3: "claim_frame fuel q s2 = Ret ((z, ok), s3)" and Rv: "reserved n {} {} q s2 z s3" by blast
        have R3: "pool_inv n {} {z} s3" "view s3 = view s2" "env s3 = env s2" "keeps (pinned s2) s2 s3"
          "virtMemPids s3 ! z = q" "\<forall>q \<in> dom (res s3). pg s3 q \<noteq> Some z" "pinned s3 \<subseteq> pinned s2"
          using Rv by (simp_all add: reserved_def fun_eq_iff)
        have f3: "frameCount s3 = frameCount s" using env_eqD(1) [OF R3(3)] env_eqD(1) [OF S2(3)] env_eqD(1) [OF C(6)] by simp
        have z: "z < unat (frameCount s3)" using Rv env_eqD(1) [OF R3(3)] by (simp add: reserved_def)
        have pin2: "p \<in> pinned s2" "q \<in> pinned s2" using r2 by (auto simp: pinned_def)
        have r3: "res s3 p = Some r" "bf_at s3 r = bf_at s2 r" "res s3 q = Some m" "bf_at s3 m = bf_at s2 m"
          using R3(4) pin2 r2 by (auto simp: keeps_def)
        then have g3: "pg s3 p = Some y" "pg s3 q = Some x" "st s3 q = Locked"
          using r2 pg_st_Some by metis+
        have zx: "x \<noteq> z" using R3(6) r3(3) g3(2) by blast
        define b where "b = (ok \<and> \<not> disablePredict (promo_cfg s3))"
        define s4 where "s4 = relocate m z x b s3"
        note R4 = relocate_ok [where b = b, OF R3(1) z R3(5) r3(3) g3(2) zx, folded s4_def]
        have x4: "x < unat (frameCount s4)" using x f3 env_eqD(1) [OF R4(3)] by simp
        note F3 = frame_invD [OF pool_invD(2) [OF R3(1)]]
        have free: "\<forall>a \<in> dom (res s4). pg s4 a \<noteq> Some x"
        proof
          fix a assume a: "a \<in> dom (res s4)"
          show "pg s4 a \<noteq> Some x"
          proof (cases "a = q")
            case True
            then show ?thesis using zx by (simp add: R4(5))
          next
            case False
            have "q \<in> dom (res s3)" using r3(3) by blast
            then show ?thesis using slot_inj [OF pool_invD(2) [OF R3(1)], of a q] a False g3(2)
              by (auto simp: R4(4,5))
          qed
        qed
        define s5 where "s5 = put_pid x p s4"
        have i5: "pool_inv n {} {x} s5" unfolding s5_def by (rule retag_frame [OF R4(1) x4 free p0])
        have "bstate (bf_at s5 m) = bstate (bf_at s3 m)" by (simp add: s5_def R4(10))
        moreover have "getState (bstate (bf_at s3 m)) = Locked" using pg_st_Some [OF r3(3)] g3(3) by simp
        ultimately obtain w where w: "unlockX (bstate (bf_at s5 m)) = Ret w" by (simp add: unlockX_def)
        define s6 where "s6 = set_state m w s5"
        have m5: "res s5 q = Some m" using r3(3) by (simp add: s5_def R4(4))
        note S6 = set_state_ok [where w = w, OF i5 m5, folded s6_def]
        have len: "z < length (virtMem s3)" "x < length (virtMem s3)" "z < length (virtMemPids s3)" "x < length (virtMemPids s3)"
          using z x f3 F3(1,2) by simp_all
        have pr6: "promoteLocked fuel r s = fin s6"
        proof -
          let ?t = "put_page z (virtMem s3 ! x) s3"
          have "copy_page z x s3 = Ret ?t" by (rule copy_page_put [OF len(1,2)])
          moreover have "set_pid z q ?t = Ret ?t"
            using set_pid_put [of z ?t q] put_pid_same [of z ?t] len(3) R3(5) by simp
          moreover have "set_pid x p ?t = Ret (put_pid x p ?t)" by (rule set_pid_put) (use len in simp)
          moreover have "upd_bf m (with_page z (ok \<and> \<not> disablePredict (promo_cfg (put_pid x p ?t)))) (put_pid x p ?t) = s5"
            unfolding upd_bf_put_pid s5_def s4_def relocate_def by (simp add: b_def put_pid_def put_page_def)
          ultimately show ?thesis using w by (simp add: pr c3 Let_def flip: s6_def)
        qed
        have k5: "keeps (pinned s) s s6"
        proof -
          have "keeps (pinned s) s s3" using k2 keeps_mono [OF R3(4) keeps_pinned [OF k2]] by (rule keeps_trans)
          moreover have sub: "pinned s \<subseteq> dom (res s3) - {q}"
            using calculation nq by (auto simp: keeps_def pinned_def)
          moreover have "keeps (pinned s) s3 s5" using keeps_mono [OF R4(7) sub] by (simp add: s5_def keeps_def)
          moreover have "keeps (pinned s) s5 s6"
            by (rule keeps_mono [OF S6(7)]) (use sub in \<open>simp add: s5_def R4(4)\<close>)
          ultimately show ?thesis using keeps_trans by blast
        qed
        have x6: "x < unat (frameCount s6)" "virtMemPids s6 ! x = p" "res s6 p = Some r" "pg s6 p = Some y"
          using x4 len(4) r3(1) g3(1) qp
          by (simp_all add: S6(4,5)) (simp_all add: s6_def set_state_def s5_def R4)
        from finish_ok [OF S6(1) x6 yx] obtain s' where s': "fin s6 = Ret s'" "pool_inv n {} {} s'" "view s' = view s6"
          "env s' = env s6" "res s' = res s6" "bstate (bf_at s' r) = bstate (bf_at s6 r)" "keeps (dom (res s6) - {p}) s6 s'"
          "pinned s' = pinned s6"
          unfolding fin_def by blast
        have "bf_at s6 r = bf_at s r"
          using k5 p(1,2) by (auto simp: keeps_def pinned_def)
        moreover have "keeps (pinned s - {p}) s s'"
        proof (rule keeps_trans [OF keeps_mono [OF k5 Diff_subset] keeps_mono [OF s'(7)]])
          show "pinned s - {p} \<subseteq> dom (res s6) - {p}" using k5 by (auto simp: keeps_def pinned_def)
        qed
        moreover have "view s' = view s"
          using s'(3) S6(2) R4(2) R3(2) S2(2) by (simp add: s5_def C)
        moreover have "env s' = env s" using s'(4) S6(3) R4(3) R3(3) S2(3) by (simp add: s5_def C)
        moreover have "pinned s' \<subseteq> pinned s" if lo: "low s"
        proof -
          have "bstate (bf_at s5 m) = sameVersion ?v Locked"
            using \<open>bstate (bf_at s5 m) = bstate (bf_at s3 m)\<close> r3(4) S2(8) by simp
          then have "getState w = Unlocked"
            using unlock_low [OF w] lowD [OF lo m] by simp
          then have "pinned s6 \<subseteq> insert q (pinned s5)" "q \<notin> pinned s6"
            using pinned_state [OF S6(4), of q "getState w"] S6(6) by (simp_all add: fun_eq_iff)
          moreover have "pinned s5 = pinned s3" by (simp add: pinned_def s5_def R4)
          moreover have "pinned s2 \<subseteq> insert q (pinned s1)" using pinned_state(1) [OF S2(4), of q Locked] S2(6) by simp
          ultimately show ?thesis using R3(7) s'(8) by (auto simp: C)
        qed
        ultimately have "moved n p s r s'" using s'(2,5,6) x6(3) by (simp add: moved_def)
        then show ?thesis using pr6 s'(1) by auto
      qed
    qed
  qed
qed

section \<open>tryPromote\<close>

text \<open>A step that clients cannot see: the pages and those that are held are as they were.\<close>

definition steady :: "nat \<Rightarrow> bm \<Rightarrow> bm \<Rightarrow> bool" where
  "steady n s s' \<longleftrightarrow> pool_inv n {} {} s' \<and> view s' = view s \<and> env s' = env s \<and> keeps (pinned s) s s' \<and>
     (low s \<longrightarrow> pinned s' \<subseteq> pinned s)"

lemma steady_core: "pool_inv n {} {} s \<Longrightarrow> same_core s s' \<Longrightarrow> steady n s s'"
  by (simp add: steady_def same_core_inv keeps_def)

lemma low_core: "same_core s s' \<Longrightarrow> low s' = low s"
  by (simp add: low_def same_core_inv)

lemma steady_after_core:
  assumes "same_core s s1" and "steady n s1 s'"
  shows "steady n s s'"
  using assms(2) by (simp add: steady_def same_core_inv [OF assms(1)] keeps_def low_core [OF assms(1)])

lemma draw_core: "same_core s (snd (draw s))"
  by (rule same_core_rng [OF draw_same])

lemma may_displace_ok:
  assumes "x < length (virtMemPids s)"
  shows "\<exists>b s'. may_displace x s = Ret (b, s') \<and> same_core s s'"
  using assms draw_core [of s] by (auto simp: may_displace_def split: prod.split)

lemma low_set_state:
  assumes "pool_inv n {} E s" and "res s p = Some r" and "low s" and "versionOf w = versionOf (bstate (bf_at s r))"
  shows "low (set_state r w s)"
  unfolding low_def
proof (intro allI impI)
  fix q a assume q: "res (set_state r w s) q = Some a"
  note S = set_state_ok [where w = w, OF assms(1,2)]
  show "unat (versionOf (bstate (bf_at (set_state r w s) a))) + 1 < 2 ^ 56"
  proof (cases "q = p")
    case True
    then show ?thesis using q assms(2,4) lowD [OF assms(3,2)] S by simp
  next
    case False
    then have "bf_at (set_state r w s) a = bf_at s a" using q S(4,7) by (auto simp: keeps_def)
    then show ?thesis using q lowD [OF assms(3)] S(4) by simp
  qed
qed

text \<open>What a promotion does to a page that was locked for it, and is unlocked afterwards.\<close>

lemma unlock_moved:
  assumes inv: "pool_inv n {} {} s" and p: "res s p = Some r" "p \<notin> pinned s" and s1: "same_core s s1"
    and mv: "moved n p (set_state r w s1) r s2" and w: "getState w = Locked" "versionOf w = versionOf (bstate (bf_at s r))"
  shows "\<exists>u. unlockX (bstate (bf_at s2 r)) = Ret u \<and> steady n s (set_state r u s2)"
proof -
  note C = same_core_inv [OF s1]
  have i1: "pool_inv n {} {} s1" "res s1 p = Some r" using inv p(1) by (simp_all add: C)
  note S = set_state_ok [where w = w, OF i1]
  let ?l = "set_state r w s1"
  have m: "pool_inv n {} {} s2" "view s2 = view s" "env s2 = env s" "res s2 p = Some r" "bstate (bf_at s2 r) = w"
    "keeps (pinned ?l - {p}) ?l s2" "low ?l \<longrightarrow> pinned s2 \<subseteq> pinned ?l"
    using mv S by (simp_all add: moved_def C)
  obtain u where u: "unlockX w = Ret u" using w by (simp add: unlockX_def)
  note U = set_state_ok [where w = u, OF m(1,4)]
  have sub: "pinned s \<subseteq> dom (res s1) - {p}" using p(2) by (auto simp: pinned_def C)
  have k1: "keeps (pinned s) s ?l" using keeps_mono [OF S(7) sub] by (simp add: keeps_def C)
  have "pinned s \<subseteq> pinned ?l - {p}" using keeps_pinned [OF k1] p(2) by auto
  then have k2: "keeps (pinned s) s s2" using keeps_trans [OF k1] keeps_mono [OF m(6)] by blast
  have "pinned s \<subseteq> dom (res s2) - {p}" using k2 p(2) by (auto simp: keeps_def pinned_def)
  then have "keeps (pinned s) s (set_state r u s2)" using keeps_trans [OF k2] keeps_mono [OF U(7)] by blast
  moreover have "pinned (set_state r u s2) \<subseteq> pinned s" if lo: "low s"
  proof -
    have "getState u = Unlocked" using unlock_low [OF u] w(2) lowD [OF lo p(1)] by simp
    then have "pinned (set_state r u s2) \<subseteq> insert p (pinned s2)" "p \<notin> pinned (set_state r u s2)"
      using pinned_state [OF U(4), of p "getState u"] U(6) by (simp_all add: fun_eq_iff)
    moreover have "low ?l" by (rule low_set_state [OF i1]) (simp_all add: C low_core [OF s1] lo w(2))
    moreover have "pinned ?l \<subseteq> insert p (pinned s1)" using pinned_state(1) [OF S(4), of p "getState w"] S(6) by simp
    ultimately show ?thesis using m(7) by (auto simp: C)
  qed
  ultimately have "steady n s (set_state r u s2)" using U m by (simp add: steady_def)
  then show ?thesis using u m(5) by simp
qed

lemma tryPromote_loop_ok:
  assumes "pool_inv n {} {} s" and "unat (batch s) \<le> 128" and "p \<noteq> pid_none"
  shows "tryPromote_loop fuel k p s = Loop \<or> (\<exists>s'. tryPromote_loop fuel k p s = Ret s' \<and> steady n s s')"
  using assms
proof (induction k arbitrary: s)
  case 0
  then show ?case using steady_core [OF _ same_core_refl] by simp
next
  case (Suc k)
  note inv = Suc.prems(1)
  note I = pool_invD [OF inv]
  note F = frame_invD [OF I(2)]
  obtain s1 where s1: "bm_access p (bm_hash s p) s =
      Ret (case res s p of None \<Rightarrow> (None, 0) | Some r \<Rightarrow> (Some r, bstate (bf_at s r)), s1)" "same_but_rng s s1"
    using bm_access_res [OF I(1) Suc.prems(3)] by blast
  note sc1 = same_core_rng [OF s1(2)]
  note C = same_core_inv [OF sc1]
  have stay: "steady n s s1" by (rule steady_core [OF inv sc1])
  show ?case
  proof (cases "res s p")
    case None
    then show ?thesis using s1(1) stay by simp
  next
    case (Some r)
    let ?v = "bstate (bf_at s r)" and ?x = "intended s p"
    have acc: "bm_access p (bm_hash s p) s = Ret ((Some r, ?v), s1)" using s1(1) Some by simp
    show ?thesis
    proof (cases "getState ?v = Marked \<or> getState ?v = Unlocked")
      case False
      have "pool_inv n {} {} s1" "unat (batch s1) \<le> 128" using Suc.prems by (simp_all add: C)
      from Suc.IH [OF this Suc.prems(3)]
      have "tryPromote_loop fuel k p s1 = Loop \<or> (\<exists>s'. tryPromote_loop fuel k p s1 = Ret s' \<and> steady n s s')"
        using steady_after_core [OF sc1] by blast
      then show ?thesis using acc False by simp
    next
      case free: True
      show ?thesis
      proof (cases "bpage (bf_at s r) = Some ?x")
        case True
        then show ?thesis using acc free stay by (auto simp: C)
      next
        case away: False
        have x: "?x < length (virtMemPids s1)" using intended_less [OF F(8)] F(2) by (simp add: C)
        obtain b s2 where s2: "may_displace ?x s1 = Ret (b, s2)" "same_core s1 s2" using may_displace_ok [OF x] by blast
        note C2 = same_core_inv [OF s2(2)]
        have sc2: "same_core s s2" by (rule same_core_trans [OF sc1 s2(2)])
        show ?thesis
        proof (cases b)
          case False
          then show ?thesis using acc free away s2(1) steady_core [OF inv sc2] by (auto simp: C)
        next
          case True
          define w where "w = sameVersion ?v Locked"
          define s3 where "s3 = set_state r w s2"
          have i2: "pool_inv n {} {} s2" "res s2 p = Some r" using inv Some by (simp_all add: C C2)
          note S3 = set_state_ok [where w = w, OF i2, folded s3_def]
          have i3: "intended s3 p = ?x" using env_eqD(7) [OF S3(3)] by (simp add: C C2)
          have np: "p \<notin> pinned s" using free pg_st_Some [OF Some] by (auto simp: pinned_def)
          have tl: "tryLockX ?v ?v = Ret (True, w)" unfolding w_def by (rule tryLockX_self) (use free in blast)
          have v3: "virtMemPids s3 = virtMemPids s" by (simp add: s3_def set_state_def C C2)
          have x3: "?x < length (virtMemPids s)" using x by (simp add: C)
          have pr: "tryPromote_loop fuel (Suc k) p s =
              bind_run (if virtMemPids s3 ! ?x = p then Ret s3 else promoteLocked fuel r s3) (\<lambda>s.
                bind_run (unlockX (bstate (bf_at s r))) (\<lambda>w. Ret (set_state r w s)))"
            using acc free away s2(1) True tl x3
            by (auto simp: C C2 v3 set_state_def i3 [unfolded s3_def set_state_def] simp flip: s3_def [unfolded set_state_def])
          have "(if virtMemPids s3 ! ?x = p then Ret s3 else promoteLocked fuel r s3) = Loop \<or>
            (\<exists>s4. (if virtMemPids s3 ! ?x = p then Ret s3 else promoteLocked fuel r s3) = Ret s4 \<and> moved n p s3 r s4)"
          proof (cases "virtMemPids s3 ! ?x = p")
            case True
            then show ?thesis using moved_same [OF S3(1) _ same_core_refl] i2(2) by (simp add: S3(4))
          next
            case False
            have "bpage (bf_at s3 r) \<noteq> Some (intended s3 p)" using away by (simp add: S3(9) i3 C C2)
            moreover have "res s3 p = Some r" "st s3 p = Locked" using i2(2) by (simp_all add: S3 w_def)
            moreover have "unat (batch s3) \<le> 128" using Suc.prems(2) env_eqD(2) [OF S3(3)] by (simp add: C C2)
            ultimately show ?thesis using promoteLocked_ok [OF S3(1)] False by simp
          qed
          then consider "(if virtMemPids s3 ! ?x = p then Ret s3 else promoteLocked fuel r s3) = Loop"
            | s4 where "(if virtMemPids s3 ! ?x = p then Ret s3 else promoteLocked fuel r s3) = Ret s4" "moved n p s3 r s4" by blast
          then show ?thesis
          proof cases
            case 1
            then show ?thesis unfolding pr by simp
          next
            case 2
            obtain u where "unlockX (bstate (bf_at s4 r)) = Ret u" "steady n s (set_state r u s4)"
              using unlock_moved [OF inv Some np sc2 2(2) [unfolded s3_def]] by (auto simp: w_def)
            then show ?thesis unfolding pr 2(1) by simp
          qed
        qed
      qed
    qed
  qed
qed

lemma tryPromote_ok:
  assumes "pool_inv n {} {} s" and "unat (batch s) \<le> 128" and "p \<noteq> pid_none"
  shows "tryPromote fuel p s = Loop \<or> (\<exists>s'. tryPromote fuel p s = Ret s' \<and> steady n s s')"
  unfolding tryPromote_def by (rule tryPromote_loop_ok [OF assms])

section \<open>Statistics and decisions\<close>

text \<open>The controllers are in their invariant and the byte that says whether a page is a leaf exists.\<close>

definition ctl_ok :: "bm \<Rightarrow> bool" where
  "ctl_ok s \<longleftrightarrow> cbp_inv (cbp_state s) \<and> unat (tid s) < 256 \<and>
     (\<forall>q \<in> set (virtMem s). btreeIsLeafOffset s < 16 + length (body q))"

definition quiet :: "bm \<Rightarrow> bm \<Rightarrow> bool" where
  "quiet s s' \<longleftrightarrow> same_core s s' \<and> (ctl_ok s \<longrightarrow> ctl_ok s')"

lemma quiet_refl [simp]: "quiet s s"
  by (simp add: quiet_def)

lemma quiet_trans: "quiet s s' \<Longrightarrow> quiet s' s'' \<Longrightarrow> quiet s s''"
  unfolding quiet_def using same_core_trans by blast

lemma quiet_draw: "quiet s (snd (draw s))"
  by (simp add: quiet_def draw_core) (simp add: draw_def ctl_ok_def case_prod_beta)

lemma classOf_less: "unat (classOf h) < 64"
proof -
  have "drop_bit 6 h AND 63 \<le> 63" by (rule word_and_le1)
  then have "unat (drop_bit 6 h AND 63) \<le> 63" by (simp add: word_le_nat_alt)
  moreover have "unat (classOf h) \<le> unat (drop_bit 6 h AND 63)"
    by (simp add: classOf_def CLASS_MASK_def NUM_CLASSES_def unsigned_ucast_eq)
  ultimately show ?thesis by linarith
qed

lemma noteAccess_quiet:
  assumes "ctl_ok s"
  shows "modes (cbp_state s) = (False, False, False) \<and> bm_noteAccess (classOf h) hit s = Err int_overflow \<or>
    (\<exists>s'. bm_noteAccess (classOf h) hit s = Ret s' \<and> quiet s s')"
proof -
  define ws where "ws = (if tpb_mode (cbp_state s) \<or> v4_mode (cbp_state s) then (0, s) else draw s)"
  have "quiet s (snd ws)" using quiet_draw by (simp add: ws_def)
  then have q: "same_core s (snd ws)" "ctl_ok (snd ws)" using assms by (simp_all add: quiet_def)
  have "cbp_state (snd ws) = cbp_state s" by (simp add: ws_def draw_def split: prod.split)
  moreover have "modes (cbp_state (snd ws)) = (False, False, False) \<and>
        noteAccess (tid (snd ws)) (fst ws) (classOf h) hit (cbp_state (snd ws)) = Err int_overflow \<or>
      (\<exists>c. noteAccess (tid (snd ws)) (fst ws) (classOf h) hit (cbp_state (snd ws)) = Ret c \<and> cbp_inv c)"
    using noteAccess_cases [OF _ _ classOf_less] q(2) unfolding ctl_ok_def modes_def by blast
  moreover have "quiet s (snd ws\<lparr>cbp_state := c\<rparr>)" if "cbp_inv c" for c
    using q that by (simp add: quiet_def same_core_def ctl_ok_def)
  ultimately show ?thesis by (auto simp: bm_noteAccess_def case_prod_beta simp flip: ws_def)
qed

lemma decide_quiet:
  assumes "ctl_ok s"
  shows "\<exists>b s'. bm_decideForClass (classOf h) s = Ret (b, s') \<and> quiet s s'"
proof -
  obtain w s1 where d: "draw s = (w, s1)" by fastforce
  then have q: "quiet s s1" using quiet_draw [of s] by simp
  then have "cbp_inv (cbp_state s1)" using assms by (simp add: quiet_def ctl_ok_def)
  then obtain m where "maskFor (classOf h) (cbp_state s1) = Ret m" using maskFor_inv [OF _ classOf_less] by blast
  then show ?thesis using d q by (simp add: bm_decideForClass_def decideForClass_def)
qed

lemma attempt_quiet:
  assumes "ctl_ok s"
  shows "\<exists>s'. bm_noteAttempt (classOf h) s = Ret s' \<and> quiet s s'"
proof -
  have "cbp_inv (cbp_state s)" using assms by (simp add: ctl_ok_def)
  from noteAttempt_inv [OF this classOf_less] obtain c where
    "noteAttempt (classOf h) (cbp_state s) = Ret c" "cbp_inv c" by blast
  then show ?thesis using assms by (simp add: bm_noteAttempt_def quiet_def same_core_def ctl_ok_def)
qed

lemma perclass_quiet:
  assumes "ctl_ok s" and "bpage (bf_at s r) = Some x" and "x < length (virtMem s)"
  shows "\<exists>b s'. decide_perclass r s = Ret (b, s') \<and> quiet s s'"
proof -
  obtain w s1 where d: "draw s = (w, s1)" by fastforce
  then have q: "quiet s s1" using quiet_draw [of s] by simp
  note C = same_core_inv [OF q [unfolded quiet_def, THEN conjunct1]]
  have x: "page_of s1 r = Ret x" "x < length (virtMem s1)" using assms by (simp_all add: C page_of_owned)
  have "virtMem s1 ! x \<in> set (virtMem s1)" using x(2) by simp
  then have "btreeIsLeafOffset s1 < 16 + length (body (virtMem s1 ! x))"
    using q assms(1) by (simp add: quiet_def ctl_ok_def)
  then have "\<exists>b. leaf_byte s1 x = Ret b" using x(2) by (simp add: leaf_byte_def Let_def)
  then obtain b where "leaf_byte s1 x = Ret b" by blast
  then show ?thesis using d x q by (simp add: decide_perclass_def)
qed

lemma draw_quiet: "\<exists>b s'. (case draw s of (w, s') \<Rightarrow> Ret (f s' w, s')) = Ret (b, s') \<and> quiet s s'"
  using quiet_draw [of s] by (auto split: prod.split)

section \<open>unfixS and unfixX\<close>

text \<open>Whether the adapting v3 is on, the only controller that can stop.\<close>

definition adapting :: "cbp \<Rightarrow> bool" where
  "adapting c \<longleftrightarrow> enabled c \<and> modes c = (False, False, False)"

text \<open>The page is released and may have moved; or v3 has stopped at the conversion of a score.\<close>

lemma unlockS_holder:
  assumes "0 < getState v" and "getState v \<le> MaxShared"
  shows "\<exists>w. unlockS [(v, v)] = Ret w \<and> getState w = getState v - 1 \<and> versionOf w = versionOf v"
proof -
  have "getState v \<noteq> 0" using assms(1) by auto
  then have "getState v - 1 < 256"
    using assms(2) unat_minus_one [of "getState v"] by (simp add: word_less_nat_alt word_le_nat_alt)
  then show ?thesis using unlockS_once [OF assms] by simp
qed

lemma tryPromote_after:
  assumes inv: "pool_inv n {} {} s" and b: "unat (batch s) \<le> 128" and p: "p \<noteq> pid_none" and q: "quiet s s1"
  shows "tryPromote fuel p s1 = Loop \<or> (\<exists>s'. tryPromote fuel p s1 = Ret s' \<and> steady n s s')"
proof -
  have sc: "same_core s s1" using q by (simp add: quiet_def)
  note C = same_core_inv [OF sc]
  have "pool_inv n {} {} s1" "unat (batch s1) \<le> 128" using inv b by (simp_all add: C)
  from tryPromote_ok [OF this p] show ?thesis using steady_after_core [OF sc] by blast
qed

definition released :: "nat \<Rightarrow> PID \<Rightarrow> bm \<Rightarrow> fref \<Rightarrow> bm run \<Rightarrow> bool" where
  "released n p s r res' \<longleftrightarrow> res' = Loop \<or> adapting (cbp_state s) \<and> res' = Err int_overflow \<or>
     (\<exists>w s'. res' = Ret s' \<and> getState w = st s p - 1 \<and> versionOf w = versionOf (bstate (bf_at s r)) \<and>
       steady n (set_state r w s) s')"

lemma unfixS_ok:
  assumes inv: "pool_inv n {} {} s" and b: "unat (batch s) \<le> 128" and p: "res s p = Some r"
    and st: "0 < st s p" "st s p \<le> MaxShared" and ctl: "ctl_ok s"
  shows "released n p s r (unfixS fuel r s)"
proof -
  note I = pool_invD [OF inv]
  have bp: "bpid (bf_at s r) = p" by (rule bf_pid [OF I(1) p])
  have p0: "p \<noteq> pid_none" using p by auto
  have stv: "st s p = getState (bstate (bf_at s r))" using pg_st_Some [OF p] by simp
  obtain w where w: "unlockS [(bstate (bf_at s r), bstate (bf_at s r))] = Ret w" "getState w = st s p - 1"
    "versionOf w = versionOf (bstate (bf_at s r))"
    using unlockS_holder [of "bstate (bf_at s r)"] st stv by auto
  define s1 where "s1 = set_state r w s"
  note S = set_state_ok [where w = w, OF inv p, folded s1_def]
  have b1: "unat (batch s1) \<le> 128" using b env_eqD(2) [OF S(3)] by simp
  have c1: "ctl_ok s1" using ctl by (simp add: ctl_ok_def s1_def set_state_def) (simp add: upd_bf_def)
  obtain x where x: "x < length (virtMem s)" "bpage (bf_at s r) = Some x"
    by (rule owned_slot [OF I(2) p]) auto
  have x1: "bpage (bf_at s1 r) = Some x" "x < length (virtMem s1)"
    using x by (simp_all add: S(9)) (simp add: s1_def set_state_def)
  have outcome: "released n p s r res'" if "res' = Loop \<or> (\<exists>s'. res' = Ret s' \<and> steady n s1 s')" for res'
    using that w(2,3) by (auto simp: released_def s1_def)
  have core: "steady n s1 s'" if "quiet s1 s'" for s'
    by (rule steady_core [OF S(1)]) (use that in \<open>simp add: quiet_def\<close>)
  let ?inp = "bpage (bf_at s r) = Some (intended s p)" and ?cls = "classOf (bm_hash s p)"
  show ?thesis
  proof (cases "enabled (cbp_state s1)")
    case True
    have un: "unfixS fuel r s = bind_run (bm_noteAccess ?cls ?inp s1) (\<lambda>s.
             if \<not> ?inp \<and> isInlined r then
               bind_run (bm_decideForClass ?cls s) (\<lambda>(d, s).
                 if d then bind_run (bm_noteAttempt ?cls s) (tryPromote fuel p) else Ret s)
             else Ret s)"
      using True w(1) by (simp add: unfixS_def bp Let_def s1_def set_state_def del: unlockS.simps)
    from noteAccess_quiet [OF c1, of "bm_hash s p" ?inp] show ?thesis
    proof
      assume "modes (cbp_state s1) = (False, False, False) \<and> bm_noteAccess ?cls ?inp s1 = Err int_overflow"
      moreover have "cbp_state s1 = cbp_state s" by (simp add: s1_def set_state_def)
      ultimately show ?thesis using True by (simp add: un released_def adapting_def)
    next
      assume "\<exists>s'. bm_noteAccess ?cls ?inp s1 = Ret s' \<and> quiet s1 s'"
      then obtain s2 where s2: "bm_noteAccess ?cls ?inp s1 = Ret s2" "quiet s1 s2" by blast
      show ?thesis
      proof (cases "\<not> ?inp \<and> isInlined r")
        case False
        then show ?thesis using s2 core by (intro outcome) (auto simp: un)
      next
        case True
        have "ctl_ok s2" using s2(2) c1 by (simp add: quiet_def)
        then obtain d s3 where s3: "bm_decideForClass ?cls s2 = Ret (d, s3)" "quiet s2 s3" using decide_quiet by blast
        have q3: "quiet s1 s3" by (rule quiet_trans [OF s2(2) s3(2)])
        then have "ctl_ok s3" using c1 by (simp add: quiet_def)
        then obtain s4 where s4: "bm_noteAttempt ?cls s3 = Ret s4" "quiet s3 s4" using attempt_quiet by blast
        have "unfixS fuel r s = (if d then tryPromote fuel p s4 else Ret s3)"
          using True s2(1) s3(1) s4(1) by (simp add: un)
        then show ?thesis
          using tryPromote_after [OF S(1) b1 p0 quiet_trans [OF q3 s4(2)]] core [OF q3] by (intro outcome) auto
      qed
    qed
  next
    case False
    define de where "de = (if perClassMode (promo_cfg s1) then decide_perclass r s1
                     else (case draw s1 of (w, s) \<Rightarrow> Ret (decidePromotionShared (promo_cfg s) w, s)))"
    have "\<exists>d s2. de = Ret (d, s2) \<and> quiet s1 s2"
      unfolding de_def using perclass_quiet [OF c1 x1] draw_quiet [where f = "\<lambda>s. decidePromotionShared (promo_cfg s)" and s = s1] by auto
    then obtain d s2 where s2: "de = Ret (d, s2)" "quiet s1 s2" by blast
    have "unfixS fuel r s = bind_run de (\<lambda>(d, s). if \<not> ?inp \<and> isInlined r \<and> d then tryPromote fuel p s else Ret s)"
      using False w(1) by (simp add: unfixS_def bp Let_def s1_def set_state_def de_def del: unlockS.simps)
    then have "unfixS fuel r s = (if \<not> ?inp \<and> isInlined r \<and> d then tryPromote fuel p s2 else Ret s2)" using s2(1) by simp
    then show ?thesis
      using tryPromote_after [OF S(1) b1 p0 s2(2)] core [OF s2(2)] by (intro outcome) auto
  qed
qed

text \<open>\<open>unfixX\<close>: the page is unlocked, and the page may have moved before.\<close>

definition released_x :: "nat \<Rightarrow> PID \<Rightarrow> bm \<Rightarrow> fref \<Rightarrow> bm run \<Rightarrow> bool" where
  "released_x n p s r res' \<longleftrightarrow> res' = Loop \<or> adapting (cbp_state s) \<and> res' = Err int_overflow \<or>
     (\<exists>s'. res' = Ret s' \<and> pool_inv n {} {} s' \<and> view s' = view s \<and> env s' = env s \<and> res s' p = Some r \<and>
        unlockX (bstate (bf_at s r)) = Ret (bstate (bf_at s' r)) \<and> keeps (pinned s - {p}) s s' \<and>
        (low s \<longrightarrow> pinned s' \<subseteq> pinned s - {p}))"

lemma moved_after_core:
  assumes "same_core s s1" and "moved n p s1 r s'"
  shows "moved n p s r s'"
  using assms(2) by (simp add: moved_def same_core_inv [OF assms(1)] keeps_def low_core [OF assms(1)])

lemma moved_unlock:
  assumes mv: "moved n p s r s2" and p: "res s p = Some r" and w: "getState (bstate (bf_at s r)) = Locked"
  shows "released_x n p s r (bind_run (unlockX (bstate (bf_at s2 r))) (\<lambda>w. Ret (upd_bf r (\<lambda>bf. bf\<lparr>bstate := w\<rparr>) s2)))"
proof -
  obtain u where u: "unlockX (bstate (bf_at s r)) = Ret u" using w by (simp add: unlockX_def)
  have m: "pool_inv n {} {} s2" "res s2 p = Some r" "bstate (bf_at s2 r) = bstate (bf_at s r)"
    "keeps (pinned s - {p}) s s2" "view s2 = view s" "env s2 = env s" "low s \<longrightarrow> pinned s2 \<subseteq> pinned s"
    using mv by (simp_all add: moved_def)
  note U = set_state_ok [where w = u, OF m(1,2)]
  have "pinned s - {p} \<subseteq> dom (res s2) - {p}" using m(4) by (auto simp: keeps_def pinned_def)
  then have "keeps (pinned s - {p}) s (set_state r u s2)" by (rule keeps_trans [OF m(4) keeps_mono [OF U(7)]])
  moreover have "pinned (set_state r u s2) \<subseteq> pinned s - {p}" if lo: "low s"
  proof -
    have "getState u = Unlocked" using unlock_low [OF u] lowD [OF lo p] by simp
    then have "pinned (set_state r u s2) \<subseteq> insert p (pinned s2)" "p \<notin> pinned (set_state r u s2)"
      using pinned_state [OF U(4), of p "getState u"] U(6) by (simp_all add: fun_eq_iff)
    then show ?thesis using m(7) lo by blast
  qed
  ultimately show ?thesis using u m U by (simp add: released_x_def flip: set_state_def)
qed

lemma unfixX_ok:
  assumes inv: "pool_inv n {} {} s" and b: "unat (batch s) \<le> 128" and p: "res s p = Some r"
    and st: "st s p = Locked" and ctl: "ctl_ok s"
  shows "released_x n p s r (unfixX fuel r s)"
proof -
  note I = pool_invD [OF inv]
  note F = frame_invD [OF I(2)]
  have bp: "bpid (bf_at s r) = p" by (rule bf_pid [OF I(1) p])
  have stv: "getState (bstate (bf_at s r)) = Locked" using pg_st_Some [OF p] st by simp
  obtain x where x: "x < length (virtMem s)" "bpage (bf_at s r) = Some x"
    by (rule owned_slot [OF I(2) p]) auto
  define y where "y = intended s p"
  have y: "y < length (virtMemPids s)" using intended_less [OF F(8)] F(2) by (simp add: y_def)
  let ?inp = "bpage (bf_at s r) = Some y" and ?cls = "classOf (bm_hash s p)"
  define ul where "ul = (\<lambda>s. bind_run (unlockX (bstate (bf_at s r))) (\<lambda>w. Ret (upd_bf r (\<lambda>bf. bf\<lparr>bstate := w\<rparr>) s)))"
  define note1 where "note1 = (if enabled (cbp_state s) then bm_noteAccess ?cls ?inp s else Ret s)"
  define dec where "dec = (\<lambda>s. if enabled (cbp_state s) then bm_decideForClass ?cls s
                   else if perClassMode (promo_cfg s) then decide_perclass r s
                   else (case draw s of (w, s) \<Rightarrow> Ret (decidePromotionExclusive (promo_cfg s) w, s)))"
  define att where "att = (\<lambda>s. if enabled (cbp_state s) then bm_noteAttempt ?cls s else Ret s)"
  have un: "unfixX fuel r s = bind_run note1 (\<lambda>s. bind_run (dec s) (\<lambda>(d, s).
     if \<not> isInlined r \<or> ?inp \<or> \<not> d then ul s
     else bind_run (may_displace (intended s p) s) (\<lambda>(may, s).
       bind_run (if may then bind_run (att s) (promoteLocked fuel r) else Ret s) ul)))"
    by (simp only: unfixX_def bp Let_def ul_def note1_def dec_def att_def y_def)
  have fin: "released_x n p s r (ul s2)" if "moved n p s r s2" for s2
    unfolding ul_def by (rule moved_unlock [OF that p stv])
  have core: "released_x n p s r (ul s2)" if "quiet s s2" for s2
    by (rule fin [OF moved_same [OF inv p]]) (use that in \<open>simp add: quiet_def\<close>)
  have "adapting (cbp_state s) \<and> note1 = Err int_overflow \<or> (\<exists>s1. note1 = Ret s1 \<and> quiet s s1)"
    using noteAccess_quiet [OF ctl, of "bm_hash s p" ?inp] by (auto simp: note1_def adapting_def)
  then consider "adapting (cbp_state s)" "note1 = Err int_overflow" | s1 where "note1 = Ret s1" "quiet s s1" by blast
  then show ?thesis
  proof cases
    case 1
    then show ?thesis by (simp add: un released_x_def)
  next
    case s1: 2
    note C1 = same_core_inv [OF s1(2) [unfolded quiet_def, THEN conjunct1]]
    have c1: "ctl_ok s1" using s1(2) ctl by (simp add: quiet_def)
    have x1: "bpage (bf_at s1 r) = Some x" "x < length (virtMem s1)" using x by (simp_all add: C1)
    have "\<exists>d s2. dec s1 = Ret (d, s2) \<and> quiet s1 s2"
      using decide_quiet [OF c1] perclass_quiet [OF c1 x1]
        draw_quiet [where f = "\<lambda>s. decidePromotionExclusive (promo_cfg s)" and s = s1] by (simp add: dec_def)
    then obtain d s2 where s2: "dec s1 = Ret (d, s2)" "quiet s1 s2" by blast
    have q2: "quiet s s2" by (rule quiet_trans [OF s1(2) s2(2)])
    note C2 = same_core_inv [OF q2 [unfolded quiet_def, THEN conjunct1]]
    show ?thesis
    proof (cases "\<not> isInlined r \<or> ?inp \<or> \<not> d")
      case True
      then show ?thesis using s1 s2 core [OF q2] by (auto simp: un)
    next
      case False
      have "y < length (virtMemPids s2)" using y by (simp add: C2)
      then have "\<exists>may s3. may_displace y s2 = Ret (may, s3) \<and> quiet s2 s3"
        using quiet_draw [of s2] by (auto simp: may_displace_def split: prod.split)
      then obtain may s3 where s3: "may_displace y s2 = Ret (may, s3)" "quiet s2 s3" by blast
      have q3: "quiet s s3" by (rule quiet_trans [OF q2 s3(2)])
      have c3: "ctl_ok s3" using q3 ctl by (simp add: quiet_def)
      have "\<exists>s4. att s3 = Ret s4 \<and> quiet s3 s4" using attempt_quiet [OF c3] by (simp add: att_def)
      then obtain s4 where s4: "att s3 = Ret s4" "quiet s3 s4" by blast
      have q4: "same_core s s4" using quiet_trans [OF q3 s4(2)] by (simp add: quiet_def)
      note C4 = same_core_inv [OF q4]
      have "pool_inv n {} {} s4" "unat (batch s4) \<le> 128" "res s4 p = Some r" "st s4 p = Locked"
        "bpage (bf_at s4 r) \<noteq> Some (intended s4 p)"
        using inv b p st False by (simp_all add: C4 y_def)
      from promoteLocked_ok [OF this, of fuel] have
        pr: "promoteLocked fuel r s4 = Loop \<or> (\<exists>s'. promoteLocked fuel r s4 = Ret s' \<and> moved n p s r s')"
        using moved_after_core [OF q4] by blast
      have eq: "unfixX fuel r s = (if may then bind_run (promoteLocked fuel r s4) ul else ul s3)"
        using s1(1) s2(1) s3(1) s4(1) False by (simp add: un C2 flip: y_def)
      show ?thesis
        using pr core [OF q3] fin by (auto simp: eq) (simp add: released_x_def)
    qed
  qed
qed

end
