(* ===== verification/Pool_Start.thy ===== *)
theory Pool_Start
  imports Pool_Promotion
begin

text \<open>
  The constructor of \<open>BufferManager\<close>: the configuration from the environment, an empty pool, and
  the allocation of page 0 for the meta data. It establishes the invariant of the pool.
\<close>

section \<open>The environment\<close>

text \<open>
  What the process finds when it starts: environment variables, which block devices can be
  opened, what they hold, and the parameters of the state that stand for the kernel, the queue
  and the random device.
\<close>

record world =
  getenv :: "string \<Rightarrow> string option"
  opens :: "string \<Rightarrow> bool"
  w_disk :: "u64 \<times> u64 \<Rightarrow> page option"
  w_tid :: u16
  w_leaf :: nat
  w_seed :: "u32 \<times> u32 \<times> u32 \<times> u32"
  w_pop :: "nat list \<Rightarrow> (nat \<times> nat list) option"
  w_submit :: "nat \<Rightarrow> nat"
  w_weak :: "bool list"

text \<open>\<open>envOr\<close> converts the number that \<open>atof\<close> reads to \<open>u64\<close>, which is undefined out of range.\<close>

definition dbl_u64 :: "rat \<Rightarrow> u64 run" where
  "dbl_u64 x = (if 0 \<le> trunc x \<and> trunc x < 2 ^ 64 then Ret (word_of_int (trunc x))
     else Err (Fatal ''undefined: value out of range of u64''))"

definition envOr :: "(string \<Rightarrow> string option) \<Rightarrow> string \<Rightarrow> u64 \<Rightarrow> u64 run" where
  "envOr genv name d = (case genv name of None \<Rightarrow> Ret d | Some v \<Rightarrow> dbl_u64 (atof v))"

text \<open>\<open>strtok(path, ",")\<close>: the non-empty parts between commas.\<close>

fun split_comma :: "string \<Rightarrow> string list" where
  "split_comma [] = [[]]"
| "split_comma (c # cs) = (if c = CHR '','' then [] # split_comma cs
     else case split_comma cs of [] \<Rightarrow> [[c]] | t # ts \<Rightarrow> (c # t) # ts)"

definition block_paths :: "(string \<Rightarrow> string option) \<Rightarrow> string list" where
  "block_paths genv = filter (\<lambda>t. t \<noteq> []) (split_comma (case genv ''BLOCK'' of None \<Rightarrow> ''/tmp/bm'' | Some p \<Rightarrow> p))"

section \<open>The constructor\<close>

definition empty_page :: page where
  "empty_page = \<lparr>dirty = False, ppid = 0, body = replicate 4080 0\<rparr>"

text \<open>The pool before the first page is allocated.\<close>

definition bm_blank :: "world \<Rightarrow> u64 \<Rightarrow> u64 \<Rightarrow> rset \<Rightarrow> htab \<Rightarrow> bm" where
  "bm_blank w frames bat rs tab =
     \<lparr>frameCount = frames, residentSet = rs, allocCount = 0, readCount = 0, writeCount = 0,
      virtMem = replicate (unat frames) empty_page, virtMemPids = replicate (unat frames) pid_none,
      batch = bat, ht = tab, freeList = [0..<unat frames], evictsHTCache = 0,
      blockfds = of_nat (length (block_paths (getenv w))), disk = w_disk w,
      promo_cfg = initPromoteChances (getenv w) promo_default, cbp_state = cbp_init (getenv w),
      btreeIsLeafOffset = w_leaf w, tid = w_tid w, rng = (0, 0), rng_seed = w_seed w, queue_pop = w_pop w,
      io_submit = w_submit w, weak_fails = w_weak w\<rparr>"

definition usable_frames :: "u64 \<Rightarrow> u64 run" where
  "usable_frames frames = dbl_u64 (dbl (u64_dbl frames * dbl (95 / 100)))"

definition bm_new :: "nat \<Rightarrow> world \<Rightarrow> bm run" where
  "bm_new fuel w =
     bind_run (envOr (getenv w) ''POOLGB'' 1) (\<lambda>gbs.
     let frames = gbs * 2 ^ 30 div 4096 in
     bind_run (rs_new frames) (\<lambda>rs.
     bind_run (envOr (getenv w) ''BATCH'' 64) (\<lambda>bat.
     bind_run (usable_frames frames) (\<lambda>usable.
       if usable * 2 = 0 \<or> frames = 0 then Err (Fatal ''libdivide: divider must be != 0'')
       else if \<not> list_all (opens w) (block_paths (getenv w)) then Err (Fatal ''cannot open BLOCK device'')
       else bind_run (allocPage fuel (bm_blank w frames bat rs (ht_new (usable * 2)))) (\<lambda>(r, s).
         bind_run (unlockX (bstate (bf_at s r))) (\<lambda>u.
           Ret ((upd_bf r (\<lambda>bf. bf\<lparr>bstate := u\<rparr>) s)\<lparr>readCount := 0, writeCount := 0\<rparr>)))))))"

section \<open>The empty pool\<close>

definition world_ok :: "world \<Rightarrow> bool" where
  "world_ok w \<longleftrightarrow> deq_ok (w_pop w) \<and> (\<forall>n. w_submit w n = n) \<and> (\<forall>l q. w_disk w l = Some q \<longrightarrow> \<not> dirty q) \<and>
     unat (w_tid w) < 256 \<and> w_leaf w < 4096 \<and> 0 < length (block_paths (getenv w)) \<and> length (block_paths (getenv w)) < 2 ^ 64"

lemma blank_inv:
  assumes w: "world_ok w" and f: "2 \<le> unat frames" "unat frames \<le> 2 ^ 29" and c: "0 < c" and n: "n < 2 ^ 63"
  shows "\<exists>rs. rs_new frames = Ret rs \<and> pool_inv n {} {} (bm_blank w frames bat rs (ht_new c)) \<and>
    ht_lookup (ht_new c) = Map.empty"
proof -
  have "2 \<le> unat frames * 3 div 2" "unat frames * 3 div 2 \<le> 2 ^ 30" using f by auto
  from rs_new_blank [OF this] obtain k where k: "k \<le> 30" "rs_new frames = Ret (rs_blank k)" "unat frames * 3 div 2 \<le> 2 ^ k" by blast
  have i: "rs_inv k (rs_blank k)" using k(1) by (intro rs_inv_blank) simp
  let ?s = "bm_blank w frames bat (rs_blank k) (ht_new c)"
  have l: "ht_lookup (ht_new c) = Map.empty" using ht_new_ok(2) [OF c n] .
  have "unat frames < unat frames * 3 div 2" using f(1) by auto
  then have "unat frames < rs_room (rs_blank k)" using k(3) rs_room_inv [OF i] by simp
  then have "tab_inv n ?s"
    using ht_new_ok(1) [OF c n] w i l members_blank
    by (auto simp: tab_inv_def table_ok_def bm_blank_def world_ok_def rs_ok_def)
  moreover have "frame_inv {} {} ?s"
    using f(1) l by (auto simp: frame_inv_def bm_blank_def word_less_nat_alt)
  moreover have "disk_inv {} ?s"
  proof -
    have "0 < (of_nat (length (block_paths (getenv w))) :: u64)"
      using w unat_of_nat_small [of "length (block_paths (getenv w))", where 'a = 64]
      by (simp add: world_ok_def word_less_nat_alt)
    then show ?thesis using w l by (auto simp: disk_inv_def bm_blank_def world_ok_def)
  qed
  ultimately show ?thesis using k(2) l by (auto simp: pool_inv_def)
qed

section \<open>The constructor returns\<close>

text \<open>With its preferred frame free, a page is allocated at once.\<close>

lemma allocPage_free:
  assumes inv: "pool_inv (Suc (Suc n)) {} {} s" and b: "unat (batch s) \<le> 128"
    and p: "res s (allocCount s) = None" "real_pid (allocCount s)"
    and free: "virtMemPids s ! intended s (allocCount s) = pid_none"
  shows "\<exists>r t s'. allocPage fuel s = Ret (r, s') \<and> allocated n (allocCount s) s r s' \<and>
      ht_insert (queue_pop s) (allocCount s) (bm_hash s (allocCount s)) (ht s) = Ret (Some r, t) \<and>
      res s' = (res s)(allocCount s \<mapsto> r) \<and> bstate (bf_at s' r) = bstate (frame_at t r) \<and>
      allocCount s' = allocCount s + 1 \<and> (ctl_ok s \<longrightarrow> ctl_ok s')"
proof -
  define q where "q = allocCount s"
  define s0 where "s0 = s\<lparr>allocCount := q + 1\<rparr>"
  have sc: "same_core s s0" by (simp add: same_core_def s0_def)
  note C = same_core_inv [OF sc]
  have "pool_inv (Suc (Suc n)) {} {} s0" "res s0 q = None" using inv p(1) by (simp_all add: C q_def)
  from enter_page [OF this p(2) [folded q_def]] obtain r t rs where
    t: "ht_insert (queue_pop s0) q (bm_hash s0 q) (ht s0) = Ret (Some r, t)" "rs_insert q (residentSet s0) = Ret rs"
    and S1: "let s1 = s0\<lparr>ht := t, residentSet := rs\<rparr> in
      pool_inv n {q} {} s1 \<and> res s1 = (res s0)(q \<mapsto> r) \<and> env s1 = env s0 \<and> bpid (bf_at s1 r) = q \<and>
      st s1 q = Locked \<and> (\<forall>p. p \<noteq> q \<longrightarrow> view s1 p = view s0 p) \<and> keeps (dom (res s0)) s0 s1" by blast
  define s1 where "s1 = s0\<lparr>ht := t, residentSet := rs\<rparr>"
  note S1 = S1 [unfolded Let_def, folded s1_def]
  have i1: "tab_inv n s1" "res s1 q = Some r" using S1 pool_invD(1) by auto
  define s2 where "s2 = upd_bf r (with_page (intended s q) (\<not> disablePredict (promo_cfg s))) s1"
  note W = with_page_facts [where x = "intended s q" and b = "\<not> disablePredict (promo_cfg s)", OF i1, folded s2_def]
  have i2: "intended s2 q = intended s q" "virtMemPids s2 = virtMemPids s" by (simp_all add: s2_def s1_def s0_def intended_def)
  have x: "intended s q < length (virtMemPids s)" and y: "intended s q < length (virtMem s)"
    using intended_less frame_invD(1,2,8) [OF pool_invD(2) [OF inv]] by simp_all
  then have "trySetPresent (intended s q) q s2 = Ret (True, put_pid (intended s q) q s2)"
    using free [folded q_def] by (simp add: trySetPresent_def i2 put_pid_def)
  then have cl: "claim_frame fuel q s2 = Ret ((intended s q, True), put_pid (intended s q) q s2)"
    by (simp add: claim_frame_def i2(1))
  have sel: "intended s1 q = intended s q" "promo_cfg s0 = promo_cfg s"
    by (simp_all add: s1_def s0_def intended_def)
  have "allocPage fuel s = bind_run (set_pid (intended s q) q (put_pid (intended s q) q s2)) (\<lambda>s'.
      bind_run (upd_page (intended s q) (\<lambda>c. c\<lparr>dirty := True, ppid := q\<rparr>) s') (\<lambda>s'. Ret (r, s')))"
    using t cl by (simp add: allocPage_def Let_def sel flip: q_def s0_def s1_def s2_def)
  moreover have "set_pid (intended s q) q (put_pid (intended s q) q s2) = Ret (put_pid (intended s q) q s2)"
    using x by (simp add: set_pid_put i2) (simp add: put_pid_def)
  moreover have "upd_page (intended s q) (\<lambda>c. c\<lparr>dirty := True, ppid := q\<rparr>) (put_pid (intended s q) q s2) =
      Ret (put_page (intended s q) ((virtMem s ! intended s q)\<lparr>dirty := True, ppid := q\<rparr>) (put_pid (intended s q) q s2))"
    using y by (simp add: upd_page_put s2_def s1_def s0_def)
  ultimately have ret: "allocPage fuel s = Ret (r, put_page (intended s q) ((virtMem s ! intended s q)\<lparr>dirty := True, ppid := q\<rparr>)
      (put_pid (intended s q) q s2))" by simp
  define c where "c = (virtMem s ! intended s q)\<lparr>dirty := True, ppid := q\<rparr>"
  define s' where "s' = put_page (intended s q) c (put_pid (intended s q) q s2)"
  have "allocated n q s r s'"
    using allocPage_ok [OF inv b p, of fuel] ret by (auto simp: q_def s'_def c_def)
  moreover have "res s' = (res s)(q \<mapsto> r)" using S1 W(2) by (simp add: s'_def C)
  moreover have "bstate (bf_at s' r) = bstate (frame_at t r)" using W(6) by (simp add: s'_def s1_def bf_at_def)
  moreover have "allocCount s' = allocCount s + 1"
    by (simp add: s'_def put_page_def put_pid_def s2_def s1_def s0_def q_def)
  moreover have "ctl_ok s'" if "ctl_ok s"
    using that y nth_mem [OF y]
    by (auto simp: ctl_ok_def s'_def put_page_def put_pid_def s2_def s1_def s0_def upd_bf_def c_def
        dest!: set_update_subset_insert [THEN subsetD])
  moreover have "ht_insert (queue_pop s) q (bm_hash s q) (ht s) = Ret (Some r, t)"
    using t(1) by (simp add: s0_def bm_hash_def)
  ultimately show ?thesis using ret unfolding q_def [symmetric] s'_def c_def by blast
qed

lemma usable_frames_ok:
  assumes f: "2 \<le> unat frames" "unat frames \<le> 2 ^ 29"
  shows "\<exists>u. usable_frames frames = Ret u \<and> 0 < unat u \<and> unat u < 2 ^ 62"
proof -
  let ?c = "dbl (95 / 100)"
  have c: "1 / 2 \<le> ?c" "?c \<le> 1"
  proof -
    have "representable 53 (1 / 2)" "representable 53 1"
      using representable_half [of 53 1] representable_int [of 1 53] by simp_all
    then show "1 / 2 \<le> ?c" "?c \<le> 1"
      using fround_mono [of "1 / 2" "95 / 100" 53] fround_mono [of "95 / 100" 1 53] fround_id [of 53] by simp_all
  qed
  define x where "x = (of_nat (unat frames) :: rat)"
  have x: "2 \<le> x" "x \<le> of_nat (2 ^ 29)" using of_nat_mono [OF f(1), where 'a = rat] of_nat_mono [OF f(2), where 'a = rat]
    by (simp_all add: x_def)
  have "u64_dbl frames = x"
    using fround_nat [of "unat frames" 53] f(2) by (simp add: u64_dbl_def x_def)
  moreover have "1 \<le> x * ?c" using mult_mono [of 2 x "1 / 2" ?c] x c by simp
  moreover have "x * ?c \<le> of_nat (2 ^ 29)" using mult_mono [of x "of_nat (2 ^ 29)" ?c 1] x c by simp
  ultimately have b: "1 \<le> dbl (u64_dbl frames * ?c)" "dbl (u64_dbl frames * ?c) \<le> of_nat (2 ^ 29)"
    using fround_mono [of 1 "x * ?c" 53] fround_mono [of "x * ?c" "of_nat (2 ^ 29)" 53]
      fround_nat [of 1 53] fround_nat [of "2 ^ 29" 53] by simp_all
  define m where "m = trunc (dbl (u64_dbl frames * ?c))"
  have m: "1 \<le> m" "m \<le> 2 ^ 29" using b by (simp_all add: m_def trunc_def floor_le_iff le_floor_iff)
  then have "unat (word_of_int m :: u64) = nat m" by (simp add: unsigned_of_int take_bit_int_eq_self)
  then show ?thesis using m unfolding usable_frames_def dbl_u64_def m_def [symmetric] by simp
qed

lemma insert_new_table:
  assumes "0 < c" and "p \<noteq> pid_none" and "ht_insert deq p h (ht_new c) = Ret (Some r, t)"
  shows "bstate (frame_at t r) = sameVersion ps_init Locked"
proof -
  define i where "i = unat (ht_index c h)"
  have i: "i < unat c" unfolding i_def by (rule ht_index_less [OF assms(1)])
  have t: "hcount (ht_new c) = c" "table (ht_new c) = replicate (unat c) new_chain_head" by (simp_all add: ht_new_def)
  have fr: "bpid (ebf (head new_chain_head)) = pid_none" "enext (head new_chain_head) = None" "hlock new_chain_head = 0"
    "bstate (ebf (head new_chain_head)) = ps_init"
    by (simp_all add: new_chain_head_def new_entry_def vl_init_def)
  have hd: "frame_at (ht_new c) (Head i) = ebf (head new_chain_head)" using i by (simp add: frame_at_def t)
  have "find_chain n es p None = Ret None" for n es by (cases n) auto
  then show ?thesis using assms(2,3) i
    by (auto simp: hd ht_insert_def Let_def t fr isLocked_def vl_tryLock_def lock_new_frame_def run_simps tryLockX_def
        frame_at_upd [unfolded valid_ref_iff] split: if_splits simp flip: i_def)
qed

lemma bm_new_ok:
  assumes w: "world_ok w" and op: "list_all (opens w) (block_paths (getenv w))"
    and g: "envOr (getenv w) ''POOLGB'' 1 = Ret gbs" "frames = gbs * 2 ^ 30 div 4096" "2 \<le> unat frames" "unat frames \<le> 2 ^ 29"
    and b: "envOr (getenv w) ''BATCH'' 64 = Ret bat" "unat bat \<le> 128" and n: "n < 2 ^ 62"
  shows "\<exists>s. bm_new fuel w = Ret s \<and> pool_inv n {} {} s \<and> dom (res s) = {0} \<and> st s 0 = Unlocked \<and>
    allocCount s = 1 \<and> frameCount s = frames \<and> batch s = bat \<and> ctl_ok s \<and> low s \<and> queue_pop s = w_pop w"
proof -
  obtain us where us: "usable_frames frames = Ret us" "0 < unat us" "unat us < 2 ^ 62"
    using usable_frames_ok [OF g(3,4)] by blast
  have "unat (us * 2) = unat us * 2" using us(3) by (simp add: unat_word_ariths)
  then have c: "0 < us * 2" using us(2) by (simp add: word_less_nat_alt)
  then have c0: "us * 2 \<noteq> 0" by auto
  have f0: "frames \<noteq> 0" using g(3) by auto
  obtain rs where rs: "rs_new frames = Ret rs" "pool_inv (Suc (Suc n)) {} {} (bm_blank w frames bat rs (ht_new (us * 2)))"
    "ht_lookup (ht_new (us * 2)) = Map.empty"
    using blank_inv [OF w g(3,4) c, of "Suc (Suc n)" bat] n by auto
  define s0 where "s0 = bm_blank w frames bat rs (ht_new (us * 2))"
  have s0: "batch s0 = bat" "res s0 = Map.empty" "allocCount s0 = 0" "ht s0 = ht_new (us * 2)" "frameCount s0 = frames"
    "virtMemPids s0 = replicate (unat frames) pid_none" "virtMem s0 = replicate (unat frames) empty_page"
    "cbp_state s0 = cbp_init (getenv w)" "tid s0 = w_tid w" "btreeIsLeafOffset s0 = w_leaf w" "queue_pop s0 = w_pop w"
    by (simp_all add: s0_def bm_blank_def rs(3))
  have "intended s0 0 < unat frames" using intended_less [of s0 0] f0 by (simp add: s0 word_gt_0)
  then have "virtMemPids s0 ! intended s0 (allocCount s0) = pid_none" by (simp add: s0)
  from allocPage_free [OF rs(2) [folded s0_def] _ _ _ this, of fuel] b(2)
  obtain r t s1 where a: "allocPage fuel s0 = Ret (r, s1)" "allocated n 0 s0 r s1"
      "ht_insert (queue_pop s0) 0 (bm_hash s0 0) (ht_new (us * 2)) = Ret (Some r, t)"
      "res s1 = [0 \<mapsto> r]" "bstate (bf_at s1 r) = bstate (frame_at t r)" "allocCount s1 = 1" "ctl_ok s0 \<longrightarrow> ctl_ok s1"
    using s0(1-4) by (auto simp: real_pid_def)
  have i1: "pool_inv n {} {} s1" "res s1 0 = Some r" "env s1 = env s0" using a(2) by (simp_all add: allocated_def)
  have "bstate (bf_at s1 r) = sameVersion ps_init Locked"
    using insert_new_table [OF c _ a(3)] a(5) by simp
  then obtain u where u: "unlockX (bstate (bf_at s1 r)) = Ret u" "getState u = Unlocked" "versionOf u = 1"
    by (simp add: unlockX_def nextVersion_def getState_def sameVersion_def ps_init_def versionOf_def)
  have d1: "dom (res s1) = {0}" by (simp add: a(4))
  define s2 where "s2 = set_state r u s1"
  note S = set_state_ok [where w = u, OF i1(1,2), folded s2_def]
  define s where "s = s2\<lparr>readCount := 0, writeCount := 0\<rparr>"
  have sc: "same_core s2 s" by (simp add: same_core_def s_def)
  note C = same_core_inv [OF sc]
  have "bm_new fuel w = bind_run (allocPage fuel s0) (\<lambda>(r, s). bind_run (unlockX (bstate (bf_at s r))) (\<lambda>u.
      Ret ((upd_bf r (\<lambda>bf. bf\<lparr>bstate := u\<rparr>) s)\<lparr>readCount := 0, writeCount := 0\<rparr>)))"
    unfolding bm_new_def g(1) bind_run.simps Let_def g(2) [symmetric] rs(1) b(1) us(1) s0_def [symmetric] using c0 f0 op by simp
  then have "bm_new fuel w = Ret s" using a(1) u(1) by (simp add: s_def s2_def set_state_def)
  moreover have "pool_inv n {} {} s" using S by (simp add: C)
  moreover have "dom (res s) = {0}" using d1 by (simp add: C S)
  moreover have "st s 0 = Unlocked" using u(2) by (simp add: C S)
  moreover have "allocCount s = 1" using a(6) by (simp add: s_def s2_def set_state_def)
  moreover have "frameCount s = frames" "batch s = bat" "queue_pop s = w_pop w"
    using env_eqD(1,2,4) [OF S(3)] env_eqD(1,2,4) [OF i1(3)] s0 by (simp_all add: s_def)
  moreover have "low s" using u(3) S(8) by (auto simp: low_def C S a(4) split: if_splits)
  moreover have "ctl_ok s"
  proof -
    have "ctl_ok s0" using cbp_init_inv w by (auto simp: ctl_ok_def s0 world_ok_def empty_page_def)
    then have "ctl_ok s1" using a(7) by blast
    then show ?thesis by (simp add: ctl_ok_def s_def s2_def set_state_def) (simp add: upd_bf_def)
  qed
  ultimately show ?thesis by blast
qed

lemma bm_new_no_device:
  assumes w: "world_ok w" and op: "\<not> list_all (opens w) (block_paths (getenv w))"
    and g: "envOr (getenv w) ''POOLGB'' 1 = Ret gbs" "frames = gbs * 2 ^ 30 div 4096" "2 \<le> unat frames" "unat frames \<le> 2 ^ 29"
    and b: "envOr (getenv w) ''BATCH'' 64 = Ret bat"
  shows "bm_new fuel w = Err (Fatal ''cannot open BLOCK device'')"
proof -
  obtain us where us: "usable_frames frames = Ret us" "0 < unat us" "unat us < 2 ^ 62"
    using usable_frames_ok [OF g(3,4)] by blast
  have "unat (us * 2) = unat us * 2" using us(3) by (simp add: unat_word_ariths)
  then have c: "us * 2 \<noteq> 0" using us(2) by auto
  have "2 \<le> unat frames * 3 div 2" "unat frames * 3 div 2 \<le> 2 ^ 30" using g(3,4) by auto
  from rs_new_blank [OF this] obtain k where "rs_new frames = Ret (rs_blank k)" by blast
  moreover have "frames \<noteq> 0" using g(3) by auto
  ultimately show ?thesis unfolding bm_new_def g(1) bind_run.simps Let_def g(2) [symmetric] b(1) us(1) using c op by simp
qed

text \<open>
  C17: what the constructor does with an environment that asks for a pool of 2 to \<open>2 ^ 29\<close>
  frames and batches of at most 128 pages. If every block device can be opened it returns a pool
  that satisfies the invariant, holds page 0 alone, unlocked, and allocates page 1 next, with the
  controllers in their invariant. If a device cannot be opened it dies. \<open>world_ok\<close> says that at least one
  device is named, that the devices work and hold pages that are not dirty, that the queue of free
  frames gives back what was put in, and that the thread id and the leaf offset are in range.
\<close>

theorem constructor_establishes_pool:
  assumes w: "world_ok w"
    and g: "envOr (getenv w) ''POOLGB'' 1 = Ret gbs" "frames = gbs * 2 ^ 30 div 4096" "2 \<le> unat frames" "unat frames \<le> 2 ^ 29"
    and b: "envOr (getenv w) ''BATCH'' 64 = Ret bat" "unat bat \<le> 128" and n: "n < 2 ^ 62"
  shows "if list_all (opens w) (block_paths (getenv w))
    then \<exists>s. bm_new fuel w = Ret s \<and> pool_inv n {} {} s \<and> dom (res s) = {0} \<and> st s 0 = Unlocked \<and>
      allocCount s = 1 \<and> frameCount s = frames \<and> batch s = bat \<and> ctl_ok s
    else bm_new fuel w = Err (Fatal ''cannot open BLOCK device'')"
  using bm_new_ok [OF w _ g b n, of fuel] bm_new_no_device [OF w _ g b(1), of fuel] by auto

text \<open>A machine without environment variables, with an empty device.\<close>

definition example_world :: world where
  "example_world = \<lparr>getenv = (\<lambda>_. None), opens = (\<lambda>_. True), w_disk = Map.empty, w_tid = 3, w_leaf = 16,
     w_seed = (1, 2, 3, 4), w_pop = fifo, w_submit = id, w_weak = []\<rparr>"

lemma example_world_ok: "world_ok example_world" "block_paths (getenv example_world) = [''/tmp/bm'']"
  by (auto simp: world_ok_def example_world_def fifo_ok block_paths_def)

theorem constructor_establishes_pool_witness:
  "(\<exists>s. bm_new 0 example_world = Ret s \<and> pool_inv 1000 {} {} s \<and> dom (res s) = {0} \<and> st s 0 = Unlocked \<and>
    allocCount s = 1 \<and> frameCount s = 262144 \<and> batch s = 64 \<and> ctl_ok s) \<and>
   bm_new 0 (example_world\<lparr>opens := \<lambda>_. False\<rparr>) = Err (Fatal ''cannot open BLOCK device'')"
proof -
  have c: "world_ok w \<Longrightarrow> getenv w = getenv example_world \<Longrightarrow> if list_all (opens w) (block_paths (getenv w))
    then \<exists>s. bm_new 0 w = Ret s \<and> pool_inv 1000 {} {} s \<and> dom (res s) = {0} \<and> st s 0 = Unlocked \<and>
      allocCount s = 1 \<and> frameCount s = 262144 \<and> batch s = 64 \<and> ctl_ok s
    else bm_new 0 w = Err (Fatal ''cannot open BLOCK device'')" for w
    by (rule constructor_establishes_pool [where gbs = 1]) (simp_all add: example_world_def envOr_def)
  have "world_ok (example_world\<lparr>opens := \<lambda>_. False\<rparr>)" using example_world_ok(1) by (simp add: world_ok_def)
  from c [OF this] c [OF example_world_ok(1)] show ?thesis using example_world_ok(2) by (simp add: example_world_def)
qed

end
