(* ===== verification/Eviction_Progress.thy ===== *)
theory Eviction_Progress
  imports Pool_Start
begin

text \<open>
  Eviction makes progress, and the search for a free frame ends. The clock passes the slot of a
  page that nobody holds at most twice before the page is taken: the first time it marks the
  page, the second time it evicts it. So a frame becomes vacant after finitely many calls of
  \<open>evict\<close>, unless clients hold as many pages as the pool has frames.
\<close>

section \<open>Progress of a search\<close>

definition vacant :: "bm \<Rightarrow> bool" where
  "vacant s \<longleftrightarrow> (\<exists>x < unat (frameCount s). virtMemPids s ! x = pid_none)"

text \<open>A weak compare-and-swap that fails, of which there may be finitely many, also counts as
  progress: \<open>f\<close> is the number of outcomes that were left at the start.\<close>

definition progress :: "nat \<Rightarrow> bm \<Rightarrow> evicting \<Rightarrow> bool" where
  "progress f s ev \<longleftrightarrow> vacant s \<or> toWrite ev \<noteq> [] \<or> length (weak_fails s) < f"

text \<open>A page that nobody holds, in slot \<open>i\<close> of the resident set, and how far the clock is from
  taking it.\<close>

definition target :: "PID \<Rightarrow> nat \<Rightarrow> bm \<Rightarrow> bool" where
  "target p i s \<longleftrightarrow> i < rs_room (residentSet s) \<and> slots (residentSet s) ! i = p \<and> p \<in> dom (res s) \<and>
     (st s p = Unlocked \<or> st s p = Marked)"

definition sweep :: "nat \<Rightarrow> nat \<Rightarrow> nat \<Rightarrow> u64 \<Rightarrow> nat" where
  "sweep c i pos w = (i + c - pos) mod c + (if w = Marked then 0 else c)"

lemma sweep_eq:
  assumes "pos < c" and "i < c"
  shows "sweep c i pos w = (if pos \<le> i then i - pos else i + c - pos) + (if w = Marked then 0 else c)"
proof -
  have "(i + c - pos) mod c = (if pos \<le> i then i - pos else i + c - pos)"
  proof (cases "pos \<le> i")
    case True
    then have "i + c - pos = (i - pos) + c" by simp
    then have "(i + c - pos) mod c = (i - pos) mod c" by (simp only: mod_add_self2)
    then show ?thesis using True assms(2) by simp
  next
    case False
    then show ?thesis using assms by simp
  qed
  then show ?thesis by (simp add: sweep_def)
qed

lemma sweep_step:
  assumes "pos < c" and "i < c" and "i \<noteq> pos"
  shows "sweep c i (Suc pos mod c) w + 1 = sweep c i pos w"
proof -
  have "Suc pos mod c < c" using assms(1) by simp
  then show ?thesis using assms by (auto simp: sweep_eq mod_Suc)
qed

lemma sweep_hit:
  assumes "pos < c" and "w \<noteq> Marked"
  shows "sweep c pos (Suc pos mod c) Marked + 1 = sweep c pos pos w"
proof -
  have "Suc pos mod c < c" using assms(1) by simp
  then show ?thesis using assms by (auto simp: sweep_eq mod_Suc)
qed

lemma sweep_less: "0 < c \<Longrightarrow> sweep c i pos w < 2 * c"
  by (simp add: sweep_def) (metis add_less_mono1 mod_less_divisor mult_2 trans_less_add1)

section \<open>One visit\<close>

lemma upd_bf_more [simp]:
  "weak_fails (upd_bf r f s) = weak_fails s" "freeList (upd_bf r f s) = freeList s"
  by (simp_all add: upd_bf_def)

text \<open>Without progress a visit can only have marked the page it visited, and that page was not
  marked before.\<close>

definition idle :: "PID \<Rightarrow> bm \<Rightarrow> bm \<Rightarrow> bool" where
  "idle p s s' \<longleftrightarrow> residentSet s' = residentSet s \<and> res s' = res s \<and> freeList s' = freeList s \<and>
     (p \<in> dom (res s) \<longrightarrow> st s p \<noteq> Marked) \<and>
     (\<forall>q. st s' q = (if q = p \<and> p \<in> dom (res s) \<and> st s p = Unlocked then Marked else st s q))"

lemma set_pid_weak: "set_pid x p s = Ret s' \<Longrightarrow> weak_fails s' = weak_fails s"
  by (auto simp: set_pid_def run_simps)

lemma evict_clean_frames:
  assumes "evict_clean p h x s = Ret s'"
  shows "weak_fails s' = weak_fails s" "virtMemPids s' = (virtMemPids s)[x := pid_none]" "frameCount s' = frameCount s"
  using assms by (auto simp: evict_clean_def set_pid_def aset_def enqueue_free_def run_simps split: if_splits)

lemma visit_progress:
  assumes v: "visit_inv n H E K s0 s ev" and p: "p \<noteq> pid_none" and room: "unat (evicted ev) + 2 < 2 ^ 64"
    and w: "length (weak_fails s) \<le> f"
  shows "\<exists>s' ev'. evict_visit p (s, ev) = Ret (s', ev') \<and> length (weak_fails s') \<le> f \<and>
    (progress f s' ev' \<or> ev' = ev \<and> idle p s s') \<and> (progress f s ev \<longrightarrow> progress f s' ev')"
proof (cases "res s p")
  note D = visit_invD [OF v]
  note acc = access_res [where move = False and w = 0, OF D(2) p]
  {
    case None
    then show ?thesis using acc w
      by (intro exI [of _ s] exI [of _ ev]) (auto simp: evict_visit_def Let_def idle_def)
  next
    case (Some r)
    let ?v = "bstate (bf_at s r)"
    have stv: "st s p = getState ?v" using pg_st_Some [OF Some] by simp
    consider (marked) "getState ?v = Marked" | (unlocked) "getState ?v = Unlocked"
      | (other) "getState ?v \<noteq> Marked" "getState ?v \<noteq> Unlocked" by blast
    then show ?thesis
    proof cases
      case other
      then show ?thesis using acc Some w stv
        by (intro exI [of _ s] exI [of _ ev]) (auto simp: evict_visit_def Let_def idle_def)
    next
      case unlocked
      define s1 where "s1 = upd_bf r (\<lambda>bf. bf\<lparr>bstate := sameVersion ?v Marked\<rparr>) s"
      note free = visitable [OF v Some]
      note U = upd_state_inv [where w = "sameVersion ?v Marked", OF D(1) Some, folded s1_def]
      have "evict_visit p (s, ev) = Ret (s1, ev)"
        using acc Some unlocked by (simp add: evict_visit_def Let_def tryMark_def s1_def)
      moreover have sel: "weak_fails s1 = weak_fails s" "residentSet s1 = residentSet s" "freeList s1 = freeList s"
        "frameCount s1 = frameCount s" "virtMemPids s1 = virtMemPids s" by (simp_all add: s1_def)
      moreover have "idle p s s1"
        using U(3,5) free stv unlocked Some sel by (auto simp: idle_def)
      ultimately show ?thesis using w by (auto simp: progress_def vacant_def)
    next
      case marked
      note free = visitable [OF v Some, unfolded stv, OF disjI2, OF marked]
      obtain x where x: "x < unat (frameCount s)" "pg s p = Some x" "x < length (virtMem s)" "x < length (virtMemPids s)"
        using owned_slot [OF D(3) Some free(1)] by blast
      define u where "u = sameVersion ?v 1"
      define s1 where "s1 = upd_bf r (\<lambda>bf. bf\<lparr>bstate := u\<rparr>) s"
      define ev1 where "ev1 = ev\<lparr>evicted := evicted ev + 1\<rparr>"
      note U = upd_state_inv [where w = u, OF D(1) Some, folded s1_def]
      have E1: "visit_inv n H E K s0 s1 ev1" "toWrite ev1 = toWrite ev"
        using visit_evicted [OF visit_state [OF v Some free, of u, folded s1_def]] room by (simp_all add: ev1_def)
      have r1: "res s1 p = Some r" "pg s1 p = Some x" "st s1 p = 1" "bstate (bf_at s1 r) = u" "getState u = 1"
        "virtMem s1 = virtMem s" "page_of s1 r = Ret x" "bm_hash s1 p = bm_hash s p" "weak_fails s1 = weak_fails s"
        "virtMemPids s1 = virtMemPids s" "frameCount s1 = frameCount s"
        using U free x Some by (simp_all add: u_def page_of_owned pg_st_Some) (simp_all add: s1_def)
      show ?thesis
      proof (cases "dirty (virtMem s ! x)")
        case True
        have "evict_visit p (s, ev) = Ret (s1, ev1\<lparr>toWrite := toWrite ev1 @ [(p, x, r)]\<rparr>)"
          using acc Some marked r1 x(3) True
          by (simp add: evict_visit_def Let_def tryLockS_marked flip: u_def s1_def ev1_def) (simp add: E1)
        then show ?thesis using r1(9) w by (auto simp: progress_def)
      next
        case clean: False
        show ?thesis
        proof (cases "weak_fails s")
          case Nil
          then have nw: "next_weak s1 = (False, s1)" using r1(9) by (simp add: next_weak_def)
          define s2 where "s2 = upd_bf r (\<lambda>bf. bf\<lparr>bstate := sameVersion u Locked\<rparr>) s1"
          obtain s3 where s3: "evict_clean p (bm_hash s1 p) x s2 = Ret s3"
            using visit_clean [OF E1(1) r1(1) free(1,2) _ r1(2), of u, folded s2_def] free(3) E1(2) clean r1(6) by auto
          note s3' = evict_clean_frames [OF s3]
          have "vacant s3" using x(1,4) r1 by (auto simp: vacant_def s3' s2_def)
          moreover have "evict_visit p (s, ev) = Ret (s3, ev1\<lparr>evicted := evicted ev1 + 1, evictedHTCache := evictedHTCache ev1 @ [p]\<rparr>)"
            using acc Some marked r1 x(3) clean nw s3
            by (simp add: evict_visit_def Let_def tryLockS_marked case_prod_beta cas_weak_def
                flip: u_def s1_def s2_def) (simp add: ev1_def)
          moreover have "weak_fails s3 = []" using Nil r1(9) by (simp add: s3' s2_def)
          ultimately show ?thesis by (auto simp: progress_def)
        next
          case (Cons a ws)
          obtain s' ev' where r: "evict_visit p (s, ev) = Ret (s', ev')" using evict_visit_ok [OF v p room] by blast
          have "weak_fails s' = ws"
            using r acc Some marked r1 x(3) clean Cons
            by (auto simp: evict_visit_def Let_def tryLockS_marked case_prod_beta next_weak_def run_simps
                dest!: evict_clean_frames(1) split: if_splits simp flip: u_def s1_def)
          then show ?thesis using r w Cons by (auto simp: progress_def)
        qed
      qed
    qed
  }
qed

section \<open>A batch of the clock\<close>

text \<open>Either there is progress, or the counters are as they were and the target is closer by the
  number of slots that were passed.\<close>

definition closer :: "nat \<Rightarrow> PID \<Rightarrow> nat \<Rightarrow> nat \<Rightarrow> nat \<Rightarrow> nat \<Rightarrow> bm \<Rightarrow> evicting \<Rightarrow> bm \<Rightarrow> evicting \<Rightarrow> bool" where
  "closer c p i pos pos' m s ev s' ev' \<longleftrightarrow> ev' = ev \<and> target p i s' \<and> freeList s' = freeList s \<and>
     residentSet s' = residentSet s \<and> sweep c i pos' (st s' p) + m = sweep c i pos (st s p)"

lemma idle_closer:
  assumes t: "target p i s" and c: "rs_room (residentSet s) = c" "pos < c"
    and q: "slots (residentSet s) ! pos = q" "idle q s s'"
    and inj: "i \<noteq> pos \<Longrightarrow> q \<noteq> p"
  shows "closer c p i pos (Suc pos mod c) 1 s ev s' ev"
proof (cases "i = pos")
  case True
  then have "q = p" using t q(1) by (simp add: target_def)
  then have "st s p = Unlocked" "st s' p = Marked" using t q(2) by (auto simp: target_def idle_def)
  then show ?thesis
    using t q(2) sweep_hit [OF c(2), of Unlocked] by (auto simp: closer_def target_def idle_def True)
next
  case False
  then have "st s' p = st s p" using q(2) inj by (auto simp: idle_def)
  then show ?thesis
    using t q(2) c sweep_step [OF c(2) _ False] by (auto simp: closer_def target_def idle_def)
qed

lemma closer_trans:
  "closer c p i a b m s ev s1 ev1 \<Longrightarrow> closer c p i b d n s1 ev1 s2 ev2 \<Longrightarrow> closer c p i a d (m + n) s ev s2 ev2"
  by (auto simp: closer_def)

lemma slot_once:
  assumes "rs_inv k r" and "i < 2 ^ k" "j < 2 ^ k" and "slots r ! i = slots r ! j" and "real_pid (slots r ! i)"
  shows "i = j"
  using assms by (auto simp: rs_inv_def) 

lemma clock_loop_progress:
  assumes "visit_inv n H E K s0 s ev" and "length (weak_fails s) \<le> f" and "rs_inv k (residentSet s)" and "unat pos < 2 ^ k"
    and "unat (evicted ev) + 2 * m < 2 ^ 64" and "progress f s ev \<or> target p i s"
  shows "\<exists>s' ev'. clock_loop rs_get evict_visit m pos (s, ev) = Ret (s', ev') \<and> visit_inv n H E K s0 s' ev' \<and>
    length (weak_fails s') \<le> f \<and>
    (progress f s' ev' \<or> \<not> progress f s ev \<and> closer (2 ^ k) p i (unat pos) ((unat pos + m) mod 2 ^ k) m s ev s' ev')"
  using assms
proof (induction m arbitrary: s ev pos)
  case 0
  then show ?case by (auto simp: closer_def)
next
  case (Suc m)
  note v = Suc.prems(1) and R = rs_invD [OF Suc.prems(3)]
  have room: "rs_room (residentSet s) = 2 ^ k" by (rule rs_room_inv [OF Suc.prems(3)])
  define q where "q = slots (residentSet s) ! unat pos"
  have get: "aget (slots (rs_get (s, ev))) (unat pos) = Ret q" using Suc.prems(4) R(2) by (simp add: q_def rs_get_def)
  have inj: "i \<noteq> unat pos \<Longrightarrow> q \<noteq> p" if "target p i s"
  proof -
    have t: "slots (residentSet s) ! i = p" "i < 2 ^ k" "real_pid p"
      using tab_invD(5) [OF visit_invD(2) [OF v]] that room by (simp_all add: target_def)
    assume ne: "i \<noteq> unat pos"
    show "q \<noteq> p"
    proof
      assume "q = p"
      then have "slots (residentSet s) ! i = slots (residentSet s) ! unat pos" using t(1) by (simp add: q_def)
      from slot_once [OF Suc.prems(3) t(2) Suc.prems(4) this] show False using ne t by simp
    qed
  qed
  have "\<exists>s1 ev1. (if q \<noteq> rs_tombstone \<and> q \<noteq> rs_empty then evict_visit q (s, ev) else Ret (s, ev)) = Ret (s1, ev1) \<and>
      visit_inv n H E K s0 s1 ev1 \<and> length (weak_fails s1) \<le> f \<and> unat (evicted ev1) \<le> unat (evicted ev) + 2 \<and>
      (progress f s1 ev1 \<or> \<not> progress f s ev \<and>
        closer (2 ^ k) p i (unat pos) (Suc (unat pos) mod 2 ^ k) 1 s ev s1 ev1)"
  proof (cases "real_pid q")
    case True
    have r2: "unat (evicted ev) + 2 < 2 ^ 64" using Suc.prems(5) by simp
    obtain s1 ev1 where s1: "evict_visit q (s, ev) = Ret (s1, ev1)" "visit_inv n H E K s0 s1 ev1"
        "unat (evicted ev1) \<le> unat (evicted ev) + 2"
      using evict_visit_ok [OF v real_pid_none [OF True] r2] by blast
    have w: "length (weak_fails s1) \<le> f" "progress f s1 ev1 \<or> ev1 = ev \<and> idle q s s1" "progress f s ev \<longrightarrow> progress f s1 ev1"
      using visit_progress [OF v real_pid_none [OF True] r2 Suc.prems(2)] s1(1) by auto
    have "progress f s1 ev1 \<or> \<not> progress f s ev \<and>
        closer (2 ^ k) p i (unat pos) (Suc (unat pos) mod 2 ^ k) 1 s ev s1 ev1"
    proof (cases "progress f s1 ev1")
      case False
      then have "ev1 = ev" "idle q s s1" "\<not> progress f s ev" "target p i s" using w(2,3) Suc.prems(6) by blast+
      then show ?thesis using idle_closer [OF \<open>target p i s\<close> room Suc.prems(4) q_def [symmetric]] inj by blast
    qed blast
    then show ?thesis using s1 w(1) True by (auto simp: real_pid_def)
  next
    case False
    have "i \<noteq> unat pos" if "target p i s"
      using that False tab_invD(5) [OF visit_invD(2) [OF v]] by (auto simp: target_def q_def)
    then have "closer (2 ^ k) p i (unat pos) (Suc (unat pos) mod 2 ^ k) 1 s ev s ev" if "target p i s"
      using that sweep_step [OF Suc.prems(4), of i] room by (auto simp: closer_def target_def)
    then show ?thesis using False v Suc.prems(2,6) by (auto simp: real_pid_def)
  qed
  then obtain s1 ev1 where s1: "(if q \<noteq> rs_tombstone \<and> q \<noteq> rs_empty then evict_visit q (s, ev) else Ret (s, ev)) = Ret (s1, ev1)"
      "visit_inv n H E K s0 s1 ev1" "length (weak_fails s1) \<le> f" "unat (evicted ev1) \<le> unat (evicted ev) + 2"
      "progress f s1 ev1 \<or> \<not> progress f s ev \<and> closer (2 ^ k) p i (unat pos) (Suc (unat pos) mod 2 ^ k) 1 s ev s1 ev1"
    by blast
  have "rs_room (residentSet s1) = 2 ^ k"
    using room env_eqD(6) visit_invD(6) [OF v] visit_invD(6) [OF s1(2)] by metis
  then have k1: "rs_inv k (residentSet s1)" using rs_ok_k tab_invD(4) [OF visit_invD(2) [OF s1(2)]] by blast
  define pos1 where "pos1 = (pos + 1) AND rmask (residentSet s1)"
  have pos1: "unat pos1 = Suc (unat pos) mod 2 ^ k" "unat pos1 < 2 ^ k"
    using probe_next [OF Suc.prems(4) R(1)] rs_invD(3) [OF k1] by (simp_all add: pos1_def)
  have tgt: "progress f s1 ev1 \<or> target p i s1" using s1(5) by (auto simp: closer_def)
  have "unat (evicted ev1) + 2 * m < 2 ^ 64" using s1(4) Suc.prems(5) by simp
  from Suc.IH [OF s1(2,3) k1 pos1(2) this tgt] obtain s2 ev2 where
    s2: "clock_loop rs_get evict_visit m pos1 (s1, ev1) = Ret (s2, ev2)" "visit_inv n H E K s0 s2 ev2" "length (weak_fails s2) \<le> f"
      "progress f s2 ev2 \<or> \<not> progress f s1 ev1 \<and> closer (2 ^ k) p i (unat pos1) ((unat pos1 + m) mod 2 ^ k) m s1 ev1 s2 ev2"
    by blast
  have e: "(unat pos1 + m) mod 2 ^ k = (unat pos + Suc m) mod 2 ^ k" by (simp add: pos1(1) mod_add_left_eq)
  have "progress f s2 ev2 \<or> \<not> progress f s ev \<and>
      closer (2 ^ k) p i (unat pos) ((unat pos + Suc m) mod 2 ^ k) (Suc m) s ev s2 ev2"
  proof (cases "progress f s2 ev2")
    case False
    then have c: "closer (2 ^ k) p i (unat pos1) ((unat pos1 + m) mod 2 ^ k) m s1 ev1 s2 ev2" "\<not> progress f s ev"
        "closer (2 ^ k) p i (unat pos) (unat pos1) 1 s ev s1 ev1"
      using s2(4) s1(5) by (auto simp: pos1(1))
    show ?thesis using closer_trans [OF c(3,1)] c(2) by (simp add: e)
  qed simp
  moreover have "clock_loop rs_get evict_visit (Suc m) pos (s, ev) = Ret (s2, ev2)"
    using get s1(1) s2(1) by (simp add: pos1_def rs_get_def)
  ultimately show ?case using s2(2,3) by blast
qed

text \<open>The clock of the resident set stands where the last batch ended.\<close>

abbreviation clock :: "bm \<Rightarrow> nat" where
  "clock s \<equiv> unat (clockPos (residentSet s))"

definition nearer :: "nat \<Rightarrow> PID \<Rightarrow> nat \<Rightarrow> nat \<Rightarrow> bm \<Rightarrow> evicting \<Rightarrow> bm \<Rightarrow> evicting \<Rightarrow> bool" where
  "nearer c p i m s ev s' ev' \<longleftrightarrow> ev' = ev \<and> target p i s' \<and> freeList s' = freeList s \<and>
     sweep c i (clock s') (st s' p) + m = sweep c i (clock s) (st s p)"

lemma clock_batch_progress:
  assumes v: "visit_inv n H E K s0 s ev" and b: "unat (evicted ev) + 2 * unat (batch s) < 2 ^ 63"
    and w: "length (weak_fails s) \<le> f" and pt: "progress f s ev \<or> target p i s" and bl: "unat (batch s) \<le> 128"
  shows "\<exists>s' ev'. iterateClockBatch rs_get rs_put (batch s) evict_visit (s, ev) = Ret (s', ev') \<and>
    visit_inv n H E K s0 s' ev' \<and> length (weak_fails s') \<le> f \<and>
    (progress f s' ev' \<or> \<not> progress f s ev \<and> nearer (rs_room (residentSet s)) p i (unat (batch s)) s ev s' ev')"
proof -
  obtain k where k: "rs_inv k (residentSet s)" using tab_invD(4) [OF visit_invD(2) [OF v]] by (auto simp: rs_ok_def)
  note R = rs_invD [OF k]
  have room: "rs_room (residentSet s) = 2 ^ k" by (rule rs_room_inv [OF k])
  define c where "c = (clockPos (residentSet s) + batch s) mod rcount (residentSet s)"
  define s1 where "s1 = s\<lparr>residentSet := residentSet s\<lparr>clockPos := c\<rparr>\<rparr>"
  have pos: "unat (clockPos (residentSet s)) < 2 ^ k" using k by (simp add: rs_inv_def)
  have c: "unat c = (clock s + unat (batch s)) mod 2 ^ k"
    using clockPos_next [OF R(1)] R(4) by (simp add: c_def)
  have c': "unat c < 2 ^ k" by (simp add: c)
  have v1: "visit_inv n H E K s0 s1 ev" unfolding s1_def by (rule visit_clock [OF v k c'])
  have k1: "rs_inv k (residentSet s1)" using rs_inv_clock [OF k c'] by (simp add: s1_def)
  have same: "st s1 = st s" "res s1 = res s" "length (weak_fails s1) \<le> f" "freeList s1 = freeList s" "progress f s1 ev = progress f s ev"
    "target p i s1 = target p i s"
    using w by (simp_all add: s1_def st_def bf_at_def progress_def vacant_def target_def rs_room_def fun_eq_iff cong: option.case_cong)
  have "unat (evicted ev) + 2 * unat (batch s) < 2 ^ 64" using b by simp
  from clock_loop_progress [OF v1 same(3) k1 pos this, of p i] pt obtain s2 ev2 where
    s2: "clock_loop rs_get evict_visit (unat (batch s)) (clockPos (residentSet s)) (s1, ev) = Ret (s2, ev2)"
      "visit_inv n H E K s0 s2 ev2" "length (weak_fails s2) \<le> f"
      "progress f s2 ev2 \<or> \<not> progress f s ev \<and>
        closer (2 ^ k) p i (clock s) ((clock s + unat (batch s)) mod 2 ^ k) (unat (batch s)) s1 ev s2 ev2"
    by (auto simp: same)
  have "clockPos (residentSet s1) = c" by (simp add: s1_def)
  then have "closer (2 ^ k) p i (clock s) ((clock s + unat (batch s)) mod 2 ^ k) (unat (batch s)) s1 ev s2 ev2 \<Longrightarrow>
      nearer (2 ^ k) p i (unat (batch s)) s ev s2 ev2"
    by (simp add: closer_def nearer_def same c)
  then have "progress f s2 ev2 \<or> \<not> progress f s ev \<and> nearer (rs_room (residentSet s)) p i (unat (batch s)) s ev s2 ev2"
    using s2(4) by (auto simp: room)
  moreover have "iterateClockBatch rs_get rs_put (batch s) evict_visit (s, ev) = Ret (s2, ev2)"
    using s2(1) by (simp add: iterateClockBatch_def rs_get_def rs_put_def Let_def s1_def c_def)
  ultimately show ?thesis using s2(2,3) by blast
qed

text \<open>A search that makes no progress runs all its batches.\<close>

lemma evict_search_progress:
  assumes "visit_inv n H E K s0 s ev" and "unat (batch s) \<le> 128" "0 < batch s" and "length (toWrite ev) \<le> 255"
    and "length (weak_fails s) \<le> f" and "progress f s ev \<or> target p i s \<and> evicted ev = 0"
  shows "\<exists>s' ev'. evict_search m (s, ev) = Ret (s', ev') \<and> visit_inv n H E K s0 s' ev' \<and> length (weak_fails s') \<le> f \<and>
    (progress f s' ev' \<or> \<not> progress f s ev \<and> nearer (rs_room (residentSet s)) p i (m * unat (batch s)) s ev s' ev')"
  using assms
proof (induction m arbitrary: s ev)
  case 0
  then show ?case by (auto simp: nearer_def)
next
  case (Suc m)
  show ?case
  proof (cases "evicted ev < batch s")
    case True
    then have e: "unat (evicted ev) < unat (batch s)" by (simp add: word_less_nat_alt)
    then have room: "unat (evicted ev) + 2 * unat (batch s) < 2 ^ 63" using Suc.prems(2) by simp
    have pt: "progress f s ev \<or> target p i s" using Suc.prems(6) by blast
    obtain s1 ev1 where s1: "iterateClockBatch rs_get rs_put (batch s) evict_visit (s, ev) = Ret (s1, ev1)"
        "visit_inv n H E K s0 s1 ev1" "length (weak_fails s1) \<le> f"
        "progress f s1 ev1 \<or> \<not> progress f s ev \<and> nearer (rs_room (residentSet s)) p i (unat (batch s)) s ev s1 ev1"
      using clock_batch_progress [OF Suc.prems(1) room Suc.prems(5) pt Suc.prems(2)] by blast
    have "length (toWrite ev1) \<le> length (toWrite ev) + unat (batch s)"
      using clock_batch_ok [OF Suc.prems(1) room] s1(1) by auto
    moreover have "length (toWrite ev) \<le> unat (evicted ev)"
      using visit_invD(4) [OF Suc.prems(1)] by (simp add: ev_inv_def)
    ultimately have l: "length (toWrite ev1) \<le> 255" using Suc.prems(2) e by linarith
    have en: "env s1 = env s" using visit_invD(6) [OF s1(2)] visit_invD(6) [OF Suc.prems(1)] by simp
    note en = env_eqD(2,6) [OF en]
    have "progress f s1 ev1 \<or> target p i s1 \<and> evicted ev1 = 0"
      using s1(4) Suc.prems(6) by (auto simp: nearer_def)
    from Suc.IH [OF s1(2) _ _ l s1(3) this] Suc.prems(2,3) obtain s2 ev2 where
      s2: "evict_search m (s1, ev1) = Ret (s2, ev2)" "visit_inv n H E K s0 s2 ev2" "length (weak_fails s2) \<le> f"
        "progress f s2 ev2 \<or> \<not> progress f s1 ev1 \<and> nearer (rs_room (residentSet s1)) p i (m * unat (batch s1)) s1 ev1 s2 ev2"
      by (auto simp: en)
    have "progress f s2 ev2 \<or> \<not> progress f s ev \<and> nearer (rs_room (residentSet s)) p i (Suc m * unat (batch s)) s ev s2 ev2"
      using s1(4) s2(4) by (auto simp: nearer_def en)
    moreover have "evict_search (Suc m) (s, ev) = Ret (s2, ev2)" using True s1(1) s2(1) by simp
    ultimately show ?thesis using s2(2,3) by blast
  next
    case False
    then have "progress f s ev" using Suc.prems(3,6) by auto
    then show ?thesis using False Suc.prems by simp
  qed
qed

section \<open>evict\<close>

lemma set_pid_vacant:
  assumes "set_pid x pid_none s = Ret s'" and "length (virtMemPids s) = unat (frameCount s)"
  shows "vacant (enqueue_free y s')" and "weak_fails (enqueue_free y s') = weak_fails s"
    and "length (virtMemPids (enqueue_free y s')) = unat (frameCount (enqueue_free y s'))"
  using assms by (auto simp: set_pid_def aset_def run_simps vacant_def enqueue_free_def split: if_splits)

lemma vacant_upd_bf [simp]: "vacant (upd_bf r f s) = vacant s"
  by (simp add: vacant_def)

lemma next_weak_frames:
  "next_weak s = (b, s') \<Longrightarrow> virtMemPids s' = virtMemPids s \<and> frameCount s' = frameCount s \<and> bf_at s' = bf_at s \<and>
     weak_fails s' = tl (weak_fails s) \<and> (b \<longrightarrow> weak_fails s \<noteq> [])"
  by (auto simp: next_weak_def bf_at_def fun_eq_iff split: list.splits)

lemma evict_upgrade_vacant:
  assumes "evict_upgrade ws s = Ret (ps, s')" and "length (weak_fails s) \<le> f" and "length (virtMemPids s) = unat (frameCount s)"
    and "vacant s \<or> length (weak_fails s) < f \<or> (\<exists>q y t ws'. ws = (q, y, t) # ws' \<and> getState (bstate (bf_at s t)) = 1)"
  shows "length (weak_fails s') \<le> f \<and> (vacant s' \<or> length (weak_fails s') < f)"
  using assms
proof (induction ws arbitrary: s ps)
  case (Cons w ws)
  obtain q y t where w: "w = (q, y, t)" by (cases w)
  define v where "v = bstate (bf_at s t)"
  have "\<exists>s2 pids. evict_upgrade ws s2 = Ret (pids, s') \<and> length (weak_fails s2) \<le> f \<and>
    length (virtMemPids s2) = unat (frameCount s2) \<and> (vacant s2 \<or> length (weak_fails s2) < f)"
  proof (cases "getState v = 1")
    case True
    obtain b s0 where nw: "next_weak s = (b, s0)" by fastforce
    note W = next_weak_frames [OF nw]
    show ?thesis
    proof (cases b)
      case True
      obtain u where "evict_upgrade ws (upd_bf t (\<lambda>bf. bf\<lparr>bstate := u\<rparr>) s0) = Ret (ps, s')"
        using Cons.prems(1) True \<open>getState v = 1\<close> by (auto simp: w nw cas_weak_def Let_def run_simps simp flip: v_def simp del: unlockS.simps)
      moreover have "length (weak_fails s0) < f" using W True Cons.prems(2) by (cases "weak_fails s") auto
      ultimately show ?thesis using W Cons.prems(3)
        by (intro exI [of _ "upd_bf t (\<lambda>bf. bf\<lparr>bstate := u\<rparr>) s0"] exI [of _ ps]) auto
    next
      case False
      define s1 where "s1 = upd_bf t (\<lambda>bf. bf\<lparr>bstate := sameVersion v Locked\<rparr>) s0"
      have "bind_run (page_of s1 t) (\<lambda>slot. bind_run (set_pid slot pid_none s1) (\<lambda>s.
          bind_run (evict_upgrade ws (enqueue_free y s)) (\<lambda>(pids, s). Ret (q # pids, s)))) = Ret (ps, s')"
        using Cons.prems(1) True False W by (simp add: w nw cas_weak_def Let_def flip: v_def s1_def)
      then obtain slot s2 pids where s2: "set_pid slot pid_none s1 = Ret s2" "evict_upgrade ws (enqueue_free y s2) = Ret (pids, s')"
        by (auto simp: run_simps split: prod.splits)
      have "length (virtMemPids s1) = unat (frameCount s1)" "length (weak_fails s1) \<le> f"
        using W Cons.prems(2,3) by (simp_all add: s1_def)
      then show ?thesis using s2(2) set_pid_vacant [OF s2(1), of y]
        by (intro exI [of _ "enqueue_free y s2"] exI [of _ pids]) auto
    qed
  next
    case False
    then have "vacant s \<or> length (weak_fails s) < f" using Cons.prems(4) by (auto simp: w v_def)
    moreover obtain u where "evict_upgrade ws (upd_bf t (\<lambda>bf. bf\<lparr>bstate := u\<rparr>) s) = Ret (ps, s')"
      using Cons.prems(1) False by (auto simp: w Let_def run_simps case_prod_beta simp flip: v_def simp del: unlockS.simps)
    ultimately show ?thesis using Cons.prems(2,3)
      by (intro exI [of _ "upd_bf t (\<lambda>bf. bf\<lparr>bstate := u\<rparr>) s"] exI [of _ ps]) auto
  qed
  then show ?case using Cons.IH by blast
qed auto

lemma evict_remove_frames:
  "evict_remove ps s = Ret s' \<Longrightarrow> weak_fails s' = weak_fails s \<and> virtMemPids s' = virtMemPids s \<and> frameCount s' = frameCount s"
proof (induction ps arbitrary: s)
  case (Cons p ps)
  from Cons.prems show ?case by (auto simp: run_simps dest!: Cons.IH)
qed simp

lemma writePages_frames:
  assumes "writePages ws s = Ret s'"
  shows "weak_fails s' = weak_fails s" "virtMemPids s' = virtMemPids s" "frameCount s' = frameCount s" "ht s' = ht s"
proof -
  have p: "prep_writes ws s = Ret s' \<Longrightarrow>
      weak_fails s' = weak_fails s \<and> virtMemPids s' = virtMemPids s \<and> frameCount s' = frameCount s \<and> ht s' = ht s" for ws s s'
    by (induction ws s rule: prep_writes.induct) (auto simp: run_simps upd_page_def)
  have d: "do_writes ws s = Ret s' \<Longrightarrow>
      weak_fails s' = weak_fails s \<and> virtMemPids s' = virtMemPids s \<and> frameCount s' = frameCount s \<and> ht s' = ht s" for ws s s'
    by (induction ws s rule: do_writes.induct) (auto simp: run_simps)
  show "weak_fails s' = weak_fails s" "virtMemPids s' = virtMemPids s" "frameCount s' = frameCount s" "ht s' = ht s"
    using assms by (auto simp: writePages_def run_simps dest!: p d)
qed

text \<open>\<open>evict\<close> empties a frame, or has met a weak failure, or brings the clock closer to a page that
  nobody holds.\<close>

lemma evict_progress:
  assumes inv: "pool_inv n H E s" and b: "unat (batch s) \<le> 128" "0 < batch s" and t: "target p i s"
  shows "\<exists>s'. evict s = Ret s' \<and> (vacant s' \<and> length (weak_fails s') \<le> length (weak_fails s) \<or>
    length (weak_fails s') < length (weak_fails s) \<or>
    length (weak_fails s') \<le> length (weak_fails s) \<and> target p i s' \<and> freeList s' = freeList s \<and>
    sweep (rs_room (residentSet s)) i (clock s') (st s' p) < sweep (rs_room (residentSet s)) i (clock s) (st s p))"
proof -
  let ?K = "pinned s" and ?f = "length (weak_fails s)"
  define ev0 where "ev0 = \<lparr>evicted = 0, toWrite = [], evictedHTCache = []\<rparr>"
  have v0: "visit_inv n H E ?K s s ev0"
    using inv held_refl [of ?K s] by (simp add: visit_inv_def ev_inv_def ev0_def)
  have "progress ?f s ev0 \<or> target p i s \<and> evicted ev0 = 0" "length (toWrite ev0) \<le> 255" using t by (simp_all add: ev0_def)
  from evict_search_progress [OF v0 b this(2) order_refl this(1), of 10000] obtain s1 ev1 where
    s1: "evict_search 10000 (s, ev0) = Ret (s1, ev1)" "visit_inv n H E ?K s s1 ev1" "length (weak_fails s1) \<le> ?f"
      "progress ?f s1 ev1 \<or> nearer (rs_room (residentSet s)) p i (10000 * unat (batch s)) s ev0 s1 ev1" by auto
  obtain s' where ev: "evict s = Ret s'" using evict_correct [OF inv b(1)] by blast
  define wc where "wc = (\<lambda>s2::bm. s2\<lparr>writeCount := writeCount s2 + of_nat (length (toWrite ev1))\<rparr>)"
  obtain s2 ps s4 s5 where steps: "writePages (map (\<lambda>(pid, x, r). (pid, x)) (toWrite ev1)) s1 = Ret s2"
      "evict_upgrade (toWrite ev1) (wc s2) = Ret (ps, s4)" "evict_remove ps s4 = Ret s5"
      "s' = s5\<lparr>evictsHTCache := evictsHTCache s5 + of_nat (length (evictedHTCache ev1) + length ps)\<rparr>"
    using ev s1(1) by (auto simp: evict_def run_simps Let_def wc_def simp flip: ev0_def split: prod.splits)
  note W = writePages_frames [OF steps(1)] and R = evict_remove_frames [OF steps(3)]
  have s': "weak_fails s' = weak_fails s4" "vacant s' = vacant s4" using R by (simp_all add: steps(4) vacant_def)
  show ?thesis
  proof (cases "progress ?f s1 ev1")
    case True
    have len: "length (virtMemPids (wc s2)) = unat (frameCount (wc s2))"
      using frame_invD(2) [OF visit_invD(3) [OF s1(2)]] W by (simp add: wc_def)
    have "vacant (wc s2) \<or> length (weak_fails (wc s2)) < ?f \<or>
      (\<exists>q y t ws'. toWrite ev1 = (q, y, t) # ws' \<and> getState (bstate (bf_at (wc s2) t)) = 1)"
    proof (cases "vacant s1 \<or> length (weak_fails s1) < ?f")
      case True
      then show ?thesis using W by (auto simp: vacant_def wc_def)
    next
      case False
      then obtain q y t ws' where tw: "toWrite ev1 = (q, y, t) # ws'"
        using True by (auto simp: progress_def neq_Nil_conv)
      then have "res s1 q = Some t" "st s1 q = 1" using visit_invD(4) [OF s1(2)] by (auto simp: ev_inv_def)
      then have "getState (bstate (bf_at (wc s2) t)) = 1" using pg_st_Some W(4) by (simp add: bf_at_def wc_def)
      then show ?thesis using tw by blast
    qed
    moreover have "length (weak_fails (wc s2)) \<le> ?f" using s1(3) W(1) by (simp add: wc_def)
    ultimately have "length (weak_fails s4) \<le> ?f \<and> (vacant s4 \<or> length (weak_fails s4) < ?f)"
      by (intro evict_upgrade_vacant [OF steps(2) _ len])
    then show ?thesis using ev s' by auto
  next
    case False
    then have n: "nearer (rs_room (residentSet s)) p i (10000 * unat (batch s)) s ev0 s1 ev1" and tw: "toWrite ev1 = []"
      using s1(4) by (auto simp: progress_def)
    have eq: "s2 = s1" "s4 = wc s1" "s5 = wc s1"
      using steps(1-3) tw by (auto simp: writePages_def run_simps)
    have same: "residentSet s' = residentSet s1" "ht s' = ht s1" "freeList s' = freeList s1" "weak_fails s' = weak_fails s1"
      by (simp_all add: steps(4) eq wc_def)
    then have "st s' = st s1" "target p i s' = target p i s1"
      by (simp_all add: st_def bf_at_def target_def fun_eq_iff cong: option.case_cong)
    moreover have "0 < unat (batch s)" using b(2) by (simp add: word_less_nat_alt)
    ultimately show ?thesis using n ev same s1(3) by (auto simp: nearer_def)
  qed
qed

section \<open>A frame is found\<close>

text \<open>A loop with a fuel argument ends when some amount of fuel, and any larger one, is enough.\<close>

definition returns :: "(nat \<Rightarrow> 'a run) \<Rightarrow> bool" where
  "returns m \<longleftrightarrow> (\<exists>k. \<forall>fuel \<ge> k. m fuel \<noteq> Loop)"

lemma returnsI: "(\<And>fuel. k \<le> fuel \<Longrightarrow> m fuel \<noteq> Loop) \<Longrightarrow> returns m"
  by (auto simp: returns_def)

lemma returns_const: "m \<noteq> Loop \<Longrightarrow> returns (\<lambda>_. m)"
  by (simp add: returns_def)

lemma returns_mono: "returns m \<Longrightarrow> (\<And>fuel. m' fuel = Loop \<Longrightarrow> m fuel = Loop) \<Longrightarrow> returns m'"
  by (auto simp: returns_def)

lemma returns_Suc: "returns m \<Longrightarrow> (\<And>fuel. m' (Suc fuel) = m fuel) \<Longrightarrow> returns m'"
  unfolding returns_def by (metis Suc_le_D Suc_le_mono)

text \<open>What is needed for a frame to become vacant: \<open>k\<close> frames at most are not available.\<close>

definition deq_total :: "(nat list \<Rightarrow> (nat \<times> nat list) option) \<Rightarrow> bool" where
  "deq_total deq \<longleftrightarrow> (\<forall>q. deq q = None \<longrightarrow> q = [])"

lemma target_exists:
  assumes inv: "pool_inv n H E s" and v: "\<not> vacant s" and E: "finite E" and c: "card (pinned s - H) + card E < unat (frameCount s)"
  shows "\<exists>p i. target p i s"
proof (rule ccontr)
  assume no: "\<nexists>p i. target p i s"
  note F = frame_invD [OF pool_invD(2) [OF inv]] and T = tab_invD [OF pool_invD(1) [OF inv]]
  have all: "p \<in> pinned s" if p: "p \<in> dom (res s)" for p
  proof -
    obtain k where k: "rs_inv k (residentSet s)" using T(4) by (auto simp: rs_ok_def)
    obtain i where "i < 2 ^ k" "slots (residentSet s) ! i = p"
      using p members_nth [OF rs_invD(2) [OF k], of p] by (auto simp: T(3))
    then have "\<not> (st s p = Unlocked \<or> st s p = Marked)"
      using no p rs_room_inv [OF k] by (auto simp: target_def)
    then show ?thesis using p by (simp add: pinned_def)
  qed
  define A where "A = {..< unat (frameCount s)} - E"
  have own: "virtMemPids s ! x \<in> dom (res s) - H" "pg s (virtMemPids s ! x) = Some x" if "x \<in> A" for x
    using F(5) [of x] that v by (auto simp: A_def vacant_def)
  have "inj_on (\<lambda>x. virtMemPids s ! x) A" by (rule inj_onI) (metis own(2) option.inject)
  moreover have "(\<lambda>x. virtMemPids s ! x) ` A \<subseteq> pinned s - H" using own(1) all by blast
  moreover have "finite (pinned s - H)" using T(2) by (rule rev_finite_subset) (auto simp: pinned_def)
  ultimately have "card A \<le> card (pinned s - H)" by (metis card_image card_mono)
  moreover have "unat (frameCount s) \<le> card A + card E"
    using diff_card_le_card_Diff [OF E, of "{..< unat (frameCount s)}"] by (simp add: A_def)
  ultimately show False using c by simp
qed

text \<open>The free list may hold frames that are in use; they are dropped.\<close>

lemma pop_stale:
  assumes inv: "pool_inv n H E s" and q: "queue_pop s (freeList s) = Some (x, q)" and p: "p \<noteq> pid_none"
  shows "x < length (virtMemPids s)" and "length (freeList s) = Suc (length q)"
    and "virtMemPids s ! x \<noteq> pid_none \<Longrightarrow> trySetPresent x p (s\<lparr>freeList := q\<rparr>) = Ret (False, pop_to q s) \<and> pool_inv n H E (pop_to q s)"
    and "virtMemPids s ! x = pid_none \<Longrightarrow> \<exists>s'. trySetPresent x p (s\<lparr>freeList := q\<rparr>) = Ret (True, s')"
proof -
  note F = frame_invD [OF pool_invD(2) [OF inv]]
  have dq: "mset (freeList s) = add_mset x (mset q)"
    using queue_ok [OF pool_invD(1) [OF inv]] q by (simp add: deq_ok_def)
  have fl: "set (freeList s) = insert x (set q)" using arg_cong [OF dq, of set_mset] by simp
  show l: "length (freeList s) = Suc (length q)" using arg_cong [OF dq, of size] by simp
  show x: "x < length (virtMemPids s)" using fl F(2,7) by auto
  show "trySetPresent x p (s\<lparr>freeList := q\<rparr>) = Ret (False, pop_to q s) \<and> pool_inv n H E (pop_to q s)"
    if "virtMemPids s ! x \<noteq> pid_none"
  proof -
    have "frame_inv H E (pop_to q s)"
      using pool_invD(2) [OF inv] fl that unfolding frame_inv_def by auto
    then show ?thesis using inv x that by (simp add: pool_inv_def trySetPresent_def cas_def) (simp add: pop_to_def)
  qed
  show "\<exists>s'. trySetPresent x p (s\<lparr>freeList := q\<rparr>) = Ret (True, s')" if "virtMemPids s ! x = pid_none"
    using x that by (simp add: trySetPresent_def cas_def)
qed

lemma pop_to_more [simp]:
  "vacant (pop_to q s) = vacant s" "weak_fails (pop_to q s) = weak_fails s" "target p i (pop_to q s) = target p i s"
  by (simp_all add: vacant_def target_def) (simp add: pop_to_def)

lemma getFree_vacant:
  assumes "pool_inv n H E s" and "vacant s" and "deq_total (queue_pop s)" and "p \<noteq> pid_none" and "length (freeList s) < fuel"
  shows "getFreePageHTCache fuel p s \<noteq> Loop"
  using assms
proof (induction fuel arbitrary: s)
  case (Suc fuel)
  note F = frame_invD [OF pool_invD(2) [OF Suc.prems(1)]]
  have "freeList s \<noteq> []" using Suc.prems(2) F(6) by (auto simp: vacant_def)
  then obtain x q where q: "queue_pop s (freeList s) = Some (x, q)" using Suc.prems(3)
    by (cases "queue_pop s (freeList s)") (auto simp: deq_total_def)
  note P = pop_stale [OF Suc.prems(1) q Suc.prems(4)]
  show ?case
  proof (cases "virtMemPids s ! x = pid_none")
    case True
    then show ?thesis using P(4) q by auto
  next
    case False
    then show ?thesis using P(2,3) q Suc.IH [of "pop_to q s"] Suc.prems by simp
  qed
qed simp

lemma getFree_returns:
  assumes "pool_inv n H E s" and "unat (batch s) \<le> 128" "0 < batch s" and "deq_total (queue_pop s)" and "p \<noteq> pid_none"
    and "finite E" and "card (pinned s - H) + card E < unat (frameCount s)"
  shows "returns (\<lambda>fuel. getFreePageHTCache fuel p s)"
proof -
  have "returns (\<lambda>fuel. getFreePageHTCache fuel p s)"
    if "pool_inv n H E s" "unat (batch s) \<le> 128" "0 < batch s" "deq_total (queue_pop s)" "card (pinned s - H) + card E < unat (frameCount s)"
      "length (weak_fails s) = f" for f s
    using that
  proof (induction f arbitrary: s rule: less_induct)
    case (less f)
    note outer = less.IH
    have inner: "returns (\<lambda>fuel. getFreePageHTCache fuel p s)"
      if "pool_inv n H E s" "unat (batch s) \<le> 128" "0 < batch s" "deq_total (queue_pop s)"
        "card (pinned s - H) + card E < unat (frameCount s)" "length (weak_fails s) \<le> f" "target q i s"
        "sweep (rs_room (residentSet s)) i (clock s) (st s q) + length (freeList s) = m" for m s q i
      using that
    proof (induction m arbitrary: s rule: less_induct)
      case (less m)
      show ?case
      proof (cases "queue_pop s (freeList s)")
        case None
        obtain s1 where s1: "evict s = Ret s1" "vacant s1 \<and> length (weak_fails s1) \<le> length (weak_fails s) \<or>
            length (weak_fails s1) < length (weak_fails s) \<or>
            length (weak_fails s1) \<le> length (weak_fails s) \<and> target q i s1 \<and> freeList s1 = freeList s \<and>
            sweep (rs_room (residentSet s)) i (clock s1) (st s1 q) < sweep (rs_room (residentSet s)) i (clock s) (st s q)"
          using evict_progress [OF less.prems(1,2,3,7)] by blast
        have I1: "pool_inv n H E s1" "env s1 = env s" "pinned s1 \<subseteq> pinned s"
          using evict_correct [OF less.prems(1,2)] s1(1) by auto
        note en = env_eqD [OF I1(2)]
        have "finite (pinned s - H)"
          using tab_invD(2) [OF pool_invD(1) [OF less.prems(1)]] by (rule rev_finite_subset) (auto simp: pinned_def)
        then have "card (pinned s1 - H) \<le> card (pinned s - H)" by (rule card_mono) (use I1(3) in blast)
        then have c1: "card (pinned s1 - H) + card E < unat (frameCount s1)" using less.prems(5) en(1) by simp
        have b1: "unat (batch s1) \<le> 128" "0 < batch s1" "deq_total (queue_pop s1)" using less.prems(2-4) en by simp_all
        have "returns (\<lambda>fuel. getFreePageHTCache fuel p s1)"
        proof -
          consider "vacant s1" | "length (weak_fails s1) < f"
            | "length (weak_fails s1) \<le> f" "target q i s1" "freeList s1 = freeList s"
              "sweep (rs_room (residentSet s)) i (clock s1) (st s1 q) < sweep (rs_room (residentSet s)) i (clock s) (st s q)"
            using s1(2) less.prems(6) by linarith
          then show ?thesis
          proof cases
            case 1
            then show ?thesis
              using getFree_vacant [OF I1(1) _ b1(3) assms(5)] by (intro returnsI [of "Suc (length (freeList s1))"]) simp
          next
            case 2
            then show ?thesis using outer [OF _ I1(1) b1 c1 refl] by blast
          next
            case 3
            have "sweep (rs_room (residentSet s1)) i (clock s1) (st s1 q) + length (freeList s1) < m"
              using 3(3,4) less.prems(8) en(6) by simp
            from less.IH [OF this I1(1) b1 c1 3(1,2) refl] show ?thesis .
          qed
        qed
        then show ?thesis using None s1(1) by (rule_tac returns_Suc) simp_all
      next
        case (Some xq)
        obtain x q' where q: "queue_pop s (freeList s) = Some (x, q')" using Some by (cases xq) simp
        note P = pop_stale [OF less.prems(1) q assms(5)]
        show ?thesis
        proof (cases "virtMemPids s ! x = pid_none")
          case True
          then obtain s' where "trySetPresent x p (s\<lparr>freeList := q'\<rparr>) = Ret (True, s')" using P(4) by blast
          then show ?thesis using q by (rule_tac returns_Suc [of "\<lambda>_. Ret (x, s')"]) (simp_all add: returns_const)
        next
          case False
          have l: "sweep (rs_room (residentSet (pop_to q' s))) i (clock (pop_to q' s)) (st (pop_to q' s) q) + length (freeList (pop_to q' s)) < m"
            using less.prems(8) P(2) by simp
          have "returns (\<lambda>fuel. getFreePageHTCache fuel p (pop_to q' s))"
            by (rule less.IH [OF l]) (use P(3) False less.prems in simp_all)
          then show ?thesis using q P(3) False by (rule_tac returns_Suc) simp_all
        qed
      qed
    qed
    show ?case
    proof (cases "vacant s")
      case True
      then show ?thesis
        using getFree_vacant [OF less.prems(1) _ less.prems(4) assms(5)]
        by (intro returnsI [of "Suc (length (freeList s))"]) simp
    next
      case False
      then obtain q i where "target q i s" using target_exists [OF less.prems(1) _ assms(6) less.prems(5)] by blast
      then show ?thesis using inner less.prems by blast
    qed
  qed
  then show ?thesis using assms by blast
qed

end
