(* ===== verification/Pool_Returns.thy ===== *)
theory Pool_Returns
  imports Eviction_Progress
begin


text \<open>
  The operations of the pool return: with enough fuel they do not end in \<open>Loop\<close>, as long as
  there are more frames than pages that clients hold. The only loop they wait in is the search
  for a frame, which ends by the progress of eviction.
\<close>

section \<open>What cannot wait\<close>

named_theorems no_loop \<open>operations that do not run out of fuel\<close>

lemma bind_run_eq_Loop [no_loop]: "bind_run m f = Loop \<longleftrightarrow> m = Loop \<or> (\<exists>a. m = Ret a \<and> f a = Loop)"
  by (cases m) simp_all

lemma check_eq_Loop [no_loop]: "check b msg k = Loop \<longleftrightarrow> b \<and> k = Loop"
  by (simp add: check_def)

lemma aget_loop [no_loop]: "aget xs i \<noteq> Loop" "aset xs i x \<noteq> Loop"
  by (simp_all add: aget_def aset_def)

lemma pool_steps_loop [no_loop]:
  "page_of s r \<noteq> Loop" "upd_page x f s \<noteq> Loop" "set_pid x p s \<noteq> Loop" "copy_page x y s \<noteq> Loop"
  "trySetPresent x p s \<noteq> Loop" "readPageToHTCache p x s \<noteq> Loop" "unlockX v \<noteq> Loop" "downgradeLock v \<noteq> Loop"
  "unlockS [(v, v)] \<noteq> Loop" "tryLockX c v \<noteq> Loop" "may_displace x s \<noteq> Loop"
  by (simp_all add: page_of_def upd_page_def set_pid_def copy_page_def trySetPresent_def readPageToHTCache_def
      unlockX_def downgradeLock_def tryLockX_def may_displace_def Let_def no_loop split: option.split prod.split)

section \<open>Claiming a frame\<close>

text \<open>What the environment promises: batches are not empty and at most half as long as a request
  of the I/O interface; the queue of free frames does not lose elements. At most \<open>k\<close> pages are
  held.\<close>

definition serves :: "nat \<Rightarrow> bm \<Rightarrow> bool" where
  "serves k s \<longleftrightarrow> 0 < batch s \<and> unat (batch s) \<le> 128 \<and> deq_total (queue_pop s) \<and> k < unat (frameCount s)"

lemma serves_env: "env s' = env s \<Longrightarrow> serves k s' = serves k s"
  by (auto simp: serves_def dest: env_eqD)

lemma serves_less: "serves k s \<Longrightarrow> j \<le> k \<Longrightarrow> serves j s"
  by (auto simp: serves_def)

lemma finite_pinned: "pool_inv n H E s \<Longrightarrow> finite (pinned s)"
  by (rule rev_finite_subset [OF tab_invD(2) [OF pool_invD(1)]]) (auto simp: pinned_def)

lemma claim_returns:
  assumes inv: "pool_inv n H {} s" and s: "serves k s" and k: "card (pinned s - H) \<le> k" and p: "p \<noteq> pid_none"
  shows "returns (\<lambda>fuel. claim_frame fuel p s)"
proof -
  have ix: "intended s p < unat (frameCount s)"
    by (rule intended_less [OF frame_invD(8) [OF pool_invD(2) [OF inv]]])
  show ?thesis
  proof (cases "virtMemPids s ! intended s p = pid_none")
    case True
    then have "claim_frame fuel p s = Ret ((intended s p, True), put_pid (intended s p) p s)" for fuel
      using trySetPresent_ok [OF inv ix p] by (simp add: claim_frame_def)
    then show ?thesis by (simp add: returns_const)
  next
    case False
    have "returns (\<lambda>fuel. getFreePageHTCache fuel p s)"
      using getFree_returns [OF inv _ _ _ p, of] s k by (simp add: serves_def)
    then show ?thesis
      by (rule returns_mono) (use trySetPresent_ok [OF inv ix p] False in \<open>auto simp: claim_frame_def no_loop\<close>)
  qed
qed

section \<open>Faults, allocation and fixing return\<close>

lemma entered_pinned:
  assumes inv: "pool_inv n H E s" and "keeps (dom (res s)) s s1" and "dom (res s1) \<subseteq> insert p (dom (res s))"
    and k: "card (pinned s) \<le> k"
  shows "card (pinned s1 - {p}) \<le> k"
proof -
  have "pinned s1 \<subseteq> insert p (pinned s)"
    by (rule pinned_kept) (use assms(2,3) in \<open>auto simp: keeps_def\<close>)
  then have "card (pinned s1 - {p}) \<le> card (pinned s)" by (intro card_mono finite_pinned [OF inv]) blast
  then show ?thesis using k by simp
qed

lemma handleFault_returns:
  assumes inv: "pool_inv (Suc (Suc n)) {} {} s" and s: "serves k s" and k: "card (pinned s) \<le> k"
    and p: "res s p = None" "real_pid p"
  shows "returns (\<lambda>fuel. handleFault fuel p s)"
proof -
  obtain r t rs where t: "ht_insert (queue_pop s) p (bm_hash s p) (ht s) = Ret (Some r, t)" "rs_insert p (residentSet s) = Ret rs"
    and S1: "let s1 = s\<lparr>ht := t, residentSet := rs\<rparr> in
      pool_inv n {p} {} s1 \<and> res s1 = (res s)(p \<mapsto> r) \<and> env s1 = env s \<and> bpid (bf_at s1 r) = p \<and>
      st s1 p = Locked \<and> (\<forall>q. q \<noteq> p \<longrightarrow> view s1 q = view s q) \<and> keeps (dom (res s)) s s1"
    using enter_page [OF inv p] by blast
  define s1 where "s1 = s\<lparr>ht := t, residentSet := rs\<rparr>"
  note S1 = S1 [unfolded Let_def, folded s1_def]
  have "card (pinned s1 - {p}) \<le> k" by (rule entered_pinned [OF inv _ _ k]) (use S1 in auto)
  moreover have "serves k s1" using s serves_env S1 by blast
  ultimately have "returns (\<lambda>fuel. claim_frame fuel p s1)"
    using claim_returns [of n "{p}" s1 k p] S1 real_pid_none [OF p(2)] by blast
  then show ?thesis
    by (rule returns_mono) (use t in \<open>auto simp: handleFault_def no_loop simp flip: s1_def split: prod.splits\<close>)
qed

lemma allocPage_returns:
  assumes inv: "pool_inv (Suc (Suc n)) {} {} s" and s: "serves k s" and k: "card (pinned s) \<le> k"
    and p: "res s (allocCount s) = None" "real_pid (allocCount s)"
  shows "returns (\<lambda>fuel. allocPage fuel s)"
proof -
  define p where "p = allocCount s"
  define s0 where "s0 = s\<lparr>allocCount := p + 1\<rparr>"
  have sc: "same_core s s0" by (simp add: same_core_def s0_def)
  note C = same_core_inv [OF sc]
  have inv0: "pool_inv (Suc (Suc n)) {} {} s0" "res s0 p = None" using inv p(1) by (simp_all add: C p_def)
  obtain r t rs where t: "ht_insert (queue_pop s0) p (bm_hash s0 p) (ht s0) = Ret (Some r, t)" "rs_insert p (residentSet s0) = Ret rs"
    and S1: "let s1 = s0\<lparr>ht := t, residentSet := rs\<rparr> in
      pool_inv n {p} {} s1 \<and> res s1 = (res s0)(p \<mapsto> r) \<and> env s1 = env s0 \<and> bpid (bf_at s1 r) = p \<and>
      st s1 p = Locked \<and> (\<forall>q. q \<noteq> p \<longrightarrow> view s1 q = view s0 q) \<and> keeps (dom (res s0)) s0 s1"
    using enter_page [OF inv0 p(2) [folded p_def]] by blast
  define s1 where "s1 = s0\<lparr>ht := t, residentSet := rs\<rparr>"
  note S1 = S1 [unfolded Let_def, folded s1_def]
  have r1: "res s1 p = Some r" and inv1: "pool_inv n {p} {} s1" using S1 by simp_all
  define fl where "fl \<longleftrightarrow> \<not> disablePredict (promo_cfg s1)"
  define s2 where "s2 = upd_bf r (with_page (intended s1 p) fl) s1"
  note W = with_page_held [where x = "intended s1 p" and b = fl, OF inv1 r1 insertI1, folded s2_def]
  have "card (pinned s1 - {p}) \<le> k" by (rule entered_pinned [OF inv0(1)]) (use S1 k C in auto)
  then have "card (pinned s2 - {p}) \<le> k" by (simp add: W(3))
  moreover have "serves k s2" using s serves_env [of s2 s k] S1 by (simp add: C s2_def)
  ultimately have c: "returns (\<lambda>fuel. claim_frame fuel p s2)"
    using claim_returns [OF W(1)] real_pid_none p(2) by (simp add: p_def)
  show ?thesis
    by (rule returns_mono [OF c])
      (use t in \<open>auto simp: allocPage_def Let_def no_loop p_def s0_def s1_def s2_def fl_def split: prod.splits if_splits\<close>)
qed

text \<open>A fix takes one turn when the page is resident and free, and one when it has to be read; the
  fuel \<open>ff\<close> is for the search for a frame.\<close>

lemma view_missing: "res s p = None \<Longrightarrow> view s p = Some b \<Longrightarrow> \<exists>c. disk s (loc s p) = Some c"
  by (auto simp: view_def)

lemma free_state: "p \<notin> pinned s \<Longrightarrow> res s p = Some r \<Longrightarrow> st s p = Unlocked \<or> st s p = Marked"
  by (auto simp: pinned_def)

lemma fault_returns:
  assumes inv: "pool_inv (Suc (Suc n)) {} {} s" and s: "serves k s" and k: "card (pinned s) \<le> k"
    and p: "res s p = None" "real_pid p"
  shows "\<exists>s1 h. bm_access p (bm_hash s p) s = Ret ((None, 0), s1) \<and> (\<forall>ff \<ge> h. handleFault ff p s1 \<noteq> Loop)"
proof -
  obtain s1 where s1: "bm_access p (bm_hash s p) s = Ret ((None, 0), s1)" "same_but_rng s s1"
    using bm_access_res [OF pool_invD(1) [OF inv] real_pid_none [OF p(2)]] p(1) by auto
  note C = same_core_inv [OF same_core_rng [OF s1(2)]]
  have "returns (\<lambda>fuel. handleFault fuel p s1)"
    by (rule handleFault_returns [of n s1 k]) (use assms serves_env [OF C(6)] in \<open>simp_all add: C\<close>)
  then show ?thesis using s1(1) by (auto simp: returns_def)
qed

lemma fixX_gets:
  assumes inv: "pool_inv (Suc (Suc n)) {} {} s" and s: "serves k s" and k: "card (pinned s) \<le> k"
    and p: "p \<notin> pinned s" "real_pid p" "view s p = Some b"
  shows "\<exists>h. \<forall>ff \<ge> h. \<forall>fuel. \<exists>r s'. fixX ff (Suc fuel) p s = Ret (r, s') \<and> fixed n p Locked s r s'"
proof (cases "res s p")
  case (Some r)
  have "pool_inv n {} {} s" by (rule pool_inv_less [OF inv]) simp
  from fixX_resident [OF this Some free_state [OF p(1) Some]] show ?thesis by blast
next
  case None
  obtain c where d: "disk s (loc s p) = Some c" using view_missing [OF None p(3)] by blast
  have b: "unat (batch s) \<le> 128" using s by (simp add: serves_def)
  obtain s1 h where s1: "bm_access p (bm_hash s p) s = Ret ((None, 0), s1)" "\<forall>ff \<ge> h. handleFault ff p s1 \<noteq> Loop"
    using fault_returns [OF inv s k None p(2)] by blast
  have "\<exists>r s'. fixX ff (Suc fuel) p s = Ret (r, s') \<and> fixed n p Locked s r s'" if h: "h \<le> ff" for ff fuel
  proof (rule fault_access [OF inv b None p(2) d, of ff])
    fix t assume a: "bm_access p (bm_hash s p) s = Ret ((None, 0), t)"
      and l: "handleFault ff p t = Loop \<or> (\<exists>r s'. handleFault ff p t = Ret (Some r, s') \<and> loaded n p s r s')"
    then have "t = s1" using s1(1) by simp
    then obtain r s' where "handleFault ff p t = Ret (Some r, s')" "loaded n p s r s'" using l s1(2) h by blast
    then show ?thesis using loaded_fixed by (auto simp: a)
  qed
  then show ?thesis by blast
qed

lemma fixS_gets:
  assumes inv: "pool_inv (Suc (Suc n)) {} {} s" and s: "serves k s" and k: "card (pinned s) \<le> k"
    and p: "p \<notin> pinned s" "real_pid p" "view s p = Some b"
  shows "\<exists>h. \<forall>ff \<ge> h. \<forall>fuel. \<exists>r s'. fixS ff (Suc fuel) p s = Ret (r, s') \<and> fixed n p 1 s r s'"
proof (cases "res s p")
  case (Some r)
  have i: "pool_inv n {} {} s" by (rule pool_inv_less [OF inv]) simp
  have f: "st s p < MaxShared \<or> st s p = Marked" using free_state [OF p(1) Some] by auto
  have "(if st s p = Marked then 1 else st s p + 1) = 1" using free_state [OF p(1) Some] by auto
  from fixS_resident [OF i Some f, unfolded this] show ?thesis by blast
next
  case None
  obtain c where d: "disk s (loc s p) = Some c" using view_missing [OF None p(3)] by blast
  have b: "unat (batch s) \<le> 128" using s by (simp add: serves_def)
  obtain s1 h where s1: "bm_access p (bm_hash s p) s = Ret ((None, 0), s1)" "\<forall>ff \<ge> h. handleFault ff p s1 \<noteq> Loop"
    using fault_returns [OF inv s k None p(2)] by blast
  have "\<exists>r s'. fixS ff (Suc fuel) p s = Ret (r, s') \<and> fixed n p 1 s r s'" if h: "h \<le> ff" for ff fuel
  proof -
    have "fixS ff (Suc fuel) p s \<noteq> Loop"
    proof (rule fault_access [OF inv b None p(2) d, of ff])
      fix t assume a: "bm_access p (bm_hash s p) s = Ret ((None, 0), t)"
        and l: "handleFault ff p t = Loop \<or> (\<exists>r s'. handleFault ff p t = Ret (Some r, s') \<and> loaded n p s r s')"
      then have "t = s1" using s1(1) by simp
      then obtain r s' where "handleFault ff p t = Ret (Some r, s')" using l s1(2) h by blast
      then show ?thesis by (simp add: a no_loop)
    qed
    then show ?thesis using fixS_missing [OF inv b None p(2) d, of ff fuel] by blast
  qed
  then show ?thesis by blast
qed

section \<open>Promotion and unfixing return\<close>

text \<open>The state in which \<open>promoteLocked\<close> may have to wait for a frame.\<close>

lemma promoteLocked_returns:
  assumes inv: "pool_inv n {} {} s" and sv: "serves k s" and k: "card (pinned s) < k"
    and p: "res s p = Some r"
  shows "returns (\<lambda>fuel. promoteLocked fuel r s)"
proof -
  note I = pool_invD [OF inv]
  note F = frame_invD [OF I(2)]
  define x where "x = intended s p"
  have x: "x < unat (frameCount s)" unfolding x_def by (rule intended_less [OF F(8)])
  have p0: "p \<noteq> pid_none" using p(1) by auto
  have bp: "bpid (bf_at s r) = p" by (rule bf_pid [OF I(1) p(1)])
  show ?thesis
  proof (cases "virtMemPids s ! x = pid_none")
    case True
    then have "trySetPresent x p s = Ret (True, put_pid x p s)" using trySetPresent_ok [OF inv x p0] by simp
    then show ?thesis
      by (intro returnsI) (auto simp: promoteLocked_def bp Let_def no_loop simp flip: x_def)
  next
    case False
    define q where "q = virtMemPids s ! x"
    have q: "q \<noteq> pid_none" "q \<in> dom (res s)" using F(5) [OF x] False by (auto simp: q_def)
    have t: "trySetPresent x p s = Ret (False, s)" using trySetPresent_ok [OF inv x p0] False by simp
    have ag: "aget (virtMemPids s) x = Ret q" using x F(2) by (simp add: q_def)
    obtain s1 where s1: "bm_access q (bm_hash s p) s = Ret (if bucket_of s p \<noteq> bucket_of s q then (None, 0)
      else case res s q of None \<Rightarrow> (None, 0) | Some r \<Rightarrow> (Some r, bstate (bf_at s r)), s1)" "same_but_rng s s1"
      using bm_access_hash_of [OF I(1) q(1)] by blast
    note C = same_core_inv [OF same_core_rng [OF s1(2)]]
    obtain m where m: "res s q = Some m" using q(2) by blast
    let ?v = "bstate (bf_at s m)"
    define s2 where "s2 = set_state m (sameVersion ?v Locked) s1"
    have i1: "pool_inv n {} {} s1" "res s1 q = Some m" using inv m by (simp_all add: C)
    note S2 = set_state_ok [where w = "sameVersion ?v Locked", OF i1, folded s2_def]
    have "pinned s2 \<subseteq> insert q (pinned s)" using pinned_state(1) [OF S2(4), of q Locked] S2(6) by (simp add: C)
    then have "card (pinned s2) \<le> card (insert q (pinned s))" by (intro card_mono) (simp_all add: finite_pinned [OF inv])
    also have "\<dots> \<le> k" using k card_insert_le_m1 [of k "pinned s" q] by simp
    finally have "card (pinned s2 - {}) \<le> k" by simp
    moreover have "serves k s2" using sv serves_env [of s2 s k] S2(3) by (simp add: C)
    ultimately have c: "returns (\<lambda>fuel. claim_frame fuel q s2)" using claim_returns [OF S2(1)] q(1) by blast
    show ?thesis
      by (rule returns_mono [OF c])
        (use t s1(1) ag m tryLockX_self [of ?v] in
          \<open>auto simp: promoteLocked_def bp Let_def s2_def set_state_def C no_loop simp flip: x_def split: if_splits prod.splits\<close>)
  qed
qed

lemma tryPromote_loop_returns:
  assumes "pool_inv n {} {} s" and "serves k s" and "card (pinned s) + 1 < k" and "p \<noteq> pid_none"
  shows "returns (\<lambda>fuel. tryPromote_loop fuel j p s)"
  using assms
proof (induction j arbitrary: s)
  case 0
  then show ?case by (simp add: returns_const)
next
  case (Suc j)
  note inv = Suc.prems(1)
  note I = pool_invD [OF inv]
  note F = frame_invD [OF I(2)]
  obtain s1 where s1: "bm_access p (bm_hash s p) s =
      Ret (case res s p of None \<Rightarrow> (None, 0) | Some r \<Rightarrow> (Some r, bstate (bf_at s r)), s1)" "same_but_rng s s1"
    using bm_access_res [OF I(1) Suc.prems(4)] by blast
  note sc1 = same_core_rng [OF s1(2)]
  note C = same_core_inv [OF sc1]
  show ?case
  proof (cases "res s p")
    case None
    then show ?thesis using s1(1) by (simp add: returns_const)
  next
    case (Some r)
    let ?v = "bstate (bf_at s r)" and ?x = "intended s p"
    have acc: "bm_access p (bm_hash s p) s = Ret ((Some r, ?v), s1)" using s1(1) Some by simp
    have "pool_inv n {} {} s1" "serves k s1" "card (pinned s1) + 1 < k"
      using Suc.prems serves_env [OF C(6)] by (simp_all add: C)
    note ih = Suc.IH [OF this Suc.prems(4)]
    have x: "?x < length (virtMemPids s1)" using intended_less [OF F(8)] F(2) by (simp add: C)
    obtain b s2 where s2: "may_displace ?x s1 = Ret (b, s2)" "same_core s1 s2" using may_displace_ok [OF x] by blast
    note C2 = same_core_inv [OF s2(2)]
    define w where "w = sameVersion ?v Locked"
    define s3 where "s3 = set_state r w s2"
    have i2: "pool_inv n {} {} s2" "res s2 p = Some r" using inv Some by (simp_all add: C C2)
    note S3 = set_state_ok [where w = w, OF i2, folded s3_def]
    have "pinned s3 \<subseteq> insert p (pinned s)" using pinned_state(1) [OF S3(4), of p Locked] S3(6) by (simp add: C C2 w_def)
    then have "card (pinned s3) \<le> card (insert p (pinned s))" by (intro card_mono) (simp_all add: finite_pinned [OF inv])
    also have "\<dots> \<le> card (pinned s) + 1" by (simp add: card_insert_if finite_pinned [OF inv])
    finally have "card (pinned s3) < k" using Suc.prems(3) by simp
    moreover have "serves k s3" using Suc.prems(2) serves_env [of s3 s k] S3(3) by (simp add: C C2)
    moreover have "res s3 p = Some r" using i2(2) by (simp add: S3(4))
    ultimately have pr: "returns (\<lambda>fuel. promoteLocked fuel r s3)" using promoteLocked_returns [OF S3(1)] by blast
    show ?thesis
    proof (cases "(getState ?v = Marked \<or> getState ?v = Unlocked) \<and> bpage (bf_at s r) \<noteq> Some ?x \<and> b")
      case False
      then have "(\<forall>fuel. tryPromote_loop fuel (Suc j) p s \<noteq> Loop) \<or>
          (\<forall>fuel. tryPromote_loop fuel (Suc j) p s = tryPromote_loop fuel j p s1)"
        using acc s2(1) by (auto simp: C)
      then show ?thesis
      proof
        assume "\<forall>fuel. tryPromote_loop fuel (Suc j) p s \<noteq> Loop"
        then show ?thesis unfolding returns_def by blast
      next
        assume a: "\<forall>fuel. tryPromote_loop fuel (Suc j) p s = tryPromote_loop fuel j p s1"
        show ?thesis by (rule returns_mono [OF ih]) (simp only: a)
      qed
    next
      case True
      have tl: "tryLockX ?v ?v = Ret (True, w)" unfolding w_def by (rule tryLockX_self) (use True in blast)
      show ?thesis
        by (rule returns_mono [OF pr])
          (use acc True s2(1) tl in \<open>auto simp: C C2 s3_def set_state_def Let_def no_loop split: if_splits\<close>)
    qed
  qed
qed

lemma tryPromote_returns:
  assumes "pool_inv n {} {} s" and "serves k s" and "card (pinned s) + 1 < k" and "p \<noteq> pid_none"
  shows "returns (\<lambda>fuel. tryPromote fuel p s)"
  unfolding tryPromote_def by (rule tryPromote_loop_returns [OF assms])

text \<open>\<open>unfixS\<close> ends, or hands over to \<open>tryPromote\<close>.\<close>

lemma unfixS_returns:
  assumes inv: "pool_inv n {} {} s" and sv: "serves k s" and k: "card (pinned s) + 1 < k" and p: "res s p = Some r"
    and st: "0 < st s p" "st s p \<le> MaxShared" and ctl: "ctl_ok s"
  shows "returns (\<lambda>fuel. unfixS fuel r s)"
proof -
  note I = pool_invD [OF inv]
  have bp: "bpid (bf_at s r) = p" by (rule bf_pid [OF I(1) p])
  have p0: "p \<noteq> pid_none" using p by auto
  have stv: "st s p = getState (bstate (bf_at s r))" using pg_st_Some [OF p] by simp
  obtain w where w: "unlockS [(bstate (bf_at s r), bstate (bf_at s r))] = Ret w" "getState w = st s p - 1"
    using unlockS_holder [of "bstate (bf_at s r)"] st stv by auto
  define s1 where "s1 = set_state r w s"
  note S = set_state_ok [where w = w, OF inv p, folded s1_def]
  have c1: "ctl_ok s1" using ctl by (simp add: ctl_ok_def s1_def set_state_def) (simp add: upd_bf_def)
  obtain x where x: "x < length (virtMem s)" "bpage (bf_at s r) = Some x"
    by (rule owned_slot [OF I(2) p]) auto
  have x1: "bpage (bf_at s1 r) = Some x" "x < length (virtMem s1)"
    using x by (simp_all add: S(9)) (simp add: s1_def set_state_def)
  have "p \<in> pinned s" using p st by (auto simp: pinned_def)
  then have pins: "pinned s1 \<subseteq> pinned s"
    using pinned_state(1) [OF S(4), of p "getState w"] S(6) by auto
  have tp: "returns (\<lambda>fuel. tryPromote fuel p s4)" if "quiet s1 s4" for s4
  proof -
    note C = same_core_inv [OF that [unfolded quiet_def, THEN conjunct1]]
    have "card (pinned s1) \<le> card (pinned s)" by (rule card_mono [OF finite_pinned [OF inv] pins])
    then have "card (pinned s4) + 1 < k" using k by (simp add: C)
    moreover have "serves k s4" using sv serves_env [of s4 s k] S(3) by (simp add: C)
    moreover have "pool_inv n {} {} s4" using S(1) by (simp add: C)
    ultimately show ?thesis using tryPromote_returns p0 by blast
  qed
  let ?inp = "bpage (bf_at s r) = Some (intended s p)" and ?cls = "classOf (bm_hash s p)"
  have "(\<forall>fuel. unfixS fuel r s \<noteq> Loop) \<or> (\<exists>s4. quiet s1 s4 \<and> (\<forall>fuel. unfixS fuel r s = tryPromote fuel p s4))"
  proof (cases "enabled (cbp_state s1)")
    case True
    have un: "unfixS fuel r s = bind_run (bm_noteAccess ?cls ?inp s1) (\<lambda>s.
             if \<not> ?inp \<and> isInlined r then
               bind_run (bm_decideForClass ?cls s) (\<lambda>(d, s).
                 if d then bind_run (bm_noteAttempt ?cls s) (tryPromote fuel p) else Ret s)
             else Ret s)" for fuel
      using True w(1) by (simp add: unfixS_def bp Let_def s1_def set_state_def del: unlockS.simps)
    from noteAccess_quiet [OF c1, of "bm_hash s p" ?inp] show ?thesis
    proof
      assume "modes (cbp_state s1) = (False, False, False) \<and> bm_noteAccess ?cls ?inp s1 = Err int_overflow"
      then show ?thesis by (simp add: un)
    next
      assume "\<exists>s'. bm_noteAccess ?cls ?inp s1 = Ret s' \<and> quiet s1 s'"
      then obtain s2 where s2: "bm_noteAccess ?cls ?inp s1 = Ret s2" "quiet s1 s2" by blast
      have "ctl_ok s2" using s2(2) c1 by (simp add: quiet_def)
      then obtain d s3 where s3: "bm_decideForClass ?cls s2 = Ret (d, s3)" "quiet s2 s3" using decide_quiet by blast
      have q3: "quiet s1 s3" by (rule quiet_trans [OF s2(2) s3(2)])
      then have "ctl_ok s3" using c1 by (simp add: quiet_def)
      then obtain s4 where s4: "bm_noteAttempt ?cls s3 = Ret s4" "quiet s3 s4" using attempt_quiet by blast
      have "quiet s1 s4" by (rule quiet_trans [OF q3 s4(2)])
      moreover have "unfixS fuel r s = (if \<not> ?inp \<and> isInlined r then if d then tryPromote fuel p s4 else Ret s3 else Ret s2)" for fuel
        using s2(1) s3(1) s4(1) by (simp add: un)
      ultimately show ?thesis by auto
    qed
  next
    case False
    define de where "de = (if perClassMode (promo_cfg s1) then decide_perclass r s1
                     else (case draw s1 of (w, s) \<Rightarrow> Ret (decidePromotionShared (promo_cfg s) w, s)))"
    have "\<exists>d s2. de = Ret (d, s2) \<and> quiet s1 s2"
      unfolding de_def using perclass_quiet [OF c1 x1] draw_quiet [where f = "\<lambda>s. decidePromotionShared (promo_cfg s)" and s = s1] by auto
    then obtain d s2 where s2: "de = Ret (d, s2)" "quiet s1 s2" by blast
    have "unfixS fuel r s = bind_run de (\<lambda>(d, s). if \<not> ?inp \<and> isInlined r \<and> d then tryPromote fuel p s else Ret s)" for fuel
      using False w(1) by (simp add: unfixS_def bp Let_def s1_def set_state_def de_def del: unlockS.simps)
    then show ?thesis using s2 by auto
  qed
  then show ?thesis
  proof
    assume "\<forall>fuel. unfixS fuel r s \<noteq> Loop"
    then show ?thesis by (simp add: returns_def)
  next
    assume "\<exists>s4. quiet s1 s4 \<and> (\<forall>fuel. unfixS fuel r s = tryPromote fuel p s4)"
    then show ?thesis using tp by auto
  qed
qed

lemma unfixX_returns:
  assumes inv: "pool_inv n {} {} s" and sv: "serves k s" and k: "card (pinned s) < k" and p: "res s p = Some r"
    and ctl: "ctl_ok s"
  shows "returns (\<lambda>fuel. unfixX fuel r s)"
proof -
  note I = pool_invD [OF inv]
  note F = frame_invD [OF I(2)]
  have bp: "bpid (bf_at s r) = p" by (rule bf_pid [OF I(1) p])
  obtain x where x: "x < length (virtMem s)" "bpage (bf_at s r) = Some x"
    by (rule owned_slot [OF I(2) p]) auto
  define y where "y = intended s p"
  have y: "y < length (virtMemPids s)" using intended_less [OF F(8)] F(2) by (simp add: y_def)
  let ?inp = "bpage (bf_at s r) = Some y" and ?cls = "classOf (bm_hash s p)"
  define ul where "ul = (\<lambda>s. bind_run (unlockX (bstate (bf_at s r))) (\<lambda>w. Ret (upd_bf r (\<lambda>bf. bf\<lparr>bstate := w\<rparr>) s)))"
  define note1 where "note1 = (if enabled (cbp_state s) then bm_noteAccess ?cls ?inp s else Ret s)"
  define dec where "dec = (\<lambda>s. if enabled (cbp_state s) then bm_decideForClass ?cls s
                   else if perClassMode (promo_cfg s) then decide_perclass r s
                   else (case draw s of (w, s) \<Rightarrow> Ret (decidePromotionExclusive (promo_cfg s) w, s)))"
  define att where "att = (\<lambda>s. if enabled (cbp_state s) then bm_noteAttempt ?cls s else Ret s)"
  have un: "unfixX fuel r s = bind_run note1 (\<lambda>s. bind_run (dec s) (\<lambda>(d, s).
     if \<not> isInlined r \<or> ?inp \<or> \<not> d then ul s
     else bind_run (may_displace (intended s p) s) (\<lambda>(may, s).
       bind_run (if may then bind_run (att s) (promoteLocked fuel r) else Ret s) ul)))" for fuel
    by (simp only: unfixX_def bp Let_def ul_def note1_def dec_def att_def y_def)
  have ul: "ul s2 \<noteq> Loop" for s2 by (simp add: ul_def no_loop)
  have "note1 = Err int_overflow \<or> (\<exists>s1. note1 = Ret s1 \<and> quiet s s1)"
    using noteAccess_quiet [OF ctl, of "bm_hash s p" ?inp] by (auto simp: note1_def)
  then consider "note1 = Err int_overflow" | s1 where "note1 = Ret s1" "quiet s s1" by blast
  then show ?thesis
  proof cases
    case 1
    then show ?thesis by (simp add: un returns_const)
  next
    case s1: 2
    note C1 = same_core_inv [OF s1(2) [unfolded quiet_def, THEN conjunct1]]
    have c1: "ctl_ok s1" using s1(2) ctl by (simp add: quiet_def)
    have x1: "bpage (bf_at s1 r) = Some x" "x < length (virtMem s1)" using x by (simp_all add: C1)
    have "\<exists>d s2. dec s1 = Ret (d, s2) \<and> quiet s1 s2"
      using decide_quiet [OF c1] perclass_quiet [OF c1 x1]
        draw_quiet [where f = "\<lambda>s. decidePromotionExclusive (promo_cfg s)" and s = s1] by (simp add: dec_def)
    then obtain d s2 where s2: "dec s1 = Ret (d, s2)" "quiet s1 s2" by blast
    have q2: "quiet s s2" by (rule quiet_trans [OF s1(2) s2(2)])
    note C2 = same_core_inv [OF q2 [unfolded quiet_def, THEN conjunct1]]
    have "y < length (virtMemPids s2)" using y by (simp add: C2)
    then have "\<exists>may s3. may_displace y s2 = Ret (may, s3) \<and> quiet s2 s3"
      using quiet_draw [of s2] by (auto simp: may_displace_def split: prod.split)
    then obtain may s3 where s3: "may_displace y s2 = Ret (may, s3)" "quiet s2 s3" by blast
    have q3: "quiet s s3" by (rule quiet_trans [OF q2 s3(2)])
    have c3: "ctl_ok s3" using q3 ctl by (simp add: quiet_def)
    have "\<exists>s4. att s3 = Ret s4 \<and> quiet s3 s4" using attempt_quiet [OF c3] by (simp add: att_def)
    then obtain s4 where s4: "att s3 = Ret s4" "quiet s3 s4" by blast
    have q4: "same_core s s4" using quiet_trans [OF q3 s4(2)] by (simp add: quiet_def)
    note C4 = same_core_inv [OF q4]
    have pr: "returns (\<lambda>fuel. promoteLocked fuel r s4)"
      by (rule promoteLocked_returns [of n s4 k p]) (use inv sv k p serves_env [OF C4(6)] in \<open>simp_all add: C4\<close>)
    show ?thesis
      by (rule returns_mono [OF pr])
        (use s1(1) s2(1) s3(1) s4(1) ul in \<open>auto simp: un C2 no_loop simp flip: y_def split: if_splits\<close>)
  qed
qed

end
