(* ===== verification/Pool_Shape.thy ===== *)
theory Pool_Shape
  imports Pool_Returns
begin

text \<open>
  What every operation keeps without looking at the tables: the controllers are in their
  invariant, every page has 4080 bytes behind its header, and no page enters the resident set
  but the one that the operation is about.
\<close>

section \<open>The shape of a pool\<close>

definition shape :: "PID set \<times> u64 \<Rightarrow> bm \<Rightarrow> bool" where
  "shape A s \<longleftrightarrow> cbp_inv (cbp_state s) \<and> \<not> adapting (cbp_state s) \<and> unat (tid s) < 256 \<and> btreeIsLeafOffset s < 4096 \<and>
     (\<forall>q \<in> set (virtMem s). length (body q) = 4080) \<and> (\<forall>l q. disk s l = Some q \<longrightarrow> length (body q) = 4080) \<and>
     set (slots (residentSet s)) \<subseteq> insert rs_empty (insert rs_tombstone (fst A)) \<and> allocCount s = snd A"

lemma shape_ctl: "shape A s \<Longrightarrow> ctl_ok s"
  by (auto simp: shape_def ctl_ok_def)

lemma shape_res: "shape A s \<Longrightarrow> tab_inv n s \<Longrightarrow> dom (res s) \<subseteq> fst A"
proof
  fix p assume s: "shape A s" "tab_inv n s" and "p \<in> dom (res s)"
  then have "p \<in> members (residentSet s)" using tab_invD(3) by blast
  then have "p \<in> set (slots (residentSet s))" "real_pid p" by (auto simp: members_def)
  then show "p \<in> fst A" using s(1) by (auto simp: shape_def real_pid_def)
qed

text \<open>Of the steps of an operation, these change what the shape is about.\<close>

lemma shape_other [simp]:
  "shape A (upd_bf r f s) = shape A s" "shape A (s\<lparr>ht := t\<rparr>) = shape A s" "shape A (enqueue_free x s) = shape A s"
  "shape A (s\<lparr>freeList := q\<rparr>) = shape A s" "shape A (s\<lparr>virtMemPids := v\<rparr>) = shape A s" "shape A (s\<lparr>rng := g\<rparr>) = shape A s"
  "shape A (s\<lparr>weak_fails := w\<rparr>) = shape A s"
  "shape A (s\<lparr>readCount := n\<rparr>) = shape A s" "shape A (s\<lparr>writeCount := n\<rparr>) = shape A s"
  "shape A (s\<lparr>evictsHTCache := n\<rparr>) = shape A s"
  by (simp_all add: shape_def upd_bf_def enqueue_free_def)

lemma shape_page:
  assumes "shape A s" and "length (body c) = 4080"
  shows "shape A (s\<lparr>virtMem := (virtMem s)[x := c]\<rparr>)" "shape A (s\<lparr>disk := (disk s)(l \<mapsto> c)\<rparr>)"
  using assms by (auto simp: shape_def dest!: set_update_subset_insert [THEN subsetD])

section \<open>Steps\<close>

named_theorems shape_steps \<open>what a returning step keeps\<close>

lemma rs_insert_slots:
  assumes "rs_insert p r = Ret r'"
  shows "set (slots r') \<subseteq> insert p (set (slots r))"
proof -
  have *: "rs_insert_loop f msk p pos ht = Ret ht' \<Longrightarrow> set ht' \<subseteq> insert p (set ht)" for f msk pos ht ht'
    by (induction f msk p pos ht rule: rs_insert_loop.induct)
      (auto simp: run_simps aget_def cas_def split: if_splits prod.splits dest!: set_update_subset_insert [THEN subsetD])
  from assms show ?thesis by (auto simp: rs_insert_def run_simps dest!: * [THEN subsetD])
qed

lemma rs_remove_slots:
  assumes "rs_remove p r = Ret (b, r')"
  shows "set (slots r') \<subseteq> insert rs_tombstone (set (slots r))"
proof -
  have *: "rs_remove_loop f msk p pos ht = Ret (c, ht') \<Longrightarrow> set ht' \<subseteq> insert rs_tombstone (set ht)" for f msk pos ht ht' c
    by (induction f msk p pos ht rule: rs_remove_loop.induct)
      (auto simp: run_simps aget_def cas_def split: if_splits prod.splits dest!: set_update_subset_insert [THEN subsetD])
  from assms show ?thesis by (auto simp: rs_remove_def run_simps split: if_splits dest!: * [THEN subsetD])
qed

lemma shape_insert [shape_steps]:
  "rs_insert p (residentSet s) = Ret rs \<Longrightarrow> shape A s \<Longrightarrow> p \<in> fst A \<Longrightarrow> shape A (s\<lparr>residentSet := rs\<rparr>)"
  using rs_insert_slots by (fastforce simp: shape_def)

lemma shape_remove [shape_steps]:
  "rs_remove p (residentSet s) = Ret (b, rs) \<Longrightarrow> shape A s \<Longrightarrow> shape A (s\<lparr>residentSet := rs\<rparr>)"
  using rs_remove_slots by (fastforce simp: shape_def)

lemma shape_set_pid [shape_steps]: "set_pid x p s = Ret s' \<Longrightarrow> shape A s \<Longrightarrow> shape A s'"
  by (auto simp: set_pid_def run_simps)

lemma shape_trySet [shape_steps]: "trySetPresent x p s = Ret (b, s') \<Longrightarrow> shape A s \<Longrightarrow> shape A s'"
  by (auto simp: trySetPresent_def run_simps cas_def split: if_splits)

lemma shape_upd_page [shape_steps]:
  "upd_page x f s = Ret s' \<Longrightarrow> (\<And>q. q \<in> set (virtMem s) \<Longrightarrow> length (body (f q)) = 4080) \<Longrightarrow> shape A s \<Longrightarrow> shape A s'"
  by (auto simp: upd_page_def run_simps aget_def split: if_splits intro!: shape_page(1))

lemma shape_copy [shape_steps]: "copy_page x y s = Ret s' \<Longrightarrow> shape A s \<Longrightarrow> shape A s'"
  unfolding copy_page_def bind_run_eq_Ret
  by (auto simp: aget_def shape_def split: if_splits dest!: shape_upd_page)

lemma shape_access [shape_steps]: "bm_access p h s = Ret (r, s') \<Longrightarrow> shape A s \<Longrightarrow> shape A s'"
  by (auto simp: bm_access_def draw_def run_simps Let_def split: prod.splits if_splits)

lemma shape_displace [shape_steps]: "may_displace x s = Ret (b, s') \<Longrightarrow> shape A s \<Longrightarrow> shape A s'"
  by (auto simp: may_displace_def draw_def run_simps split: if_splits prod.splits)

lemma shape_weak [shape_steps]: "next_weak s = (b, s') \<Longrightarrow> shape A s \<Longrightarrow> shape A s'"
  by (auto simp: next_weak_def split: list.splits)

lemma shape_read [shape_steps]: "readPageToHTCache p x s = Ret s' \<Longrightarrow> shape A s \<Longrightarrow> shape A s'"
  by (auto simp: readPageToHTCache_def run_simps split: option.splits dest!: shape_upd_page) (auto simp: shape_def)

section \<open>Eviction\<close>

lemma shape_evict_clean [shape_steps]: "evict_clean p h x s = Ret s' \<Longrightarrow> shape A s \<Longrightarrow> shape A s'"
  unfolding evict_clean_def bind_run_eq_Ret by (auto simp: run_simps dest!: shape_remove shape_set_pid)

text \<open>If the run returns, its value is in \<open>P\<close>.\<close>

definition post :: "('a \<Rightarrow> bool) \<Rightarrow> 'a run \<Rightarrow> bool" where
  "post P m \<longleftrightarrow> (\<forall>a. m = Ret a \<longrightarrow> P a)"

lemma post_simps [simp]: "post P (Ret a) \<longleftrightarrow> P a" "post P (Err e)" "post P Loop"
  by (simp_all add: post_def)

lemma post_bind: "post (\<lambda>a. post P (f a)) m \<Longrightarrow> post P (bind_run m f)"
  by (auto simp: post_def run_simps)

lemma post_any: "(\<And>a. P a) \<Longrightarrow> post P m"
  by (simp add: post_def)

text \<open>Steps that do not change the state of the pool.\<close>

lemmas post_pure = post_any [where m = "unlockS xs" for xs] post_any [where m = "page_of t r" for t r]
  post_any [where m = "aget xs i" for xs i] post_any [where m = "tryMark c v" for c v] post_any [where m = "unlockX v" for v]
  post_any [where m = "ht_access b w p h t" for b w p h t] post_any [where m = "ht_insert d p h t" for d p h t]
  post_any [where m = "tryLockX c v" for c v] post_any [where m = "downgradeLock v" for v]

lemma post_clean: "shape A s \<Longrightarrow> (\<And>s'. shape A s' \<Longrightarrow> P s') \<Longrightarrow> post P (evict_clean p h x s)"
  by (auto simp: post_def dest: shape_evict_clean)

lemma shape_visit:
  assumes r: "evict_visit p (s, ev) = Ret (s', ev')" and s: "shape A s"
  shows "shape A s'"
proof -
  have w: "next_weak (upd_bf r f s) = (b, s') \<Longrightarrow> shape A s'" for r f b s'
    using shape_weak [of "upd_bf r f s"] s by simp
  have "post (\<lambda>(s, _). shape A s) (evict_visit p (s, ev))"
    unfolding evict_visit_def Let_def prod.case
    using s w
    by (auto intro!: post_bind post_clean [of A] post_pure simp del: unlockS.simps split: option.split bool.split prod.split)
  then show ?thesis using r by (simp add: post_def)
qed

lemma clock_loop_keeps:
  assumes "clock_loop get fn n pos s = Ret s'" and "P s"
    and "\<And>p s s'. P s \<Longrightarrow> fn p s = Ret s' \<Longrightarrow> P s'"
  shows "P s'"
  using assms(1,2)
  by (induction n arbitrary: pos s) (auto simp: run_simps split: if_splits intro: assms(3))

lemma shape_batch:
  assumes "iterateClockBatch rs_get rs_put b evict_visit (s, ev) = Ret (s', ev')" and "shape A s"
  shows "shape A s'"
proof -
  have "case (s', ev') of (s, _) \<Rightarrow> shape A s"
    by (rule clock_loop_keeps [where P = "\<lambda>(s, _). shape A s", OF assms(1) [unfolded iterateClockBatch_def Let_def]])
      (use assms(2) in \<open>auto simp: rs_put_def rs_get_def shape_def [of A s] dest: shape_visit\<close>, auto simp: shape_def)
  then show ?thesis by simp
qed

lemma shape_search: "evict_search n (s, ev) = Ret (s', ev') \<Longrightarrow> shape A s \<Longrightarrow> shape A s'"
proof (induction n arbitrary: s ev)
  case (Suc n)
  then show ?case by (auto simp: run_simps split: if_splits dest!: shape_batch)
qed simp

lemma shape_write [shape_steps]:
  assumes "writePages ws s = Ret s'" and "shape A s"
  shows "shape A s'"
proof -
  have p: "prep_writes ws s = Ret s' \<Longrightarrow> shape A s \<Longrightarrow> shape A s'" for ws s s'
    by (induction ws s rule: prep_writes.induct) (auto simp: run_simps shape_def [of _ s] dest!: shape_upd_page, auto simp: shape_def)
  have d: "do_writes ws s = Ret s' \<Longrightarrow> shape A s \<Longrightarrow> shape A s'" for ws s s'
  proof (induction ws s rule: do_writes.induct)
    case (2 p x ws s)
    from 2(2) obtain q where q: "aget (virtMem s) x = Ret q"
      "do_writes ws (s\<lparr>disk := (disk s)(getFileAndIndex (blockfds s) p \<mapsto> q)\<rparr>) = Ret s'" by (auto simp: run_simps)
    have "q \<in> set (virtMem s)" using q(1) by (auto simp: aget_def split: if_splits)
    then have "length (body q) = 4080" using 2(3) by (auto simp: shape_def)
    then show ?case using 2(1) [OF q(2)] shape_page(2) [OF 2(3)] by blast
  qed simp
  show ?thesis using assms by (auto simp: writePages_def run_simps dest!: p d)
qed

lemma shape_upgrade: "evict_upgrade ws s = Ret (ps, s') \<Longrightarrow> shape A s \<Longrightarrow> shape A s'"
proof (induction ws arbitrary: s ps)
  case (Cons w ws)
  obtain q y t where w: "w = (q, y, t)" by (cases w)
  from Cons.prems show ?case
    by (auto simp: w Let_def run_simps simp del: unlockS.simps split: prod.splits if_splits
        dest!: Cons.IH shape_set_pid shape_weak)
qed simp

lemma shape_evict_remove: "evict_remove ps s = Ret s' \<Longrightarrow> shape A s \<Longrightarrow> shape A s'"
proof (induction ps arbitrary: s)
  case (Cons p ps)
  then show ?case by (auto simp: run_simps dest!: Cons.IH shape_remove)
qed simp

lemma shape_evict [shape_steps]: "evict s = Ret s' \<Longrightarrow> shape A s \<Longrightarrow> shape A s'"
  by (auto simp: evict_def Let_def run_simps split: prod.splits
      dest!: shape_search shape_write shape_upgrade shape_evict_remove)

lemma shape_getFree [shape_steps]: "getFreePageHTCache f p s = Ret (x, s') \<Longrightarrow> shape A s \<Longrightarrow> shape A s'"
proof (induction f arbitrary: s)
  case (Suc f)
  then show ?case
    by (auto simp: run_simps split: option.splits if_splits prod.splits dest!: shape_evict shape_trySet)
qed simp

section \<open>The operations of the pool\<close>

lemma shape_claim [shape_steps]: "claim_frame f p s = Ret (r, s') \<Longrightarrow> shape A s \<Longrightarrow> shape A s'"
  by (auto simp: claim_frame_def run_simps split: if_splits prod.splits dest!: shape_trySet shape_getFree)

lemma shape_enter:
  "rs_insert p (residentSet s) = Ret rs \<Longrightarrow> shape A s \<Longrightarrow> p \<in> fst A \<Longrightarrow> shape A (s\<lparr>ht := t, residentSet := rs\<rparr>)"
  using shape_insert [of p "s\<lparr>ht := t\<rparr>" rs A] by simp

lemma shape_dirty: "upd_page x (\<lambda>c. c\<lparr>dirty := True, ppid := p\<rparr>) s = Ret s' \<Longrightarrow> shape A s \<Longrightarrow> shape A s'"
  by (erule shape_upd_page) (auto simp: shape_def)

lemma post_claim: "shape A s \<Longrightarrow> (\<And>x ok s'. shape A s' \<Longrightarrow> P ((x, ok), s')) \<Longrightarrow> post P (claim_frame f p s)"
  by (auto simp: post_def dest: shape_claim)

lemma post_set_pid: "shape A s \<Longrightarrow> (\<And>s'. shape A s' \<Longrightarrow> P s') \<Longrightarrow> post P (set_pid x p s)"
  by (auto simp: post_def dest: shape_set_pid)

lemma post_copy: "shape A s \<Longrightarrow> (\<And>s'. shape A s' \<Longrightarrow> P s') \<Longrightarrow> post P (copy_page x y s)"
  by (auto simp: post_def dest: shape_copy)

lemma post_dirty: "shape A s \<Longrightarrow> (\<And>s'. shape A s' \<Longrightarrow> P s') \<Longrightarrow> post P (upd_page x (\<lambda>c. c\<lparr>dirty := True, ppid := p\<rparr>) s)"
  by (auto simp: post_def dest: shape_dirty)

lemma post_trySet: "shape A s \<Longrightarrow> (\<And>b s'. shape A s' \<Longrightarrow> P (b, s')) \<Longrightarrow> post P (trySetPresent x p s)"
  by (auto simp: post_def dest: shape_trySet)

lemma post_access: "shape A s \<Longrightarrow> (\<And>b v s'. shape A s' \<Longrightarrow> P ((b, v), s')) \<Longrightarrow> post P (bm_access p h s)"
  by (auto simp: post_def dest: shape_access)

lemma post_displace: "shape A s \<Longrightarrow> (\<And>b s'. shape A s' \<Longrightarrow> P (b, s')) \<Longrightarrow> post P (may_displace x s)"
  by (auto simp: post_def dest: shape_displace)

lemma post_read: "shape A s \<Longrightarrow> (\<And>s'. shape A s' \<Longrightarrow> P s') \<Longrightarrow> post P (readPageToHTCache p x s)"
  by (auto simp: post_def dest: shape_read)

text \<open>The page that a fault or an allocation enters is in \<open>A\<close> already.\<close>

lemma post_enter:
  "shape A s \<Longrightarrow> p \<in> fst A \<Longrightarrow> (\<And>rs. (\<And>t. shape A (s\<lparr>ht := t, residentSet := rs\<rparr>)) \<Longrightarrow> P rs) \<Longrightarrow> post P (rs_insert p (residentSet s))"
  using shape_enter [of p s _ A] by (auto simp: post_def insert_absorb)

lemmas wp = post_clean post_claim post_set_pid post_copy post_dirty post_trySet post_access post_displace post_read post_enter

lemma shape_alloc:
  assumes "allocPage f s = Ret (r, s')" and A: "shape (A, c) s" "c \<in> A"
  shows "shape (A, c + 1) s'"
proof -
  let ?A = "(A, c + 1)"
  define s0 where "s0 = s\<lparr>allocCount := c + 1\<rparr>"
  have s0: "shape ?A s0" "allocCount s = c" "allocCount s0 - 1 = c" "c \<in> fst ?A" using A by (simp_all add: s0_def shape_def)
  have "allocPage f s = (let pid = allocCount s; hash = bm_hash s0 pid in
      bind_run (ht_insert (queue_pop s0) pid hash (ht s0)) (\<lambda>(bf, t).
      bind_run (rs_insert pid (residentSet s0)) (\<lambda>rs.
      case bf of
        None \<Rightarrow> Err (Fatal ''null frame'')
      | Some r \<Rightarrow>
          let s = s0\<lparr>ht := t, residentSet := rs\<rparr>;
              s = upd_bf r (with_page (intended s pid) (\<not> disablePredict (promo_cfg s))) s
          in bind_run (claim_frame f pid s) (\<lambda>((x, ok), s).
             let s = (if ok then s else upd_bf r (with_page x False) s) in
             bind_run (set_pid x pid s) (\<lambda>s.
             bind_run (upd_page x (\<lambda>p. p\<lparr>dirty := True, ppid := pid\<rparr>) s) (\<lambda>s.
             Ret (r, s)))))))"
    unfolding allocPage_def Let_def s0_def s0(2) by (rule refl)
  moreover have "post (\<lambda>(r, s). shape ?A s) \<dots>"
    using s0 by (auto simp: Let_def intro!: post_bind wp [of ?A] post_pure split: option.split)
  ultimately have "post (\<lambda>(r, s). shape ?A s) (allocPage f s)" by (simp only:)
  then show ?thesis using assms(1) by (simp add: post_def)
qed

lemma shape_fault:
  assumes "handleFault f p s = Ret (r, s')" and A: "shape A s" "p \<in> fst A"
  shows "shape A s'"
proof -
  have "post (\<lambda>(r, s). shape A s) (handleFault f p s)"
    using A by (auto simp: handleFault_def Let_def check_def intro!: post_bind wp [of A] post_pure split: option.split)
  then show ?thesis using assms(1) by (simp add: post_def)
qed

lemma post_fault: "shape A s \<Longrightarrow> p \<in> fst A \<Longrightarrow> (\<And>b s'. shape A s' \<Longrightarrow> P (b, s')) \<Longrightarrow> post P (handleFault f p s)"
  by (auto simp: post_def dest: shape_fault)

lemma shape_fixX:
  assumes "fixX ff f p s = Ret (r, s')" and "shape A s" "p \<in> fst A"
  shows "shape A s'"
proof -
  have "post (\<lambda>(r, s). shape A s) (fixX ff f p s)"
    using assms(2,3)
    by (induction f arbitrary: s) (auto intro!: post_bind wp [of A] post_fault [of A] post_pure split: option.split)
  then show ?thesis using assms(1) by (simp add: post_def)
qed

lemma shape_fixS:
  assumes "fixS ff f p s = Ret (r, s')" and "shape A s" "p \<in> fst A"
  shows "shape A s'"
proof -
  have "post (\<lambda>(r, s). shape A s) (fixS ff f p s)"
    using assms(2,3)
    by (induction f arbitrary: s) (auto intro!: post_bind wp [of A] post_fault [of A] post_pure split: option.split bool.split prod.split)
  then show ?thesis using assms(1) by (simp add: post_def)
qed

lemma shape_promote:
  assumes "promoteLocked f r s = Ret s'" and "shape A s"
  shows "shape A s'"
proof -
  have "post (shape A) (promoteLocked f r s)"
    unfolding promoteLocked_def Let_def
    using assms(2) by (auto intro!: post_bind wp [of A] post_pure split: option.split)
  then show ?thesis using assms(1) by (simp add: post_def)
qed

lemma post_promote: "shape A s \<Longrightarrow> (\<And>s'. shape A s' \<Longrightarrow> P s') \<Longrightarrow> post P (promoteLocked f r s)"
  by (auto simp: post_def dest: shape_promote)

lemma shape_tryPromote:
  assumes "tryPromote f p s = Ret s'" and "shape A s"
  shows "shape A s'"
proof -
  have "post (shape A) (tryPromote_loop f n p s)" if "shape A s" for n s
    using that
    by (induction n arbitrary: s) (auto simp: Let_def intro!: post_bind wp [of A] post_promote [of A] post_pure split: option.split)
  then show ?thesis using assms by (simp add: post_def tryPromote_def)
qed

lemma shape_draw: "shape A s \<Longrightarrow> shape A (snd (draw s))"
  by (simp add: draw_def split: prod.split)

section \<open>Unfixing\<close>

lemma enabled_upd [simp]: "enabled (s\<lparr>classes := x\<rparr>) = enabled s" "enabled (s\<lparr>t_acc := w\<rparr>) = enabled s" "enabled (tpbOnWindow d s) = enabled s"
  by (simp_all add: tpbOnWindow_def Let_def)

lemma noteAccess_kept:
  assumes "noteAccess t r c h s = Ret s'"
  shows "adapting s' = adapting s"
proof -
  have "enabled (v4_decide s) = enabled s" for s by (simp add: v4_decide_def Let_def)
  then have "enabled (v4_flush a t h s) = enabled s" for a t h s by (simp add: v4_flush_def Let_def cas_def)
  then have "enabled s' = enabled s \<and> modes s' = modes s"
    using assms by (auto simp: noteAccess_def noteAccessV4_def run_simps Let_def split: if_splits)
  then show ?thesis by (simp add: adapting_def)
qed

lemma noteAttempt_kept: "noteAttempt c s = Ret s' \<Longrightarrow> adapting s' = adapting s"
  by (auto simp: noteAttempt_def run_simps adapting_def split: if_splits)

lemma shape_cbp: "shape A s \<Longrightarrow> cbp_inv c \<Longrightarrow> \<not> adapting c \<Longrightarrow> shape A (s\<lparr>cbp_state := c\<rparr>)"
  by (simp add: shape_def)

lemma post_draw: "shape A s \<Longrightarrow> (\<And>w s'. draw s = (w, s') \<Longrightarrow> shape A s' \<Longrightarrow> cbp_state s' = cbp_state s \<Longrightarrow> post P (f w s')) \<Longrightarrow>
    post P (case draw s of (w, s') \<Rightarrow> f w s')"
  by (auto simp: draw_def split: prod.splits)

lemma shape_noteAccess:
  assumes "bm_noteAccess (classOf h) hit s = Ret s'" and "shape A s"
  shows "shape A s'"
proof -
  define ws where "ws = (if tpb_mode (cbp_state s) \<or> v4_mode (cbp_state s) then (0, s) else draw s)"
  have w: "shape A (snd ws)" using shape_draw assms(2) by (simp add: ws_def)
  then have c: "cbp_inv (cbp_state (snd ws))" "unat (tid (snd ws)) < 256" "\<not> adapting (cbp_state (snd ws))"
    by (simp_all add: shape_def)
  have "cbp_state (snd ws) = cbp_state s" by (simp add: ws_def draw_def split: prod.split)
  then obtain c' where c': "noteAccess (tid (snd ws)) (fst ws) (classOf h) hit (cbp_state (snd ws)) = Ret c'"
    "s' = (snd ws)\<lparr>cbp_state := c'\<rparr>"
    using assms(1) by (auto simp: bm_noteAccess_def case_prod_beta run_simps simp flip: ws_def)
  have "cbp_inv c'" using noteAccess_cases [OF c(1,2) classOf_less, of "fst ws" h hit] c'(1) by auto
  then show ?thesis unfolding c'(2) using w c(3) noteAccess_kept [OF c'(1)] by (intro shape_cbp) simp_all
qed

lemma shape_noteAttempt:
  assumes "bm_noteAttempt (classOf h) s = Ret s'" and "shape A s"
  shows "shape A s'"
proof -
  have c: "cbp_inv (cbp_state s)" "\<not> adapting (cbp_state s)" using assms(2) by (simp_all add: shape_def)
  obtain c' where c': "noteAttempt (classOf h) (cbp_state s) = Ret c'" "s' = s\<lparr>cbp_state := c'\<rparr>"
    using assms(1) by (auto simp: bm_noteAttempt_def run_simps)
  have "cbp_inv c'" using noteAttempt_inv [OF c(1) classOf_less, of h] c'(1) by auto
  then show ?thesis unfolding c'(2) using assms(2) c(2) noteAttempt_kept [OF c'(1)] by (intro shape_cbp) simp_all
qed

lemma shape_decide:
  "bm_decideForClass c s = Ret (b, s') \<Longrightarrow> shape A s \<Longrightarrow> shape A s'"
  "decide_perclass r s = Ret (b, s') \<Longrightarrow> shape A s \<Longrightarrow> shape A s'"
  using shape_draw [of A s]
  by (auto simp: bm_decideForClass_def decide_perclass_def run_simps split: prod.splits)

lemma post_note: "shape A s \<Longrightarrow> (\<And>s'. shape A s' \<Longrightarrow> P s') \<Longrightarrow> post P (bm_noteAccess (classOf h) hit s)"
  by (auto simp: post_def dest: shape_noteAccess)

lemma post_attempt: "shape A s \<Longrightarrow> (\<And>s'. shape A s' \<Longrightarrow> P s') \<Longrightarrow> post P (bm_noteAttempt (classOf h) s)"
  by (auto simp: post_def dest: shape_noteAttempt)

lemma post_decide:
  "shape A s \<Longrightarrow> (\<And>b s'. shape A s' \<Longrightarrow> P (b, s')) \<Longrightarrow> post P (bm_decideForClass c s)"
  "shape A s \<Longrightarrow> (\<And>b s'. shape A s' \<Longrightarrow> P (b, s')) \<Longrightarrow> post P (decide_perclass r s)"
  by (auto simp: post_def dest: shape_decide)

lemma post_try: "shape A s \<Longrightarrow> (\<And>s'. shape A s' \<Longrightarrow> P s') \<Longrightarrow> post P (tryPromote f p s)"
  by (auto simp: post_def dest: shape_tryPromote)

lemmas wp_unfix = post_note post_attempt post_decide post_try post_promote

lemma shape_unfixS:
  assumes "unfixS f r s = Ret s'" and "shape A s"
  shows "shape A s'"
proof -
  have "post (shape A) (unfixS f r s)"
    unfolding unfixS_def Let_def
    using assms(2) by (auto intro!: post_bind wp [of A] wp_unfix [of A] post_draw [of A] post_pure simp del: unlockS.simps)
  then show ?thesis using assms(1) by (simp add: post_def)
qed

lemma shape_unfixX:
  assumes "unfixX f r s = Ret s'" and "shape A s"
  shows "shape A s'"
proof -
  have "post (shape A) (unfixX f r s)"
    unfolding unfixX_def Let_def
    using assms(2) by (auto intro!: post_bind wp [of A] wp_unfix [of A] post_draw [of A] post_pure)
  then show ?thesis using assms(1) by (simp add: post_def)
qed

end
