(* ===== verification/Lock_Protocol.thy ===== *)
theory Lock_Protocol
  imports Page_State
begin

text \<open>
  The latch protocol: any number of threads work on one \<open>PageState\<close> word through the
  operations of \<open>page.hpp\<close> and the guards of \<open>guards.hpp\<close>, one atomic access per
  step. A thread loads the word, then tries to lock it, mark it or read optimistically; the
  eviction upgrades a shared lock. Two ghost counters record the version increments and the
  exclusive acquisitions. The invariant ties the state byte to the holders and the version
  to the counters; mutual exclusion and the soundness of optimistic validation follow for
  every state reached with fewer than \<open>2 ^ 56\<close> increments. The load and the store of the two
  exclusive releases (\<open>unlockX\<close> and \<open>unlockXInvalid\<close>) are one step: between them the word is locked,
  and no operation of another thread writes a locked word.
\<close>

section \<open>Guard operations on the word\<close>

text \<open>
  \<open>GuardO::checkVersionAndRestart\<close>: the flag is whether it returns (otherwise it throws
  the restart exception), with the word after it. \<open>spurious\<close> is the freedom of
  \<open>compare_exchange_weak\<close> to fail.
\<close>

definition checkVersion :: "bool \<Rightarrow> u64 \<Rightarrow> u64 \<Rightarrow> bool \<times> u64" where
  "checkVersion spurious stateAndVersion version =
     (if version = stateAndVersion then (True, stateAndVersion)
      else if push_bit 8 stateAndVersion = push_bit 8 version then
        (let state = getState stateAndVersion in
         if state \<le> MaxShared then (True, stateAndVersion)
         else if state = Marked then
           cas_weak spurious stateAndVersion stateAndVersion (sameVersion stateAndVersion Unlocked)
         else (False, stateAndVersion))
      else (False, stateAndVersion))"

text \<open>
  One iteration of the constructor of \<open>GuardX\<close> from an optimistic guard: \<open>seen\<close>
  is the loaded word, \<open>cell\<close> the word at the compare-and-swap.
\<close>

datatype upgrade = Restart | Again | Took u64

definition guardX_attempt :: "u64 \<Rightarrow> u64 \<Rightarrow> u64 \<Rightarrow> upgrade run" where
  "guardX_attempt version seen cell =
     (if push_bit 8 seen \<noteq> push_bit 8 version then Ret Restart
      else if getState seen = Unlocked \<or> getState seen = Marked then
        bind_run (tryLockX cell seen)
          (\<lambda>(ok, c). Ret (if ok then Took c else Again))
      else Ret Again)"

section \<open>The machine\<close>

text \<open>
  What a thread holds: nothing, a loaded word (with the number of acquisitions at the load),
  an optimistic guard with its version, the word an upgrading guard has just loaded, a shared
  lock (with the word last loaded by \<open>unlockS\<close> or the eviction), the exclusive lock.
\<close>

datatype pc =
    Idle
  | Seen u64 nat
  | Reading u64 nat
  | Upgrading u64 nat u64
  | Shared "u64 option"
  | Exclusive

record latch =
  cell :: u64
  pcs :: "nat \<Rightarrow> pc"
  bumps :: nat
  acqs :: nat

definition latch0 :: latch where
  "latch0 = \<lparr>cell = ps_init, pcs = (\<lambda>_. Idle), bumps = 0, acqs = 0\<rparr>"

abbreviation goto :: "latch \<Rightarrow> nat \<Rightarrow> pc \<Rightarrow> latch" where
  "goto s t p \<equiv> s\<lparr>pcs := (pcs s)(t := p)\<rparr>"

inductive lstep :: "latch \<Rightarrow> latch \<Rightarrow> bool" where
  load: "pcs s t = Idle \<Longrightarrow> lstep s (goto s t (Seen (cell s) (acqs s)))"
| give_up: "pcs s t = Seen v a \<or> pcs s t = Reading v a \<or> pcs s t = Upgrading v a w \<Longrightarrow>
    lstep s (goto s t Idle)"
| lock_x: "pcs s t = Seen v a \<Longrightarrow>
    getState v = Unlocked \<or> getState v = Marked \<or> getState v = Invalid \<Longrightarrow>
    tryLockX (cell s) v = Ret (True, c) \<Longrightarrow>
    lstep s (goto (s\<lparr>cell := c, acqs := Suc (acqs s)\<rparr>) t Exclusive)"
| lock_s: "pcs s t = Seen v a \<or> pcs s t = Reading v a \<Longrightarrow> tryLockS (cell s) v = (True, c) \<Longrightarrow>
    lstep s (goto (s\<lparr>cell := c\<rparr>) t (Shared None))"
| mark: "pcs s t = Seen v a \<Longrightarrow> getState v = Unlocked \<Longrightarrow>
    tryMark (cell s) v = Ret (True, c) \<Longrightarrow> lstep s (goto (s\<lparr>cell := c\<rparr>) t Idle)"
| unlock_x: "pcs s t = Exclusive \<Longrightarrow> unlockX (cell s) = Ret c \<Longrightarrow>
    lstep s (goto (s\<lparr>cell := c, bumps := Suc (bumps s)\<rparr>) t Idle)"
| invalidate: "pcs s t = Exclusive \<Longrightarrow> unlockXInvalid (cell s) = Ret c \<Longrightarrow>
    lstep s (goto (s\<lparr>cell := c, bumps := Suc (bumps s)\<rparr>) t Idle)"
| downgrade: "pcs s t = Exclusive \<Longrightarrow> downgradeLock (cell s) = Ret c \<Longrightarrow>
    lstep s (goto (s\<lparr>cell := c, bumps := Suc (bumps s)\<rparr>) t (Shared None))"
| load_s: "pcs s t = Shared x \<Longrightarrow> lstep s (goto s t (Shared (Some (cell s))))"
| unlock_s: "pcs s t = Shared (Some v) \<Longrightarrow> unlockS [(v, cell s)] = Ret c \<Longrightarrow>
    lstep s (goto (s\<lparr>cell := c\<rparr>) t Idle)"
| upgrade_s: "pcs s t = Shared (Some v) \<Longrightarrow> getState v = 1 \<Longrightarrow>
    cas_weak b (cell s) v (sameVersion v Locked) = (True, c) \<Longrightarrow>
    lstep s (goto (s\<lparr>cell := c, acqs := Suc (acqs s)\<rparr>) t Exclusive)"
| read: "pcs s t = Seen v a \<Longrightarrow> getState v \<le> MaxShared \<Longrightarrow> lstep s (goto s t (Reading v a))"
| read_marked: "pcs s t = Seen v a \<Longrightarrow> getState v = Marked \<Longrightarrow>
    cas_weak b (cell s) v (sameVersion v Unlocked) = (True, c) \<Longrightarrow>
    lstep s (goto (s\<lparr>cell := c\<rparr>) t (Reading c a))"
| validate: "pcs s t = Reading v a \<Longrightarrow> checkVersion b (cell s) v = (True, c) \<Longrightarrow>
    lstep s (s\<lparr>cell := c\<rparr>)"
| up_load: "pcs s t = Reading v a \<Longrightarrow> lstep s (goto s t (Upgrading v a (cell s)))"
| up_lock: "pcs s t = Upgrading v a w \<Longrightarrow> guardX_attempt v w (cell s) = Ret (Took c) \<Longrightarrow>
    lstep s (goto (s\<lparr>cell := c, acqs := Suc (acqs s)\<rparr>) t Exclusive)"
| up_again: "pcs s t = Upgrading v a w \<Longrightarrow> guardX_attempt v w (cell s) = Ret Again \<Longrightarrow>
    lstep s (goto s t (Reading v a))"

inductive reach :: "latch \<Rightarrow> bool" where
  start: "reach latch0"
| step: "reach s \<Longrightarrow> lstep s s' \<Longrightarrow> reach s'"

inductive_cases lstepE: "lstep s s'"

section \<open>The invariant\<close>

definition sharers :: "(nat \<Rightarrow> pc) \<Rightarrow> nat set" where
  "sharers p = {t. \<exists>x. p t = Shared x}"

definition owners :: "(nat \<Rightarrow> pc) \<Rightarrow> nat set" where
  "owners p = {t. p t = Exclusive}"

definition latch_core :: "u64 \<Rightarrow> nat set \<Rightarrow> nat set \<Rightarrow> nat \<Rightarrow> nat \<Rightarrow> bool" where
  "latch_core c S X b a \<longleftrightarrow> unat (versionOf c) = b \<and> finite S \<and>
     (if getState c \<le> MaxShared then X = {} \<and> card S = unat (getState c) \<and> a = b
      else S = {} \<and> (if getState c = Locked then (\<exists>t. X = {t}) \<and> a = Suc b else X = {} \<and> a = b))"

fun snap_ok :: "nat \<Rightarrow> pc \<Rightarrow> bool" where
  "snap_ok b (Seen v a) = (getState v \<noteq> Locked \<longrightarrow> unat (versionOf v) = a \<and> a \<le> b)"
| "snap_ok b (Reading v a) = (unat (versionOf v) = a \<and> a \<le> b \<and> getState v \<le> MaxShared)"
| "snap_ok b (Upgrading v a w) = (unat (versionOf v) = a \<and> a \<le> b \<and> getState v \<le> MaxShared)"
| "snap_ok b (Shared (Some v)) = (0 < getState v \<and> getState v \<le> MaxShared)"
| "snap_ok b _ = True"

definition latch_inv :: "latch \<Rightarrow> bool" where
  "latch_inv s \<longleftrightarrow>
     latch_core (cell s) (sharers (pcs s)) (owners (pcs s)) (bumps s) (acqs s) \<and>
     (\<forall>t. snap_ok (bumps s) (pcs s t))"

lemma snap_ok_mono: "snap_ok b p \<Longrightarrow> b \<le> b' \<Longrightarrow> snap_ok b' p"
  by (cases "(b, p)" rule: snap_ok.cases) auto

lemma sharers_upd:
  "sharers (p(t := q)) = (if \<exists>x. q = Shared x then insert t (sharers p) else sharers p - {t})"
  by (auto simp: sharers_def)

lemma owners_upd:
  "owners (p(t := q)) = (if q = Exclusive then insert t (owners p) else owners p - {t})"
  by (auto simp: owners_def)

lemma in_sharers: "p t = Shared x \<Longrightarrow> t \<in> sharers p"
  by (auto simp: sharers_def)

lemma not_in_sharers: "(\<And>x. p t \<noteq> Shared x) \<Longrightarrow> t \<notin> sharers p"
  by (auto simp: sharers_def)

lemma in_owners: "t \<in> owners p \<longleftrightarrow> p t = Exclusive"
  by (auto simp: owners_def)

section \<open>How each change of the word moves the holders\<close>

lemma core_lock:
  assumes "latch_core c S X b a" and "getState c = Unlocked \<or> getState c = Marked \<or> getState c = Invalid"
  shows "latch_core (sameVersion c Locked) S {t} b (Suc a) \<and> S = {} \<and> X = {}"
  using assms by (auto simp: latch_core_def)

lemma core_upgrade:
  assumes "latch_core c S X b a" and "getState c = 1" and "t \<in> S"
  shows "latch_core (sameVersion c Locked) (S - {t}) {t} b (Suc a) \<and> X = {}"
proof -
  have "card S = 1" and "X = {}" and "a = b" and "finite S"
    using assms by (simp_all add: latch_core_def)
  then have "S - {t} = {}" using \<open>t \<in> S\<close> by (auto simp: card_1_singleton_iff)
  then show ?thesis using assms(1) \<open>X = {}\<close> \<open>a = b\<close> by (simp add: latch_core_def)
qed

lemma core_share:
  assumes "latch_core c S X b a" and "getState c < MaxShared" and "t \<notin> S"
  shows "latch_core (sameVersion c (getState c + 1)) (insert t S) X b a"
proof -
  have "unat (getState c) < 252" using assms(2) by (simp add: word_less_nat_alt)
  then have *: "unat (getState c + 1) = Suc (unat (getState c))"
    by (simp add: unat_word_ariths)
  then have "getState c + 1 \<le> MaxShared" and "getState c + 1 < 256"
    using \<open>unat (getState c) < 252\<close> by (simp_all add: word_le_nat_alt word_less_nat_alt)
  then show ?thesis using assms * by (auto simp: latch_core_def)
qed

lemma core_share_marked:
  assumes "latch_core c S X b a" and "getState c = Marked"
  shows "latch_core (sameVersion c 1) (insert t S) X b a"
  using assms by (auto simp: latch_core_def)

lemma core_unshare:
  assumes "latch_core c S X b a" and "t \<in> S"
  shows "latch_core (sameVersion c (getState c - 1)) (S - {t}) X b a"
    and "0 < getState c" and "getState c \<le> MaxShared"
proof -
  have le: "getState c \<le> MaxShared" and card: "card S = unat (getState c)" and "finite S"
    using assms by (auto simp: latch_core_def split: if_splits)
  then have "0 < unat (getState c)" using assms(2) by (metis card_gt_0_iff empty_iff)
  then have pos: "0 < getState c" by (simp add: word_less_nat_alt)
  then have u: "unat (getState c - 1) = unat (getState c) - 1"
    by (metis unat_minus_one less_irrefl)
  have n: "unat (getState c) \<le> 252" using le by (simp add: word_le_nat_alt)
  then have "getState c - 1 \<le> MaxShared" and "getState c - 1 < 256"
    using u by (simp_all add: word_le_nat_alt word_less_nat_alt)
  then show "latch_core (sameVersion c (getState c - 1)) (S - {t}) X b a"
    using assms le card u by (simp add: latch_core_def)
  show "0 < getState c" and "getState c \<le> MaxShared" by fact+
qed

lemma core_mark:
  "latch_core c S X b a \<Longrightarrow> getState c = Unlocked \<Longrightarrow> latch_core (sameVersion c Marked) S X b a"
  by (auto simp: latch_core_def)

lemma core_unmark:
  "latch_core c S X b a \<Longrightarrow> getState c = Marked \<Longrightarrow> latch_core (sameVersion c Unlocked) S X b a"
  by (auto simp: latch_core_def)

lemma core_owner:
  "latch_core c S X b a \<Longrightarrow> t \<in> X \<Longrightarrow> getState c = Locked \<and> S = {} \<and> X = {t}"
  by (auto simp: latch_core_def split: if_splits)

lemma core_release:
  assumes "latch_core c S X b a" and "t \<in> X" and "Suc b < 2 ^ 56"
  shows "latch_core (nextVersion c Unlocked) S {} (Suc b) a"
    and "latch_core (nextVersion c Invalid) S {} (Suc b) a"
    and "latch_core (nextVersion c 1) (insert t S) {} (Suc b) a"
proof -
  have own: "getState c = Locked" "S = {}" "a = Suc b" "unat (versionOf c) = b"
    using assms core_owner [OF assms(1,2)] by (auto simp: latch_core_def split: if_splits)
  then have bump: "unat (versionOf c) + 1 < 2 ^ 56" using assms(3) by simp
  note next_word = nextVersion_below [OF bump]
  show "latch_core (nextVersion c Unlocked) S {} (Suc b) a"
    and "latch_core (nextVersion c Invalid) S {} (Suc b) a"
    and "latch_core (nextVersion c 1) (insert t S) {} (Suc b) a"
    using own next_word by (simp_all add: latch_core_def)
qed

lemma core_acqs: "latch_core c S X b a \<Longrightarrow> getState c \<noteq> Locked \<Longrightarrow> a = b"
  by (auto simp: latch_core_def split: if_splits)

lemma core_version: "latch_core c S X b a \<Longrightarrow> unat (versionOf c) = b"
  by (simp add: latch_core_def)

section \<open>Every step keeps the invariant\<close>

lemma cas_True: "cas w v d = (True, c) \<longleftrightarrow> w = v \<and> c = d"
  by (auto simp: cas_def)

lemma cas_weak_True: "cas_weak b w v d = (True, c) \<Longrightarrow> w = v \<and> c = d"
  by (auto simp: cas_weak_def split: if_splits)

lemma tryLockX_True:
  "tryLockX w v = Ret (True, c) \<Longrightarrow> w = v \<and> c = sameVersion v Locked"
  by (simp add: tryLockX_def check_eq_Ret cas_True)

lemma tryMark_True:
  "tryMark w v = Ret (True, c) \<Longrightarrow> w = v \<and> c = sameVersion v Marked"
  by (simp add: tryMark_def check_eq_Ret cas_True)

lemma tryLockS_True:
  assumes "tryLockS w v = (True, c)"
  shows "w = v \<and> (getState v < MaxShared \<and> c = sameVersion v (getState v + 1) \<or>
                   getState v = Marked \<and> c = sameVersion v 1)"
  using assms by (auto simp: tryLockS_def Let_def cas_True split: if_splits)

lemma unlockS_True:
  "unlockS [(v, w)] = Ret c \<Longrightarrow> w = v \<and> c = sameVersion v (getState v - 1)"
  by (auto simp: Let_def check_def cas_def split: if_splits)

lemma guardX_attempt_Took:
  "guardX_attempt v w c0 = Ret (Took c) \<Longrightarrow>
     versionOf w = versionOf v \<and> (getState w = Unlocked \<or> getState w = Marked) \<and>
     c0 = w \<and> c = sameVersion w Locked"
  by (auto simp: guardX_attempt_def shift_version_eq bind_run_eq_Ret dest!: tryLockX_True
      split: if_splits)

lemma checkVersion_True:
  assumes "checkVersion b w v = (True, c)"
  shows "versionOf w = versionOf v \<and> getState w \<noteq> Locked \<and> getState w \<noteq> Invalid \<and>
           (c = w \<or> getState w = Marked \<and> c = sameVersion w Unlocked) \<or> w = v \<and> c = w"
  using assms
  by (auto simp: checkVersion_def Let_def shift_version_eq cas_weak_def split: if_splits)

lemmas latch_ops_True =
  tryLockX_True tryMark_True tryLockS_True unlockS_True cas_weak_True guardX_attempt_Took

lemma latch_inv_release:
  assumes inv: "latch_inv s" and ex: "pcs s t = Exclusive"
    and core: "latch_core c (if \<exists>x. q = Shared x then {t} else {}) {} (Suc (bumps s)) (acqs s)"
    and "snap_ok (Suc (bumps s)) q" and "q \<noteq> Exclusive"
  shows "latch_inv (goto (s\<lparr>cell := c, bumps := Suc (bumps s)\<rparr>) t q)"
proof -
  have "latch_core (cell s) (sharers (pcs s)) (owners (pcs s)) (bumps s) (acqs s)"
    and snaps: "\<forall>u. snap_ok (bumps s) (pcs s u)"
    using inv by (simp_all add: latch_inv_def)
  then have "sharers (pcs s) = {}" and "owners (pcs s) = {t}"
    using core_owner in_owners ex by blast+
  then have "sharers ((pcs s)(t := q)) = (if \<exists>x. q = Shared x then {t} else {})"
    and "owners ((pcs s)(t := q)) = {}"
    using assms(5) by (simp_all add: sharers_upd owners_upd)
  then show ?thesis
    using core snaps assms(4) snap_ok_mono [of "bumps s" _ "Suc (bumps s)"]
    by (simp add: latch_inv_def)
qed

lemma latch_inv_stay:
  assumes inv: "latch_inv s" and "snap_ok (bumps s) q"
    and "(\<exists>x. pcs s t = Shared x) \<longleftrightarrow> (\<exists>x. q = Shared x)" and "pcs s t \<noteq> Exclusive" and "q \<noteq> Exclusive"
  shows "latch_inv (goto s t q)"
proof -
  have "sharers ((pcs s)(t := q)) = sharers (pcs s)" and "owners ((pcs s)(t := q)) = owners (pcs s)"
    using assms(3-5) by (auto simp: sharers_def owners_def)
  then show ?thesis using inv assms(2) by (simp add: latch_inv_def)
qed

lemma latch_inv0: "latch_inv latch0"
proof -
  have "versionOf ps_init = 0"
    unfolding ps_init_def versionOf_sameVersion by (simp add: versionOf_def)
  then show ?thesis
    by (simp add: latch_inv_def latch_core_def latch0_def sharers_def owners_def)
      (simp add: ps_init_def)
qed

lemma invD:
  assumes "latch_inv s"
  shows "latch_core (cell s) (sharers (pcs s)) (owners (pcs s)) (bumps s) (acqs s)"
    and "snap_ok (bumps s) (pcs s t)" and "\<forall>u. snap_ok (bumps s) (pcs s u)"
  using assms by (auto simp: latch_inv_def)

lemma latch_inv_exclusive:
  assumes inv: "latch_inv s" and "pcs s t \<noteq> Exclusive" and "\<And>x. pcs s t \<noteq> Shared x"
    and "getState (cell s) = Unlocked \<or> getState (cell s) = Marked \<or> getState (cell s) = Invalid"
  shows "latch_inv (goto (s\<lparr>cell := sameVersion (cell s) Locked, acqs := Suc (acqs s)\<rparr>) t Exclusive)"
proof -
  note core = core_lock [OF invD(1) [OF inv] assms(4), of t]
  have "sharers ((pcs s)(t := Exclusive)) = sharers (pcs s)" and "owners ((pcs s)(t := Exclusive)) = {t}"
    using core by (auto simp: sharers_upd owners_upd)
  then show ?thesis
    using core invD(3) [OF inv] by (auto simp: latch_inv_def)
qed

lemma latch_inv_word:
  assumes inv: "latch_inv s" and "\<And>x. pcs s t \<noteq> Shared x" and "pcs s t \<noteq> Exclusive"
    and "\<And>x. q \<noteq> Shared x" and "q \<noteq> Exclusive" and "snap_ok (bumps s) q"
    and "latch_core c (sharers (pcs s)) (owners (pcs s)) (bumps s) (acqs s)"
  shows "latch_inv (goto (s\<lparr>cell := c\<rparr>) t q)"
proof -
  have "sharers ((pcs s)(t := q)) = sharers (pcs s)" and "owners ((pcs s)(t := q)) = owners (pcs s)"
    using assms(2-5) by (auto simp: sharers_def owners_def)
  then show ?thesis using inv assms(6,7) by (simp add: latch_inv_def)
qed

theorem lstep_inv:
  assumes "lstep s s'" and inv: "latch_inv s" and bound: "bumps s' < 2 ^ 56"
  shows "latch_inv s'"
  using assms(1)
proof cases
  case (load t)
  have "getState (cell s) \<noteq> Locked \<Longrightarrow> unat (versionOf (cell s)) = acqs s \<and> acqs s \<le> bumps s"
    using core_acqs [OF invD(1) [OF inv]] core_version [OF invD(1) [OF inv]] by simp
  with load inv show ?thesis by (auto intro!: latch_inv_stay)
next
  case (give_up t v a w)
  then show ?thesis using inv by (auto intro!: latch_inv_stay)
next
  case (lock_x t v a c)
  then show ?thesis using latch_inv_exclusive [OF inv, of t] by (auto dest!: tryLockX_True)
next
  case (lock_s t v a c)
  then have t: "t \<notin> sharers (pcs s)" "pcs s t \<noteq> Exclusive" by (auto simp: sharers_def)
  have "latch_core c (insert t (sharers (pcs s))) (owners (pcs s)) (bumps s) (acqs s)"
    using tryLockS_True [OF lock_s(3)] core_share [OF invD(1) [OF inv] _ t(1)]
      core_share_marked [OF invD(1) [OF inv]] by metis
  moreover have "owners ((pcs s)(t := Shared None)) = owners (pcs s)"
    using t(2) by (auto simp: owners_def)
  ultimately show ?thesis
    using lock_s(1) invD(3) [OF inv] by (auto simp: latch_inv_def sharers_upd)
next
  case (mark t v a c)
  then have "cell s = v" and c: "c = sameVersion (cell s) Marked" by (auto dest: tryMark_True)
  then show ?thesis
    using mark core_mark [OF invD(1) [OF inv]] latch_inv_word [OF inv, of t Idle c] by auto
next
  case (unlock_x t c)
  then have own: "t \<in> owners (pcs s)" and c: "c = nextVersion (cell s) Unlocked"
    by (auto simp: in_owners unlockX_def check_eq_Ret)
  have "sharers (pcs s) = {}" using core_owner [OF invD(1) [OF inv] own] by simp
  then show ?thesis
    using unlock_x bound c core_release(1) [OF invD(1) [OF inv] own]
      latch_inv_release [OF inv, of t c Idle] by simp
next
  case (invalidate t c)
  then have own: "t \<in> owners (pcs s)" and c: "c = nextVersion (cell s) Invalid"
    by (auto simp: in_owners unlockXInvalid_def check_eq_Ret)
  have "sharers (pcs s) = {}" using core_owner [OF invD(1) [OF inv] own] by simp
  then show ?thesis
    using invalidate bound c core_release(2) [OF invD(1) [OF inv] own]
      latch_inv_release [OF inv, of t c Idle] by simp
next
  case (downgrade t c)
  then have own: "t \<in> owners (pcs s)" and c: "c = nextVersion (cell s) 1"
    by (auto simp: in_owners downgradeLock_def check_eq_Ret)
  have "sharers (pcs s) = {}" using core_owner [OF invD(1) [OF inv] own] by simp
  then show ?thesis
    using downgrade bound c core_release(3) [OF invD(1) [OF inv] own]
      latch_inv_release [OF inv, of t c "Shared None"] by simp
next
  case (load_s t x)
  have "0 < getState (cell s)" "getState (cell s) \<le> MaxShared"
    using core_unshare(2,3) [OF invD(1) [OF inv] in_sharers [of "pcs s" t, OF load_s(2)]] .
  with load_s inv show ?thesis by (auto intro!: latch_inv_stay)
next
  case (unlock_s t v c)
  then have "cell s = v" and c: "c = sameVersion (cell s) (getState (cell s) - 1)"
    by (blast dest: unlockS_True)+
  have "owners ((pcs s)(t := Idle)) = owners (pcs s)"
    using unlock_s(2) by (auto simp: owners_def)
  then show ?thesis
    using unlock_s core_unshare(1) [OF invD(1) [OF inv] in_sharers [of "pcs s" t, OF unlock_s(2)]]
      invD(3) [OF inv] by (auto simp: latch_inv_def sharers_upd c)
next
  case (upgrade_s t v b c)
  then have "cell s = v" and c: "c = sameVersion (cell s) Locked" by (auto dest: cas_weak_True)
  then have "latch_core c (sharers (pcs s) - {t}) {t} (bumps s) (Suc (acqs s)) \<and> owners (pcs s) = {}"
    using core_upgrade [OF invD(1) [OF inv] _ in_sharers [of "pcs s" t, OF upgrade_s(2)]] upgrade_s(3)
    by simp
  then show ?thesis using upgrade_s(1) invD(3) [OF inv]
    by (auto simp: latch_inv_def sharers_upd owners_upd)
next
  case (read t v a)
  moreover have "getState v \<noteq> Locked" using read(3) by auto
  ultimately show ?thesis using inv invD(2) [OF inv, of t] by (auto intro!: latch_inv_stay)
next
  case (read_marked t v a b c)
  then have "cell s = v" and c: "c = sameVersion (cell s) Unlocked" by (auto dest: cas_weak_True)
  then show ?thesis
    using read_marked core_unmark [OF invD(1) [OF inv]] invD(2) [OF inv, of t]
      latch_inv_word [OF inv, of t "Reading c a" c] by auto
next
  case (validate t v a b c)
  have "c = cell s \<or> getState (cell s) = Marked \<and> c = sameVersion (cell s) Unlocked"
    using checkVersion_True [OF validate(3)] by auto
  then show ?thesis
    using validate(1) inv core_unmark [OF invD(1) [OF inv]] by (auto simp: latch_inv_def)
next
  case (up_load t v a)
  then show ?thesis using inv invD(2) [OF inv, of t] by (auto intro!: latch_inv_stay)
next
  case (up_lock t v a w c)
  then show ?thesis using latch_inv_exclusive [OF inv, of t] by (auto dest!: guardX_attempt_Took)
next
  case (up_again t v a w)
  then show ?thesis using inv invD(2) [OF inv, of t] by (auto intro!: latch_inv_stay)
qed

lemma lstep_bumps: "lstep s s' \<Longrightarrow> bumps s \<le> bumps s'"
  by (auto elim!: lstep.cases)

lemma reach_inv: "reach s \<Longrightarrow> bumps s < 2 ^ 56 \<Longrightarrow> latch_inv s"
proof (induction rule: reach.induct)
  case start
  show ?case by (rule latch_inv0)
next
  case (step s s')
  then have "bumps s < 2 ^ 56" using lstep_bumps [of s s'] by simp
  then show ?case using step lstep_inv by blast
qed

section \<open>What the protocol guarantees\<close>

text \<open>
  C7: mutual exclusion. While a thread holds the exclusive lock no other thread holds the
  exclusive or a shared lock, in every state reached with fewer than \<open>2 ^ 56\<close> version
  increments and whatever the interleaving of loads and compare-and-swaps.
\<close>

theorem mutual_exclusion:
  assumes "reach s" and "bumps s < 2 ^ 56" and "pcs s t = Exclusive" and "u \<noteq> t"
  shows "pcs s u \<noteq> Exclusive \<and> (\<forall>x. pcs s u \<noteq> Shared x)"
proof -
  note core = invD(1) [OF reach_inv [OF assms(1,2)]]
  have "sharers (pcs s) = {}" and "owners (pcs s) = {t}"
    using core_owner [OF core] assms(3) in_owners by blast+
  then show ?thesis using assms(4) by (auto simp: sharers_def owners_def)
qed

text \<open>
  C24: the assertions of the release operations hold. A thread that holds the exclusive lock
  finds the state \<open>Locked\<close> in \<open>unlockX\<close>, \<open>unlockXInvalid\<close> and
  \<open>downgradeLock\<close>, and a shared holder finds a state between 1 and 252 in every
  iteration of \<open>unlockS\<close>, even when its loaded word is stale.
\<close>

theorem release_asserts_hold:
  assumes "reach s" and "bumps s < 2 ^ 56"
  shows "(pcs s t = Exclusive \<longrightarrow>
            unlockX (cell s) = Ret (nextVersion (cell s) Unlocked) \<and>
            unlockXInvalid (cell s) = Ret (nextVersion (cell s) Invalid) \<and>
            downgradeLock (cell s) = Ret (nextVersion (cell s) 1)) \<and>
         (\<forall>v. pcs s t = Shared (Some v) \<longrightarrow> unlockS [(v, cell s)] \<noteq> Err e)"
proof (intro conjI impI allI)
  note inv = reach_inv [OF assms]
  {
    assume "pcs s t = Exclusive"
    then have "getState (cell s) = Locked" using core_owner [OF invD(1) [OF inv]] in_owners by blast
    then show "unlockX (cell s) = Ret (nextVersion (cell s) Unlocked)"
      and "unlockXInvalid (cell s) = Ret (nextVersion (cell s) Invalid)"
      and "downgradeLock (cell s) = Ret (nextVersion (cell s) 1)"
      by (simp_all add: unlockX_def unlockXInvalid_def downgradeLock_def)
  next
    fix v assume "pcs s t = Shared (Some v)"
    then have "0 < getState v \<and> getState v \<le> MaxShared" using invD(2) [OF inv, of t] by simp
    then show "unlockS [(v, cell s)] \<noteq> Err e" by (simp add: Let_def split: prod.split bool.split)
  }
qed

text \<open>
  C22: optimistic reads are consistent. If a thread holds an optimistic guard whose snapshot
  was loaded after \<open>a\<close> exclusive acquisitions, and its version check passes, then no
  exclusive lock has been acquired since that load: whatever the thread read in between was
  written by nobody.
\<close>

theorem validated_read_consistent:
  assumes "reach s" and "bumps s < 2 ^ 56" and "pcs s t = Reading v a"
    and "checkVersion b (cell s) v = (True, c)"
  shows "acqs s = a \<and> versionOf c = versionOf v"
proof -
  note inv = reach_inv [OF assms(1,2)]
  have v: "unat (versionOf v) = a" "getState v \<le> MaxShared"
    using invD(2) [OF inv, of t] assms(3) by auto
  then have "getState v \<noteq> Locked" by auto
  then have ok: "versionOf (cell s) = versionOf v" "getState (cell s) \<noteq> Locked" "versionOf c = versionOf v"
    using checkVersion_True [OF assms(4)] by auto
  then show ?thesis
    using core_acqs [OF invD(1) [OF inv]] core_version [OF invD(1) [OF inv]] v by simp
qed

text \<open>
  C23: an optimistic guard upgrades without losing an update. When \<open>GuardX\<close> is
  constructed from an optimistic guard and takes the lock, no exclusive lock was acquired
  between the guard's load and the upgrade, and the word is locked under the same version.
\<close>

theorem upgraded_read_consistent:
  assumes "reach s" and "bumps s < 2 ^ 56" and "pcs s t = Upgrading v a w"
    and "guardX_attempt v w (cell s) = Ret (Took c)"
  shows "acqs s = a \<and> getState c = Locked \<and> versionOf c = versionOf v"
proof -
  note inv = reach_inv [OF assms(1,2)]
  have v: "unat (versionOf v) = a" using invD(2) [OF inv, of t] assms(3) by auto
  have w: "versionOf w = versionOf v" "cell s = w" "c = sameVersion w Locked"
    "getState w = Unlocked \<or> getState w = Marked"
    using guardX_attempt_Took [OF assms(4)] by auto
  then have "getState (cell s) \<noteq> Locked" by auto
  then show ?thesis
    using core_acqs [OF invD(1) [OF inv]] core_version [OF invD(1) [OF inv]] v w by simp
qed

section \<open>A run of the protocol\<close>

text \<open>
  Thread 0 allocates the page (locks the invalid word) and releases it, thread 1 loads the
  word and reads optimistically, then starts to upgrade. The states of this run are the
  inputs of the witnesses.
\<close>

definition run_w1 :: u64 where "run_w1 = sameVersion ps_init Locked"
definition run_w2 :: u64 where "run_w2 = nextVersion run_w1 Unlocked"

definition run1 :: latch where
  "run1 = goto (latch0\<lparr>cell := run_w1, acqs := 1\<rparr>) 0 Exclusive"
definition run2 :: latch where
  "run2 = goto (run1\<lparr>cell := run_w2, bumps := 1\<rparr>) 0 Idle"
definition run3 :: latch where "run3 = goto run2 1 (Reading run_w2 1)"
definition run4 :: latch where "run4 = goto run3 1 (Upgrading run_w2 1 run_w2)"

lemma run_words:
  "getState ps_init = Invalid" "getState run_w1 = Locked" "getState run_w2 = Unlocked"
  by (simp_all add: ps_init_def run_w1_def run_w2_def sameVersion_def nextVersion_def
      getState_def)

lemma reach_run1: "reach run1"
proof -
  have "reach (goto latch0 0 (Seen ps_init 0))"
    using reach.step [OF reach.start lstep.load [of latch0 0]] by (simp add: latch0_def)
  moreover have "lstep (goto latch0 0 (Seen ps_init 0)) run1"
    using lstep.lock_x [of "goto latch0 0 (Seen ps_init 0)" 0 ps_init 0 run_w1]
    by (simp add: run_words tryLockX_def run_w1_def run1_def latch0_def)
  ultimately show ?thesis by (rule reach.step)
qed

lemma reach_run2: "reach run2"
proof -
  have "lstep run1 run2"
    using lstep.unlock_x [of run1 0 run_w2]
    by (simp add: run_words unlockX_def run_w2_def run2_def run1_def latch0_def)
  then show ?thesis using reach_run1 reach.step by blast
qed

lemma reach_run3: "reach run3"
proof -
  have "reach (goto run2 1 (Seen run_w2 1))"
    using reach.step [OF reach_run2 lstep.load [of run2 1]]
    by (simp add: run2_def run1_def latch0_def)
  moreover have "lstep (goto run2 1 (Seen run_w2 1)) run3"
    using lstep.read [of "goto run2 1 (Seen run_w2 1)" 1 run_w2 1]
    by (simp add: run_words run3_def)
  ultimately show ?thesis by (rule reach.step)
qed

lemma reach_run4: "reach run4"
proof -
  have "lstep run3 run4"
    using lstep.up_load [of run3 1 run_w2 1] by (simp add: run4_def run3_def run2_def)
  then show ?thesis using reach_run3 reach.step by blast
qed

lemmas run_defs = run4_def run3_def run2_def run1_def latch0_def

theorem mutual_exclusion_witness:
  "pcs run1 0 = Exclusive \<and> pcs run1 1 \<noteq> Exclusive \<and> (\<forall>x. pcs run1 1 \<noteq> Shared x)"
  using mutual_exclusion [OF reach_run1, of 0 1] by (simp add: run_defs)

theorem release_asserts_hold_witness: "unlockX (cell run1) = Ret run_w2"
  using release_asserts_hold [OF reach_run1, of 0] by (simp add: run_defs run_w2_def)

theorem validated_read_consistent_witness:
  "checkVersion False (cell run3) run_w2 = (True, run_w2) \<and> acqs run3 = 1"
proof -
  have *: "checkVersion False (cell run3) run_w2 = (True, run_w2)"
    by (simp add: run_defs checkVersion_def)
  show ?thesis
    using validated_read_consistent [OF reach_run3, of 1 run_w2 1 False run_w2] *
    by (simp add: run_defs)
qed

theorem upgraded_read_consistent_witness:
  "guardX_attempt run_w2 run_w2 (cell run4) = Ret (Took (sameVersion run_w2 Locked)) \<and> acqs run4 = 1"
proof -
  have *: "guardX_attempt run_w2 run_w2 (cell run4) = Ret (Took (sameVersion run_w2 Locked))"
    by (simp add: run_defs guardX_attempt_def run_words tryLockX_def)
  show ?thesis
    using upgraded_read_consistent [OF reach_run4, of 1 run_w2 1 run_w2 "sameVersion run_w2 Locked"] *
    by (simp add: run_defs)
qed

end
