(* ===== verification/Guards.thy ===== *)
theory Guards
  imports Pool_Shape Lock_Protocol
begin

text \<open>
  The guards of \<open>guards.hpp\<close> as objects on the state of the pool: optimistic (\<open>GuardO\<close>),
  exclusive (\<open>GuardX\<close>, \<open>AllocGuard\<close>) and shared (\<open>GuardS\<close>). A guard that does not hold a page has
  the page id \<open>moved\<close>. The exception \<open>OLCRestartException\<close> is the result \<open>None\<close>. One iteration of
  \<open>GuardO::init\<close> is a function of what the thread reads in it, so that it can be used for a thread
  that runs alone and for one that runs beside others.
\<close>

section \<open>Optimistic guards\<close>

abbreviation moved :: PID where "moved \<equiv> pid_none"

record guardO =
  o_pid :: PID
  o_hash :: u64
  o_ptr :: "nat option"
  o_version :: u64
  o_bf :: "fref option"
  allowPromotion :: bool

text \<open>
  What an iteration reads after \<open>ht.access\<close> has returned a frame and its state word: the flag
  and the page of the frame, the word at the compare-and-swap, and whether that fails spuriously.
\<close>

record observed =
  obs_bf :: fref
  obs_version :: u64
  obs_slot :: bool
  obs_page :: "nat option"
  obs_word :: u64
  obs_weak :: bool

datatype turn = Done guardO u64 | Next guardO

text \<open>One iteration of the loop of \<open>init\<close>. \<open>Done\<close> has the guard and the word of the latch after it.\<close>

definition init_turn :: "bool \<Rightarrow> observed \<Rightarrow> guardO \<Rightarrow> turn" where
  "init_turn blockPromotion ob g =
     (let version = obs_version ob; state = getState version;
          g = g\<lparr>o_bf := Some (obs_bf ob), o_version := version\<rparr>
      in if state = Unlocked \<and> obs_slot ob then Done g (obs_word ob)
         else if state = Marked then
           (case obs_page ob of
              None \<Rightarrow> Next g
            | Some x \<Rightarrow>
                let g = g\<lparr>o_ptr := Some x\<rparr>; newV = sameVersion version Unlocked
                in case cas_weak (obs_weak ob) (obs_word ob) version newV of
                     (True, c) \<Rightarrow> Done (g\<lparr>o_version := newV\<rparr>) c
                   | (False, _) \<Rightarrow> Next g)
         else if state = Invalid \<or> state = Locked then Next g
         else
           let g = g\<lparr>allowPromotion := \<not> blockPromotion\<rparr> in
           (case obs_page ob of
              None \<Rightarrow> Next g
            | Some x \<Rightarrow> Done (g\<lparr>o_ptr := Some x\<rparr>) (obs_word ob)))"

text \<open>\<open>init\<close> of a thread that runs alone. A page that is not resident is read, and released at once.\<close>

fun guardO_init :: "nat \<Rightarrow> nat \<Rightarrow> bool \<Rightarrow> guardO \<Rightarrow> bm \<Rightarrow> (guardO \<times> bm) run" where
  "guardO_init ffuel 0 blockPromotion g s = Loop"
| "guardO_init ffuel (Suc fuel) blockPromotion g s =
     bind_run (bm_access (o_pid g) (o_hash g) s) (\<lambda>((bf, version), s).
       case bf of
         None \<Rightarrow> bind_run (handleFault ffuel (o_pid g) s) (\<lambda>(bf, s).
           case bf of
             None \<Rightarrow> guardO_init ffuel fuel blockPromotion g s
           | Some r \<Rightarrow> bind_run (unlockX (bstate (bf_at s r))) (\<lambda>w.
               guardO_init ffuel fuel True g (upd_bf r (\<lambda>bf. bf\<lparr>bstate := w\<rparr>) s)))
       | Some r \<Rightarrow>
           let (weak, s) = (if getState version = Marked \<and> bpage (bf_at s r) \<noteq> None then next_weak s else (False, s));
               ob = \<lparr>obs_bf = r, obs_version = version, obs_slot = intendedSlot (bf_at s r),
                     obs_page = bpage (bf_at s r), obs_word = bstate (bf_at s r), obs_weak = weak\<rparr>
           in case init_turn blockPromotion ob g of
                Done g w \<Rightarrow> Ret (g, upd_bf r (\<lambda>bf. bf\<lparr>bstate := w\<rparr>) s)
              | Next g \<Rightarrow> guardO_init ffuel fuel blockPromotion g s)"

definition guardO_fresh :: "PID \<Rightarrow> bm \<Rightarrow> guardO" where
  "guardO_fresh pid s = \<lparr>o_pid = pid, o_hash = bm_hash s pid, o_ptr = Some (intended s pid), o_version = 0,
     o_bf = None, allowPromotion = False\<rparr>"

definition guardO_new :: "nat \<Rightarrow> nat \<Rightarrow> PID \<Rightarrow> bm \<Rightarrow> (guardO \<times> bm) run" where
  "guardO_new ffuel fuel pid s =
     check (pid \<le> frameCount s) ''pid <= bm.frameCount''
       (check (pid \<noteq> moved) ''pid != moved'' (guardO_init ffuel fuel False (guardO_fresh pid s) s))"

text \<open>\<open>checkVersionAndRestart\<close>, outside of the handling of an exception.\<close>

definition guardO_check :: "guardO \<Rightarrow> bm \<Rightarrow> (bool \<times> bm) run" where
  "guardO_check g s =
     (if o_pid g = moved then Ret (True, s)
      else case o_bf g of
        None \<Rightarrow> Err (Fatal ''null frame'')
      | Some r \<Rightarrow>
          let cur = bstate (bf_at s r);
              (weak, s) = (if o_version g \<noteq> cur \<and> push_bit 8 cur = push_bit 8 (o_version g) \<and> getState cur = Marked
                           then next_weak s else (False, s))
          in case checkVersion weak cur (o_version g) of
               (ok, w) \<Rightarrow> Ret (ok, upd_bf r (\<lambda>bf. bf\<lparr>bstate := w\<rparr>) s))"

text \<open>The constructor for a child checks the parent first; it has no assertion on the page id.\<close>

definition guardO_child :: "nat \<Rightarrow> nat \<Rightarrow> PID \<Rightarrow> guardO \<Rightarrow> bm \<Rightarrow> (guardO option \<times> bm) run" where
  "guardO_child ffuel fuel pid parent s =
     bind_run (guardO_check parent s) (\<lambda>(ok, s).
       if \<not> ok then Ret (None, s)
       else check (pid \<noteq> moved) ''pid != moved''
         (bind_run (guardO_init ffuel fuel False (guardO_fresh pid s) s) (\<lambda>(g, s). Ret (Some g, s))))"

definition optimistic_dice :: "bm \<Rightarrow> bool \<times> bm" where
  "optimistic_dice s = (case draw s of (w, s) \<Rightarrow> (decidePromotionOptimistic (promo_cfg s) w, s))"

text \<open>The destructor; \<open>release\<close> does the same and then clears the guard.\<close>

definition guardO_close :: "nat \<Rightarrow> guardO \<Rightarrow> bm \<Rightarrow> (unit option \<times> bm) run" where
  "guardO_close fuel g s =
     bind_run (guardO_check g s) (\<lambda>(ok, s).
       if \<not> ok then Ret (None, s)
       else if o_pid g \<noteq> moved \<and> (\<exists>r. o_bf g = Some r \<and> isInlined r) \<and> allowPromotion g then
         (case optimistic_dice s of (d, s) \<Rightarrow>
            if d then bind_run (tryPromote fuel (o_pid g) s) (\<lambda>s. Ret (Some (), s)) else Ret (Some (), s))
       else Ret (Some (), s))"

definition guardO_release :: "nat \<Rightarrow> guardO \<Rightarrow> bm \<Rightarrow> (guardO option \<times> bm) run" where
  "guardO_release fuel g s =
     bind_run (guardO_close fuel g s) (\<lambda>(ok, s).
       Ret (map_option (\<lambda>_. g\<lparr>o_pid := moved, o_ptr := None\<rparr>) ok, s))"

text \<open>Move assignment: the old page is validated, counted and perhaps promoted; the second guard is
  the source after the move.\<close>

definition guardO_clear :: "guardO \<Rightarrow> guardO" where
  "guardO_clear g = g\<lparr>o_pid := moved, o_ptr := None, o_bf := None, o_hash := 0, allowPromotion := False\<rparr>"

definition guardO_move :: "nat \<Rightarrow> guardO \<Rightarrow> guardO \<Rightarrow> bm \<Rightarrow> ((guardO \<times> guardO) option \<times> bm) run" where
  "guardO_move fuel g other s =
     (if o_pid g = moved then Ret (Some (other, guardO_clear other), s)
      else bind_run (guardO_check g s) (\<lambda>(ok, s).
        if \<not> ok then Ret (None, s)
        else
          let cls = classOf (o_hash g);
              hit = (\<exists>r. o_bf g = Some r \<and> intendedSlot (bf_at s r))
          in bind_run (if enabled (cbp_state s) then bm_noteAccess cls hit s else Ret s) (\<lambda>s.
             bind_run (if enabled (cbp_state s) then bm_decideForClass cls s else Ret (optimistic_dice s)) (\<lambda>(d, s).
             bind_run (if allowPromotion g \<and> (\<exists>r. o_bf g = Some r \<and> isInlined r) \<and> d then
                 bind_run (if enabled (cbp_state s) then bm_noteAttempt cls s else Ret s) (tryPromote fuel (o_pid g))
               else Ret s) (\<lambda>s.
             Ret (Some (other, guardO_clear other), s))))))"

text \<open>The move constructor leaves its source as it is.\<close>

definition guardO_move_new :: "guardO \<Rightarrow> guardO \<times> guardO" where
  "guardO_move_new other = (other\<lparr>allowPromotion := False\<rparr>, other)"

section \<open>Exclusive and shared guards\<close>

record guard =
  g_pid :: PID
  g_ptr :: "nat option"
  g_bf :: "fref option"

definition guard_empty :: guard where
  "guard_empty = \<lparr>g_pid = moved, g_ptr = None, g_bf = None\<rparr>"

definition set_dirty :: "nat \<Rightarrow> bm \<Rightarrow> bm run" where
  "set_dirty x s = upd_page x (\<lambda>c. c\<lparr>dirty := True\<rparr>) s"

definition guardX_new :: "nat \<Rightarrow> nat \<Rightarrow> PID \<Rightarrow> bm \<Rightarrow> (guard \<times> bm) run" where
  "guardX_new ffuel fuel pid s =
     bind_run (fixX ffuel fuel pid s) (\<lambda>(r, s).
     bind_run (page_of s r) (\<lambda>x.
     bind_run (set_dirty x s) (\<lambda>s.
     Ret (\<lparr>g_pid = pid, g_ptr = Some x, g_bf = Some r\<rparr>, s))))"

definition guardS_new :: "nat \<Rightarrow> nat \<Rightarrow> PID \<Rightarrow> bm \<Rightarrow> (guard \<times> bm) run" where
  "guardS_new ffuel fuel pid s =
     bind_run (fixS ffuel fuel pid s) (\<lambda>(r, s).
     bind_run (page_of s r) (\<lambda>x.
     Ret (\<lparr>g_pid = pid, g_ptr = Some x, g_bf = Some r\<rparr>, s)))"

definition the_ref :: "'a option \<Rightarrow> 'a run" where
  "the_ref x = (case x of None \<Rightarrow> Err (Fatal ''null pointer'') | Some a \<Rightarrow> Ret a)"

text \<open>\<open>GuardX(GuardO&&)\<close>, with fuel for its loop: the lock is taken under the version of the
  optimistic guard, which is cleared, or the operation restarts.\<close>

definition guardO_taken :: "guardO \<Rightarrow> guardO" where
  "guardO_taken g = g\<lparr>o_pid := moved, o_ptr := None, o_bf := None\<rparr>"

fun guardX_upgrade_loop :: "nat \<Rightarrow> guardO \<Rightarrow> bm \<Rightarrow> ((guard \<times> guardO) option \<times> bm) run" where
  "guardX_upgrade_loop 0 g s = Loop"
| "guardX_upgrade_loop (Suc fuel) g s =
     bind_run (the_ref (o_bf g)) (\<lambda>r.
     bind_run (guardX_attempt (o_version g) (bstate (bf_at s r)) (bstate (bf_at s r))) (\<lambda>u.
       case u of
         Restart \<Rightarrow> Ret (None, s)
       | Again \<Rightarrow> guardX_upgrade_loop fuel g s
       | Took w \<Rightarrow>
           bind_run (the_ref (o_ptr g)) (\<lambda>x.
           bind_run (set_dirty x (upd_bf r (\<lambda>bf. bf\<lparr>bstate := w\<rparr>) s)) (\<lambda>s.
           Ret (Some (\<lparr>g_pid = o_pid g, g_ptr = Some x, g_bf = Some r\<rparr>, guardO_taken g), s)))))"

definition guardX_upgrade :: "nat \<Rightarrow> guardO \<Rightarrow> bm \<Rightarrow> ((guard \<times> guardO) option \<times> bm) run" where
  "guardX_upgrade fuel g s = check (o_pid g \<noteq> moved) ''other.pid != moved'' (guardX_upgrade_loop fuel g s)"

definition guardS_upgrade :: "guardO \<Rightarrow> bm \<Rightarrow> ((guard \<times> guardO) option \<times> bm) run" where
  "guardS_upgrade g s =
     check (o_pid g \<noteq> moved) ''other.pid != moved''
       (bind_run (the_ref (o_bf g)) (\<lambda>r.
          case tryLockS (bstate (bf_at s r)) (o_version g) of
            (True, w) \<Rightarrow> Ret (Some (\<lparr>g_pid = o_pid g, g_ptr = o_ptr g, g_bf = Some r\<rparr>, guardO_taken g),
                            upd_bf r (\<lambda>bf. bf\<lparr>bstate := w\<rparr>) s)
          | (False, _) \<Rightarrow> Ret (None, s)))"

text \<open>The destructors.\<close>

definition guardX_close :: "nat \<Rightarrow> guard \<Rightarrow> bm \<Rightarrow> bm run" where
  "guardX_close fuel g s = (if g_pid g = moved then Ret s else bind_run (the_ref (g_bf g)) (\<lambda>r. unfixX fuel r s))"

definition guardS_close :: "nat \<Rightarrow> guard \<Rightarrow> bm \<Rightarrow> bm run" where
  "guardS_close fuel g s = (if g_pid g = moved then Ret s else bind_run (the_ref (g_bf g)) (\<lambda>r. unfixS fuel r s))"

text \<open>\<open>GuardX::release\<close> looks at the pointer as well; \<open>isValidPtr\<close> allows 16 frames past the end.\<close>

definition isValidPtr :: "bm \<Rightarrow> nat option \<Rightarrow> bool" where
  "isValidPtr s ptr = (case ptr of None \<Rightarrow> False | Some x \<Rightarrow> x < unat (frameCount s) + 16)"

definition guardX_release :: "nat \<Rightarrow> guard \<Rightarrow> bm \<Rightarrow> (guard \<times> bm) run" where
  "guardX_release fuel g s =
     (if g_pid g \<noteq> moved \<and> isValidPtr s (g_ptr g) then
        bind_run (guardX_close fuel g s) (\<lambda>s. Ret (g\<lparr>g_pid := moved\<rparr>, s))
      else Ret (g, s))"

definition guardS_release :: "nat \<Rightarrow> guard \<Rightarrow> bm \<Rightarrow> (guard \<times> bm) run" where
  "guardS_release fuel g s =
     (if g_pid g \<noteq> moved then bind_run (guardS_close fuel g s) (\<lambda>s. Ret (g\<lparr>g_pid := moved\<rparr>, s)) else Ret (g, s))"

text \<open>Move assignment of an exclusive or shared guard.\<close>

definition guardX_move :: "nat \<Rightarrow> guard \<Rightarrow> guard \<Rightarrow> bm \<Rightarrow> ((guard \<times> guard) \<times> bm) run" where
  "guardX_move fuel g other s = bind_run (guardX_close fuel g s) (\<lambda>s. Ret ((other, guard_empty), s))"

definition guardS_move :: "nat \<Rightarrow> guard \<Rightarrow> guard \<Rightarrow> bm \<Rightarrow> ((guard \<times> guard) \<times> bm) run" where
  "guardS_move fuel g other s = bind_run (guardS_close fuel g s) (\<lambda>s. Ret ((other, guard_empty), s))"

text \<open>
  The move constructor of \<open>GuardS\<close> looks at its own page id before it is initialised: what is
  in that memory is the argument \<open>junk\<close>.
\<close>

definition guardS_move_new :: "nat \<Rightarrow> guard \<Rightarrow> guard \<Rightarrow> bm \<Rightarrow> ((guard \<times> guard) \<times> bm) run" where
  "guardS_move_new fuel junk other s = guardS_move fuel junk other s"

text \<open>\<open>AllocGuard\<close>: the constructor of \<open>T\<close> runs in place and gives the page its content.\<close>

definition allocGuard :: "nat \<Rightarrow> (u8 list \<Rightarrow> u8 list) \<Rightarrow> bm \<Rightarrow> (guard \<times> bm) run" where
  "allocGuard fuel T s =
     bind_run (allocPage fuel s) (\<lambda>(r, s).
     bind_run (page_of s r) (\<lambda>x.
     bind_run (upd_page x (\<lambda>c. c\<lparr>body := T (body c)\<rparr>) s) (\<lambda>s.
     Ret (\<lparr>g_pid = bpid (bf_at s r), g_ptr = Some x, g_bf = Some r\<rparr>, s))))"

text \<open>Access through a guard, with the assertion of \<open>operator->\<close>.\<close>

definition o_read :: "guardO \<Rightarrow> bm \<Rightarrow> u8 list run" where
  "o_read g s = check (o_pid g \<noteq> moved) ''pid != moved''
     (bind_run (the_ref (o_ptr g)) (\<lambda>x. bind_run (aget (virtMem s) x) (\<lambda>c. Ret (body c))))"

definition g_read :: "guard \<Rightarrow> bm \<Rightarrow> u8 list run" where
  "g_read g s = check (g_pid g \<noteq> moved) ''pid != moved''
     (bind_run (the_ref (g_ptr g)) (\<lambda>x. bind_run (aget (virtMem s) x) (\<lambda>c. Ret (body c))))"

definition g_write :: "guard \<Rightarrow> u8 list \<Rightarrow> bm \<Rightarrow> bm run" where
  "g_write g b s = check (g_pid g \<noteq> moved) ''pid != moved''
     (bind_run (the_ref (g_ptr g)) (\<lambda>x. upd_page x (\<lambda>c. c\<lparr>body := b\<rparr>) s))"

section \<open>A pointer from an earlier iteration\<close>

text \<open>The loop of \<open>init\<close> over what its iterations see, beside other threads.\<close>

fun init_run :: "bool \<Rightarrow> observed list \<Rightarrow> guardO \<Rightarrow> (guardO \<times> u64) option" where
  "init_run blockPromotion [] g = None"
| "init_run blockPromotion (ob # obs) g =
     (case init_turn blockPromotion ob g of Done g w \<Rightarrow> Some (g, w) | Next g \<Rightarrow> init_run blockPromotion obs g)"

text \<open>
  C40: an optimistic guard can keep the pointer of an iteration that failed. The first iteration
  finds the page marked in frame \<open>x\<close>, stores that pointer, and loses its compare-and-swap to a
  thread that locks the page, promotes it into its preferred frame and unlocks it under the next
  version. The second iteration finds the page unlocked in its preferred frame and returns
  at once, with the old pointer and the new version: every later check of the version succeeds,
  although the guard reads a frame that has been given back.
\<close>

theorem init_keeps_old_pointer:
  assumes v1: "getState v = Marked" and lock: "tryLockX v v = Ret (True, locked)" and unlock: "unlockX locked = Ret w"
    and low: "unat (versionOf v) + 1 < 2 ^ 56"
  shows "\<exists>g'. init_run False
      [\<lparr>obs_bf = r, obs_version = v, obs_slot = False, obs_page = Some x, obs_word = w, obs_weak = False\<rparr>,
       \<lparr>obs_bf = r, obs_version = w, obs_slot = True, obs_page = Some y, obs_word = w, obs_weak = False\<rparr>] g = Some (g', w) \<and>
    o_ptr g' = Some x \<and> checkVersion weak w (o_version g') = (True, w)"
proof -
  have l: "versionOf locked = versionOf v"
    using v1 lock tryLockX_self [of v] by auto
  have un: "getState w = Unlocked" using unlock_low [OF unlock] low by (simp add: l)
  have "w \<noteq> v" using un v1 by auto
  then show ?thesis using v1 un by (simp add: init_turn_def Let_def cas_weak_def checkVersion_def)
qed

theorem init_keeps_old_pointer_witness:
  "\<exists>v w g'. getState v = Marked \<and> init_run False
      [\<lparr>obs_bf = Head 0, obs_version = v, obs_slot = False, obs_page = Some 9, obs_word = w, obs_weak = False\<rparr>,
       \<lparr>obs_bf = Head 0, obs_version = w, obs_slot = True, obs_page = Some 4, obs_word = w, obs_weak = False\<rparr>]
      \<lparr>o_pid = 7, o_hash = 4, o_ptr = Some 4, o_version = 0, o_bf = None, allowPromotion = False\<rparr> = Some (g', w) \<and> o_ptr g' = Some 9"
proof -
  define v where "v = sameVersion 5 Marked"
  have v: "getState v = Marked" "versionOf v = 5" by (simp_all add: v_def) (simp add: versionOf_def sameVersion_def)
  have lk: "tryLockX v v = Ret (True, sameVersion v Locked)" using tryLockX_self [of v] v(1) by simp
  obtain w where w: "unlockX (sameVersion v Locked) = Ret w" by (simp add: unlockX_def)
  have "unat (versionOf v) + 1 < 2 ^ 56" using v(2) by simp
  from init_keeps_old_pointer [OF v(1) lk w this, of "Head 0" 9 4
      "\<lparr>o_pid = 7, o_hash = 4, o_ptr = Some 4, o_version = 0, o_bf = None, allowPromotion = False\<rparr>" False]
  show ?thesis using v(1) by blast
qed

end
