(* ===== verification/Pool_Sessions.thy ===== *)
theory Pool_Sessions
  imports Guards
begin

text \<open>
  What a client sees. It opens a guard on a page, reads or writes the content, and closes the
  guard, or it allocates a page. With enough fuel every such session returns, and a history of
  sessions gives the answers of a map from page ids to contents.
\<close>

section \<open>More fuel gives the same result\<close>

definition mono_run :: "(nat \<Rightarrow> 'a run) \<Rightarrow> bool" where
  "mono_run m \<longleftrightarrow> (\<forall>a b. a \<le> b \<longrightarrow> m a \<noteq> Loop \<longrightarrow> m b = m a)"

named_theorems mono_intros \<open>rules for more fuel\<close>

lemma mono_const [mono_intros]: "mono_run (\<lambda>_. m)"
  by (simp add: mono_run_def)

lemma mono_bind [mono_intros]:
  assumes "mono_run m" and "\<And>a. mono_run (\<lambda>n. k n a)"
  shows "mono_run (\<lambda>n. bind_run (m n) (k n))"
  unfolding mono_run_def
proof (intro allI impI)
  fix a b :: nat assume ab: "a \<le> b" and l: "bind_run (m a) (k a) \<noteq> Loop"
  then have "m a \<noteq> Loop" by auto
  then have m: "m b = m a" using assms(1) ab by (auto simp: mono_run_def)
  show "bind_run (m b) (k b) = bind_run (m a) (k a)"
  proof (cases "m a")
    case (Ret x)
    then have "k b x = k a x" using assms(2) [of x] ab l by (auto simp: mono_run_def)
    then show ?thesis using m Ret by simp
  qed (use m l in simp_all)
qed

lemma mono_if [mono_intros]: "mono_run f \<Longrightarrow> mono_run g \<Longrightarrow> mono_run (\<lambda>n. if c then f n else g n)"
  by (cases c) simp_all

lemma mono_option [mono_intros]:
  "mono_run f \<Longrightarrow> (\<And>a. mono_run (\<lambda>n. g n a)) \<Longrightarrow> mono_run (\<lambda>n. case x of None \<Rightarrow> f n | Some a \<Rightarrow> g n a)"
  by (cases x) simp_all

lemma mono_check [mono_intros]: "mono_run f \<Longrightarrow> mono_run (\<lambda>n. check b msg (f n))"
  by (simp add: check_def mono_run_def)

text \<open>A loop that calls itself with one unit of fuel less.\<close>

lemma mono_SucI:
  assumes "m 0 = Loop" and "mono_run (\<lambda>n. m (Suc n))"
  shows "mono_run m"
  unfolding mono_run_def
proof (intro allI impI)
  fix a b :: nat assume "a \<le> b" "m a \<noteq> Loop"
  then obtain a' b' where "a = Suc a'" "b = Suc b'" "a' \<le> b'" using assms(1) by (cases a; cases b) auto
  then show "m b = m a" using assms(2) \<open>m a \<noteq> Loop\<close> by (simp add: mono_run_def)
qed

lemma mono_getFree [mono_intros]: "mono_run (\<lambda>n. getFreePageHTCache n p s)"
proof -
  have "getFreePageHTCache a p s \<noteq> Loop \<Longrightarrow> a \<le> b \<Longrightarrow> getFreePageHTCache b p s = getFreePageHTCache a p s" for a b s
  proof (induction a arbitrary: b s)
    case (Suc a)
    then obtain b' where b: "b = Suc b'" "a \<le> b'" by (cases b) auto
    show ?case
    proof (cases "queue_pop s (freeList s)")
      case None
      then show ?thesis using Suc.IH [of _ b'] Suc.prems(1) b by (cases "evict s") simp_all
    next
      case (Some xq)
      obtain x q where xq: "xq = (x, q)" by fastforce
      show ?thesis
      proof (cases "trySetPresent x p (s\<lparr>freeList := q\<rparr>)")
        case (Ret r)
        obtain ok t where "r = (ok, t)" by fastforce
        then show ?thesis using Suc.IH [of t b'] Suc.prems(1) Some xq b Ret by (cases ok) simp_all
      qed (use Some xq b in simp_all)
    qed
  qed simp
  then show ?thesis unfolding mono_run_def by blast
qed

lemma mono_claim [mono_intros]: "mono_run (\<lambda>n. claim_frame n p s)"
  unfolding claim_frame_def case_prod_beta by (intro mono_intros)

lemma mono_fault [mono_intros]: "mono_run (\<lambda>n. handleFault n p s)"
  unfolding handleFault_def Let_def case_prod_beta by (intro mono_intros)

lemma mono_alloc [mono_intros]: "mono_run (\<lambda>n. allocPage n s)"
  unfolding allocPage_def Let_def case_prod_beta by (intro mono_intros)

lemma mono_promote [mono_intros]: "mono_run (\<lambda>n. promoteLocked n r s)"
  unfolding promoteLocked_def Let_def case_prod_beta by (intro mono_intros)

lemma mono_tryPromote [mono_intros]: "mono_run (\<lambda>n. tryPromote n p s)"
proof -
  have "mono_run (\<lambda>n. tryPromote_loop n j p s)" for j s
  proof (induction j arbitrary: s)
    case 0
    show ?case unfolding tryPromote_loop.simps by (rule mono_const)
  next
    case (Suc j)
    show ?case unfolding tryPromote_loop.simps Let_def case_prod_beta by (intro mono_intros Suc.IH)
  qed
  then show ?thesis by (simp add: tryPromote_def)
qed

lemma mono_unfixS [mono_intros]: "mono_run (\<lambda>n. unfixS n r s)"
  unfolding unfixS_def Let_def case_prod_beta by (intro mono_intros)

lemma mono_unfixX [mono_intros]: "mono_run (\<lambda>n. unfixX n r s)"
  unfolding unfixX_def Let_def case_prod_beta by (intro mono_intros)

lemma fixX_mono:
  "fixX ff f p s \<noteq> Loop \<Longrightarrow> ff \<le> gg \<Longrightarrow> f \<le> g \<Longrightarrow> fixX gg g p s = fixX ff f p s"
proof (induction f arbitrary: g s)
  case (Suc f)
  then obtain g' where g: "g = Suc g'" "f \<le> g'" by (cases g) auto
  note ih = Suc.IH [OF _ Suc.prems(2) g(2)]
  show ?case
  proof (cases "bm_access p (bm_hash s p) s")
    case (Ret a)
    obtain bf v s1 where a: "a = ((bf, v), s1)" by (cases a) auto
    show ?thesis
    proof (cases bf)
      case None
      have l: "handleFault ff p s1 \<noteq> Loop" using Suc.prems(1) Ret a None by auto
      then have h: "handleFault gg p s1 = handleFault ff p s1" using mono_fault Suc.prems(2) unfolding mono_run_def by blast
      show ?thesis
      proof (cases "handleFault ff p s1")
        case (Ret b)
        obtain bf' s2 where "b = (bf', s2)" by fastforce
        then show ?thesis using \<open>bm_access _ _ _ = Ret a\<close> a None Ret h g(1) ih [of s2] Suc.prems(1) by (cases bf') auto
      qed (use \<open>bm_access _ _ _ = Ret a\<close> a None h g(1) l in auto)
    next
      case (Some r)
      then show ?thesis using Ret a g(1) ih [of s1] Suc.prems(1)
        by (cases "tryLockX (bstate (bf_at s1 r)) v") (auto split: prod.splits if_splits)
    qed
  qed (use g(1) in auto)
qed simp

lemma fixS_mono:
  "fixS ff f p s \<noteq> Loop \<Longrightarrow> ff \<le> gg \<Longrightarrow> f \<le> g \<Longrightarrow> fixS gg g p s = fixS ff f p s"
proof (induction f arbitrary: g s)
  case (Suc f)
  then obtain g' where g: "g = Suc g'" "f \<le> g'" by (cases g) auto
  note ih = Suc.IH [OF _ Suc.prems(2) g(2)]
  show ?case
  proof (cases "bm_access p (bm_hash s p) s")
    case (Ret a)
    obtain bf v s1 where a: "a = ((bf, v), s1)" by (cases a) auto
    show ?thesis
    proof (cases bf)
      case None
      have l: "handleFault ff p s1 \<noteq> Loop" using Suc.prems(1) Ret a None by auto
      then have h: "handleFault gg p s1 = handleFault ff p s1" using mono_fault Suc.prems(2) unfolding mono_run_def by blast
      show ?thesis
      proof (cases "handleFault ff p s1")
        case (Ret b)
        obtain bf' s2 where "b = (bf', s2)" by fastforce
        then show ?thesis using \<open>bm_access _ _ _ = Ret a\<close> a None Ret h g(1) ih [of s2] Suc.prems(1) by (cases bf') auto
      qed (use \<open>bm_access _ _ _ = Ret a\<close> a None h g(1) l in auto)
    next
      case (Some r)
      then show ?thesis using Ret a g(1) ih [of s1] Suc.prems(1) by (auto split: prod.splits bool.splits)
    qed
  qed (use g(1) in auto)
qed simp

lemma mono_fix [mono_intros]: "mono_run (\<lambda>n. fixX n n p s)" "mono_run (\<lambda>n. fixS n n p s)"
  unfolding mono_run_def using fixX_mono fixS_mono by blast+

section \<open>Sessions\<close>

datatype request = Alloc "u8 list" | Read PID | Write PID "u8 list"

datatype reply = Page PID | Content "u8 list" | Written

text \<open>The guard is open and the client has read or written.\<close>

definition opened :: "nat \<Rightarrow> request \<Rightarrow> bm \<Rightarrow> ((guard \<times> reply) \<times> bm) run" where
  "opened fuel req s = (case req of
     Alloc b \<Rightarrow> bind_run (allocGuard fuel (\<lambda>_. b) s) (\<lambda>(g, s). Ret ((g, Page (g_pid g)), s))
   | Read p \<Rightarrow> bind_run (guardS_new fuel fuel p s) (\<lambda>(g, s). bind_run (g_read g s) (\<lambda>b. Ret ((g, Content b), s)))
   | Write p b \<Rightarrow> bind_run (guardX_new fuel fuel p s) (\<lambda>(g, s). bind_run (g_write g b s) (\<lambda>s. Ret ((g, Written), s))))"

definition serve :: "nat \<Rightarrow> request \<Rightarrow> bm \<Rightarrow> (reply \<times> bm) run" where
  "serve fuel req s = bind_run (opened fuel req s) (\<lambda>((g, a), s).
     bind_run (case req of Read p \<Rightarrow> guardS_close fuel g s | _ \<Rightarrow> guardX_close fuel g s) (\<lambda>s. Ret (a, s)))"

lemma mono_opened [mono_intros]: "mono_run (\<lambda>n. opened n req s)"
  unfolding opened_def allocGuard_def guardS_new_def guardX_new_def case_prod_beta
  by (cases req) (simp_all, (intro mono_intros)+)

lemma mono_serve: "mono_run (\<lambda>n. serve n req s)"
  unfolding serve_def case_prod_beta guardS_close_def guardX_close_def
  by (cases req) (simp_all, (intro mono_intros)+)

lemma settled: "mono_run m \<Longrightarrow> m h = Ret a \<Longrightarrow> h \<le> fuel \<Longrightarrow> m fuel = Ret a"
  by (metis mono_run_def run.distinct(3))

section \<open>The invariant between sessions\<close>

text \<open>Nobody holds a page; the budget \<open>n\<close> is for the entries of the hash table that later sessions take.\<close>

definition session :: "nat \<Rightarrow> bm \<Rightarrow> bool" where
  "session n s \<longleftrightarrow> pool_inv n {} {} s \<and> pinned s = {} \<and> serves 4 s \<and>
     shape ({p. p < allocCount s}, allocCount s) s \<and> (\<forall>p < allocCount s. real_pid p)"

lemma sessionD:
  assumes "session n s"
  shows "pool_inv n {} {} s" "pinned s = {}" "serves 4 s" "shape ({p. p < allocCount s}, allocCount s) s"
    "p < allocCount s \<Longrightarrow> real_pid p" "unat (batch s) \<le> 128" "res s (allocCount s) = None"
proof -
  show *: "pool_inv n {} {} s" "pinned s = {}" "serves 4 s" "shape ({p. p < allocCount s}, allocCount s) s"
    "p < allocCount s \<Longrightarrow> real_pid p" using assms by (simp_all add: session_def)
  show "unat (batch s) \<le> 128" using *(3) by (simp add: serves_def)
  show "res s (allocCount s) = None" using shape_res [OF *(4) pool_invD(1) [OF *(1)]] by auto
qed

text \<open>Writing to a page that is held.\<close>

lemma put_own:
  assumes inv: "pool_inv n {} {} s" and p: "res s p = Some r" "pg s p = Some x" and c: "dirty c"
  shows "pool_inv n {} {} (put_page x c s)" and "view (put_page x c s) = (view s)(p \<mapsto> body c)"
proof -
  have pin: "p \<in> dom (res s)" using p(1) by blast
  note u = used_frame [OF pool_invD(2) [OF inv] pin p(2)]
  have x: "x < length (virtMem s)" using u(1) frame_invD(1) [OF pool_invD(2) [OF inv]] by simp
  have inj: "q = p" if "q \<in> dom (res s)" "pg s q = Some x" for q
    using slot_inj [OF pool_invD(2) [OF inv] that(1) _ pin] that(2) p(2) by simp
  note D = disk_invD [OF pool_invD(3) [OF inv]]
  have "disk_inv {} (put_page x c s)"
    unfolding disk_inv_def
  proof (intro conjI allI ballI impI)
    fix q y assume q: "q \<in> dom (res (put_page x c s)) - {}" "pg (put_page x c s) q = Some y" "\<not> dirty (virtMem (put_page x c s) ! y)"
    then have "y \<noteq> x" using c x by auto
    then show "map_option body (disk (put_page x c s) (loc (put_page x c s) q)) = Some (body (virtMem (put_page x c s) ! y))"
      using q D(1) [of q y] by simp
  qed (use D in simp_all)
  then show "pool_inv n {} {} (put_page x c s)" using inv by (simp add: pool_inv_def)
  show "view (put_page x c s) = (view s)(p \<mapsto> body c)"
  proof
    fix q
    show "view (put_page x c s) q = ((view s)(p \<mapsto> body c)) q"
    proof (cases "q = p")
      case True
      then show ?thesis using p x by (simp add: view_def)
    next
      case False
      have "pg s q = Some y \<Longrightarrow> res s q \<noteq> None \<Longrightarrow> y \<noteq> x" for y using inj [of q] False by auto
      then show ?thesis using False by (cases "pg s q") (auto simp: view_def)
    qed
  qed
qed

lemma owned_view:
  assumes "pool_inv n {} {} s" and "res s p = Some r" and "view s p = Some b"
  obtains x where "pg s p = Some x" "page_of s r = Ret x" "x < length (virtMem s)" "body (virtMem s ! x) = b"
proof -
  obtain x where "pg s p = Some x" "bpage (bf_at s r) = Some x" "x < length (virtMem s)"
    by (rule owned_slot [OF pool_invD(2) [OF assms(1)] assms(2)]) auto
  then show thesis using that assms(2,3) by (simp add: view_def page_of_owned)
qed

lemma card_pin: "pinned s \<subseteq> {p} \<Longrightarrow> card (pinned s) \<le> 1"
  using card_mono [of "{p}" "pinned s"] by simp

section \<open>Reading\<close>

lemma opened_Read:
  assumes ses: "session (Suc (Suc n)) s" and p: "p < allocCount s" "view s p = Some b"
  shows "\<exists>h g s1 r. opened h (Read p) s = Ret ((g, Content b), s1) \<and> g_pid g = p \<and> g_bf g = Some r \<and> fixed n p 1 s r s1 \<and>
    shape ({p. p < allocCount s}, allocCount s) s1"
proof -
  note S = sessionD [OF ses]
  obtain h where h: "\<forall>ff \<ge> h. \<forall>fuel. \<exists>r s'. fixS ff (Suc fuel) p s = Ret (r, s') \<and> fixed n p 1 s r s'"
    using fixS_gets [OF S(1,3) _ _ S(5) [OF p(1)] p(2)] S(2) by auto
  then obtain r s1 where s1: "fixS (Suc h) (Suc h) p s = Ret (r, s1)" "fixed n p 1 s r s1" by (meson le_SucI order_refl)
  then have f: "pool_inv n {} {} s1" "res s1 p = Some r" "view s1 p = Some b" using p(2) by (simp_all add: fixed_def)
  obtain x where x: "page_of s1 r = Ret x" "x < length (virtMem s1)" "body (virtMem s1 ! x) = b"
    by (rule owned_view [OF f])
  define g where "g = \<lparr>g_pid = p, g_ptr = Some x, g_bf = Some r\<rparr>"
  have "opened (Suc h) (Read p) s = Ret ((g, Content b), s1)"
    using s1(1) x real_pid_none [OF S(5) [OF p(1)]]
    by (simp add: opened_def guardS_new_def g_read_def check_def the_ref_def g_def del: fixS.simps)
  moreover have "shape ({p. p < allocCount s}, allocCount s) s1"
    by (rule shape_fixS [OF s1(1) S(4)]) (use p(1) in simp)
  moreover have "g_pid g = p" "g_bf g = Some r" by (simp_all add: g_def)
  ultimately show ?thesis using s1(2) by blast
qed

lemma session_after:
  assumes ses: "session (Suc (Suc n)) s" and "pool_inv n {} {} s'" and "pinned s' = {}" and "env s' = env s"
    and sh: "shape ({p. p < allocCount s}, allocCount s) s'"
  shows "session n s'" and "allocCount s' = allocCount s"
proof -
  note S = sessionD [OF ses]
  show a: "allocCount s' = allocCount s" using sh by (simp add: shape_def)
  show "session n s'"
    using assms S(3,5) serves_env [OF assms(4)] by (simp add: session_def a)
qed

lemma close_Read:
  assumes ses: "session (Suc (Suc n)) s" and f: "fixed n p 1 s r s1" and p: "p < allocCount s"
    and sh: "shape ({p. p < allocCount s}, allocCount s) s1" and g: "g_pid g = p" "g_bf g = Some r" and lo: "low s1"
  shows "\<exists>h s'. guardS_close h g s1 = Ret s' \<and> session n s' \<and> view s' = view s \<and> allocCount s' = allocCount s"
proof -
  note S = sessionD [OF ses]
  have F: "pool_inv n {} {} s1" "res s1 p = Some r" "st s1 p = 1" "view s1 = view s" "env s1 = env s" "pinned s1 \<subseteq> {p}"
    using f S(2) by (simp_all add: fixed_def)
  have sv: "serves 4 s1" using serves_env [OF F(5)] S(3) by simp
  have ctl: "ctl_ok s1" by (rule shape_ctl [OF sh])
  have "returns (\<lambda>fuel. unfixS fuel r s1)"
    by (rule unfixS_returns [OF F(1) sv _ F(2) _ _ ctl]) (use card_pin [OF F(6)] F(3) in simp_all)
  then obtain h where h: "unfixS h r s1 \<noteq> Loop" by (auto simp: returns_def)
  have "unat (batch s1) \<le> 128" using sv by (simp add: serves_def)
  from unfixS_ok [OF F(1) this F(2) _ _ ctl, of h] F(3) have "released n p s1 r (unfixS h r s1)" by simp
  moreover have "\<not> adapting (cbp_state s1)" using sh by (simp add: shape_def)
  ultimately obtain w s' where s': "unfixS h r s1 = Ret s'" "getState w = 0" "versionOf w = versionOf (bstate (bf_at s1 r))"
    "steady n (set_state r w s1) s'" using h F(3) by (auto simp: released_def)
  note W = set_state_ok [where w = w, OF F(1,2)]
  have "pinned (set_state r w s1) = {}"
    using pinned_state [OF W(4), where p = p and w = 0] W(6) s'(2) F(6) by (auto simp: fun_eq_iff)
  moreover have "low (set_state r w s1)" by (rule low_set_state [OF F(1,2) lo s'(3)])
  ultimately have P: "pool_inv n {} {} s'" "pinned s' = {}" "view s' = view s" "env s' = env s"
    using s'(4) W(2,3) F(4,5) by (auto simp: steady_def)
  have "shape ({p. p < allocCount s}, allocCount s) s'" by (rule shape_unfixS [OF s'(1) sh])
  note E = session_after [OF ses P(1,2,4) this]
  have "p \<noteq> moved" using real_pid_none [OF S(5) [OF p]] .
  then have "guardS_close h g s1 = Ret s'" using s'(1) g by (simp add: guardS_close_def the_ref_def)
  then show ?thesis using E P(3) by blast
qed

section \<open>Writing\<close>

text \<open>A client holds page \<open>p\<close> exclusively, and nothing else is held.\<close>

definition writing :: "nat \<Rightarrow> PID set \<times> u64 \<Rightarrow> bm \<Rightarrow> PID \<Rightarrow> fref \<Rightarrow> bm \<Rightarrow> bool" where
  "writing n S s p r s' \<longleftrightarrow> pool_inv n {} {} s' \<and> res s' p = Some r \<and> st s' p = Locked \<and> pinned s' \<subseteq> {p} \<and> shape S s' \<and> env s' = env s"

lemma writingD:
  assumes "writing n S s p r s'"
  shows "pool_inv n {} {} s'" "res s' p = Some r" "st s' p = Locked" "pinned s' \<subseteq> {p}" "shape S s'" "env s' = env s"
  using assms by (simp_all add: writing_def)

lemma write_step:
  assumes w: "writing n S s p r s1" and x: "pg s1 p = Some x"
    and f: "length (body (f (virtMem s1 ! x))) = 4080" and d: "dirty (f (virtMem s1 ! x))"
  obtains s2 where "upd_page x f s1 = Ret s2" "writing n S s p r s2" "pg s2 = pg s1"
    "view s2 = (view s1)(p \<mapsto> body (f (virtMem s1 ! x)))" "virtMem s2 = (virtMem s1)[x := f (virtMem s1 ! x)]" "bf_at s2 = bf_at s1"
proof -
  note W = writingD [OF w]
  have pin: "p \<in> dom (res s1)" using W(2) by blast
  have x': "x < length (virtMem s1)"
    using used_frame [OF pool_invD(2) [OF W(1)] pin x] frame_invD(1) [OF pool_invD(2) [OF W(1)]] by simp
  let ?c = "f (virtMem s1 ! x)"
  have sh: "shape S (put_page x ?c s1)" using shape_page(1) [OF W(5) f] by (simp add: put_page_def)
  have r: "res (put_page x ?c s1) = res s1" by (simp add: fun_eq_iff)
  show thesis
    by (rule that [OF upd_page_put [OF x']]) (use W put_own [OF W(1,2) x d] sh r in \<open>simp_all add: writing_def\<close>)
qed

lemma close_X:
  assumes w: "writing n S s p r s1" and s: "serves 4 s" and g: "g_pid g = p" "g_bf g = Some r" and p: "real_pid p" and lo: "low s1"
  shows "\<exists>h s'. guardX_close h g s1 = Ret s' \<and> pool_inv n {} {} s' \<and> pinned s' = {} \<and> view s' = view s1 \<and> env s' = env s \<and> shape S s'"
proof -
  note W = writingD [OF w]
  have sv: "serves 4 s1" using serves_env [OF W(6)] s by simp
  have ctl: "ctl_ok s1" by (rule shape_ctl [OF W(5)])
  have "returns (\<lambda>fuel. unfixX fuel r s1)"
    by (rule unfixX_returns [OF W(1) sv _ W(2) ctl]) (use card_pin [OF W(4)] in simp_all)
  then obtain h where h: "unfixX h r s1 \<noteq> Loop" by (auto simp: returns_def)
  have "unat (batch s1) \<le> 128" using sv by (simp add: serves_def)
  from unfixX_ok [OF W(1) this W(2,3) ctl, of h] have "released_x n p s1 r (unfixX h r s1)" .
  moreover have "\<not> adapting (cbp_state s1)" using W(5) by (simp add: shape_def)
  ultimately obtain s' where s': "unfixX h r s1 = Ret s'" "pool_inv n {} {} s'" "view s' = view s1" "env s' = env s1" "pinned s' \<subseteq> pinned s1 - {p}"
    using h lo by (auto simp: released_x_def)
  have "p \<noteq> moved" using real_pid_none [OF p] .
  then have "guardX_close h g s1 = Ret s'" using s'(1) g by (simp add: guardX_close_def the_ref_def)
  then show ?thesis using s' shape_unfixX [OF s'(1) W(5)] W(4,6) by auto
qed

lemma opened_Write:
  assumes ses: "session (Suc (Suc n)) s" and p: "p < allocCount s" "view s p \<noteq> None" and b: "length b = 4080"
  shows "\<exists>h g s1 r. opened h (Write p b) s = Ret ((g, Written), s1) \<and> g_pid g = p \<and> g_bf g = Some r \<and>
    writing n ({p. p < allocCount s}, allocCount s) s p r s1 \<and> view s1 = (view s)(p \<mapsto> b)"
proof -
  note S = sessionD [OF ses]
  obtain b0 where b0: "view s p = Some b0" using p(2) by blast
  obtain h where h: "\<forall>ff \<ge> h. \<forall>fuel. \<exists>r s'. fixX ff (Suc fuel) p s = Ret (r, s') \<and> fixed n p Locked s r s'"
    using fixX_gets [OF S(1,3) _ _ S(5) [OF p(1)] b0] S(2) by auto
  then obtain r s1 where s1: "fixX (Suc h) (Suc h) p s = Ret (r, s1)" "fixed n p Locked s r s1" by (meson le_SucI order_refl)
  let ?S = "({p. p < allocCount s}, allocCount s)"
  have "shape ?S s1" by (rule shape_fixX [OF s1(1) S(4)]) (use p(1) in simp)
  then have w1: "writing n ?S s p r s1" "view s1 = view s" using s1(2) S(2) by (simp_all add: writing_def fixed_def)
  obtain x where x: "pg s1 p = Some x" "page_of s1 r = Ret x" "x < length (virtMem s1)" "body (virtMem s1 ! x) = b0"
    by (rule owned_view [OF writingD(1,2) [OF w1(1)], of b0]) (use w1(2) b0 in simp_all)
  have len: "length (body (virtMem s1 ! x)) = 4080" using x(3) writingD(5) [OF w1(1)] by (simp add: shape_def)
  obtain s2 where s2: "set_dirty x s1 = Ret s2" "writing n ?S s p r s2" "pg s2 = pg s1" "view s2 = (view s1)(p \<mapsto> b0)"
    "virtMem s2 = (virtMem s1)[x := (virtMem s1 ! x)\<lparr>dirty := True\<rparr>]"
    by (rule write_step [OF w1(1) x(1), of "\<lambda>c. c\<lparr>dirty := True\<rparr>"]) (use len x(4) in \<open>simp_all add: set_dirty_def\<close>)
  obtain s3 where s3: "upd_page x (\<lambda>c. c\<lparr>body := b\<rparr>) s2 = Ret s3" "writing n ?S s p r s3" "view s3 = (view s2)(p \<mapsto> b)"
    by (rule write_step [OF s2(2), of x "\<lambda>c. c\<lparr>body := b\<rparr>"]) (use x s2(3,5) b in simp_all)
  define g where "g = \<lparr>g_pid = p, g_ptr = Some x, g_bf = Some r\<rparr>"
  have "opened (Suc h) (Write p b) s = Ret ((g, Written), s3)"
    using s1(1) x(2) s2(1) s3(1) real_pid_none [OF S(5) [OF p(1)]]
    by (simp add: opened_def guardX_new_def g_write_def check_def the_ref_def g_def del: fixX.simps)
  moreover have "g_pid g = p" "g_bf g = Some r" by (simp_all add: g_def)
  ultimately show ?thesis using s3(2,3) s2(4) w1(2) by auto
qed

section \<open>Allocating\<close>

lemma shape_more: "shape (A, c) s \<Longrightarrow> A \<subseteq> B \<Longrightarrow> shape (B, c) s"
  by (auto simp: shape_def)

lemma below_next:
  assumes "real_pid c"
  shows "{p. p < c + 1} = insert c {p. p < c}"
proof -
  have "c + 1 \<noteq> 0" using assms by (auto simp: real_pid_def eq_neg_iff_add_eq_0)
  then have "unat (c + 1) = Suc (unat c)" by (simp add: unatSuc add.commute)
  then show ?thesis by (auto simp: word_less_nat_alt less_Suc_eq word_unat_eq_iff)
qed

lemma opened_Alloc:
  assumes ses: "session (Suc (Suc n)) s" and p: "real_pid (allocCount s)" and b: "length b = 4080"
  defines "c \<equiv> allocCount s"
  shows "\<exists>h g s1 r. opened h (Alloc b) s = Ret ((g, Page c), s1) \<and> g_pid g = c \<and> g_bf g = Some r \<and>
    writing n ({p. p < c + 1}, c + 1) s c r s1 \<and> view s1 = (view s)(c \<mapsto> b)"
proof -
  note S = sessionD [OF ses]
  have "returns (\<lambda>fuel. allocPage fuel s)"
    by (rule allocPage_returns [OF S(1,3) _ S(7) p]) (use S(2) in simp)
  then obtain h where "allocPage h s \<noteq> Loop" by (auto simp: returns_def)
  then obtain r s1 where s1: "allocPage h s = Ret (r, s1)" "allocated n c s r s1"
    using allocPage_ok [OF S(1,6,7) p, of h] by (auto simp: c_def)
  have "shape ({p. p < c + 1}, c + 1) s1"
    by (rule shape_alloc [OF s1(1) shape_more [OF S(4) [folded c_def]]]) (use below_next [of c] p in \<open>auto simp: c_def\<close>)
  then have w1: "writing n ({p. p < c + 1}, c + 1) s c r s1" using s1(2) S(2) by (simp add: writing_def allocated_def)
  obtain x where x: "pg s1 c = Some x" "dirty (virtMem s1 ! x)" using s1(2) by (auto simp: allocated_def)
  have pid: "bpid (bf_at s1 r) = c" by (rule bf_pid [OF pool_invD(1) [OF writingD(1) [OF w1]] writingD(2) [OF w1]])
  obtain y where y: "pg s1 c = Some y" "bpage (bf_at s1 r) = Some y"
    by (rule owned_slot [OF pool_invD(2) [OF writingD(1) [OF w1]] writingD(2) [OF w1]]) auto
  obtain s2 where s2: "upd_page x (\<lambda>c. c\<lparr>body := b\<rparr>) s1 = Ret s2" "writing n ({p. p < c + 1}, c + 1) s c r s2"
    "view s2 = (view s1)(c \<mapsto> b)" "bf_at s2 = bf_at s1"
    by (rule write_step [OF w1 x(1), of "\<lambda>c. c\<lparr>body := b\<rparr>"]) (use x(2) b in simp_all)
  define g where "g = \<lparr>g_pid = c, g_ptr = Some x, g_bf = Some r\<rparr>"
  have "opened h (Alloc b) s = Ret ((g, Page c), s2)"
    using s1(1) x(1) y s2(1,4) pid by (simp add: opened_def allocGuard_def g_def page_of_owned)
  moreover have "view s2 = (view s)(c \<mapsto> b)" using s2(3) s1(2) by (auto simp: allocated_def fun_eq_iff)
  moreover have "g_pid g = c" "g_bf g = Some r" by (simp_all add: g_def)
  ultimately show ?thesis using s2(2) by blast
qed

section \<open>Histories\<close>

text \<open>The map that a client sees: the next page id and the content of each page.\<close>

type_synonym store = "u64 \<times> (PID \<rightharpoonup> u8 list)"

fun store_step :: "request \<Rightarrow> store \<Rightarrow> (reply \<times> store) option" where
  "store_step (Alloc b) (c, m) =
     (if length b = 4080 \<and> real_pid c then Some (Page c, (c + 1, m(c \<mapsto> b))) else None)"
| "store_step (Read p) (c, m) =
     (if p < c then (case m p of None \<Rightarrow> None | Some b \<Rightarrow> Some (Content b, (c, m))) else None)"
| "store_step (Write p b) (c, m) =
     (if length b = 4080 \<and> p < c \<and> m p \<noteq> None then Some (Written, (c, m(p \<mapsto> b))) else None)"

fun store_run :: "request list \<Rightarrow> store \<Rightarrow> (reply list \<times> store) option" where
  "store_run [] m = Some ([], m)"
| "store_run (q # qs) m = (case store_step q m of None \<Rightarrow> None
     | Some (a, m) \<Rightarrow> (case store_run qs m of None \<Rightarrow> None | Some (as, m) \<Rightarrow> Some (a # as, m)))"

definition store_of :: "bm \<Rightarrow> store" where
  "store_of s = (allocCount s, view s)"

fun serve_all :: "nat \<Rightarrow> request list \<Rightarrow> bm \<Rightarrow> (reply list \<times> bm) run" where
  "serve_all fuel [] s = Ret ([], s)"
| "serve_all fuel (q # qs) s = bind_run (serve fuel q s) (\<lambda>(a, s).
     bind_run (serve_all fuel qs s) (\<lambda>(as, s). Ret (a # as, s)))"

text \<open>No page is at its last version when a guard is closed.\<close>

fun fresh_run :: "nat \<Rightarrow> request list \<Rightarrow> bm \<Rightarrow> bool" where
  "fresh_run fuel [] s \<longleftrightarrow> True"
| "fresh_run fuel (q # qs) s \<longleftrightarrow>
     (case opened fuel q s of Ret (_, s1) \<Rightarrow> low s1 | _ \<Rightarrow> True) \<and>
     (case serve fuel q s of Ret (_, s1) \<Rightarrow> fresh_run fuel qs s1 | _ \<Rightarrow> True)"

lemma serve_step:
  assumes ses: "session (Suc (Suc n)) s" and st: "store_step q (store_of s) = Some (a, m)"
  shows "\<exists>h g s1. opened h q s = Ret ((g, a), s1) \<and>
    (low s1 \<longrightarrow> (\<exists>h' s'. serve h' q s = Ret (a, s') \<and> session n s' \<and> store_of s' = m))"
proof -
  note S = sessionD [OF ses]
  have go: "serve (max h h') q s = Ret (a, s')"
    if "opened h q s = Ret ((g, a), s1)" "(case q of Read p \<Rightarrow> guardS_close h' g s1 | _ \<Rightarrow> guardX_close h' g s1) = Ret s'"
    for h h' g s1 s'
  proof -
    have "opened (max h h') q s = Ret ((g, a), s1)" by (rule settled [OF mono_opened that(1)]) simp
    moreover have "mono_run (\<lambda>h'. guardS_close h' g s1)" "mono_run (\<lambda>h'. guardX_close h' g s1)"
      unfolding guardS_close_def guardX_close_def by (intro mono_intros)+
    then have "(case q of Read p \<Rightarrow> guardS_close (max h h') g s1 | _ \<Rightarrow> guardX_close (max h h') g s1) = Ret s'"
      using settled [where h = h' and fuel = "max h h'" and a = s'] that(2) by (cases q) auto
    ultimately show ?thesis by (simp add: serve_def)
  qed
  show ?thesis
  proof (cases q)
    case (Read p)
    then obtain b where p: "p < allocCount s" "view s p = Some b" and am: "a = Content b" "m = store_of s"
      using st by (auto simp: store_of_def split: if_splits option.splits)
    from opened_Read [OF ses p] obtain h g s1 r where o1: "opened h (Read p) s = Ret ((g, Content b), s1)"
      "g_pid g = p" "g_bf g = Some r" "fixed n p 1 s r s1" "shape ({p. p < allocCount s}, allocCount s) s1" by blast
    have "\<exists>h' s'. serve h' q s = Ret (a, s') \<and> session n s' \<and> store_of s' = m" if lo: "low s1"
    proof -
      from close_Read [OF ses o1(4) p(1) o1(5,2,3) lo] obtain h' s' where "guardS_close h' g s1 = Ret s'"
        "session n s'" "view s' = view s" "allocCount s' = allocCount s" by blast
      then show ?thesis using go [of h g s1 h' s'] o1(1) Read am by (auto simp: store_of_def)
    qed
    then show ?thesis using o1(1) Read am by blast
  next
    case (Write p b)
    then have p: "p < allocCount s" "view s p \<noteq> None" "length b = 4080" and am: "a = Written" "m = (allocCount s, (view s)(p \<mapsto> b))"
      using st by (auto simp: store_of_def split: if_splits)
    from opened_Write [OF ses p] obtain h g s1 r where o1: "opened h (Write p b) s = Ret ((g, Written), s1)"
      "g_pid g = p" "g_bf g = Some r" "writing n ({p. p < allocCount s}, allocCount s) s p r s1" "view s1 = (view s)(p \<mapsto> b)" by blast
    have "\<exists>h' s'. serve h' q s = Ret (a, s') \<and> session n s' \<and> store_of s' = m" if lo: "low s1"
    proof -
      from close_X [OF o1(4) S(3) o1(2,3) S(5) [OF p(1)] lo] obtain h' s' where s': "guardX_close h' g s1 = Ret s'"
        "pool_inv n {} {} s'" "pinned s' = {}" "view s' = view s1" "env s' = env s" "shape ({p. p < allocCount s}, allocCount s) s'" by blast
      from session_after [OF ses s'(2,3,5,6)] show ?thesis using go [of h g s1 h' s'] s'(1,4) o1(1,5) Write am
        by (auto simp: store_of_def)
    qed
    then show ?thesis using o1(1) Write am by blast
  next
    case (Alloc b)
    then have p: "real_pid (allocCount s)" "length b = 4080" and am: "a = Page (allocCount s)" "m = (allocCount s + 1, (view s)(allocCount s \<mapsto> b))"
      using st by (auto simp: store_of_def split: if_splits)
    from opened_Alloc [OF ses p] obtain h g s1 r where o1: "opened h (Alloc b) s = Ret ((g, Page (allocCount s)), s1)"
      "g_pid g = allocCount s" "g_bf g = Some r" "writing n ({p. p < allocCount s + 1}, allocCount s + 1) s (allocCount s) r s1"
      "view s1 = (view s)(allocCount s \<mapsto> b)" by blast
    have "\<exists>h' s'. serve h' q s = Ret (a, s') \<and> session n s' \<and> store_of s' = m" if lo: "low s1"
    proof -
      from close_X [OF o1(4) S(3) o1(2,3) p(1) lo] obtain h' s' where s': "guardX_close h' g s1 = Ret s'"
        "pool_inv n {} {} s'" "pinned s' = {}" "view s' = view s1" "env s' = env s"
        "shape ({p. p < allocCount s + 1}, allocCount s + 1) s'" by blast
      have al: "allocCount s' = allocCount s + 1" using s'(6) by (simp add: shape_def)
      have "real_pid q" if "q < allocCount s + 1" for q
      proof -
        have "q \<in> insert (allocCount s) {p. p < allocCount s}" using that below_next [OF p(1)] by blast
        then show ?thesis using S(5) p(1) by blast
      qed
      then have "session n s'" using s' S(3) serves_env [OF s'(5)] by (simp add: session_def al)
      then show ?thesis using go [of h g s1 h' s'] s'(1,4) o1(1,5) Alloc am al by (auto simp: store_of_def)
    qed
    then show ?thesis using o1(1) Alloc am by blast
  qed
qed

lemma run_sessions:
  assumes "session (2 * length qs + n) s" and "store_run qs (store_of s) = Some (as, m)"
  shows "\<exists>h. \<forall>fuel \<ge> h. fresh_run fuel qs s \<longrightarrow> (\<exists>s'. serve_all fuel qs s = Ret (as, s') \<and> session n s' \<and> store_of s' = m)"
  using assms
proof (induction qs arbitrary: s as)
  case (Cons q qs)
  from Cons.prems(2) obtain a m1 as' where st: "store_step q (store_of s) = Some (a, m1)"
    "store_run qs m1 = Some (as', m)" "as = a # as'" by (auto split: option.splits prod.splits)
  from Cons.prems(1) have "session (Suc (Suc (2 * length qs + n))) s" by simp
  from serve_step [OF this st(1)] obtain h g s1 where o1: "opened h q s = Ret ((g, a), s1)"
    "low s1 \<Longrightarrow> \<exists>h' s'. serve h' q s = Ret (a, s') \<and> session (2 * length qs + n) s' \<and> store_of s' = m1" by blast
  have o: "opened fuel q s = Ret ((g, a), s1)" if "h \<le> fuel" for fuel by (rule settled [OF mono_opened o1(1) that])
  show ?case
  proof (cases "low s1")
    case True
    from o1(2) [OF True] obtain h1 s' where s': "serve h1 q s = Ret (a, s')" "session (2 * length qs + n) s'" "store_of s' = m1" by blast
    have sv: "serve fuel q s = Ret (a, s')" if "h1 \<le> fuel" for fuel by (rule settled [OF mono_serve s'(1) that])
    from Cons.IH [OF s'(2)] st(2) s'(3) obtain h2 where
      "\<forall>fuel \<ge> h2. fresh_run fuel qs s' \<longrightarrow> (\<exists>s''. serve_all fuel qs s' = Ret (as', s'') \<and> session n s'' \<and> store_of s'' = m)" by blast
    then have "\<forall>fuel \<ge> max h1 h2. fresh_run fuel (q # qs) s \<longrightarrow>
        (\<exists>s''. serve_all fuel (q # qs) s = Ret (as, s'') \<and> session n s'' \<and> store_of s'' = m)"
      by (auto simp: sv st(3))
    then show ?thesis by blast
  next
    case False
    then have "\<forall>fuel \<ge> h. \<not> fresh_run fuel (q # qs) s" by (simp add: o)
    then show ?thesis by blast
  qed
qed auto

end
