(* ===== verification/Pool_Flush.thy ===== *)
theory Pool_Flush
  imports Pool_Promotion
begin

text \<open>
  \<open>flush\<close> and \<open>clear\<close>. A flush of at most 255 dirty pages puts every resident page on its device;
  with more it stops at an assertion of the batch interface. \<open>clear\<close> removes frames from the hash
  table that it has not locked, which stops at an assertion of the table.
\<close>

section \<open>Visiting every resident page\<close>

fun visit_list :: "(PID \<Rightarrow> 's \<Rightarrow> 's run) \<Rightarrow> PID list \<Rightarrow> 's \<Rightarrow> 's run" where
  "visit_list fn [] s = Ret s"
| "visit_list fn (p # ps) s = bind_run (fn p s) (visit_list fn ps)"

definition residents :: "rset \<Rightarrow> PID list" where
  "residents r = filter real_pid (slots r)"

lemma all_loop_visit:
  assumes keeps: "\<And>p s s'. get s = r \<Longrightarrow> fn p s = Ret s' \<Longrightarrow> get s' = r"
  shows "get s = r \<Longrightarrow> i + n = length (slots r) \<Longrightarrow> all_loop get fn n i s = visit_list fn (filter real_pid (drop i (slots r))) s"
proof (induction n arbitrary: i s)
  case (Suc n)
  have i: "i < length (slots r)" using Suc.prems(2) by simp
  have d: "drop i (slots r) = slots r ! i # drop (Suc i) (slots r)" using i by (rule Cons_nth_drop_Suc [symmetric])
  have g: "aget (slots (get s)) i = Ret (slots r ! i)" using i Suc.prems(1) by simp
  note ih = Suc.IH [of _ "Suc i"]
  show ?case
  proof (cases "real_pid (slots r ! i)")
    case True
    have l: "all_loop get fn (Suc n) i s = bind_run (fn (slots r ! i) s) (all_loop get fn n (Suc i))"
      using True by (simp add: g real_pid_def)
    show ?thesis
    proof (cases "fn (slots r ! i) s")
      case (Ret s')
      have "get s' = r" by (rule keeps [OF Suc.prems(1) Ret])
      then show ?thesis unfolding l d using ih [of s'] Suc.prems(2) True Ret by simp
    qed (unfold l d, use True in simp_all)
  next
    case False
    have "all_loop get fn (Suc n) i s = all_loop get fn n (Suc i) s"
      using False by (auto simp: g real_pid_def)
    then show ?thesis unfolding d using ih [of s] Suc.prems False by simp
  qed
qed simp

lemma iterateAll_visit:
  assumes "rs_ok r" and "get s = r" and "\<And>p s s'. get s = r \<Longrightarrow> fn p s = Ret s' \<Longrightarrow> get s' = r"
  shows "iterateAll get fn s = visit_list fn (residents r) s"
proof -
  obtain k where k: "rs_inv k r" using assms(1) by (auto simp: rs_ok_def)
  note I = rs_invD [OF k]
  have "unat (rcount r) = length (slots r)" using I(1,2,4) by (simp add: unat_pow2)
  then show ?thesis
    using all_loop_visit [of get r fn s 0 "length (slots r)", OF assms(3) assms(2)] assms(2)
    by (simp add: iterateAll_def residents_def)
qed

lemma distinct_filter_nth:
  "(\<And>i j. i < length xs \<Longrightarrow> j < length xs \<Longrightarrow> P (xs ! i) \<Longrightarrow> xs ! i = xs ! j \<Longrightarrow> i = j) \<Longrightarrow> distinct (filter P xs)"
proof (induction xs)
  case (Cons x xs)
  have "x \<notin> set xs" if "P x"
  proof
    assume "x \<in> set xs"
    then obtain j where "j < length xs" "xs ! j = x" by (auto simp: in_set_conv_nth)
    then show False using Cons.prems [of 0 "Suc j"] that by simp
  qed
  moreover have "distinct (filter P xs)" by (rule Cons.IH) (use Cons.prems [of "Suc _" "Suc _"] in auto)
  ultimately show ?case by auto
qed simp

lemma residents_ok:
  assumes "rs_ok r"
  shows "set (residents r) = members r" and "distinct (residents r)"
proof -
  show "set (residents r) = members r" by (simp add: residents_def members_def)
  obtain k where k: "rs_inv k r" using assms by (auto simp: rs_ok_def)
  note I = rs_invD [OF k]
  show "distinct (residents r)"
    unfolding residents_def by (rule distinct_filter_nth) (use I(2,5) in auto)
qed

section \<open>Collecting the dirty pages\<close>

definition is_dirty :: "bm \<Rightarrow> PID \<Rightarrow> bool" where
  "is_dirty s p \<longleftrightarrow> (\<exists>x. pg s p = Some x \<and> dirty (virtMem s ! x))"

definition dirty_list :: "bm \<Rightarrow> PID list \<Rightarrow> (PID \<times> nat) list" where
  "dirty_list s ps = map (\<lambda>p. (p, the (pg s p))) (filter (is_dirty s) ps)"

definition add_dirty :: "batches \<Rightarrow> PID \<times> nat \<Rightarrow> batches" where
  "add_dirty bs w = (let bs = (if length (last bs) = maxIOs then bs @ [[]] else bs) in butlast bs @ [last bs @ [w]])"

lemma add_dirty_one: "length b < maxIOs \<Longrightarrow> add_dirty [b] w = [b @ [w]]"
  by (simp add: add_dirty_def)

lemma adds_one: "length b + length ws \<le> maxIOs \<Longrightarrow> foldl add_dirty [b] ws = [b @ ws]"
  by (induction ws arbitrary: b) (simp_all add: add_dirty_one)

lemma add_dirty_full:
  assumes "bs \<noteq> []" and "length (hd bs) = maxIOs"
  shows "add_dirty bs w \<noteq> []" and "length (hd (add_dirty bs w)) = maxIOs"
  using assms by (cases bs; cases "tl bs" rule: rev_cases; auto simp: add_dirty_def Let_def hd_append butlast_append)+

lemma adds_full:
  "bs \<noteq> [] \<Longrightarrow> length (hd bs) = maxIOs \<Longrightarrow> foldl add_dirty bs ws \<noteq> [] \<and> length (hd (foldl add_dirty bs ws)) = maxIOs"
  by (induction ws arbitrary: bs) (simp_all add: add_dirty_full)

lemma adds_many:
  assumes "maxIOs \<le> length ws"
  obtains b bs where "foldl add_dirty [[]] ws = b # bs" "length b = maxIOs"
proof -
  have "foldl add_dirty [[]] ws = foldl add_dirty (foldl add_dirty [[]] (take maxIOs ws)) (drop maxIOs ws)"
    by (simp flip: foldl_append)
  also have "foldl add_dirty [[]] (take maxIOs ws) = [take maxIOs ws]" using adds_one [of "[]" "take maxIOs ws"] by simp
  finally have "foldl add_dirty [[]] ws = foldl add_dirty [take maxIOs ws] (drop maxIOs ws)" .
  moreover have "length (take maxIOs ws) = maxIOs" using assms by simp
  ultimately have "foldl add_dirty [[]] ws \<noteq> [] \<and> length (hd (foldl add_dirty [[]] ws)) = maxIOs"
    using adds_full [of "[take maxIOs ws]" "drop maxIOs ws"] by simp
  then show thesis using that [of "hd (foldl add_dirty [[]] ws)" "tl (foldl add_dirty [[]] ws)"] by simp
qed

lemma resident_frame:
  assumes inv: "pool_inv n {} {} s" and p: "p \<in> dom (res s)" and s1: "same_but_rng s s1"
  obtains r x t where "bm_access p (bm_hash s1 p) s1 = Ret ((Some r, bstate (bf_at s r)), t)" "same_but_rng s t"
    "page_of t r = Ret x" "aget (virtMem t) x = Ret (virtMem s ! x)" "pg s p = Some x" "res s p = Some r"
proof -
  note R = same_but_rng_inv [OF s1]
  obtain r where r: "res s p = Some r" using p by blast
  have p0: "p \<noteq> pid_none" using r by auto
  have "tab_inv n s1" using pool_invD(1) [OF inv] by (simp add: R)
  from bm_access_res [OF this p0] r obtain t where t: "bm_access p (bm_hash s1 p) s1 = Ret ((Some r, bstate (bf_at s1 r)), t)"
    "same_but_rng s1 t" by (auto simp: R)
  have st: "same_but_rng s t" using s1 t(2) unfolding same_but_rng_def by fastforce
  obtain x where x: "pg s p = Some x" "bpage (bf_at s r) = Some x" "x < length (virtMem s)"
    by (rule owned_slot [OF pool_invD(2) [OF inv] r]) auto
  show thesis
    by (rule that [of r t x]) (use t(1) st x r in \<open>simp_all add: R same_but_rng_inv [OF st] page_of_def\<close>)
qed

lemma collect_list:
  assumes inv: "pool_inv n {} {} s"
  shows "set ps \<subseteq> dom (res s) \<Longrightarrow> same_but_rng s s1 \<Longrightarrow> bs \<noteq> [] \<Longrightarrow>
    \<exists>t. visit_list flush_collect ps (s1, bs) = Ret (t, foldl add_dirty bs (dirty_list s ps)) \<and> same_but_rng s t"
proof (induction ps arbitrary: s1 bs)
  case (Cons p ps)
  from Cons.prems(1) have p: "p \<in> dom (res s)" by simp
  obtain r x t where t: "bm_access p (bm_hash s1 p) s1 = Ret ((Some r, bstate (bf_at s r)), t)" "same_but_rng s t"
    "page_of t r = Ret x" "aget (virtMem t) x = Ret (virtMem s ! x)" "pg s p = Some x"
    by (rule resident_frame [OF inv p Cons.prems(2)]) auto
  define bs' where "bs' = (if is_dirty s p then add_dirty bs (p, x) else bs)"
  have "flush_collect p (s1, bs) = Ret (t, bs')"
    using t(1,3,4,5) by (simp add: flush_collect_def bs'_def is_dirty_def add_dirty_def Let_def)
  moreover have "bs' \<noteq> []" using Cons.prems(3) by (simp add: bs'_def add_dirty_def Let_def)
  moreover have "foldl add_dirty bs (dirty_list s (p # ps)) = foldl add_dirty bs' (dirty_list s ps)"
    using t(5) by (simp add: dirty_list_def bs'_def)
  ultimately show ?case using Cons.IH [OF _ t(2), of bs'] Cons.prems(1) by simp
qed (auto simp: dirty_list_def)

lemma verify_list:
  assumes inv: "pool_inv n {} {} s" and c: "\<And>p. p \<in> dom (res s) \<Longrightarrow> \<not> is_dirty s p"
  shows "set ps \<subseteq> dom (res s) \<Longrightarrow> same_but_rng s s1 \<Longrightarrow> \<exists>t. visit_list flush_verify ps s1 = Ret t \<and> same_but_rng s t"
proof (induction ps arbitrary: s1)
  case (Cons p ps)
  from Cons.prems(1) have p: "p \<in> dom (res s)" by simp
  obtain r x t where t: "bm_access p (bm_hash s1 p) s1 = Ret ((Some r, bstate (bf_at s r)), t)" "same_but_rng s t"
    "page_of t r = Ret x" "aget (virtMem t) x = Ret (virtMem s ! x)" "pg s p = Some x"
    by (rule resident_frame [OF inv p Cons.prems(2)]) auto
  have "flush_verify p s1 = Ret t" using t c [OF p] by (simp add: flush_verify_def is_dirty_def)
  then show ?case using Cons.IH [OF _ t(2)] Cons.prems(1) by simp
qed auto

section \<open>flush\<close>

definition dirty_pages :: "bm \<Rightarrow> PID set" where
  "dirty_pages s = {p \<in> dom (res s). is_dirty s p}"

lemma same_residents: "same_but_rng s s' \<Longrightarrow> residentSet s' = residentSet s"
  by (auto simp: same_but_rng_def)

lemma flush_collect_keeps: "flush_collect p (s, bs) = Ret (s', bs') \<Longrightarrow> residentSet s' = residentSet s"
  by (auto simp: flush_collect_def bm_access_def draw_def run_simps Let_def split: prod.splits if_splits option.splits)

lemma flush_verify_keeps: "flush_verify p s = Ret s' \<Longrightarrow> residentSet s' = residentSet s"
  by (auto simp: flush_verify_def bm_access_def draw_def run_simps Let_def check_def split: prod.splits if_splits option.splits)

lemma flush_steps:
  assumes inv: "pool_inv n {} {} s"
  obtains t where "same_but_rng s t" "flush s =
    bind_run (write_batches (foldl add_dirty [[]] (dirty_list s (residents (residentSet s)))) t) (iterateAll residentSet flush_verify)"
proof -
  note T = tab_invD [OF pool_invD(1) [OF inv]]
  have "set (residents (residentSet s)) \<subseteq> dom (res s)" using residents_ok(1) T by simp
  from collect_list [OF inv this same_but_rng_refl, of "[[]]"] obtain t where
    t: "visit_list flush_collect (residents (residentSet s)) (s, [[]]) = Ret (t, foldl add_dirty [[]] (dirty_list s (residents (residentSet s))))"
    "same_but_rng s t" by auto
  have "iterateAll (\<lambda>(s, bs). residentSet s) flush_collect (s, [[]]) = visit_list flush_collect (residents (residentSet s)) (s, [[]])"
    by (rule iterateAll_visit) (use T in \<open>auto dest: flush_collect_keeps\<close>)
  then have "flush s = bind_run (write_batches (foldl add_dirty [[]] (dirty_list s (residents (residentSet s)))) t)
      (iterateAll residentSet flush_verify)"
    using t(1) by (simp add: flush_def)
  then show thesis using that t(2) by blast
qed

lemma dirty_list_facts:
  assumes inv: "pool_inv n {} {} s"
  defines "ws \<equiv> dirty_list s (residents (residentSet s))"
  shows "distinct (map fst ws)" "length ws = card (dirty_pages s)" "set ws = {(p, x). p \<in> dirty_pages s \<and> pg s p = Some x}"
proof -
  note T = tab_invD [OF pool_invD(1) [OF inv]]
  have f: "map fst ws = filter (is_dirty s) (residents (residentSet s))"
    by (simp add: ws_def dirty_list_def comp_def)
  have r: "set (residents (residentSet s)) = dom (res s)" "distinct (residents (residentSet s))"
    using residents_ok T by simp_all
  then have s: "set (map fst ws) = dirty_pages s" unfolding f by (auto simp: dirty_pages_def)
  show d: "distinct (map fst ws)" unfolding f using r(2) by simp
  show "length ws = card (dirty_pages s)" using distinct_card [OF d] s by simp
  show "set ws = {(p, x). p \<in> dirty_pages s \<and> pg s p = Some x}"
    using r(1) by (auto simp: ws_def dirty_list_def dirty_pages_def is_dirty_def)
qed

lemma flush_many:
  assumes inv: "pool_inv n {} {} s" and c: "maxIOs \<le> card (dirty_pages s)"
  shows "flush s = Err (Assertion ''pages.size() < maxIOs'')"
proof -
  obtain t where t: "flush s = bind_run (write_batches (foldl add_dirty [[]] (dirty_list s (residents (residentSet s)))) t)
      (iterateAll residentSet flush_verify)"
    by (rule flush_steps [OF inv])
  obtain b bs where b: "foldl add_dirty [[]] (dirty_list s (residents (residentSet s))) = b # bs" "length b = maxIOs"
    by (rule adds_many) (use dirty_list_facts(2) [OF inv] c in auto)
  show ?thesis unfolding t b(1) using b(2) by (simp add: writePages_def check_def)
qed

lemma flush_few:
  assumes inv: "pool_inv n {} {} s" and c: "card (dirty_pages s) < maxIOs"
  shows "\<exists>s'. flush s = Ret s' \<and> pool_inv n {} {} s' \<and> view s' = view s \<and> env s' = env s \<and> res s' = res s \<and> bf_at s' = bf_at s \<and>
    residentSet s' = residentSet s \<and> dirty_pages s' = {} \<and> (\<forall>p \<in> dom (res s). map_option body (disk s' (loc s' p)) = view s p)"
proof -
  let ?ws = "dirty_list s (residents (residentSet s))"
  note W = dirty_list_facts [OF inv]
  obtain t where t: "same_but_rng s t" "flush s = bind_run (write_batches (foldl add_dirty [[]] ?ws) t) (iterateAll residentSet flush_verify)"
    by (rule flush_steps [OF inv])
  note R = same_but_rng_inv [OF t(1)]
  have invt: "pool_inv n {} {} t" using inv by (simp add: R)
  have "length ?ws < maxIOs" using c W(2) by simp
  then have one: "foldl add_dirty [[]] ?ws = [?ws]" using adds_one [of "[]" ?ws] by simp
  have "to_write_ok {} t ?ws" using W c by (auto simp: to_write_ok_def R dirty_pages_def)
  from writePages_ok [OF invt this] obtain u where u: "writePages ?ws t = Ret u" "pool_inv n {} {} u" "view u = view t"
    "env u = env t" "ht u = ht t" "residentSet u = residentSet t"
    "\<forall>(p, x) \<in> set ?ws. disk u (loc u p) = Some (virtMem u ! x) \<and> \<not> dirty (virtMem u ! x)"
    "\<forall>x < length (virtMem t). x \<notin> snd ` set ?ws \<longrightarrow> virtMem u ! x = virtMem t ! x" by (auto simp: fun_eq_iff)
  have b: "bf_at u = bf_at s" "pg u = pg s" "res u = res s"
    using u(5) R(7) by (simp_all add: bf_at_def pg_def fun_eq_iff cong: option.case_cong)
  have clean: "\<not> is_dirty u p" if p: "p \<in> dom (res u)" for p
  proof
    assume "is_dirty u p"
    then obtain x where x: "pg u p = Some x" "dirty (virtMem u ! x)" by (auto simp: is_dirty_def)
    have xl: "x < length (virtMem s)"
      using owned_slot [OF pool_invD(2) [OF inv], of p] p x(1) b by (metis domD empty_iff option.inject)
    show False
    proof (cases "x \<in> snd ` set ?ws")
      case True
      then obtain q where "(q, x) \<in> set ?ws" by auto
      then show False using u(7) x(2) by auto
    next
      case False
      then have "virtMem u ! x = virtMem s ! x" using u(8) xl by (simp add: R)
      then have "p \<in> dirty_pages s" using x p b by (auto simp: dirty_pages_def is_dirty_def)
      then have "(p, x) \<in> set ?ws" using W(3) x(1) b(2) by auto
      then show False using False by force
    qed
  qed
  note T = tab_invD [OF pool_invD(1) [OF u(2)]]
  have "set (residents (residentSet u)) \<subseteq> dom (res u)" using residents_ok(1) T by simp
  from verify_list [OF u(2) clean this same_but_rng_refl] obtain s' where
    v: "visit_list flush_verify (residents (residentSet u)) u = Ret s'" "same_but_rng u s'" by blast
  note R' = same_but_rng_inv [OF v(2)]
  have "iterateAll residentSet flush_verify u = Ret s'"
    using iterateAll_visit [of "residentSet u" residentSet u flush_verify, OF T(4) refl] flush_verify_keeps v(1) by simp
  then have "flush s = Ret s'" unfolding t(2) one using u(1) by simp
  moreover have cl: "dirty_pages s' = {}" using clean by (auto simp: dirty_pages_def is_dirty_def R')
  moreover have "map_option body (disk s' (loc s' p)) = view s p" if p: "p \<in> dom (res s)" for p
  proof -
    obtain r where r: "res s' p = Some r" using p b(3) by (auto simp: R')
    have i: "pool_inv n {} {} s'" using u(2) by (simp add: R')
    obtain x where x: "pg s' p = Some x" by (rule owned_slot [OF pool_invD(2) [OF i] r]) auto
    have "\<not> dirty (virtMem s' ! x)" using cl r x by (auto simp: dirty_pages_def is_dirty_def)
    then have "map_option body (disk s' (loc s' p)) = Some (body (virtMem s' ! x))"
      using pool_invD(3) [OF i] r x unfolding disk_inv_def by blast
    also have "\<dots> = view s' p" using r x by (simp add: view_def)
    finally show ?thesis using u(3) by (simp add: R R')
  qed
  moreover have "pool_inv n {} {} s'" "view s' = view s" "env s' = env s" "res s' = res s" "bf_at s' = bf_at s"
    using u(2-4) b by (simp_all add: R R')
  moreover have "residentSet s' = residentSet s" using u(6) same_residents [OF t(1)] same_residents [OF v(2)] by simp
  ultimately show ?thesis by blast
qed

section \<open>clear\<close>

lemma remove_unlocked:
  assumes t: "tab_inv n s" and p: "res s p = Some r" and st: "st s p \<noteq> Locked"
  shows "\<exists>msg. ht_remove p (bm_hash s p) (ht s) = Err (Assertion msg)"
proof -
  let ?t = "ht s" and ?i = "home (ht s) p"
  have p0: "p \<noteq> pid_none" using p by auto
  have acc: "ht_access False 0 p (bm_hash s p) ?t = Ret ((Some r, bstate (bf_at s r)), ?t)"
    using access_res [OF t p0] p by simp
  have "dom (res s) \<noteq> {}" using p by auto
  then have "card (dom (res s)) \<noteq> 0" using tab_invD(2) [OF t] by simp
  then obtain m where m: "n + card (dom (res s)) = Suc m" by (cases "n + card (dom (res s))") auto
  obtain chs where L: "lock_room (Suc m) ?t" "shape chs ?t" using tab_invD(1) [OF t] m by (auto elim: table_okE)
  have i: "?i < buckets ?t" by (rule home_less [OF L(2)])
  note K = lock_roomD(1,2) [OF L(1) i]
  have idx: "unat (ht_index (hcount ?t) (bm_hash s p)) = ?i" by (simp add: bm_hash_def bucket_index)
  have stv: "getState (bstate (frame_at ?t r)) \<noteq> Locked" using st pg_st_Some [OF p] by (simp add: bf_at_def)
  show ?thesis
  proof (cases "bpid (ebf (head (table ?t ! ?i))) = p")
    case True
    then have "r = Head ?i" using acc K i by (simp add: ht_access_def idx Let_def)
    then show ?thesis using True stv K i by (simp add: ht_remove_def idx Let_def check_def frame_at_def)
  next
    case False
    obtain prev e where "find_prev (length (heap ?t)) (heap ?t) p None (enext (head (table ?t ! ?i))) = Ret (prev, Some e)" "r = Chain e"
      using acc K i False by (auto simp: ht_access_def idx run_simps Let_def split: option.splits)
    then show ?thesis using False stv K i by (simp add: ht_remove_def idx Let_def check_def)
  qed
qed

lemma clear_fails:
  assumes inv: "pool_inv n {} {} s" and c: "card (dirty_pages s) < maxIOs" and ne: "res s \<noteq> Map.empty"
    and st: "\<And>p. st s p \<noteq> Locked"
  shows "\<exists>msg. clear s = Err (Assertion msg)"
proof -
  obtain t where t: "flush s = Ret t" "pool_inv n {} {} t" "res t = res s" "bf_at t = bf_at s"
    using flush_few [OF inv c] by blast
  note T = tab_invD [OF pool_invD(1) [OF t(2)]]
  have pids: "iterateAll (\<lambda>(s, pids). residentSet s) (\<lambda>pid (s, pids). Ret (s, pids @ [pid])) (t, []) =
      visit_list (\<lambda>pid (s, pids). Ret (s, pids @ [pid])) (residents (residentSet t)) (t, [])"
    by (rule iterateAll_visit) (use T in auto)
  have "visit_list (\<lambda>pid (s, pids). Ret (s, pids @ [pid])) ps (u, qs) = Ret (u, qs @ ps)" for ps qs and u :: bm
    by (induction ps arbitrary: qs) simp_all
  then have cl: "clear s = clear_pages (residents (residentSet t)) t" by (simp add: clear_def t(1) pids)
  have r: "set (residents (residentSet t)) = dom (res t)" using residents_ok(1) T by simp
  have "dom (res t) \<noteq> {}" using ne t(3) by simp
  then obtain p ps where p: "residents (residentSet t) = p # ps" "p \<in> dom (res t)" using r by (cases "residents (residentSet t)") auto
  obtain r0 x u where u: "bm_access p (bm_hash t p) t = Ret ((Some r0, bstate (bf_at t r0)), u)" "same_but_rng t u"
    "page_of u r0 = Ret x" "pg t p = Some x" "res t p = Some r0"
    by (rule resident_frame [OF t(2) p(2) same_but_rng_refl]) auto
  note R = same_but_rng_inv [OF u(2)]
  have x: "x < length (virtMemPids u)"
    using used_frame [OF pool_invD(2) [OF t(2)] p(2) u(4)] frame_invD(2) [OF pool_invD(2) [OF t(2)]] by (simp add: R)
  obtain v where v: "set_pid x pid_none u = Ret v" "ht v = ht u" "bm_hash v p = bm_hash u p"
    using x by (auto simp: set_pid_def bm_hash_def)
  have "st u p \<noteq> Locked" using st [of p] u(5) t(3,4) by (simp add: R) (simp add: st_def t)
  from remove_unlocked [OF _ _ this, of n r0] obtain msg where "ht_remove p (bm_hash u p) (ht u) = Err (Assertion msg)"
    using pool_invD(1) [OF t(2)] u(5) by (auto simp: R)
  then show ?thesis unfolding cl p(1) using u(1,3) v by simp
qed

end
