(* ===== verification/Pool_Service.thy ===== *)
theory Pool_Service
  imports Pool_Sessions Pool_Flush
begin

text \<open>
  The buffer manager from its constructor on: the state that the constructor leaves is ready for
  sessions. The statements about the pool that clients rely on.
\<close>

section \<open>The pool that the constructor leaves\<close>

definition service_ok :: "world \<Rightarrow> bool" where
  "service_ok w \<longleftrightarrow> world_ok w \<and> deq_total (w_pop w) \<and> \<not> adapting (cbp_init (getenv w)) \<and>
     (\<forall>l q. w_disk w l = Some q \<longrightarrow> length (body q) = 4080) \<and> list_all (opens w) (block_paths (getenv w))"

lemma rs_new_slots: "rs_new c = Ret rs \<Longrightarrow> set (slots rs) \<subseteq> {rs_empty}"
  by (auto simp: rs_new_def run_simps)

lemma shape_new:
  assumes w: "service_ok w" and r: "bm_new fuel w = Ret s"
  shows "shape ({0}, 1) s"
proof -
  have W: "unat (w_tid w) < 256" "w_leaf w < 4096" "cbp_inv (cbp_init (getenv w))" "\<not> adapting (cbp_init (getenv w))"
    "\<forall>l q. w_disk w l = Some q \<longrightarrow> length (body q) = 4080"
    using w cbp_init_inv by (auto simp: service_ok_def world_ok_def)
  have b: "shape ({0}, 0) (bm_blank w f bat rs t)" if "set (slots rs) \<subseteq> {rs_empty}" for f bat rs t
    using W that by (auto simp: shape_def bm_blank_def empty_page_def)
  obtain f rs bat us r0 s0 u where *: "rs_new f = Ret rs" "allocPage fuel (bm_blank w f bat rs (ht_new us)) = Ret (r0, s0)"
    "s = (upd_bf r0 (\<lambda>bf. bf\<lparr>bstate := u\<rparr>) s0)\<lparr>readCount := 0, writeCount := 0\<rparr>"
    using r by (auto simp: bm_new_def run_simps Let_def split: if_splits)
  have "shape ({0}, 0 + 1) s0" by (rule shape_alloc [OF *(2) b [OF rs_new_slots [OF *(1)]]]) simp
  then show ?thesis by (simp add: *(3))
qed

lemma session_new:
  assumes w: "service_ok w"
    and g: "envOr (getenv w) ''POOLGB'' 1 = Ret gbs" "frames = gbs * 2 ^ 30 div 4096" "5 \<le> unat frames" "unat frames \<le> 2 ^ 29"
    and b: "envOr (getenv w) ''BATCH'' 64 = Ret bat" "0 < bat" "unat bat \<le> 128" and n: "n < 2 ^ 62"
  shows "\<exists>s. bm_new fuel w = Ret s \<and> session n s \<and> low s \<and> dom (res s) = {0} \<and> allocCount s = 1 \<and> view s 0 \<noteq> None"
proof -
  have W: "world_ok w" "list_all (opens w) (block_paths (getenv w))" "deq_total (w_pop w)" using w by (auto simp: service_ok_def)
  have f2: "2 \<le> unat frames" using g(3) by simp
  obtain s where s: "bm_new fuel w = Ret s" "pool_inv n {} {} s" "dom (res s) = {0}" "st s 0 = Unlocked" "allocCount s = 1"
    "frameCount s = frames" "batch s = bat" "low s" "queue_pop s = w_pop w"
    using bm_new_ok [OF W(1,2) g(1,2) f2 g(4) b(1,3) n, of fuel] by blast
  have "{p :: u64. p < 1} = {0}" by (auto simp: word_less_nat_alt) (simp add: unat_eq_zero)
  then have "shape ({p. p < allocCount s}, allocCount s) s" using shape_new [OF w s(1)] s(5) by simp
  moreover have "serves 4 s" using s g(3) b W(3) by (simp add: serves_def)
  moreover have "pinned s = {}" using s(3,4) by (auto simp: pinned_def)
  moreover have "real_pid p" if "p < 1" for p :: u64
  proof -
    have "p = 0" using that by (simp add: word_less_nat_alt unat_eq_zero)
    then show ?thesis by (simp add: real_pid_def)
  qed
  ultimately have "session n s" using s(2,5) by (simp add: session_def)
  moreover have "view s 0 \<noteq> None"
  proof -
    obtain r where r: "res s 0 = Some r" using s(3) by blast
    show ?thesis by (rule owned_slot [OF pool_invD(2) [OF s(2)] r]) (auto simp: view_def r)
  qed
  ultimately show ?thesis using s(1,3,5,8) by blast
qed

lemma opened_resident_low:
  assumes ses: "session n s" and lo: "low s" and p: "res s p = Some r" and o1: "opened h (Read p) s = Ret (a, s1)"
  shows "low s1"
proof -
  note S = sessionD [OF ses]
  have "p \<notin> pinned s" using S(2) by simp
  then have st: "st s p = Unlocked \<or> st s p = Marked" using p by (auto simp: pinned_def)
  let ?v = "bstate (bf_at s r)"
  obtain t where t: "bm_access p (bm_hash s p) s = Ret ((Some r, ?v), t)" "same_but_rng s t"
    using bm_access_res [OF pool_invD(1) [OF S(1)], of p] p by (cases "p = pid_none") auto
  note R = same_but_rng_inv [OF t(2)]
  obtain w where w: "tryLockS ?v ?v = (True, w)" "versionOf w = versionOf ?v"
    using st tryLockS_self [of ?v] pg_st_Some [OF p] by auto
  obtain h' where h: "h = Suc h'" using o1 by (cases h) (auto simp: opened_def guardS_new_def)
  have "fixS h h p s = Ret (r, set_state r w t)" using t(1) w(1) unfolding h by (simp add: R set_state_def)
  then have "s1 = set_state r w t" using o1 by (auto simp: opened_def guardS_new_def run_simps simp del: fixS.simps)
  moreover have "low (set_state r w t)"
    by (rule low_set_state [of n "{}" t p]) (use S(1) p lo w(2) low_core [OF same_core_rng [OF t(2)]] in \<open>simp_all add: R\<close>)
  ultimately show ?thesis by simp
qed

text \<open>A machine without environment variables gives a pool for sessions.\<close>

lemma example_service: "service_ok example_world"
  by (simp add: service_ok_def example_world_ok) (simp add: example_world_def deq_total_def fifo_def cbp_init_def adapting_def Let_def env_flag_def split: list.split)

lemma example_pool:
  "\<exists>s. bm_new 0 example_world = Ret s \<and> session 1000 s \<and> low s \<and> dom (res s) = {0} \<and> allocCount s = 1 \<and> view s 0 \<noteq> None"
proof -
  have "envOr (getenv example_world) ''POOLGB'' 1 = Ret 1" "envOr (getenv example_world) ''BATCH'' 64 = Ret 64"
    by (simp_all add: example_world_def envOr_def)
  from session_new [OF example_service this(1) refl _ _ this(2), of 1000 0] show ?thesis by simp
qed

section \<open>What clients rely on\<close>

text \<open>
  C1: a history of sessions on the pool behaves as the same history on a map. From the
  constructor on, for every history that the map allows, there is an amount of fuel from which
  on every session returns, gives the answer of the map, and leaves a pool that stands for the
  map and is ready for the next session. Pages are evicted, read and promoted on the way as the
  code decides. The condition on versions is that no page is at version \<open>2 ^ 56 - 1\<close> while a
  guard on it is closed.
\<close>

theorem sessions_refine_store:
  assumes "service_ok w" and "envOr (getenv w) ''POOLGB'' 1 = Ret gbs" and "frames = gbs * 2 ^ 30 div 4096"
    and "5 \<le> unat frames" and "unat frames \<le> 2 ^ 29"
    and "envOr (getenv w) ''BATCH'' 64 = Ret bat" and "0 < bat" and "unat bat \<le> 128"
    and "2 * length qs + n < 2 ^ 62"
  shows "\<exists>s. bm_new f w = Ret s \<and> allocCount s = 1 \<and> view s 0 \<noteq> None \<and>
    (\<forall>as m. store_run qs (store_of s) = Some (as, m) \<longrightarrow>
      (\<exists>h. \<forall>fuel \<ge> h. fresh_run fuel qs s \<longrightarrow> (\<exists>s'. serve_all fuel qs s = Ret (as, s') \<and> session n s' \<and> store_of s' = m)))"
  using session_new [OF assms(1-9), of f] run_sessions [of qs n] by blast

theorem sessions_refine_store_witness:
  "\<exists>s b h s'. bm_new 0 example_world = Ret s \<and> serve_all h [Read 0] s = Ret ([Content b], s') \<and> store_of s' = store_of s"
proof -
  have e: "envOr (getenv example_world) ''POOLGB'' 1 = Ret 1" "envOr (getenv example_world) ''BATCH'' 64 = Ret 64"
    by (simp_all add: example_world_def envOr_def)
  obtain s where s: "bm_new 0 example_world = Ret s" "session 1000 s" "low s" "dom (res s) = {0}" "allocCount s = 1"
    using example_pool by blast
  obtain t where t: "bm_new 0 example_world = Ret t" "allocCount t = 1" "view t 0 \<noteq> None"
    "\<forall>as m. store_run [Read 0] (store_of t) = Some (as, m) \<longrightarrow>
      (\<exists>h. \<forall>fuel \<ge> h. fresh_run fuel [Read 0] t \<longrightarrow> (\<exists>s'. serve_all fuel [Read 0] t = Ret (as, s') \<and> session 0 s' \<and> store_of s' = m))"
    using sessions_refine_store [OF example_service e(1) refl _ _ e(2), of "[Read 0]" 0 0] by auto
  have ts: "t = s" using s(1) t(1) by simp
  obtain b where b: "view s 0 = Some b" using t(3) ts by blast
  then have "store_run [Read 0] (store_of s) = Some ([Content b], store_of s)" using s(5) by (simp add: store_of_def)
  then obtain h where h: "\<forall>fuel \<ge> h. fresh_run fuel [Read 0] s \<longrightarrow>
      (\<exists>s'. serve_all fuel [Read 0] s = Ret ([Content b], s') \<and> session 0 s' \<and> store_of s' = store_of s)"
    using t(4) ts by blast
  have "fresh_run h [Read 0] s"
  proof -
    obtain r where "res s 0 = Some r" using s(4) by blast
    then show ?thesis using opened_resident_low [OF s(2,3)] by (auto split: run.split)
  qed
  then show ?thesis using h s(1) by blast
qed

text \<open>
  C3: eviction is transparent. In every pool, whoever holds pages, one call of \<open>evict\<close> returns;
  every page keeps its content, a dirty victim on its device, and the frames of the pages that
  are held have not moved.
\<close>

theorem eviction_transparent:
  assumes "pool_inv n {} {} s" and "unat (batch s) \<le> 128"
  shows "\<exists>s'. evict s = Ret s' \<and> pool_inv n {} {} s' \<and> view s' = view s \<and> env s' = env s \<and> held (pinned s) s s' \<and>
    pinned s' \<subseteq> pinned s"
  using evict_correct [OF assms] by (auto simp: fun_eq_iff)

theorem eviction_transparent_witness:
  "\<exists>s s'. bm_new 0 example_world = Ret s \<and> evict s = Ret s' \<and> view s' = view s"
proof -
  obtain s where s: "bm_new 0 example_world = Ret s" "session 1000 s" using example_pool by blast
  then show ?thesis using eviction_transparent [OF sessionD(1,6) [OF s(2)]] by blast
qed

text \<open>
  C4: getting a frame is live and gives a free frame. A thread that waits for a frame gets one,
  although compare-and-swaps fail spuriously (finitely often) and the dirty victims have to be
  written first, as long as fewer pages are held than the pool has frames (with batches of 1 to 128 pages, and a queue
  that gives a frame whenever it has one). The frame it gets is
  reserved for its page alone: the pid array names the page there, no resident page has its content
  in the frame, and the frame is the only one that the invariant counts as reserved. No content
  changes, and the pages that are held keep their frames.
\<close>

theorem free_frame_found:
  assumes "pool_inv n {} {} s" and "unat (batch s) \<le> 128" and "0 < batch s" and "deq_total (queue_pop s)" and "p \<noteq> pid_none"
    and "card (pinned s) < unat (frameCount s)"
  shows "\<exists>h x s'. (\<forall>fuel \<ge> h. getFreePageHTCache fuel p s = Ret (x, s') \<and> x < length (virtMem s') \<and> view s' = view s) \<and>
    x < unat (frameCount s) \<and> virtMemPids s' ! x = p \<and> (\<forall>q \<in> dom (res s'). pg s' q \<noteq> Some x) \<and>
    pool_inv n {} {x} s' \<and> keeps (pinned s) s s' \<and> pinned s' \<subseteq> pinned s"
proof -
  have "returns (\<lambda>fuel. getFreePageHTCache fuel p s)" by (rule getFree_returns [OF assms(1-5)]) (use assms(6) in simp_all)
  then obtain h where h: "getFreePageHTCache h p s \<noteq> Loop" by (auto simp: returns_def)
  from getFreePage_ok [OF assms(1,2,5), of h] h obtain x s' where s': "getFreePageHTCache h p s = Ret (x, s')"
    "reserved n {} {} p s x s'" by auto
  have "x < length (virtMem s')"
    using s'(2) frame_invD(1) [of "{}" "{x}" s'] env_eqD(1) [of s' s] by (auto simp: reserved_def pool_inv_def)
  moreover have "view s' = view s" using s'(2) by (simp add: reserved_def fun_eq_iff)
  ultimately have "\<forall>fuel \<ge> h. getFreePageHTCache fuel p s = Ret (x, s') \<and> x < length (virtMem s') \<and> view s' = view s"
    using settled [OF mono_getFree s'(1)] by blast
  moreover have "x < unat (frameCount s)" "virtMemPids s' ! x = p" "\<forall>q \<in> dom (res s'). pg s' q \<noteq> Some x"
    "pool_inv n {} {x} s'" "keeps (pinned s) s s'" "pinned s' \<subseteq> pinned s" using s'(2) by (simp_all add: reserved_def)
  ultimately show ?thesis by blast
qed

theorem free_frame_found_witness:
  "\<exists>s h x s'. bm_new 0 example_world = Ret s \<and> (\<forall>fuel \<ge> h. getFreePageHTCache fuel 7 s = Ret (x, s')) \<and> view s' = view s \<and>
    virtMemPids s' ! x = 7 \<and> pool_inv 1000 {} {x} s'"
proof -
  obtain s where s: "bm_new 0 example_world = Ret s" "session 1000 s" using example_pool by blast
  then have "0 < batch s" "deq_total (queue_pop s)" "card (pinned s) < unat (frameCount s)"
    using sessionD(2,3) [OF s(2)] by (auto simp: serves_def)
  from free_frame_found [OF sessionD(1,6) [OF s(2)] this(1,2) _ this(3), of 7] obtain h x s' where
    r: "\<forall>fuel \<ge> h. getFreePageHTCache fuel 7 s = Ret (x, s') \<and> x < length (virtMem s') \<and> view s' = view s"
    "virtMemPids s' ! x = 7" "pool_inv 1000 {} {x} s'" by auto
  then show ?thesis using s(1) by blast
qed

text \<open>
  C5: locking a page that nobody holds. A page in the pool or on its device is locked exclusively
  or shared, after it has been read if need be; its frame stays in the table, no content changes
  and the pages that others hold have not moved.
\<close>

theorem fix_locks_page:
  assumes "pool_inv (Suc (Suc n)) {} {} s" and "serves k s" and "card (pinned s) \<le> k"
    and "p \<notin> pinned s" and "real_pid p" and "view s p = Some b"
  shows "\<exists>h. \<forall>ff \<ge> h. \<forall>fuel. (\<exists>r s'. fixX ff (Suc fuel) p s = Ret (r, s') \<and> fixed n p Locked s r s') \<and>
    (\<exists>r s'. fixS ff (Suc fuel) p s = Ret (r, s') \<and> fixed n p 1 s r s')"
proof -
  obtain h where "\<forall>ff \<ge> h. \<forall>fuel. \<exists>r s'. fixX ff (Suc fuel) p s = Ret (r, s') \<and> fixed n p Locked s r s'"
    using fixX_gets [OF assms] by blast
  moreover obtain h' where "\<forall>ff \<ge> h'. \<forall>fuel. \<exists>r s'. fixS ff (Suc fuel) p s = Ret (r, s') \<and> fixed n p 1 s r s'"
    using fixS_gets [OF assms] by blast
  ultimately show ?thesis by (intro exI [of _ "max h h'"]) (metis max.boundedE)
qed

theorem fix_locks_page_witness:
  "\<exists>s h. bm_new 0 example_world = Ret s \<and> (\<forall>ff \<ge> h. \<exists>r s'. fixX ff 1 0 s = Ret (r, s') \<and> st s' 0 = Locked)"
proof -
  obtain s where s: "bm_new 0 example_world = Ret s" "session 1000 s" "allocCount s = 1" "view s 0 \<noteq> None" using example_pool by blast
  note S = sessionD [OF s(2)]
  obtain b where b: "view s 0 = Some b" using s(4) by blast
  have "pool_inv (Suc (Suc 998)) {} {} s" using S(1) by simp
  moreover have "card (pinned s) \<le> 4" "0 \<notin> pinned s" "(0 :: PID) < allocCount s" using S(2) s(3) by simp_all
  ultimately obtain h where h: "\<forall>ff \<ge> h. \<forall>fuel. (\<exists>r s'. fixX ff (Suc fuel) 0 s = Ret (r, s') \<and> fixed 998 0 Locked s r s') \<and>
    (\<exists>r s'. fixS ff (Suc fuel) 0 s = Ret (r, s') \<and> fixed 998 0 1 s r s')"
    using fix_locks_page [of 998 s 4 0 b] S(3) S(5) b by blast
  have "\<exists>r s'. fixX ff 1 0 s = Ret (r, s') \<and> st s' 0 = Locked" if "h \<le> ff" for ff
    using h [rule_format, OF that, of 0] unfolding One_nat_def fixed_def by blast
  then show ?thesis using s(1) by blast
qed

text \<open>
  A thread that locks a page it holds already waits for ever; the code has no check.
\<close>

theorem fixX_again_never_returns:
  assumes "pool_inv n {} {} s" and "res s p = Some r" and "p \<in> pinned s"
  shows "fixX ff fuel p s = Loop"
  using fixX_blocked [OF assms(1,2)] assms(3) by (simp add: pinned_def)

theorem fixX_again_never_returns_witness:
  "\<exists>s r s'. bm_new 0 example_world = Ret s \<and> fixX 0 1 0 s = Ret (r, s') \<and> (\<forall>ff fuel. fixX ff fuel 0 s' = Loop)"
proof -
  obtain s where s: "bm_new 0 example_world = Ret s" "session 1000 s" "dom (res s) = {0}" using example_pool by blast
  note S = sessionD [OF s(2)]
  obtain r where r: "res s 0 = Some r" using s(3) by blast
  have "st s 0 = Unlocked \<or> st s 0 = Marked" using S(2) r by (auto simp: pinned_def)
  from fixX_resident [OF S(1) r this, of 0 0] obtain s' where s': "fixX 0 1 0 s = Ret (r, s')" "fixed 1000 0 Locked s r s'" by auto
  then have "pool_inv 1000 {} {} s'" "res s' 0 = Some r" "0 \<in> pinned s'" by (auto simp: fixed_def pinned_def)
  from fixX_again_never_returns [OF this] show ?thesis using s(1) s'(1) by blast
qed

text \<open>
  C6: an exclusive release. \<open>unfixX\<close> returns with the page unlocked under the next version,
  after its statistics and perhaps its promotion, which moves the page to its preferred frame
  and may displace another page; no content changes and pages held by others have not moved.
\<close>

theorem unfixX_releases:
  assumes "pool_inv n {} {} s" and "serves k s" and "card (pinned s) < k" and "res s p = Some r" and "st s p = Locked"
    and "ctl_ok s" and "\<not> adapting (cbp_state s)" and "low s"
  shows "\<exists>h s'. (\<forall>fuel \<ge> h. unfixX fuel r s = Ret s') \<and> pool_inv n {} {} s' \<and> view s' = view s \<and> res s' p = Some r \<and>
    unlockX (bstate (bf_at s r)) = Ret (bstate (bf_at s' r)) \<and> keeps (pinned s - {p}) s s' \<and> pinned s' \<subseteq> pinned s - {p}"
proof -
  have "returns (\<lambda>fuel. unfixX fuel r s)" by (rule unfixX_returns [OF assms(1-4,6)])
  then obtain h where h: "unfixX h r s \<noteq> Loop" by (auto simp: returns_def)
  have "unat (batch s) \<le> 128" using assms(2) by (simp add: serves_def)
  from unfixX_ok [OF assms(1) this assms(4-6), of h] obtain s' where s': "unfixX h r s = Ret s'" "pool_inv n {} {} s'" "view s' = view s"
    "res s' p = Some r" "unlockX (bstate (bf_at s r)) = Ret (bstate (bf_at s' r))" "keeps (pinned s - {p}) s s'" "pinned s' \<subseteq> pinned s - {p}"
    using h assms(7,8) by (auto simp: released_x_def)
  then show ?thesis using settled [OF mono_unfixX s'(1)] by blast
qed

lemma example_locked:
  "\<exists>s r s'. bm_new 0 example_world = Ret s \<and> res s 0 = Some r \<and> fixX 0 1 0 s = Ret (r, s') \<and> fixed 1000 0 Locked s r s' \<and> pinned s' = {0} \<and>
    shape ({p. p < allocCount s}, allocCount s) s' \<and> serves 4 s' \<and> low s'"
proof -
  obtain s where s: "bm_new 0 example_world = Ret s" "session 1000 s" "low s" "dom (res s) = {0}" "allocCount s = 1" using example_pool by blast
  note S = sessionD [OF s(2)]
  obtain r where r: "res s 0 = Some r" using s(4) by blast
  have st: "st s 0 = Unlocked \<or> st s 0 = Marked" using S(2) r by (auto simp: pinned_def)
  let ?v = "bstate (bf_at s r)"
  obtain t where t: "bm_access 0 (bm_hash s 0) s = Ret ((Some r, ?v), t)" "same_but_rng s t"
    using bm_access_res [OF pool_invD(1) [OF S(1)], of 0] r by auto
  note R = same_but_rng_inv [OF t(2)]
  have v: "getState ?v = Unlocked \<or> getState ?v = Marked" using st pg_st_Some [OF r] by simp
  let ?s = "set_state r (sameVersion ?v Locked) t"
  have fx: "fixX 0 (Suc 0) 0 s = Ret (r, ?s)" using t(1) v tryLockX_self [OF v] by (simp add: R set_state_def)
  moreover have fd: "fixed 1000 0 Locked s r ?s" using set_state_fixed [OF S(1) t(2) r, of "sameVersion ?v Locked"] by simp
  moreover have "pinned ?s = {0}" using fd S(2) r by (auto simp: fixed_def pinned_def)
  moreover have "shape ({p. p < allocCount s}, allocCount s) ?s" by (rule shape_fixX [OF fx S(4)]) (use s(5) in simp)
  moreover have "serves 4 ?s" using serves_env [of ?s s] S(3) fd by (simp add: fixed_def)
  moreover have "low ?s"
    by (rule low_set_state [of 1000 "{}" t 0]) (use S(1) r s(3) low_core [OF same_core_rng [OF t(2)]] in \<open>simp_all add: R\<close>)
  ultimately show ?thesis using s(1) r by (metis One_nat_def)
qed

theorem unfixX_releases_witness:
  "\<exists>s r s1 h s'. bm_new 0 example_world = Ret s \<and> fixX 0 1 0 s = Ret (r, s1) \<and> (\<forall>fuel \<ge> h. unfixX fuel r s1 = Ret s') \<and>
    view s' = view s1 \<and> pinned s' = {}"
proof -
  obtain s r s1 where *: "bm_new 0 example_world = Ret s" "fixX 0 1 0 s = Ret (r, s1)" "fixed 1000 0 Locked s r s1" "pinned s1 = {0}"
    "shape ({p. p < allocCount s}, allocCount s) s1" "serves 4 s1" "low s1"
    using example_locked by blast
  have "pool_inv 1000 {} {} s1" "card (pinned s1) < 4" "res s1 0 = Some r" "st s1 0 = Locked" using *(3,4) by (simp_all add: fixed_def)
  from unfixX_releases [OF this(1) *(6) this(2-4) shape_ctl [OF *(5)] _ *(7)] obtain h s' where
    "\<forall>fuel \<ge> h. unfixX fuel r s1 = Ret s'" "view s' = view s1" "pinned s' \<subseteq> pinned s1 - {0}"
    using *(5) by (auto simp: shape_def)
  then show ?thesis using *(1,2,4) by blast
qed

text \<open>
  C37: allocation. \<open>allocPage\<close> returns a page that is locked exclusively, dirty and has the next
  page id; no other page changes its content.
\<close>

theorem allocPage_gives_next:
  assumes "pool_inv (Suc (Suc n)) {} {} s" and "serves k s" and "card (pinned s) \<le> k"
    and "res s (allocCount s) = None" and "real_pid (allocCount s)"
  shows "\<exists>h r s'. (\<forall>fuel \<ge> h. allocPage fuel s = Ret (r, s')) \<and> allocated n (allocCount s) s r s'"
proof -
  have "returns (\<lambda>fuel. allocPage fuel s)" by (rule allocPage_returns [OF assms])
  then obtain h where h: "allocPage h s \<noteq> Loop" by (auto simp: returns_def)
  have "unat (batch s) \<le> 128" using assms(2) by (simp add: serves_def)
  from allocPage_ok [OF assms(1) this assms(4,5), of h] h obtain r s' where s': "allocPage h s = Ret (r, s')" "allocated n (allocCount s) s r s'" by blast
  then show ?thesis using settled [OF mono_alloc s'(1)] by blast
qed

theorem allocPage_gives_next_witness:
  "\<exists>s h r s'. bm_new 0 example_world = Ret s \<and> (\<forall>fuel \<ge> h. allocPage fuel s = Ret (r, s')) \<and> st s' 1 = Locked \<and> view s' 0 = view s 0"
proof -
  obtain s where s: "bm_new 0 example_world = Ret s" "session 1000 s" "allocCount s = 1" using example_pool by blast
  note S = sessionD [OF s(2)]
  have "pool_inv (Suc (Suc 998)) {} {} s" using S(1) by simp
  moreover have "card (pinned s) \<le> 4" using S(2) by simp
  moreover have "real_pid (allocCount s)" using s(3) by (simp add: real_pid_def)
  ultimately obtain h r s' where "\<forall>fuel \<ge> h. allocPage fuel s = Ret (r, s')" "allocated 998 (allocCount s) s r s'"
    using allocPage_gives_next [of 998 s 4] S(3,7) by blast
  then have "(\<forall>fuel \<ge> h. allocPage fuel s = Ret (r, s')) \<and> st s' 1 = Locked \<and> view s' 0 = view s 0" using s(3) by (simp add: allocated_def)
  then show ?thesis using s(1) by blast
qed

text \<open>
  C38: \<open>flush\<close> writes every resident page to its device when at most 255 pages are dirty; with 256
  or more it fails, because it fills batches of 256 pages and the interface takes 255.
\<close>

theorem flush_durable:
  assumes "pool_inv n {} {} s"
  shows "if card (dirty_pages s) < 256
    then \<exists>s'. flush s = Ret s' \<and> pool_inv n {} {} s' \<and> view s' = view s \<and> dirty_pages s' = {} \<and>
      (\<forall>p \<in> dom (res s). map_option body (disk s' (loc s' p)) = view s p)
    else flush s = Err (Assertion ''pages.size() < maxIOs'')"
proof (cases "card (dirty_pages s) < 256")
  case True
  then show ?thesis using flush_few [OF assms] by (simp add: maxIOs_def) blast
next
  case False
  then show ?thesis using flush_many [OF assms] by (simp add: maxIOs_def)
qed

theorem flush_durable_witness:
  "\<exists>s s'. bm_new 0 example_world = Ret s \<and> flush s = Ret s' \<and> map_option body (disk s' (loc s' 0)) = view s 0"
proof -
  obtain s where s: "bm_new 0 example_world = Ret s" "session 1000 s" "dom (res s) = {0}" using example_pool by blast
  have "card (dirty_pages s) \<le> 1" using card_mono [of "{0 :: PID}" "dirty_pages s"] s(3) by (auto simp: dirty_pages_def)
  then have "card (dirty_pages s) < 256" by simp
  with flush_durable [OF sessionD(1) [OF s(2)]] have "\<exists>s'. flush s = Ret s' \<and>
      (\<forall>p \<in> dom (res s). map_option body (disk s' (loc s' p)) = view s p)" by auto
  then obtain s' where "flush s = Ret s'" "\<forall>p \<in> dom (res s). map_option body (disk s' (loc s' p)) = view s p" by blast
  then show ?thesis using s(1,3) by blast
qed

text \<open>
  C39: \<open>clear\<close> cannot succeed. It is documented as not thread-safe, for a pool in which nothing is
  locked; but then the hash table refuses to remove the first page, because it is not locked.
\<close>

theorem clear_never_succeeds:
  assumes "pool_inv n {} {} s" and "res s \<noteq> Map.empty" and "\<And>p. st s p \<noteq> Locked"
  shows "\<exists>msg. clear s = Err (Assertion msg)"
proof (cases "card (dirty_pages s) < maxIOs")
  case True
  then show ?thesis using clear_fails [OF assms(1) _ assms(2,3)] by blast
next
  case False
  then show ?thesis using flush_many [OF assms(1)] by (simp add: clear_def)
qed

theorem clear_never_succeeds_witness:
  "\<exists>s msg. bm_new 0 example_world = Ret s \<and> clear s = Err (Assertion msg)"
proof -
  obtain s where s: "bm_new 0 example_world = Ret s" "session 1000 s" "dom (res s) = {0}" using example_pool by blast
  have "st s p \<noteq> Locked" for p
    using sessionD(2) [OF s(2)] by (cases "p \<in> dom (res s)") (auto simp: pinned_def st_def)
  moreover have "res s \<noteq> Map.empty" using s(3) by auto
  ultimately show ?thesis using clear_never_succeeds [OF sessionD(1) [OF s(2)]] s(1) by blast
qed

end
