(* ===== verification/Tpb_Decision.thy ===== *)
theory Tpb_Decision
  imports Cbp_Controllers
begin

text \<open>
  What the probe sandwich of \<open>tpbOnWindow\<close> decides. A probe takes three statistics windows:
  the baseline that opens it, the probe itself, and a second baseline that closes it. The
  lemmas bound the rounded average and threshold, so that the decision can be read on the
  transaction counts of the three windows.
\<close>

section \<open>Rounded averages and thresholds\<close>

declare of_nat_unat [simp del]

lemma half_exact: "dbl (1 / 2) = 1 / 2"
  by code_simp

lemma eps_bounds: "1 \<le> dbl (1 + TPB_ACCEPT_EPS)" "dbl (1 + TPB_ACCEPT_EPS) \<le> 1006 / 1000"
  by code_simp+

lemma u64_dbl_repr: "representable 53 (u64_dbl d)" "0 \<le> u64_dbl d"
  by (simp_all add: u64_dbl_def representable_fround fround_nonneg)

lemma u64_dbl_pos: "0 < u64_dbl d \<longleftrightarrow> d \<noteq> 0"
proof
  assume "d \<noteq> 0"
  then have "1 \<le> unat d" by (simp add: unat_gt_0 Suc_leI)
  then have "dbl 1 \<le> u64_dbl d" unfolding u64_dbl_def by (intro fround_mono) auto
  moreover have "dbl 1 = 1" by code_simp
  ultimately show "0 < u64_dbl d" by simp
qed (auto simp: u64_dbl_def)

lemma u64_dbl_exact: "unat d \<le> 2 ^ 53 \<Longrightarrow> u64_dbl d = of_nat (unat d)"
  by (simp add: u64_dbl_def fround_nat)

text \<open>The threshold is never below the smaller of the two baselines.\<close>

lemma threshold_ge:
  assumes "representable 53 a" "representable 53 b" "0 \<le> a" "0 \<le> b"
  shows "min a b \<le> dbl (dbl (dbl (1 / 2) * dbl (a + b)) * dbl (1 + TPB_ACCEPT_EPS))"
proof -
  define m where "m = min a b"
  have m: "representable 53 m" "0 \<le> m" "2 * m \<le> a + b"
    using assms by (auto simp: m_def min_def)
  have le_round: "m \<le> dbl x" if "m \<le> x" for x
    using fround_mono [OF that, of 53] fround_id [OF m(1)] by simp
  have "2 * m \<le> dbl (a + b)"
    using fround_mono [OF m(3), of 53] fround_id [OF representable_double [OF m(1)]] by simp
  then have "m \<le> dbl (dbl (1 / 2) * dbl (a + b))" by (intro le_round) (simp add: half_exact)
  moreover from this have "0 \<le> dbl (dbl (1 / 2) * dbl (a + b))" using m(2) by linarith
  ultimately have "m * 1 \<le> dbl (dbl (1 / 2) * dbl (a + b)) * dbl (1 + TPB_ACCEPT_EPS)"
    using eps_bounds(1) m(2) by (intro mult_mono) auto
  then show ?thesis unfolding m_def [symmetric] by (intro le_round) simp
qed

lemma accepts_beats:
  assumes "accepts d s" and "representable 53 (tpb_base_pre s)"
  shows "min (tpb_base_pre s) (u64_dbl d) < tpb_probe_tps s"
proof -
  have "0 \<le> tpb_base_pre s" using assms(1) by (simp add: accepts_def)
  from threshold_ge [OF assms(2) u64_dbl_repr(1) this u64_dbl_repr(2), of d] show ?thesis
    using assms(1) unfolding accepts_def by linarith
qed

text \<open>With equal baselines, one per cent and one transaction more is enough to be accepted.\<close>

lemma accepts_better:
  assumes "tpb_base_pre s = u64_dbl b" and "tpb_probe_tps s = u64_dbl p" and "0 < tpb_phase_tol s"
    and "0 < b" and "unat p \<le> 2 ^ 53" and "1006 * unat b + 1000 \<le> 1000 * unat p"
  shows "accepts b s"
proof -
  let ?b = "of_nat (unat b) :: rat" and ?p = "of_nat (unat p) :: rat"
  have le: "1006 * ?b + 1000 \<le> 1000 * ?p"
    using assms(6) by (metis (mono_tags) of_nat_add of_nat_le_iff of_nat_mult of_nat_numeral)
  have b53: "unat b \<le> 2 ^ 53" using assms(5,6) by linarith
  have b: "u64_dbl b = ?b" by (rule u64_dbl_exact [OF b53])
  have p: "u64_dbl p = ?p" by (rule u64_dbl_exact [OF assms(5)])
  have "b \<noteq> 0" using assms(4) by auto
  have "dbl (?b + ?b) = 2 * ?b"
    using fround_id [OF representable_double [OF u64_dbl_repr(1) [of b]]] by (simp add: b)
  then have avg: "dbl (dbl (1 / 2) * dbl (u64_dbl b + u64_dbl b)) = ?b"
    using fround_id [OF u64_dbl_repr(1) [of b]] by (simp add: b half_exact)
  have "?b * dbl (1 + TPB_ACCEPT_EPS) \<le> ?b * (1006 / 1000)"
    using eps_bounds(2) by (intro mult_left_mono) auto
  also have "\<dots> \<le> of_nat (unat p - 1)" using le assms(6) by (simp add: of_nat_diff field_simps)
  finally have "dbl (?b * dbl (1 + TPB_ACCEPT_EPS)) \<le> dbl (of_nat (unat p - 1))"
    by (intro fround_mono) auto
  also have "\<dots> = of_nat (unat p - 1)" using assms(5) by (intro fround_nat) auto
  also have "\<dots> < ?p" using assms(6) by (simp only: of_nat_less_iff)
  finally have "dbl (?b * dbl (1 + TPB_ACCEPT_EPS)) < ?p" .
  then show ?thesis
    using assms(1-3) avg u64_dbl_pos [of b] \<open>b \<noteq> 0\<close> by (simp add: accepts_def p)
qed

section \<open>The sandwich\<close>

definition sandwich :: "u64 \<Rightarrow> u64 \<Rightarrow> u64 \<Rightarrow> cbp \<Rightarrow> cbp" where
  "sandwich pre probe post s = tpbOnWindow post (tpbOnWindow probe (tpbOnWindow pre s))"

lemma probe_window:
  fixes pre d :: u64
  assumes "opens_probe s" and "d \<noteq> 0"
  defines "s2 \<equiv> tpbOnWindow d (tpbOnWindow pre s)"
  shows "tpb_mode s2" "tpb_probing s2" "tpb_probe_tps s2 = u64_dbl d" "tpb_probe_tps s2 \<noteq> 0"
    "tpb_base_pre s2 = u64_dbl pre" "tpb_lc_base s2 = tpb_lc_base s" "tpb_lc_probe s2 = probe_lc s"
    "tpb_phase_tol s2 = tpb_phase_tol s" "tpb_last_dir s2 = probe_dir s" "tpb_lc_active s2 = tpb_lc_base s"
  using window_open [OF assms(1), of pre] u64_dbl_pos [of d] assms(2)
  by (simp_all add: s2_def window_measure)

text \<open>
  The rule of the decision on exact counts: the first base window completed a transaction, the
  second differs from it by less than the tolerance, and the probe is more than 0.5 per cent above
  their mean. Of all the roundings only that of the quotient and that of the product are left.
\<close>

definition txs :: "u64 \<Rightarrow> rat" where
  "txs d = of_nat (unat d)"

definition stable :: "rat \<Rightarrow> u64 \<Rightarrow> u64 \<Rightarrow> bool" where
  "stable tol pre post \<longleftrightarrow> 0 < unat pre \<and> dbl (\<bar>txs pre - txs post\<bar> / txs pre) < tol"

definition bar :: "u64 \<Rightarrow> u64 \<Rightarrow> rat" where
  "bar pre post = dbl ((txs pre + txs post) / 2 * dbl (1 + dbl (5 / 1000)))"

lemma txs_exact: "unat d \<le> 2 ^ 53 \<Longrightarrow> u64_dbl d = txs d"
  by (simp add: u64_dbl_exact txs_def)

lemma txs_sum:
  assumes "unat pre \<le> 2 ^ 52" "unat post \<le> 2 ^ 52"
  shows "dbl (txs pre + txs post) = txs pre + txs post" "dbl ((txs pre + txs post) / 2) = (txs pre + txs post) / 2"
    "dbl (txs pre - txs post) = txs pre - txs post"
proof -
  have m: "txs pre + txs post = of_int (int (unat pre + unat post))" "txs pre - txs post = of_int (int (unat pre) - int (unat post))"
    by (simp_all add: txs_def)
  have b: "int (unat pre) \<le> 2 ^ 52" "int (unat post) \<le> 2 ^ 52" using assms by (metis of_nat_le_iff of_nat_numeral of_nat_power)+
  have r: "representable 53 (txs pre + txs post)" "representable 53 (txs pre - txs post)"
    unfolding m using b by (intro representable_int; simp)+
  show "dbl (txs pre + txs post) = txs pre + txs post" "dbl ((txs pre + txs post) / 2) = (txs pre + txs post) / 2"
    "dbl (txs pre - txs post) = txs pre - txs post"
    using fround_id r representable_half by simp_all
qed

lemma accepts_exact:
  assumes "unat pre \<le> 2 ^ 52" "unat post \<le> 2 ^ 52" "unat probe \<le> 2 ^ 53"
    and "tpb_base_pre s = u64_dbl pre" "tpb_probe_tps s = u64_dbl probe"
  shows "accepts post s \<longleftrightarrow> stable (tpb_phase_tol s) pre post \<and> bar pre post < txs probe"
proof -
  have e: "u64_dbl pre = txs pre" "u64_dbl post = txs post" "u64_dbl probe = txs probe"
    using assms(1-3) by (intro txs_exact; simp)+
  have "1 / 2 * (txs pre + txs post) = (txs pre + txs post) / 2" by simp
  then have mid: "dbl (dbl (1 / 2) * dbl (txs pre + txs post)) = (txs pre + txs post) / 2"
    unfolding half_exact txs_sum(1) [OF assms(1,2)] using txs_sum(2) [OF assms(1,2)] by (simp only:)
  have pos: "0 < txs pre \<longleftrightarrow> 0 < unat pre" by (simp add: txs_def)
  show ?thesis
    unfolding accepts_def stable_def bar_def assms(4,5) e mid txs_sum(3) [OF assms(1,2)] pos TPB_ACCEPT_EPS_def by blast
qed

text \<open>The rule in whole transactions, and the tolerance without rounding.\<close>

lemma eps_lower: "1004 / 1000 \<le> dbl (1 + dbl (5 / 1000))" "dbl (1 + dbl (5 / 1000)) \<le> 1006 / 1000"
  by code_simp+

lemma bar_bounds:
  fixes pre post probe :: u64
  assumes "unat probe \<le> 2 ^ 53"
  shows "2000 * unat probe \<le> 1004 * (unat pre + unat post) \<Longrightarrow> txs probe \<le> bar pre post"
    and "1006 * (unat pre + unat post) + 2000 \<le> 2000 * unat probe \<Longrightarrow> bar pre post < txs probe"
proof -
  let ?avg = "(txs pre + txs post) / 2"
  have avg: "0 \<le> ?avg" by (simp add: txs_def)
  show "txs probe \<le> bar pre post" if h: "2000 * unat probe \<le> 1004 * (unat pre + unat post)"
  proof -
    have "2000 * txs probe \<le> 1004 * (txs pre + txs post)"
      using of_nat_mono [OF h, where 'a = rat] by (simp add: txs_def)
    then have "txs probe \<le> ?avg * (1004 / 1000)" by simp
    also have "\<dots> \<le> ?avg * dbl (1 + dbl (5 / 1000))" using eps_lower(1) avg by (intro mult_left_mono)
    finally have "dbl (txs probe) \<le> bar pre post" unfolding bar_def by (intro fround_mono) auto
    then show ?thesis using fround_nat [OF assms] by (simp add: txs_def)
  qed
  show "bar pre post < txs probe" if h: "1006 * (unat pre + unat post) + 2000 \<le> 2000 * unat probe"
  proof -
    have p: "1 \<le> unat probe" using h by simp
    have "1006 * (txs pre + txs post) + 2000 \<le> 2000 * txs probe"
      using of_nat_mono [OF h, where 'a = rat] by (simp add: txs_def)
    then have "?avg * (1006 / 1000) \<le> txs probe - 1" by simp
    moreover have "?avg * dbl (1 + dbl (5 / 1000)) \<le> ?avg * (1006 / 1000)" using eps_lower(2) avg by (intro mult_left_mono)
    ultimately have "?avg * dbl (1 + dbl (5 / 1000)) \<le> of_nat (unat probe - 1)" using p by (simp add: txs_def of_nat_diff)
    then have "bar pre post \<le> dbl (of_nat (unat probe - 1))" unfolding bar_def by (intro fround_mono) auto
    also have "\<dots> = of_nat (unat probe - 1)" using assms by (intro fround_nat) auto
    also have "\<dots> < txs probe" using p by (simp add: txs_def of_nat_diff)
    finally show ?thesis .
  qed
qed

lemma unstable:
  assumes "representable 53 tol" and "tol * txs pre \<le> \<bar>txs pre - txs post\<bar>"
  shows "\<not> stable tol pre post"
proof
  assume s: "stable tol pre post"
  then have "0 < txs pre" by (simp add: stable_def txs_def)
  then have "tol \<le> \<bar>txs pre - txs post\<bar> / txs pre" using assms(2) by (simp add: pos_le_divide_eq)
  then have "dbl tol \<le> dbl (\<bar>txs pre - txs post\<bar> / txs pre)" by (intro fround_mono) auto
  then show False using s fround_id [OF assms(1)] by (simp add: stable_def)
qed

text \<open>
  C27: the decision of a sandwich whose probe window completed a transaction. The controller runs
  the probe at a neighbour of the base, returns to the base for the closing window, ends the
  sandwich, and moves to that neighbour if and only if the two base windows are stable (they differ
  by less than the tolerance, relative to the first, which is not empty) and the probe is above
  1.005 times their mean; after a move the next probe goes the opposite way, otherwise the direction
  stays. The rule is exact for counts up to \<open>2 ^ 52\<close>; in whole numbers, 1004 thousandths of the
  mean are not enough, 1006 thousandths and one transaction are, and a difference of at least the
  tolerance always keeps the base. With any counts a move needs a probe above the smaller baseline.
\<close>

theorem sandwich_decision:
  fixes pre probe post :: u64
  assumes "tpb_inv s" and "opens_probe s" and "probe \<noteq> 0"
  defines "s' \<equiv> sandwich pre probe post s"
  shows "tpb_lc_active (tpbOnWindow pre s) = probe_lc s \<and>
    tpb_lc_active (tpbOnWindow probe (tpbOnWindow pre s)) = tpb_lc_base s \<and>
    \<not> tpb_probing s' \<and> tpb_lc_active s' = tpb_lc_base s' \<and>
    \<bar>uint (probe_lc s) - uint (tpb_lc_base s)\<bar> = 1 \<and>
    (tpb_lc_base s' = tpb_lc_base s \<or> tpb_lc_base s' = probe_lc s) \<and>
    (tpb_lc_base s' \<noteq> tpb_lc_base s \<longrightarrow> min (u64_dbl pre) (u64_dbl post) < u64_dbl probe) \<and>
    tpb_last_dir s' = (if tpb_lc_base s' = tpb_lc_base s then probe_dir s else - probe_dir s) \<and>
    (unat pre \<le> 2 ^ 52 \<and> unat post \<le> 2 ^ 52 \<and> unat probe \<le> 2 ^ 53 \<longrightarrow>
      (tpb_lc_base s' = probe_lc s \<longleftrightarrow> stable (tpb_phase_tol s) pre post \<and> bar pre post < txs probe) \<and>
      (2000 * unat probe \<le> 1004 * (unat pre + unat post) \<longrightarrow> tpb_lc_base s' = tpb_lc_base s) \<and>
      (representable 53 (tpb_phase_tol s) \<and> tpb_phase_tol s * txs pre \<le> \<bar>txs pre - txs post\<bar> \<longrightarrow> tpb_lc_base s' = tpb_lc_base s) \<and>
      (stable (tpb_phase_tol s) pre post \<and> 1006 * (unat pre + unat post) + 2000 \<le> 2000 * unat probe \<longrightarrow>
        tpb_lc_base s' = probe_lc s))"
proof -
  define s2 where "s2 = tpbOnWindow probe (tpbOnWindow pre s)"
  define acc where "acc \<longleftrightarrow> accepts post s2"
  note S2 = probe_window [OF assms(2,3), of pre, folded s2_def]
  note C = window_close [OF S2(1,2,4), of post]
  have inv: "lc_range 14 (tpb_lc_base s)" "tpb_last_dir s = 1 \<or> tpb_last_dir s = - 1"
    using assms(1) by (simp_all add: tpb_inv_def)
  note P = probe_lc_ok [OF inv]
  have s': "s' = tpbOnWindow post s2" by (simp add: s'_def sandwich_def s2_def)
  have turn: "(if probe_lc s > tpb_lc_base s then - 1 else 1) = - probe_dir s"
    using P(1,3) by (auto simp: word_less_def)
  have near: "\<bar>uint (probe_lc s) - uint (tpb_lc_base s)\<bar> = 1" using P(1,3) by auto
  then have ne: "probe_lc s \<noteq> tpb_lc_base s" by auto
  have close: "\<not> tpb_probing s'" "tpb_lc_active s' = tpb_lc_base s'"
      "tpb_lc_base s' = (if acc then probe_lc s else tpb_lc_base s)"
    and "tpb_last_dir s' = (if acc then (if probe_lc s > tpb_lc_base s then - 1 else 1) else probe_dir s)"
    unfolding s' acc_def using C S2 by simp_all
  then have moved: "tpb_lc_base s' = probe_lc s \<longleftrightarrow> acc" "tpb_lc_base s' = tpb_lc_base s \<longleftrightarrow> \<not> acc"
    and dir: "tpb_last_dir s' = (if acc then - probe_dir s else probe_dir s)"
    unfolding turn using ne by auto
  have beats: "acc \<Longrightarrow> min (u64_dbl pre) (u64_dbl post) < u64_dbl probe"
    unfolding acc_def using accepts_beats [of post s2] S2 u64_dbl_repr(1) [of pre] by simp
  have rule: "acc \<longleftrightarrow> stable (tpb_phase_tol s) pre post \<and> bar pre post < txs probe"
    if "unat pre \<le> 2 ^ 52" "unat post \<le> 2 ^ 52" "unat probe \<le> 2 ^ 53"
    unfolding acc_def using accepts_exact [OF that S2(5,3)] S2(8) by simp
  show ?thesis
    unfolding s2_def [symmetric]
    using window_open(5) [OF assms(2), of pre] S2(10) close(1,2) near beats
    unfolding moved dir
    using rule bar_bounds unstable by (auto simp del: uint_nat simp: not_less close(3))
qed

definition tpb_demo :: cbp where
  "tpb_demo = (cbp_init [''TPB'' \<mapsto> ''1'', ''TPB_PROBE_EVERY'' \<mapsto> ''2''])\<lparr>tpb_window_idx := 1\<rparr>"

lemma tpb_demo_facts:
  "tpb_inv tpb_demo" "opens_probe tpb_demo" "tpb_lc_base tpb_demo = 5" "probe_lc tpb_demo = 4"
  "0 < tpb_phase_tol tpb_demo" "tpb_phase_tol tpb_demo = dbl (15 / 100)"
  by code_simp+

lemma tpb_demo_windows:
  "stable (tpb_phase_tol tpb_demo) 1000 1000" "\<not> stable (tpb_phase_tol tpb_demo) 1000 1300" "bar 1000 1000 < txs 1100"
proof -
  show "stable (tpb_phase_tol tpb_demo) 1000 1000" using tpb_demo_facts(5) by (simp add: stable_def)
  have "dbl (15 / 100) \<le> dbl (3 / 10)" by (intro fround_mono) auto
  then show "\<not> stable (tpb_phase_tol tpb_demo) 1000 1300" by (simp add: stable_def txs_def tpb_demo_facts(6))
  show "bar 1000 1000 < txs 1100" by (rule bar_bounds(2)) simp_all
qed

theorem sandwich_decision_witness:
  "tpb_lc_base (sandwich 1000 1100 1000 tpb_demo) = 4 \<and> tpb_lc_base (sandwich 1000 900 1000 tpb_demo) = 5 \<and>
   tpb_lc_base (sandwich 1000 3000 1300 tpb_demo) = 5"
  using sandwich_decision [OF tpb_demo_facts(1,2), of 1100 1000 1000]
    sandwich_decision [OF tpb_demo_facts(1,2), of 900 1000 1000]
    sandwich_decision [OF tpb_demo_facts(1,2), of 3000 1000 1300]
  by (auto simp: tpb_demo_facts(3,4) tpb_demo_windows)

text \<open>
  The sentinel of the probe. A probe window without a single completed transaction is taken
  for one that has not been measured yet: the controller stays in the sandwich, and the next
  window, which already runs at the base again, is recorded as the probe's throughput. So the
  chance that completed nothing is adopted whenever the base alone later looks better than
  itself.
\<close>

theorem zero_probe_adopted:
  assumes "opens_probe s" and "0 < tpb_phase_tol s" and "0 < pre" and "unat x \<le> 2 ^ 53"
    and "1006 * unat pre + 1000 \<le> 1000 * unat x"
  shows "tpb_lc_active (tpbOnWindow 0 (tpbOnWindow pre s)) = tpb_lc_base s \<and>
    tpb_probe_tps (tpbOnWindow x (tpbOnWindow 0 (tpbOnWindow pre s))) = u64_dbl x \<and>
    tpb_lc_base (tpbOnWindow pre (tpbOnWindow x (tpbOnWindow 0 (tpbOnWindow pre s)))) = probe_lc s"
proof -
  define s1 where "s1 = tpbOnWindow pre s"
  define s2 where "s2 = tpbOnWindow 0 s1"
  define s3 where "s3 = tpbOnWindow x s2"
  note S1 = window_open [OF assms(1), of pre, folded s1_def]
  have "x \<noteq> 0" using assms(5) by auto
  then have ne: "u64_dbl x \<noteq> 0" using u64_dbl_pos [of x] by auto
  have s2: "s2 = s1\<lparr>tpb_window_idx := tpb_window_idx s1 + 1, tpb_probe_tps := 0, tpb_lc_active := tpb_lc_base s1\<rparr>"
    using S1 by (simp add: s2_def window_measure u64_dbl_def)
  have s3: "s3 = s2\<lparr>tpb_window_idx := tpb_window_idx s2 + 1, tpb_probe_tps := u64_dbl x,
      tpb_lc_active := tpb_lc_base s2\<rparr>"
    unfolding s3_def using S1 by (intro window_measure) (simp_all add: s2)
  have S3: "tpb_mode s3" "tpb_probing s3" "tpb_probe_tps s3 = u64_dbl x" "tpb_lc_probe s3 = probe_lc s"
    "tpb_base_pre s3 = u64_dbl pre" "tpb_phase_tol s3 = tpb_phase_tol s"
    using S1 by (simp_all add: s3 s2)
  have "accepts pre s3"
    using S3 assms by (intro accepts_better [where p = x]) simp_all
  then have "tpb_lc_base (tpbOnWindow pre s3) = probe_lc s"
    using S3 ne window_close(3) [of s3 pre] by simp
  moreover have "tpb_lc_active s2 = tpb_lc_base s" using S1 by (simp add: s2)
  ultimately show ?thesis
    unfolding s1_def [symmetric] s2_def [symmetric] s3_def [symmetric] using S3(3) by simp
qed

theorem zero_probe_adopted_witness:
  "tpb_lc_base (tpbOnWindow 1000 (tpbOnWindow 1100 (tpbOnWindow 0 (tpbOnWindow 1000 tpb_demo)))) = 4"
  using zero_probe_adopted [OF tpb_demo_facts(2,5), of 1000 1100] by (simp add: tpb_demo_facts)

end
