(* ===== verification/Btree_Node.thy ===== *)
theory Btree_Node
  imports Prelude "HOL-Library.List_Lexorder"
begin

text \<open>
  A node of the B-tree (\<open>BTreeNode\<close>, \<open>btree.hpp\<close>): a header, an array of slots that grows from
  the front of the page and a heap of keys and payloads that grows from its back. In the source
  the two share the page after the header; here they are two fields, and the invariant says
  that the slots in use end before the heap begins, so neither can overwrite the other. The heap
  is addressed by offsets from the start of the page. 16-bit and 32-bit arithmetic is done on
  \<open>nat\<close> with the wrap-around written out. \<open>upperInnerNode\<close> and \<open>nextLeafNode\<close> are a union.
\<close>

section \<open>Arithmetic\<close>

definition add16 :: "nat \<Rightarrow> nat \<Rightarrow> nat" where "add16 a b = (a + b) mod 2 ^ 16"
definition sub16 :: "nat \<Rightarrow> nat \<Rightarrow> nat" where "sub16 a b = (a + 2 ^ 32 - b mod 2 ^ 32) mod 2 ^ 16"
definition add32 :: "nat \<Rightarrow> nat \<Rightarrow> nat" where "add32 a b = (a + b) mod 2 ^ 32"
definition sub32 :: "nat \<Rightarrow> nat \<Rightarrow> nat" where "sub32 a b = (a + 2 ^ 32 - b mod 2 ^ 32) mod 2 ^ 32"

lemma add16_small [simp]: "a + b < 2 ^ 16 \<Longrightarrow> add16 a b = a + b"
  by (simp add: add16_def)

lemma sub16_small [simp]: "b \<le> a \<Longrightarrow> a < 2 ^ 16 \<Longrightarrow> sub16 a b = a - b"
proof -
  assume b: "b \<le> a" "a < 2 ^ 16"
  then have "a + 2 ^ 32 - b mod 2 ^ 32 = (a - b) + 2 ^ 16 * 2 ^ 16" by simp
  then show ?thesis using b unfolding sub16_def by (simp only: mod_mult_self2) simp
qed

lemma add32_small [simp]: "a + b < 2 ^ 32 \<Longrightarrow> add32 a b = a + b"
  by (simp add: add32_def)

lemma sub32_small [simp]: "b \<le> a \<Longrightarrow> a < 2 ^ 32 \<Longrightarrow> sub32 a b = a - b"
proof -
  assume b: "b \<le> a" "a < 2 ^ 32"
  then have "a + 2 ^ 32 - b mod 2 ^ 32 = (a - b) + 2 ^ 32" by simp
  then show ?thesis using b unfolding sub32_def by (simp only: mod_add_self2) simp
qed

section \<open>Heads and comparison of keys\<close>

text \<open>Unaligned loads are little endian; \<open>word_rcat\<close> puts the most significant byte first.\<close>

definition loadUnaligned :: "u8 list \<Rightarrow> 'a::len word" where
  "loadUnaligned bs = word_rcat (rev bs)"

definition bswap16 :: "u16 \<Rightarrow> u16" where
  "bswap16 x = word_rcat [ucast x :: u8, ucast (drop_bit 8 x)]"

definition bswap32 :: "u32 \<Rightarrow> u32" where
  "bswap32 x = word_rcat [ucast x :: u8, ucast (drop_bit 8 x), ucast (drop_bit 16 x), ucast (drop_bit 24 x)]"

definition key_head :: "u8 list \<Rightarrow> u32" where
  "key_head key =
     (case length key of
        0 \<Rightarrow> 0
      | Suc 0 \<Rightarrow> push_bit 24 (ucast (key ! 0))
      | Suc (Suc 0) \<Rightarrow> push_bit 16 (ucast (bswap16 (loadUnaligned (take 2 key))))
      | Suc (Suc (Suc 0)) \<Rightarrow> push_bit 16 (ucast (bswap16 (loadUnaligned (take 2 key)))) OR push_bit 8 (ucast (key ! 2))
      | _ \<Rightarrow> bswap32 (loadUnaligned (take 4 key)))"

text \<open>The callers pass at least \<open>num\<close> bytes.\<close>

fun cust_memcmp :: "u8 list \<Rightarrow> u8 list \<Rightarrow> nat \<Rightarrow> int" where
  "cust_memcmp (x # xs) (y # ys) (Suc num) = (if x \<noteq> y then uint x - uint y else cust_memcmp xs ys num)"
| "cust_memcmp _ _ _ = 0"

section \<open>The page\<close>

definition pageSize :: nat where "pageSize = 4096"
definition headerSize :: nat where "headerSize = 112"
definition slotSize :: nat where "slotSize = 10"
definition slotMax :: nat where "slotMax = 398"
definition hintCount :: nat where "hintCount = 16"
definition underFullSize :: nat where "underFullSize = pageSize div 2 + pageSize div 4"
definition noNeighbour :: PID where "noNeighbour = - 1"
definition maxKVSize :: nat where "maxKVSize = (pageSize - headerSize - 2 * slotSize) div 4"

lemmas sizes = pageSize_def headerSize_def slotSize_def slotMax_def hintCount_def underFullSize_def maxKVSize_def

record slot =
  s_offset :: nat
  s_keyLen :: nat
  s_payloadLen :: nat
  s_head :: u32

record fence =
  f_offset :: nat
  f_len :: nat

record bnode =
  b_dirty :: bool
  b_pid :: PID
  b_link :: PID
  lowerFence :: fence
  upperFence :: fence
  b_count :: nat
  isLeaf :: bool
  spaceUsed :: nat
  dataOffset :: nat
  prefixLen :: nat
  b_hint :: "u32 list"
  b_slot :: "slot list"
  b_heap :: "u8 list"

text \<open>The constructor on memory that holds \<open>raw\<close>: what it does not set stays as it was.\<close>

definition node_new :: "bool \<Rightarrow> bnode \<Rightarrow> bnode" where
  "node_new leaf raw = raw\<lparr>b_dirty := True, b_link := noNeighbour, lowerFence := \<lparr>f_offset = 0, f_len = 0\<rparr>,
     upperFence := \<lparr>f_offset = 0, f_len = 0\<rparr>, b_count := 0, isLeaf := leaf, spaceUsed := 0, dataOffset := pageSize,
     prefixLen := 0\<rparr>"

definition hasRightNeighbour :: "bnode \<Rightarrow> bool" where
  "hasRightNeighbour n \<longleftrightarrow> b_link n \<noteq> noNeighbour"

definition hasLowerFence :: "bnode \<Rightarrow> bool" where
  "hasLowerFence n \<longleftrightarrow> f_len (lowerFence n) \<noteq> 0"

text \<open>Reading and writing bytes of the page.\<close>

definition mem_get :: "bnode \<Rightarrow> nat \<Rightarrow> nat \<Rightarrow> u8 list run" where
  "mem_get n off len = (if off + len \<le> length (b_heap n) then Ret (take len (drop off (b_heap n)))
     else Err (OutOfBounds (off + len) (length (b_heap n))))"

definition mem_put :: "nat \<Rightarrow> u8 list \<Rightarrow> bnode \<Rightarrow> bnode run" where
  "mem_put off bs n = (if off + length bs \<le> length (b_heap n)
     then Ret (n\<lparr>b_heap := take off (b_heap n) @ bs @ drop (off + length bs) (b_heap n)\<rparr>)
     else Err (OutOfBounds (off + length bs) (length (b_heap n))))"

definition set_slot :: "nat \<Rightarrow> slot \<Rightarrow> bnode \<Rightarrow> bnode run" where
  "set_slot i sl n = bind_run (aset (b_slot n) i sl) (\<lambda>sls. Ret (n\<lparr>b_slot := sls\<rparr>))"

definition getLowerFence :: "bnode \<Rightarrow> u8 list run" where
  "getLowerFence n = mem_get n (f_offset (lowerFence n)) (f_len (lowerFence n))"

definition getUpperFence :: "bnode \<Rightarrow> u8 list run" where
  "getUpperFence n = mem_get n (f_offset (upperFence n)) (f_len (upperFence n))"

definition getPrefix :: "bnode \<Rightarrow> u8 list run" where
  "getPrefix n = mem_get n (f_offset (lowerFence n)) (prefixLen n)"

definition slotsEnd :: "nat \<Rightarrow> nat" where
  "slotsEnd c = headerSize + slotSize * c"

definition freeSpace :: "bnode \<Rightarrow> nat" where
  "freeSpace n = sub32 (dataOffset n) (slotsEnd (b_count n))"

definition freeSpaceAfterCompaction :: "bnode \<Rightarrow> nat" where
  "freeSpaceAfterCompaction n = sub32 (sub32 pageSize (slotsEnd (b_count n))) (spaceUsed n)"

definition spaceNeeded :: "bnode \<Rightarrow> nat \<Rightarrow> nat \<Rightarrow> nat" where
  "spaceNeeded n keyLen payloadLen = add32 (add32 slotSize (sub32 keyLen (prefixLen n))) payloadLen"

definition hasSpaceFor :: "bnode \<Rightarrow> nat \<Rightarrow> nat \<Rightarrow> bool" where
  "hasSpaceFor n keyLen payloadLen \<longleftrightarrow> spaceNeeded n keyLen payloadLen \<le> freeSpaceAfterCompaction n"

definition getKey :: "bnode \<Rightarrow> nat \<Rightarrow> u8 list run" where
  "getKey n slotId = bind_run (aget (b_slot n) slotId) (\<lambda>sl. mem_get n (s_offset sl) (s_keyLen sl))"

definition getPayload :: "bnode \<Rightarrow> nat \<Rightarrow> u8 list run" where
  "getPayload n slotId = bind_run (aget (b_slot n) slotId) (\<lambda>sl. mem_get n (s_offset sl + s_keyLen sl) (s_payloadLen sl))"

text \<open>A page id in a payload is 8 bytes, read and written whatever the length of the payload.\<close>

definition pid_bytes :: "PID \<Rightarrow> u8 list" where
  "pid_bytes p = map (\<lambda>i. ucast (drop_bit (8 * i) p)) [0..<8]"

definition getChild :: "bnode \<Rightarrow> nat \<Rightarrow> PID run" where
  "getChild n slotId = bind_run (aget (b_slot n) slotId) (\<lambda>sl.
     bind_run (mem_get n (s_offset sl + s_keyLen sl) 8) (\<lambda>bs. Ret (loadUnaligned bs)))"

definition setChild :: "nat \<Rightarrow> PID \<Rightarrow> bnode \<Rightarrow> bnode run" where
  "setChild slotId p n = bind_run (aget (b_slot n) slotId) (\<lambda>sl. mem_put (s_offset sl + s_keyLen sl) (pid_bytes p) n)"

section \<open>Hints\<close>

text \<open>The loop \<open>for (i = i; n iterations; i++) hint[i] = slot[dist * (i + 1)].head\<close>.\<close>

fun fill_hint :: "slot list \<Rightarrow> nat \<Rightarrow> nat \<Rightarrow> nat \<Rightarrow> u32 list \<Rightarrow> u32 list run" where
  "fill_hint sls dist i 0 hs = Ret hs"
| "fill_hint sls dist i (Suc n) hs =
     bind_run (aget sls (dist * (i + 1))) (\<lambda>sl. bind_run (aset hs i (s_head sl)) (fill_hint sls dist (i + 1) n))"

definition set_hint :: "nat \<Rightarrow> nat \<Rightarrow> bnode \<Rightarrow> bnode run" where
  "set_hint dist begi n = bind_run (fill_hint (b_slot n) dist begi (hintCount - begi) (b_hint n)) (\<lambda>hs. Ret (n\<lparr>b_hint := hs\<rparr>))"

definition makeHint :: "bnode \<Rightarrow> bnode run" where
  "makeHint n = set_hint (b_count n div (hintCount + 1)) 0 n"

definition updateHint :: "nat \<Rightarrow> bnode \<Rightarrow> bnode run" where
  "updateHint slotId n =
     (let dist = b_count n div (hintCount + 1);
          begi = (if b_count n > hintCount * 2 + 1 \<and> (b_count n - 1) div (hintCount + 1) = dist \<and> slotId div dist > 1
                  then slotId div dist - 1 else 0)
      in set_hint dist begi n)"

fun hint_scan :: "(u32 \<Rightarrow> bool) \<Rightarrow> u32 list \<Rightarrow> nat \<Rightarrow> nat \<Rightarrow> nat" where
  "hint_scan stop hs pos 0 = pos"
| "hint_scan stop hs pos (Suc n) = (if stop (hs ! pos) then pos else hint_scan stop hs (Suc pos) n)"

definition searchHint :: "bnode \<Rightarrow> u32 \<Rightarrow> nat \<Rightarrow> nat \<Rightarrow> nat \<times> nat" where
  "searchHint n keyHead lower upper =
     (if b_count n > hintCount * 2 then
        let dist = upper div (hintCount + 1);
            pos = hint_scan (\<lambda>h. h \<ge> keyHead) (b_hint n) 0 hintCount;
            pos2 = hint_scan (\<lambda>h. h \<noteq> keyHead) (b_hint n) pos (hintCount - pos)
        in (pos * dist, if pos2 < hintCount then (pos2 + 1) * dist else upper)
      else (lower, upper))"

section \<open>Searching\<close>

lemma bind_run_cong [fundef_cong]:
  "m = m' \<Longrightarrow> (\<And>a. m' = Ret a \<Longrightarrow> f a = g a) \<Longrightarrow> bind_run m f = bind_run m' g"
  by (cases m') auto

function slot_search :: "bnode \<Rightarrow> u8 list \<Rightarrow> u32 \<Rightarrow> nat \<Rightarrow> nat \<Rightarrow> (nat \<times> bool) run" where
  "slot_search n key keyHead lower upper =
     (if lower < upper then
        let mid = (upper - lower) div 2 + lower in
        bind_run (aget (b_slot n) mid) (\<lambda>sl.
          if keyHead < s_head sl then slot_search n key keyHead lower mid
          else if keyHead > s_head sl then slot_search n key keyHead (mid + 1) upper
          else bind_run (getKey n mid) (\<lambda>k.
            let cmp = cust_memcmp key k (min (length key) (s_keyLen sl)) in
            if cmp < 0 then slot_search n key keyHead lower mid
            else if cmp > 0 then slot_search n key keyHead (mid + 1) upper
            else if length key < s_keyLen sl then slot_search n key keyHead lower mid
            else if length key > s_keyLen sl then slot_search n key keyHead (mid + 1) upper
            else Ret (mid, True)))
      else Ret (lower, False))"
  by pat_completeness auto
termination by (relation "measure (\<lambda>(n, key, h, lower, upper). upper - lower)") auto

declare slot_search.simps [simp del]

definition lowerBound :: "u8 list \<Rightarrow> bnode \<Rightarrow> (nat \<times> bool) run" where
  "lowerBound skey n =
     bind_run (getPrefix n) (\<lambda>prefix.
       let cmp = cust_memcmp skey prefix (min (length skey) (prefixLen n)) in
       if cmp < 0 then Ret (0, False)
       else if cmp > 0 then Ret (b_count n, False)
       else if length skey < prefixLen n then Ret (0, False)
       else
         let key = drop (prefixLen n) skey; keyHead = key_head key;
             (lower, upper) = searchHint n keyHead 0 (b_count n)
         in slot_search n key keyHead lower upper)"

definition lookupInner :: "u8 list \<Rightarrow> bnode \<Rightarrow> PID run" where
  "lookupInner key n = bind_run (lowerBound key n) (\<lambda>(pos, _).
     if pos = b_count n then Ret (b_link n) else getChild n pos)"

section \<open>Fences\<close>

definition insertFence :: "(fence \<Rightarrow> bnode \<Rightarrow> bnode) \<Rightarrow> u8 list \<Rightarrow> bnode \<Rightarrow> bnode run" where
  "insertFence set_fk key n =
     check (freeSpace n \<ge> length key) ''freeSpace() >= key.size()''
       (let n = n\<lparr>dataOffset := sub16 (dataOffset n) (length key), spaceUsed := add16 (spaceUsed n) (length key)\<rparr>;
            n = set_fk \<lparr>f_offset = dataOffset n, f_len = length key\<rparr> n
        in mem_put (dataOffset n) key n)"

text \<open>The loop that counts the bytes two fences share.\<close>

fun common_len :: "u8 list \<Rightarrow> u8 list \<Rightarrow> nat" where
  "common_len (x # xs) (y # ys) = (if x = y then Suc (common_len xs ys) else 0)"
| "common_len _ _ = 0"

definition setFences :: "u8 list \<Rightarrow> u8 list \<Rightarrow> bnode \<Rightarrow> bnode run" where
  "setFences lower upper n =
     bind_run (insertFence (\<lambda>fk. lowerFence_update (\<lambda>_. fk)) lower n) (\<lambda>n.
     bind_run (insertFence (\<lambda>fk. upperFence_update (\<lambda>_. fk)) upper n) (\<lambda>n.
     Ret (n\<lparr>prefixLen := common_len lower upper\<rparr>)))"

section \<open>Storing and copying\<close>

definition storeKeyValue :: "nat \<Rightarrow> u8 list \<Rightarrow> u8 list \<Rightarrow> bnode \<Rightarrow> bnode run" where
  "storeKeyValue slotId skey payload n =
     (let key = drop (prefixLen n) skey; keyLen = sub32 (length skey) (prefixLen n);
          space = add32 keyLen (length payload);
          off = sub16 (dataOffset n) space;
          n = n\<lparr>dataOffset := off, spaceUsed := add16 (spaceUsed n) space\<rparr>
      in bind_run (set_slot slotId \<lparr>s_offset = off, s_keyLen = keyLen mod 2 ^ 16, s_payloadLen = length payload mod 2 ^ 16,
             s_head = key_head key\<rparr> n) (\<lambda>n.
         check (off \<ge> headerSize + slotSize * slotId) ''getKey(slotId) >= &slot[slotId]''
           (bind_run (mem_put off key n) (mem_put (off + keyLen) payload))))"

text \<open>\<open>copyNode\<close> copies all but the dirty flag and the page id.\<close>

definition copyNode :: "bnode \<Rightarrow> bnode \<Rightarrow> bnode" where
  "copyNode dst src = src\<lparr>b_dirty := b_dirty dst, b_pid := b_pid dst\<rparr>"

definition copyKeyValue :: "bnode \<Rightarrow> nat \<Rightarrow> bnode \<Rightarrow> nat \<Rightarrow> bnode run" where
  "copyKeyValue src srcSlot dst dstSlot =
     bind_run (getPrefix src) (\<lambda>prefix.
     bind_run (getKey src srcSlot) (\<lambda>key.
     bind_run (getPayload src srcSlot) (\<lambda>payload.
     storeKeyValue dstSlot (prefix @ key) payload dst)))"

text \<open>One iteration for a prefix that grows by \<open>diff\<close> bytes.\<close>

definition copy_cut :: "nat \<Rightarrow> bnode \<Rightarrow> nat \<Rightarrow> bnode \<Rightarrow> nat \<Rightarrow> bnode run" where
  "copy_cut diff src srcSlot dst dstSlot =
     bind_run (aget (b_slot src) srcSlot) (\<lambda>sl.
       let newKeyLen = sub32 (s_keyLen sl) diff; space = add32 newKeyLen (s_payloadLen sl);
           off = sub16 (dataOffset dst) space;
           dst = dst\<lparr>dataOffset := off, spaceUsed := add16 (spaceUsed dst) space\<rparr>
       in bind_run (mem_get src (s_offset sl + diff) space) (\<lambda>bs.
          bind_run (set_slot dstSlot \<lparr>s_offset = off, s_keyLen = newKeyLen mod 2 ^ 16, s_payloadLen = s_payloadLen sl,
             s_head = key_head (take newKeyLen bs)\<rparr> dst) (mem_put off bs)))"

fun copy_loop :: "(nat \<Rightarrow> bnode \<Rightarrow> nat \<Rightarrow> bnode run) \<Rightarrow> nat \<Rightarrow> nat \<Rightarrow> nat \<Rightarrow> bnode \<Rightarrow> bnode run" where
  "copy_loop f 0 srcSlot dstSlot dst = Ret dst"
| "copy_loop f (Suc n) srcSlot dstSlot dst =
     bind_run (f srcSlot dst dstSlot) (copy_loop f n (srcSlot + 1) (dstSlot + 1))"

definition copyKeyValueRange :: "bnode \<Rightarrow> nat \<Rightarrow> nat \<Rightarrow> nat \<Rightarrow> bnode \<Rightarrow> bnode run" where
  "copyKeyValueRange src dstSlot srcSlot srcCount dst =
     bind_run (copy_loop (if prefixLen src \<le> prefixLen dst then copy_cut (prefixLen dst - prefixLen src) src else copyKeyValue src)
       srcCount srcSlot dstSlot dst) (\<lambda>dst.
     let dst = dst\<lparr>b_count := add16 (b_count dst) srcCount\<rparr> in
     check (dataOffset dst \<ge> slotsEnd (b_count dst)) ''dst->ptr() + dst->dataOffset >= dst->slot + dst->count'' (Ret dst))"

text \<open>\<open>raw\<close> is what the memory of the temporary node holds.\<close>

definition compactify :: "bnode \<Rightarrow> bnode \<Rightarrow> bnode run" where
  "compactify raw n =
     (let should = freeSpaceAfterCompaction n in
      bind_run (getLowerFence n) (\<lambda>lower. bind_run (getUpperFence n) (\<lambda>upper.
      bind_run (setFences lower upper (node_new (isLeaf n) raw)) (\<lambda>tmp.
      bind_run (copyKeyValueRange n 0 0 (b_count n) tmp) (\<lambda>tmp.
      bind_run (makeHint (copyNode n (tmp\<lparr>b_link := b_link n\<rparr>))) (\<lambda>n.
      check (freeSpace n = should) ''freeSpace() == should'' (Ret n)))))))"

section \<open>Inserting and removing\<close>

text \<open>\<open>memmove\<close> of \<open>len\<close> slots.\<close>

definition move_slots :: "nat \<Rightarrow> nat \<Rightarrow> nat \<Rightarrow> bnode \<Rightarrow> bnode run" where
  "move_slots dst src len n =
     (if max dst src + len \<le> length (b_slot n)
      then Ret (n\<lparr>b_slot := take dst (b_slot n) @ take len (drop src (b_slot n)) @ drop (dst + len) (b_slot n)\<rparr>)
      else Err (OutOfBounds (max dst src + len) (length (b_slot n))))"

definition insertInPage :: "bnode \<Rightarrow> u8 list \<Rightarrow> u8 list \<Rightarrow> bnode \<Rightarrow> bnode run" where
  "insertInPage raw key payload n =
     (let needed = spaceNeeded n (length key) (length payload) in
      bind_run (if needed > freeSpace n then
          check (needed \<le> freeSpaceAfterCompaction n) ''needed <= freeSpaceAfterCompaction()'' (compactify raw n)
        else Ret n) (\<lambda>n.
      bind_run (lowerBound key n) (\<lambda>(slotId, _).
      bind_run (move_slots (slotId + 1) slotId (b_count n - slotId) n) (\<lambda>n.
      bind_run (storeKeyValue slotId key payload n) (\<lambda>n.
      updateHint slotId (n\<lparr>b_count := add16 (b_count n) 1\<rparr>))))))"

definition removeSlot :: "nat \<Rightarrow> bnode \<Rightarrow> bnode run" where
  "removeSlot slotId n =
     bind_run (aget (b_slot n) slotId) (\<lambda>sl.
     bind_run (move_slots slotId (slotId + 1) (b_count n - slotId - 1)
       (n\<lparr>spaceUsed := sub16 (sub16 (spaceUsed n) (s_keyLen sl)) (s_payloadLen sl)\<rparr>)) (\<lambda>n.
     makeHint (n\<lparr>b_count := sub16 (b_count n) 1\<rparr>)))"

definition removeInPage :: "u8 list \<Rightarrow> bnode \<Rightarrow> (bool \<times> bnode) run" where
  "removeInPage key n = bind_run (lowerBound key n) (\<lambda>(slotId, found).
     if \<not> found then Ret (False, n) else bind_run (removeSlot slotId n) (\<lambda>n. Ret (True, n)))"

end
