(* ===== verification/Btree_Keys.thy ===== *)
theory Btree_Keys
  imports Btree_Node
begin

text \<open>
  The order of the keys. The comparison of bytes is the lexicographic order, and the head of a
  key, its first four bytes as a big-endian number, preserves it.
\<close>

section \<open>Comparison of bytes\<close>

lemma memcmp_less: "n \<le> length xs \<Longrightarrow> n \<le> length ys \<Longrightarrow> cust_memcmp xs ys n < 0 \<longleftrightarrow> take n xs < take n ys"
proof (induction xs ys n rule: cust_memcmp.induct)
  case (1 x xs y ys n)
  then show ?case by (auto simp: word_less_def word_uint_eq_iff)
qed auto

lemma memcmp_eq: "n \<le> length xs \<Longrightarrow> n \<le> length ys \<Longrightarrow> cust_memcmp xs ys n = 0 \<longleftrightarrow> take n xs = take n ys"
  by (induction xs ys n rule: cust_memcmp.induct) (auto simp: word_uint_eq_iff)

lemma memcmp_greater:
  assumes "n \<le> length xs" "n \<le> length ys"
  shows "cust_memcmp xs ys n > 0 \<longleftrightarrow> take n ys < take n xs"
  using memcmp_less [OF assms] memcmp_eq [OF assms] by (cases "cust_memcmp xs ys n" "0 :: int" rule: linorder_cases) auto

lemma take_less:
  fixes xs ys :: "u8 list"
  shows "take n xs < take n ys \<Longrightarrow> xs < ys"
proof (induction n arbitrary: xs ys)
  case (Suc n)
  then show ?case by (cases xs; cases ys) auto
qed simp

lemma take_eq_less:
  fixes xs ys :: "u8 list"
  assumes "take n xs = take n ys"
  shows "xs < ys \<longleftrightarrow> drop n xs < drop n ys"
  using assms
proof (induction n arbitrary: xs ys)
  case (Suc n)
  then show ?case by (cases xs; cases ys) auto
qed simp

lemma append_less [simp]: "p @ xs < p @ ys \<longleftrightarrow> xs < (ys :: u8 list)"
  by (induction p) auto

lemma append_le [simp]: "p @ xs \<le> p @ ys \<longleftrightarrow> xs \<le> (ys :: u8 list)"
  by (induction p) auto

text \<open>The three-way comparison of two keys as the search does it.\<close>

lemma key_compare:
  fixes a b :: "u8 list"
  defines "c \<equiv> cust_memcmp a b (min (length a) (length b))"
  shows "c < 0 \<or> c = 0 \<and> length a < length b \<longleftrightarrow> a < b"
    and "c > 0 \<or> c = 0 \<and> length b < length a \<longleftrightarrow> b < a"
    and "c = 0 \<and> length a = length b \<longleftrightarrow> a = b"
proof -
  let ?m = "min (length a) (length b)"
  note L = memcmp_less [of ?m a b, folded c_def] and E = memcmp_eq [of ?m a b, folded c_def]
    and G = memcmp_greater [of ?m a b, folded c_def]
  have *: "x < y" if "length x < length y" "take (length x) x = take (length x) y" for x y :: "u8 list"
    using take_eq_less [OF that(2)] that(1) by (cases "drop (length x) y") auto
  have lt: "c < 0 \<or> c = 0 \<and> length a < length b \<Longrightarrow> a < b"
    using L E * [of a b] take_less [of ?m a b] by (auto simp: min_def)
  have gt: "c > 0 \<or> c = 0 \<and> length b < length a \<Longrightarrow> b < a"
    using G E * [of b a] take_less [of ?m b a] by (auto simp: min_def split: if_splits)
  have eq: "c = 0 \<and> length a = length b \<Longrightarrow> a = b" using E by (auto simp: min_def)
  consider "c < 0 \<or> c = 0 \<and> length a < length b" | "c > 0 \<or> c = 0 \<and> length b < length a" | "c = 0 \<and> length a = length b"
    by linarith
  then show "c < 0 \<or> c = 0 \<and> length a < length b \<longleftrightarrow> a < b" "c > 0 \<or> c = 0 \<and> length b < length a \<longleftrightarrow> b < a"
    "c = 0 \<and> length a = length b \<longleftrightarrow> a = b"
    using lt gt eq by (cases; force)+
qed

section \<open>Heads\<close>

text \<open>The first \<open>n\<close> bytes, filled up with zeros.\<close>

fun pad :: "nat \<Rightarrow> u8 list \<Rightarrow> u8 list" where
  "pad 0 k = []"
| "pad (Suc n) [] = 0 # pad n []"
| "pad (Suc n) (x # xs) = x # pad n xs"

lemma pad_less: "pad n a < pad n b \<Longrightarrow> a < b"
proof (induction n arbitrary: a b)
  case (Suc n)
  then show ?case by (cases a; cases b) fastforce+
qed simp

lemma horner4: "unat (word_rcat [a, b, c, d :: u8] :: u32) = ((unat a * 256 + unat b) * 256 + unat c) * 256 + unat d"
proof -
  have l: "unat a < 256" "unat b < 256" "unat c < 256" "unat d < 256" using unsigned_less [where 'b = 8] by fastforce+
  have "(word_rcat [a, b, c, d] :: u32) = of_nat (((unat a * 256 + unat b) * 256 + unat c) * 256 + unat d)"
    by (simp add: word_rcat_def algebra_simps)
  moreover have "unat (of_nat (((unat a * 256 + unat b) * 256 + unat c) * 256 + unat d) :: u32) =
      ((unat a * 256 + unat b) * 256 + unat c) * 256 + unat d"
    by (rule unat_of_nat_small) (use l in simp)
  ultimately show ?thesis by simp
qed

lemma horner2: "unat (word_rcat [a, b :: u8] :: u16) = unat a * 256 + unat b"
proof -
  have l: "unat a < 256" "unat b < 256" using unsigned_less [where 'b = 8] by fastforce+
  have "(word_rcat [a, b] :: u16) = of_nat (unat a * 256 + unat b)" by (simp add: word_rcat_def algebra_simps)
  moreover have "unat (of_nat (unat a * 256 + unat b) :: u16) = unat a * 256 + unat b"
    by (rule unat_of_nat_small) (use l in simp)
  ultimately show ?thesis by simp
qed

lemma byte_less: "unat (x :: u8) < 256"
  using unsigned_less [of x] by simp

lemma unat_byte: "unat (ucast (drop_bit n (x :: 'a::len word)) :: u8) = unat x div 2 ^ n mod 256"
proof -
  have "unat (drop_bit n x) = unat x div 2 ^ n" by (rule trans [OF unat_drop_bit_eq]) (rule drop_bit_eq_div)
  moreover have "unat (ucast (drop_bit n x) :: u8) = unat (drop_bit n x) mod 256"
    by (simp only: unsigned_ucast_eq take_bit_eq_mod) simp
  ultimately show ?thesis by (simp only:)
qed

lemma bswap16_load: "bswap16 (loadUnaligned [a, b]) = word_rcat [a, b]"
proof -
  have "unat (ucast (loadUnaligned [a, b] :: u16) :: u8) = unat a"
    using unat_byte [of 0 "loadUnaligned [a, b] :: u16"] byte_less [of a] by (simp add: loadUnaligned_def horner2)
  moreover have "unat (ucast (drop_bit 8 (loadUnaligned [a, b] :: u16)) :: u8) = unat b"
    using byte_less [of a] byte_less [of b] by (simp add: unat_byte loadUnaligned_def horner2)
  ultimately have "ucast (loadUnaligned [a, b] :: u16) = a" "ucast (drop_bit 8 (loadUnaligned [a, b] :: u16)) = b"
    by (simp_all add: word_unat_eq_iff)
  then show ?thesis by (simp add: bswap16_def)
qed

lemma digit: "a < 256 \<Longrightarrow> (a + 256 * x) div 256 = (x :: nat)" "a < 256 \<Longrightarrow> (a + 256 * x) mod 256 = (a :: nat)"
  by auto

lemma bswap32_load: "bswap32 (loadUnaligned [a, b, c, d]) = word_rcat [a, b, c, d]"
proof -
  let ?w = "loadUnaligned [a, b, c, d] :: u32"
  define z where "z = unat d"
  define y where "y = unat c + 256 * z"
  define x where "x = unat b + 256 * y"
  have w: "unat ?w = unat a + 256 * x"
    by (simp add: loadUnaligned_def horner4 x_def y_def z_def algebra_simps)
  note D = digit [OF byte_less]
  have p: "(2 :: nat) ^ 8 = 256" "(2 :: nat) ^ 16 = 256 * 256" "(2 :: nat) ^ 24 = 256 * (256 * 256)" by simp_all
  have "unat (ucast ?w :: u8) = unat a"
    using unat_byte [of 0 ?w] unfolding w by (simp only: D power_0 div_by_1 drop_bit_0 id_apply)
  moreover have "unat (ucast (drop_bit 8 ?w) :: u8) = unat b"
    by (simp only: unat_byte w p D x_def)
  moreover have "unat (ucast (drop_bit 16 ?w) :: u8) = unat c"
    by (simp only: unat_byte w p div_mult2_eq D x_def y_def)
  moreover have "unat (ucast (drop_bit 24 ?w) :: u8) = unat d"
    by (simp only: unat_byte w p div_mult2_eq D x_def y_def z_def mod_less [OF byte_less])
  ultimately have "ucast ?w = a" "ucast (drop_bit 8 ?w) = b" "ucast (drop_bit 16 ?w) = c" "ucast (drop_bit 24 ?w) = d"
    by (simp_all only: word_unat_eq_iff)
  then show ?thesis by (simp only: bswap32_def)
qed

lemma short_list:
  "k = [] \<or> (\<exists>a. k = [a]) \<or> (\<exists>a b. k = [a, b]) \<or> (\<exists>a b c. k = [a, b, c]) \<or> (\<exists>a b c d r. k = a # b # c # d # r)"
proof (cases "length k < 4")
  case True
  then consider "length k = 0" | "length k = Suc 0" | "length k = Suc (Suc 0)" | "length k = Suc (Suc (Suc 0))" by linarith
  then show ?thesis by cases (auto simp: length_Suc_conv)
next
  case False
  then have "Suc (Suc (Suc (Suc 0))) \<le> length k" by simp
  then show ?thesis by (auto simp: Suc_le_length_iff)
qed

lemma pad4:
  "pad 4 [] = [0, 0, 0, 0]" "pad 4 [a] = [a, 0, 0, 0]" "pad 4 [a, b] = [a, b, 0, 0]" "pad 4 [a, b, c] = [a, b, c, 0]"
  "pad 4 (a # b # c # d # r) = [a, b, c, d]"
  by (simp_all add: numeral_eq_Suc)

lemma key_head_cases:
  "key_head [] = 0" "key_head [a] = push_bit 24 (ucast a)"
  "key_head [a, b] = push_bit 16 (ucast (word_rcat [a, b] :: u16))"
  "key_head [a, b, c] = push_bit 16 (ucast (word_rcat [a, b] :: u16)) OR push_bit 8 (ucast c)"
  "key_head (a # b # c # d # r) = word_rcat [a, b, c, d]"
  by (simp_all add: key_head_def bswap16_load bswap32_load)

lemma head_pad: "key_head k = word_rcat (pad 4 k)"
proof -
  note P = pad4 key_head_cases
  show ?thesis using short_list [of k]
  proof (elim disjE exE)
    assume 1: "k = []"
    show ?thesis using 1 by (simp add: P word_unat_eq_iff horner4)
  next
    fix a assume 2: "k = [a]"
    have "unat (key_head k) = unat a * 2 ^ 24"
      using 2 byte_less [of a] by (simp add: P push_bit_eq_mult unat_word_ariths unsigned_ucast_eq take_bit_eq_mod)
    then show ?thesis using 2 by (simp add: P word_unat_eq_iff horner4)
  next
    fix a b assume 3: "k = [a, b]"
    have "unat (key_head k) = (unat a * 256 + unat b) * 2 ^ 16"
      using 3 byte_less [of a] byte_less [of b]
      by (simp add: P push_bit_eq_mult unat_word_ariths unsigned_ucast_eq take_bit_eq_mod horner2)
    then show ?thesis using 3 by (simp add: P word_unat_eq_iff horner4)
  next
    fix a b c assume 4: "k = [a, b, c]"
    define x where "x = (push_bit 16 (ucast (word_rcat [a, b] :: u16)) :: u32)"
    define y where "y = (push_bit 8 (ucast c) :: u32)"
    have x: "unat x = (unat a * 256 + unat b) * 2 ^ 16"
      using byte_less [of a] byte_less [of b]
      by (simp add: x_def push_bit_eq_mult unat_word_ariths unsigned_ucast_eq take_bit_eq_mod horner2)
    have y: "unat y = unat c * 256"
      using byte_less [of c] by (simp add: y_def push_bit_eq_mult unat_word_ariths unsigned_ucast_eq take_bit_eq_mod)
    have "x AND y = 0"
      by (rule bit_word_eqI) (auto simp: x_def y_def bit_simps dest: bit_imp_le_length)
    then have "x + y = x OR y" by (rule disjunctive_add_eq_or)
    moreover have "key_head k = x OR y" using 4 by (simp only: P x_def y_def)
    ultimately have "unat (key_head k) = unat (x + y)" by (simp only:)
    also have "\<dots> = (unat a * 256 + unat b) * 2 ^ 16 + unat c * 256"
      using byte_less [of a] byte_less [of b] byte_less [of c] by (simp add: unat_word_ariths x y)
    finally have "unat (key_head k) = (unat a * 256 + unat b) * 2 ^ 16 + unat c * 256" .
    then show ?thesis using 4 by (simp add: P word_unat_eq_iff horner4)
  next
    fix a b c d r assume 5: "k = a # b # c # d # r"
    show ?thesis using 5 by (simp add: P)
  qed
qed

lemma pad_length: "length (pad n k) = n"
  by (induction n k rule: pad.induct) auto

lemma head_less:
  assumes "key_head a < key_head b"
  shows "a < b"
proof -
  have four: "\<exists>w x y z. pad 4 k = [w, x, y, z]" for k
    using pad_length [of 4 k] by (simp add: length_Suc_conv numeral_eq_Suc) blast
  obtain w x y z where p: "pad 4 a = [w, x, y, z]" using four by blast
  obtain w' x' y' z' where q: "pad 4 b = [w', x', y', z']" using four by blast
  have "((unat w * 256 + unat x) * 256 + unat y) * 256 + unat z < ((unat w' * 256 + unat x') * 256 + unat y') * 256 + unat z'"
    using assms by (simp add: head_pad p q horner4 word_less_nat_alt)
  then have "pad 4 a < pad 4 b"
    using byte_less [of w] byte_less [of x] byte_less [of y] byte_less [of z]
      byte_less [of w'] byte_less [of x'] byte_less [of y'] byte_less [of z']
    by (simp add: p q word_less_nat_alt word_unat_eq_iff) linarith
  then show ?thesis by (rule pad_less)
qed

end
