(* ===== verification/Btree_Search.thy ===== *)
theory Btree_Search
  imports Btree_Keys
begin

text \<open>
  The invariant of a node, its content as a list of keys and payloads, and the search in it:
  prefix, hints and binary search together find the position of a key in the sorted list.
\<close>

section \<open>Content\<close>

definition bytes :: "bnode \<Rightarrow> nat \<Rightarrow> nat \<Rightarrow> u8 list" where
  "bytes n off len = take len (drop off (b_heap n))"

definition key_at :: "bnode \<Rightarrow> nat \<Rightarrow> u8 list" where
  "key_at n i = bytes n (s_offset (b_slot n ! i)) (s_keyLen (b_slot n ! i))"

definition pay_at :: "bnode \<Rightarrow> nat \<Rightarrow> u8 list" where
  "pay_at n i = bytes n (s_offset (b_slot n ! i) + s_keyLen (b_slot n ! i)) (s_payloadLen (b_slot n ! i))"

definition low_key :: "bnode \<Rightarrow> u8 list" where
  "low_key n = bytes n (f_offset (lowerFence n)) (f_len (lowerFence n))"

definition upp_key :: "bnode \<Rightarrow> u8 list" where
  "upp_key n = bytes n (f_offset (upperFence n)) (f_len (upperFence n))"

definition prefix :: "bnode \<Rightarrow> u8 list" where
  "prefix n = bytes n (f_offset (lowerFence n)) (prefixLen n)"

definition entry_at :: "bnode \<Rightarrow> nat \<Rightarrow> u8 list \<times> u8 list" where
  "entry_at n i = (prefix n @ key_at n i, pay_at n i)"

definition entries :: "bnode \<Rightarrow> (u8 list \<times> u8 list) list" where
  "entries n = map (entry_at n) [0..<b_count n]"

abbreviation keys :: "bnode \<Rightarrow> u8 list list" where
  "keys n \<equiv> map fst (entries n)"

lemma entries_length [simp]: "length (entries n) = b_count n"
  by (simp add: entries_def)

lemma entries_nth [simp]: "i < b_count n \<Longrightarrow> entries n ! i = entry_at n i"
  by (simp add: entries_def)

section \<open>The invariant\<close>

definition fence_ok :: "bnode \<Rightarrow> fence \<Rightarrow> bool" where
  "fence_ok n fk \<longleftrightarrow> f_offset fk + f_len fk \<le> pageSize \<and> (f_len fk = 0 \<or> dataOffset n \<le> f_offset fk)"

definition slot_size :: "slot \<Rightarrow> nat" where
  "slot_size sl = s_keyLen sl + s_payloadLen sl"

text \<open>An entry lies below the fences, and two entries do not overlap.\<close>

definition below :: "fence \<Rightarrow> slot \<Rightarrow> bool" where
  "below fk sl \<longleftrightarrow> f_len fk = 0 \<or> s_offset sl + slot_size sl \<le> f_offset fk"

definition apart :: "slot \<Rightarrow> slot \<Rightarrow> bool" where
  "apart a b \<longleftrightarrow> s_offset a + slot_size a \<le> s_offset b \<or> s_offset b + slot_size b \<le> s_offset a"

definition slot_ok :: "bnode \<Rightarrow> slot \<Rightarrow> bool" where
  "slot_ok n sl \<longleftrightarrow> dataOffset n \<le> s_offset sl \<and> s_offset sl + s_keyLen sl + s_payloadLen sl \<le> pageSize \<and>
     s_head sl = key_head (bytes n (s_offset sl) (s_keyLen sl)) \<and> below (lowerFence n) sl \<and> below (upperFence n) sl"

definition used :: "bnode \<Rightarrow> nat" where
  "used n = f_len (lowerFence n) + f_len (upperFence n) + sum_list (map slot_size (take (b_count n) (b_slot n)))"

text \<open>The node without the order of its keys and its hints.\<close>

definition layout :: "bnode \<Rightarrow> bool" where
  "layout n \<longleftrightarrow> length (b_heap n) = pageSize \<and> length (b_slot n) = slotMax \<and> length (b_hint n) = hintCount \<and>
     slotsEnd (b_count n) \<le> dataOffset n \<and> dataOffset n \<le> pageSize \<and> fence_ok n (lowerFence n) \<and> fence_ok n (upperFence n) \<and>
     (\<forall>sl \<in> set (take (b_count n) (b_slot n)). slot_ok n sl) \<and> sorted_wrt apart (take (b_count n) (b_slot n)) \<and> prefixLen n = common_len (low_key n) (upp_key n) \<and>
     spaceUsed n = used n \<and> dataOffset n + spaceUsed n \<le> pageSize"

definition hinted :: "bnode \<Rightarrow> bool" where
  "hinted n \<longleftrightarrow> (b_count n > hintCount * 2 \<longrightarrow>
     (\<forall>i < hintCount. b_hint n ! i = s_head (b_slot n ! (b_count n div (hintCount + 1) * (i + 1)))))"

definition node_ok :: "bnode \<Rightarrow> bool" where
  "node_ok n \<longleftrightarrow> layout n \<and> hinted n \<and> sorted (keys n)"

lemma layoutD:
  assumes "layout n"
  shows "length (b_heap n) = 4096" "length (b_slot n) = 398" "length (b_hint n) = 16"
    "112 + 10 * b_count n \<le> dataOffset n" "dataOffset n \<le> 4096" "b_count n \<le> 398"
    "fence_ok n (lowerFence n)" "fence_ok n (upperFence n)" "prefixLen n = common_len (low_key n) (upp_key n)"
    "spaceUsed n = used n" "dataOffset n + spaceUsed n \<le> 4096"
    "i < b_count n \<Longrightarrow> slot_ok n (b_slot n ! i)"
proof -
  show "length (b_heap n) = 4096" "length (b_slot n) = 398" "length (b_hint n) = 16"
    "112 + 10 * b_count n \<le> dataOffset n" "dataOffset n \<le> 4096"
    "fence_ok n (lowerFence n)" "fence_ok n (upperFence n)" "prefixLen n = common_len (low_key n) (upp_key n)"
    "spaceUsed n = used n" "dataOffset n + spaceUsed n \<le> 4096"
    using assms by (auto simp: layout_def sizes slotsEnd_def)
  then show c: "b_count n \<le> 398" by simp
  show "slot_ok n (b_slot n ! i)" if "i < b_count n"
  proof -
    have "take (b_count n) (b_slot n) ! i \<in> set (take (b_count n) (b_slot n))"
      by (rule nth_mem) (use that c \<open>length (b_slot n) = 398\<close> in simp)
    then show ?thesis using assms that by (simp add: layout_def)
  qed
qed

lemma common_len_le: "common_len a b \<le> length a" "common_len a b \<le> length b"
  by (induction a b rule: common_len.induct) auto

lemma common_len_take: "take (common_len a b) a = take (common_len a b) b"
  by (induction a b rule: common_len.induct) auto

lemma bytes_length: "off + len \<le> length (b_heap n) \<Longrightarrow> length (bytes n off len) = len"
  by (simp add: bytes_def)

lemma mem_get_bytes: "off + len \<le> length (b_heap n) \<Longrightarrow> mem_get n off len = Ret (bytes n off len)"
  by (simp add: mem_get_def bytes_def)

lemma fence_lengths:
  assumes "layout n"
  shows "length (low_key n) = f_len (lowerFence n)" "length (upp_key n) = f_len (upperFence n)"
    "f_len (lowerFence n) \<le> 4096" "f_len (upperFence n) \<le> 4096"
    "getLowerFence n = Ret (low_key n)" "getUpperFence n = Ret (upp_key n)"
  using layoutD(1,7,8) [OF assms]
  by (simp_all add: low_key_def upp_key_def bytes_length fence_ok_def sizes getLowerFence_def getUpperFence_def mem_get_bytes)

lemma prefix_facts:
  assumes "layout n"
  shows "prefixLen n \<le> f_len (lowerFence n)" "prefixLen n \<le> f_len (upperFence n)" "length (prefix n) = prefixLen n"
    "prefix n = take (prefixLen n) (low_key n)" "prefix n = take (prefixLen n) (upp_key n)" "getPrefix n = Ret (prefix n)"
proof -
  note L = layoutD [OF assms] and F = fence_lengths [OF assms]
  show p: "prefixLen n \<le> f_len (lowerFence n)" "prefixLen n \<le> f_len (upperFence n)"
    using common_len_le [of "low_key n" "upp_key n"] L(9) F(1,2) by simp_all
  have r: "f_offset (lowerFence n) + prefixLen n \<le> length (b_heap n)" using L(1,7) p(1) by (simp add: fence_ok_def sizes)
  show "length (prefix n) = prefixLen n" using r by (simp add: prefix_def bytes_length)
  show low: "prefix n = take (prefixLen n) (low_key n)" using p(1) by (simp add: prefix_def low_key_def bytes_def min_def)
  show "prefix n = take (prefixLen n) (upp_key n)" unfolding low using common_len_take [of "low_key n" "upp_key n"] L(9) by simp
  show "getPrefix n = Ret (prefix n)" using r by (simp add: getPrefix_def prefix_def mem_get_bytes)
qed

lemma slot_facts:
  assumes "layout n" and "i < b_count n"
  shows "aget (b_slot n) i = Ret (b_slot n ! i)" "getKey n i = Ret (key_at n i)" "getPayload n i = Ret (pay_at n i)"
    "length (key_at n i) = s_keyLen (b_slot n ! i)" "length (pay_at n i) = s_payloadLen (b_slot n ! i)"
    "s_head (b_slot n ! i) = key_head (key_at n i)"
  using layoutD(1,2,6) [OF assms(1)] layoutD(12) [OF assms] assms(2)
  by (simp_all add: slot_ok_def sizes key_at_def pay_at_def bytes_length getKey_def getPayload_def mem_get_bytes)

lemma key_order:
  assumes "layout n" and "sorted (keys n)" and "i \<le> j" and "j < b_count n"
  shows "key_at n i \<le> key_at n j"
proof -
  have "keys n ! i \<le> keys n ! j" by (rule sorted_nth_mono [OF assms(2,3)]) (use assms(4) in simp)
  then show ?thesis using assms(3,4) by (simp add: entry_at_def)
qed

lemma head_order:
  assumes "layout n" and "sorted (keys n)" and "i \<le> j" and "j < b_count n"
  shows "s_head (b_slot n ! i) \<le> s_head (b_slot n ! j)"
proof -
  have "\<not> key_head (key_at n j) < key_head (key_at n i)" using head_less key_order [OF assms] by fastforce
  then show ?thesis using slot_facts(6) [OF assms(1)] assms(3,4) by simp
qed

section \<open>Hints\<close>

lemma hint_scan_spec:
  "pos \<le> hint_scan P hs pos k \<and> hint_scan P hs pos k \<le> pos + k \<and> (\<forall>i. pos \<le> i \<and> i < hint_scan P hs pos k \<longrightarrow> \<not> P (hs ! i)) \<and>
   (hint_scan P hs pos k < pos + k \<longrightarrow> P (hs ! hint_scan P hs pos k))"
proof (induction k arbitrary: pos)
  case (Suc k)
  show ?case
  proof (cases "P (hs ! pos)")
    case False
    have "pos \<le> i \<Longrightarrow> Suc pos \<le> i \<or> i = pos" for i by linarith
    then show ?thesis using False Suc.IH [of "Suc pos"] by auto
  qed auto
qed auto

lemma searchHint_spec:
  assumes "node_ok n" and r: "searchHint n h 0 (b_count n) = (lo, up)"
  shows "lo \<le> up" "up \<le> b_count n" "i < lo \<Longrightarrow> s_head (b_slot n ! i) < h"
    "up \<le> i \<Longrightarrow> i < b_count n \<Longrightarrow> h < s_head (b_slot n ! i)"
proof -
  have N: "layout n" "hinted n" "sorted (keys n)" using assms(1) by (simp_all add: node_ok_def)
  let ?d = "b_count n div 17"
  have "lo \<le> up \<and> up \<le> b_count n \<and> (\<forall>i < lo. s_head (b_slot n ! i) < h) \<and>
      (\<forall>i. up \<le> i \<and> i < b_count n \<longrightarrow> h < s_head (b_slot n ! i))"
  proof (cases "b_count n > 32")
    case False
    then show ?thesis using r by (auto simp: searchHint_def sizes)
  next
    case True
    define pos where "pos = hint_scan (\<lambda>x. x \<ge> h) (b_hint n) 0 16"
    define pos2 where "pos2 = hint_scan (\<lambda>x. x \<noteq> h) (b_hint n) pos (16 - pos)"
    have lu: "lo = pos * ?d" "up = (if pos2 < 16 then (pos2 + 1) * ?d else b_count n)"
      using r True by (auto simp: searchHint_def sizes Let_def pos_def pos2_def algebra_simps)
    have P: "pos \<le> 16" "\<forall>i < pos. b_hint n ! i < h" "pos < 16 \<longrightarrow> h \<le> b_hint n ! pos"
      using hint_scan_spec [of 0 "\<lambda>x. x \<ge> h" "b_hint n" 16] by (auto simp: pos_def not_le)
    have Q: "pos \<le> pos2" "pos2 \<le> 16" "\<forall>i. pos \<le> i \<and> i < pos2 \<longrightarrow> b_hint n ! i = h" "pos2 < 16 \<longrightarrow> b_hint n ! pos2 \<noteq> h"
      using hint_scan_spec [of pos "\<lambda>x. x \<noteq> h" "b_hint n" "16 - pos"] P(1) by (auto simp: pos2_def)
    have d17: "?d * 17 \<le> b_count n" by simp
    have hint: "b_hint n ! i = s_head (b_slot n ! (?d * (i + 1)))" if "i < 16" for i
      using N(2) True that by (simp add: hinted_def sizes)
    have in_range: "?d * (i + 1) < b_count n" if "i < 16" for i
    proof -
      have "?d * (i + 1) \<le> ?d * 16" by (rule mult_le_mono2) (use that in simp)
      moreover have "?d * 16 + ?d = ?d * 17" by simp
      ultimately show ?thesis using d17 True by (cases "?d = 0") linarith+
    qed
    have lo: "s_head (b_slot n ! i) < h" if i: "i < lo" for i
    proof -
      obtain q where q: "pos = Suc q" using i lu(1) by (cases pos) auto
      have "s_head (b_slot n ! i) \<le> s_head (b_slot n ! (?d * (q + 1)))"
        by (rule head_order [OF N(1,3)]) (use i lu(1) q in_range [of q] P(1) in \<open>simp_all add: mult.commute\<close>)
      then show ?thesis using hint [of q] P(1,2) q by (metis Suc_le_lessD le_less_trans lessI)
    qed
    have up: "h < s_head (b_slot n ! i)" if i: "up \<le> i" "i < b_count n" for i
    proof -
      have p2: "pos2 < 16" using i lu(2) by (auto split: if_splits)
      have "h < b_hint n ! pos2"
      proof (cases "pos = pos2")
        case True
        then show ?thesis using P(3) Q(4) p2 by auto
      next
        case False
        then have "b_hint n ! pos = h" "pos < 16" using Q(1,3) p2 by auto
        moreover have "s_head (b_slot n ! (?d * (pos + 1))) \<le> s_head (b_slot n ! (?d * (pos2 + 1)))"
          by (rule head_order [OF N(1,3)]) (use Q(1) in_range [OF p2] in simp_all)
        ultimately show ?thesis using hint [of pos] hint [OF p2] Q(4) p2 by simp
      qed
      also have "\<dots> \<le> s_head (b_slot n ! i)"
        unfolding hint [OF p2] by (rule head_order [OF N(1,3)]) (use i lu(2) p2 in \<open>simp_all add: mult.commute\<close>)
      finally show ?thesis .
    qed
    have "pos * ?d \<le> (pos2 + 1) * ?d" by (rule mult_le_mono1) (use Q(1) in simp)
    moreover have "pos * ?d \<le> 17 * ?d" "pos2 < 16 \<Longrightarrow> (pos2 + 1) * ?d \<le> 17 * ?d"
      by (rule mult_le_mono1, use P(1) in simp)+
    moreover have d: "17 * ?d \<le> b_count n" using d17 by (simp only: mult.commute)
    ultimately have "lo \<le> b_count n" "up \<le> b_count n" "lo \<le> up"
      unfolding lu by (auto simp del: mult_Suc add_mult_distrib intro: order.trans [OF _ d])
    then show ?thesis using lo up by blast
  qed
  then show "lo \<le> up" "up \<le> b_count n" "i < lo \<Longrightarrow> s_head (b_slot n ! i) < h"
    "up \<le> i \<Longrightarrow> i < b_count n \<Longrightarrow> h < s_head (b_slot n ! i)" by blast+
qed

section \<open>Binary search\<close>

definition located :: "u8 list list \<Rightarrow> u8 list \<Rightarrow> nat \<Rightarrow> bool \<Rightarrow> bool" where
  "located ks k j found \<longleftrightarrow> j \<le> length ks \<and>
     (if found then j < length ks \<and> ks ! j = k else (\<forall>i < j. ks ! i < k) \<and> (\<forall>i. j \<le> i \<and> i < length ks \<longrightarrow> k < ks ! i))"

lemma slot_search_spec:
  assumes "layout n" and "sorted (keys n)" and "lower \<le> upper" "upper \<le> b_count n"
    and "\<And>i. i < lower \<Longrightarrow> key_at n i < key" "\<And>i. upper \<le> i \<Longrightarrow> i < b_count n \<Longrightarrow> key < key_at n i"
  shows "\<exists>j f. slot_search n key (key_head key) lower upper = Ret (j, f) \<and> located (map (key_at n) [0..<b_count n]) key j f"
  using assms(3-6)
proof (induction "upper - lower" arbitrary: lower upper rule: less_induct)
  case less
  note S = slot_facts [OF assms(1)] and ord = key_order [OF assms(1,2)]
  show ?case
  proof (cases "lower < upper")
    case False
    then show ?thesis using less.prems by (auto simp: slot_search.simps [of n key] located_def)
  next
    case True
    define mid where "mid = (upper - lower) div 2 + lower"
    have m: "lower \<le> mid" "mid < upper" "mid < b_count n" using True less.prems by (auto simp: mid_def)
    let ?k = "key_at n mid"
    have below: "i < mid + 1 \<Longrightarrow> key_at n i < key" if "?k < key" for i
      using ord [of i mid] m(3) that by auto
    have above: "mid \<le> i \<Longrightarrow> i < b_count n \<Longrightarrow> key < key_at n i" if "key < ?k" for i
      using ord [of mid i] that by auto
    have step: "slot_search n key (key_head key) lower upper =
        (if key < ?k then slot_search n key (key_head key) lower mid
         else if ?k < key then slot_search n key (key_head key) (mid + 1) upper else Ret (mid, True))"
    proof -
      define c where "c = cust_memcmp key ?k (min (length key) (length ?k))"
      note C = key_compare [of key ?k, folded c_def]
      have "slot_search n key (key_head key) lower upper =
          (if key_head key < key_head ?k then slot_search n key (key_head key) lower mid
           else if key_head key > key_head ?k then slot_search n key (key_head key) (mid + 1) upper
           else if c < 0 then slot_search n key (key_head key) lower mid
           else if c > 0 then slot_search n key (key_head key) (mid + 1) upper
           else if length key < length ?k then slot_search n key (key_head key) lower mid
           else if length key > length ?k then slot_search n key (key_head key) (mid + 1) upper
           else Ret (mid, True))"
        using True by (subst slot_search.simps) (simp add: S [OF m(3)] Let_def c_def flip: mid_def)
      moreover have "key_head key < key_head ?k \<Longrightarrow> key < ?k" "key_head ?k < key_head key \<Longrightarrow> ?k < key"
        using head_less by blast+
      ultimately show ?thesis using C by (auto dest: order.asym)
    qed
    consider (lt) "key < ?k" | (gt) "?k < key" | (eq) "key = ?k" by force
    then show ?thesis
    proof cases
      case lt
      then show ?thesis using less.hyps [of mid lower] less.prems m above unfolding step by auto
    next
      case gt
      then have "\<not> key < ?k" by auto
      then show ?thesis using gt less.hyps [of upper "mid + 1"] less.prems m below unfolding step by auto
    next
      case eq
      then show ?thesis using step m(3) by (auto simp: located_def)
    qed
  qed
qed

lemma located_prefix:
  assumes "located ks k j f"
  shows "located (map ((@) p) ks) (p @ k) j f"
  using assms by (auto simp: located_def)

lemma lowerBound_spec:
  assumes ok: "node_ok n"
  shows "\<exists>j f. lowerBound skey n = Ret (j, f) \<and> located (keys n) skey j f"
proof -
  have N: "layout n" "sorted (keys n)" using ok by (simp_all add: node_ok_def)
  note P = prefix_facts [OF N(1)] and S = slot_facts [OF N(1)]
  let ?p = "prefix n" and ?m = "min (length skey) (prefixLen n)"
  define c where "c = cust_memcmp skey ?p ?m"
  have LB: "lowerBound skey n = (if c < 0 then Ret (0, False) else if c > 0 then Ret (b_count n, False)
      else if length skey < prefixLen n then Ret (0, False)
      else case searchHint n (key_head (drop (prefixLen n) skey)) 0 (b_count n) of (lo, up) \<Rightarrow>
        slot_search n (drop (prefixLen n) skey) (key_head (drop (prefixLen n) skey)) lo up)"
    unfolding lowerBound_def P(6) bind_run.simps Let_def c_def by (rule refl)
  have ks: "keys n = map ((@) ?p) (map (key_at n) [0..<b_count n])"
    by (simp add: entries_def entry_at_def comp_def)
  have M: "c < 0 \<longleftrightarrow> take ?m skey < take ?m ?p" "c > 0 \<longleftrightarrow> take ?m ?p < take ?m skey" "c = 0 \<longleftrightarrow> take ?m skey = take ?m ?p"
    using memcmp_less [of ?m skey ?p] memcmp_greater [of ?m skey ?p] memcmp_eq [of ?m skey ?p] P(3) by (simp_all add: c_def)
  have tk: "take ?m (?p @ x) = take ?m ?p" for x using P(3) by simp
  have all_less: "\<exists>j f. Ret (0, False) = Ret (j, f) \<and> located (keys n) skey j f" if "\<And>x. skey < ?p @ x"
    by (rule exI [of _ 0], rule exI [of _ False]) (simp add: located_def entry_at_def that)
  have all_greater: "\<exists>j f. Ret (b_count n, False) = Ret (j, f) \<and> located (keys n) skey j f" if "\<And>x. ?p @ x < skey"
    by (rule exI [of _ "b_count n"], rule exI [of _ False]) (auto simp: located_def entry_at_def that)
  consider (lt) "c < 0" | (gt) "c > 0" | (short) "c = 0" "length skey < prefixLen n" | (here) "c = 0" "prefixLen n \<le> length skey" by linarith
  then show ?thesis
  proof cases
    case lt
    have "skey < ?p @ x" for x using take_less [of ?m skey "?p @ x"] M(1) lt unfolding tk by blast
    then show ?thesis using all_less lt by (simp add: LB)
  next
    case gt
    have "?p @ x < skey" for x using take_less [of ?m "?p @ x" skey] M(2) gt unfolding tk by blast
    then show ?thesis using all_greater gt by (simp add: LB)
  next
    case short
    have "skey < ?p @ x" for x
    proof -
      have "take (length skey) skey = take (length skey) (?p @ x)" using M(3) short P(3) by (simp add: min_def)
      from take_eq_less [OF this] show ?thesis using short(2) P(3) by (cases "drop (length skey) ?p") auto
    qed
    then show ?thesis using all_less short by (simp add: LB)
  next
    case here
    define key where "key = drop (prefixLen n) skey"
    have "?m = prefixLen n" using here(2) by simp
    then have "take (prefixLen n) skey = ?p" using M(3) here(1) P(3) by simp
    then have sk: "skey = ?p @ key" using append_take_drop_id [of "prefixLen n" skey] by (simp add: key_def)
    obtain lo up where r: "searchHint n (key_head key) 0 (b_count n) = (lo, up)" by fastforce
    note H = searchHint_spec [OF ok r]
    have "lowerBound skey n = slot_search n key (key_head key) lo up"
      using here r by (simp add: LB flip: key_def)
    moreover have "\<exists>j f. slot_search n key (key_head key) lo up = Ret (j, f) \<and> located (map (key_at n) [0..<b_count n]) key j f"
    proof (rule slot_search_spec [OF N H(1,2)])
      show "key_at n i < key" if "i < lo" for i
      proof (rule head_less)
        have "i < b_count n" using that H(1,2) by simp
        then show "key_head (key_at n i) < key_head key" using H(3) [OF that] S(6) by simp
      qed
      show "key < key_at n i" if "up \<le> i" "i < b_count n" for i
        by (rule head_less) (use H(4) [OF that] S(6) [OF that(2)] in simp)
    qed
    ultimately show ?thesis using located_prefix [of "map (key_at n) [0..<b_count n]" key _ _ ?p] unfolding ks by (metis sk)
  qed
qed

text \<open>What the position means for the list of keys.\<close>

lemma located_mem: "sorted ks \<Longrightarrow> located ks k j f \<Longrightarrow> f \<longleftrightarrow> k \<in> set ks"
  by (cases f) (auto simp: located_def in_set_conv_nth not_le dest: leD, metis less_irrefl not_le)

end
