(* ===== verification/Btree_Layout.thy ===== *)
theory Btree_Layout
  imports Btree_Search
begin

text \<open>
  Writing to a node: a key and its payload are stored below the heap in use, so no other
  entry and no fence changes. Fences, copies of a range of entries and hints.
\<close>

section \<open>Storing one entry\<close>

text \<open>What all operations of a node keep, for the slots \<open>S\<close>.\<close>

definition framed :: "bnode \<Rightarrow> nat set \<Rightarrow> bool" where
  "framed n S \<longleftrightarrow> length (b_heap n) = 4096 \<and> length (b_slot n) = 398 \<and> length (b_hint n) = 16 \<and> dataOffset n \<le> 4096 \<and>
     fence_ok n (lowerFence n) \<and> fence_ok n (upperFence n) \<and> prefixLen n = common_len (low_key n) (upp_key n) \<and>
     (\<forall>i \<in> S. slot_ok n (b_slot n ! i)) \<and> (\<forall>i \<in> S. \<forall>j \<in> S. i < j \<longrightarrow> apart (b_slot n ! i) (b_slot n ! j))"

lemma layout_framed:
  "layout n \<longleftrightarrow> framed n {..<b_count n} \<and> slotsEnd (b_count n) \<le> dataOffset n \<and> spaceUsed n = used n \<and> dataOffset n + spaceUsed n \<le> 4096"
proof -
  have "b_count n \<le> length (b_slot n) \<Longrightarrow>
      (\<forall>sl \<in> set (take (b_count n) (b_slot n)). slot_ok n sl) \<longleftrightarrow> (\<forall>i < b_count n. slot_ok n (b_slot n ! i))"
    by (force simp: in_set_conv_nth)
  moreover have "b_count n \<le> length (b_slot n) \<Longrightarrow> sorted_wrt apart (take (b_count n) (b_slot n)) \<longleftrightarrow>
      (\<forall>i < b_count n. \<forall>j < b_count n. i < j \<longrightarrow> apart (b_slot n ! i) (b_slot n ! j))"
    by (auto simp: sorted_wrt_iff_nth_less)
  ultimately show ?thesis by (auto simp: layout_def framed_def sizes slotsEnd_def)
qed

definition store :: "nat \<Rightarrow> u8 list \<Rightarrow> u8 list \<Rightarrow> bnode \<Rightarrow> bnode" where
  "store j key pay n =
     (let d = dataOffset n - (length key + length pay) in
      n\<lparr>dataOffset := d, spaceUsed := spaceUsed n + (length key + length pay),
        b_slot := (b_slot n)[j := \<lparr>s_offset = d, s_keyLen = length key, s_payloadLen = length pay, s_head = key_head key\<rparr>],
        b_heap := take d (b_heap n) @ (key @ pay) @ drop (d + length (key @ pay)) (b_heap n)\<rparr>)"

lemma store_sel [simp]:
  "b_dirty (store j key pay n) = b_dirty n" "b_pid (store j key pay n) = b_pid n" "b_link (store j key pay n) = b_link n"
  "lowerFence (store j key pay n) = lowerFence n" "upperFence (store j key pay n) = upperFence n"
  "b_count (store j key pay n) = b_count n" "isLeaf (store j key pay n) = isLeaf n" "prefixLen (store j key pay n) = prefixLen n"
  "b_hint (store j key pay n) = b_hint n"
  "dataOffset (store j key pay n) = dataOffset n - (length key + length pay)"
  "spaceUsed (store j key pay n) = spaceUsed n + (length key + length pay)"
  by (simp_all add: store_def Let_def)

lemma bytes_above:
  assumes "length (b_heap n) = 4096" and "d + length bs \<le> off" and "d + length bs \<le> 4096"
  shows "bytes (n\<lparr>b_heap := take d (b_heap n) @ bs @ drop (d + length bs) (b_heap n)\<rparr>) off len = bytes n off len"
  using assms by (simp add: bytes_def min_def)

lemma store_bytes:
  assumes "length (b_heap n) = 4096" and "length key + length pay \<le> dataOffset n" and "dataOffset n \<le> 4096"
  shows "dataOffset n \<le> off \<Longrightarrow> bytes (store j key pay n) off len = bytes n off len"
    and "length (b_heap (store j key pay n)) = 4096"
    and "bytes (store j key pay n) (dataOffset n - (length key + length pay)) (length key) = key"
    and "bytes (store j key pay n) (dataOffset n - (length key + length pay) + length key) (length pay) = pay"
proof -
  let ?d = "dataOffset n - (length key + length pay)"
  have h: "b_heap (store j key pay n) = take ?d (b_heap n) @ (key @ pay) @ drop (?d + length (key @ pay)) (b_heap n)"
    by (simp add: store_def Let_def)
  have d: "?d + length (key @ pay) = dataOffset n" using assms(2) by simp
  show "bytes (store j key pay n) off len = bytes n off len" if "dataOffset n \<le> off"
    using assms that unfolding bytes_def h d by simp
  show "length (b_heap (store j key pay n)) = 4096" using assms unfolding h d by simp
  have t: "length (take ?d (b_heap n)) = ?d" using assms by simp
  show "bytes (store j key pay n) ?d (length key) = key" unfolding bytes_def h using t by simp
  show "bytes (store j key pay n) (?d + length key) (length pay) = pay"
    unfolding bytes_def h using t by (simp add: drop_append [of "?d + length key"])
qed

lemma fence_bytes:
  assumes "fence_ok n fk" and "\<And>off len. dataOffset n \<le> off \<Longrightarrow> bytes n' off len = bytes n off len"
  shows "bytes n' (f_offset fk) (f_len fk) = bytes n (f_offset fk) (f_len fk)"
  using assms by (cases "f_len fk = 0") (auto simp: fence_ok_def bytes_def)

lemma store_framed:
  assumes f: "framed n S" and s: "length key + length pay \<le> dataOffset n" and j: "j < 398"
  shows "framed (store j key pay n) (insert j S)"
    and "key_at (store j key pay n) j = key" "pay_at (store j key pay n) j = pay"
    and "i \<in> S \<Longrightarrow> i \<noteq> j \<Longrightarrow> key_at (store j key pay n) i = key_at n i \<and> pay_at (store j key pay n) i = pay_at n i"
    and "low_key (store j key pay n) = low_key n" "upp_key (store j key pay n) = upp_key n" "prefix (store j key pay n) = prefix n"
    and "b_slot (store j key pay n) ! j = \<lparr>s_offset = dataOffset n - (length key + length pay), s_keyLen = length key,
      s_payloadLen = length pay, s_head = key_head key\<rparr>"
    and "i \<noteq> j \<Longrightarrow> b_slot (store j key pay n) ! i = b_slot n ! i"
proof -
  let ?n = "store j key pay n"
  have F: "length (b_heap n) = 4096" "length (b_slot n) = 398" "length (b_hint n) = 16" "dataOffset n \<le> 4096"
    "fence_ok n (lowerFence n)" "fence_ok n (upperFence n)" "prefixLen n = common_len (low_key n) (upp_key n)"
    "\<And>i. i \<in> S \<Longrightarrow> slot_ok n (b_slot n ! i)" "\<And>i j. i \<in> S \<Longrightarrow> j \<in> S \<Longrightarrow> i < j \<Longrightarrow> apart (b_slot n ! i) (b_slot n ! j)"
    using f by (auto simp: framed_def)
  note B = store_bytes [OF F(1) s F(4)]
  show sj: "b_slot ?n ! j = \<lparr>s_offset = dataOffset n - (length key + length pay), s_keyLen = length key,
      s_payloadLen = length pay, s_head = key_head key\<rparr>" using F(2) j by (simp add: store_def Let_def)
  show si: "i \<noteq> j \<Longrightarrow> b_slot ?n ! i = b_slot n ! i" for i by (simp add: store_def Let_def)
  have ol: "s_offset (b_slot n ! i) \<ge> dataOffset n" if "i \<in> S" for i using F(8) [OF that] by (simp add: slot_ok_def)
  show kj: "key_at ?n j = key" "pay_at ?n j = pay" using B(3,4) by (simp_all add: key_at_def pay_at_def sj)
  show ki: "key_at ?n i = key_at n i \<and> pay_at ?n i = pay_at n i" if "i \<in> S" "i \<noteq> j" for i
    using ol [OF that(1)] by (simp add: key_at_def pay_at_def si [OF that(2)] B(1))
  show low: "low_key ?n = low_key n" "upp_key ?n = upp_key n"
    using fence_bytes [OF F(5) B(1)] fence_bytes [OF F(6) B(1)] by (simp_all add: low_key_def upp_key_def)
  show "prefix ?n = prefix n"
  proof (cases "f_len (lowerFence n) = 0")
    case True
    then have "prefixLen n = 0" using F(7) common_len_le(1) [of "low_key n" "upp_key n"] by (simp add: low_key_def bytes_def)
    then show ?thesis by (simp add: prefix_def bytes_def)
  next
    case False
    then show ?thesis using F(5) B(1) by (simp add: prefix_def fence_ok_def)
  qed
  have "slot_ok ?n (b_slot ?n ! i)" if "i \<in> insert j S" for i
  proof (cases "i = j")
    case True
    then show ?thesis using s F(4,5,6) B(3) by (auto simp: slot_ok_def sj sizes fence_ok_def below_def slot_size_def)
  next
    case False
    then have "i \<in> S" using that by simp
    then have "slot_ok n (b_slot n ! i)" by (rule F(8))
    moreover from this have "dataOffset n \<le> s_offset (b_slot n ! i)" by (simp add: slot_ok_def)
    ultimately show ?thesis using B(1) by (simp add: si [OF False] slot_ok_def)
  qed
  moreover have "length (b_slot ?n) = 398" using F(2) by (simp add: store_def Let_def)
  moreover have "fence_ok ?n (lowerFence ?n)" "fence_ok ?n (upperFence ?n)" using F(5,6) by (auto simp: fence_ok_def)
  moreover have "apart (b_slot ?n ! a) (b_slot ?n ! b)" if ab: "a \<in> insert j S" "b \<in> insert j S" "a < b" for a b
  proof -
    consider "a = j" "b \<noteq> j" "b \<in> S" | "b = j" "a \<noteq> j" "a \<in> S" | "a \<noteq> j" "b \<noteq> j" "a \<in> S" "b \<in> S" using ab by auto
    then show ?thesis
      by cases (use s ol F(9) ab(3) in \<open>auto simp: si sj apart_def slot_size_def\<close>)
  qed
  ultimately show "framed ?n (insert j S)" using F B(2) low by (simp add: framed_def)
qed

section \<open>The three ways the code stores an entry\<close>

lemma store_ret:
  assumes f: "length (b_heap n) = 4096" "length (b_slot n) = 398" "dataOffset n \<le> 4096" "spaceUsed n \<le> 4096"
    and s: "length key + length pay \<le> dataOffset n" and j: "j < 398"
  shows "(let off = sub16 (dataOffset n) (length key + length pay);
      m = n\<lparr>dataOffset := off, spaceUsed := add16 (spaceUsed n) (length key + length pay)\<rparr> in
      bind_run (set_slot j \<lparr>s_offset = off, s_keyLen = length key, s_payloadLen = length pay, s_head = key_head key\<rparr> m)
        (mem_put off (key @ pay))) = Ret (store j key pay n)"
  using assms by (simp add: Let_def set_slot_def mem_put_def store_def)

lemma mem_put_twice:
  assumes "off + length (a @ b) \<le> length (b_heap n)"
  shows "bind_run (mem_put off a n) (mem_put (off + length a) b) = mem_put off (a @ b) n"
proof -
  define h where "h = take off (b_heap n) @ a @ drop (off + length a) (b_heap n)"
  have t: "length (take off (b_heap n)) = off" using assms by simp
  have "take (off + length a) h = take off (b_heap n) @ a" unfolding h_def using t by simp
  moreover have "drop (off + length a + length b) h = drop (off + length a + length b) (b_heap n)"
    unfolding h_def using t by (simp add: add.commute)
  moreover have "length h = length (b_heap n)" using assms by (simp add: h_def)
  ultimately show ?thesis using assms by (simp add: mem_put_def add.assoc flip: h_def)
qed

lemma framed_prefixLen: "framed n S \<Longrightarrow> prefixLen n \<le> 4096"
proof -
  assume f: "framed n S"
  then have "prefixLen n \<le> length (low_key n)" using common_len_le(1) by (simp add: framed_def)
  also have "\<dots> \<le> f_len (lowerFence n)" by (simp add: low_key_def bytes_def)
  also have "\<dots> \<le> 4096" using f by (simp add: framed_def fence_ok_def sizes)
  finally show ?thesis .
qed

lemma storeKeyValue_store:
  assumes f: "framed n S" "spaceUsed n \<le> 4096" and k: "prefixLen n \<le> length skey"
    and s: "headerSize + slotSize * j + (length skey - prefixLen n + length pay) \<le> dataOffset n" and j: "j < 398"
  shows "storeKeyValue j skey pay n = Ret (store j (drop (prefixLen n) skey) pay n)"
proof -
  have F: "length (b_heap n) = 4096" "length (b_slot n) = 398" "dataOffset n \<le> 4096" using f(1) by (auto simp: framed_def)
  define key where "key = drop (prefixLen n) skey"
  have s': "112 + 10 * j + (length key + length pay) \<le> dataOffset n" using s by (simp add: key_def sizes)
  then have b: "length key + length pay \<le> 4096" using F(3) by simp
  have kl: "sub32 (length skey) (prefixLen n) = length key"
    using framed_prefixLen [OF f(1)] b k by (simp add: key_def)
  define off where "off = dataOffset n - (length key + length pay)"
  have o: "sub16 (dataOffset n) (length key + length pay) = off" using s' F(3) by (simp add: off_def)
  let ?m = "n\<lparr>dataOffset := off, spaceUsed := add16 (spaceUsed n) (length key + length pay)\<rparr>"
  let ?sl = "\<lparr>s_offset = off, s_keyLen = length key, s_payloadLen = length pay, s_head = key_head key\<rparr>"
  have "storeKeyValue j skey pay n = bind_run (set_slot j ?sl ?m) (\<lambda>n. check (off \<ge> headerSize + slotSize * j)
      ''getKey(slotId) >= &slot[slotId]'' (bind_run (mem_put off key n) (mem_put (off + length key) pay)))"
    using b by (simp add: storeKeyValue_def Let_def kl o flip: key_def)
  also have "\<dots> = bind_run (set_slot j ?sl ?m) (mem_put off (key @ pay))"
  proof -
    obtain m where m: "set_slot j ?sl ?m = Ret m" "b_heap m = b_heap n" using F(2) j by (simp add: set_slot_def)
    have "headerSize + slotSize * j \<le> off" using s' by (simp add: off_def sizes)
    then show ?thesis using mem_put_twice [of off key pay m] m s' F(1,3) by (simp add: off_def)
  qed
  also have "\<dots> = Ret (store j key pay n)"
    using store_ret [OF F f(2), of key pay j] s' j by (simp add: Let_def o)
  finally show ?thesis by (simp add: key_def)
qed

lemma bytes_add: "bytes n off (a + b) = bytes n off a @ bytes n (off + a) b"
  by (simp add: bytes_def take_add add.commute)

lemma bytes_drop: "d \<le> len \<Longrightarrow> bytes n (off + d) (len - d) = drop d (bytes n off len)"
  by (simp add: bytes_def drop_take add.commute)

lemma copy_cut_store:
  assumes src: "layout src" "i < b_count src" and d: "diff \<le> length (key_at src i)"
    and f: "framed dst S" "spaceUsed dst \<le> 4096"
    and s: "length (key_at src i) - diff + length (pay_at src i) \<le> dataOffset dst" and j: "j < 398"
  shows "copy_cut diff src i dst j = Ret (store j (drop diff (key_at src i)) (pay_at src i) dst)"
proof -
  have F: "length (b_heap dst) = 4096" "length (b_slot dst) = 398" "dataOffset dst \<le> 4096" using f(1) by (auto simp: framed_def)
  note X = slot_facts [OF src] and L = layoutD [OF src(1)]
  let ?sl = "b_slot src ! i"
  define key where "key = drop diff (key_at src i)"
  define pay where "pay = pay_at src i"
  have so: "s_offset ?sl + s_keyLen ?sl + s_payloadLen ?sl \<le> 4096" using L(12) [OF src(2)] by (simp add: slot_ok_def sizes)
  have kl: "sub32 (s_keyLen ?sl) diff = length key" using d X(4) so by (simp add: key_def)
  have pl: "s_payloadLen ?sl = length pay" using X(5) by (simp add: pay_def)
  have b: "length key + length pay \<le> dataOffset dst" using s by (simp add: key_def pay_def)
  have split: "bytes src (s_offset ?sl + diff) (length key + length pay) = key @ pay"
  proof -
    have k: "bytes src (s_offset ?sl + diff) (length key) = key"
      using bytes_drop [of diff "s_keyLen ?sl" src "s_offset ?sl"] d X(4) by (simp add: key_def key_at_def)
    have "s_offset ?sl + diff + length key = s_offset ?sl + s_keyLen ?sl" using d X(4) by (simp add: key_def)
    moreover have "bytes src (s_offset ?sl + s_keyLen ?sl) (length pay) = pay"
      unfolding pl [symmetric] by (simp add: pay_def pay_at_def)
    ultimately show ?thesis unfolding bytes_add k by (simp add: add.assoc)
  qed
  have get: "mem_get src (s_offset ?sl + diff) (length key + length pay) = Ret (key @ pay)"
    unfolding split [symmetric] by (rule mem_get_bytes) (use so L(1) d X(4,5) in \<open>simp add: key_def pay_def\<close>)
  show ?thesis
    using store_ret [OF F f(2) b j] b F(3)
    by (simp add: copy_cut_def X(1) kl pl get Let_def flip: key_def pay_def)
qed

lemma copyKeyValue_store:
  assumes src: "layout src" "i < b_count src" and f: "framed dst S" "spaceUsed dst \<le> 4096"
    and k: "prefixLen dst \<le> length (prefix src @ key_at src i)"
    and s: "headerSize + slotSize * j + (length (prefix src @ key_at src i) - prefixLen dst + length (pay_at src i)) \<le> dataOffset dst"
    and j: "j < 398"
  shows "copyKeyValue src i dst j = Ret (store j (drop (prefixLen dst) (prefix src @ key_at src i)) (pay_at src i) dst)"
  using storeKeyValue_store [OF f k s j] slot_facts [OF src] prefix_facts(6) [OF src(1)]
  by (simp add: copyKeyValue_def)

section \<open>Copying a range\<close>

definition entry_size :: "nat \<Rightarrow> u8 list \<times> u8 list \<Rightarrow> nat" where
  "entry_size pl e = length (fst e) - pl + length (snd e)"

fun puts :: "nat \<Rightarrow> (u8 list \<times> u8 list) list \<Rightarrow> bnode \<Rightarrow> bnode" where
  "puts j [] n = n"
| "puts j (e # es) n = puts (Suc j) es (store j (drop (prefixLen n) (fst e)) (snd e) n)"

lemma puts_sel [simp]:
  "b_dirty (puts j es n) = b_dirty n" "b_pid (puts j es n) = b_pid n" "b_link (puts j es n) = b_link n"
  "lowerFence (puts j es n) = lowerFence n" "upperFence (puts j es n) = upperFence n"
  "b_count (puts j es n) = b_count n" "isLeaf (puts j es n) = isLeaf n" "prefixLen (puts j es n) = prefixLen n"
  "b_hint (puts j es n) = b_hint n"
  by (induction j es n rule: puts.induct) simp_all

lemma puts_framed:
  assumes "framed n {..<j}" and "sum_list (map (entry_size (prefixLen n)) es) \<le> dataOffset n" and "j + length es \<le> 398"
  shows "framed (puts j es n) {..<j + length es}"
    and "i < j \<Longrightarrow> key_at (puts j es n) i = key_at n i \<and> pay_at (puts j es n) i = pay_at n i \<and> b_slot (puts j es n) ! i = b_slot n ! i"
    and "i < length es \<Longrightarrow> key_at (puts j es n) (j + i) = drop (prefixLen n) (fst (es ! i)) \<and> pay_at (puts j es n) (j + i) = snd (es ! i)"
    and "low_key (puts j es n) = low_key n" "upp_key (puts j es n) = upp_key n" "prefix (puts j es n) = prefix n"
    and "dataOffset (puts j es n) = dataOffset n - sum_list (map (entry_size (prefixLen n)) es)"
    and "spaceUsed (puts j es n) = spaceUsed n + sum_list (map (entry_size (prefixLen n)) es)"
proof -
  have "framed (puts j es n) {..<j + length es} \<and>
    (\<forall>i < j. key_at (puts j es n) i = key_at n i \<and> pay_at (puts j es n) i = pay_at n i \<and> b_slot (puts j es n) ! i = b_slot n ! i) \<and>
    (\<forall>i < length es. key_at (puts j es n) (j + i) = drop (prefixLen n) (fst (es ! i)) \<and> pay_at (puts j es n) (j + i) = snd (es ! i)) \<and>
    low_key (puts j es n) = low_key n \<and> upp_key (puts j es n) = upp_key n \<and> prefix (puts j es n) = prefix n \<and>
    dataOffset (puts j es n) = dataOffset n - sum_list (map (entry_size (prefixLen n)) es) \<and>
    spaceUsed (puts j es n) = spaceUsed n + sum_list (map (entry_size (prefixLen n)) es)"
    using assms
  proof (induction j es n rule: puts.induct)
    case (2 j e es n)
    let ?key = "drop (prefixLen n) (fst e)"
    define m where "m = store j ?key (snd e) n"
    have sz: "length ?key + length (snd e) = entry_size (prefixLen n) e" by (simp add: entry_size_def)
    have s: "length ?key + length (snd e) \<le> dataOffset n" using "2.prems"(2) unfolding sz by simp
    have j: "j < 398" using "2.prems"(3) by simp
    note St = store_framed [OF "2.prems"(1) s j, folded m_def]
    have f: "framed m {..<Suc j}" using St(1) by (simp add: lessThan_Suc)
    have pl: "prefixLen m = prefixLen n" "dataOffset m = dataOffset n - entry_size (prefixLen n) e"
      "spaceUsed m = spaceUsed n + entry_size (prefixLen n) e" unfolding m_def by (simp_all add: sz [symmetric])
    have "sum_list (map (entry_size (prefixLen m)) es) \<le> dataOffset m" "Suc j + length es \<le> 398"
      using "2.prems"(2,3) by (simp_all add: pl)
    note IH = "2.IH" [folded m_def, OF f this]
    have e: "puts j (e # es) n = puts (Suc j) es m" by (simp add: m_def)
    have old: "key_at (puts (Suc j) es m) i = key_at n i \<and> pay_at (puts (Suc j) es m) i = pay_at n i \<and>
        b_slot (puts (Suc j) es m) ! i = b_slot n ! i" if "i < j" for i
      using IH that St(4) [of i] St(9) [of i] by simp
    have new: "key_at (puts (Suc j) es m) (j + i) = drop (prefixLen n) (fst ((e # es) ! i)) \<and>
        pay_at (puts (Suc j) es m) (j + i) = snd ((e # es) ! i)" if "i < length (e # es)" for i
    proof (cases i)
      case 0
      then show ?thesis using IH St(2,3) by simp
    next
      case (Suc i')
      then show ?thesis using IH that pl(1) by simp
    qed
    show ?case unfolding e using IH old new St(5-7) pl by simp
  qed simp
  then show "framed (puts j es n) {..<j + length es}"
    "i < j \<Longrightarrow> key_at (puts j es n) i = key_at n i \<and> pay_at (puts j es n) i = pay_at n i \<and> b_slot (puts j es n) ! i = b_slot n ! i"
    "i < length es \<Longrightarrow> key_at (puts j es n) (j + i) = drop (prefixLen n) (fst (es ! i)) \<and> pay_at (puts j es n) (j + i) = snd (es ! i)"
    "low_key (puts j es n) = low_key n" "upp_key (puts j es n) = upp_key n" "prefix (puts j es n) = prefix n"
    "dataOffset (puts j es n) = dataOffset n - sum_list (map (entry_size (prefixLen n)) es)"
    "spaceUsed (puts j es n) = spaceUsed n + sum_list (map (entry_size (prefixLen n)) es)" by blast+
qed

lemma entry_at_simps: "fst (entry_at n i) = prefix n @ key_at n i" "snd (entry_at n i) = pay_at n i"
  by (simp_all add: entry_at_def)

lemma copy_one:
  assumes src: "layout src" "i < b_count src" and f: "framed dst S" "spaceUsed dst \<le> 4096"
    and k: "prefixLen dst \<le> length (fst (entry_at src i))" and j: "j < 398"
    and s: "headerSize + slotSize * j + entry_size (prefixLen dst) (entry_at src i) \<le> dataOffset dst"
  shows "(if prefixLen src \<le> prefixLen dst then copy_cut (prefixLen dst - prefixLen src) src else copyKeyValue src) i dst j =
    Ret (store j (drop (prefixLen dst) (fst (entry_at src i))) (snd (entry_at src i)) dst)"
proof (cases "prefixLen src \<le> prefixLen dst")
  case True
  have p: "length (prefix src) = prefixLen src" by (rule prefix_facts(3) [OF src(1)])
  have d: "drop (prefixLen dst - prefixLen src) (key_at src i) = drop (prefixLen dst) (prefix src @ key_at src i)"
    using True p by simp
  have "copy_cut (prefixLen dst - prefixLen src) src i dst j =
      Ret (store j (drop (prefixLen dst - prefixLen src) (key_at src i)) (pay_at src i) dst)"
    by (rule copy_cut_store [OF src _ f _ j]) (use k s p True in \<open>simp_all add: entry_at_simps entry_size_def\<close>)
  then show ?thesis using True unfolding d by (simp add: entry_at_simps)
next
  case False
  then show ?thesis
    using copyKeyValue_store [OF src f _ _ j] k s by (simp add: entry_at_simps entry_size_def)
qed

lemma copy_loop_puts:
  assumes src: "layout src" and f: "framed dst {..<j}" and sp: "spaceUsed dst + sum_list (map (entry_size (prefixLen dst)) es) \<le> 4096"
    and es: "es = take k (drop i (entries src))" "i + k \<le> b_count src" and pre: "\<forall>e \<in> set es. prefixLen dst \<le> length (fst e)"
    and s: "headerSize + slotSize * (j + k) + sum_list (map (entry_size (prefixLen dst)) es) \<le> dataOffset dst" and j: "j + k \<le> 398"
  shows "copy_loop (if prefixLen src \<le> prefixLen dst then copy_cut (prefixLen dst - prefixLen src) src else copyKeyValue src) k i j dst =
    Ret (puts j es dst)"
  using f sp es pre s j
proof (induction k arbitrary: i j dst es)
  case (Suc k)
  let ?e = "entry_at src i" and ?es = "take k (drop (Suc i) (entries src))"
  have i: "i < b_count src" using Suc.prems(4) by simp
  have es: "es = ?e # ?es" using Suc.prems(3) i by (simp add: Cons_nth_drop_Suc [symmetric])
  let ?f = "if prefixLen src \<le> prefixLen dst then copy_cut (prefixLen dst - prefixLen src) src else copyKeyValue src"
  define m where "m = store j (drop (prefixLen dst) (fst ?e)) (snd ?e) dst"
  let ?sum = "sum_list (map (entry_size (prefixLen dst)) ?es)"
  have sum: "sum_list (map (entry_size (prefixLen dst)) es) = entry_size (prefixLen dst) ?e + ?sum"
    by (subst es) simp
  have pre: "prefixLen dst \<le> length (fst ?e)" "\<forall>e \<in> set ?es. prefixLen dst \<le> length (fst e)"
    using Suc.prems(5) es by (metis list.set_intros)+
  note P = Suc.prems(2,6) [unfolded sum]
  have one: "?f i dst j = Ret m"
    unfolding m_def by (rule copy_one [OF src i Suc.prems(1) _ pre(1)]) (use P Suc.prems(7) in \<open>simp_all add: sizes\<close>)
  have pl: "prefixLen m = prefixLen dst" by (simp add: m_def)
  have sz: "length (drop (prefixLen dst) (fst ?e)) + length (snd ?e) = entry_size (prefixLen dst) ?e" by (simp add: entry_size_def)
  have off: "dataOffset m = dataOffset dst - entry_size (prefixLen dst) ?e" "spaceUsed m = spaceUsed dst + entry_size (prefixLen dst) ?e"
    unfolding m_def by (simp_all add: sz [symmetric])
  have fr: "framed m {..<Suc j}"
    using store_framed(1) [OF Suc.prems(1), of "drop (prefixLen dst) (fst ?e)" "snd ?e" j] P Suc.prems(7) sz
    by (simp add: m_def lessThan_Suc)
  have "copy_loop (if prefixLen src \<le> prefixLen m then copy_cut (prefixLen m - prefixLen src) src else copyKeyValue src) k (Suc i) (Suc j) m =
      Ret (puts (Suc j) ?es m)"
    by (rule Suc.IH [OF fr _ refl]) (use P pre(2) Suc.prems(4,7) in \<open>simp_all add: pl off sizes\<close>)
  then have rest: "copy_loop ?f k (Suc i) (Suc j) m = Ret (puts (Suc j) ?es m)" unfolding pl .
  have "copy_loop ?f (Suc k) i j dst = Ret (puts (Suc j) ?es m)"
    unfolding copy_loop.simps one bind_run.simps Suc_eq_plus1 [symmetric] by (rule rest)
  moreover have "puts j es dst = puts (Suc j) ?es m" by (subst es) (simp add: m_def)
  ultimately show ?case by (simp only:)
qed simp

abbreviation entries_size :: "nat \<Rightarrow> (u8 list \<times> u8 list) list \<Rightarrow> nat" where
  "entries_size pl es \<equiv> sum_list (map (entry_size pl) es)"

lemma framed_slot:
  assumes "framed n S" and "i \<in> S"
  shows "length (key_at n i) = s_keyLen (b_slot n ! i)" "length (pay_at n i) = s_payloadLen (b_slot n ! i)"
  using assms by (auto simp: framed_def slot_ok_def sizes key_at_def pay_at_def bytes_length)

lemma framed_prefix:
  assumes "framed n S"
  shows "length (prefix n) = prefixLen n"
proof -
  have "prefixLen n \<le> f_len (lowerFence n)"
    using common_len_le(1) [of "low_key n" "upp_key n"] assms by (auto simp: framed_def low_key_def bytes_def)
  then show ?thesis using assms unfolding prefix_def by (intro bytes_length) (simp add: framed_def fence_ok_def sizes)
qed

lemma used_entries:
  assumes f: "framed n {..<b_count n}" and c: "b_count n \<le> 398"
  shows "used n = f_len (lowerFence n) + f_len (upperFence n) + entries_size (prefixLen n) (entries n)"
proof -
  have "map slot_size (take (b_count n) (b_slot n)) = map (entry_size (prefixLen n)) (entries n)"
  proof (rule nth_equalityI)
    have l: "length (b_slot n) = 398" using f by (simp add: framed_def)
    then show "length (map slot_size (take (b_count n) (b_slot n))) = length (map (entry_size (prefixLen n)) (entries n))" using c by simp
    fix i assume "i < length (map slot_size (take (b_count n) (b_slot n)))"
    then have i: "i < b_count n" by simp
    then show "map slot_size (take (b_count n) (b_slot n)) ! i = map (entry_size (prefixLen n)) (entries n) ! i"
      using framed_slot [OF f, of i] framed_prefix [OF f] l c
      by (simp add: slot_size_def entry_size_def entry_at_simps)
  qed
  then show ?thesis by (simp only: used_def)
qed

lemma layout_entries:
  assumes "framed n {..<b_count n}"
  shows "layout n \<longleftrightarrow> slotsEnd (b_count n) \<le> dataOffset n \<and> dataOffset n + spaceUsed n \<le> 4096 \<and>
    spaceUsed n = f_len (lowerFence n) + f_len (upperFence n) + entries_size (prefixLen n) (entries n)"
proof -
  have "slotsEnd (b_count n) \<le> dataOffset n \<Longrightarrow> b_count n \<le> 398"
    using assms by (simp add: framed_def slotsEnd_def sizes)
  then show ?thesis using assms used_entries [OF assms] by (auto simp: layout_framed)
qed

lemma layout_parts:
  assumes "layout n"
  shows "framed n {..<b_count n}" "slotsEnd (b_count n) \<le> dataOffset n" "dataOffset n + spaceUsed n \<le> 4096"
    "spaceUsed n = f_len (lowerFence n) + f_len (upperFence n) + entries_size (prefixLen n) (entries n)"
  using assms layout_entries [of n] by (auto simp: layout_framed)

text \<open>What an operation that only stores entries keeps.\<close>

definition same_frame :: "bnode \<Rightarrow> bnode \<Rightarrow> bool" where
  "same_frame n n' \<longleftrightarrow> b_dirty n' = b_dirty n \<and> b_pid n' = b_pid n \<and> b_link n' = b_link n \<and> isLeaf n' = isLeaf n \<and>
     low_key n' = low_key n \<and> upp_key n' = upp_key n \<and> prefixLen n' = prefixLen n \<and> prefix n' = prefix n"

lemma same_frame_refl [simp]: "same_frame n n"
  by (simp add: same_frame_def)

lemma same_frame_trans: "same_frame a b \<Longrightarrow> same_frame b c \<Longrightarrow> same_frame a c"
  by (simp add: same_frame_def)

lemma copyRange_ok:
  assumes src: "layout src" and dst: "layout dst" and es: "es = take k (drop i (entries src))" "i + k \<le> b_count src"
    and pre: "\<forall>e \<in> set es. take (prefixLen dst) (fst e) = prefix dst"
    and s: "slotsEnd (b_count dst + k) + entries_size (prefixLen dst) es \<le> dataOffset dst"
  shows "\<exists>t. copyKeyValueRange src (b_count dst) i k dst = Ret t \<and> layout t \<and> same_frame dst t \<and> entries t = entries dst @ es \<and>
    b_count t = b_count dst + k \<and> dataOffset t = dataOffset dst - entries_size (prefixLen dst) es \<and>
    spaceUsed t = spaceUsed dst + entries_size (prefixLen dst) es"
proof -
  note D = layout_parts [OF dst]
  let ?m = "b_count dst" and ?sz = "entries_size (prefixLen dst) es"
  have k: "length es = k" using es by simp
  have plen: "prefixLen dst \<le> length (fst e)" if "e \<in> set es" for e
  proof -
    have "length (take (prefixLen dst) (fst e)) = prefixLen dst" using pre that framed_prefix [OF D(1)] by simp
    then show ?thesis by simp
  qed
  have m: "?m + k \<le> 398" "headerSize + slotSize * (?m + k) + ?sz \<le> dataOffset dst" "dataOffset dst \<le> 4096"
    using s D(1) by (simp_all add: framed_def slotsEnd_def sizes)
  have sp: "spaceUsed dst + ?sz \<le> 4096" using m D(3) by (simp add: sizes)
  have cl: "copy_loop (if prefixLen src \<le> prefixLen dst then copy_cut (prefixLen dst - prefixLen src) src else copyKeyValue src)
      k i ?m dst = Ret (puts ?m es dst)"
    by (rule copy_loop_puts [OF src D(1) sp es _ m(2,1)]) (use plen in blast)
  define p where "p = puts ?m es dst"
  define t where "t = p\<lparr>b_count := ?m + k\<rparr>"
  have "?sz \<le> dataOffset dst" "?m + length es \<le> 398" using m k by simp_all
  note P = puts_framed [OF D(1) this, folded p_def]
  have t_at: "key_at t = key_at p" "pay_at t = pay_at p" "prefix t = prefix p" "low_key t = low_key p" "upp_key t = upp_key p"
    by (simp_all add: t_def fun_eq_iff key_at_def pay_at_def prefix_def low_key_def upp_key_def bytes_def)
  have so: "slot_ok t = slot_ok p" by (simp add: fun_eq_iff slot_ok_def bytes_def t_def)
  have fr: "framed t {..<b_count t}" using P(1) k by (simp add: framed_def so t_at fence_ok_def) (simp add: t_def)
  have en: "entries t = entries dst @ es"
  proof (rule nth_equalityI)
    show "length (entries t) = length (entries dst @ es)" by (simp add: t_def k)
    fix x assume "x < length (entries t)"
    then have x: "x < ?m + k" by (simp add: t_def)
    then have tx: "entries t ! x = entry_at t x" by (intro entries_nth) (simp add: t_def)
    show "entries t ! x = (entries dst @ es) ! x"
    proof (cases "x < ?m")
      case True
      then show ?thesis using P(2) [OF True] P(6) unfolding tx by (simp add: nth_append entry_at_def t_at)
    next
      case False
      then obtain y where y: "x = ?m + y" "y < length es" using x k by (metis add_diff_inverse_nat nat_add_left_cancel_less)
      have "prefix dst @ drop (prefixLen dst) (fst (es ! y)) = fst (es ! y)"
        using pre y(2) by (metis append_take_drop_id nth_mem)
      then show ?thesis using P(3) [OF y(2)] P(6) y(1) unfolding tx by (simp add: nth_append entry_at_def t_at)
    qed
  qed
  have pl: "prefixLen t = prefixLen dst" "dataOffset t = dataOffset dst - ?sz" "spaceUsed t = spaceUsed dst + ?sz"
    "lowerFence t = lowerFence dst" "upperFence t = upperFence dst" using P(7,8) by (simp_all add: t_def p_def)
  have lay: "layout t"
    unfolding layout_entries [OF fr] using D(3,4) m(2) by (simp add: pl en slotsEnd_def) (simp add: t_def)
  have "copyKeyValueRange src ?m i k dst = check (dataOffset t \<ge> slotsEnd (b_count t))
      ''dst->ptr() + dst->dataOffset >= dst->slot + dst->count'' (Ret t)"
    using m(1) by (simp add: copyKeyValueRange_def cl p_def t_def)
  also have "\<dots> = Ret t" using lay by (simp add: layout_framed)
  finally show ?thesis using lay en pl P(4-6) by (auto simp: same_frame_def t_at) (simp_all add: t_def p_def)
qed

section \<open>A new node\<close>

text \<open>Memory of the size of a node, whatever it holds.\<close>

definition raw_ok :: "bnode \<Rightarrow> bool" where
  "raw_ok raw \<longleftrightarrow> length (b_heap raw) = 4096 \<and> length (b_slot raw) = 398 \<and> length (b_hint raw) = 16"

lemma layout_raw: "layout n \<Longrightarrow> raw_ok n"
  by (simp add: raw_ok_def layoutD)

lemma node_new_layout:
  assumes "raw_ok raw"
  shows "layout (node_new leaf raw)" "entries (node_new leaf raw) = []" "low_key (node_new leaf raw) = []"
    "upp_key (node_new leaf raw) = []" "hinted (node_new leaf raw)"
  using assms by (simp_all add: raw_ok_def node_new_def layout_def entries_def sizes slotsEnd_def fence_ok_def low_key_def upp_key_def
      bytes_def used_def hinted_def)

lemma setFences_new:
  assumes raw: "raw_ok raw" and s: "length l + length u \<le> 3984"
  shows "\<exists>t. setFences l u (node_new leaf raw) = Ret t \<and> layout t \<and> entries t = [] \<and> b_count t = 0 \<and> low_key t = l \<and> upp_key t = u \<and>
    prefixLen t = common_len l u \<and> isLeaf t = leaf \<and> b_link t = noNeighbour \<and> b_pid t = b_pid raw \<and> b_dirty t \<and>
    dataOffset t + spaceUsed t = 4096 \<and> spaceUsed t = length l + length u"
proof -
  define a where "a = 4096 - length l"
  define b where "b = a - length u"
  have ab: "a + length l = 4096" "b + length u = a" using s by (simp_all add: a_def b_def)
  define n0 where "n0 = node_new leaf raw"
  have N: "dataOffset n0 = 4096" "spaceUsed n0 = 0" "b_count n0 = 0" "length (b_heap n0) = 4096" "length (b_slot n0) = 398" "length (b_hint n0) = 16"
    "isLeaf n0 = leaf" "b_link n0 = noNeighbour" "b_pid n0 = b_pid raw" "b_dirty n0"
    using raw by (simp_all add: n0_def node_new_def raw_ok_def sizes)
  define h1 where "h1 = take a (b_heap n0) @ l"
  define n1 where "n1 = n0\<lparr>dataOffset := a, spaceUsed := length l, lowerFence := \<lparr>f_offset = a, f_len = length l\<rparr>, b_heap := h1\<rparr>"
  have h1: "length h1 = 4096" using N(4) ab by (simp add: h1_def)
  have r1: "insertFence (\<lambda>fk. lowerFence_update (\<lambda>_. fk)) l n0 = Ret n1"
    using N s ab by (simp add: insertFence_def freeSpace_def slotsEnd_def sizes mem_put_def n1_def h1_def Let_def a_def)
  define h2 where "h2 = take b h1 @ u @ drop a h1"
  define n2 where "n2 = n1\<lparr>dataOffset := b, spaceUsed := length l + length u, upperFence := \<lparr>f_offset = b, f_len = length u\<rparr>, b_heap := h2\<rparr>"
  have sub: "sub16 a (length u) = b" using ab by (simp add: b_def)
  have room: "length u \<le> a - 112" using s by (simp add: a_def)
  have r2: "insertFence (\<lambda>fk. upperFence_update (\<lambda>_. fk)) u n1 = Ret n2"
    using s ab h1 N(3) sub room by (simp add: insertFence_def freeSpace_def slotsEnd_def sizes mem_put_def n1_def n2_def h2_def Let_def)
  define t where "t = n2\<lparr>prefixLen := common_len l u\<rparr>"
  have ret: "setFences l u n0 = Ret t" by (simp add: setFences_def r1 r2 t_def)
  have h2: "length h2 = 4096" using h1 ab by (simp add: h2_def)
  have dl: "drop a h1 = l" using N(4) ab by (simp add: h1_def)
  have tb: "length (take b h1) = b" using h1 ab by simp
  have low: "low_key t = l"
  proof -
    have "drop a h2 = drop a h1" using tb ab(2) by (simp add: h2_def)
    then show ?thesis by (simp add: low_key_def bytes_def t_def n2_def n1_def dl)
  qed
  have upp: "upp_key t = u" using tb by (simp add: upp_key_def bytes_def t_def n2_def h2_def)
  have F: "b_heap t = h2" "b_slot t = b_slot n0" "b_hint t = b_hint n0" "dataOffset t = b" "spaceUsed t = length l + length u"
    "b_count t = 0" "lowerFence t = \<lparr>f_offset = a, f_len = length l\<rparr>" "upperFence t = \<lparr>f_offset = b, f_len = length u\<rparr>"
    "prefixLen t = common_len l u" "isLeaf t = leaf" "b_link t = noNeighbour" "b_pid t = b_pid raw" "b_dirty t"
    using N by (simp_all add: t_def n2_def n1_def)
  have "layout t" using ab s N h2 by (simp add: layout_def F low upp sizes slotsEnd_def fence_ok_def used_def)
  then show ?thesis using ret F low upp ab by (simp add: n0_def entries_def)
qed

section \<open>Hints\<close>

lemma fill_hint_spec:
  assumes "dist * (i + k) < length sls \<or> k = 0" and "i + k \<le> length hs"
  shows "\<exists>hs'. fill_hint sls dist i k hs = Ret hs' \<and> length hs' = length hs \<and>
    (\<forall>x. hs' ! x = (if i \<le> x \<and> x < i + k then s_head (sls ! (dist * (x + 1))) else hs ! x))"
  using assms
proof (induction k arbitrary: i hs)
  case (Suc k)
  have "dist * (i + 1) \<le> dist * (i + Suc k)" by (rule mult_le_mono2) simp
  moreover have "dist * (i + Suc k) < length sls" using Suc.prems(1) by blast
  ultimately have d: "dist * (i + 1) < length sls" by (rule le_less_trans)
  have i: "i < length hs" using Suc.prems(2) by simp
  let ?hs = "hs[i := s_head (sls ! (dist * (i + 1)))]"
  have "dist * (i + 1 + k) < length sls \<or> k = 0" using Suc.prems(1) by simp
  from Suc.IH [OF this, of ?hs] obtain hs' where h: "fill_hint sls dist (i + 1) k ?hs = Ret hs'" "length hs' = length ?hs"
    "\<forall>x. hs' ! x = (if i + 1 \<le> x \<and> x < i + 1 + k then s_head (sls ! (dist * (x + 1))) else ?hs ! x)"
    using Suc.prems(2) by auto
  have "fill_hint sls dist i (Suc k) hs = Ret hs'" using h(1) d i by simp
  moreover have "hs' ! x = (if i \<le> x \<and> x < i + Suc k then s_head (sls ! (dist * (x + 1))) else hs ! x)" for x
  proof (cases "x = i")
    case True
    then show ?thesis using h(3) i by simp
  next
    case False
    then show ?thesis using h(3) by auto
  qed
  ultimately show ?case using h(2) by auto
qed auto

lemma set_hint_ok:
  assumes "length (b_slot n) = 398" and "length (b_hint n) = 16" and "dist * 16 < 398" and "begi \<le> 16"
  shows "\<exists>hs. set_hint dist begi n = Ret (n\<lparr>b_hint := hs\<rparr>) \<and> length hs = 16 \<and>
    (\<forall>x < 16. hs ! x = (if begi \<le> x then s_head (b_slot n ! (dist * (x + 1))) else b_hint n ! x))"
proof -
  have "dist * (begi + (16 - begi)) < length (b_slot n) \<or> 16 - begi = 0" "begi + (16 - begi) \<le> length (b_hint n)"
    using assms by simp_all
  from fill_hint_spec [OF this] obtain hs where "fill_hint (b_slot n) dist begi (16 - begi) (b_hint n) = Ret hs" "length hs = 16"
    "\<forall>x. hs ! x = (if begi \<le> x \<and> x < begi + (16 - begi) then s_head (b_slot n ! (dist * (x + 1))) else b_hint n ! x)"
    using assms(2) by auto
  then show ?thesis using assms(4) by (auto simp: set_hint_def sizes)
qed

text \<open>Hints do not matter for the rest of the invariant.\<close>

lemma hint_sel [simp]:
  "entries (n\<lparr>b_hint := hs\<rparr>) = entries n" "low_key (n\<lparr>b_hint := hs\<rparr>) = low_key n" "upp_key (n\<lparr>b_hint := hs\<rparr>) = upp_key n"
  "prefix (n\<lparr>b_hint := hs\<rparr>) = prefix n" "used (n\<lparr>b_hint := hs\<rparr>) = used n" "same_frame n (n\<lparr>b_hint := hs\<rparr>)"
  by (simp_all add: entries_def entry_at_def key_at_def pay_at_def prefix_def low_key_def upp_key_def bytes_def used_def
      same_frame_def cong: map_cong)

lemma layout_hint:
  assumes "length hs = 16" and "length (b_hint n) = 16"
  shows "layout (n\<lparr>b_hint := hs\<rparr>) = layout n"
proof -
  have "fence_ok (n\<lparr>b_hint := hs\<rparr>) = fence_ok n" "slot_ok (n\<lparr>b_hint := hs\<rparr>) = slot_ok n"
    by (simp_all add: fun_eq_iff fence_ok_def slot_ok_def bytes_def)
  then show ?thesis using assms by (simp add: layout_def sizes)
qed

lemma makeHint_ok:
  assumes "layout n" and "sorted (keys n)"
  shows "\<exists>hs. makeHint n = Ret (n\<lparr>b_hint := hs\<rparr>) \<and> node_ok (n\<lparr>b_hint := hs\<rparr>)"
proof -
  note L = layoutD [OF assms(1)]
  have "b_count n div 17 * 16 \<le> b_count n div 17 * 17" by simp
  also have "\<dots> \<le> b_count n" by (rule div_times_less_eq_dividend)
  finally have "b_count n div 17 * 16 < 398" using L(6) by (cases "b_count n < 398") auto
  from set_hint_ok [OF L(2,3) this, of 0] obtain hs where "set_hint (b_count n div 17) 0 n = Ret (n\<lparr>b_hint := hs\<rparr>)" "length hs = 16"
    "\<forall>x < 16. hs ! x = s_head (b_slot n ! (b_count n div 17 * (x + 1)))" by auto
  note h = this
  let ?n = "n\<lparr>b_hint := hs\<rparr>"
  have "layout ?n" using layout_hint [OF h(2) L(3)] assms(1) by simp
  moreover have "hinted ?n" using h(3) by (simp add: hinted_def sizes)
  moreover have "sorted (keys ?n)" using assms(2) by simp
  moreover have "makeHint n = Ret ?n" using h(1) by (simp add: makeHint_def sizes)
  ultimately show ?thesis unfolding node_ok_def by blast
qed

end
