(* ===== verification/Btree_Update.thy ===== *)
theory Btree_Update
  imports Btree_Layout
begin

text \<open>
  Compaction, insertion and removal in a node. They keep the invariant, and the content of the
  node is the sorted list with the entry added or removed.
\<close>

section \<open>Fields that the invariant does not mention\<close>

lemma ident_sel [simp]:
  "entries (n\<lparr>b_link := p\<rparr>) = entries n" "low_key (n\<lparr>b_link := p\<rparr>) = low_key n" "upp_key (n\<lparr>b_link := p\<rparr>) = upp_key n"
  "prefix (n\<lparr>b_link := p\<rparr>) = prefix n" "layout (n\<lparr>b_link := p\<rparr>) = layout n" "freeSpace (n\<lparr>b_link := p\<rparr>) = freeSpace n"
  "entries (copyNode d n) = entries n" "low_key (copyNode d n) = low_key n" "upp_key (copyNode d n) = upp_key n"
  "prefix (copyNode d n) = prefix n" "layout (copyNode d n) = layout n" "freeSpace (copyNode d n) = freeSpace n"
  "b_count (copyNode d n) = b_count n" "isLeaf (copyNode d n) = isLeaf n" "b_link (copyNode d n) = b_link n"
  "spaceUsed (copyNode d n) = spaceUsed n" "dataOffset (copyNode d n) = dataOffset n" "prefixLen (copyNode d n) = prefixLen n"
  "b_pid (copyNode d n) = b_pid d" "b_dirty (copyNode d n) = b_dirty d"
  by (simp_all add: entries_def entry_at_def key_at_def pay_at_def prefix_def low_key_def upp_key_def bytes_def used_def layout_def
      fence_ok_def slot_ok_def copyNode_def freeSpace_def cong: map_cong)

lemma free_facts:
  assumes "layout n"
  shows "freeSpace n = dataOffset n - slotsEnd (b_count n)" "freeSpaceAfterCompaction n = 4096 - slotsEnd (b_count n) - spaceUsed n"
    "slotsEnd (b_count n) + spaceUsed n \<le> 4096" "slotsEnd (b_count n) \<le> dataOffset n"
  using layout_parts [OF assms] layoutD(5) [OF assms]
  by (simp_all add: freeSpace_def freeSpaceAfterCompaction_def sizes)

section \<open>Compaction\<close>

lemma own_prefix:
  assumes "layout n" and "e \<in> set (entries n)"
  shows "take (prefixLen n) (fst e) = prefix n" "prefixLen n \<le> length (fst e)"
  using assms prefix_facts(3) [OF assms(1)] by (auto simp: entries_def entry_at_def)

lemma compactify_ok:
  assumes ok: "node_ok n" and raw: "raw_ok raw"
  shows "\<exists>n'. compactify raw n = Ret n' \<and> node_ok n' \<and> same_frame n n' \<and> entries n' = entries n \<and> b_count n' = b_count n \<and>
    spaceUsed n' = spaceUsed n \<and> dataOffset n' + spaceUsed n' = 4096"
proof -
  have N: "layout n" "sorted (keys n)" using ok by (simp_all add: node_ok_def)
  note P = layout_parts [OF N(1)] and Fl = fence_lengths [OF N(1)] and Fr = free_facts [OF N(1)] and Pr = prefix_facts [OF N(1)]
  have room: "length (low_key n) + length (upp_key n) \<le> 3984" using P Fl(1,2) by (simp add: slotsEnd_def sizes)
  obtain t where t: "setFences (low_key n) (upp_key n) (node_new (isLeaf n) raw) = Ret t" "layout t" "entries t = []" "b_count t = 0"
    "low_key t = low_key n" "upp_key t = upp_key n" "prefixLen t = common_len (low_key n) (upp_key n)" "isLeaf t = isLeaf n"
    "dataOffset t + spaceUsed t = 4096" "spaceUsed t = length (low_key n) + length (upp_key n)"
    using setFences_new [OF raw room] by blast
  have pl: "prefixLen t = prefixLen n" using t(7) layoutD(9) [OF N(1)] by simp
  have px: "prefix t = prefix n" using prefix_facts(4) [OF t(2)] Pr(4) by (simp add: pl t(5))
  have es: "entries n = take (b_count n) (drop 0 (entries n))" by simp
  have "slotsEnd (b_count t + b_count n) + entries_size (prefixLen t) (entries n) \<le> dataOffset t"
    using P t(9,10) Fl(1,2) by (simp add: t(4) pl)
  from copyRange_ok [OF N(1) t(2) es _ _ this] obtain u where
    u: "copyKeyValueRange n 0 0 (b_count n) t = Ret u" "layout u" "same_frame t u" "entries u = entries n" "b_count u = b_count n"
      "dataOffset u = dataOffset t - entries_size (prefixLen n) (entries n)"
      "spaceUsed u = spaceUsed t + entries_size (prefixLen n) (entries n)"
    using own_prefix [OF N(1)] t(3,4) by (auto simp: pl px)
  define v where "v = copyNode n (u\<lparr>b_link := b_link n\<rparr>)"
  have v: "layout v" "entries v = entries n" "b_count v = b_count n" "spaceUsed v = spaceUsed u" "dataOffset v = dataOffset u"
    using u by (simp_all add: v_def)
  have same: "same_frame n v" using u(3) t pl px by (simp add: same_frame_def v_def)
  have su: "spaceUsed u = spaceUsed n" "dataOffset u + spaceUsed u = 4096"
    using P t(9,10) Fl(1,2) u(6,7) by (simp_all add: slotsEnd_def)
  obtain hs where h: "makeHint v = Ret (v\<lparr>b_hint := hs\<rparr>)" "node_ok (v\<lparr>b_hint := hs\<rparr>)"
    using makeHint_ok [OF v(1)] N(2) v(2) by auto
  have "freeSpace (v\<lparr>b_hint := hs\<rparr>) = freeSpace v" by (simp add: freeSpace_def)
  also have "\<dots> = freeSpaceAfterCompaction n"
    using free_facts(1) [OF v(1)] Fr(2,3) su by (simp add: v(3,5))
  finally have "compactify raw n = Ret (v\<lparr>b_hint := hs\<rparr>)"
    using t(1) u(1) h(1) Fl(5,6) by (simp add: compactify_def Let_def flip: v_def)
  moreover have "same_frame n (v\<lparr>b_hint := hs\<rparr>)" by (rule same_frame_trans [OF same hint_sel(6)])
  ultimately show ?thesis using h(2) v su by auto
qed

section \<open>The entries as a function of the slots\<close>

definition entry_of :: "bnode \<Rightarrow> slot \<Rightarrow> u8 list \<times> u8 list" where
  "entry_of n sl = (prefix n @ bytes n (s_offset sl) (s_keyLen sl), bytes n (s_offset sl + s_keyLen sl) (s_payloadLen sl))"

lemma entries_slots: "b_count n \<le> length (b_slot n) \<Longrightarrow> entries n = map (entry_of n) (take (b_count n) (b_slot n))"
  by (rule nth_equalityI) (simp_all add: entry_at_def entry_of_def key_at_def pay_at_def)

lemma sorted_cut:
  assumes "sorted_wrt R ks"
  shows "sorted_wrt R (take i ks @ drop (Suc i) ks)"
proof (cases "i < length ks")
  case True
  have "sorted_wrt R (take i ks @ ks ! i # drop (Suc i) ks)" using assms id_take_nth_drop [OF True] by simp
  then show ?thesis by (simp add: sorted_wrt_append)
qed (use assms in simp)

lemma sorted_put_wrt:
  assumes "sorted_wrt R xs" and "\<And>y. y \<in> set xs \<Longrightarrow> R x y \<and> R y x"
  shows "sorted_wrt R (take j xs @ x # drop j xs)"
proof -
  have "sorted_wrt R (take j xs @ drop j xs)" using assms(1) by simp
  then have "sorted_wrt R (take j xs)" "sorted_wrt R (drop j xs)" "\<forall>a \<in> set (take j xs). \<forall>b \<in> set (drop j xs). R a b"
    unfolding sorted_wrt_append by blast+
  moreover have "\<forall>a \<in> set (take j xs). R a x" "\<forall>b \<in> set (drop j xs). R x b"
    using assms(2) in_set_takeD [of _ j xs] in_set_dropD [of _ j xs] by blast+
  ultimately show ?thesis unfolding sorted_wrt_append by simp
qed

lemma cut_slots:
  assumes "i < c" and "c \<le> length xs"
  shows "take (c - 1) (take i xs @ take (c - i - 1) (drop (i + 1) xs) @ drop (i + (c - i - 1)) xs) = take i (take c xs) @ drop (Suc i) (take c xs)"
proof -
  have "length (take i xs) = i" "length (take (c - i - 1) (drop (i + 1) xs)) = c - i - 1" using assms by simp_all
  then have "take (c - 1) (take i xs @ take (c - i - 1) (drop (i + 1) xs) @ drop (i + (c - i - 1)) xs) = take i xs @ take (c - i - 1) (drop (i + 1) xs)"
    using assms(1) by simp
  also have "\<dots> = take i (take c xs) @ drop (Suc i) (take c xs)" using assms(1) by (simp add: drop_take min_def)
  finally show ?thesis .
qed

section \<open>Removing a slot\<close>

lemma removeSlot_ok:
  assumes ok: "node_ok n" and i: "i < b_count n"
  shows "\<exists>n'. removeSlot i n = Ret n' \<and> node_ok n' \<and> same_frame n n' \<and> entries n' = take i (entries n) @ drop (Suc i) (entries n) \<and>
    b_count n' = b_count n - 1 \<and> dataOffset n' = dataOffset n"
proof -
  have N: "layout n" "sorted (keys n)" using ok by (simp_all add: node_ok_def)
  note L = layoutD [OF N(1)] and P = layout_parts [OF N(1)]
  let ?c = "b_count n" and ?sl = "b_slot n ! i"
  define sls where "sls = take i (b_slot n) @ take (?c - i - 1) (drop (i + 1) (b_slot n)) @ drop (i + (?c - i - 1)) (b_slot n)"
  have len: "length sls = 398" using i L(2,6) by (simp add: sls_def)
  have cut: "take (?c - 1) sls = take i (take ?c (b_slot n)) @ drop (Suc i) (take ?c (b_slot n))"
    unfolding sls_def by (rule cut_slots) (use i L(2,6) in simp_all)
  have whole: "take ?c (b_slot n) = take i (take ?c (b_slot n)) @ ?sl # drop (Suc i) (take ?c (b_slot n))"
    using i L(2,6) id_take_nth_drop [of i "take ?c (b_slot n)"] by simp
  have sum: "sum_list (map slot_size (take ?c (b_slot n))) = slot_size ?sl + sum_list (map slot_size (take (?c - 1) sls))"
    unfolding cut by (subst whole) (simp del: take_take add: add.left_commute)
  define su where "su = spaceUsed n - slot_size ?sl"
  have su: "slot_size ?sl \<le> spaceUsed n" using L(10) sum by (simp add: used_def)
  have sub: "sub16 (sub16 (spaceUsed n) (s_keyLen ?sl)) (s_payloadLen ?sl) = su"
    using su P(3) by (simp add: su_def slot_size_def)
  define n1 where "n1 = n\<lparr>spaceUsed := su, b_slot := sls, b_count := ?c - 1\<rparr>"
  have same: "low_key n1 = low_key n" "upp_key n1 = upp_key n" "prefix n1 = prefix n" "bytes n1 = bytes n" "entry_of n1 = entry_of n"
    "slot_ok n1 = slot_ok n" "fence_ok n1 = fence_ok n"
    by (simp_all add: n1_def low_key_def upp_key_def prefix_def bytes_def entry_of_def slot_ok_def fence_ok_def fun_eq_iff)
  have "set (take (?c - 1) sls) \<subseteq> set (take ?c (b_slot n))"
    unfolding cut using set_take_subset [of i "take ?c (b_slot n)"] set_drop_subset [of "Suc i" "take ?c (b_slot n)"] by auto
  then have "\<forall>sl \<in> set (take (?c - 1) sls). slot_ok n sl" using N(1) by (auto simp: layout_def)
  moreover have "sorted_wrt apart (take (?c - 1) sls)" unfolding cut by (rule sorted_cut) (use N(1) in \<open>simp add: layout_def\<close>)
  moreover have "used n1 = su" using L(10) sum by (simp add: used_def n1_def su_def)
  moreover have "112 + 10 * (?c - 1) \<le> dataOffset n" "dataOffset n + su \<le> 4096" using L(4,11) by (simp_all add: su_def)
  ultimately have lay: "layout n1"
    unfolding layout_def same using L(1-3,5,7-9) len by (simp add: n1_def sizes slotsEnd_def)
  have "entries n1 = map (entry_of n) (take (?c - 1) sls)"
  proof -
    have "b_count n1 = ?c - 1" "b_slot n1 = sls" by (simp_all add: n1_def)
    moreover have "b_count n1 \<le> length (b_slot n1)" using len L(6) by (simp add: n1_def)
    ultimately show ?thesis using entries_slots [of n1] by (simp only: same(5))
  qed
  also have "\<dots> = take i (entries n) @ drop (Suc i) (entries n)"
    unfolding cut using entries_slots [of n] L(2,6) by (simp add: take_map drop_map del: take_take)
  finally have en: "entries n1 = take i (entries n) @ drop (Suc i) (entries n)" .
  have "sorted (keys n1)" using sorted_cut [OF N(2), of i] by (simp add: en take_map drop_map)
  from makeHint_ok [OF lay this] obtain hs where h: "makeHint n1 = Ret (n1\<lparr>b_hint := hs\<rparr>)" "node_ok (n1\<lparr>b_hint := hs\<rparr>)" by blast
  have "max i (i + 1) + (?c - i - 1) \<le> length (b_slot n)" using i L(2,6) by simp
  then have "removeSlot i n = Ret (n1\<lparr>b_hint := hs\<rparr>)"
    using h(1) i L(2,6) sub by (simp add: removeSlot_def move_slots_def n1_def sls_def)
  moreover have "same_frame n n1" by (simp add: same_frame_def same) (simp add: n1_def)
  then have "same_frame n (n1\<lparr>b_hint := hs\<rparr>)" using same_frame_trans hint_sel(6) by blast
  ultimately show ?thesis using h(2) en by (auto simp: n1_def)
qed

section \<open>Inserting\<close>

lemma shift_slots:
  assumes "j \<le> c" and "c < length xs"
  shows "take (c + 1) ((take (j + 1) xs @ take (c - j) (drop j xs) @ drop (j + 1 + (c - j)) xs)[j := sl]) =
    take j (take c xs) @ sl # drop j (take c xs)"
    and "length (take (j + 1) xs @ take (c - j) (drop j xs) @ drop (j + 1 + (c - j)) xs) = length xs"
proof -
  let ?ys = "take (j + 1) xs @ take (c - j) (drop j xs) @ drop (j + 1 + (c - j)) xs"
  have t: "take (j + 1) xs = take j xs @ [xs ! j]" using assms by (simp add: take_Suc_conv_app_nth)
  have "?ys[j := sl] = take j xs @ sl # take (c - j) (drop j xs) @ drop (j + 1 + (c - j)) xs"
    unfolding t using assms by (simp add: list_update_append)
  also have "\<dots> = (take j xs @ sl # take (c - j) (drop j xs)) @ drop (j + 1 + (c - j)) xs" by simp
  finally have ys: "?ys[j := sl] = \<dots>" .
  have "length (take j xs @ sl # take (c - j) (drop j xs)) = c + 1" using assms by simp
  then have "take (c + 1) (?ys[j := sl]) = take j xs @ sl # take (c - j) (drop j xs)"
    unfolding ys using append_eq_conv_conj by metis
  then show "take (c + 1) (?ys[j := sl]) = take j (take c xs) @ sl # drop j (take c xs)"
    using assms by (simp add: drop_take min_def)
  show "length ?ys = length xs" using assms by simp
qed

lemma insert_at:
  assumes lay: "layout n" and j: "j \<le> b_count n"
    and s: "slotsEnd (b_count n + 1) + (length key + length pay) \<le> dataOffset n"
  defines "sls \<equiv> take (j + 1) (b_slot n) @ take (b_count n - j) (drop j (b_slot n)) @ drop (j + 1 + (b_count n - j)) (b_slot n)"
  defines "n' \<equiv> (store j key pay (n\<lparr>b_slot := sls\<rparr>))\<lparr>b_count := b_count n + 1\<rparr>"
  shows "layout n'" "same_frame n n'" "entries n' = take j (entries n) @ (prefix n @ key, pay) # drop j (entries n)"
    "b_count n < 398" "framed (n\<lparr>b_slot := sls\<rparr>) {}" "i < j \<Longrightarrow> b_slot n' ! i = b_slot n ! i" "b_hint n' = b_hint n"
proof -
  note L = layoutD [OF lay] and P = layout_parts [OF lay]
  let ?c = "b_count n" and ?n1 = "n\<lparr>b_slot := sls\<rparr>"
  show c: "?c < 398" using s L(5) by (simp add: slotsEnd_def sizes)
  have cl: "?c < length (b_slot n)" using c L(2) by simp
  note sh = shift_slots [OF j cl, folded sls_def]
  have n1: "bytes ?n1 = bytes n" "low_key ?n1 = low_key n" "upp_key ?n1 = upp_key n" "prefix ?n1 = prefix n"
    "fence_ok ?n1 = fence_ok n"
    by (simp_all add: fun_eq_iff bytes_def low_key_def upp_key_def prefix_def fence_ok_def)
  show fr: "framed ?n1 {}" using P(1) sh(2) by (simp add: framed_def n1)
  have sz: "length key + length pay \<le> dataOffset ?n1" "j < 398" using s c j by (simp_all add: slotsEnd_def sizes)
  note St = store_framed [OF fr sz]
  have b: "bytes (store j key pay ?n1) off len = bytes n off len" if "dataOffset n \<le> off" for off len
    using store_bytes(1) [of ?n1 key pay off j len] L(1,5) sz(1) that n1(1) by simp
  define sl where "sl = \<lparr>s_offset = dataOffset n - (length key + length pay), s_keyLen = length key, s_payloadLen = length pay, s_head = key_head key\<rparr>"
  have slots: "b_slot n' = sls[j := sl]" by (simp add: n'_def store_def Let_def sl_def)
  have tk: "take (?c + 1) (b_slot n') = take j (take ?c (b_slot n)) @ sl # drop j (take ?c (b_slot n))"
    unfolding slots by (rule sh(1))
  have nb: "bytes n' = bytes (store j key pay ?n1)" "low_key n' = low_key n" "upp_key n' = upp_key n" "prefix n' = prefix n"
    using St(5-7) n1 by (simp_all add: fun_eq_iff n'_def bytes_def low_key_def upp_key_def prefix_def)
  have dO: "dataOffset n' = dataOffset n - (length key + length pay)" by (simp add: n'_def)
  have fo: "fence_ok n' fk" if "fence_ok n fk" for fk using that by (auto simp: fence_ok_def n'_def)
  have old: "slot_ok n' x \<and> entry_of n' x = entry_of n x" if "x \<in> set (take ?c (b_slot n))" for x
  proof -
    have "slot_ok n x" using lay that by (simp add: layout_def)
    then have x: "dataOffset n \<le> s_offset x" "slot_ok n x" by (simp_all add: slot_ok_def)
    have "dataOffset n' \<le> dataOffset n" by (simp add: n'_def)
    moreover have "lowerFence n' = lowerFence n" "upperFence n' = upperFence n" by (simp_all add: n'_def)
    ultimately show ?thesis using x b by (simp add: slot_ok_def entry_of_def nb)
  qed
  have end_sl: "s_offset sl + slot_size sl = dataOffset n" using sz(1) by (simp add: sl_def slot_size_def)
  then have "below (lowerFence n) sl" "below (upperFence n) sl" using L(7,8) by (auto simp: below_def fence_ok_def)
  moreover have "lowerFence n' = lowerFence n" "upperFence n' = upperFence n" by (simp_all add: n'_def)
  ultimately have new: "slot_ok n' sl" "entry_of n' sl = (prefix n @ key, pay)"
    using St(2,3,8) sz(1) L(5) dO by (simp_all add: slot_ok_def entry_of_def nb sl_def key_at_def pay_at_def sizes)
  have "length (b_slot n') = 398" using sh(2) L(2) by (simp add: slots)
  then have "entries n' = map (entry_of n') (take (?c + 1) (b_slot n'))"
    using entries_slots [of n'] c by (simp add: n'_def)
  also have "\<dots> = map (entry_of n) (take j (take ?c (b_slot n))) @ (prefix n @ key, pay) # map (entry_of n) (drop j (take ?c (b_slot n)))"
    unfolding tk map_append list.map new(2)
    using old in_set_takeD [of _ j "take ?c (b_slot n)"] in_set_dropD [of _ j "take ?c (b_slot n)"] by (simp del: take_take cong: map_cong)
  also have "\<dots> = take j (entries n) @ (prefix n @ key, pay) # drop j (entries n)"
    using entries_slots [of n] cl by (simp add: take_map drop_map)
  finally show en: "entries n' = take j (entries n) @ (prefix n @ key, pay) # drop j (entries n)" .
  show "same_frame n n'" using nb by (simp add: same_frame_def) (simp add: n'_def)
  have "\<forall>x \<in> set (take (b_count n') (b_slot n')). slot_ok n' x"
    using tk old new(1) in_set_takeD [of _ j "take ?c (b_slot n)"] in_set_dropD [of _ j "take ?c (b_slot n)"]
    by (auto simp: n'_def simp del: take_take)
  moreover have "sorted_wrt apart (take (b_count n') (b_slot n'))"
  proof -
    have "apart sl y \<and> apart y sl" if "y \<in> set (take ?c (b_slot n))" for y
      using lay that end_sl by (auto simp: layout_def slot_ok_def apart_def)
    moreover have "sorted_wrt apart (take ?c (b_slot n))" using lay by (simp add: layout_def)
    ultimately have "sorted_wrt apart (take (?c + 1) (b_slot n'))" unfolding tk by (intro sorted_put_wrt)
    then show ?thesis by (simp add: n'_def)
  qed
  moreover have "used n' = used n + (length key + length pay)"
  proof -
    have "sum_list (map slot_size (take (?c + 1) (b_slot n'))) = slot_size sl + sum_list (map slot_size (take ?c (b_slot n)))"
      unfolding tk by (subst (3) append_take_drop_id [of j "take ?c (b_slot n)", symmetric]) (simp del: take_take append_take_drop_id add: add.left_commute)
    then show ?thesis by (simp add: used_def n'_def slot_size_def sl_def)
  qed
  moreover have "slotsEnd (?c + 1) \<le> dataOffset n - (length key + length pay)" using s by simp
  moreover have "length (b_heap n') = 4096" using store_bytes(2) [of ?n1 key pay j] L(1,5) sz(1) by (simp add: n'_def)
  ultimately show "layout n'"
    unfolding layout_def using L(2,3,5,7-11) fo nb \<open>length (b_slot n') = 398\<close> s
    by (simp add: sizes) (simp add: n'_def slotsEnd_def sizes)
  show "i < j \<Longrightarrow> b_slot n' ! i = b_slot n ! i"
    using sh cl j unfolding slots sls_def by (simp add: nth_append)
  show "b_hint n' = b_hint n" by (simp add: n'_def)
qed

text \<open>The hints before the first one that is written again name slots before the new one.\<close>

lemma updateHint_ok:
  assumes lay: "layout n'" and srt: "sorted (keys n')" and old: "hinted n" "length (b_hint n) = 16"
    and n': "b_count n' = b_count n + 1" "b_hint n' = b_hint n" "\<And>i. i < j \<Longrightarrow> b_slot n' ! i = b_slot n ! i"
  shows "\<exists>hs. updateHint j n' = Ret (n'\<lparr>b_hint := hs\<rparr>) \<and> node_ok (n'\<lparr>b_hint := hs\<rparr>)"
proof -
  note L = layoutD [OF lay]
  define c where "c = b_count n'"
  define dist where "dist = c div 17"
  define begi where "begi = (if c > 33 \<and> (c - 1) div 17 = dist \<and> j div dist > 1 then j div dist - 1 else 0)"
  have "dist * 16 \<le> dist * 17" by simp
  also have "\<dots> \<le> c" unfolding dist_def by (rule div_times_less_eq_dividend)
  finally have "dist * 16 \<le> 398" using L(6) by (simp add: c_def)
  then have d: "dist * 16 < 398" by presburger
  have u: "updateHint j n' = set_hint dist begi n'"
    by (simp add: updateHint_def sizes Let_def c_def dist_def begi_def)
  have keep: "b_hint n' ! x = s_head (b_slot n' ! (dist * (x + 1)))" if x: "x < begi" "x < 16" for x
  proof -
    have b: "c > 33" "(c - 1) div 17 = dist" "begi = j div dist - 1" "j div dist > 1" using x(1) by (auto simp: begi_def split: if_splits)
    have "dist * (x + 1) \<le> dist * (j div dist - 1)" using x(1) b(3) by (intro mult_le_mono2) simp
    also have "\<dots> < dist * (j div dist)" using b(1,4) by (simp add: dist_def)
    also have "\<dots> \<le> j" by (rule times_div_less_eq_dividend)
    finally have "dist * (x + 1) < j" .
    moreover have "b_hint n ! x = s_head (b_slot n ! (dist * (x + 1)))"
      using old(1) b(1,2) x(2) n'(1) by (simp add: hinted_def sizes c_def)
    ultimately show ?thesis using n'(2,3) by simp
  qed
  obtain hs where h: "set_hint dist begi n' = Ret (n'\<lparr>b_hint := hs\<rparr>)" "length hs = 16"
    "\<forall>x < 16. hs ! x = (if begi \<le> x then s_head (b_slot n' ! (dist * (x + 1))) else b_hint n' ! x)"
  proof (cases "begi \<le> 16")
    case True
    show ?thesis using set_hint_ok [OF L(2,3) d True] that by blast
  next
    case False
    then have "set_hint dist begi n' = Ret (n'\<lparr>b_hint := b_hint n'\<rparr>)" by (simp add: set_hint_def sizes)
    then show ?thesis by (rule that) (use L(3) False in auto)
  qed
  have "hs ! x = s_head (b_slot n' ! (dist * (x + 1)))" if "x < 16" for x
    using h(3) keep [of x] that by (cases "begi \<le> x") auto
  then have "hinted (n'\<lparr>b_hint := hs\<rparr>)" by (simp add: hinted_def sizes dist_def c_def)
  moreover have "layout (n'\<lparr>b_hint := hs\<rparr>)" using layout_hint [OF h(2) L(3)] lay by simp
  ultimately show ?thesis using u h(1) srt by (auto simp: node_ok_def)
qed

section \<open>Insertion\<close>

lemma sorted_put:
  assumes "sorted ks" and "located ks k j f"
  shows "sorted (take j ks @ k # drop j ks)"
proof -
  have j: "j \<le> length ks" using assms(2) by (simp add: located_def)
  have s: "sorted (take j ks @ drop j ks)" using assms(1) by simp
  have "\<forall>x \<in> set (take j ks). x \<le> k"
  proof (cases f)
    case True
    then have "j < length ks" "ks ! j = k" using assms(2) by (auto simp: located_def)
    then have "k \<in> set (drop j ks)" by (simp flip: Cons_nth_drop_Suc)
    then show ?thesis using s by (simp add: sorted_append del: append_take_drop_id)
  next
    case False
    then have "\<forall>i < j. ks ! i < k" using assms(2) by (simp add: located_def)
    then show ?thesis by (auto simp: in_set_conv_nth order.strict_implies_order)
  qed
  moreover have "\<forall>x \<in> set (drop j ks). k \<le> x"
  proof (cases f)
    case True
    then have "j < length ks" "ks ! j = k" using assms(2) by (auto simp: located_def)
    then have "drop j ks = k # drop (Suc j) ks" by (simp flip: Cons_nth_drop_Suc)
    then show ?thesis using s by (auto simp: sorted_append simp del: append_take_drop_id)
  next
    case False
    then have "\<forall>i. j \<le> i \<and> i < length ks \<longrightarrow> k < ks ! i" using assms(2) by (simp add: located_def)
    then show ?thesis by (auto simp: in_set_conv_nth order.strict_implies_order)
  qed
  ultimately show ?thesis using s by (auto simp: sorted_append simp del: append_take_drop_id intro: order_trans)
qed

definition put :: "nat \<Rightarrow> 'a \<Rightarrow> 'a list \<Rightarrow> 'a list" where
  "put j x xs = take j xs @ x # drop j xs"

lemma needed_exact:
  assumes "layout n" and "take (prefixLen n) key = prefix n" and "length key + length pay \<le> 4096"
  shows "prefixLen n \<le> length key" "spaceNeeded n (length key) (length pay) = 10 + entry_size (prefixLen n) (key, pay)"
proof -
  have "length (take (prefixLen n) key) = prefixLen n" using assms(2) prefix_facts(3) [OF assms(1)] by simp
  then show p: "prefixLen n \<le> length key" by simp
  then show "spaceNeeded n (length key) (length pay) = 10 + entry_size (prefixLen n) (key, pay)"
    using assms(3) by (simp add: spaceNeeded_def sizes entry_size_def)
qed

lemma insertInPage_ok:
  assumes ok: "node_ok n" and raw: "raw_ok raw" and pre: "take (prefixLen n) key = prefix n"
    and len: "length key + length pay \<le> 4096" and sp: "hasSpaceFor n (length key) (length pay)"
  shows "\<exists>n' j f. insertInPage raw key pay n = Ret n' \<and> node_ok n' \<and> same_frame n n' \<and>
    located (keys n) key j f \<and> entries n' = put j (key, pay) (entries n)"
proof -
  have lay: "layout n" using ok by (simp add: node_ok_def)
  note N = needed_exact [OF lay pre len]
  have sp: "spaceNeeded n (length key) (length pay) \<le> freeSpaceAfterCompaction n" using sp by (simp add: hasSpaceFor_def)
  obtain m where m: "(if spaceNeeded n (length key) (length pay) > freeSpace n then
          check (spaceNeeded n (length key) (length pay) \<le> freeSpaceAfterCompaction n) ''needed <= freeSpaceAfterCompaction()'' (compactify raw n)
        else Ret n) = Ret m"
    and M: "node_ok m" "same_frame n m" "entries m = entries n" "b_count m = b_count n"
      "10 + entry_size (prefixLen n) (key, pay) \<le> freeSpace m"
  proof (cases "spaceNeeded n (length key) (length pay) > freeSpace n")
    case True
    obtain n' where c: "compactify raw n = Ret n'" "node_ok n'" "same_frame n n'" "entries n' = entries n" "b_count n' = b_count n"
      "spaceUsed n' = spaceUsed n" "dataOffset n' + spaceUsed n' = 4096"
      using compactify_ok [OF ok raw] by blast
    have "layout n'" using c(2) by (simp add: node_ok_def)
    then have "freeSpace n' = freeSpaceAfterCompaction n" using free_facts(1) [of n'] free_facts(2,3) [OF lay] c(5-7) by simp
    then have "10 + entry_size (prefixLen n) (key, pay) \<le> freeSpace n'" using sp N(2) by simp
    from that [OF _ c(2-5) this] show ?thesis using True sp c(1) by simp
  next
    case False
    then show ?thesis using that [of n] ok N(2) by simp
  qed
  have ml: "layout m" using M(1) by (simp add: node_ok_def)
  have mp: "prefixLen m = prefixLen n" "prefix m = prefix n" using M(2) by (simp_all add: same_frame_def)
  obtain j f where j: "lowerBound key m = Ret (j, f)" "located (keys m) key j f" using lowerBound_spec [OF M(1)] by blast
  define k where "k = drop (prefixLen n) key"
  have key: "prefix m @ k = key" using pre mp append_take_drop_id [of "prefixLen n" key] by (simp add: k_def)
  define sls where "sls = take (j + 1) (b_slot m) @ take (b_count m - j) (drop j (b_slot m)) @ drop (j + 1 + (b_count m - j)) (b_slot m)"
  define n' where "n' = (store j k pay (m\<lparr>b_slot := sls\<rparr>))\<lparr>b_count := b_count m + 1\<rparr>"
  have jc: "j \<le> b_count m" using j(2) by (simp add: located_def)
  have room: "slotsEnd (b_count m + 1) + (length k + length pay) \<le> dataOffset m"
    using M(5) free_facts(1,4) [OF ml] N(1) by (simp add: k_def entry_size_def slotsEnd_def sizes)
  note A = insert_at [OF ml jc room, folded sls_def, folded n'_def]
  have mv: "move_slots (j + 1) j (b_count m - j) m = Ret (m\<lparr>b_slot := sls\<rparr>)"
    using jc A(4) layoutD(2) [OF ml] by (simp add: move_slots_def sls_def)
  have "spaceUsed (m\<lparr>b_slot := sls\<rparr>) \<le> 4096" using layoutD(11) [OF ml] by simp
  moreover have "prefixLen (m\<lparr>b_slot := sls\<rparr>) \<le> length key" using N(1) mp by simp
  moreover have "headerSize + slotSize * j + (length key - prefixLen (m\<lparr>b_slot := sls\<rparr>) + length pay) \<le> dataOffset (m\<lparr>b_slot := sls\<rparr>)"
  proof -
    have "length k = length key - prefixLen m" by (simp add: k_def mp)
    then show ?thesis using room jc by (simp add: slotsEnd_def sizes)
  qed
  moreover have "j < 398" using A(4) jc by simp
  ultimately have "storeKeyValue j key pay (m\<lparr>b_slot := sls\<rparr>) = Ret (store j (drop (prefixLen (m\<lparr>b_slot := sls\<rparr>)) key) pay (m\<lparr>b_slot := sls\<rparr>))"
    by (rule storeKeyValue_store [OF A(5)])
  then have st: "storeKeyValue j key pay (m\<lparr>b_slot := sls\<rparr>) = Ret (store j k pay (m\<lparr>b_slot := sls\<rparr>))"
    by (simp add: k_def mp)
  have en: "entries n' = put j (key, pay) (entries n)" using A(3) M(3) key by (simp add: put_def)
  have loc: "located (keys n) key j f" using j(2) M(3) by simp
  have "sorted (keys n)" using ok by (simp add: node_ok_def)
  then have "sorted (keys n')" using sorted_put [OF _ loc] by (simp add: en put_def take_map drop_map)
  from updateHint_ok [OF A(1) this, of m j] obtain hs where
    h: "updateHint j n' = Ret (n'\<lparr>b_hint := hs\<rparr>)" "node_ok (n'\<lparr>b_hint := hs\<rparr>)"
    using M(1) layoutD(3) [OF ml] A(6,7) by (auto simp: node_ok_def n'_def)
  have "insertInPage raw key pay n = Ret (n'\<lparr>b_hint := hs\<rparr>)"
    unfolding insertInPage_def Let_def m using j(1) mv st h(1) A(4) by (simp add: n'_def)
  moreover have "same_frame n (n'\<lparr>b_hint := hs\<rparr>)"
    using same_frame_trans [OF M(2) same_frame_trans [OF A(2) hint_sel(6)]] .
  ultimately show ?thesis using h(2) loc en by auto
qed

lemma removeInPage_ok:
  assumes ok: "node_ok n"
  shows "\<exists>n' b. removeInPage key n = Ret (b, n') \<and> node_ok n' \<and> same_frame n n' \<and> (b \<longleftrightarrow> key \<in> set (keys n)) \<and>
    (if b then \<exists>j. j < b_count n \<and> keys n ! j = key \<and> entries n' = take j (entries n) @ drop (Suc j) (entries n) else n' = n)"
proof -
  obtain j f where j: "lowerBound key n = Ret (j, f)" "located (keys n) key j f" using lowerBound_spec [OF ok] by blast
  have f: "f \<longleftrightarrow> key \<in> set (keys n)" using located_mem [OF _ j(2)] ok by (simp add: node_ok_def)
  show ?thesis
  proof (cases f)
    case True
    then have jc: "j < b_count n" "keys n ! j = key" using j(2) by (auto simp: located_def)
    obtain n' where r: "removeSlot j n = Ret n'" "node_ok n'" "same_frame n n'" "entries n' = take j (entries n) @ drop (Suc j) (entries n)"
      using removeSlot_ok [OF ok jc(1)] by blast
    have "removeInPage key n = Ret (True, n')" using True j(1) r(1) by (simp add: removeInPage_def)
    moreover have "\<exists>j. j < b_count n \<and> keys n ! j = key \<and> entries n' = take j (entries n) @ drop (Suc j) (entries n)"
      using jc r(4) by blast
    ultimately show ?thesis using True f r(2,3) by (intro exI [of _ n'] exI [of _ True]) (simp only: if_True simp_thms)
  next
    case False
    then show ?thesis using j(1) f ok by (intro exI [of _ n] exI [of _ False]) (simp add: removeInPage_def)
  qed
qed

end
