(* ===== verification/Btree_Split.thy ===== *)
theory Btree_Split
  imports Btree_Update
begin

text \<open>
  Choosing a separator, splitting a node and merging two leaves. The node that is split and its
  parent are arguments and results; \<open>page\<close> is the memory of the page that \<open>AllocGuard\<close> allocates
  for the right half, with its page id, and \<open>raw\<close> the memory of the temporary nodes.
\<close>

section \<open>Separators\<close>

record sep_info =
  sep_len :: nat
  sep_slot :: nat
  isTruncated :: bool

definition commonPrefix :: "bnode \<Rightarrow> nat \<Rightarrow> nat \<Rightarrow> nat run" where
  "commonPrefix n slotA slotB =
     check (slotA < b_count n) ''slotA < count''
       (bind_run (getKey n slotA) (\<lambda>a. bind_run (getKey n slotB) (\<lambda>b. Ret (common_len a b))))"

text \<open>The loop that looks for the first slot whose common prefix with slot 0 differs.\<close>

function sep_scan :: "bnode \<Rightarrow> nat \<Rightarrow> nat \<Rightarrow> nat \<Rightarrow> nat run" where
  "sep_scan n best upper s =
     (if s < upper then bind_run (commonPrefix n s 0) (\<lambda>c. if c = best then sep_scan n best upper (s + 1) else Ret s)
      else Ret s)"
  by pat_completeness auto
termination by (relation "measure (\<lambda>(n, best, upper, s). upper - s)") auto

declare sep_scan.simps [simp del]

definition bestSlot :: "bool \<Rightarrow> bnode \<Rightarrow> nat run" where
  "bestSlot splitOrdered n =
     (if splitOrdered then Ret (b_count n - 2)
      else if b_count n > 16 then
        let lower = b_count n div 2 - b_count n div 16; upper = b_count n div 2 in
        bind_run (commonPrefix n lower 0) (\<lambda>best.
        bind_run (commonPrefix n (upper - 1) 0) (\<lambda>c.
        if best \<noteq> c then sep_scan n best upper (lower + 1) else Ret lower))
      else Ret ((b_count n - 1) div 2))"

definition findSeparator :: "bool \<Rightarrow> bnode \<Rightarrow> sep_info run" where
  "findSeparator splitOrdered n =
     check (b_count n > 1) ''count > 1''
       (if \<not> isLeaf n then
          let slotId = b_count n div 2 in
          bind_run (aget (b_slot n) slotId) (\<lambda>sl.
          Ret \<lparr>sep_len = add32 (prefixLen n) (s_keyLen sl), sep_slot = slotId, isTruncated = False\<rparr>)
        else
          bind_run (bestSlot splitOrdered n) (\<lambda>best.
          bind_run (commonPrefix n best (best + 1)) (\<lambda>common.
          bind_run (aget (b_slot n) best) (\<lambda>sl.
          bind_run (aget (b_slot n) (best + 1)) (\<lambda>next.
          if best + 1 < b_count n \<and> s_keyLen sl > common \<and> s_keyLen next > common + 1
          then Ret \<lparr>sep_len = add32 (prefixLen n) (common + 1), sep_slot = best, isTruncated = True\<rparr>
          else Ret \<lparr>sep_len = add32 (prefixLen n) (s_keyLen sl), sep_slot = best, isTruncated = False\<rparr>)))))"

definition getSep :: "sep_info \<Rightarrow> bnode \<Rightarrow> u8 list run" where
  "getSep info n =
     bind_run (getPrefix n) (\<lambda>pre.
     bind_run (aget (b_slot n) (sep_slot info + of_bool (isTruncated info))) (\<lambda>sl.
     bind_run (mem_get n (s_offset sl) (sub32 (sep_len info) (prefixLen n))) (\<lambda>key. Ret (pre @ key))))"

section \<open>Splitting and merging\<close>

text \<open>The statement of \<open>splitNode\<close> that makes the right half the child of the parent.\<close>

definition parent_update :: "PID \<Rightarrow> nat \<Rightarrow> PID \<Rightarrow> bnode \<Rightarrow> bnode run" where
  "parent_update newPid oldParentSlot leftPID parent =
     (if oldParentSlot = b_count parent
      then check (b_link parent = leftPID) ''parent->upperInnerNode == leftPID'' (Ret (parent\<lparr>b_link := newPid\<rparr>))
      else bind_run (getChild parent oldParentSlot) (\<lambda>c.
        check (c = leftPID) ''parent->getChild(oldParentSlot) == leftPID'' (setChild oldParentSlot newPid parent)))"

definition splitNode :: "bnode \<Rightarrow> bnode \<Rightarrow> nat \<Rightarrow> u8 list \<Rightarrow> bnode \<Rightarrow> bnode \<Rightarrow> (bnode \<times> bnode \<times> bnode) run" where
  "splitNode raw page sepSlot sep n parent =
     check (sepSlot > 0) ''sepSlot > 0'' (check (sepSlot < pageSize div 8) ''sepSlot < pageSize / sizeof(PID)''
       (let newPid = b_pid page; leftPID = b_pid n in
        bind_run (getLowerFence n) (\<lambda>lower. bind_run (setFences lower sep (node_new (isLeaf n) raw)) (\<lambda>nodeLeft.
        bind_run (getUpperFence n) (\<lambda>upper. bind_run (setFences sep upper (node_new (isLeaf n) page)) (\<lambda>nodeRight.
        bind_run (lowerBound sep parent) (\<lambda>(oldParentSlot, _).
        bind_run (parent_update newPid oldParentSlot leftPID parent) (\<lambda>parent.
        bind_run (insertInPage raw sep (pid_bytes leftPID) parent) (\<lambda>parent.
        bind_run
          (if isLeaf n then
             bind_run (copyKeyValueRange n 0 0 (sepSlot + 1) nodeLeft) (\<lambda>nodeLeft.
             bind_run (copyKeyValueRange n 0 (b_count nodeLeft) (sub32 (b_count n) (b_count nodeLeft)) nodeRight) (\<lambda>nodeRight.
             Ret (nodeLeft\<lparr>b_link := newPid\<rparr>, nodeRight\<lparr>b_link := b_link n\<rparr>)))
           else
             bind_run (copyKeyValueRange n 0 0 sepSlot nodeLeft) (\<lambda>nodeLeft.
             bind_run (copyKeyValueRange n 0 (b_count nodeLeft + 1) (sub32 (sub32 (b_count n) (b_count nodeLeft)) 1) nodeRight) (\<lambda>nodeRight.
             bind_run (getChild n (b_count nodeLeft)) (\<lambda>c.
             Ret (nodeLeft\<lparr>b_link := c\<rparr>, nodeRight\<lparr>b_link := b_link n\<rparr>))))) (\<lambda>(nodeLeft, nodeRight).
        bind_run (makeHint nodeLeft) (\<lambda>nodeLeft. bind_run (makeHint nodeRight) (\<lambda>nodeRight.
        Ret (copyNode n nodeLeft, nodeRight, parent)))))))))))))"

definition mergeNodes :: "bnode \<Rightarrow> nat \<Rightarrow> bnode \<Rightarrow> bnode \<Rightarrow> bnode \<Rightarrow> (bool \<times> bnode \<times> bnode) run" where
  "mergeNodes raw slotId n parent right =
     (if \<not> isLeaf n then Ret (True, n, parent)
      else check (isLeaf right) ''right->isLeaf'' (check (\<not> isLeaf parent) ''parent->isInner()''
        (bind_run (getLowerFence n) (\<lambda>lower. bind_run (getUpperFence right) (\<lambda>upper.
         bind_run (setFences lower upper (node_new (isLeaf n) raw)) (\<lambda>tmp.
         let leftGrow = (sub32 (prefixLen n) (prefixLen tmp) * b_count n) mod 2 ^ 32;
             rightGrow = (sub32 (prefixLen right) (prefixLen tmp) * b_count right) mod 2 ^ 32;
             spaceUpperBound = (spaceUsed n + spaceUsed right + slotsEnd (b_count n + b_count right) + leftGrow + rightGrow) mod 2 ^ 32
         in if spaceUpperBound > pageSize then Ret (False, n, parent)
            else
              bind_run (copyKeyValueRange n 0 0 (b_count n) tmp) (\<lambda>tmp.
              bind_run (copyKeyValueRange right (b_count n) 0 (b_count right) tmp) (\<lambda>tmp.
              bind_run (setChild (slotId + 1) (b_pid n) parent) (\<lambda>parent.
              bind_run (removeSlot slotId parent) (\<lambda>parent.
              bind_run (makeHint tmp) (\<lambda>tmp.
              Ret (True, copyNode n (tmp\<lparr>b_link := b_link right\<rparr>), parent))))))))))))"

section \<open>The separator lies between its neighbours\<close>

lemma separates:
  fixes a b :: "u8 list"
  assumes "a < b" and "common_len a b < length a" and "common_len a b + 1 < length b"
  shows "a < take (common_len a b + 1) b" "take (common_len a b + 1) b < b"
  using assms by (induction a b rule: common_len.induct) (auto split: if_splits simp: neq_Nil_conv)

lemma commonPrefix_ok:
  assumes "layout n" and "a < b_count n" and "b < b_count n"
  shows "commonPrefix n a b = Ret (common_len (key_at n a) (key_at n b))"
  using assms slot_facts(2) [OF assms(1)] by (simp add: commonPrefix_def)

lemma sep_scan_ok:
  assumes "layout n" and "s \<le> upper" and "upper \<le> b_count n"
  shows "\<exists>r. sep_scan n best upper s = Ret r \<and> s \<le> r \<and> r \<le> upper"
  using assms
proof (induction n best upper s rule: sep_scan.induct)
  case (1 n best upper s)
  show ?case
  proof (cases "s < upper")
    case True
    then have "commonPrefix n s 0 = Ret (common_len (key_at n s) (key_at n 0))"
      using commonPrefix_ok [OF 1(2)] 1(4) by simp
    then show ?thesis using 1(1) [of "common_len (key_at n s) (key_at n 0)"] 1(2,4) True by (subst sep_scan.simps) auto
  next
    case False
    then show ?thesis using 1(3) by (subst sep_scan.simps) auto
  qed
qed

lemma bestSlot_ok:
  assumes lay: "layout n" and c: "b_count n > 1"
  shows "\<exists>r. bestSlot ordered n = Ret r \<and> r + 1 < b_count n \<and> (r = 0 \<longleftrightarrow> b_count n = 2)"
proof (cases "\<not> ordered \<and> b_count n > 16")
  case True
  define lower where "lower = b_count n div 2 - b_count n div 16"
  define upper where "upper = b_count n div 2"
  have b: "0 < lower" "lower + 1 \<le> upper" "upper + 1 < b_count n" using True unfolding lower_def upper_def by linarith+
  obtain r where r: "sep_scan n (common_len (key_at n lower) (key_at n 0)) upper (lower + 1) = Ret r" "lower + 1 \<le> r" "r \<le> upper"
    using sep_scan_ok [OF lay b(2)] b(3) by fastforce
  have "commonPrefix n lower 0 = Ret (common_len (key_at n lower) (key_at n 0))"
    "commonPrefix n (upper - 1) 0 = Ret (common_len (key_at n (upper - 1)) (key_at n 0))"
    using commonPrefix_ok [OF lay] b by simp_all
  then have "bestSlot ordered n = Ret r \<or> bestSlot ordered n = Ret lower"
    using True r(1) by (simp add: bestSlot_def Let_def lower_def upper_def)
  then show ?thesis using b r(2,3) by auto
next
  case False
  show ?thesis
  proof (cases ordered)
    case True
    have "b_count n - 2 + 1 < b_count n" "b_count n - 2 = 0 \<longleftrightarrow> b_count n = 2" using c by auto
    then show ?thesis using True by (simp add: bestSlot_def)
  next
    case o: False
    have "(b_count n - 1) div 2 + 1 < b_count n" "(b_count n - 1) div 2 = 0 \<longleftrightarrow> b_count n = 2" using c by presburger+
    then show ?thesis using o False by (simp add: bestSlot_def)
  qed
qed

lemma findSeparator_ok:
  assumes ok: "node_ok n" and c: "b_count n > 1" and d: "distinct (keys n)"
  shows "\<exists>info sep. findSeparator ordered n = Ret info \<and> getSep info n = Ret sep \<and> sep_len info = length sep \<and>
    keys n ! sep_slot info \<le> sep \<and> (\<exists>i < b_count n. length sep \<le> length (keys n ! i)) \<and> (if isLeaf n then sep_slot info + 1 < b_count n \<and> sep < keys n ! (sep_slot info + 1) \<and>
      (sep_slot info = 0 \<longleftrightarrow> b_count n = 2)
      else sep_slot info = b_count n div 2 \<and> sep = keys n ! sep_slot info)"
proof -
  have N: "layout n" "sorted (keys n)" using ok by (simp_all add: node_ok_def)
  note S = slot_facts [OF N(1)] and P = prefix_facts [OF N(1)] and L = layoutD [OF N(1)]
  have kl: "prefixLen n + s_keyLen (b_slot n ! i) < 2 ^ 32" if "i < b_count n" for i
    using P(1) fence_lengths(3) [OF N(1)] L(12) [OF that] by (simp add: slot_ok_def sizes)
  have key: "keys n ! i = prefix n @ key_at n i" if "i < b_count n" for i using that by (simp add: entry_at_def)
  have get: "getSep \<lparr>sep_len = prefixLen n + k, sep_slot = i, isTruncated = t\<rparr> n = Ret (prefix n @ take k (key_at n j))"
    if "j = i + of_bool t" "j < b_count n" "k \<le> length (key_at n j)" for i j k t
  proof -
    have k: "k \<le> s_keyLen (b_slot n ! j)" using that(3) S(4) [OF that(2)] by simp
    have "s_offset (b_slot n ! j) + k \<le> length (b_heap n)" using L(1) L(12) [OF that(2)] k by (simp add: slot_ok_def sizes)
    moreover have "sub32 (prefixLen n + k) (prefixLen n) = k" using kl [OF that(2)] k by simp
    moreover have "bytes n (s_offset (b_slot n ! j)) k = take k (key_at n j)" using k by (simp add: key_at_def bytes_def)
    ultimately show ?thesis using that(1) S(1) [OF that(2)] P(6) by (simp add: getSep_def mem_get_bytes)
  qed
  show ?thesis
  proof (cases "isLeaf n")
    case False
    have h: "b_count n div 2 < b_count n" using c by simp
    have "findSeparator ordered n = Ret \<lparr>sep_len = prefixLen n + length (key_at n (b_count n div 2)), sep_slot = b_count n div 2, isTruncated = False\<rparr>"
      using False c S(1,4) [OF h] kl [OF h] by (simp add: findSeparator_def Let_def)
    then show ?thesis using False get [of "b_count n div 2" "b_count n div 2" False] key [OF h] h P(3)
      by (intro exI [of _ "\<lparr>sep_len = prefixLen n + length (key_at n (b_count n div 2)), sep_slot = b_count n div 2, isTruncated = False\<rparr>"]
          exI [of _ "keys n ! (b_count n div 2)"]) (auto simp del: nth_map)
  next
    case True
    obtain r where r: "bestSlot ordered n = Ret r" "r + 1 < b_count n" "r = 0 \<longleftrightarrow> b_count n = 2" using bestSlot_ok [OF N(1) c] by blast
    let ?a = "key_at n r" and ?b = "key_at n (r + 1)"
    have r': "r < b_count n" using r(2) by simp
    have "keys n ! r \<le> keys n ! (r + 1)" by (rule sorted_nth_mono [OF N(2)]) (use r(2) in simp_all)
    moreover have "keys n ! r \<noteq> keys n ! (r + 1)" using d r(2) by (subst nth_eq_iff_index_eq) simp_all
    ultimately have ab: "?a < ?b" using key [OF r'] key [OF r(2)] by simp
    define common where "common = common_len ?a ?b"
    have cp: "commonPrefix n r (r + 1) = Ret common" using commonPrefix_ok [OF N(1) r' r(2)] by (simp add: common_def)
    show ?thesis
    proof (cases "length ?a > common \<and> length ?b > common + 1")
      case t: True
      have "prefixLen n + (common + 1) < 2 ^ 32" using kl [OF r(2)] t S(4) [OF r(2)] by simp
      then have "findSeparator ordered n = Ret \<lparr>sep_len = prefixLen n + (common + 1), sep_slot = r, isTruncated = True\<rparr>"
        using True c r(1,2) cp S(1,4) [OF r'] S(1,4) [OF r(2)] t by (simp add: findSeparator_def)
      moreover have "getSep \<lparr>sep_len = prefixLen n + (common + 1), sep_slot = r, isTruncated = True\<rparr> n = Ret (prefix n @ take (common + 1) ?b)"
        by (rule get) (use r(2) t in simp_all)
      moreover have "?a < take (common + 1) ?b" "take (common + 1) ?b < ?b" using separates [OF ab] t by (simp_all add: common_def)
      moreover have "\<exists>i < b_count n. length (prefix n @ take (common + 1) ?b) \<le> length (keys n ! i)"
        using r(2) key [OF r(2)] t by (intro exI [of _ "r + 1"]) simp
      ultimately show ?thesis using True r key [OF r'] key [OF r(2)] P(3) t
        by (intro exI [of _ "\<lparr>sep_len = prefixLen n + (common + 1), sep_slot = r, isTruncated = True\<rparr>"]
            exI [of _ "prefix n @ take (common + 1) ?b"]) simp
    next
      case t: False
      have "findSeparator ordered n = Ret \<lparr>sep_len = prefixLen n + length ?a, sep_slot = r, isTruncated = False\<rparr>"
        using True c r(1,2) cp S(1,4) [OF r'] S(1,4) [OF r(2)] t kl [OF r'] by (auto simp: findSeparator_def)
      moreover have "getSep \<lparr>sep_len = prefixLen n + length ?a, sep_slot = r, isTruncated = False\<rparr> n = Ret (prefix n @ take (length ?a) ?a)"
        by (rule get) (use r' in simp_all)
      moreover have "\<exists>i < b_count n. length (prefix n @ ?a) \<le> length (keys n ! i)" using r' key [OF r'] by auto
      ultimately show ?thesis using True r key [OF r'] key [OF r(2)] P(3) ab
        by (intro exI [of _ "\<lparr>sep_len = prefixLen n + length ?a, sep_slot = r, isTruncated = False\<rparr>"] exI [of _ "prefix n @ ?a"]) simp
    qed
  qed
qed

section \<open>Payloads that are written in place\<close>

lemma pid_bytes_length [simp]: "length (pid_bytes p) = 8"
  by (simp add: pid_bytes_def)

lemma load_horner: "loadUnaligned bs = word_of_int (horner_sum uint (2 ^ LENGTH(8)) bs)"
  by (simp only: loadUnaligned_def word_rcat_def comp_def rev_rev_ident)

lemma load_pid_bytes [simp]: "loadUnaligned (pid_bytes p) = p"
proof (rule bit_word_eqI)
  fix i assume i: "i < LENGTH(64)"
  then have "i div 8 < 8" by simp
  then have "pid_bytes p ! (i div 8) = ucast (drop_bit (8 * (i div 8)) p)" by (simp add: pid_bytes_def del: upt_Suc)
  then show "bit (loadUnaligned (pid_bytes p) :: PID) i = bit p i"
    using i by (simp add: load_horner bit_word_of_int_iff bit_horner_sum_uint_exp_iff del: len_of_numeral_defs)
      (use \<open>i div 8 < 8\<close> in \<open>simp add: bit_ucast_iff bit_drop_bit_eq\<close>)
qed

lemma bytes_beside:
  assumes "length (b_heap n) = 4096" and "d + length bs \<le> 4096" and "off + len \<le> d \<or> d + length bs \<le> off"
  shows "bytes (n\<lparr>b_heap := take d (b_heap n) @ bs @ drop (d + length bs) (b_heap n)\<rparr>) off len = bytes n off len"
proof (cases "d + length bs \<le> off")
  case True
  then show ?thesis using bytes_above assms by simp
next
  case False
  then have d: "off + len \<le> d" using assms(3) by simp
  have l: "length (take d (b_heap n)) = d" using assms by simp
  have "take len (drop off (take d (b_heap n) @ xs)) = take len (drop off (b_heap n))" for xs
    using d l by (simp only: drop_append take_append drop_take) simp
  from this [of "bs @ drop (d + length bs) (b_heap n)"] show ?thesis unfolding bytes_def by (simp del: take_append drop_append)
qed

lemma payload_put_ok:
  assumes ok: "node_ok n" and j: "j < b_count n" and len: "length bs = length (pay_at n j)"
  shows "\<exists>n'. mem_put (s_offset (b_slot n ! j) + s_keyLen (b_slot n ! j)) bs n = Ret n' \<and> node_ok n' \<and> same_frame n n' \<and>
    entries n' = (entries n)[j := (fst (entries n ! j), bs)] \<and> b_count n' = b_count n \<and> hasSpaceFor n' = hasSpaceFor n"
proof -
  have N: "layout n" "hinted n" "sorted (keys n)" using ok by (simp_all add: node_ok_def)
  note L = layoutD [OF N(1)] and S = slot_facts [OF N(1)]
  let ?sl = "b_slot n ! j"
  define d where "d = s_offset ?sl + s_keyLen ?sl"
  define n' where "n' = n\<lparr>b_heap := take d (b_heap n) @ bs @ drop (d + length bs) (b_heap n)\<rparr>"
  have lb: "length bs = s_payloadLen ?sl" using len S(5) [OF j] by simp
  have so: "slot_ok n ?sl" using L(12) [OF j] .
  then have d: "d + length bs \<le> 4096" "dataOffset n \<le> d" by (simp_all add: slot_ok_def d_def lb sizes)
  have put: "mem_put d bs n = Ret n'" using d L(1) by (simp add: mem_put_def n'_def)
  have same: "bytes n' off l = bytes n off l" if "off + l \<le> d \<or> d + length bs \<le> off" for off l
    unfolding n'_def by (rule bytes_beside [OF L(1) d(1) that])
  have fence: "bytes n' (f_offset fk) l = bytes n (f_offset fk) l" if "below fk ?sl" "l \<le> f_len fk" for fk l
    using that same [of "f_offset fk" l] by (cases "f_len fk = 0") (auto simp: below_def slot_size_def d_def lb bytes_def)
  have low: "low_key n' = low_key n" and upp: "upp_key n' = upp_key n"
    using so fence by (simp_all add: low_key_def upp_key_def slot_ok_def) (simp_all add: n'_def)
  have pre: "prefix n' = prefix n"
    using so fence [of "lowerFence n" "prefixLen n"] prefix_facts(1) [OF N(1)] by (simp add: prefix_def slot_ok_def) (simp add: n'_def)
  have ap: "apart (b_slot n ! i) ?sl" if "i < b_count n" "i \<noteq> j" for i
  proof -
    have "framed n {..<b_count n}" using layout_parts(1) [OF N(1)] .
    then have "i < j \<Longrightarrow> apart (b_slot n ! i) ?sl" "j < i \<Longrightarrow> apart ?sl (b_slot n ! i)" using that(1) j by (simp_all add: framed_def)
    then show ?thesis using that(2) by (cases "i < j") (auto simp: apart_def)
  qed
  have ki: "key_at n' i = key_at n i" if "i < b_count n" for i
  proof (cases "i = j")
    case True
    then show ?thesis using same by (simp add: key_at_def n'_def d_def)
  next
    case False
    then have "s_offset (b_slot n ! i) + s_keyLen (b_slot n ! i) \<le> d \<or> d + length bs \<le> s_offset (b_slot n ! i)"
      using ap [OF that False] by (auto simp: apart_def slot_size_def d_def lb)
    from same [OF this] show ?thesis by (simp add: key_at_def n'_def)
  qed
  have pi: "pay_at n' i = pay_at n i" if "i < b_count n" "i \<noteq> j" for i
  proof -
    let ?o = "s_offset (b_slot n ! i) + s_keyLen (b_slot n ! i)"
    have "?o + s_payloadLen (b_slot n ! i) \<le> d \<or> d + length bs \<le> ?o"
      using ap [OF that] by (auto simp: apart_def slot_size_def d_def lb)
    from same [OF this] show ?thesis by (simp add: pay_at_def n'_def)
  qed
  have pj: "pay_at n' j = bs"
  proof -
    have "length (take d (b_heap n)) = d" using L(1) d by simp
    then have "bytes n' d (length bs) = bs" by (simp add: bytes_def n'_def)
    moreover have "b_slot n' = b_slot n" by (simp add: n'_def)
    ultimately show ?thesis by (simp add: pay_at_def d_def lb)
  qed
  have en: "entries n' = (entries n)[j := (fst (entries n ! j), bs)]"
  proof (rule nth_equalityI)
    fix i assume "i < length (entries n')"
    then have i: "i < b_count n" "i < b_count n'" by (simp_all add: n'_def)
    show "entries n' ! i = (entries n)[j := (fst (entries n ! j), bs)] ! i"
      using i j ki pi pj pre by (cases "i = j") (simp_all add: entry_at_def)
  qed (simp add: n'_def)
  have hs: "slot_ok n' (b_slot n ! i)" if "i < b_count n" for i
    using L(12) [OF that] ki [OF that] by (simp add: slot_ok_def key_at_def) (simp add: n'_def)
  have fr: "framed n {..<b_count n}" using layout_parts(1) [OF N(1)] .
  have "length (b_heap n') = 4096" using d L(1) by (simp add: n'_def)
  then have "framed n' {..<b_count n'}"
    using fr hs low upp by (simp add: framed_def fence_ok_def) (simp add: n'_def)
  moreover have "used n' = used n" by (simp add: used_def n'_def)
  ultimately have lay: "layout n'" using N(1) by (simp add: layout_framed) (simp add: n'_def)
  have "hinted n'" using N(2) by (simp add: hinted_def n'_def)
  moreover have "keys n' = keys n" by (simp add: en map_update list_update_same_conv j)
  ultimately have "node_ok n'" using lay N(3) by (simp add: node_ok_def)
  moreover have "same_frame n n'" using low upp pre by (simp add: same_frame_def) (simp add: n'_def)
  moreover have "b_count n' = b_count n" "hasSpaceFor n' = hasSpaceFor n"
    by (simp_all add: n'_def fun_eq_iff hasSpaceFor_def spaceNeeded_def freeSpaceAfterCompaction_def)
  ultimately show ?thesis using put en by (auto simp: d_def)
qed

text \<open>The children of an inner node.\<close>

definition child_ok :: "bnode \<Rightarrow> bool" where
  "child_ok n \<longleftrightarrow> (\<forall>e \<in> set (entries n). length (snd e) = 8)"

definition children :: "bnode \<Rightarrow> PID list" where
  "children n = map (\<lambda>e. loadUnaligned (snd e)) (entries n) @ [b_link n]"

lemma getChild_ok:
  assumes "layout n" and "child_ok n" and "j < b_count n"
  shows "getChild n j = Ret (children n ! j)" "length (pay_at n j) = 8"
proof -
  have "(entry_at n j) \<in> set (entries n)" using assms(3) nth_mem [of j "entries n"] by simp
  then show l: "length (pay_at n j) = 8" using assms(2) by (auto simp: child_ok_def entry_at_def)
  then have p: "s_payloadLen (b_slot n ! j) = 8" using slot_facts(5) [OF assms(1,3)] by simp
  then have "s_offset (b_slot n ! j) + s_keyLen (b_slot n ! j) + 8 \<le> length (b_heap n)"
    using layoutD(1) [OF assms(1)] layoutD(12) [OF assms(1,3)] by (simp add: slot_ok_def sizes)
  then show "getChild n j = Ret (children n ! j)"
    using slot_facts(1) [OF assms(1,3)] assms(3) p
    by (simp add: getChild_def children_def mem_get_bytes entry_at_def pay_at_def nth_append)
qed

lemma setChild_ok:
  assumes ok: "node_ok n" and ch: "child_ok n" and j: "j < b_count n"
  shows "\<exists>n'. setChild j p n = Ret n' \<and> node_ok n' \<and> same_frame n n' \<and> child_ok n' \<and>
    entries n' = (entries n)[j := (fst (entries n ! j), pid_bytes p)] \<and> b_count n' = b_count n \<and> hasSpaceFor n' = hasSpaceFor n \<and>
    keys n' = keys n \<and> children n' = (children n)[j := p]"
proof -
  have lay: "layout n" using ok by (simp add: node_ok_def)
  obtain n' where n': "mem_put (s_offset (b_slot n ! j) + s_keyLen (b_slot n ! j)) (pid_bytes p) n = Ret n'" "node_ok n'" "same_frame n n'"
    "entries n' = (entries n)[j := (fst (entries n ! j), pid_bytes p)]" "b_count n' = b_count n" "hasSpaceFor n' = hasSpaceFor n"
    using payload_put_ok [OF ok j, of "pid_bytes p"] getChild_ok(2) [OF lay ch j] by auto
  have "child_ok n'" using ch set_update_subset_insert [of "entries n" j] by (fastforce simp: child_ok_def n'(4))
  moreover have "keys n' = keys n" by (simp add: n'(4) map_update list_update_same_conv j)
  moreover have "b_link n' = b_link n" using n'(3) by (simp add: same_frame_def)
  then have "children n' = (children n)[j := p]" using j by (simp add: children_def n'(4) map_update list_update_append)
  ultimately show ?thesis using n' slot_facts(1) [OF lay j] by (simp add: setChild_def)
qed

lemma children_length [simp]: "length (children n) = b_count n + 1"
  by (simp add: children_def)

lemma children_last [simp]: "children n ! b_count n = b_link n"
  by (simp add: children_def nth_append)

section \<open>One half of a node\<close>

text \<open>The keys between two fences, where the empty fence is no bound.\<close>

definition in_range :: "u8 list \<Rightarrow> u8 list \<Rightarrow> u8 list \<Rightarrow> bool" where
  "in_range l u k \<longleftrightarrow> (l = [] \<or> l < k) \<and> (u = [] \<or> k \<le> u)"

lemma squeeze:
  fixes l u k :: "u8 list"
  assumes "l \<le> k" and "k \<le> u"
  shows "take (common_len l u) k = take (common_len l u) l" "common_len l u \<le> common_len l k" "common_len l u \<le> common_len k u"
proof -
  have "take (common_len l u) k = take (common_len l u) l \<and> common_len l u \<le> common_len l k \<and> common_len l u \<le> common_len k u"
    using assms
  proof (induction l u arbitrary: k rule: common_len.induct)
    case (1 x xs y ys)
    then show ?case by (cases k) (auto split: if_splits)
  qed auto
  then show "take (common_len l u) k = take (common_len l u) l" "common_len l u \<le> common_len l k" "common_len l u \<le> common_len k u"
    by simp_all
qed

lemma in_range_prefix:
  assumes "in_range l u k"
  shows "take (common_len l u) k = take (common_len l u) l"
proof (cases "l = [] \<or> u = []")
  case True
  then have "common_len l u = 0" using common_len_le [of l u] by auto
  then show ?thesis by simp
next
  case False
  then show ?thesis using assms squeeze(1) [of l k u] by (auto simp: in_range_def)
qed

definition fits :: "u8 list \<Rightarrow> u8 list \<Rightarrow> (u8 list \<times> u8 list) list \<Rightarrow> bool" where
  "fits l u es \<longleftrightarrow> slotsEnd (length es) + length l + length u + entries_size (common_len l u) es \<le> pageSize"

lemma half_ok:
  assumes lay: "layout n" and raw: "raw_ok raw" and es: "es = take k (drop i (entries n))" "i + k \<le> b_count n"
    and rng: "\<forall>e \<in> set es. in_range l u (fst e)" and fit: "fits l u es"
  shows "\<exists>t t'. setFences l u (node_new leaf raw) = Ret t \<and> copyKeyValueRange n 0 i k t = Ret t' \<and> layout t' \<and> entries t' = es \<and>
    b_count t' = k \<and> low_key t' = l \<and> upp_key t' = u \<and> isLeaf t' = leaf \<and> b_pid t' = b_pid raw \<and> b_dirty t' \<and>
    b_count t = 0 \<and> prefixLen t = common_len l u \<and> prefixLen t' = common_len l u"
proof -
  have k: "length es = k" using es by simp
  have room: "length l + length u \<le> 3984" using fit by (simp add: fits_def slotsEnd_def sizes)
  obtain t where t: "setFences l u (node_new leaf raw) = Ret t" "layout t" "entries t = []" "b_count t = 0" "low_key t = l" "upp_key t = u"
    "prefixLen t = common_len l u" "isLeaf t = leaf" "b_pid t = b_pid raw" "b_dirty t" "dataOffset t + spaceUsed t = 4096"
    "spaceUsed t = length l + length u"
    using setFences_new [OF raw room] by blast
  have "take (prefixLen t) (fst e) = prefix t" if "e \<in> set es" for e
    using in_range_prefix rng that prefix_facts(4) [OF t(2)] by (simp add: t(5,7))
  moreover have "slotsEnd (b_count t + k) + entries_size (prefixLen t) es \<le> dataOffset t"
    using fit t(4,7,11,12) k by (simp add: fits_def sizes)
  ultimately show ?thesis using copyRange_ok [OF lay t(2) es] t k by (auto simp: same_frame_def)
qed

lemma link_ok:
  assumes "layout t" and "sorted (keys t)"
  shows "\<exists>t'. makeHint (t\<lparr>b_link := p\<rparr>) = Ret t' \<and> node_ok t' \<and> b_link t' = p \<and> entries t' = entries t \<and> low_key t' = low_key t \<and>
    upp_key t' = upp_key t \<and> isLeaf t' = isLeaf t \<and> b_pid t' = b_pid t \<and> b_dirty t' = b_dirty t"
proof -
  have "layout (t\<lparr>b_link := p\<rparr>)" "sorted (keys (t\<lparr>b_link := p\<rparr>))" using assms by simp_all
  from makeHint_ok [OF this] obtain hs where
    "makeHint (t\<lparr>b_link := p\<rparr>) = Ret (t\<lparr>b_link := p, b_hint := hs\<rparr>)" "node_ok (t\<lparr>b_link := p, b_hint := hs\<rparr>)" by blast
  then show ?thesis by auto
qed

lemma copyNode_ok: "node_ok (copyNode d n) = node_ok n"
  by (simp add: node_ok_def hinted_def) (simp add: copyNode_def)

section \<open>The parent of a node that is split\<close>

lemma located_unique:
  assumes "located ks k j f" and "located ks k j' f'" and "k \<notin> set ks"
  shows "j = j'" "\<not> f"
proof -
  have f: "\<not> f" "\<not> f'" using assms by (auto simp: located_def)
  then show "\<not> f" by simp
  have "(\<forall>i < j. ks ! i < k) \<and> (\<forall>i. j \<le> i \<and> i < length ks \<longrightarrow> k < ks ! i)" "j \<le> length ks"
    "(\<forall>i < j'. ks ! i < k) \<and> (\<forall>i. j' \<le> i \<and> i < length ks \<longrightarrow> k < ks ! i)" "j' \<le> length ks"
    using assms(1,2) f by (simp_all add: located_def)
  then show "j = j'" by (metis less_asym less_le_trans linorder_neqE_nat order_refl)
qed

lemma parent_update_ok:
  assumes ok: "node_ok p" and ch: "child_ok p" and j: "j \<le> b_count p" and c: "children p ! j = left"
  shows "\<exists>p'. parent_update new j left p = Ret p' \<and> node_ok p' \<and> child_ok p' \<and> children p' = (children p)[j := new] \<and>
    keys p' = keys p \<and> hasSpaceFor p' = hasSpaceFor p \<and> b_count p' = b_count p \<and> b_pid p' = b_pid p \<and> isLeaf p' = isLeaf p \<and>
    low_key p' = low_key p \<and> upp_key p' = upp_key p \<and> prefixLen p' = prefixLen p \<and> prefix p' = prefix p"
proof (cases "j = b_count p")
  case True
  let ?p = "p\<lparr>b_link := new\<rparr>"
  have "node_ok ?p" "child_ok ?p" using ok ch by (simp_all add: node_ok_def hinted_def child_ok_def)
  moreover have "children ?p = (children p)[j := new]" by (simp add: children_def True list_update_append)
  moreover have "hasSpaceFor ?p = hasSpaceFor p"
    by (simp add: fun_eq_iff hasSpaceFor_def spaceNeeded_def freeSpaceAfterCompaction_def)
  ultimately show ?thesis using True c by (intro exI [of _ ?p]) (simp add: parent_update_def)
next
  case False
  then have j: "j < b_count p" using j by simp
  have lay: "layout p" using ok by (simp add: node_ok_def)
  obtain p' where "setChild j new p = Ret p'" "node_ok p'" "same_frame p p'" "child_ok p'" "b_count p' = b_count p"
    "hasSpaceFor p' = hasSpaceFor p" "keys p' = keys p" "children p' = (children p)[j := new]"
    using setChild_ok [OF ok ch j] by blast
  then show ?thesis using False c getChild_ok(1) [OF lay ch j] by (simp add: parent_update_def same_frame_def)
qed

lemma put_map: "map f (put j x xs) = put j (f x) (map f xs)"
  by (simp add: put_def take_map drop_map)

lemma set_put [simp]: "set (put j x xs) = insert x (set xs)"
proof -
  have "set (take j xs) \<union> set (drop j xs) = set xs" by (metis append_take_drop_id set_append)
  then show ?thesis by (auto simp: put_def)
qed

lemma parent_insert_ok:
  assumes ok: "node_ok p" and ch: "child_ok p" and raw: "raw_ok raw" and pre: "take (prefixLen p) sep = prefix p"
    and len: "length sep \<le> 4000" and sp: "hasSpaceFor p (length sep) 8" and loc: "located (keys p) sep j False"
  shows "\<exists>p'. insertInPage raw sep (pid_bytes left) p = Ret p' \<and> node_ok p' \<and> child_ok p' \<and> same_frame p p' \<and>
    keys p' = put j sep (keys p) \<and> children p' = put j left (children p)"
proof -
  have ns: "sep \<notin> set (keys p)" using located_mem [OF _ loc] ok by (simp add: node_ok_def)
  have "length sep + length (pid_bytes left) \<le> 4096" "hasSpaceFor p (length sep) (length (pid_bytes left))" using len sp by simp_all
  from insertInPage_ok [OF ok raw pre this] obtain p' j' f where p': "insertInPage raw sep (pid_bytes left) p = Ret p'"
    "node_ok p'" "same_frame p p'" "located (keys p) sep j' f" "entries p' = put j' (sep, pid_bytes left) (entries p)"
    by blast
  have j: "j' = j" using located_unique(1) [OF p'(4) loc ns] .
  have jl: "j \<le> length (entries p)" using loc by (simp add: located_def)
  have "child_ok p'" using ch by (auto simp: child_ok_def p'(5))
  moreover have "b_link p' = b_link p" using p'(3) by (simp add: same_frame_def)
  then have "children p' = put j left (children p)"
    using jl by (simp add: children_def p'(5) j put_map) (simp add: put_def)
  ultimately show ?thesis using p' by (simp add: j put_map)
qed

section \<open>Splitting a node\<close>

text \<open>What is left of a node that is split at a slot, and what its right sibling gets.\<close>

definition left_part :: "bnode \<Rightarrow> nat \<Rightarrow> (u8 list \<times> u8 list) list" where
  "left_part n s = take (if isLeaf n then s + 1 else s) (entries n)"

definition right_part :: "bnode \<Rightarrow> nat \<Rightarrow> (u8 list \<times> u8 list) list" where
  "right_part n s = drop (s + 1) (entries n)"

definition can_split :: "bnode \<Rightarrow> nat \<Rightarrow> u8 list \<Rightarrow> bool" where
  "can_split n s sep \<longleftrightarrow> 0 < s \<and> s < b_count n \<and>
     (\<forall>e \<in> set (left_part n s). in_range (low_key n) sep (fst e)) \<and> (\<forall>e \<in> set (right_part n s). in_range sep (upp_key n) (fst e)) \<and>
     fits (low_key n) sep (left_part n s) \<and> fits sep (upp_key n) (right_part n s)"

definition can_adopt :: "bnode \<Rightarrow> PID \<Rightarrow> u8 list \<Rightarrow> nat \<Rightarrow> bool" where
  "can_adopt p left sep j \<longleftrightarrow> located (keys p) sep j False \<and> children p ! j = left \<and> take (prefixLen p) sep = prefix p \<and>
     hasSpaceFor p (length sep) 8"

definition split_result :: "bnode \<Rightarrow> nat \<Rightarrow> u8 list \<Rightarrow> PID \<Rightarrow> bnode \<Rightarrow> bnode \<Rightarrow> bool" where
  "split_result n s sep new left right \<longleftrightarrow> node_ok left \<and> node_ok right \<and> entries left = left_part n s \<and> entries right = right_part n s \<and>
     low_key left = low_key n \<and> upp_key left = sep \<and> low_key right = sep \<and> upp_key right = upp_key n \<and>
     isLeaf left = isLeaf n \<and> isLeaf right = isLeaf n \<and> b_pid left = b_pid n \<and> b_pid right = new \<and>
     b_link left = (if isLeaf n then new else children n ! s) \<and> b_link right = b_link n"

lemma splitNode_ok:
  assumes ok: "node_ok n" "node_ok p" "child_ok p" "raw_ok raw" "raw_ok page" and inner: "isLeaf n \<or> child_ok n"
    and sp: "can_split n s sep" and ad: "can_adopt p (b_pid n) sep j"
  shows "\<exists>left right p'. splitNode raw page s sep n p = Ret (left, right, p') \<and> split_result n s sep (b_pid page) left right \<and>
    node_ok p' \<and> child_ok p' \<and> keys p' = put j sep (keys p) \<and> children p' = put j (b_pid n) ((children p)[j := b_pid page]) \<and>
    b_pid p' = b_pid p \<and> isLeaf p' = isLeaf p \<and> low_key p' = low_key p \<and> upp_key p' = upp_key p"
proof -
  have N: "layout n" "sorted (keys n)" using ok(1) by (simp_all add: node_ok_def)
  note Fl = fence_lengths [OF N(1)]
  have S: "0 < s" "s < b_count n" "b_count n \<le> 398" "fits (low_key n) sep (left_part n s)" "fits sep (upp_key n) (right_part n s)"
    "\<forall>e \<in> set (left_part n s). in_range (low_key n) sep (fst e)" "\<forall>e \<in> set (right_part n s). in_range sep (upp_key n) (fst e)"
    using sp layoutD(6) [OF N(1)] by (simp_all add: can_split_def)
  let ?k = "if isLeaf n then s + 1 else s"
  have lp: "left_part n s = take ?k (drop 0 (entries n))" "0 + ?k \<le> b_count n" using S(2) by (simp_all add: left_part_def)
  have rp: "right_part n s = take (b_count n - (s + 1)) (drop (s + 1) (entries n))" "s + 1 + (b_count n - (s + 1)) \<le> b_count n"
    using S(2) by (simp_all add: right_part_def)
  obtain l0 l1 where l: "setFences (low_key n) sep (node_new (isLeaf n) raw) = Ret l0" "copyKeyValueRange n 0 0 ?k l0 = Ret l1"
    "layout l1" "entries l1 = left_part n s" "b_count l1 = ?k" "low_key l1 = low_key n" "upp_key l1 = sep" "isLeaf l1 = isLeaf n"
    "b_count l0 = 0"
    using half_ok [OF N(1) ok(4) lp S(6,4)] by blast
  obtain r0 r1 where r: "setFences sep (upp_key n) (node_new (isLeaf n) page) = Ret r0"
    "copyKeyValueRange n 0 (s + 1) (b_count n - (s + 1)) r0 = Ret r1"
    "layout r1" "entries r1 = right_part n s" "low_key r1 = sep" "upp_key r1 = upp_key n" "isLeaf r1 = isLeaf n" "b_pid r1 = b_pid page"
    using half_ok [OF N(1) ok(5) rp S(7,5)] by blast
  have A: "located (keys p) sep j False" "children p ! j = b_pid n" "take (prefixLen p) sep = prefix p" "hasSpaceFor p (length sep) 8"
    using ad by (simp_all add: can_adopt_def)
  have jp: "j \<le> b_count p" using A(1) by (simp add: located_def)
  have ns: "sep \<notin> set (keys p)" using located_mem [OF _ A(1)] ok(2) by (simp add: node_ok_def)
  obtain j' f where lb: "lowerBound sep p = Ret (j', f)" "located (keys p) sep j' f" using lowerBound_spec [OF ok(2)] by blast
  have j': "j' = j" using located_unique(1) [OF lb(2) A(1) ns] .
  obtain p1 where p1: "parent_update (b_pid page) j (b_pid n) p = Ret p1" "node_ok p1" "child_ok p1"
    "children p1 = (children p)[j := b_pid page]" "keys p1 = keys p" "hasSpaceFor p1 = hasSpaceFor p" "b_pid p1 = b_pid p"
    "isLeaf p1 = isLeaf p" "low_key p1 = low_key p" "upp_key p1 = upp_key p" "prefixLen p1 = prefixLen p" "prefix p1 = prefix p"
    using parent_update_ok [OF ok(2,3) jp A(2)] by blast
  have "length sep \<le> 4000" using S(4) by (simp add: fits_def slotsEnd_def sizes)
  from parent_insert_ok [OF p1(2,3) ok(4) _ this, of j "b_pid n"] obtain p2 where
    p2: "insertInPage raw sep (pid_bytes (b_pid n)) p1 = Ret p2" "node_ok p2" "child_ok p2" "same_frame p1 p2"
    "keys p2 = put j sep (keys p)" "children p2 = put j (b_pid n) ((children p)[j := b_pid page])"
    using A(1,3,4) by (auto simp: p1)
  have sorted: "sorted (keys l1)" "sorted (keys r1)"
    using N(2) by (simp_all add: l(4) r(4) left_part_def right_part_def take_map drop_map sorted_wrt_take sorted_wrt_drop del: entries_nth
        flip: take_map drop_map)
  define lk where "lk = (if isLeaf n then b_pid page else children n ! s)"
  obtain l2 where l2: "makeHint (l1\<lparr>b_link := lk\<rparr>) = Ret l2" "node_ok l2" "b_link l2 = lk" "entries l2 = entries l1"
    "low_key l2 = low_key l1" "upp_key l2 = upp_key l1" "isLeaf l2 = isLeaf l1"
    using link_ok [OF l(3) sorted(1)] by blast
  obtain r2 where r2: "makeHint (r1\<lparr>b_link := b_link n\<rparr>) = Ret r2" "node_ok r2" "b_link r2 = b_link n" "entries r2 = entries r1"
    "low_key r2 = low_key r1" "upp_key r2 = upp_key r1" "isLeaf r2 = isLeaf r1" "b_pid r2 = b_pid r1"
    using link_ok [OF r(3) sorted(2)] by blast
  have cnt: "isLeaf n \<Longrightarrow> sub32 (b_count n) (s + 1) = b_count n - (s + 1)" "sub32 (sub32 (b_count n) s) 1 = b_count n - (s + 1)"
    using S(2,3) by simp_all
  have "(if isLeaf n then
             bind_run (copyKeyValueRange n 0 0 (s + 1) l0) (\<lambda>nodeLeft.
             bind_run (copyKeyValueRange n 0 (b_count nodeLeft) (sub32 (b_count n) (b_count nodeLeft)) r0) (\<lambda>nodeRight.
             Ret (nodeLeft\<lparr>b_link := b_pid page\<rparr>, nodeRight\<lparr>b_link := b_link n\<rparr>)))
           else
             bind_run (copyKeyValueRange n 0 0 s l0) (\<lambda>nodeLeft.
             bind_run (copyKeyValueRange n 0 (b_count nodeLeft + 1) (sub32 (sub32 (b_count n) (b_count nodeLeft)) 1) r0) (\<lambda>nodeRight.
             bind_run (getChild n (b_count nodeLeft)) (\<lambda>c.
             Ret (nodeLeft\<lparr>b_link := c\<rparr>, nodeRight\<lparr>b_link := b_link n\<rparr>))))) = Ret (l1\<lparr>b_link := lk\<rparr>, r1\<lparr>b_link := b_link n\<rparr>)"
  proof (cases "isLeaf n")
    case True
    then show ?thesis using l(2,5) r(2) cnt(1) by (simp add: lk_def)
  next
    case False
    then show ?thesis using l(2,5) r(2) cnt(2) getChild_ok(1) [OF N(1) _ S(2)] inner by (simp add: lk_def)
  qed
  then have "splitNode raw page s sep n p = Ret (copyNode n l2, r2, p2)"
    using S(1-3) Fl(5,6) l(1) r(1) lb(1) j' p1(1) p2(1) l2(1) r2(1) by (simp add: splitNode_def Let_def sizes)
  moreover have "split_result n s sep (b_pid page) (copyNode n l2) r2"
    using l l2 r r2 by (simp add: split_result_def copyNode_ok lk_def)
  ultimately show ?thesis using p2 p1 by (auto simp: same_frame_def)
qed

section \<open>Merging two leaves\<close>

definition cut :: "nat \<Rightarrow> 'a list \<Rightarrow> 'a list" where
  "cut i xs = take i xs @ drop (Suc i) xs"

lemma cut_map: "map f (cut i xs) = cut i (map f xs)"
  by (simp add: cut_def take_map drop_map)

lemma cut_append [simp]: "i < length xs \<Longrightarrow> cut i (xs @ ys) = cut i xs @ ys"
  by (simp add: cut_def)

lemma set_cut: "set (cut i xs) \<subseteq> set xs"
  using set_take_subset [of i xs] set_drop_subset [of "Suc i" xs] by (auto simp: cut_def)

lemma cut_update:
  assumes "Suc i < length xs" and "xs ! i = x"
  shows "cut i (xs[Suc i := x]) = cut (Suc i) xs"
  using assms
proof (induction xs arbitrary: i)
  case (Cons a xs)
  show ?case
  proof (cases i)
    case 0
    then show ?thesis using Cons.prems by (cases xs) (simp_all add: cut_def)
  next
    case (Suc i')
    then show ?thesis using Cons by (simp add: cut_def)
  qed
qed simp

lemma child_removeSlot_ok:
  assumes ok: "node_ok p" and ch: "child_ok p" and i: "i < b_count p"
  shows "\<exists>p'. removeSlot i p = Ret p' \<and> node_ok p' \<and> child_ok p' \<and> same_frame p p' \<and> keys p' = cut i (keys p) \<and>
    children p' = cut i (children p)"
proof -
  obtain p' where p': "removeSlot i p = Ret p'" "node_ok p'" "same_frame p p'" "entries p' = take i (entries p) @ drop (Suc i) (entries p)"
    using removeSlot_ok [OF ok i] by blast
  have e: "entries p' = cut i (entries p)" using p'(4) by (simp add: cut_def)
  have "child_ok p'" using ch set_cut [of i "entries p"] by (auto simp: child_ok_def e)
  moreover have "b_link p' = b_link p" using p'(3) by (simp add: same_frame_def)
  then have "children p' = cut i (children p)" using i by (simp add: children_def e cut_map)
  moreover have "keys p' = cut i (keys p)" by (simp only: e cut_map)
  ultimately show ?thesis using p'(1-3) by blast
qed

text \<open>The space a shorter prefix costs.\<close>

lemma entries_size_grow: "entries_size a es \<le> entries_size b es + (b - a) * length es"
proof (induction es)
  case (Cons e es)
  have "entry_size a e \<le> entry_size b e + (b - a)" by (simp add: entry_size_def)
  then show ?case using Cons by simp
qed simp

definition fenced :: "bnode \<Rightarrow> bool" where
  "fenced n \<longleftrightarrow> (\<forall>e \<in> set (entries n). in_range (low_key n) (upp_key n) (fst e)) \<and> (upp_key n = [] \<or> low_key n < upp_key n)"

definition merge_result :: "bnode \<Rightarrow> bnode \<Rightarrow> bnode \<Rightarrow> bool" where
  "merge_result n right n' \<longleftrightarrow> node_ok n' \<and> fenced n' \<and> entries n' = entries n @ entries right \<and> low_key n' = low_key n \<and>
     upp_key n' = upp_key right \<and> isLeaf n' \<and> b_pid n' = b_pid n \<and> b_link n' = b_link right"

lemma in_range_join:
  assumes "in_range l m k \<or> in_range m u k" and "m \<noteq> []" and "l < m" and "u = [] \<or> m < u"
  shows "in_range l u k"
  using assms unfolding in_range_def by (auto intro: order.strict_trans order.strict_trans1 order.strict_trans2 less_imp_le)

text \<open>The size that the source computes for the merged node.\<close>

definition merge_bound :: "bnode \<Rightarrow> bnode \<Rightarrow> nat" where
  "merge_bound n right = spaceUsed n + spaceUsed right + slotsEnd (b_count n + b_count right) +
     (prefixLen n - common_len (low_key n) (upp_key right)) * b_count n +
     (prefixLen right - common_len (low_key n) (upp_key right)) * b_count right"

lemma mergeNodes_ok:
  assumes ok: "node_ok n" "node_ok right" "node_ok p" "child_ok p" "raw_ok raw" and leaf: "isLeaf n" "isLeaf right" "\<not> isLeaf p"
    and fen: "fenced n" "fenced right" "upp_key n = low_key right" "low_key right \<noteq> []"
    and room: "length (low_key n) + length (upp_key right) \<le> 3984" and i: "i + 1 < b_count p" "children p ! i = b_pid n"
  shows "\<exists>b n' p'. mergeNodes raw i n p right = Ret (b, n', p') \<and> (b \<longleftrightarrow> merge_bound n right \<le> pageSize) \<and>
    (if b then merge_result n right n' \<and> node_ok p' \<and> child_ok p' \<and> same_frame p p' \<and> keys p' = cut i (keys p) \<and>
       children p' = cut (i + 1) (children p)
     else n' = n \<and> p' = p)"
proof -
  have N: "layout n" "sorted (keys n)" "layout right" "sorted (keys right)" using ok(1,2) by (simp_all add: node_ok_def)
  note Fl = fence_lengths [OF N(1)] and Fr = fence_lengths [OF N(3)] and P = layout_parts [OF N(1)] and Q = layout_parts [OF N(3)]
  define l m u where "l = low_key n" "m = low_key right" "u = upp_key right"
  have m: "m \<noteq> []" "l < m" "u = [] \<or> m < u" using fen by (auto simp: fenced_def l_m_u_def)
  have cn: "b_count n \<le> 398" "b_count right \<le> 398" using layoutD(6) N by simp_all
  have pl: "prefixLen n = common_len l m" "prefixLen right = common_len m u"
    using layoutD(9) [OF N(1)] layoutD(9) [OF N(3)] fen(3) by (simp_all add: l_m_u_def)
  define tp where "tp = common_len l u"
  have tp: "tp \<le> prefixLen n" "tp \<le> prefixLen right"
  proof -
    have "tp \<le> common_len l m \<and> tp \<le> common_len m u"
    proof (cases "u = []")
      case True
      then have "tp = 0" using common_len_le(2) [of l u] by (simp add: tp_def)
      then show ?thesis by simp
    next
      case False
      then show ?thesis using squeeze(2,3) [of l m u] m by (auto simp: tp_def)
    qed
    then show "tp \<le> prefixLen n" "tp \<le> prefixLen right" by (simp_all add: pl)
  qed
  have rng: "in_range l u (fst e)" if "e \<in> set (entries n) \<union> set (entries right)" for e
    using that fen m by (intro in_range_join [of l m _ u]) (auto simp: fenced_def l_m_u_def)
  have small: "prefixLen n \<le> 4096" "prefixLen right \<le> 4096"
    using prefix_facts(1) [OF N(1)] prefix_facts(1) [OF N(3)] Fl(3) Fr(3) by simp_all
  define bound where "bound = spaceUsed n + spaceUsed right + slotsEnd (b_count n + b_count right) +
    (prefixLen n - tp) * b_count n + (prefixLen right - tp) * b_count right"
  have mb: "merge_bound n right = bound" by (simp add: bound_def merge_bound_def tp_def l_m_u_def)
  have "(prefixLen n - tp) * b_count n \<le> 4096 * 398" "(prefixLen right - tp) * b_count right \<le> 4096 * 398"
    using small cn by (intro mult_le_mono; simp)+
  then have big: "(prefixLen n - tp) * b_count n < 2 ^ 32" "(prefixLen right - tp) * b_count right < 2 ^ 32" "bound < 2 ^ 32"
    using P(3) Q(3) cn by (simp_all add: bound_def slotsEnd_def sizes)
  obtain t where t: "setFences l u (node_new True raw) = Ret t" "layout t" "entries t = []" "b_count t = 0" "low_key t = l" "upp_key t = u"
    "prefixLen t = tp" "isLeaf t" "dataOffset t + spaceUsed t = 4096" "spaceUsed t = length l + length u"
    using setFences_new [OF ok(5), of l u True] room by (auto simp: l_m_u_def tp_def)
  have ptl: "prefix t = take tp l" using prefix_facts(4) [OF t(2)] t(5,7) by simp
  have sub: "sub32 (prefixLen n) (prefixLen t) = prefixLen n - tp" "sub32 (prefixLen right) (prefixLen t) = prefixLen right - tp"
    using tp small t(7) by simp_all
  have sum: "(spaceUsed n + spaceUsed right + slotsEnd (b_count n + b_count right) + (sub32 (prefixLen n) (prefixLen t) * b_count n) mod 2 ^ 32 +
    (sub32 (prefixLen right) (prefixLen t) * b_count right) mod 2 ^ 32) mod 2 ^ 32 = bound"
    unfolding sub using big by (simp add: bound_def)
  show ?thesis
  proof (cases "bound > pageSize")
    case True
    then have "mergeNodes raw i n p right = Ret (False, n, p)"
      using leaf Fl(5) Fr(6) t(1) sum by (simp add: mergeNodes_def Let_def l_m_u_def)
    then show ?thesis using True mb by auto
  next
    case False
    let ?a = "entries_size tp (entries n)" and ?b = "entries_size tp (entries right)"
    have "?a \<le> entries_size (prefixLen n) (entries n) + (prefixLen n - tp) * b_count n"
      "?b \<le> entries_size (prefixLen right) (entries right) + (prefixLen right - tp) * b_count right"
      using entries_size_grow [of tp "entries n" "prefixLen n"] entries_size_grow [of tp "entries right" "prefixLen right"] by simp_all
    then have fit: "slotsEnd (b_count n + b_count right) + ?a + ?b \<le> dataOffset t"
      using False P(4) Q(4) t(9,10) Fl(1,2) Fr(1,2) by (simp add: bound_def l_m_u_def sizes)
    have pre: "take tp (fst e) = prefix t" if "e \<in> set (entries n) \<union> set (entries right)" for e
      using in_range_prefix [OF rng [OF that]] by (simp add: ptl tp_def)
    have "\<forall>e \<in> set (entries n). take (prefixLen t) (fst e) = prefix t" using pre t(7) by simp
    moreover have "slotsEnd (b_count t + b_count n) + entries_size (prefixLen t) (entries n) \<le> dataOffset t"
      using fit t(4,7) by (simp add: slotsEnd_def sizes)
    ultimately obtain t1 where t1: "copyKeyValueRange n 0 0 (b_count n) t = Ret t1" "layout t1" "same_frame t t1" "entries t1 = entries n"
      "b_count t1 = b_count n" "dataOffset t1 = dataOffset t - ?a"
      using copyRange_ok [OF N(1) t(2), of "entries n" "b_count n" 0] t(3,4,7) by auto
    have s1: "prefixLen t1 = tp" "prefix t1 = prefix t" "low_key t1 = l" "upp_key t1 = u" "isLeaf t1"
      using t1(3) t(5-8) by (simp_all add: same_frame_def)
    have "\<forall>e \<in> set (entries right). take (prefixLen t1) (fst e) = prefix t1" using pre s1 by simp
    moreover have "slotsEnd (b_count t1 + b_count right) + entries_size (prefixLen t1) (entries right) \<le> dataOffset t1"
      using fit t1(5,6) s1(1) by simp
    ultimately obtain t2 where t2: "copyKeyValueRange right (b_count n) 0 (b_count right) t1 = Ret t2" "layout t2" "same_frame t1 t2"
      "entries t2 = entries n @ entries right"
      using copyRange_ok [OF N(3) t1(2), of "entries right" "b_count right" 0] t1(4,5) by auto
    have s2: "low_key t2 = l" "upp_key t2 = u" "isLeaf t2" using t2(3) s1(3-5) by (simp_all add: same_frame_def)
    have "sorted (keys t2)"
    proof -
      have "\<forall>e \<in> set (entries n). fst e \<le> m" "\<forall>e \<in> set (entries right). m < fst e"
        using fen m by (auto simp: fenced_def in_range_def l_m_u_def)
      then have "a \<le> b" if "a \<in> set (keys n)" "b \<in> set (keys right)" for a b
      proof -
        have "a \<le> m" "m < b" using that \<open>\<forall>e \<in> set (entries n). fst e \<le> m\<close> \<open>\<forall>e \<in> set (entries right). m < fst e\<close> by auto
        then show ?thesis by (rule order.trans [OF _ less_imp_le])
      qed
      then show ?thesis using N(2,4) by (simp add: t2(4) sorted_append)
    qed
    from makeHint_ok [OF t2(2) this] obtain hs where
      h: "makeHint t2 = Ret (t2\<lparr>b_hint := hs\<rparr>)" "node_ok (t2\<lparr>b_hint := hs\<rparr>)" by blast
    define t3 where "t3 = t2\<lparr>b_hint := hs, b_link := b_link right\<rparr>"
    have t3: "node_ok t3" "entries t3 = entries n @ entries right" "low_key t3 = l" "upp_key t3 = u" "isLeaf t3" "b_link t3 = b_link right"
      using h(2) t2(4) s2 by (simp_all add: t3_def node_ok_def hinted_def)
    have i': "i + 1 < b_count p" "i < b_count p" using i(1) by simp_all
    obtain p1 where p1: "setChild (i + 1) (b_pid n) p = Ret p1" "node_ok p1" "same_frame p p1" "child_ok p1"
      "b_count p1 = b_count p" "keys p1 = keys p" "children p1 = (children p)[i + 1 := b_pid n]"
      using setChild_ok [OF ok(3,4) i'(1), of "b_pid n"] by blast
    obtain p2 where p2: "removeSlot i p1 = Ret p2" "node_ok p2" "child_ok p2" "same_frame p1 p2" "keys p2 = cut i (keys p1)"
      "children p2 = cut i (children p1)"
      using child_removeSlot_ok [OF p1(2,4)] i'(2) p1(5) by auto
    have chd: "children p2 = cut (i + 1) (children p)"
      using cut_update [of i "children p" "b_pid n"] i by (simp add: p2(6) p1(7))
    have "mergeNodes raw i n p right = Ret (True, copyNode n t3, p2)"
      using False leaf Fl(5) Fr(6) t(1) sum t1(1) t2(1) p1(1) p2(1) h(1) by (simp add: mergeNodes_def Let_def l_m_u_def t3_def)
    moreover have "merge_result n right (copyNode n t3)"
    proof -
      have "u = [] \<or> l < u" using m by (auto intro: less_trans)
      then have "fenced (copyNode n t3)" using rng t3 by (auto simp: fenced_def)
      then show ?thesis using t3 by (simp add: merge_result_def copyNode_ok l_m_u_def)
    qed
    moreover have "same_frame p p2" using same_frame_trans p1(3) p2(4) .
    ultimately show ?thesis using p2 p1(6) chd False mb by (intro exI [of _ True] exI [of _ "copyNode n t3"] exI [of _ p2]) simp
  qed
qed

end
