(* ===== verification/Btree_Tree.thy ===== *)
theory Btree_Tree
  imports Btree_Split
begin

text \<open>
  The B-tree (\<open>BTree\<close> in \<open>btree.hpp\<close> and \<open>btree.cpp\<close>) over pages that hold nodes. An operation
  runs without interference: a guard of a page gives its content, \<open>GuardX\<close> also marks the
  page dirty, and no optimistic read is restarted. What the pool does for it (the page a guard
  names is the page with that id, \<open>allocPage\<close> gives the next id) is shown with the pool. A node
  that the source names by the address of its frame is named by its page id. Loops that depend on
  the links of the pages have fuel.
\<close>

section \<open>State\<close>

text \<open>
  \<open>t_node\<close> is the content of every page, read as a node, also that of pages not in use;
  \<open>t_roots\<close> the array of the metadata page, \<open>t_alloc\<close> the number of pages allocated, \<open>t_slots\<close>
  the counter \<open>btreeslotcounter\<close>, and \<open>t_tmp\<close> the memory of the nodes on the stack.
\<close>

record pages =
  t_node :: "PID \<Rightarrow> bnode"
  t_roots :: "PID list"
  t_alloc :: nat
  t_slots :: nat
  t_tmp :: bnode

definition metadataPageId :: PID where "metadataPageId = 0"

definition t_put :: "PID \<Rightarrow> bnode \<Rightarrow> pages \<Rightarrow> pages" where
  "t_put p n s = s\<lparr>t_node := (t_node s)(p := n)\<rparr>"

text \<open>The exclusive lock of a page (\<open>GuardX\<close>).\<close>

definition t_lock :: "PID \<Rightarrow> pages \<Rightarrow> pages" where
  "t_lock p s = t_put p ((t_node s p)\<lparr>b_dirty := True\<rparr>) s"

text \<open>
  \<open>allocPage\<close> as a guard uses it: the id of the new page and its memory. The last id is \<open>noNeighbour\<close>.
\<close>

definition t_fresh :: "pages \<Rightarrow> (PID \<times> bnode \<times> pages) run" where
  "t_fresh s =
     (let pid = of_nat (t_alloc s) in
      if t_alloc s < 2 ^ 64 - 1
      then Ret (pid, (t_node s pid)\<lparr>b_dirty := True, b_pid := pid\<rparr>, s\<lparr>t_alloc := t_alloc s + 1\<rparr>)
      else Err (Fatal ''no page id''))"

text \<open>\<open>AllocGuard<BTreeNode>(leaf)\<close>.\<close>

definition t_new :: "bool \<Rightarrow> pages \<Rightarrow> (PID \<times> pages) run" where
  "t_new leaf s = bind_run (t_fresh s) (\<lambda>(pid, page, s). Ret (pid, t_put pid (node_new leaf page) s))"

definition getRoot :: "nat \<Rightarrow> pages \<Rightarrow> PID run" where
  "getRoot slot s = aget (t_roots s) slot"

definition setRoot :: "nat \<Rightarrow> PID \<Rightarrow> pages \<Rightarrow> pages run" where
  "setRoot slot p s = bind_run (aset (t_roots s) slot p) (\<lambda>rs. Ret (s\<lparr>t_roots := rs\<rparr>))"

text \<open>The constructor of \<open>BTree\<close>: the slot of the new tree.\<close>

definition BTree_new :: "pages \<Rightarrow> (nat \<times> pages) run" where
  "BTree_new s =
     bind_run (t_new True (t_lock metadataPageId s)) (\<lambda>(root, s).
     let slot = t_slots s; s = s\<lparr>t_slots := (t_slots s + 1) mod 2 ^ 32\<rparr> in
     bind_run (setRoot slot root s) (\<lambda>s. Ret (slot, s)))"

section \<open>Searching\<close>

fun descend :: "nat \<Rightarrow> u8 list \<Rightarrow> (PID \<Rightarrow> bnode) \<Rightarrow> PID \<Rightarrow> PID run" where
  "descend 0 key N p = Loop"
| "descend (Suc fuel) key N p =
     (if isLeaf (N p) then Ret p else bind_run (lookupInner key (N p)) (descend fuel key N))"

text \<open>The leaf is returned under an optimistic guard or locked shared, which is the same for one thread.\<close>

definition findLeaf :: "nat \<Rightarrow> nat \<Rightarrow> u8 list \<Rightarrow> pages \<Rightarrow> PID run" where
  "findLeaf fuel slot key s = bind_run (getRoot slot s) (descend fuel key (t_node s))"

definition findLeafS :: "nat \<Rightarrow> nat \<Rightarrow> u8 list \<Rightarrow> pages \<Rightarrow> PID run" where
  "findLeafS fuel slot key s = bind_run (getRoot slot s) (descend fuel key (t_node s))"

lemma findLeafS_same [simp]: "findLeafS = findLeaf"
  by (simp add: fun_eq_iff findLeafS_def findLeaf_def)

text \<open>The point lookup: the length of the payload or -1, and the bytes copied out.\<close>

definition lookup :: "nat \<Rightarrow> nat \<Rightarrow> u8 list \<Rightarrow> nat \<Rightarrow> pages \<Rightarrow> (int \<times> u8 list) run" where
  "lookup fuel slot key payloadOutSize s =
     bind_run (findLeaf fuel slot key s) (\<lambda>p.
     bind_run (lowerBound key (t_node s p)) (\<lambda>(pos, found).
     if \<not> found then Ret (- 1, [])
     else bind_run (getPayload (t_node s p) pos) (\<lambda>payload.
       Ret (int (length payload), take (min (length payload) payloadOutSize) payload))))"

text \<open>The lookup with a function: what the function is called with.\<close>

definition lookup_fn :: "nat \<Rightarrow> nat \<Rightarrow> u8 list \<Rightarrow> pages \<Rightarrow> u8 list option run" where
  "lookup_fn fuel slot key s =
     bind_run (findLeaf fuel slot key s) (\<lambda>p.
     bind_run (lowerBound key (t_node s p)) (\<lambda>(pos, found).
     if \<not> found then Ret None else bind_run (getPayload (t_node s p) pos) (\<lambda>payload. Ret (Some payload))))"

text \<open>The function gets the bytes of the payload and overwrites them in place.\<close>

definition updateInPlace :: "nat \<Rightarrow> nat \<Rightarrow> u8 list \<Rightarrow> (u8 list \<Rightarrow> u8 list) \<Rightarrow> pages \<Rightarrow> (bool \<times> pages) run" where
  "updateInPlace fuel slot key fn s =
     bind_run (findLeaf fuel slot key s) (\<lambda>p.
     bind_run (lowerBound key (t_node s p)) (\<lambda>(pos, found).
     if \<not> found then Ret (False, s)
     else
       let s = t_lock p s; n = t_node s p in
       bind_run (getPayload n pos) (\<lambda>payload.
       bind_run (aget (b_slot n) pos) (\<lambda>sl.
       bind_run (mem_put (s_offset sl + s_keyLen sl) (fn payload) n) (\<lambda>n. Ret (True, t_put p n s))))))"

text \<open>
  The scans call \<open>fn\<close> with a node and a slot; it updates a state of its own and tells whether to go on.
\<close>

fun scan_asc :: "nat \<Rightarrow> (bnode \<Rightarrow> nat \<Rightarrow> 'a \<Rightarrow> bool \<times> 'a) \<Rightarrow> (PID \<Rightarrow> bnode) \<Rightarrow> PID \<Rightarrow> nat \<Rightarrow> 'a \<Rightarrow> 'a run" where
  "scan_asc 0 fn N p pos a = Loop"
| "scan_asc (Suc fuel) fn N p pos a =
     (if pos < b_count (N p) then
        (let (go, a) = fn (N p) pos a in if \<not> go then Ret a else scan_asc fuel fn N p (pos + 1) a)
      else if \<not> hasRightNeighbour (N p) then Ret a
      else scan_asc fuel fn N (b_link (N p)) 0 a)"

definition scanAsc :: "nat \<Rightarrow> nat \<Rightarrow> u8 list \<Rightarrow> (bnode \<Rightarrow> nat \<Rightarrow> 'a \<Rightarrow> bool \<times> 'a) \<Rightarrow> pages \<Rightarrow> 'a \<Rightarrow> 'a run" where
  "scanAsc fuel slot key fn s a =
     bind_run (findLeafS fuel slot key s) (\<lambda>p.
     bind_run (lowerBound key (t_node s p)) (\<lambda>(pos, _). scan_asc fuel fn (t_node s) p pos a))"

text \<open>The inner loop of \<open>scanDesc\<close>, from the slot before \<open>n\<close> down to the first.\<close>

fun desc_node :: "(bnode \<Rightarrow> nat \<Rightarrow> bool \<Rightarrow> 'a \<Rightarrow> bool \<times> 'a) \<Rightarrow> bnode \<Rightarrow> bool \<Rightarrow> nat \<Rightarrow> 'a \<Rightarrow> bool \<times> 'a" where
  "desc_node fn n exactMatch 0 a = (True, a)"
| "desc_node fn n exactMatch (Suc pos) a =
     (let (go, a) = fn n pos exactMatch a in if \<not> go then (False, a) else desc_node fn n exactMatch pos a)"

fun scan_desc :: "nat \<Rightarrow> nat \<Rightarrow> (bnode \<Rightarrow> nat \<Rightarrow> bool \<Rightarrow> 'a \<Rightarrow> bool \<times> 'a) \<Rightarrow> pages \<Rightarrow> bool \<Rightarrow> PID \<Rightarrow> nat \<Rightarrow> 'a \<Rightarrow> 'a run" where
  "scan_desc 0 slot fn s exactMatch p n a = Loop"
| "scan_desc (Suc fuel) slot fn s exactMatch p n a =
     (let (go, a) = desc_node fn (t_node s p) exactMatch n a in
      if \<not> go then Ret a
      else if \<not> hasLowerFence (t_node s p) then Ret a
      else bind_run (getLowerFence (t_node s p)) (\<lambda>key.
        bind_run (findLeafS (Suc fuel) slot key s) (\<lambda>p. scan_desc fuel slot fn s exactMatch p (b_count (t_node s p)) a)))"

definition scanDesc :: "nat \<Rightarrow> nat \<Rightarrow> u8 list \<Rightarrow> (bnode \<Rightarrow> nat \<Rightarrow> bool \<Rightarrow> 'a \<Rightarrow> bool \<times> 'a) \<Rightarrow> pages \<Rightarrow> 'a \<Rightarrow> 'a run" where
  "scanDesc fuel slot key fn s a =
     bind_run (findLeafS fuel slot key s) (\<lambda>p.
     bind_run (lowerBound key (t_node s p)) (\<lambda>(pos, exactMatch).
     if pos = b_count (t_node s p) then scan_desc fuel slot fn s True p pos a
     else scan_desc fuel slot fn s exactMatch p (pos + 1) a))"

section \<open>Insertion\<close>

text \<open>The way down from a node to the leaf for a key, or to the node \<open>stop\<close>: the last parent and the node.\<close>

fun walk :: "nat \<Rightarrow> (PID \<Rightarrow> bool) \<Rightarrow> u8 list \<Rightarrow> (PID \<Rightarrow> bnode) \<Rightarrow> PID \<Rightarrow> PID \<Rightarrow> (PID \<times> PID) run" where
  "walk 0 stop key N parent p = Loop"
| "walk (Suc fuel) stop key N parent p =
     (if \<not> isLeaf (N p) \<and> \<not> stop p then bind_run (lookupInner key (N p)) (walk fuel stop key N p)
      else Ret (parent, p))"

text \<open>The new root above the node \<open>p\<close>, which gets the other half later.\<close>

definition grow_root :: "nat \<Rightarrow> PID \<Rightarrow> pages \<Rightarrow> (PID \<times> pages) run" where
  "grow_root slot p s = bind_run (t_new False s) (\<lambda>(newRoot, s).
     let s = t_put newRoot ((t_node s newRoot)\<lparr>b_link := p\<rparr>) s in
     bind_run (setRoot slot newRoot s) (\<lambda>s. Ret (newRoot, s)))"

fun trySplit :: "nat \<Rightarrow> nat \<Rightarrow> bool \<Rightarrow> PID \<Rightarrow> PID \<Rightarrow> pages \<Rightarrow> pages run"
  and ensureSpace :: "nat \<Rightarrow> nat \<Rightarrow> bool \<Rightarrow> PID \<Rightarrow> u8 list \<Rightarrow> nat \<Rightarrow> pages \<Rightarrow> pages run" where
  "trySplit 0 slot splitOrdered p parent s = Loop"
| "trySplit (Suc fuel) slot splitOrdered p parent s =
     bind_run (if parent = metadataPageId then grow_root slot p s else Ret (parent, s)) (\<lambda>(parent, s).
     bind_run (findSeparator splitOrdered (t_node s p)) (\<lambda>sepInfo.
     bind_run (getSep sepInfo (t_node s p)) (\<lambda>sepKey.
     if hasSpaceFor (t_node s parent) (sep_len sepInfo) 8 then
       bind_run (t_fresh s) (\<lambda>(new, page, s).
       bind_run (splitNode (t_tmp s) page (sep_slot sepInfo) sepKey (t_node s p) (t_node s parent)) (\<lambda>(left, right, par).
       Ret (t_put parent par (t_put new right (t_put p left s)))))
     else ensureSpace fuel slot splitOrdered parent sepKey 8 s)))"
| "ensureSpace 0 slot splitOrdered toSplit key payloadLen s = Loop"
| "ensureSpace (Suc fuel) slot splitOrdered toSplit key payloadLen s =
     bind_run (getRoot slot s) (\<lambda>root.
     bind_run (walk (Suc fuel) (\<lambda>p. p = toSplit) key (t_node s) metadataPageId root) (\<lambda>(parent, p).
     if p = toSplit then
       if hasSpaceFor (t_node s p) (length key) payloadLen then Ret s
       else trySplit fuel slot splitOrdered p parent (t_lock p (t_lock parent s))
     else Ret s))"

fun insert_loop :: "nat \<Rightarrow> nat \<Rightarrow> bool \<Rightarrow> u8 list \<Rightarrow> u8 list \<Rightarrow> pages \<Rightarrow> pages run" where
  "insert_loop 0 slot splitOrdered key payload s = Loop"
| "insert_loop (Suc fuel) slot splitOrdered key payload s =
     bind_run (getRoot slot s) (\<lambda>root.
     bind_run (walk (Suc fuel) (\<lambda>_. False) key (t_node s) metadataPageId root) (\<lambda>(parent, p).
     if hasSpaceFor (t_node s p) (length key) (length payload) then
       let s = t_lock p s in
       bind_run (insertInPage (t_tmp s) key payload (t_node s p)) (\<lambda>n. Ret (t_put p n s))
     else
       bind_run (trySplit (Suc fuel) slot splitOrdered p parent (t_lock parent (t_lock p s)))
         (insert_loop fuel slot splitOrdered key payload)))"

definition bt_insert :: "nat \<Rightarrow> nat \<Rightarrow> bool \<Rightarrow> u8 list \<Rightarrow> u8 list \<Rightarrow> pages \<Rightarrow> pages run" where
  "bt_insert fuel slot splitOrdered key payload s =
     check (length key + length payload \<le> maxKVSize) ''(key.size() + payload.size()) <= BTreeNode::maxKVSize''
       (insert_loop fuel slot splitOrdered key payload s)"

section \<open>Removal\<close>

text \<open>The way down to the leaf for a key: its parent, its position there and the leaf.\<close>

fun walk_pos :: "nat \<Rightarrow> u8 list \<Rightarrow> (PID \<Rightarrow> bnode) \<Rightarrow> PID \<Rightarrow> nat \<Rightarrow> PID \<Rightarrow> (PID \<times> nat \<times> PID) run" where
  "walk_pos 0 key N parent pos p = Loop"
| "walk_pos (Suc fuel) key N parent pos p =
     (if isLeaf (N p) then Ret (parent, pos, p)
      else bind_run (lowerBound key (N p)) (\<lambda>(pos, _).
        bind_run (if pos = b_count (N p) then Ret (b_link (N p)) else getChild (N p) pos) (walk_pos fuel key N p pos)))"

text \<open>\<open>pos\<close> has no value at first; it is only read below the root.\<close>

definition bt_remove :: "nat \<Rightarrow> nat \<Rightarrow> u8 list \<Rightarrow> pages \<Rightarrow> (bool \<times> pages) run" where
  "bt_remove fuel slot key s =
     bind_run (getRoot slot s) (\<lambda>root.
     bind_run (walk_pos fuel key (t_node s) metadataPageId 0 root) (\<lambda>(parent, pos, p).
     let n = t_node s p; par = t_node s parent in
     bind_run (lowerBound key n) (\<lambda>(slotId, found).
     if \<not> found then Ret (False, s)
     else
       bind_run (aget (b_slot n) slotId) (\<lambda>sl.
       if add32 (freeSpaceAfterCompaction n) (s_keyLen sl + s_payloadLen sl) \<ge> underFullSize \<and> parent \<noteq> metadataPageId \<and>
          b_count par \<ge> 2 \<and> pos + 1 < b_count par
       then
         let s = t_lock p (t_lock parent s) in
         bind_run (getChild (t_node s parent) (pos + 1)) (\<lambda>right.
         let s = t_lock right s in
         bind_run (removeSlot slotId (t_node s p)) (\<lambda>n.
         if freeSpaceAfterCompaction (t_node s right) \<ge> sub32 pageSize underFullSize then
           bind_run (mergeNodes (t_tmp s) pos n (t_node s parent) (t_node s right)) (\<lambda>(_, n, par).
           Ret (True, t_put parent par (t_put p n s)))
         else Ret (True, t_put p n s)))
       else
         let s = t_lock p s in
         bind_run (removeSlot slotId (t_node s p)) (\<lambda>n. Ret (True, t_put p n s))))))"

end
