(* ===== verification/Btree_Shape.thy ===== *)
theory Btree_Shape
  imports Btree_Tree
begin

text \<open>
  The invariant of a B-tree: every node is well-formed and lies between two fences, the children
  of an inner node divide its range at its keys, and all leaves have the same depth. The leaves
  from left to right hold the content of the tree.
\<close>

section \<open>The children and their ranges\<close>

type_synonym kid = "PID \<times> u8 list \<times> u8 list"

fun ranges :: "PID list \<Rightarrow> u8 list \<Rightarrow> u8 list list \<Rightarrow> u8 list \<Rightarrow> kid list" where
  "ranges (c # cs) l (k # ks) u = (c, l, k) # ranges cs k ks u"
| "ranges (c # cs) l [] u = [(c, l, u)]"
| "ranges [] l ks u = []"

lemma ranges_length: "length cs = length ks + 1 \<Longrightarrow> length (ranges cs l ks u) = length cs"
  by (induction cs l ks u rule: ranges.induct) auto

lemma ranges_fst: "length cs = length ks + 1 \<Longrightarrow> map fst (ranges cs l ks u) = cs"
  by (induction cs l ks u rule: ranges.induct) auto

lemma ranges_nth:
  "length cs = length ks + 1 \<Longrightarrow> j \<le> length ks \<Longrightarrow> ranges cs l ks u ! j = (cs ! j, (l # ks) ! j, (ks @ [u]) ! j)"
  by (induction cs l ks u arbitrary: j rule: ranges.induct) (auto simp: nth_Cons split: nat.splits)

text \<open>Splitting a child, and merging two.\<close>

lemma ranges_put:
  assumes "length cs = length ks + 1" and "j \<le> length ks" and "ranges cs l ks u ! j = (c, lo, hi)"
  shows "ranges (put j a (cs[j := b])) l (put j k ks) u =
    take j (ranges cs l ks u) @ (a, lo, k) # (b, k, hi) # drop (Suc j) (ranges cs l ks u)"
  using assms
proof (induction cs l ks u arbitrary: j rule: ranges.induct)
  case (1 c cs l k' ks u)
  then show ?case by (cases j) (simp_all add: put_def)
next
  case (2 c cs l u)
  then show ?case by (simp add: put_def)
qed simp

lemma ranges_cut:
  assumes "length cs = length ks + 1" and "Suc j < length cs" and "ranges cs l ks u ! j = (c, lo, m)" "ranges cs l ks u ! Suc j = (c', m', hi)"
  shows "ranges (cut (Suc j) cs) l (cut j ks) u = take j (ranges cs l ks u) @ (c, lo, hi) # drop (Suc (Suc j)) (ranges cs l ks u)"
    and "m' = m"
proof -
  have "ranges (cut (Suc j) cs) l (cut j ks) u = take j (ranges cs l ks u) @ (c, lo, hi) # drop (Suc (Suc j)) (ranges cs l ks u) \<and> m' = m"
    using assms
  proof (induction cs l ks u arbitrary: j rule: ranges.induct)
    case (1 c0 cs l k' ks u)
    show ?case
    proof (cases j)
      case 0
      then show ?thesis using 1 by (cases cs; cases ks) (auto simp: cut_def)
    next
      case (Suc i)
      then show ?thesis using 1 by (simp add: cut_def)
    qed
  qed auto
  then show "ranges (cut (Suc j) cs) l (cut j ks) u = take j (ranges cs l ks u) @ (c, lo, hi) # drop (Suc (Suc j)) (ranges cs l ks u)"
    "m' = m" by simp_all
qed

section \<open>The invariant\<close>

definition pair_ok :: "u8 list \<times> u8 list \<Rightarrow> bool" where
  "pair_ok e \<longleftrightarrow> length (fst e) + length (snd e) \<le> maxKVSize"

definition node_at :: "PID \<Rightarrow> u8 list \<Rightarrow> u8 list \<Rightarrow> bnode \<Rightarrow> bool" where
  "node_at p l u n \<longleftrightarrow> node_ok n \<and> fenced n \<and> distinct (keys n) \<and> b_pid n = p \<and> low_key n = l \<and> upp_key n = u"

definition leaf_ok :: "PID \<Rightarrow> u8 list \<Rightarrow> u8 list \<Rightarrow> bnode \<Rightarrow> bool" where
  "leaf_ok p l u n \<longleftrightarrow> node_at p l u n \<and> isLeaf n \<and> (\<forall>e \<in> set (entries n). pair_ok e)"

definition inner_ok :: "PID \<Rightarrow> u8 list \<Rightarrow> u8 list \<Rightarrow> bnode \<Rightarrow> bool" where
  "inner_ok p l u n \<longleftrightarrow> node_at p l u n \<and> \<not> isLeaf n \<and> child_ok n \<and> (\<forall>k \<in> set (keys n). k \<noteq> [] \<and> length k \<le> maxKVSize)"

definition kids :: "bnode \<Rightarrow> u8 list \<Rightarrow> u8 list \<Rightarrow> kid list" where
  "kids n l u = ranges (children n) l (keys n) u"

fun tree :: "(PID \<Rightarrow> bnode) \<Rightarrow> nat \<Rightarrow> PID \<Rightarrow> u8 list \<Rightarrow> u8 list \<Rightarrow> bool" where
  "tree N 0 p l u \<longleftrightarrow> leaf_ok p l u (N p)"
| "tree N (Suc h) p l u \<longleftrightarrow> inner_ok p l u (N p) \<and> (\<forall>(c, lo, hi) \<in> set (kids (N p) l u). tree N h c lo hi)"

fun leaves :: "(PID \<Rightarrow> bnode) \<Rightarrow> nat \<Rightarrow> PID \<Rightarrow> PID list" where
  "leaves N 0 p = [p]"
| "leaves N (Suc h) p = concat (map (leaves N h) (children (N p)))"

fun nodes :: "(PID \<Rightarrow> bnode) \<Rightarrow> nat \<Rightarrow> PID \<Rightarrow> PID list" where
  "nodes N 0 p = [p]"
| "nodes N (Suc h) p = p # concat (map (nodes N h) (children (N p)))"

abbreviation contents_of :: "(PID \<Rightarrow> bnode) \<Rightarrow> PID list \<Rightarrow> (u8 list \<times> u8 list) list" where
  "contents_of N qs \<equiv> concat (map (\<lambda>q. entries (N q)) qs)"

definition contents :: "(PID \<Rightarrow> bnode) \<Rightarrow> nat \<Rightarrow> PID \<Rightarrow> (u8 list \<times> u8 list) list" where
  "contents N h p = contents_of N (leaves N h p)"

lemma kids_length [simp]: "length (kids n l u) = b_count n + 1"
  by (simp add: kids_def ranges_length)

lemma kids_fst [simp]: "map fst (kids n l u) = children n"
  by (simp add: kids_def ranges_fst)

lemma kids_nth: "j \<le> b_count n \<Longrightarrow> kids n l u ! j = (children n ! j, (l # keys n) ! j, (keys n @ [u]) ! j)"
  by (simp add: kids_def ranges_nth)

text \<open>Both lists are built from the children, so they can be split where the children are split.\<close>

lemma leaves_kids: "leaves N (Suc h) p = concat (map (\<lambda>k. leaves N h (fst k)) (kids (N p) l u))"
proof -
  have "map (\<lambda>k. leaves N h (fst k)) (kids (N p) l u) = map (leaves N h) (map fst (kids (N p) l u))" by (simp only: map_map comp_def)
  then show ?thesis by (simp only: kids_fst leaves.simps)
qed

lemma nodes_kids: "nodes N (Suc h) p = p # concat (map (\<lambda>k. nodes N h (fst k)) (kids (N p) l u))"
proof -
  have "map (\<lambda>k. nodes N h (fst k)) (kids (N p) l u) = map (nodes N h) (map fst (kids (N p) l u))" by (simp only: map_map comp_def)
  then show ?thesis by (simp only: kids_fst nodes.simps)
qed

lemma leaves_nodes: "set (leaves N h p) \<subseteq> set (nodes N h p)"
  by (induction h arbitrary: p) auto

lemma root_node [simp]: "p \<in> set (nodes N h p)"
  by (cases h) simp_all

text \<open>What a subtree is depends on its own pages only.\<close>

lemma subtree_frame:
  assumes "\<And>q. q \<in> set (nodes N h p) \<Longrightarrow> N' q = N q"
  shows "tree N' h p l u = tree N h p l u" "leaves N' h p = leaves N h p" "nodes N' h p = nodes N h p"
proof -
  have "(\<forall>l u. tree N' h p l u = tree N h p l u) \<and> leaves N' h p = leaves N h p \<and> nodes N' h p = nodes N h p"
    using assms
  proof (induction h arbitrary: p)
    case (Suc h)
    have p: "N' p = N p" using Suc.prems by simp
    have c: "(\<forall>l u. tree N' h c l u = tree N h c l u) \<and> leaves N' h c = leaves N h c \<and> nodes N' h c = nodes N h c"
      if "c \<in> set (children (N p))" for c
      using that by (intro Suc.IH Suc.prems) auto
    have "tree N' (Suc h) p l u = tree N (Suc h) p l u" for l u
    proof -
      have "tree N' h (fst k) lo hi = tree N h (fst k) lo hi" if "k \<in> set (kids (N p) l u)" for k lo hi
      proof -
        have "fst k \<in> set (map fst (kids (N p) l u))" unfolding set_map using that by (rule imageI)
        then show ?thesis using c by (simp only: kids_fst)
      qed
      then show ?thesis by (auto simp: p)
    qed
    moreover have "map (leaves N' h) (children (N p)) = map (leaves N h) (children (N p))"
      "map (nodes N' h) (children (N p)) = map (nodes N h) (children (N p))" using c by simp_all
    ultimately show ?case by (simp only: leaves.simps nodes.simps p) simp
  qed simp
  then show "tree N' h p l u = tree N h p l u" "leaves N' h p = leaves N h p" "nodes N' h p = nodes N h p" by blast+
qed

section \<open>The order of the content\<close>

lemma in_range_outer:
  assumes "in_range l u lo \<or> lo = l" and "in_range l u hi \<or> hi = u" and "hi = [] \<longrightarrow> u = []" and "lo = [] \<longrightarrow> l = []" and "in_range lo hi k"
  shows "in_range l u k"
  using assms unfolding in_range_def by (auto intro: order.strict_trans order.trans order.strict_trans1)

lemma kid_range:
  assumes n: "inner_ok p l u n" and k: "(c, lo, hi) \<in> set (kids n l u)" and r: "in_range lo hi key"
  shows "in_range l u key"
proof -
  obtain j where j: "j \<le> b_count n" "kids n l u ! j = (c, lo, hi)" using k by (auto simp: in_set_conv_nth less_Suc_eq_le)
  have b: "lo = (l # keys n) ! j" "hi = (keys n @ [u]) ! j" using j kids_nth [OF j(1)] by simp_all
  have key: "in_range l u (keys n ! i)" "keys n ! i \<noteq> []" if "i < b_count n" for i
  proof -
    have "keys n ! i \<in> set (keys n)" using that by (intro nth_mem) simp
    then show "in_range l u (keys n ! i)" "keys n ! i \<noteq> []"
      using n by (auto simp: inner_ok_def node_at_def fenced_def)
  qed
  have "(in_range l u lo \<and> lo \<noteq> []) \<or> lo = l" using key [of "j - 1"] j(1) b(1) by (cases j) (auto simp del: nth_map)
  moreover have "(in_range l u hi \<and> hi \<noteq> []) \<or> hi = u"
  proof (cases "j < b_count n")
    case True
    then have "hi = keys n ! j" using b(2) by (simp add: nth_append del: nth_map)
    then show ?thesis using key [OF True] by (simp del: nth_map)
  next
    case False
    then have "hi = u" using b(2) j(1) by (simp add: nth_append)
    then show ?thesis by simp
  qed
  ultimately show ?thesis using in_range_outer [of l u lo hi key] r by blast
qed

lemma contents_in_range: "tree N h p l u \<Longrightarrow> e \<in> set (contents N h p) \<Longrightarrow> in_range l u (fst e)"
proof (induction h arbitrary: p l u)
  case 0
  then show ?case by (auto simp: contents_def leaf_ok_def node_at_def fenced_def)
next
  case (Suc h)
  have t: "inner_ok p l u (N p)" "\<forall>(c, lo, hi) \<in> set (kids (N p) l u). tree N h c lo hi" using Suc.prems(1) by simp_all
  have "e \<in> set (contents_of N (concat (map (\<lambda>k. leaves N h (fst k)) (kids (N p) l u))))"
    using Suc.prems(2) unfolding contents_def by (simp only: leaves_kids [of N h p l u])
  then obtain c lo hi where k: "(c, lo, hi) \<in> set (kids (N p) l u)" "e \<in> set (contents N h c)"
    by (fastforce simp: contents_def)
  then have "tree N h c lo hi" using t(2) by blast
  then show ?case using Suc.IH [OF _ k(2)] kid_range [OF t(1) k(1)] by blast
qed

definition before :: "kid \<Rightarrow> kid \<Rightarrow> bool" where
  "before a b \<longleftrightarrow> snd (snd a) \<noteq> [] \<and> fst (snd b) \<noteq> [] \<and> snd (snd a) \<le> fst (snd b)"

lemma kids_sorted:
  assumes "inner_ok p l u n"
  shows "sorted_wrt before (kids n l u)"
  unfolding sorted_wrt_iff_nth_less
proof (intro allI impI)
  fix i j assume ij: "i < j" "j < length (kids n l u)"
  then have b: "i < b_count n" "j - 1 < b_count n" "j \<le> b_count n" by simp_all
  have "snd (snd (kids n l u ! i)) = keys n ! i" using kids_nth [of i n l u] b(1) by (simp add: nth_append del: nth_map)
  moreover have "fst (snd (kids n l u ! j)) = keys n ! (j - 1)" using kids_nth [OF b(3)] ij(1) by (simp add: nth_Cons' del: nth_map)
  moreover have "keys n ! i \<le> keys n ! (j - 1)"
    by (rule sorted_nth_mono) (use assms ij(1) b(2) in \<open>simp_all add: inner_ok_def node_at_def node_ok_def\<close>)
  moreover have "keys n ! i \<in> set (keys n)" "keys n ! (j - 1) \<in> set (keys n)" using b(1,2) by (intro nth_mem; simp)+
  then have "keys n ! i \<noteq> []" "keys n ! (j - 1) \<noteq> []" using assms by (auto simp: inner_ok_def)
  ultimately show "before (kids n l u ! i) (kids n l u ! j)" by (simp add: before_def del: nth_map)
qed

lemma before_less: "before a b \<Longrightarrow> in_range lo (snd (snd a)) x \<Longrightarrow> in_range (fst (snd b)) hi y \<Longrightarrow> x < y"
  unfolding before_def in_range_def by (auto intro: order.strict_trans1)

lemma sorted_wrt_concat:
  "sorted_wrt R (concat xss) \<longleftrightarrow> (\<forall>xs \<in> set xss. sorted_wrt R xs) \<and> sorted_wrt (\<lambda>xs ys. \<forall>x \<in> set xs. \<forall>y \<in> set ys. R x y) xss"
  by (induction xss) (auto simp: sorted_wrt_append)

lemma concat_flat: "concat (concat yss) = concat (map concat yss)"
  by (induction yss) simp_all

lemma contents_kids: "contents N (Suc h) p = concat (map (\<lambda>k. contents N h (fst k)) (kids (N p) l u))"
  unfolding contents_def leaves_kids [of N h p l u] by (simp only: map_concat concat_flat map_map comp_def)

lemma contents_sorted: "tree N h p l u \<Longrightarrow> sorted_wrt (\<lambda>a b. fst a < fst b) (contents N h p)"
proof (induction h arbitrary: p l u)
  case 0
  then have n: "sorted (keys (N p))" "distinct (keys (N p))" by (simp_all add: leaf_ok_def node_at_def node_ok_def)
  then have "sorted_wrt (<) (keys (N p))" by (simp add: strict_sorted_iff)
  then show ?case by (simp add: contents_def sorted_wrt_map)
next
  case (Suc h)
  let ?K = "kids (N p) l u"
  have t: "inner_ok p l u (N p)" "\<forall>(c, lo, hi) \<in> set ?K. tree N h c lo hi" using Suc.prems by simp_all
  have "sorted_wrt (\<lambda>a b. fst a < fst b) (contents N h (fst k))" if "k \<in> set ?K" for k
    using Suc.IH t(2) that by fastforce
  moreover have "fst x < fst y" if ab: "before a b" "a \<in> set ?K" "b \<in> set ?K" and xy: "x \<in> set (contents N h (fst a))" "y \<in> set (contents N h (fst b))"
    for a b x y
  proof -
    have "tree N h (fst a) (fst (snd a)) (snd (snd a))" "tree N h (fst b) (fst (snd b)) (snd (snd b))" using t(2) ab(2,3) by auto
    then show ?thesis using before_less [OF ab(1)] contents_in_range xy by blast
  qed
  then have "sorted_wrt (\<lambda>a b. \<forall>x \<in> set (contents N h (fst a)). \<forall>y \<in> set (contents N h (fst b)). fst x < fst y) ?K"
    using kids_sorted [OF t(1)] by (auto intro: sorted_wrt_mono_rel [rotated])
  ultimately show ?case unfolding contents_kids [of N h p l u] sorted_wrt_concat by (simp add: sorted_wrt_map)
qed

section \<open>The child for a key\<close>

lemma kid_for:
  assumes n: "inner_ok p l u n" and loc: "located (keys n) key j f" and r: "in_range l u key"
  shows "\<exists>lo hi. j \<le> b_count n \<and> kids n l u ! j = (children n ! j, lo, hi) \<and> in_range lo hi key"
proof -
  have jc: "j \<le> b_count n" using loc by (simp add: located_def)
  have srt: "sorted_wrt (<) (keys n)" using n by (simp add: inner_ok_def node_at_def node_ok_def strict_sorted_iff)
  have "in_range ((l # keys n) ! j) u key \<and> in_range l ((keys n @ [u]) ! j) key"
  proof
    show "in_range ((l # keys n) ! j) u key"
    proof (cases j)
      case (Suc i)
      have i: "i < b_count n" using jc Suc by simp
      have "keys n ! i < key"
      proof (cases f)
        case True
        then have "j < b_count n" "keys n ! j = key" using loc by (auto simp: located_def)
        then show ?thesis using sorted_wrt_nth_less [OF srt, of i j] Suc by simp
      next
        case False
        then have "\<forall>i < j. keys n ! i < key" using loc by (simp add: located_def del: nth_map)
        then show ?thesis using Suc by (simp del: nth_map)
      qed
      then show ?thesis using r Suc by (simp add: in_range_def del: nth_map)
    qed (use r in simp)
    show "in_range l ((keys n @ [u]) ! j) key"
    proof (cases "j < b_count n")
      case True
      have "key \<le> keys n ! j"
      proof (cases f)
        case False
        then have "\<forall>i. j \<le> i \<and> i < length (keys n) \<longrightarrow> key < keys n ! i" using loc by (simp add: located_def)
        then have "key < keys n ! j" using True by (simp del: nth_map)
        then show ?thesis by (rule less_imp_le)
      qed (use loc in \<open>auto simp: located_def\<close>)
      moreover have "(keys n @ [u]) ! j = keys n ! j" using True by (simp add: nth_append)
      ultimately show ?thesis using r by (simp only: in_range_def) blast
    next
      case False
      then have "(keys n @ [u]) ! j = u" using jc by (simp add: nth_append)
      then show ?thesis using r by simp
    qed
  qed
  then show ?thesis using kids_nth [OF jc] jc unfolding in_range_def by blast
qed

lemma lookupInner_ok:
  assumes n: "inner_ok p l u n" and r: "in_range l u key"
  shows "\<exists>A c lo hi B f. lookupInner key n = Ret c \<and> kids n l u = A @ (c, lo, hi) # B \<and> in_range lo hi key \<and>
    lowerBound key n = Ret (length A, f) \<and> children n ! length A = c"
proof -
  have ok: "node_ok n" "layout n" "child_ok n" using n by (simp_all add: inner_ok_def node_at_def node_ok_def)
  obtain j f where j: "lowerBound key n = Ret (j, f)" "located (keys n) key j f" using lowerBound_spec [OF ok(1)] by blast
  obtain lo hi where k: "j \<le> b_count n" "kids n l u ! j = (children n ! j, lo, hi)" "in_range lo hi key" using kid_for [OF n j(2) r] by blast
  have "lookupInner key n = Ret (children n ! j)"
    using j(1) getChild_ok(1) [OF ok(2,3), of j] k(1) by (auto simp: lookupInner_def)
  moreover have "kids n l u = take j (kids n l u) @ (children n ! j, lo, hi) # drop (Suc j) (kids n l u)"
    using id_take_nth_drop [of j "kids n l u"] k(1,2) by simp
  moreover have "length (take j (kids n l u)) = j" using k(1) by simp
  ultimately show ?thesis using k(3) j(1) by (metis (no_types))
qed

end
