(* ===== verification/Btree_Focus.thy ===== *)
theory Btree_Focus
  imports Btree_Shape
begin

text \<open>
  A subtree in its tree: the leaves to its left and right, and what becomes of the tree when the
  subtree is replaced. The way down from the root ends at the subtree that a key belongs to.
\<close>

section \<open>Subtrees\<close>

abbreviation leaves_of :: "(PID \<Rightarrow> bnode) \<Rightarrow> nat \<Rightarrow> kid list \<Rightarrow> PID list" where
  "leaves_of N h K \<equiv> concat (map (\<lambda>k. leaves N h (fst k)) K)"

abbreviation nodes_of :: "(PID \<Rightarrow> bnode) \<Rightarrow> nat \<Rightarrow> kid list \<Rightarrow> PID list" where
  "nodes_of N h K \<equiv> concat (map (\<lambda>k. nodes N h (fst k)) K)"

inductive focus :: "(PID \<Rightarrow> bnode) \<Rightarrow> nat \<Rightarrow> PID \<Rightarrow> u8 list \<Rightarrow> u8 list \<Rightarrow> PID list \<Rightarrow> nat \<Rightarrow> PID \<Rightarrow> u8 list \<Rightarrow> u8 list \<Rightarrow> PID list \<Rightarrow> bool"
  for N :: "PID \<Rightarrow> bnode" where
  here: "tree N h p l u \<Longrightarrow> focus N h p l u [] h p l u []"
| down: "tree N (Suc h) p l u \<Longrightarrow> kids (N p) l u = A @ (c, cl, ch) # B \<Longrightarrow> focus N h c cl ch xs k q lo hi ys \<Longrightarrow>
    focus N (Suc h) p l u (leaves_of N h A @ xs) k q lo hi (ys @ leaves_of N h B)"

lemma focus_tree: "focus N h p l u xs k q lo hi ys \<Longrightarrow> tree N h p l u \<and> tree N k q lo hi"
  by (induction rule: focus.induct) simp_all

lemma focus_leaves: "focus N h p l u xs k q lo hi ys \<Longrightarrow> leaves N h p = xs @ leaves N k q @ ys"
proof (induction rule: focus.induct)
  case (down h p l u A c cl ch B xs k q lo hi ys)
  then show ?case unfolding leaves_kids [of N h p l u] by simp
qed simp

lemma focus_nodes: "focus N h p l u xs k q lo hi ys \<Longrightarrow> set (nodes N k q) \<subseteq> set (nodes N h p)"
proof (induction rule: focus.induct)
  case (down h p l u A c cl ch B xs k q lo hi ys)
  then show ?case unfolding nodes_kids [of N h p l u] by auto
qed simp

text \<open>The root of a tree of height \<open>k + 1\<close> is an inner node with the ids of its kids.\<close>

lemma nodes_split:
  assumes "kids (N p) l u = A @ (c, cl, ch) # B"
  shows "nodes N (Suc h) p = p # nodes_of N h A @ nodes N h c @ nodes_of N h B"
  unfolding nodes_kids [of N h p l u] assms by simp

lemma kids_frame:
  assumes "\<forall>x \<in> set (nodes_of N h K). N' x = N x"
  shows "k \<in> set K \<Longrightarrow> tree N' h (fst k) lo hi = tree N h (fst k) lo hi" "leaves_of N' h K = leaves_of N h K" "nodes_of N' h K = nodes_of N h K"
proof -
  have f: "N' x = N x" if "k \<in> set K" "x \<in> set (nodes N h (fst k))" for k x using assms that by auto
  show "k \<in> set K \<Longrightarrow> tree N' h (fst k) lo hi = tree N h (fst k) lo hi" by (intro subtree_frame(1) f)
  have "map (\<lambda>k. leaves N' h (fst k)) K = map (\<lambda>k. leaves N h (fst k)) K" by (intro map_cong refl subtree_frame(2) f)
  then show "leaves_of N' h K = leaves_of N h K" by (rule arg_cong)
  have "map (\<lambda>k. nodes N' h (fst k)) K = map (\<lambda>k. nodes N h (fst k)) K" by (intro map_cong refl subtree_frame(3) f)
  then show "nodes_of N' h K = nodes_of N h K" by (rule arg_cong)
qed

text \<open>
  Replacing kids of a node by other kids: the pages of the old ones and fresh pages may change. This
  covers a change in one kid, the split of one and the merge of two.
\<close>

lemma replace_list:
  assumes "distinct (p # a @ b @ c)" and "F \<inter> set (p # a @ b @ c) = {}" and "distinct b'" and "set b' \<subseteq> set b \<union> F"
  shows "distinct (p # a @ b' @ c)" "set (p # a @ b' @ c) \<subseteq> set (p # a @ b @ c) \<union> F"
  using assms by auto

lemma replace_kids:
  assumes t: "tree N (Suc h) p l u" and d: "distinct (nodes N (Suc h) p)" and K: "kids (N p) l u = A @ old @ B"
    and n': "inner_ok p l u (N' p)" and K': "kids (N' p) l u = A @ new @ B"
    and same: "\<And>x. x \<noteq> p \<Longrightarrow> x \<notin> set (nodes_of N h old) \<union> F \<Longrightarrow> N' x = N x" and F: "F \<inter> set (nodes N (Suc h) p) = {}"
    and new: "\<forall>(c, lo, hi) \<in> set new. tree N' h c lo hi" "distinct (nodes_of N' h new)" "set (nodes_of N' h new) \<subseteq> set (nodes_of N h old) \<union> F"
  shows "tree N' (Suc h) p l u" "distinct (nodes N' (Suc h) p)" "set (nodes N' (Suc h) p) \<subseteq> set (nodes N (Suc h) p) \<union> F"
    "leaves N (Suc h) p = leaves_of N h A @ leaves_of N h old @ leaves_of N h B"
    "leaves N' (Suc h) p = leaves_of N h A @ leaves_of N' h new @ leaves_of N h B"
    "\<forall>x \<in> set (leaves_of N h A) \<union> set (leaves_of N h B). N' x = N x"
proof -
  have nd: "nodes N (Suc h) p = p # nodes_of N h A @ nodes_of N h old @ nodes_of N h B"
    unfolding nodes_kids [of N h p l u] K by simp
  have nd': "nodes N' (Suc h) p = p # nodes_of N' h A @ nodes_of N' h new @ nodes_of N' h B"
    unfolding nodes_kids [of N' h p l u] K' by simp
  have dj: "p \<notin> set (nodes_of N h A) \<union> set (nodes_of N h old) \<union> set (nodes_of N h B)" "p \<notin> F"
    "distinct (nodes_of N h A)" "distinct (nodes_of N h B)"
    "set (nodes_of N h A) \<inter> (set (nodes_of N h old) \<union> F) = {}" "set (nodes_of N h B) \<inter> (set (nodes_of N h old) \<union> F) = {}"
    "set (nodes_of N h A) \<inter> set (nodes_of N h B) = {}"
    using d F unfolding nd by auto
  have keep: "\<forall>x \<in> S. N' x = N x" if "p \<notin> S" "S \<inter> (set (nodes_of N h old) \<union> F) = {}" for S
  proof
    fix x assume x: "x \<in> S"
    have "x \<noteq> p" using x that(1) by metis
    moreover have "x \<notin> set (nodes_of N h old) \<union> F" using x that(2) by (rule disjoint_iff [THEN iffD1, rule_format, rotated])
    ultimately show "N' x = N x" by (rule same)
  qed
  have A: "\<forall>x \<in> set (nodes_of N h A). N' x = N x" by (rule keep) (use dj in simp_all)
  have B: "\<forall>x \<in> set (nodes_of N h B). N' x = N x" by (rule keep) (use dj in simp_all)
  note FA = kids_frame [OF A] and FB = kids_frame [OF B]
  have "tree N' h c lo hi" if "(c, lo, hi) \<in> set A \<union> set B" for c lo hi
  proof -
    have "(c, lo, hi) \<in> set (kids (N p) l u)" using that K by auto
    then have "tree N h c lo hi" using t by auto
    then show ?thesis using that FA(1) [of "(c, lo, hi)"] FB(1) [of "(c, lo, hi)"] by auto
  qed
  then show "tree N' (Suc h) p l u" using n' new(1) K' by auto
  note R = replace_list [OF d [unfolded nd] F [unfolded nd] new(2,3)]
  show "distinct (nodes N' (Suc h) p)" "set (nodes N' (Suc h) p) \<subseteq> set (nodes N (Suc h) p) \<union> F"
    unfolding nd nd' FA(3) FB(3) by (rule R)+
  show "leaves N (Suc h) p = leaves_of N h A @ leaves_of N h old @ leaves_of N h B"
    unfolding leaves_kids [of N h p l u] K by simp
  show "leaves N' (Suc h) p = leaves_of N h A @ leaves_of N' h new @ leaves_of N h B"
    unfolding leaves_kids [of N' h p l u] K' map_append concat_append FA(2) FB(2) ..
  have "set (leaves_of N h K) \<subseteq> set (nodes_of N h K)" for K using leaves_nodes by fastforce
  then show "\<forall>x \<in> set (leaves_of N h A) \<union> set (leaves_of N h B). N' x = N x" using A B by blast
qed

lemma focus_replace:
  assumes "focus N h p l u xs k q lo hi ys" and "distinct (nodes N h p)"
    and "\<And>x. x \<notin> set (nodes N k q) \<union> F \<Longrightarrow> N' x = N x" and "F \<inter> set (nodes N h p) = {}"
    and "tree N' k q lo hi" "distinct (nodes N' k q)" "set (nodes N' k q) \<subseteq> set (nodes N k q) \<union> F"
  shows "tree N' h p l u \<and> distinct (nodes N' h p) \<and> set (nodes N' h p) \<subseteq> set (nodes N h p) \<union> F \<and>
    leaves N' h p = xs @ leaves N' k q @ ys \<and> (\<forall>x \<in> set xs \<union> set ys. N' x = N x)"
  using assms
proof (induction rule: focus.induct)
  case (down h p l u A c cl ch B xs k q lo hi ys)
  note K = down.hyps(2)
  have nd: "nodes N (Suc h) p = p # nodes_of N h A @ nodes N h c @ nodes_of N h B" using nodes_split K .
  have sub: "set (nodes N k q) \<subseteq> set (nodes N h c)" using focus_nodes [OF down.hyps(3)] .
  have Fc: "F \<inter> set (nodes N h c) = {}" "p \<notin> F" "p \<notin> set (nodes N h c)" "distinct (nodes N h c)"
    using down.prems(1,3) unfolding nd by auto
  note IH = down.IH [OF Fc(4) down.prems(2) Fc(1) down.prems(4-6)]
  have p: "N' p = N p" using down.prems(2) Fc(2,3) sub by blast
  have t: "tree N (Suc h) p l u" by (rule down.hyps(1))
  have same: "x \<noteq> p \<Longrightarrow> x \<notin> set (nodes_of N h [(c, cl, ch)]) \<union> F \<Longrightarrow> N' x = N x" for x
    using down.prems(2) sub by auto
  have K1: "kids (N p) l u = A @ [(c, cl, ch)] @ B" "kids (N' p) l u = A @ [(c, cl, ch)] @ B" using K by (simp_all add: p)
  have new: "\<forall>(c, lo, hi) \<in> set [(c, cl, ch)]. tree N' h c lo hi" "distinct (nodes_of N' h [(c, cl, ch)])"
    "set (nodes_of N' h [(c, cl, ch)]) \<subseteq> set (nodes_of N h [(c, cl, ch)]) \<union> F"
    using IH by simp_all
  have "inner_ok p l u (N' p)" using t by (simp add: p)
  note R = replace_kids [OF t down.prems(1) K1(1) this K1(2) same down.prems(3) new]
  show ?case using R IH by auto
qed simp

lemma focus_height: "focus N h p l u xs k q lo hi ys \<Longrightarrow> k \<le> h"
  by (induction rule: focus.induct) simp_all

lemma focus_self: "focus N h p l u xs h p lo hi ys \<Longrightarrow> lo = l \<and> hi = u"
  by (erule focus.cases) (auto dest: focus_height)

section \<open>The way down\<close>

text \<open>The node \<open>q\<close> of the tree that a key belongs to, and its parent.\<close>

definition found_at ::
  "(PID \<Rightarrow> bnode) \<Rightarrow> nat \<Rightarrow> PID \<Rightarrow> u8 list \<Rightarrow> u8 list \<Rightarrow> PID \<Rightarrow> PID \<Rightarrow> nat \<Rightarrow> PID \<Rightarrow> u8 list \<Rightarrow> u8 list \<Rightarrow> PID list \<Rightarrow> PID list \<Rightarrow> bool" where
  "found_at N h p l u meta parent k q lo hi xs ys \<longleftrightarrow> focus N h p l u xs k q lo hi ys \<and>
     (k = h \<and> q = p \<and> parent = meta \<or>
      (\<exists>xs' ys' lo' hi'. focus N h p l u xs' (Suc k) parent lo' hi' ys' \<and> (q, lo, hi) \<in> set (kids (N parent) lo' hi')))"

lemma found_down:
  assumes t: "tree N (Suc h) p l u" and K: "kids (N p) l u = A @ (c, cl, ch) # B" and f: "found_at N h c cl ch p parent k q lo hi xs ys"
  shows "found_at N (Suc h) p l u meta parent k q lo hi (leaves_of N h A @ xs) (ys @ leaves_of N h B)"
proof -
  note dn = focus.down [OF t K]
  have "focus N (Suc h) p l u (leaves_of N h A @ xs) k q lo hi (ys @ leaves_of N h B)"
    using dn f by (simp add: found_at_def)
  moreover have "\<exists>xs' ys' lo' hi'. focus N (Suc h) p l u xs' (Suc k) parent lo' hi' ys' \<and> (q, lo, hi) \<in> set (kids (N parent) lo' hi')"
  proof (cases "k = h \<and> q = c \<and> parent = p")
    case True
    then have "lo = cl" "hi = ch" using f focus_self by (auto simp: found_at_def)
    then have "(q, lo, hi) \<in> set (kids (N parent) l u)" using True K by simp
    then show ?thesis using focus.here [OF t] True by blast
  next
    case False
    then obtain xs' ys' lo' hi' where "focus N h c cl ch xs' (Suc k) parent lo' hi' ys'" "(q, lo, hi) \<in> set (kids (N parent) lo' hi')"
      using f unfolding found_at_def by blast
    then show ?thesis using dn by blast
  qed
  ultimately show ?thesis by (simp add: found_at_def)
qed

text \<open>The keys of the content to the left and to the right.\<close>

definition sides :: "(PID \<Rightarrow> bnode) \<Rightarrow> u8 list \<Rightarrow> PID list \<Rightarrow> PID list \<Rightarrow> bool" where
  "sides N key xs ys \<longleftrightarrow> (\<forall>e \<in> set (contents_of N xs). fst e < key) \<and> (\<forall>e \<in> set (contents_of N ys). key < fst e)"

lemma sides_kids:
  assumes t: "tree N (Suc h) p l u" and K: "kids (N p) l u = A @ (c, cl, ch) # B" and r: "in_range cl ch key"
  shows "sides N key (leaves_of N h A) (leaves_of N h B)"
proof -
  have n: "inner_ok p l u (N p)" "\<forall>(c, lo, hi) \<in> set (A @ (c, cl, ch) # B). tree N h c lo hi" using t by (simp_all add: K)
  have s: "sorted_wrt before (A @ (c, cl, ch) # B)" using kids_sorted [OF n(1)] by (simp add: K)
  have rng: "in_range (fst (snd k)) (snd (snd k)) (fst e)" if "k \<in> set A \<union> set B" "e \<in> set (contents N h (fst k))" for k e
    using that n(2) contents_in_range [of N h "fst k" "fst (snd k)" "snd (snd k)" e] by fastforce
  have "fst e < key" if "k \<in> set A" "e \<in> set (contents N h (fst k))" for k e
  proof -
    have "before k (c, cl, ch)" using s that(1) by (simp add: sorted_wrt_append)
    then show ?thesis using before_less [OF _ rng [of k e]] that r by fastforce
  qed
  moreover have "key < fst e" if "k \<in> set B" "e \<in> set (contents N h (fst k))" for k e
  proof -
    have "before (c, cl, ch) k" using s that(1) by (simp add: sorted_wrt_append)
    then show ?thesis using before_less [of "(c, cl, ch)" k cl key _ "fst e"] rng [of k e] that r by fastforce
  qed
  ultimately show ?thesis by (fastforce simp: sides_def contents_def)
qed

lemma sides_append: "sides N key (xs @ xs') (ys' @ ys) \<longleftrightarrow> sides N key xs ys \<and> sides N key xs' ys'"
  by (auto simp: sides_def)

lemma walk_ok:
  assumes "tree N h p l u" and "in_range l u key" and "h < fuel"
  shows "\<exists>parent k q lo hi xs ys. walk fuel stop key N meta p = Ret (parent, q) \<and> found_at N h p l u meta parent k q lo hi xs ys \<and>
    in_range lo hi key \<and> sides N key xs ys \<and> (k = 0 \<or> stop q)"
  using assms
proof (induction h arbitrary: p l u fuel meta)
  case 0
  then obtain f where "fuel = Suc f" by (cases fuel) auto
  moreover have "isLeaf (N p)" using 0 by (simp add: leaf_ok_def)
  ultimately have "walk fuel stop key N meta p = Ret (meta, p)" by simp
  moreover have "found_at N 0 p l u meta meta 0 p l u [] []" using 0(1) by (auto simp: found_at_def intro: focus.here)
  ultimately show ?case using 0 by (fastforce simp: sides_def)
next
  case (Suc h)
  then obtain f where f: "fuel = Suc f" "h < f" by (cases fuel) auto
  have n: "inner_ok p l u (N p)" "\<not> isLeaf (N p)" using Suc.prems(1) by (simp_all add: inner_ok_def)
  show ?case
  proof (cases "stop p")
    case True
    then have "walk fuel stop key N meta p = Ret (meta, p)" using f by simp
    moreover have "found_at N (Suc h) p l u meta meta (Suc h) p l u [] []" using Suc.prems(1) by (auto simp: found_at_def intro: focus.here)
    ultimately show ?thesis using Suc.prems(2) True by (fastforce simp: sides_def)
  next
    case False
    obtain A c cl ch B where c: "lookupInner key (N p) = Ret c" "kids (N p) l u = A @ (c, cl, ch) # B" "in_range cl ch key"
      using lookupInner_ok [OF n(1) Suc.prems(2)] by blast
    have tc: "tree N h c cl ch" using Suc.prems(1) by (simp add: c(2))
    obtain parent k q lo hi xs ys where IH: "walk f stop key N p c = Ret (parent, q)" "found_at N h c cl ch p parent k q lo hi xs ys"
      "in_range lo hi key" "sides N key xs ys" "k = 0 \<or> stop q"
      using Suc.IH [OF tc c(3) f(2)] by blast
    have "found_at N (Suc h) p l u meta parent k q lo hi (leaves_of N h A @ xs) (ys @ leaves_of N h B)"
      by (rule found_down [OF Suc.prems(1) c(2) IH(2)])
    moreover have "sides N key (leaves_of N h A @ xs) (ys @ leaves_of N h B)"
      using sides_kids [OF Suc.prems(1) c(2,3)] IH(4) by (simp add: sides_append)
    moreover have "walk fuel stop key N meta p = Ret (parent, q)" using f False n(2) c(1) IH(1) by simp
    ultimately show ?thesis using IH(3,5) by blast
  qed
qed

lemma descend_walk: "descend fuel key N p = bind_run (walk fuel (\<lambda>_. False) key N meta p) (\<lambda>(_, q). Ret q)"
proof (induction fuel key N p arbitrary: meta rule: descend.induct)
  case (2 fuel key N p)
  then show ?case by (cases "lookupInner key (N p)") auto
qed simp

lemma descend_ok:
  assumes "tree N h p l u" and "in_range l u key" and "h < fuel"
  shows "\<exists>q lo hi xs ys. descend fuel key N p = Ret q \<and> focus N h p l u xs 0 q lo hi ys \<and> in_range lo hi key \<and> sides N key xs ys"
proof -
  obtain parent k q lo hi xs ys where w: "walk fuel (\<lambda>_. False) key N p p = Ret (parent, q)" "found_at N h p l u p parent k q lo hi xs ys"
    "in_range lo hi key" "sides N key xs ys" "k = 0"
    using walk_ok [OF assms, of "\<lambda>_. False" p] by blast
  then have "focus N h p l u xs 0 q lo hi ys" by (simp add: found_at_def)
  then show ?thesis using w(1,3,4) unfolding descend_walk [of fuel key N p p] by auto
qed

end
