(* ===== verification/Btree_Lookup.thy ===== *)
theory Btree_Lookup
  imports Btree_Focus
begin

text \<open>
  A tree in its pages, the point lookup, the update in place and the ascending scan: each agrees
  with the sorted list of entries that the tree stands for.
\<close>

section \<open>A tree and its state\<close>

definition links :: "(PID \<Rightarrow> bnode) \<Rightarrow> PID list \<Rightarrow> bool" where
  "links N qs \<longleftrightarrow> map (\<lambda>q. b_link (N q)) qs = tl qs @ [noNeighbour]"

text \<open>The memory that temporaries and new pages get.\<close>

definition memory_ok :: "pages \<Rightarrow> bool" where
  "memory_ok s \<longleftrightarrow> (\<forall>p. raw_ok (t_node s p)) \<and> raw_ok (t_tmp s) \<and> 0 < t_alloc s \<and> t_alloc s < 2 ^ 64"

definition btree :: "pages \<Rightarrow> nat \<Rightarrow> nat \<Rightarrow> PID \<Rightarrow> bool" where
  "btree s slot h root \<longleftrightarrow> memory_ok s \<and> slot < length (t_roots s) \<and> t_roots s ! slot = root \<and> tree (t_node s) h root [] [] \<and>
     distinct (nodes (t_node s) h root) \<and> links (t_node s) (leaves (t_node s) h root) \<and>
     (\<forall>q \<in> set (nodes (t_node s) h root). 0 < unat q \<and> unat q < t_alloc s)"

abbreviation stored :: "pages \<Rightarrow> nat \<Rightarrow> PID \<Rightarrow> (u8 list \<times> u8 list) list" where
  "stored s h root \<equiv> contents (t_node s) h root"

text \<open>Whether a page is dirty does not matter.\<close>

lemma dirty_sel [simp]:
  "entries (n\<lparr>b_dirty := b\<rparr>) = entries n" "low_key (n\<lparr>b_dirty := b\<rparr>) = low_key n" "upp_key (n\<lparr>b_dirty := b\<rparr>) = upp_key n"
  "children (n\<lparr>b_dirty := b\<rparr>) = children n" "layout (n\<lparr>b_dirty := b\<rparr>) = layout n" "child_ok (n\<lparr>b_dirty := b\<rparr>) = child_ok n"
  "node_ok (n\<lparr>b_dirty := b\<rparr>) = node_ok n" "fenced (n\<lparr>b_dirty := b\<rparr>) = fenced n" "raw_ok (n\<lparr>b_dirty := b\<rparr>) = raw_ok n"
  "hasSpaceFor (n\<lparr>b_dirty := b\<rparr>) = hasSpaceFor n" "prefix (n\<lparr>b_dirty := b\<rparr>) = prefix n" "kids (n\<lparr>b_dirty := b\<rparr>) l u = kids n l u"
proof -
  show e: "entries (n\<lparr>b_dirty := b\<rparr>) = entries n" "low_key (n\<lparr>b_dirty := b\<rparr>) = low_key n" "upp_key (n\<lparr>b_dirty := b\<rparr>) = upp_key n"
    "layout (n\<lparr>b_dirty := b\<rparr>) = layout n" "raw_ok (n\<lparr>b_dirty := b\<rparr>) = raw_ok n" "prefix (n\<lparr>b_dirty := b\<rparr>) = prefix n"
    by (simp_all add: entries_def entry_at_def key_at_def pay_at_def prefix_def low_key_def upp_key_def bytes_def used_def layout_def
        fence_ok_def slot_ok_def raw_ok_def cong: map_cong)
  then show c: "children (n\<lparr>b_dirty := b\<rparr>) = children n" "child_ok (n\<lparr>b_dirty := b\<rparr>) = child_ok n"
    "node_ok (n\<lparr>b_dirty := b\<rparr>) = node_ok n" "fenced (n\<lparr>b_dirty := b\<rparr>) = fenced n"
    by (simp_all add: children_def child_ok_def node_ok_def hinted_def fenced_def)
  show "hasSpaceFor (n\<lparr>b_dirty := b\<rparr>) = hasSpaceFor n"
    by (simp add: fun_eq_iff hasSpaceFor_def spaceNeeded_def freeSpaceAfterCompaction_def)
  show "kids (n\<lparr>b_dirty := b\<rparr>) l u = kids n l u" by (simp add: kids_def c(1) e(1))
qed

text \<open>Pages that differ in the dirty flag only.\<close>

definition alike :: "(PID \<Rightarrow> bnode) \<Rightarrow> (PID \<Rightarrow> bnode) \<Rightarrow> bool" where
  "alike N N' \<longleftrightarrow> (\<forall>q. \<exists>b. N' q = (N q)\<lparr>b_dirty := b\<rparr>)"

lemma alike_sel:
  assumes "alike N N'"
  shows "entries (N' q) = entries (N q)" "children (N' q) = children (N q)" "kids (N' q) l u = kids (N q) l u"
    "leaf_ok p l u (N' q) = leaf_ok p l u (N q)" "inner_ok p l u (N' q) = inner_ok p l u (N q)" "b_link (N' q) = b_link (N q)"
    "raw_ok (N' q) = raw_ok (N q)" "isLeaf (N' q) = isLeaf (N q)" "b_count (N' q) = b_count (N q)" "hasSpaceFor (N' q) = hasSpaceFor (N q)"
proof -
  obtain b where "N' q = (N q)\<lparr>b_dirty := b\<rparr>" using assms unfolding alike_def by blast
  then show "entries (N' q) = entries (N q)" "children (N' q) = children (N q)" "kids (N' q) l u = kids (N q) l u"
    "leaf_ok p l u (N' q) = leaf_ok p l u (N q)" "inner_ok p l u (N' q) = inner_ok p l u (N q)" "b_link (N' q) = b_link (N q)"
    "raw_ok (N' q) = raw_ok (N q)" "isLeaf (N' q) = isLeaf (N q)" "b_count (N' q) = b_count (N q)" "hasSpaceFor (N' q) = hasSpaceFor (N q)"
    by (simp_all add: leaf_ok_def inner_ok_def node_at_def)
qed

lemma alike_tree:
  assumes "alike N N'"
  shows "tree N' h p l u = tree N h p l u" "leaves N' h p = leaves N h p" "nodes N' h p = nodes N h p" "contents N' h p = contents N h p"
    "links N' qs = links N qs"
proof -
  note E = alike_sel [OF assms]
  show "tree N' h p l u = tree N h p l u" by (induction h arbitrary: p l u) (auto simp: E)
  show lv: "leaves N' h p = leaves N h p" by (induction h arbitrary: p) (simp_all add: E cong: map_cong)
  show "nodes N' h p = nodes N h p" by (induction h arbitrary: p) (simp_all add: E cong: map_cong)
  show "contents N' h p = contents N h p" by (simp add: contents_def lv E)
  show "links N' qs = links N qs" by (simp add: links_def E)
qed

lemma lock_alike: "alike (t_node s) (t_node (t_lock p s))"
proof -
  have "\<exists>b. t_node (t_lock p s) q = (t_node s q)\<lparr>b_dirty := b\<rparr>" for q
    by (cases "q = p", rule exI [of _ True], simp add: t_lock_def t_put_def,
        rule exI [of _ "b_dirty (t_node s q)"], simp add: t_lock_def t_put_def)
  then show ?thesis unfolding alike_def by blast
qed

lemma lock_sel [simp]: "t_roots (t_lock p s) = t_roots s" "t_alloc (t_lock p s) = t_alloc s" "t_tmp (t_lock p s) = t_tmp s"
  by (simp_all add: t_lock_def t_put_def)

lemma put_sel [simp]: "t_roots (t_put p n s) = t_roots s" "t_alloc (t_put p n s) = t_alloc s" "t_tmp (t_put p n s) = t_tmp s"
  "t_node (t_put p n s) = (t_node s)(p := n)"
  by (simp_all add: t_put_def)

text \<open>The entries of the pages in use have short keys and payloads.\<close>

definition short :: "u8 list \<times> u8 list \<Rightarrow> bool" where
  "short e \<longleftrightarrow> length (fst e) \<le> 64 \<and> length (snd e) \<le> 64"

definition small :: "pages \<Rightarrow> bool" where
  "small s \<longleftrightarrow> (\<forall>p. 0 < unat p \<and> unat p < t_alloc s \<longrightarrow> (\<forall>e \<in> set (entries (t_node s p)). short e))"

lemma small_lock [simp]: "small (t_lock p s) = small s"
  by (simp add: small_def alike_sel(1) [OF lock_alike])

lemma small_put: "small s \<Longrightarrow> \<forall>e \<in> set (entries n). short e \<Longrightarrow> small (t_put p n s)"
  by (auto simp: small_def)

lemma small_at: "small s \<Longrightarrow> btree s slot h root \<Longrightarrow> p \<in> set (nodes (t_node s) h root) \<Longrightarrow> e \<in> set (entries (t_node s p)) \<Longrightarrow> short e"
  by (auto simp: small_def btree_def)

text \<open>
  Pages allocated and entries above 20 per page: every split has to be paid for from these.
\<close>

definition in_use :: "pages \<Rightarrow> PID set" where
  "in_use s = {p. 0 < unat p \<and> unat p < t_alloc s}"

definition crowd :: "pages \<Rightarrow> nat" where
  "crowd s = (\<Sum>p \<in> in_use s. b_count (t_node s p) - 20)"

definition budget :: "pages \<Rightarrow> nat" where
  "budget s = t_alloc s + crowd s"

lemma budget_lock [simp]: "budget (t_lock p s) = budget s"
  by (simp add: budget_def crowd_def in_use_def alike_sel(9) [OF lock_alike])

lemma budget_put: "budget (t_put p n s) \<le> budget s + b_count n"
proof -
  have "crowd (t_put p n s) = (\<Sum>x \<in> in_use s. b_count (t_node (t_put p n s) x) - 20)" by (simp add: crowd_def in_use_def)
  also have "\<dots> \<le> (\<Sum>x \<in> in_use s. (b_count (t_node s x) - 20) + (if x = p then b_count n else 0))"
    by (rule sum_mono) (simp add: trans_le_add2)
  also have "\<dots> \<le> crowd s + b_count n" by (simp add: crowd_def sum.distrib)
  finally show ?thesis by (simp add: budget_def)
qed

text \<open>What an operation that changes a few nodes in place keeps.\<close>

definition tame :: "nat \<Rightarrow> pages \<Rightarrow> pages \<Rightarrow> bool" where
  "tame c s s' \<longleftrightarrow> (small s \<longrightarrow> small s') \<and> budget s' \<le> budget s + c"

lemma tame_refl [simp]: "tame c s s"
  by (simp add: tame_def)

lemma tame_lock [simp]: "tame c (t_lock p s) s' = tame c s s'" "tame c s (t_lock p s') = tame c s s'"
  by (simp_all add: tame_def)

lemma tame_trans: "tame c s s' \<Longrightarrow> tame d s' s'' \<Longrightarrow> tame (c + d) s s''"
  by (simp add: tame_def)

lemma tame_put: "(small s \<Longrightarrow> \<forall>e \<in> set (entries n). short e) \<Longrightarrow> layout n \<Longrightarrow> tame 398 s (t_put p n s)"
  using budget_put [of p n s] layoutD(6) [of n] small_put [of s n p] by (simp add: tame_def)

lemma btree_lock: "btree (t_lock p s) slot h root = btree s slot h root"
  by (simp add: btree_def memory_ok_def alike_tree [OF lock_alike] alike_sel [OF lock_alike])

lemma btreeD:
  assumes "btree s slot h root"
  shows "getRoot slot s = Ret root" "tree (t_node s) h root [] []" "distinct (nodes (t_node s) h root)"
    "links (t_node s) (leaves (t_node s) h root)" "raw_ok (t_tmp s)" "raw_ok (t_node s p)" "0 < t_alloc s" "t_alloc s < 2 ^ 64"
  using assms by (simp_all add: btree_def memory_ok_def getRoot_def)

lemma in_range_root [simp]: "in_range [] [] k"
  by (simp add: in_range_def)

text \<open>The content, seen from the leaf that a key belongs to.\<close>

lemma focus_contents:
  assumes "focus N h p l u xs 0 q lo hi ys"
  shows "contents N h p = contents_of N xs @ entries (N q) @ contents_of N ys"
  using focus_leaves [OF assms] by (simp add: contents_def)

lemma findLeaf_ok:
  assumes b: "btree s slot h root" and f: "h < fuel"
  shows "\<exists>q lo hi xs ys. findLeaf fuel slot key s = Ret q \<and> focus (t_node s) h root [] [] xs 0 q lo hi ys \<and>
    in_range lo hi key \<and> sides (t_node s) key xs ys \<and> leaf_ok q lo hi (t_node s q)"
proof -
  obtain q lo hi xs ys where "descend fuel key (t_node s) root = Ret q" "focus (t_node s) h root [] [] xs 0 q lo hi ys"
    "in_range lo hi key" "sides (t_node s) key xs ys"
    using descend_ok [OF btreeD(2) [OF b] in_range_root f] by blast
  moreover from this have "tree (t_node s) 0 q lo hi" using focus_tree by blast
  then have "leaf_ok q lo hi (t_node s q)" by simp
  ultimately show ?thesis using btreeD(1) [OF b] by (auto simp: findLeaf_def)
qed

lemma map_of_sides:
  assumes "sides N key xs ys"
  shows "map_of (contents_of N xs @ es @ contents_of N ys) key = map_of es key"
proof -
  have "map_of (contents_of N xs) key = None" "map_of (contents_of N ys) key = None"
    using assms by (force simp: sides_def map_of_eq_None_iff)+
  then show ?thesis by (simp add: map_add_def split: option.splits)
qed

lemma map_of_located:
  assumes "distinct (map fst es)" and "located (map fst es) key j f" and "sorted (map fst es)"
  shows "map_of es key = (if f then Some (snd (es ! j)) else None)"
proof (cases f)
  case True
  then have "j < length es" "fst (es ! j) = key" using assms(2) by (auto simp: located_def)
  then have "(key, snd (es ! j)) \<in> set es" by (metis nth_mem prod.collapse)
  then show ?thesis using True assms(1) by simp
next
  case False
  then have "key \<notin> set (map fst es)" using located_mem [OF assms(3,2)] by simp
  then show ?thesis using False by (simp add: map_of_eq_None_iff)
qed

section \<open>Lookup\<close>

lemma leaf_find:
  assumes b: "btree s slot h root" and f: "h < fuel"
  shows "\<exists>q pos fnd. findLeaf fuel slot key s = Ret q \<and> lowerBound key (t_node s q) = Ret (pos, fnd) \<and>
    (if fnd then pos < b_count (t_node s q) \<and> getPayload (t_node s q) pos = Ret (pay_at (t_node s q) pos) \<and>
       map_of (stored s h root) key = Some (pay_at (t_node s q) pos) else map_of (stored s h root) key = None)"
proof -
  obtain q lo hi xs ys where q: "findLeaf fuel slot key s = Ret q" "focus (t_node s) h root [] [] xs 0 q lo hi ys"
    "sides (t_node s) key xs ys" "leaf_ok q lo hi (t_node s q)"
    using findLeaf_ok [OF assms] by blast
  let ?n = "t_node s q"
  have n: "node_ok ?n" "distinct (keys ?n)" "sorted (keys ?n)" "layout ?n" using q(4) by (simp_all add: leaf_ok_def node_at_def node_ok_def)
  obtain pos fnd where j: "lowerBound key ?n = Ret (pos, fnd)" "located (keys ?n) key pos fnd" using lowerBound_spec [OF n(1)] by blast
  have "map_of (stored s h root) key = map_of (entries ?n) key"
    unfolding focus_contents [OF q(2)] by (rule map_of_sides [OF q(3)])
  also have "\<dots> = (if fnd then Some (snd (entries ?n ! pos)) else None)" by (rule map_of_located [OF n(2) j(2) n(3)])
  finally have m: "map_of (stored s h root) key = (if fnd then Some (snd (entries ?n ! pos)) else None)" .
  have pos: "pos < b_count ?n" if fnd using j(2) that by (simp add: located_def)
  then have "getPayload ?n pos = Ret (pay_at ?n pos) \<and> snd (entries ?n ! pos) = pay_at ?n pos" if fnd
    using slot_facts(3) [OF n(4), of pos] that by (simp add: entry_at_def)
  then show ?thesis using q(1) j(1) m pos by auto
qed

lemma lookup_ok:
  assumes b: "btree s slot h root" and f: "h < fuel"
  shows "lookup fuel slot key n s = Ret (case map_of (stored s h root) key of None \<Rightarrow> (- 1, []) | Some v \<Rightarrow> (int (length v), take n v))"
    and "lookup_fn fuel slot key s = Ret (map_of (stored s h root) key)"
proof -
  obtain q pos fnd where q: "findLeaf fuel slot key s = Ret q" "lowerBound key (t_node s q) = Ret (pos, fnd)"
    "if fnd then pos < b_count (t_node s q) \<and> getPayload (t_node s q) pos = Ret (pay_at (t_node s q) pos) \<and>
       map_of (stored s h root) key = Some (pay_at (t_node s q) pos) else map_of (stored s h root) key = None"
    using leaf_find [OF assms] by blast
  have t: "take (min (length v) n) v = take n v" for v :: "u8 list" by (simp add: min_def)
  show "lookup fuel slot key n s = Ret (case map_of (stored s h root) key of None \<Rightarrow> (- 1, []) | Some v \<Rightarrow> (int (length v), take n v))"
    using q t by (cases fnd) (simp_all add: lookup_def)
  show "lookup_fn fuel slot key s = Ret (map_of (stored s h root) key)" using q by (cases fnd) (simp_all add: lookup_fn_def)
qed

section \<open>A changed leaf\<close>

lemma leaf_put:
  assumes b: "btree s slot h root" and fo: "focus (t_node s) h root [] [] xs 0 q lo hi ys"
    and n': "leaf_ok q lo hi n'" "b_link n' = b_link (t_node s q)"
  shows "btree (t_put q n' s) slot h root"
    and "stored (t_put q n' s) h root = contents_of (t_node s) xs @ entries n' @ contents_of (t_node s) ys"
proof -
  let ?N = "t_node s"
  define N' where "N' = ?N(q := n')"
  have N': "N' q = n'" "\<And>x. x \<noteq> q \<Longrightarrow> N' x = ?N x" by (simp_all add: N'_def)
  note B = btreeD [OF b]
  have "tree N' h root [] [] \<and> distinct (nodes N' h root) \<and> set (nodes N' h root) \<subseteq> set (nodes ?N h root) \<union> {} \<and>
    leaves N' h root = xs @ leaves N' 0 q @ ys \<and> (\<forall>x \<in> set xs \<union> set ys. N' x = ?N x)"
    by (rule focus_replace [OF fo B(3)]) (use n'(1) N' in simp_all)
  then have R: "tree N' h root [] []" "distinct (nodes N' h root)" "set (nodes N' h root) \<subseteq> set (nodes ?N h root)"
    "leaves N' h root = xs @ [q] @ ys" "\<forall>x \<in> set xs \<union> set ys. N' x = ?N x" by simp_all
  have "leaves ?N h root = xs @ [q] @ ys" using focus_leaves [OF fo] by simp
  moreover have "b_link (N' x) = b_link (?N x)" for x using n'(2) N' by (cases "x = q") simp_all
  ultimately have "links N' (leaves N' h root)" using B(4) unfolding links_def R(4) by (simp only:)
  moreover have "raw_ok n'" using n'(1) layout_raw by (simp add: leaf_ok_def node_at_def node_ok_def)
  then have "memory_ok (t_put q n' s)" using b by (simp add: btree_def memory_ok_def)
  moreover have t: "t_node (t_put q n' s) = N'" by (simp add: N'_def)
  ultimately show "btree (t_put q n' s) slot h root" using b R(1-3) unfolding btree_def t by auto
  have "contents_of N' zs = contents_of ?N zs" if "\<forall>x \<in> set zs. N' x = ?N x" for zs
    using that by (intro arg_cong [of _ _ concat] map_cong) simp_all
  then have "contents_of N' xs = contents_of ?N xs" "contents_of N' ys = contents_of ?N ys" using R(5) by simp_all
  then show "stored (t_put q n' s) h root = contents_of (t_node s) xs @ entries n' @ contents_of (t_node s) ys"
    unfolding contents_def t R(4) by (simp add: N')
qed

text \<open>A node with the same frame and other entries.\<close>

lemma leaf_ok_entries:
  assumes n: "leaf_ok p l u n" and n': "node_ok n'" "same_frame n n'"
    and es: "\<forall>e \<in> set (entries n'). in_range l u (fst e) \<and> pair_ok e" "distinct (keys n')"
  shows "leaf_ok p l u n'"
  using assms by (auto simp: leaf_ok_def node_at_def fenced_def same_frame_def)

section \<open>Update in place\<close>

lemma map_of_update_nth:
  assumes "j < length es" and "distinct (map fst es)"
  shows "map_of (es[j := (fst (es ! j), v)]) = (map_of es)(fst (es ! j) \<mapsto> v)"
  using assms
proof (induction es arbitrary: j)
  case (Cons e es)
  then show ?case
  proof (cases j)
    case (Suc i)
    have "es ! i \<in> set es" using Cons.prems Suc by simp
    then have "fst (es ! i) \<noteq> fst e" using Cons.prems(2) by (metis distinct.simps(2) image_eqI list.simps(9) list.set_map)
    then show ?thesis using Cons Suc by (auto simp: fun_upd_twist)
  qed auto
qed simp

lemma updateInPlace_ok:
  assumes b: "btree s slot h root" and f: "h < fuel" and len: "\<And>v. length (fn v) = length v"
  shows "\<exists>s'. updateInPlace fuel slot key fn s = Ret (map_of (stored s h root) key \<noteq> None, s') \<and> btree s' slot h root \<and>
    map fst (stored s' h root) = map fst (stored s h root) \<and>
    map_of (stored s' h root) = (case map_of (stored s h root) key of None \<Rightarrow> map_of (stored s h root)
      | Some v \<Rightarrow> (map_of (stored s h root))(key \<mapsto> fn v)) \<and> tame 398 s s'"
proof -
  obtain q lo hi xs ys where q: "findLeaf fuel slot key s = Ret q" "focus (t_node s) h root [] [] xs 0 q lo hi ys"
    "in_range lo hi key" "sides (t_node s) key xs ys" "leaf_ok q lo hi (t_node s q)"
    using findLeaf_ok [OF b f] by blast
  let ?n = "t_node s q"
  have n: "node_ok ?n" "distinct (keys ?n)" "sorted (keys ?n)" using q(5) by (simp_all add: leaf_ok_def node_at_def node_ok_def)
  obtain pos fnd where j: "lowerBound key ?n = Ret (pos, fnd)" "located (keys ?n) key pos fnd" using lowerBound_spec [OF n(1)] by blast
  have st: "stored s h root = contents_of (t_node s) xs @ entries ?n @ contents_of (t_node s) ys" by (rule focus_contents [OF q(2)])
  have m: "map_of (stored s h root) key = (if fnd then Some (snd (entries ?n ! pos)) else None)"
    unfolding st using map_of_sides [OF q(4)] map_of_located [OF n(2) j(2) n(3)] by simp
  show ?thesis
  proof (cases fnd)
    case False
    then show ?thesis using q(1) j(1) m b by (simp add: updateInPlace_def)
  next
    case True
    define s1 where "s1 = t_lock q s"
    define n1 where "n1 = t_node s1 q"
    have n1: "n1 = ?n\<lparr>b_dirty := True\<rparr>" by (simp add: n1_def s1_def t_lock_def t_put_def)
    have N1: "node_ok n1" "layout n1" "leaf_ok q lo hi n1" "entries n1 = entries ?n" "b_link n1 = b_link ?n"
      using n(1) q(5) by (simp_all add: n1 leaf_ok_def node_at_def) (simp add: node_ok_def)
    have pos: "pos < b_count n1" "fst (entries ?n ! pos) = key" using j(2) True by (auto simp: located_def n1)
    have e: "snd (entries n1 ! pos) = pay_at n1 pos" using pos(1) by (simp add: entry_at_def)
    obtain n' where n': "mem_put (s_offset (b_slot n1 ! pos) + s_keyLen (b_slot n1 ! pos)) (fn (pay_at n1 pos)) n1 = Ret n'"
      "node_ok n'" "same_frame n1 n'" "entries n' = (entries n1)[pos := (fst (entries n1 ! pos), fn (pay_at n1 pos))]"
      using payload_put_ok [OF N1(1) pos(1), of "fn (pay_at n1 pos)"] len by blast
    have ks: "keys n' = keys n1" using pos(1) by (simp add: n'(4) map_update list_update_same_conv)
    have pr: "fst (entries n1 ! pos) = key" "pair_ok (key, fn (pay_at n1 pos))"
    proof -
      show "fst (entries n1 ! pos) = key" using pos(2) N1(4) by simp
      moreover have "entries n1 ! pos \<in> set (entries n1)" using pos(1) by (intro nth_mem) simp
      ultimately show "pair_ok (key, fn (pay_at n1 pos))" using N1(3) e len by (auto simp: leaf_ok_def pair_ok_def)
    qed
    have old: "e = (key, fn (pay_at n1 pos)) \<or> e \<in> set (entries n1)" if "e \<in> set (entries n')" for e
      using that set_update_subset_insert [of "entries n1" pos] unfolding n'(4) pr(1) by blast
    have "in_range lo hi (fst e) \<and> pair_ok e" if "e \<in> set (entries n')" for e
    proof -
      note old [OF that]
      then show ?thesis using N1(3) q(3) pr(2) by (auto simp: leaf_ok_def node_at_def fenced_def)
    qed
    then have lf: "leaf_ok q lo hi n'" using leaf_ok_entries [OF N1(3) n'(2,3)] N1(3) ks by (simp add: leaf_ok_def node_at_def)
    have lk: "b_link n' = b_link ?n" using n'(3) N1(5) by (simp add: same_frame_def)
    note P = leaf_put [OF b q(2) lf lk]
    have eq: "t_put q n' s1 = t_put q n' s" by (simp add: s1_def t_lock_def t_put_def)
    have "updateInPlace fuel slot key fn s = Ret (True, t_put q n' s)"
      using q(1) j(1) True slot_facts(1,3) [OF N1(2) pos(1)] n'(1) eq
      by (simp add: updateInPlace_def Let_def flip: s1_def n1_def)
    moreover have "map fst (stored (t_put q n' s) h root) = map fst (stored s h root)"
      unfolding P(2) st using ks N1(4) by simp
    moreover have "map_of (stored (t_put q n' s) h root) = (map_of (stored s h root))(key \<mapsto> fn (pay_at n1 pos))"
    proof -
      have "map_of (entries n') = (map_of (entries ?n))(key \<mapsto> fn (pay_at n1 pos))"
        using map_of_update_nth [of pos "entries ?n" "fn (pay_at n1 pos)"] pos n(2) n'(4)
        by (simp add: N1(4) n1 del: entries_nth)
      moreover have "map_of (contents_of (t_node s) xs) key = None" "map_of (contents_of (t_node s) ys) key = None"
        using q(4) by (force simp: sides_def map_of_eq_None_iff)+
      ultimately show ?thesis unfolding P(2) st by (auto simp: fun_eq_iff map_add_def split: option.splits)
    qed
    moreover have "tame 398 s (t_put q n' s)"
    proof (rule tame_put, rule ballI)
      show "layout n'" using n'(2) by (simp add: node_ok_def)
      assume s: "small s"
      have qn: "q \<in> set (nodes (t_node s) h root)" using focus_nodes [OF q(2)] by auto
      have "entries ?n ! pos \<in> set (entries ?n)" using pos(1) by (intro nth_mem) (simp add: n1)
      then have "short (entries ?n ! pos)" by (rule small_at [OF s b qn])
      then have "short (key, fn (pay_at n1 pos))" using pos(2) e len N1(4) by (simp add: short_def del: entries_nth)
      moreover have "x = (key, fn (pay_at n1 pos)) \<or> x \<in> set (entries ?n)" if "x \<in> set (entries n')" for x
        using old [OF that] unfolding N1(4) .
      ultimately show "short x" if "x \<in> set (entries n')" for x using that small_at [OF s b qn, of x] by metis
    qed
    ultimately show ?thesis using P(1) m True e N1(4) by (intro exI [of _ "t_put q n' s"]) (simp del: entries_nth)
  qed
qed

section \<open>The ascending scan\<close>

text \<open>The scan of a list by a function that updates a state and tells whether to go on.\<close>

fun visit :: "('e \<Rightarrow> 'a \<Rightarrow> bool \<times> 'a) \<Rightarrow> 'e list \<Rightarrow> 'a \<Rightarrow> 'a" where
  "visit g [] a = a"
| "visit g (e # es) a = (let (go, a) = g e a in if \<not> go then a else visit g es a)"

lemma scan_asc_ok:
  assumes "links N (q # qs)" and "noNeighbour \<notin> set qs" and "pos \<le> b_count (N q)"
    and "b_count (N q) - pos + 1 + sum_list (map (\<lambda>x. b_count (N x) + 1) qs) \<le> fuel"
    and fn: "\<And>n i a. i < b_count n \<Longrightarrow> fn n i a = g (entries n ! i) a"
  shows "scan_asc fuel fn N q pos a = Ret (visit g (drop pos (entries (N q)) @ contents_of N qs) a)"
  using assms(1-4)
proof (induction fuel arbitrary: q qs pos a)
  case (Suc fuel)
  show ?case
  proof (cases "pos < b_count (N q)")
    case True
    have d: "drop pos (entries (N q)) = entries (N q) ! pos # drop (Suc pos) (entries (N q))"
      using True by (simp add: Cons_nth_drop_Suc del: entries_nth)
    have IH: "scan_asc fuel fn N q (pos + 1) a = Ret (visit g (drop (pos + 1) (entries (N q)) @ contents_of N qs) a)" for a
      using Suc.IH [of q qs "pos + 1"] Suc.prems True by simp
    show ?thesis using True fn [OF True] IH unfolding d by (simp add: split_beta del: entries_nth)
  next
    case False
    show ?thesis
    proof (cases qs)
      case Nil
      then show ?thesis using Suc.prems False by (simp add: links_def hasRightNeighbour_def)
    next
      case (Cons q' qs')
      have l: "b_link (N q) = q'" "links N (q' # qs')" "q' \<noteq> noNeighbour" using Suc.prems(1,2) Cons by (auto simp: links_def)
      have "scan_asc fuel fn N q' 0 a = Ret (visit g (drop 0 (entries (N q')) @ contents_of N qs') a)"
        by (rule Suc.IH) (use Suc.prems False Cons l in auto)
      then show ?thesis using False l Cons Suc.prems(3) by (simp add: hasRightNeighbour_def)
    qed
  qed
qed simp

lemma entries_from:
  assumes s: "sorted_wrt (\<lambda>a b. fst a < fst b) es" and loc: "located (map fst es) key j f"
  shows "filter (\<lambda>e. key \<le> fst e) es = drop j es"
proof -
  have j: "j \<le> length es" using loc by (simp add: located_def)
  have lt: "fst (es ! i) < key" if "i < j" for i
  proof (cases f)
    case True
    then have "j < length es" "fst (es ! j) = key" using loc by (auto simp: located_def)
    then show ?thesis using sorted_wrt_nth_less [OF s, of i j] that by simp
  qed (use loc that j in \<open>auto simp: located_def\<close>)
  have ge: "key \<le> fst (es ! i)" if "j \<le> i" "i < length es" for i
  proof (cases f)
    case True
    then have "j < length es" "fst (es ! j) = key" using loc by (auto simp: located_def)
    then show ?thesis using sorted_wrt_nth_less [OF s, of j i] that by (cases "i = j") (auto intro: less_imp_le)
  next
    case False
    then have "\<forall>i. j \<le> i \<and> i < length es \<longrightarrow> key < fst (es ! i)" using loc by (auto simp: located_def)
    then show ?thesis using that by (auto intro: less_imp_le)
  qed
  have "filter (\<lambda>e. key \<le> fst e) (take j es) = []" 
  proof -
    have "\<not> key \<le> fst e" if e: "e \<in> set (take j es)" for e
    proof -
      obtain i where "i < j" "e = es ! i" using e j by (auto simp: in_set_conv_nth)
      then show ?thesis using lt by (simp add: not_le)
    qed
    then show ?thesis by (simp only: filter_empty_conv) blast
  qed
  moreover have "filter (\<lambda>e. key \<le> fst e) (drop j es) = drop j es"
  proof (rule filter_True, rule ballI)
    fix e assume "e \<in> set (drop j es)"
    then obtain i where "i < length es - j" "e = es ! (j + i)" using j by (auto simp: in_set_conv_nth)
    then show "key \<le> fst e" using ge [of "j + i"] by simp
  qed
  ultimately show ?thesis by (metis append_take_drop_id filter_append append_Nil)
qed

lemma links_suffix: "links N (xs @ q # ys) \<Longrightarrow> links N (q # ys)"
proof (induction xs)
  case (Cons x xs)
  then show ?case by (cases xs) (simp_all add: links_def)
qed simp

lemma page_bounds: "btree s slot h root \<Longrightarrow> noNeighbour \<notin> set (nodes (t_node s) h root)"
  by (auto simp: btree_def memory_ok_def noNeighbour_def unsigned_minus_1_eq_mask mask_eq_exp_minus_1)

lemma scanAsc_ok:
  assumes b: "btree s slot h root" and f: "h < fuel" "length (stored s h root) + length (leaves (t_node s) h root) \<le> fuel"
    and fn: "\<And>n i a. i < b_count n \<Longrightarrow> fn n i a = g (entries n ! i) a"
  shows "scanAsc fuel slot key fn s a = Ret (visit g (filter (\<lambda>e. key \<le> fst e) (stored s h root)) a)"
proof -
  let ?N = "t_node s"
  obtain q lo hi xs ys where q: "findLeaf fuel slot key s = Ret q" "focus ?N h root [] [] xs 0 q lo hi ys"
    "sides ?N key xs ys" "leaf_ok q lo hi (?N q)"
    using findLeaf_ok [OF b f(1)] by blast
  have n: "node_ok (?N q)" "sorted (keys (?N q))" "distinct (keys (?N q))" using q(4) by (simp_all add: leaf_ok_def node_at_def node_ok_def)
  obtain pos fnd where j: "lowerBound key (?N q) = Ret (pos, fnd)" "located (keys (?N q)) key pos fnd" using lowerBound_spec [OF n(1)] by blast
  have lv: "leaves ?N h root = xs @ q # ys" using focus_leaves [OF q(2)] by simp
  have st: "stored s h root = contents_of ?N xs @ entries (?N q) @ contents_of ?N ys" by (rule focus_contents [OF q(2)])
  have "links ?N (q # ys)" using btreeD(4) [OF b] links_suffix unfolding lv by blast
  moreover have "noNeighbour \<notin> set ys"
  proof -
    have "set ys \<subseteq> set (nodes ?N h root)" using leaves_nodes [of ?N h root] lv by auto
    then show ?thesis using page_bounds [OF b] by blast
  qed
  moreover have "pos \<le> b_count (?N q)" using j(2) by (simp add: located_def)
  moreover have "b_count (?N q) - pos + 1 + sum_list (map (\<lambda>x. b_count (?N x) + 1) ys) \<le> fuel"
  proof -
    have "sum_list (map (\<lambda>x. b_count (?N x) + 1) ys) = length (contents_of ?N ys) + length ys" by (induction ys) simp_all
    then show ?thesis using f(2) by (simp add: st lv)
  qed
  ultimately have "scan_asc fuel fn ?N q pos a = Ret (visit g (drop pos (entries (?N q)) @ contents_of ?N ys) a)"
    using fn by (rule scan_asc_ok)
  moreover have "filter (\<lambda>e. key \<le> fst e) (stored s h root) = drop pos (entries (?N q)) @ contents_of ?N ys"
  proof -
    have "sorted_wrt (<) (keys (?N q))" using n(2,3) by (simp add: strict_sorted_iff)
    then have "filter (\<lambda>e. key \<le> fst e) (entries (?N q)) = drop pos (entries (?N q))"
      using entries_from j(2) by (simp add: sorted_wrt_map)
    moreover have "filter (\<lambda>e. key \<le> fst e) (contents_of ?N xs) = []"
      using q(3) unfolding sides_def filter_empty_conv not_le by blast
    moreover have "filter (\<lambda>e. key \<le> fst e) (contents_of ?N ys) = contents_of ?N ys"
      using q(3) by (intro filter_True) (force simp: sides_def intro: less_imp_le)
    ultimately show ?thesis unfolding st filter_append by simp
  qed
  ultimately show ?thesis using q(1) j(1) by (simp add: scanAsc_def)
qed

end
