(* ===== verification/Btree_Fits.thy ===== *)
theory Btree_Fits
  imports Btree_Split
begin

text \<open>
  A half of a node that is split may be too large for its page, because the separator is a fence of
  it. Then the copy does not return: an offset wraps around and the write is out of bounds, or the
  last assertion fails. So a split that returns has had room for both halves.
\<close>

section \<open>A copy that returns had room\<close>

definition shaped :: "bnode \<Rightarrow> bool" where
  "shaped n \<longleftrightarrow> length (b_heap n) = 4096 \<and> length (b_slot n) = 398 \<and> dataOffset n \<le> 4096"

lemma layout_shaped: "layout n \<Longrightarrow> shaped n"
  by (simp add: shaped_def layoutD)

lemma sub16_room:
  assumes "sub16 d s + r \<le> 4096" and "s \<le> 20000" and "d \<le> 4096"
  shows "s \<le> d" "sub16 d s = d - s"
proof -
  show "s \<le> d"
  proof (rule ccontr)
    assume "\<not> s \<le> d"
    then have "d + 2 ^ 32 - s mod 2 ^ 32 = (d + 2 ^ 16 - s) + 65535 * 2 ^ 16" using assms(2) by simp
    then have "sub16 d s = (d + 2 ^ 16 - s) mod 2 ^ 16" unfolding sub16_def by (metis mod_mult_self1)
    then show False using \<open>\<not> s \<le> d\<close> assms by simp
  qed
  then show "sub16 d s = d - s" using assms(3) by simp
qed

lemma mem_put_shaped:
  assumes "mem_put off bs n = Ret n'" and "shaped n"
  shows "shaped n'" "off + length bs \<le> 4096" "dataOffset n' = dataOffset n" "prefixLen n' = prefixLen n" "b_count n' = b_count n"
  using assms by (auto simp: mem_put_def shaped_def split: if_splits)

lemma set_slot_shaped:
  assumes "set_slot j sl n = Ret n'" and "shaped n"
  shows "shaped n'" "dataOffset n' = dataOffset n" "prefixLen n' = prefixLen n" "b_count n' = b_count n"
  using assms by (auto simp: set_slot_def run_simps aset_def shaped_def split: if_splits)

lemma store_step:
  assumes r: "storeKeyValue j skey pay d = Ret d'" and d: "shaped d" and k: "prefixLen d \<le> length skey" "length skey \<le> 9000" "length pay \<le> 9000"
  shows "shaped d'" "prefixLen d' = prefixLen d" "b_count d' = b_count d"
    "length skey - prefixLen d + length pay \<le> dataOffset d" "dataOffset d' = dataOffset d - (length skey - prefixLen d + length pay)"
proof -
  define s where "s = length skey - prefixLen d + length pay"
  define off where "off = sub16 (dataOffset d) s"
  have kl: "sub32 (length skey) (prefixLen d) = length skey - prefixLen d" "add32 (length skey - prefixLen d) (length pay) = s"
    using k by (simp_all add: s_def)
  define d1 where "d1 = d\<lparr>dataOffset := off, spaceUsed := add16 (spaceUsed d) s\<rparr>"
  obtain d2 d3 where R: "set_slot j \<lparr>s_offset = off, s_keyLen = (length skey - prefixLen d) mod 2 ^ 16, s_payloadLen = length pay mod 2 ^ 16,
      s_head = key_head (drop (prefixLen d) skey)\<rparr> d1 = Ret d2" "mem_put off (drop (prefixLen d) skey) d2 = Ret d3"
    "mem_put (off + (length skey - prefixLen d)) pay d3 = Ret d'"
    using r by (auto simp: storeKeyValue_def Let_def kl run_simps d1_def off_def)
  have h: "length (b_heap d2) = 4096"
    using R(1) d by (auto simp: set_slot_def run_simps aset_def shaped_def d1_def split: if_splits)
  then have "off + 0 \<le> 4096" using R(2) by (simp add: mem_put_def split: if_splits)
  moreover have "s \<le> 20000" using k by (simp add: s_def)
  ultimately have o: "s \<le> dataOffset d" "off = dataOffset d - s" using sub16_room [of "dataOffset d" s 0] d by (simp_all add: off_def shaped_def)
  have "shaped d1" using d o(2) by (simp add: shaped_def d1_def le_diff_conv)
  note S = set_slot_shaped [OF R(1) this]
  note P = mem_put_shaped [OF R(2) S(1)]
  note Q = mem_put_shaped [OF R(3) P(1)]
  show "shaped d'" "prefixLen d' = prefixLen d" "b_count d' = b_count d" using Q(1,4,5) P(4,5) S(3,4) by (simp_all add: d1_def)
  show "length skey - prefixLen d + length pay \<le> dataOffset d" using o(1) by (simp add: s_def)
  show "dataOffset d' = dataOffset d - (length skey - prefixLen d + length pay)" using Q(3) P(3) S(2) o(2) by (simp add: d1_def s_def)
qed

lemma copy_step:
  assumes src: "layout src" "i < b_count src" and d: "shaped d" and k: "prefixLen d \<le> length (fst (entry_at src i))"
    and r: "(if prefixLen src \<le> prefixLen d then copy_cut (prefixLen d - prefixLen src) src else copyKeyValue src) i d j = Ret d'"
  shows "shaped d'" "prefixLen d' = prefixLen d" "b_count d' = b_count d"
    "entry_size (prefixLen d) (entry_at src i) \<le> dataOffset d" "dataOffset d' = dataOffset d - entry_size (prefixLen d) (entry_at src i)"
proof -
  note X = slot_facts [OF src] and P = prefix_facts [OF src(1)] and F = fence_lengths(3) [OF src(1)]
  have so: "slot_ok src (b_slot src ! i)" using layoutD(12) [OF src] .
  have lens: "length (key_at src i) \<le> 4096" "length (pay_at src i) \<le> 4096" "length (prefix src) \<le> 4096"
    using so X(4,5) P(1,3) F by (simp_all add: slot_ok_def sizes)
  have "shaped d' \<and> prefixLen d' = prefixLen d \<and> b_count d' = b_count d \<and> entry_size (prefixLen d) (entry_at src i) \<le> dataOffset d \<and>
    dataOffset d' = dataOffset d - entry_size (prefixLen d) (entry_at src i)"
  proof (cases "prefixLen src \<le> prefixLen d")
    case False
    let ?pre = "prefix src" and ?key = "key_at src i" and ?pay = "pay_at src i"
    have st: "storeKeyValue j (?pre @ ?key) ?pay d = Ret d'"
      using r False X(2,3) P(6) by (simp add: copyKeyValue_def)
    have "prefixLen d \<le> length (?pre @ ?key)" using k by (simp add: entry_at_def)
    moreover have "length (?pre @ ?key) \<le> 9000"
      using lens(1,3) by simp
    ultimately show ?thesis using store_step [OF st d] lens(2) by (simp add: entry_at_def entry_size_def)
  next
    case True
    define diff where "diff = prefixLen d - prefixLen src"
    let ?sl = "b_slot src ! i"
    define s where "s = entry_size (prefixLen d) (entry_at src i)"
    have df: "diff \<le> s_keyLen ?sl" using k True P(3) X(4) by (simp add: diff_def entry_at_def)
    have se: "s = s_keyLen ?sl - diff + s_payloadLen ?sl"
      using True P(3) X(4,5) by (simp add: s_def entry_size_def entry_at_def diff_def)
    have kl: "sub32 (s_keyLen ?sl) diff = s_keyLen ?sl - diff" "add32 (s_keyLen ?sl - diff) (s_payloadLen ?sl) = s"
      using df lens X(4,5) by (simp_all add: se)
    define off where "off = sub16 (dataOffset d) s"
    define d1 where "d1 = d\<lparr>dataOffset := off, spaceUsed := add16 (spaceUsed d) s\<rparr>"
    obtain bs d2 sl where R: "mem_get src (s_offset ?sl + diff) s = Ret bs" "set_slot j sl d1 = Ret d2" "mem_put off bs d2 = Ret d'"
      using r True X(1) by (auto simp: copy_cut_def Let_def run_simps kl d1_def off_def simp flip: diff_def)
    have h: "length (b_heap d2) = 4096" using R(2) d by (auto simp: set_slot_def run_simps aset_def shaped_def d1_def split: if_splits)
    then have "off + 0 \<le> 4096" using R(3) by (simp add: mem_put_def split: if_splits)
    moreover have "s \<le> 20000" using lens X(4,5) by (simp add: se)
    ultimately have o: "s \<le> dataOffset d" "off = dataOffset d - s" using sub16_room [of "dataOffset d" s 0] d by (simp_all add: off_def shaped_def)
    have "shaped d1" using d o(2) by (simp add: shaped_def d1_def le_diff_conv)
    note S = set_slot_shaped [OF R(2) this]
    note Q = mem_put_shaped [OF R(3) S(1)]
    show ?thesis using Q(1,3,4,5) S(2-4) o by (simp add: d1_def s_def)
  qed
  then show "shaped d'" "prefixLen d' = prefixLen d" "b_count d' = b_count d"
    "entry_size (prefixLen d) (entry_at src i) \<le> dataOffset d" "dataOffset d' = dataOffset d - entry_size (prefixLen d) (entry_at src i)"
    by simp_all
qed

lemma copy_loop_room:
  assumes src: "layout src" and d: "shaped d" and es: "es = take k (drop i (entries src))" "i + k \<le> b_count src"
    and pre: "\<forall>e \<in> set es. prefixLen d \<le> length (fst e)"
    and r: "copy_loop (if prefixLen src \<le> prefixLen d then copy_cut (prefixLen d - prefixLen src) src else copyKeyValue src) k i j d = Ret d'"
  shows "entries_size (prefixLen d) es \<le> dataOffset d" "dataOffset d' = dataOffset d - entries_size (prefixLen d) es" "b_count d' = b_count d"
proof -
  have "entries_size (prefixLen d) es \<le> dataOffset d \<and> dataOffset d' = dataOffset d - entries_size (prefixLen d) es \<and> b_count d' = b_count d"
    using d es pre r
  proof (induction k arbitrary: i j d es)
    case (Suc k)
    let ?e = "entry_at src i" and ?es = "take k (drop (Suc i) (entries src))"
    have i: "i < b_count src" using Suc.prems(3) by simp
    have es: "es = ?e # ?es" using Suc.prems(2) i by (simp add: Cons_nth_drop_Suc [symmetric])
    obtain m where m: "(if prefixLen src \<le> prefixLen d then copy_cut (prefixLen d - prefixLen src) src else copyKeyValue src) i d j = Ret m"
      "copy_loop (if prefixLen src \<le> prefixLen d then copy_cut (prefixLen d - prefixLen src) src else copyKeyValue src) k (i + 1) (j + 1) m = Ret d'"
      using Suc.prems(5) by (auto simp: run_simps)
    have k: "prefixLen d \<le> length (fst ?e)" "\<forall>e \<in> set ?es. prefixLen d \<le> length (fst e)"
      using Suc.prems(4) es by (metis list.set_intros)+
    note C = copy_step [OF src i Suc.prems(1) k(1) m(1)]
    have "entries_size (prefixLen m) ?es \<le> dataOffset m \<and> dataOffset d' = dataOffset m - entries_size (prefixLen m) ?es \<and> b_count d' = b_count m"
      by (rule Suc.IH [of m ?es "i + 1" "j + 1"]) (use C(1) k(2) Suc.prems(3) m(2) in \<open>simp_all only: C(2), simp_all\<close>)
    moreover have "a + b \<le> c" if "a \<le> c" "b \<le> c - a" for a b c :: nat using that by simp
    ultimately show ?case using C es by (simp add: diff_diff_add)
  qed simp
  then show "entries_size (prefixLen d) es \<le> dataOffset d" "dataOffset d' = dataOffset d - entries_size (prefixLen d) es" "b_count d' = b_count d"
    by simp_all
qed

lemma half_room:
  assumes lay: "layout n" and raw: "raw_ok raw" and es: "es = take k (drop i (entries n))" "i + k \<le> b_count n"
    and rng: "\<forall>e \<in> set es. in_range l u (fst e)" and len: "length l + length u \<le> 3984"
    and r: "setFences l u (node_new leaf raw) = Ret t" "copyKeyValueRange n 0 i k t = Ret t'"
  shows "fits l u es"
proof -
  have t: "layout t" "b_count t = 0" "prefixLen t = common_len l u" "low_key t = l" "dataOffset t + spaceUsed t = 4096" "spaceUsed t = length l + length u"
    using setFences_new [OF raw len, of leaf] r(1) by auto
  have c: "k \<le> 398" using es(2) layoutD(6) [OF lay] by simp
  obtain d where d: "copy_loop (if prefixLen n \<le> prefixLen t then copy_cut (prefixLen t - prefixLen n) n else copyKeyValue n) k i 0 t = Ret d"
    "slotsEnd (add16 (b_count d) k) \<le> dataOffset d"
    using r(2) by (auto simp: copyKeyValueRange_def Let_def run_simps)
  have "prefixLen t \<le> length (fst e)" if "e \<in> set es" for e
  proof -
    have "take (prefixLen t) (fst e) = prefix t" using in_range_prefix rng that prefix_facts(4) [OF t(1)] by (simp add: t(3,4))
    then have "length (take (prefixLen t) (fst e)) = prefixLen t" using prefix_facts(3) [OF t(1)] by simp
    then show ?thesis by simp
  qed
  then have "\<forall>e \<in> set es. prefixLen t \<le> length (fst e)" by blast
  note R = copy_loop_room [OF lay layout_shaped [OF t(1)] es this d(1)]
  have "add16 (b_count d) k = k" using R(3) t(2) c by simp
  moreover have "length es = k" using es by simp
  ultimately show ?thesis using d(2) R(1,2) t(3,5,6) by (simp add: fits_def sizes)
qed

section \<open>A split that returns\<close>

lemma split_fits:
  assumes ok: "node_ok n" "raw_ok raw" "raw_ok page" and s: "s < b_count n"
    and rng: "\<forall>e \<in> set (left_part n s). in_range (low_key n) sep (fst e)" "\<forall>e \<in> set (right_part n s). in_range sep (upp_key n) (fst e)"
    and len: "length (low_key n) + length sep \<le> 3984" "length sep + length (upp_key n) \<le> 3984"
    and r: "splitNode raw page s sep n p = Ret res"
  shows "can_split n s sep"
proof -
  have lay: "layout n" using ok(1) by (simp add: node_ok_def)
  note Fl = fence_lengths [OF lay]
  have c: "b_count n \<le> 398" using layoutD(6) [OF lay] .
  let ?k = "if isLeaf n then s + 1 else s"
  obtain l0 r0 l1 r1 where R: "0 < s" "setFences (low_key n) sep (node_new (isLeaf n) raw) = Ret l0"
    "setFences sep (upp_key n) (node_new (isLeaf n) page) = Ret r0"
    "copyKeyValueRange n 0 0 ?k l0 = Ret l1"
    "copyKeyValueRange n 0 (if isLeaf n then b_count l1 else b_count l1 + 1)
      (if isLeaf n then sub32 (b_count n) (b_count l1) else sub32 (sub32 (b_count n) (b_count l1)) 1) r0 = Ret r1"
  proof (cases "isLeaf n")
    case True
    then show ?thesis using r that by (auto simp: splitNode_def Let_def run_simps Fl(5,6))
  next
    case False
    then show ?thesis using r that by (auto simp: splitNode_def Let_def run_simps Fl(5,6))
  qed
  have lp: "left_part n s = take ?k (drop 0 (entries n))" "0 + ?k \<le> b_count n" using s by (simp_all add: left_part_def)
  have rp: "right_part n s = take (b_count n - (s + 1)) (drop (s + 1) (entries n))" "s + 1 + (b_count n - (s + 1)) \<le> b_count n"
    using s by (simp_all add: right_part_def)
  have fl: "fits (low_key n) sep (left_part n s)" by (rule half_room [OF lay ok(2) lp rng(1) len(1) R(2,4)])
  have "b_count l1 = ?k" using half_ok [OF lay ok(2) lp rng(1) fl, of "isLeaf n"] R(2,4) by auto
  then have "(if isLeaf n then b_count l1 else b_count l1 + 1) = s + 1"
    "(if isLeaf n then sub32 (b_count n) (b_count l1) else sub32 (sub32 (b_count n) (b_count l1)) 1) = b_count n - (s + 1)"
    using s c by simp_all
  then have cr: "copyKeyValueRange n 0 (s + 1) (b_count n - (s + 1)) r0 = Ret r1" using R(5) by simp
  have "fits sep (upp_key n) (right_part n s)" by (rule half_room [OF lay ok(3) rp rng(2) len(2) R(3) cr])
  then show ?thesis using R(1) s rng fl by (simp add: can_split_def)
qed

end
