(* ===== verification/Btree_Grow.thy ===== *)
theory Btree_Grow
  imports Btree_Lookup Btree_Fits
begin

text \<open>
  A split in the tree: the node and its new sibling cover the range of the node, the parent gets
  the separator, and the content and the chain of the leaves stay the same.
\<close>

section \<open>Chains of leaves\<close>

definition chain :: "(PID \<Rightarrow> bnode) \<Rightarrow> PID list \<Rightarrow> PID \<Rightarrow> bool" where
  "chain N qs e \<longleftrightarrow> map (\<lambda>q. b_link (N q)) qs = tl qs @ [e]"

lemma links_chain: "links N qs = chain N qs noNeighbour"
  by (simp add: links_def chain_def)

lemma chain_append: "qs \<noteq> [] \<Longrightarrow> rs \<noteq> [] \<Longrightarrow> chain N (qs @ rs) e \<longleftrightarrow> chain N qs (hd rs) \<and> chain N rs e"
proof (induction qs)
  case (Cons q qs)
  show ?case
  proof (cases qs)
    case Nil
    then show ?thesis using Cons.prems by (cases rs) (auto simp: chain_def)
  next
    case (Cons q' qs')
    then show ?thesis using Cons.IH \<open>rs \<noteq> []\<close> by (auto simp: chain_def)
  qed
qed simp

text \<open>A part of the chain that is replaced by another with the same first page and the same content.\<close>

definition same_leaves :: "(PID \<Rightarrow> bnode) \<Rightarrow> (PID \<Rightarrow> bnode) \<Rightarrow> PID list \<Rightarrow> PID list \<Rightarrow> bool" where
  "same_leaves N N' L L' \<longleftrightarrow> L \<noteq> [] \<and> L' \<noteq> [] \<and> hd L' = hd L \<and> (\<forall>e. chain N L e \<longrightarrow> chain N' L' e) \<and> contents_of N' L' = contents_of N L"

lemma chain_cong: "(\<And>x. x \<in> set qs \<Longrightarrow> N' x = N x) \<Longrightarrow> chain N' qs e = chain N qs e"
  by (simp add: chain_def cong: map_cong)

lemma same_leaves_refl: "L \<noteq> [] \<Longrightarrow> (\<And>x. x \<in> set L \<Longrightarrow> N' x = N x) \<Longrightarrow> same_leaves N N' L L"
proof -
  assume L: "L \<noteq> []" "\<And>x. x \<in> set L \<Longrightarrow> N' x = N x"
  then have "map (\<lambda>q. entries (N' q)) L = map (\<lambda>q. entries (N q)) L" "chain N' L e = chain N L e" for e
    using chain_cong [of L N' N] by simp_all
  then show "same_leaves N N' L L" using L(1) by (simp only: same_leaves_def) simp
qed

lemma same_leaves_append:
  assumes "same_leaves N N' L L'" and "same_leaves N N' M M'"
  shows "same_leaves N N' (L @ M) (L' @ M')"
  using assms unfolding same_leaves_def by (simp add: chain_append)

lemma same_leaves_context:
  assumes s: "same_leaves N N' L L'" and f: "\<forall>x \<in> set xs \<union> set ys. N' x = N x"
  shows "same_leaves N N' (xs @ L @ ys) (xs @ L' @ ys)"
proof -
  have "same_leaves N N' (L @ ys) (L' @ ys)"
    using s same_leaves_append [OF s same_leaves_refl [of ys]] f by (cases "ys = []") auto
  then show ?thesis using same_leaves_append [OF same_leaves_refl [of xs]] f by (cases "xs = []") auto
qed

lemma leaves_nonempty [simp]: "leaves N h p \<noteq> []"
  by (induction h arbitrary: p) (simp_all add: children_def)

lemma hd_concat: "xss \<noteq> [] \<Longrightarrow> hd xss \<noteq> [] \<Longrightarrow> hd (concat xss) = hd (hd xss)"
  by (cases xss) simp_all

section \<open>The halves of a node\<close>

lemma ranges_split:
  assumes "length cs = length ks + 1" and "s < length ks"
  shows "ranges (take (Suc s) cs) l (take s ks) (ks ! s) = take (Suc s) (ranges cs l ks u)"
    and "ranges (drop (Suc s) cs) (ks ! s) (drop (Suc s) ks) u = drop (Suc s) (ranges cs l ks u)"
proof -
  have "ranges (take (Suc s) cs) l (take s ks) (ks ! s) = take (Suc s) (ranges cs l ks u) \<and>
    ranges (drop (Suc s) cs) (ks ! s) (drop (Suc s) ks) u = drop (Suc s) (ranges cs l ks u)"
    using assms
  proof (induction cs l ks u arbitrary: s rule: ranges.induct)
    case (1 c cs l k ks u)
    show ?case
    proof (cases s)
      case 0
      then show ?thesis using 1 by (cases cs) auto
    next
      case (Suc i)
      then show ?thesis using 1 by (cases cs) auto
    qed
  qed auto
  then show "ranges (take (Suc s) cs) l (take s ks) (ks ! s) = take (Suc s) (ranges cs l ks u)"
    "ranges (drop (Suc s) cs) (ks ! s) (drop (Suc s) ks) u = drop (Suc s) (ranges cs l ks u)" by simp_all
qed

lemma split_kids:
  assumes r: "split_result n s sep new left right" and leaf: "\<not> isLeaf n" and s: "s < b_count n" and sep: "sep = keys n ! s"
  shows "kids left lo sep = take (Suc s) (kids n lo hi)" "kids right sep hi = drop (Suc s) (kids n lo hi)"
proof -
  have e: "entries left = take s (entries n)" "entries right = drop (Suc s) (entries n)" "b_link left = children n ! s" "b_link right = b_link n"
    using r leaf by (simp_all add: split_result_def left_part_def right_part_def)
  have k: "keys left = take s (keys n)" "keys right = drop (Suc s) (keys n)" by (simp_all add: e take_map drop_map)
  have "children left = take (Suc s) (children n)"
    using s by (simp add: children_def e take_Suc_conv_app_nth nth_append take_map)
  moreover have "children right = drop (Suc s) (children n)" using s by (simp add: children_def e drop_map)
  ultimately show "kids left lo sep = take (Suc s) (kids n lo hi)" "kids right sep hi = drop (Suc s) (kids n lo hi)"
    using ranges_split [where cs = "children n" and ks = "keys n" and s = s and l = lo and u = hi] s by (simp_all only: kids_def k sep children_length length_map entries_length)
qed

lemma split_nodes_at:
  assumes n: "node_at p lo hi n" and c: "can_split n s sep" and r: "split_result n s sep new left right"
    and sep: "lo < sep" "hi = [] \<or> sep < hi"
  shows "node_at p lo sep left" "node_at new sep hi right" "set (entries left) \<subseteq> set (entries n)" "set (entries right) \<subseteq> set (entries n)"
proof -
  have e: "entries left = left_part n s" "entries right = right_part n s" using r by (simp_all add: split_result_def)
  have d: "distinct (keys n)" using n by (simp add: node_at_def)
  have "distinct (keys left)" "distinct (keys right)"
    unfolding e left_part_def right_part_def using d by (simp_all add: distinct_take distinct_drop flip: take_map drop_map)
  moreover have "low_key n = lo" "upp_key n = hi" "b_pid n = p" using n by (simp_all add: node_at_def)
  ultimately show "node_at p lo sep left" "node_at new sep hi right"
    using c r sep by (auto simp: node_at_def fenced_def can_split_def split_result_def)
  show "set (entries left) \<subseteq> set (entries n)" "set (entries right) \<subseteq> set (entries n)"
    unfolding e left_part_def right_part_def by (auto dest: in_set_takeD in_set_dropD)
qed

lemma kids_tree_frame:
  assumes "\<forall>x \<in> set (nodes_of N h K). N' x = N x" and "\<forall>(c, lo, hi) \<in> set K. tree N h c lo hi"
  shows "\<forall>(c, lo, hi) \<in> set K. tree N' h c lo hi"
  using kids_frame(1) [OF assms(1)] assms(2) by fastforce

lemma split_tree:
  assumes t: "tree N k p lo hi" and d: "distinct (nodes N k p)" and new: "new \<notin> set (nodes N k p)"
    and c: "can_split (N p) s sep" and r: "split_result (N p) s sep new left right" and sep: "lo < sep" "hi = [] \<or> sep < hi"
    and inner: "\<not> isLeaf (N p) \<Longrightarrow> sep = keys (N p) ! s"
    and N': "N' p = left" "N' new = right" "\<And>x. x \<in> set (nodes N k p) \<Longrightarrow> x \<noteq> p \<Longrightarrow> N' x = N x"
  shows "tree N' k p lo sep" "tree N' k new sep hi" "distinct (nodes N' k p @ nodes N' k new)"
    "set (nodes N' k p @ nodes N' k new) \<subseteq> set (nodes N k p) \<union> {new}"
    "same_leaves N N' (leaves N k p) (leaves N' k p @ leaves N' k new)"
proof -
  have s: "s < b_count (N p)" using c by (simp add: can_split_def)
  have "tree N' k p lo sep \<and> tree N' k new sep hi \<and> distinct (nodes N' k p @ nodes N' k new) \<and>
    set (nodes N' k p @ nodes N' k new) \<subseteq> set (nodes N k p) \<union> {new} \<and>
    same_leaves N N' (leaves N k p) (leaves N' k p @ leaves N' k new)"
  proof (cases k)
    case 0
    have n: "leaf_ok p lo hi (N p)" using t 0 by simp
    then have na: "node_at p lo hi (N p)" "isLeaf (N p)" by (simp_all add: leaf_ok_def)
    note S = split_nodes_at [OF na(1) c r sep]
    have "leaf_ok p lo sep left" "leaf_ok new sep hi right"
      using S n r by (auto simp: leaf_ok_def split_result_def)
    moreover have "same_leaves N N' [p] [p, new]"
      using r na(2) s N'(1,2) by (simp add: same_leaves_def chain_def split_result_def left_part_def right_part_def)
    ultimately show ?thesis using 0 N' new by auto
  next
    case (Suc h)
    let ?K = "kids (N p) lo hi"
    have n: "inner_ok p lo hi (N p)" "\<forall>(c, l, u) \<in> set ?K. tree N h c l u" using t Suc by simp_all
    then have na: "node_at p lo hi (N p)" "\<not> isLeaf (N p)" by (simp_all add: inner_ok_def)
    note S = split_nodes_at [OF na(1) c r sep] 
    note K = split_kids(1) [OF r na(2) s inner [OF na(2)], of lo hi] split_kids(2) [OF r na(2) s inner [OF na(2)], where lo = lo and hi = hi]
    have io: "inner_ok p lo sep left" "inner_ok new sep hi right"
      using S n(1) r by (auto simp: inner_ok_def split_result_def child_ok_def)
    let ?A = "take (Suc s) ?K" and ?B = "drop (Suc s) ?K"
    have nd: "nodes N k p = p # nodes_of N h ?A @ nodes_of N h ?B"
      unfolding Suc nodes_kids [of N h p lo hi] by (metis append_take_drop_id concat_append map_append)
    have fr: "\<forall>x \<in> set (nodes_of N h ?A). N' x = N x" "\<forall>x \<in> set (nodes_of N h ?B). N' x = N x"
      using N'(3) d unfolding nd by auto
    note FA = kids_frame(2,3) [OF fr(1)] and FB = kids_frame(2,3) [OF fr(2)]
    have tr: "tree N' k p lo sep" "tree N' k new sep hi"
    proof -
      have "\<forall>(c, l, u) \<in> set ?A. tree N' h c l u" "\<forall>(c, l, u) \<in> set ?B. tree N' h c l u"
        using n(2) set_take_subset [of "Suc s" ?K] set_drop_subset [of "Suc s" ?K]
        by (intro kids_tree_frame [OF fr(1)] kids_tree_frame [OF fr(2)] ballI; blast)+
      then show "tree N' k p lo sep" "tree N' k new sep hi" using io unfolding Suc by (simp_all only: tree.simps N' K)
    qed
    have n1: "nodes N' k p = p # nodes_of N h ?A" "nodes N' k new = new # nodes_of N h ?B"
      unfolding Suc nodes_kids [of N' h p lo sep] nodes_kids [of N' h new sep hi] N' K FA FB by simp_all
    have l0: "leaves N k p = leaves_of N h ?A @ leaves_of N h ?B"
      unfolding Suc leaves_kids [of N h p lo hi] by (metis append_take_drop_id concat_append map_append)
    have l1: "leaves N' k p @ leaves N' k new = leaves_of N h ?A @ leaves_of N h ?B"
      unfolding Suc leaves_kids [of N' h p lo sep] leaves_kids [of N' h new sep hi] N' K FA FB ..
    have "set (leaves_of N h K) \<subseteq> set (nodes_of N h K)" for K using leaves_nodes by fastforce
    then have "N' x = N x" if "x \<in> set (leaves N k p)" for x using that fr unfolding l0 set_append by blast
    then have "same_leaves N N' (leaves N k p) (leaves N' k p @ leaves N' k new)"
      unfolding l1 l0 [symmetric] by (intro same_leaves_refl leaves_nonempty)
    moreover have "distinct (nodes N' k p @ nodes N' k new)" using d new unfolding n1 nd by auto
    moreover have "set (nodes N' k p @ nodes N' k new) \<subseteq> set (nodes N k p) \<union> {new}" unfolding n1 nd by auto
    ultimately show ?thesis using tr by blast
  qed
  then show "tree N' k p lo sep" "tree N' k new sep hi" "distinct (nodes N' k p @ nodes N' k new)"
    "set (nodes N' k p @ nodes N' k new) \<subseteq> set (nodes N k p) \<union> {new}"
    "same_leaves N N' (leaves N k p) (leaves N' k p @ leaves N' k new)" by simp_all
qed

section \<open>The parent of the halves\<close>

lemma between_kids:
  assumes n: "inner_ok q l u n" and K: "kids n l u = A @ (p, lo, hi) # B" and sep: "lo < sep" "hi = [] \<or> sep < hi"
  shows "located (keys n) sep (length A) False" "children n ! length A = p" "length A \<le> b_count n" "in_range l u sep"
    "kids n l u ! length A = (p, lo, hi)"
proof -
  let ?j = "length A"
  have len: "length (kids n l u) = b_count n + 1" by simp
  then show j: "?j \<le> b_count n" unfolding K by simp
  show k: "kids n l u ! ?j = (p, lo, hi)" unfolding K by simp
  have e: "children n ! ?j = p" "lo = (l # keys n) ! ?j" "hi = (keys n @ [u]) ! ?j" using kids_nth [OF j, of l u] k by simp_all
  then show "children n ! ?j = p" by simp
  have srt: "sorted (keys n)" using n by (simp add: inner_ok_def node_at_def node_ok_def)
  have nn: "keys n ! i \<noteq> []" if "i < b_count n" for i
  proof -
    have "keys n ! i \<in> set (keys n)" using that by (intro nth_mem) simp
    then show ?thesis using n by (auto simp: inner_ok_def)
  qed
  have "keys n ! i < sep" if "i < ?j" for i
  proof -
    have "keys n ! i \<le> keys n ! (?j - 1)" by (rule sorted_nth_mono [OF srt]) (use that j in simp_all)
    moreover have "lo = keys n ! (?j - 1)" using e(2) that by (cases ?j) (simp_all del: nth_map)
    ultimately show ?thesis using sep(1) by (simp del: nth_map)
  qed
  moreover have "sep < keys n ! i" if "?j \<le> i" "i < b_count n" for i
  proof -
    have "?j < b_count n" using that by simp
    then have h: "hi = keys n ! ?j" using e(3) by (simp add: nth_append del: nth_map)
    have "keys n ! ?j \<le> keys n ! i" by (rule sorted_nth_mono [OF srt]) (use that in simp_all)
    moreover have "sep < hi" using sep(2) h nn [of ?j] that by simp
    ultimately show ?thesis using h by (simp del: nth_map)
  qed
  ultimately show "located (keys n) sep ?j False" using j by (simp add: located_def del: nth_map)
  have "(p, lo, hi) \<in> set (kids n l u)" unfolding K by simp
  moreover have "in_range lo hi sep" using sep by (auto simp: in_range_def intro: order.strict_implies_order)
  ultimately show "in_range l u sep" by (rule kid_range [OF n])
qed

text \<open>A node that gets the separator and the two halves for one child.\<close>

definition adopted :: "bnode \<Rightarrow> nat \<Rightarrow> u8 list \<Rightarrow> PID \<Rightarrow> PID \<Rightarrow> bnode \<Rightarrow> bool" where
  "adopted n j sep p new n' \<longleftrightarrow> node_ok n' \<and> child_ok n' \<and> keys n' = put j sep (keys n) \<and> children n' = put j p ((children n)[j := new]) \<and>
     b_pid n' = b_pid n \<and> isLeaf n' = isLeaf n \<and> low_key n' = low_key n \<and> upp_key n' = upp_key n"

lemma distinct_put: "x \<notin> set xs \<Longrightarrow> distinct xs \<Longrightarrow> distinct (put j x xs)"
  by (simp add: put_def) (metis append_take_drop_id distinct_append in_set_dropD in_set_takeD)

lemma adopted_ok:
  assumes n: "inner_ok q l u n" and K: "kids n l u = A @ (p, lo, hi) # B" and sep: "lo < sep" "hi = [] \<or> sep < hi"
    and len: "length sep \<le> maxKVSize" and n': "adopted n (length A) sep p new n'"
  shows "inner_ok q l u n'" "kids n' l u = A @ (p, lo, sep) # (new, sep, hi) # B"
proof -
  note B = between_kids [OF n K sep]
  have "sep \<notin> set (keys n)" using located_mem [OF _ B(1)] n by (simp add: inner_ok_def node_at_def node_ok_def)
  then have "distinct (put (length A) sep (keys n))" using n by (intro distinct_put) (simp_all add: inner_ok_def node_at_def)
  then have "distinct (keys n')" using n' by (simp add: adopted_def)
  moreover have ks: "set (keys n') = insert sep (set (keys n))" using n' by (simp only: adopted_def set_put)
  moreover have "in_range l u k" if "k \<in> set (keys n')" for k
  proof -
    have "k = sep \<or> k \<in> set (keys n)" using that ks by blast
    then show ?thesis using n B(4) by (auto simp: inner_ok_def node_at_def fenced_def)
  qed
  moreover have "k \<noteq> [] \<and> length k \<le> maxKVSize" if "k \<in> set (keys n')" for k
  proof -
    have "k = sep \<or> k \<in> set (keys n)" using that ks by blast
    moreover have "sep \<noteq> []" using sep(1) by auto
    ultimately show ?thesis using len n by (auto simp: inner_ok_def)
  qed
  ultimately show "inner_ok q l u n'" using n n' by (auto simp: adopted_def inner_ok_def node_at_def fenced_def)
  have "kids n' l u = take (length A) (kids n l u) @ (p, lo, sep) # (new, sep, hi) # drop (Suc (length A)) (kids n l u)"
    using n' B(3,5) unfolding kids_def adopted_def by (simp add: ranges_put)
  then show "kids n' l u = A @ (p, lo, sep) # (new, sep, hi) # B" unfolding K by simp
qed

lemma split_step:
  assumes t: "tree N (Suc k) q l u" and d: "distinct (nodes N (Suc k) q)" and new: "new \<notin> set (nodes N (Suc k) q)"
    and K: "kids (N q) l u = A @ (p, lo, hi) # B"
    and c: "can_split (N p) s sep" and r: "split_result (N p) s sep new left right" and sep: "lo < sep" "hi = [] \<or> sep < hi"
    and inner: "\<not> isLeaf (N p) \<Longrightarrow> sep = keys (N p) ! s" and len: "length sep \<le> maxKVSize"
    and par: "adopted (N q) (length A) sep p new par"
    and N': "N' = N(p := left, new := right, q := par)"
  shows "tree N' (Suc k) q l u" "distinct (nodes N' (Suc k) q)" "set (nodes N' (Suc k) q) \<subseteq> set (nodes N (Suc k) q) \<union> {new}"
    "same_leaves N N' (leaves N (Suc k) q) (leaves N' (Suc k) q)"
proof -
  have n: "inner_ok q l u (N q)" using t by simp
  note P = adopted_ok [OF n K sep len par]
  have tp: "tree N k p lo hi" using t K by simp
  have nd: "nodes N (Suc k) q = q # nodes_of N k A @ nodes N k p @ nodes_of N k B" using nodes_split K .
  have ne: "q \<notin> set (nodes N k p)" "new \<notin> set (nodes N k p)" "q \<noteq> new" "distinct (nodes N k p)" "p \<noteq> q" "p \<noteq> new"
    using d new root_node [of p N k] unfolding nd by auto
  have Np: "N' p = left" "N' new = right" "N' q = par" "\<And>x. x \<in> set (nodes N k p) \<Longrightarrow> x \<noteq> p \<Longrightarrow> N' x = N x"
    using ne by (auto simp: N')
  note S = split_tree [OF tp ne(4,2) c r sep inner Np(1,2,4)]
  have same: "x \<noteq> q \<Longrightarrow> x \<notin> set (nodes_of N k [(p, lo, hi)]) \<union> {new} \<Longrightarrow> N' x = N x" for x
    using root_node [of p N k] by (auto simp: N')
  have F: "{new} \<inter> set (nodes N (Suc k) q) = {}" using new by blast
  let ?new = "[(p, lo, sep), (new, sep, hi)]"
  have new': "\<forall>(c, lo, hi) \<in> set ?new. tree N' k c lo hi" "distinct (nodes_of N' k ?new)"
    "set (nodes_of N' k ?new) \<subseteq> set (nodes_of N k [(p, lo, hi)]) \<union> {new}"
    using S(1-4) by simp_all
  have K1: "kids (N q) l u = A @ [(p, lo, hi)] @ B" "kids (N' q) l u = A @ ?new @ B" using K P(2) by (simp_all add: Np(3))
  have iq: "inner_ok q l u (N' q)" using P(1) by (simp add: Np(3))
  have R: "tree N' (Suc k) q l u" "distinct (nodes N' (Suc k) q)" "set (nodes N' (Suc k) q) \<subseteq> set (nodes N (Suc k) q) \<union> {new}"
    "leaves N (Suc k) q = leaves_of N k A @ leaves_of N k [(p, lo, hi)] @ leaves_of N k B"
    "leaves N' (Suc k) q = leaves_of N k A @ leaves_of N' k ?new @ leaves_of N k B"
    "\<forall>x \<in> set (leaves_of N k A) \<union> set (leaves_of N k B). N' x = N x"
    by (rule replace_kids [OF t d K1(1) iq K1(2) _ F new'], erule (1) same)+
  show "tree N' (Suc k) q l u" "distinct (nodes N' (Suc k) q)" "set (nodes N' (Suc k) q) \<subseteq> set (nodes N (Suc k) q) \<union> {new}"
    using R(1-3) by simp_all
  show "same_leaves N N' (leaves N (Suc k) q) (leaves N' (Suc k) q)"
  proof -
    have "same_leaves N N' (leaves_of N k [(p, lo, hi)]) (leaves_of N' k ?new)" using S(5) by simp
    from same_leaves_context [OF this R(6)] show ?thesis using R(4,5) by (simp only:)
  qed
qed

section \<open>The separator of a node of the tree\<close>

lemma separator_ok:
  assumes n: "node_at p lo hi n" and i: "isLeaf n \<and> (\<forall>e \<in> set (entries n). pair_ok e) \<or> inner_ok p lo hi n \<and> (\<exists>N h. \<forall>(c, l, u) \<in> set (kids n lo hi). tree N h c l u)"
    and f: "findSeparator ordered n = Ret info" and g: "getSep info n = Ret sep" and s: "0 < sep_slot info"
  shows "sep_len info = length sep" "sep_slot info < b_count n" "lo < sep" "hi = [] \<or> sep < hi" "length sep \<le> maxKVSize"
    "\<not> isLeaf n \<Longrightarrow> sep = keys n ! sep_slot info"
    "\<forall>e \<in> set (left_part n (sep_slot info)). in_range lo sep (fst e)" "\<forall>e \<in> set (right_part n (sep_slot info)). in_range sep hi (fst e)"
proof -
  have ok: "node_ok n" "distinct (keys n)" "sorted (keys n)" and fe: "fenced n" "low_key n = lo" "upp_key n = hi"
    using n by (simp_all add: node_at_def node_ok_def)
  have c: "b_count n > 1" using f by (simp add: findSeparator_def check_def split: if_splits)
  let ?s = "sep_slot info"
  have F: "sep_len info = length sep" "keys n ! ?s \<le> sep" "\<exists>i < b_count n. length sep \<le> length (keys n ! i)"
    "if isLeaf n then ?s + 1 < b_count n \<and> sep < keys n ! (?s + 1) \<and> (?s = 0 \<longleftrightarrow> b_count n = 2)
     else ?s = b_count n div 2 \<and> sep = keys n ! ?s"
    using findSeparator_ok [OF ok(1) c ok(2), of ordered] f g by auto
  show "sep_len info = length sep" by (rule F(1))
  show sc: "?s < b_count n" using F(4) c by (auto split: if_splits)
  have km: "keys n ! i \<in> set (keys n)" if "i < b_count n" for i using that by (intro nth_mem) simp
  have rng: "in_range lo hi (keys n ! i)" if "i < b_count n" for i using km [OF that] fe by (auto simp: fenced_def)
  have less: "keys n ! i < keys n ! j" if "i < j" "j < b_count n" for i j
  proof -
    have "sorted_wrt (<) (keys n)" using ok(2,3) by (simp add: strict_sorted_iff)
    from sorted_wrt_nth_less [OF this \<open>i < j\<close>] show ?thesis using that by simp
  qed
  have ne: "keys n ! ?s \<noteq> []" using less [of 0 ?s] s sc by (auto simp del: nth_map)
  show lo: "lo < sep"
  proof (cases "lo = []")
    case True
    then show ?thesis using F(2) ne by (cases sep) (auto simp del: nth_map)
  next
    case False
    then show ?thesis using rng [OF sc] F(2) by (auto simp: in_range_def simp del: nth_map)
  qed
  show "length sep \<le> maxKVSize"
  proof -
    obtain i where i: "i < b_count n" "length sep \<le> length (keys n ! i)" using F(3) by blast
    have "length (keys n ! i) \<le> maxKVSize" using km [OF i(1)] assms(2) by (auto simp: pair_ok_def inner_ok_def)
    then show ?thesis using i(2) by simp
  qed
  show sp: "\<not> isLeaf n \<Longrightarrow> sep = keys n ! ?s" using F(4) by simp
  show hi: "hi = [] \<or> sep < hi"
  proof (cases "isLeaf n")
    case True
    then show ?thesis using F(4) rng [of "?s + 1"] by (auto simp: in_range_def simp del: nth_map intro: order.strict_trans2)
  next
    case False
    show ?thesis
    proof (cases "?s + 1 < b_count n")
      case True
      then show ?thesis using less [of ?s "?s + 1"] rng [of "?s + 1"] sp [OF False]
        by (auto simp: in_range_def simp del: nth_map intro: order.strict_trans2)
    next
      case last: False
      obtain N h where kt: "\<forall>(c, l, u) \<in> set (kids n lo hi). tree N h c l u" using i False by blast
      have j: "b_count n \<le> b_count n" "?s = b_count n - 1" using last sc by simp_all
      have "kids n lo hi ! b_count n = (children n ! b_count n, keys n ! ?s, hi)"
        using kids_nth [OF j(1), of lo hi] j(2) c by (simp add: nth_append nth_Cons' del: nth_map)
      moreover have "kids n lo hi ! b_count n \<in> set (kids n lo hi)" by (intro nth_mem) simp
      ultimately have "tree N h (children n ! b_count n) (keys n ! ?s) hi" using kt by auto
      then have "\<exists>m. node_at (children n ! b_count n) (keys n ! ?s) hi m" by (cases h) (auto simp: leaf_ok_def inner_ok_def)
      then show ?thesis using sp [OF False] by (auto simp: node_at_def fenced_def)
    qed
  qed
  have upto: "fst e \<le> keys n ! ?s" if le: "e \<in> set (left_part n ?s)" for e
  proof -
    obtain i where i: "i < length (left_part n ?s)" "e = left_part n ?s ! i" using le by (auto simp: in_set_conv_nth)
    then have i': "i \<le> ?s" "i < b_count n" "e = entries n ! i" using sc by (auto simp: left_part_def split: if_splits)
    then show ?thesis using less [of i ?s] sc by (cases "i = ?s") (auto intro: less_imp_le)
  qed
  have le: "set (left_part n ?s) \<subseteq> set (entries n)" "set (right_part n ?s) \<subseteq> set (entries n)"
    by (auto simp: left_part_def right_part_def dest: in_set_takeD in_set_dropD)
  show "\<forall>e \<in> set (left_part n ?s). in_range lo sep (fst e)"
    using upto F(2) fe le(1) unfolding in_range_def fenced_def by (blast intro: order.trans)
  have right: "sep < fst e" if "e \<in> set (right_part n ?s)" for e
  proof -
    obtain i where i: "?s < i" "i < b_count n" "e = entries n ! i"
    proof -
      obtain k where "k < b_count n - Suc ?s" "e = entries n ! (Suc ?s + k)" using \<open>e \<in> set (right_part n ?s)\<close> sc
        by (auto simp: right_part_def in_set_conv_nth)
      then show thesis using that [of "Suc ?s + k"] by simp
    qed
    show ?thesis
    proof (cases "isLeaf n")
      case True
      then have "sep < keys n ! (?s + 1)" "?s + 1 < b_count n" using F(4) by auto
      then show ?thesis using less [of "?s + 1" i] i by (cases "i = ?s + 1") (auto intro: order.strict_trans)
    next
      case False
      then show ?thesis using sp less [OF i(1,2)] i by auto
    qed
  qed
  show "\<forall>e \<in> set (right_part n ?s). in_range sep hi (fst e)"
    using right fe le(2) unfolding in_range_def fenced_def by blast
qed

end
