(* ===== verification/Btree_Insert.thy ===== *)
theory Btree_Insert
  imports Btree_Grow
begin

text \<open>
  Insertion into the tree. A split, with the new root or the splits above that it needs, keeps the
  invariant and the content; an insertion that returns has added its entry at its place.
\<close>

section \<open>A new page\<close>

lemma fresh_ok:
  assumes b: "btree s slot h root" and f: "t_fresh s = Ret (new, page, s1)"
  shows "new \<notin> set (nodes (t_node s) h root)" "unat new = t_alloc s" "raw_ok page" "b_pid page = new" "t_node s1 = t_node s"
    "t_roots s1 = t_roots s" "t_alloc s1 = t_alloc s + 1" "t_tmp s1 = t_tmp s" "t_alloc s + 1 < 2 ^ 64"
proof -
  have F: "t_alloc s < 2 ^ 64 - 1" "new = of_nat (t_alloc s)" "page = (t_node s new)\<lparr>b_dirty := True, b_pid := new\<rparr>"
    "s1 = s\<lparr>t_alloc := t_alloc s + 1\<rparr>"
    using f by (auto simp: t_fresh_def Let_def split: if_splits)
  show u: "unat new = t_alloc s" using F(1,2) by (simp add: unat_of_nat take_bit_eq_mod)
  show "new \<notin> set (nodes (t_node s) h root)" using b u by (auto simp: btree_def)
  show "raw_ok page" using btreeD(6) [OF b, of new] by (simp add: F(3) raw_ok_def)
  show "b_pid page = new" "t_node s1 = t_node s" "t_roots s1 = t_roots s" "t_alloc s1 = t_alloc s + 1" "t_tmp s1 = t_tmp s"
    "t_alloc s + 1 < 2 ^ 64" using F by simp_all
qed

text \<open>The invariant after a change of the pages of the tree and new ones.\<close>

lemma btree_step:
  assumes b: "btree s slot h root" and f: "t_fresh s = Ret (new, page, s1)"
    and t: "tree N' h' root' [] []" "distinct (nodes N' h' root')" "set (nodes N' h' root') \<subseteq> set (nodes (t_node s) h root) \<union> {new}"
      "same_leaves (t_node s) N' (leaves (t_node s) h root) (leaves N' h' root')"
    and raw: "\<And>p. raw_ok (N' p)"
    and s': "t_node s' = N'" "t_roots s' = (t_roots s)[slot := root']" "t_alloc s' = t_alloc s1" "t_tmp s' = t_tmp s"
  shows "btree s' slot h' root'" "stored s' h' root' = stored s h root"
proof -
  note F = fresh_ok [OF b f]
  have "0 < unat q \<and> unat q < t_alloc s'" if "q \<in> set (nodes N' h' root')" for q
  proof -
    have "q = new \<or> q \<in> set (nodes (t_node s) h root)" using that t(3) by blast
    moreover have "\<forall>q \<in> set (nodes (t_node s) h root). 0 < unat q \<and> unat q < t_alloc s" "0 < t_alloc s"
      using b by (simp_all add: btree_def memory_ok_def)
    ultimately show ?thesis using F(2,7) s'(3) by fastforce
  qed
  moreover have "links N' (leaves N' h' root')" using t(4) btreeD(4) [OF b] by (simp add: same_leaves_def links_chain)
  ultimately show "btree s' slot h' root'" using b t(1,2) raw F(7,9) by (simp add: btree_def memory_ok_def s')
  show "stored s' h' root' = stored s h root" using t(4) by (simp add: same_leaves_def contents_def s')
qed

section \<open>A new root\<close>

lemma new_root:
  assumes raw: "raw_ok page" "b_pid page = r"
  shows "inner_ok r [] [] ((node_new False page)\<lparr>b_link := p\<rparr>)" "kids ((node_new False page)\<lparr>b_link := p\<rparr>) [] [] = [(p, [], [])]"
proof -
  let ?n = "(node_new False page)\<lparr>b_link := p\<rparr>"
  note L = node_new_layout [OF raw(1), of False]
  have e: "entries ?n = []" using L(2) by simp
  have "node_ok ?n" using L(1,5) e by (simp add: node_ok_def hinted_def)
  moreover have "b_pid ?n = r" "isLeaf ?n = False" using raw(2) by (simp_all add: node_new_def)
  ultimately show "inner_ok r [] [] ?n" using L(3,4) e by (simp add: inner_ok_def node_at_def fenced_def child_ok_def)
  have "children ?n = [p]" using L(2) by (simp add: children_def)
  then show "kids ?n [] [] = [(p, [], [])]" using L(2) by (simp add: kids_def)
qed

lemma grow_root_ok:
  assumes b: "btree s slot h root" and r: "grow_root slot root s = Ret (q, s')"
  shows "btree s' slot (Suc h) q" "stored s' (Suc h) q = stored s h root" "kids (t_node s' q) [] [] = [] @ (root, [], []) # []"
proof -
  obtain page s1 where f: "t_fresh s = Ret (q, page, s1)"
    and s': "t_node s' = (t_node s)(q := (node_new False page)\<lparr>b_link := root\<rparr>)" "t_roots s' = (t_roots s)[slot := q]"
      "t_alloc s' = t_alloc s1" "t_tmp s' = t_tmp s"
    using r by (auto simp: grow_root_def t_new_def Let_def run_simps setRoot_def aset_def t_put_def t_fresh_def split: if_splits)
  note F = fresh_ok [OF b f] and R = new_root [OF F(3,4), of root]
  let ?N = "t_node s" and ?N' = "t_node s'"
  have q: "?N' q = (node_new False page)\<lparr>b_link := root\<rparr>" by (simp add: s'(1))
  have keep: "?N' x = ?N x" if "x \<in> set (nodes ?N h root)" for x using that F(1) by (auto simp: s'(1))
  note S = subtree_frame [OF keep]
  show K: "kids (?N' q) [] [] = [] @ (root, [], []) # []" using R(2) by (simp add: q)
  have t: "tree ?N' (Suc h) q [] []" using R(1) K btreeD(2) [OF b] S(1) by (simp add: q)
  have nd: "nodes ?N' (Suc h) q = q # nodes ?N h root" unfolding nodes_kids [of ?N' h q "[]" "[]"] K using S(3) by simp
  have lv: "leaves ?N' (Suc h) q = leaves ?N h root" unfolding leaves_kids [of ?N' h q "[]" "[]"] K using S(2) by simp
  have "same_leaves ?N ?N' (leaves ?N h root) (leaves ?N' (Suc h) q)"
    unfolding lv by (rule same_leaves_refl) (use keep leaves_nodes [of ?N h root] in auto)
  moreover have "raw_ok (?N' x)" for x
    using btreeD(6) [OF b, of x] R(1) layout_raw by (cases "x = q") (auto simp: s'(1) inner_ok_def node_at_def node_ok_def)
  moreover have "distinct (nodes ?N' (Suc h) q)" "set (nodes ?N' (Suc h) q) \<subseteq> set (nodes ?N h root) \<union> {q}"
    using btreeD(3) [OF b] F(1) unfolding nd by auto
  ultimately show "btree s' slot (Suc h) q" "stored s' (Suc h) q = stored s h root"
    using btree_step [OF b f t _ _ _ _ refl s'(2-4)] by blast+
qed

section \<open>One split\<close>

lemma kids_short:
  assumes n: "inner_ok q l u n" and K: "(c, lo, hi) \<in> set (kids n l u)" and lu: "length l \<le> maxKVSize" "length u \<le> maxKVSize"
  shows "length lo \<le> maxKVSize" "length hi \<le> maxKVSize"
proof -
  obtain j where j: "j \<le> b_count n" "kids n l u ! j = (c, lo, hi)" using K by (auto simp: in_set_conv_nth less_Suc_eq_le)
  have e: "lo = (l # keys n) ! j" "hi = (keys n @ [u]) ! j" using j kids_nth [OF j(1)] by simp_all
  have "(l # keys n) ! j \<in> set (l # keys n)" "(keys n @ [u]) ! j \<in> set (keys n @ [u])" using j(1) by (intro nth_mem; simp)+
  then show "length lo \<le> maxKVSize" "length hi \<le> maxKVSize" using n lu unfolding e by (auto simp: inner_ok_def)
qed

lemma focus_short:
  "focus N h p l u xs k q lo hi ys \<Longrightarrow> length l \<le> maxKVSize \<Longrightarrow> length u \<le> maxKVSize \<Longrightarrow> length lo \<le> maxKVSize \<and> length hi \<le> maxKVSize"
proof (induction rule: focus.induct)
  case (down h p l u A c cl ch B xs k q lo hi ys)
  have "inner_ok p l u (N p)" "(c, cl, ch) \<in> set (kids (N p) l u)" using down.hyps by simp_all
  then show ?case using kids_short down.IH down.prems by blast
qed simp

lemma focus_distinct: "focus N h p l u xs k q lo hi ys \<Longrightarrow> distinct (nodes N h p) \<Longrightarrow> distinct (nodes N k q)"
proof (induction rule: focus.induct)
  case (down h p l u A c cl ch B xs k q lo hi ys)
  have "nodes N (Suc h) p = p # nodes_of N h A @ nodes N h c @ nodes_of N h B" using nodes_split down.hyps(2) .
  then show ?case using down by simp
qed simp

text \<open>What a node below \<open>q\<close> is, and its separator.\<close>

lemma below:
  assumes fo: "focus N h root [] [] xs (Suc k) q l u ys" and K: "kids (N q) l u = A @ (p, lo, hi) # B"
  shows "inner_ok q l u (N q)" "tree N k p lo hi" "node_at p lo hi (N p)" "isLeaf (N p) \<or> child_ok (N p)"
    "isLeaf (N p) \<and> (\<forall>e \<in> set (entries (N p)). pair_ok e) \<or>
      inner_ok p lo hi (N p) \<and> (\<exists>M h. \<forall>(c, l, u) \<in> set (kids (N p) lo hi). tree M h c l u)"
proof -
  have tq: "tree N (Suc k) q l u" using focus_tree [OF fo] by blast
  then show n: "inner_ok q l u (N q)" by simp
  show tp: "tree N k p lo hi" using tq K by auto
  show np: "node_at p lo hi (N p)" "isLeaf (N p) \<and> (\<forall>e \<in> set (entries (N p)). pair_ok e) \<or>
      inner_ok p lo hi (N p) \<and> (\<exists>M h. \<forall>(c, l, u) \<in> set (kids (N p) lo hi). tree M h c l u)"
    using tp by (cases k; auto simp: leaf_ok_def inner_ok_def)+
  then show "isLeaf (N p) \<or> child_ok (N p)" by (auto simp: inner_ok_def)
qed

lemma split_outcome:
  assumes b: "btree s slot h root" and fo: "focus (t_node s) h root [] [] xs (Suc k) q l u ys"
    and K: "kids (t_node s q) l u = A @ (p, lo, hi) # B"
    and f: "findSeparator ordered (t_node s p) = Ret info" and g: "getSep info (t_node s p) = Ret sep"
    and sp: "hasSpaceFor (t_node s q) (sep_len info) 8" and raw: "raw_ok page" and cs: "can_split (t_node s p) (sep_slot info) sep"
  shows "\<exists>left right par. splitNode (t_tmp s) page (sep_slot info) sep (t_node s p) (t_node s q) = Ret (left, right, par) \<and>
    split_result (t_node s p) (sep_slot info) sep (b_pid page) left right \<and> adopted (t_node s q) (length A) sep p (b_pid page) par"
proof -
  let ?N = "t_node s" and ?s = "sep_slot info"
  note L = below [OF fo K]
  have s0: "0 < ?s" using cs by (simp add: can_split_def)
  note S = separator_ok [OF L(3,5) f g s0]
  have nodes: "node_ok (?N p)" "node_ok (?N q)" "child_ok (?N q)" "b_pid (?N p) = p"
    using L(1,3) by (simp_all add: node_at_def inner_ok_def)
  note B = between_kids [OF L(1) K S(3,4)]
  have pre: "take (prefixLen (?N q)) sep = prefix (?N q)"
  proof -
    have lay: "layout (?N q)" using nodes(2) by (simp add: node_ok_def)
    have "low_key (?N q) = l" "upp_key (?N q) = u" using L(1) by (simp_all add: inner_ok_def node_at_def)
    then show ?thesis using in_range_prefix [OF B(4)] layoutD(9) [OF lay] prefix_facts(4) [OF lay] by simp
  qed
  have ad: "can_adopt (?N q) (b_pid (?N p)) sep (length A)"
    using B(1,2) pre sp by (simp add: can_adopt_def nodes(4) S(1))
  show ?thesis using splitNode_ok [OF nodes(1,2,3) btreeD(5) [OF b] raw L(4) cs ad] by (auto simp: nodes(4) adopted_def)
qed

lemma split_commit:
  assumes b: "btree s slot h root" and fo: "focus (t_node s) h root [] [] xs (Suc k) q l u ys"
    and K: "kids (t_node s q) l u = A @ (p, lo, hi) # B"
    and f: "findSeparator ordered (t_node s p) = Ret info" and g: "getSep info (t_node s p) = Ret sep"
    and sp: "hasSpaceFor (t_node s q) (sep_len info) 8" and fr: "t_fresh s = Ret (new, page, s1)"
    and r: "splitNode (t_tmp s1) page (sep_slot info) sep (t_node s1 p) (t_node s1 q) = Ret (left, right, par)"
  shows "btree (t_put q par (t_put new right (t_put p left s1))) slot h root"
    "stored (t_put q par (t_put new right (t_put p left s1))) h root = stored s h root"
proof -
  let ?N = "t_node s"
  note F = fresh_ok [OF b fr]
  have tq: "tree ?N (Suc k) q l u" using focus_tree [OF fo] by blast
  note L = below [OF fo K]
  note n = L(1) and np = L(3,5)
  have s0: "0 < sep_slot info" using r by (simp add: splitNode_def check_def split: if_splits)
  note S = separator_ok [OF np f g s0]
  let ?s = "sep_slot info"
  have nodes: "node_ok (?N p)" "low_key (?N p) = lo" "upp_key (?N p) = hi"
    using np(1) by (simp_all add: node_at_def)
  have short: "length lo \<le> maxKVSize" "length hi \<le> maxKVSize"
    using kids_short [OF n, of p lo hi] K focus_short [OF fo] by auto
  have r': "splitNode (t_tmp s) page ?s sep (?N p) (?N q) = Ret (left, right, par)" using r by (simp add: F(5,8))
  have lens: "length (low_key (?N p)) + length sep \<le> 3984" "length sep + length (upp_key (?N p)) \<le> 3984"
    using short S(5) nodes(2,3) by (simp_all add: sizes)
  have cs: "can_split (?N p) ?s sep"
    by (rule split_fits [OF nodes(1) btreeD(5) [OF b] F(3) S(2) _ _ lens r']) (use S(7,8) nodes(2,3) in simp_all)
  have res: "split_result (?N p) ?s sep new left right" "adopted (?N q) (length A) sep p new par"
    using split_outcome [OF b fo K f g sp F(3) cs] r' by (auto simp: F(4))
  define N' where "N' = ?N(p := left, new := right, q := par)"
  have nq: "set (nodes ?N (Suc k) q) \<subseteq> set (nodes ?N h root)" using focus_nodes [OF fo] .
  have dq: "distinct (nodes ?N (Suc k) q)" by (rule focus_distinct [OF fo btreeD(3) [OF b]])
  have "new \<notin> set (nodes ?N (Suc k) q)" using F(1) nq by blast
  note SS = split_step [OF tq dq this K cs res(1) S(3,4,6,5) res(2) N'_def]
  have "nodes ?N (Suc k) q = q # nodes_of ?N k A @ nodes ?N k p @ nodes_of ?N k B" using nodes_split K .
  then have pq: "p \<in> set (nodes ?N (Suc k) q)" by simp
  have keep: "N' x = ?N x" if "x \<notin> set (nodes ?N (Suc k) q) \<union> {new}" for x
    using that pq root_node [of q ?N "Suc k"] by (auto simp: N'_def)
  have FR: "tree N' h root [] [] \<and> distinct (nodes N' h root) \<and> set (nodes N' h root) \<subseteq> set (nodes ?N h root) \<union> {new} \<and>
      leaves N' h root = xs @ leaves N' (Suc k) q @ ys \<and> (\<forall>x \<in> set xs \<union> set ys. N' x = ?N x)"
    by (rule focus_replace [OF fo btreeD(3) [OF b] keep _ SS(1-3)]) (use F(1) in auto)
  then have lv: "same_leaves ?N N' (leaves ?N h root) (leaves N' h root)"
    using same_leaves_context [OF SS(4)] focus_leaves [OF fo] by metis
  have "raw_ok (N' x)" for x
    using btreeD(6) [OF b, of x] res layout_raw by (auto simp: N'_def split_result_def adopted_def node_ok_def)
  moreover have "t_node (t_put q par (t_put new right (t_put p left s1))) = N'" by (simp add: N'_def F(5))
  moreover have "t_roots s1 = (t_roots s)[slot := root]" using b by (auto simp: F(6) btree_def list_update_id)
  ultimately show "btree (t_put q par (t_put new right (t_put p left s1))) slot h root"
    "stored (t_put q par (t_put new right (t_put p left s1))) h root = stored s h root"
    using btree_step [OF b fr, of N' h root "t_put q par (t_put new right (t_put p left s1))"] FR lv F(8) by auto
qed

section \<open>Splits with the splits above\<close>

lemma alike_focus: "focus N h p l u xs k q lo hi ys \<Longrightarrow> alike N N' \<Longrightarrow> focus N' h p l u xs k q lo hi ys"
proof (induction rule: focus.induct)
  case (here h p l u)
  then show ?case by (simp add: focus.here alike_tree)
next
  case (down h p l u A c cl ch B xs k q lo hi ys)
  note E = alike_tree [OF down.prems]
  have "tree N' (Suc h) p l u" "kids (N' p) l u = A @ (c, cl, ch) # B"
    using down.hyps(1,2) E(1) alike_sel(3) [OF down.prems] by (blast, simp)
  from focus.down [OF this down.IH [OF down.prems]] show ?case unfolding E(2) .
qed

lemma alike_found_at:
  assumes a: "alike N N'" and f: "found_at N h p l u m parent k q lo hi xs ys"
  shows "found_at N' h p l u m parent k q lo hi xs ys"
  using f alike_focus [OF _ a] alike_sel(3) [OF a] unfolding found_at_def by metis

lemma alike_trans: "alike N N' \<Longrightarrow> alike N' N'' \<Longrightarrow> alike N N''"
proof -
  assume a: "alike N N'" "alike N' N''"
  have "\<exists>b. N'' q = (N q)\<lparr>b_dirty := b\<rparr>" for q
  proof -
    obtain b b' where "N' q = (N q)\<lparr>b_dirty := b\<rparr>" "N'' q = (N' q)\<lparr>b_dirty := b'\<rparr>" using a unfolding alike_def by blast
    then show ?thesis by (intro exI [of _ b']) simp
  qed
  then show "alike N N''" unfolding alike_def by blast
qed

lemma walk_more: "walk fuel stop key N m p = Ret r \<Longrightarrow> walk (fuel + d) stop key N m p = Ret r"
  by (induction fuel stop key N m p rule: walk.induct) (auto simp: run_simps split: if_splits)

lemma walk_found:
  assumes b: "btree s slot h root" and w: "walk fuel stop key (t_node s) metadataPageId root = Ret (parent, q)"
  shows "\<exists>k lo hi xs ys. found_at (t_node s) h root [] [] metadataPageId parent k q lo hi xs ys \<and> in_range lo hi key \<and>
    sides (t_node s) key xs ys \<and> (k = 0 \<or> stop q)"
proof -
  have "walk (fuel + Suc h) stop key (t_node s) metadataPageId root = Ret (parent, q)" by (rule walk_more [OF w])
  then show ?thesis using walk_ok [OF btreeD(2) [OF b] in_range_root, where fuel = "fuel + Suc h" and key = key and stop = stop and meta = metadataPageId] by auto
qed

lemma found_parent:
  assumes b: "btree s slot h root" and f: "found_at (t_node s) h root [] [] metadataPageId parent k p lo hi xs ys"
  shows "parent = metadataPageId \<Longrightarrow> p = root"
    and "parent \<noteq> metadataPageId \<Longrightarrow> \<exists>xs l u ys A B. focus (t_node s) h root [] [] xs (Suc k) parent l u ys \<and>
      kids (t_node s parent) l u = A @ (p, lo, hi) # B"
proof -
  have "parent \<noteq> metadataPageId" if "focus (t_node s) h root [] [] xs' (Suc k) parent l u ys'" for xs' l u ys'
  proof -
    have "parent \<in> set (nodes (t_node s) h root)" using focus_nodes [OF that] root_node by blast
    then show ?thesis using b by (auto simp: btree_def metadataPageId_def)
  qed
  then show "parent = metadataPageId \<Longrightarrow> p = root" using f unfolding found_at_def by blast
  show "parent \<noteq> metadataPageId \<Longrightarrow> \<exists>xs l u ys A B. focus (t_node s) h root [] [] xs (Suc k) parent l u ys \<and>
      kids (t_node s parent) l u = A @ (p, lo, hi) # B"
    using f unfolding found_at_def by (metis split_list)
qed

definition same_content :: "pages \<Rightarrow> nat \<Rightarrow> nat \<Rightarrow> PID \<Rightarrow> pages \<Rightarrow> bool" where
  "same_content s slot h root s' \<longleftrightarrow> (\<exists>h' root'. btree s' slot h' root' \<and> stored s' h' root' = stored s h root)"

lemma parent_for:
  assumes b: "btree s slot h root" and f: "found_at (t_node s) h root [] [] metadataPageId parent k p lo hi xs ys"
    and r: "(if parent = metadataPageId then grow_root slot p s else Ret (parent, s)) = Ret (q, s1)"
  shows "\<exists>h1 root1 xs k l u ys A lo hi B. btree s1 slot h1 root1 \<and> stored s1 h1 root1 = stored s h root \<and>
    focus (t_node s1) h1 root1 [] [] xs (Suc k) q l u ys \<and> kids (t_node s1 q) l u = A @ (p, lo, hi) # B"
proof (cases "parent = metadataPageId")
  case True
  then have p: "p = root" and g: "grow_root slot root s = Ret (q, s1)" using found_parent(1) [OF b f] r by simp_all
  note G = grow_root_ok [OF b g]
  have "focus (t_node s1) (Suc h) q [] [] [] (Suc h) q [] [] []" by (rule focus.here [OF btreeD(2) [OF G(1)]])
  then show ?thesis using G unfolding p by blast
next
  case False
  then show ?thesis using found_parent(2) [OF b f False] b r by simp blast
qed

lemma split_invariant:
  "(btree s slot h root \<longrightarrow> found_at (t_node s) h root [] [] metadataPageId parent k p lo hi xs ys \<longrightarrow>
     trySplit fuel slot ordered p parent s = Ret s' \<longrightarrow> same_content s slot h root s') \<and>
   (btree t slot h2 root2 \<longrightarrow> ensureSpace fuel slot ordered toSplit key len t = Ret t' \<longrightarrow> same_content t slot h2 root2 t')"
proof (induction fuel arbitrary: s h root parent k p lo hi xs ys s' t h2 root2 toSplit key len t')
  case (Suc fuel)
  have S: "same_content s slot h root s'"
    if b: "btree s slot h root" and f: "found_at (t_node s) h root [] [] metadataPageId parent k p lo hi xs ys"
      and r: "trySplit (Suc fuel) slot ordered p parent s = Ret s'"
  proof -
    obtain q s1 where g: "(if parent = metadataPageId then grow_root slot p s else Ret (parent, s)) = Ret (q, s1)"
      and r1: "bind_run (findSeparator ordered (t_node s1 p)) (\<lambda>sepInfo.
     bind_run (getSep sepInfo (t_node s1 p)) (\<lambda>sepKey.
     if hasSpaceFor (t_node s1 q) (sep_len sepInfo) 8 then
       bind_run (t_fresh s1) (\<lambda>(new, page, s).
       bind_run (splitNode (t_tmp s) page (sep_slot sepInfo) sepKey (t_node s p) (t_node s q)) (\<lambda>(left, right, par).
       Ret (t_put q par (t_put new right (t_put p left s)))))
     else ensureSpace fuel slot ordered q sepKey 8 s1)) = Ret s'"
    proof -
      obtain x where "(if parent = metadataPageId then grow_root slot p s else Ret (parent, s)) = Ret x"
        "(\<lambda>(q, s1). bind_run (findSeparator ordered (t_node s1 p)) (\<lambda>sepInfo.
     bind_run (getSep sepInfo (t_node s1 p)) (\<lambda>sepKey.
     if hasSpaceFor (t_node s1 q) (sep_len sepInfo) 8 then
       bind_run (t_fresh s1) (\<lambda>(new, page, s).
       bind_run (splitNode (t_tmp s) page (sep_slot sepInfo) sepKey (t_node s p) (t_node s q)) (\<lambda>(left, right, par).
       Ret (t_put q par (t_put new right (t_put p left s)))))
     else ensureSpace fuel slot ordered q sepKey 8 s1))) x = Ret s'"
        using r unfolding trySplit.simps bind_run_eq_Ret [where m = "if parent = metadataPageId then grow_root slot p s else Ret (parent, s)"]
        by blast
      then show thesis using that by (cases x) simp
    qed
    obtain h1 root1 xs k l u ys A lo hi B where P: "btree s1 slot h1 root1" "stored s1 h1 root1 = stored s h root"
      "focus (t_node s1) h1 root1 [] [] xs (Suc k) q l u ys" "kids (t_node s1 q) l u = A @ (p, lo, hi) # B"
      using parent_for [OF b f g] by blast
    obtain info sep where i: "findSeparator ordered (t_node s1 p) = Ret info" "getSep info (t_node s1 p) = Ret sep"
      using r1 by (auto simp: run_simps)
    show ?thesis
    proof (cases "hasSpaceFor (t_node s1 q) (sep_len info) 8")
      case True
      then obtain new page s2 left right par where c: "t_fresh s1 = Ret (new, page, s2)"
        "splitNode (t_tmp s2) page (sep_slot info) sep (t_node s2 p) (t_node s2 q) = Ret (left, right, par)"
        "s' = t_put q par (t_put new right (t_put p left s2))"
        using r1 i by (auto simp: run_simps)
      show ?thesis using split_commit [OF P(1,3,4) i True c(1,2)] P(2) unfolding c(3) same_content_def by metis
    next
      case False
      then have "ensureSpace fuel slot ordered q sep 8 s1 = Ret s'" using r1 i by simp
      then have "same_content s1 slot h1 root1 s'" using Suc.IH P(1) by blast
      then show ?thesis using P(2) by (simp add: same_content_def)
    qed
  qed
  have E: "same_content t slot h2 root2 t'"
    if b: "btree t slot h2 root2" and r: "ensureSpace (Suc fuel) slot ordered toSplit key len t = Ret t'"
  proof -
    obtain par q where w: "walk (Suc fuel) (\<lambda>p. p = toSplit) key (t_node t) metadataPageId root2 = Ret (par, q)"
      and r1: "(if q = toSplit then if hasSpaceFor (t_node t q) (length key) len then Ret t
         else trySplit fuel slot ordered q par (t_lock q (t_lock par t)) else Ret t) = Ret t'"
      using r btreeD(1) [OF b] by (auto simp: run_simps)
    obtain k lo hi xs ys where f: "found_at (t_node t) h2 root2 [] [] metadataPageId par k q lo hi xs ys"
      using walk_found [OF b w] by blast
    let ?t = "t_lock q (t_lock par t)"
    have a: "alike (t_node t) (t_node ?t)" by (rule alike_trans [OF lock_alike lock_alike])
    have bt: "btree ?t slot h2 root2" "stored ?t h2 root2 = stored t h2 root2" using b alike_tree(4) [OF a] by (simp_all add: btree_lock)
    have "t' = t \<or> trySplit fuel slot ordered q par ?t = Ret t'" using r1 by (simp split: if_splits)
    then show ?thesis
    proof (elim disjE)
      assume "t' = t"
      then show ?thesis using b by (auto simp: same_content_def)
    next
      assume "trySplit fuel slot ordered q par ?t = Ret t'"
      then have "same_content ?t slot h2 root2 t'" using Suc.IH bt(1) alike_found_at [OF a f] by blast
      then show ?thesis by (simp add: same_content_def bt(2))
    qed
  qed
  show ?case
  proof (intro conjI impI)
    assume "btree s slot h root" "found_at (t_node s) h root [] [] metadataPageId parent k p lo hi xs ys"
      "trySplit (Suc fuel) slot ordered p parent s = Ret s'"
    then show "same_content s slot h root s'" by (rule S)
  next
    assume "btree t slot h2 root2" "ensureSpace (Suc fuel) slot ordered toSplit key len t = Ret t'"
    then show "same_content t slot h2 root2 t'" by (rule E)
  qed
qed simp

lemma trySplit_ok:
  "btree s slot h root \<Longrightarrow> found_at (t_node s) h root [] [] metadataPageId parent k p lo hi xs ys \<Longrightarrow>
    trySplit fuel slot ordered p parent s = Ret s' \<Longrightarrow> same_content s slot h root s'"
  by (rule split_invariant [THEN conjunct1, THEN mp, THEN mp, THEN mp])

lemma ensureSpace_ok:
  "btree s slot h root \<Longrightarrow> ensureSpace fuel slot ordered toSplit key len s = Ret s' \<Longrightarrow> same_content s slot h root s'"
  by (rule split_invariant [THEN conjunct2, THEN mp, THEN mp])

section \<open>Insertion\<close>

definition inserted :: "'a \<Rightarrow> 'a list \<Rightarrow> 'a list \<Rightarrow> bool" where
  "inserted x xs ys \<longleftrightarrow> (\<exists>j \<le> length xs. ys = put j x xs)"

lemma inserted_context: "inserted x xs ys \<Longrightarrow> inserted x (as @ xs @ bs) (as @ ys @ bs)"
proof -
  assume "inserted x xs ys"
  then obtain j where "j \<le> length xs" "ys = put j x xs" unfolding inserted_def by blast
  then show ?thesis unfolding inserted_def by (intro exI [of _ "length as + j"]) (simp add: put_def)
qed

lemma leaf_insert:
  assumes b: "btree s slot h root" and fo: "focus (t_node s) h root [] [] xs 0 q lo hi ys" and rng: "in_range lo hi key"
    and new: "key \<notin> set (map fst (stored s h root))" and len: "length key + length pay \<le> maxKVSize"
    and sp: "hasSpaceFor (t_node s q) (length key) (length pay)"
  shows "\<exists>n. insertInPage (t_tmp s) key pay (t_node s q) = Ret n \<and> btree (t_put q n s) slot h root \<and>
    inserted (key, pay) (stored s h root) (stored (t_put q n s) h root) \<and> set (entries n) \<subseteq> insert (key, pay) (set (entries (t_node s q))) \<and> layout n"
proof -
  let ?n = "t_node s q"
  have "tree (t_node s) 0 q lo hi" using focus_tree [OF fo] by blast
  then have n: "leaf_ok q lo hi ?n" by simp
  then have N: "node_ok ?n" "layout ?n" "low_key ?n = lo" "upp_key ?n = hi" by (simp_all add: leaf_ok_def node_at_def node_ok_def)
  have st: "stored s h root = contents_of (t_node s) xs @ entries ?n @ contents_of (t_node s) ys" by (rule focus_contents [OF fo])
  have pre: "take (prefixLen ?n) key = prefix ?n"
    using in_range_prefix [OF rng] layoutD(9) [OF N(2)] prefix_facts(4) [OF N(2)] N(3,4) by simp
  have "length key + length pay \<le> 4096" using len by (simp add: sizes)
  from insertInPage_ok [OF N(1) btreeD(5) [OF b] pre this sp] obtain n' j f where n': "insertInPage (t_tmp s) key pay ?n = Ret n'"
    "node_ok n'" "same_frame ?n n'" "located (keys ?n) key j f" "entries n' = put j (key, pay) (entries ?n)" by blast
  have kn: "key \<notin> set (keys ?n)" using new by (simp add: st)
  have ks: "keys n' = put j key (keys ?n)" by (simp add: n'(5) put_map)
  have "distinct (keys n')" unfolding ks by (rule distinct_put [OF kn]) (use n in \<open>simp add: leaf_ok_def node_at_def\<close>)
  moreover have "\<forall>e \<in> set (entries n'). in_range lo hi (fst e) \<and> pair_ok e"
    using n rng len by (auto simp: n'(5) leaf_ok_def node_at_def fenced_def pair_ok_def)
  ultimately have lf: "leaf_ok q lo hi n'" using leaf_ok_entries [OF n n'(2,3)] by blast
  have lk: "b_link n' = b_link ?n" using n'(3) by (simp add: same_frame_def)
  note P = leaf_put [OF b fo lf lk]
  have "j \<le> length (entries ?n)" using n'(4) by (simp add: located_def)
  then have "inserted (key, pay) (entries ?n) (entries n')" using n'(5) by (auto simp: inserted_def)
  then have "inserted (key, pay) (stored s h root) (stored (t_put q n' s) h root)" unfolding P(2) st by (rule inserted_context)
  moreover have "set (entries n') \<subseteq> insert (key, pay) (set (entries ?n))" "layout n'"
    using n'(2) unfolding n'(5) by (simp_all add: node_ok_def)
  ultimately show ?thesis using n'(1) P(1) by blast
qed

lemma insert_loop_ok:
  assumes "btree s slot h root" and "key \<notin> set (map fst (stored s h root))" and len: "length key + length pay \<le> maxKVSize"
    and "insert_loop fuel slot ordered key pay s = Ret s'"
  shows "\<exists>h' root'. btree s' slot h' root' \<and> inserted (key, pay) (stored s h root) (stored s' h' root')"
  using assms(1,2,4)
proof (induction fuel arbitrary: s h root)
  case (Suc fuel)
  note b = Suc.prems(1)
  obtain par q where w: "walk (Suc fuel) (\<lambda>_. False) key (t_node s) metadataPageId root = Ret (par, q)"
    and r: "(if hasSpaceFor (t_node s q) (length key) (length pay) then
       let s = t_lock q s in
       bind_run (insertInPage (t_tmp s) key pay (t_node s q)) (\<lambda>n. Ret (t_put q n s))
     else
       bind_run (trySplit (Suc fuel) slot ordered q par (t_lock par (t_lock q s))) (insert_loop fuel slot ordered key pay)) = Ret s'"
    using Suc.prems(3) btreeD(1) [OF b] by (auto simp: run_simps simp del: trySplit.simps)
  obtain lo hi xs ys where f: "found_at (t_node s) h root [] [] metadataPageId par 0 q lo hi xs ys" "in_range lo hi key"
    using walk_found [OF b w] by auto
  show ?case
  proof (cases "hasSpaceFor (t_node s q) (length key) (length pay)")
    case True
    let ?s = "t_lock q s"
    note a = lock_alike [of s q]
    have B: "btree ?s slot h root" "stored ?s h root = stored s h root" "hasSpaceFor (t_node ?s q) (length key) (length pay)"
      using b alike_tree(4) [OF a] alike_sel(10) [OF a] True by (simp_all add: btree_lock)
    have fo: "focus (t_node ?s) h root [] [] xs 0 q lo hi ys" using alike_found_at [OF a f(1)] by (simp add: found_at_def)
    obtain n where n: "insertInPage (t_tmp ?s) key pay (t_node ?s q) = Ret n" "btree (t_put q n ?s) slot h root"
      "inserted (key, pay) (stored ?s h root) (stored (t_put q n ?s) h root)"
      using leaf_insert [OF B(1) fo f(2) _ len B(3)] Suc.prems(2) unfolding B(2) by blast
    have "s' = t_put q n ?s" using r True n(1) by simp
    then show ?thesis using n(2,3) unfolding B(2) by blast
  next
    case False
    let ?s = "t_lock par (t_lock q s)"
    have a: "alike (t_node s) (t_node ?s)" by (rule alike_trans [OF lock_alike lock_alike])
    have B: "btree ?s slot h root" "stored ?s h root = stored s h root" using b alike_tree(4) [OF a] by (simp_all add: btree_lock)
    obtain s1 where s1: "trySplit (Suc fuel) slot ordered q par ?s = Ret s1" "insert_loop fuel slot ordered key pay s1 = Ret s'"
      using r False by (auto simp: run_simps simp del: trySplit.simps)
    have "same_content ?s slot h root s1" by (rule trySplit_ok [OF B(1) alike_found_at [OF a f(1)] s1(1)])
    then obtain h1 root1 where "btree s1 slot h1 root1" "stored s1 h1 root1 = stored s h root" using B(2) by (auto simp: same_content_def)
    then show ?thesis using Suc.IH [of s1 h1 root1] Suc.prems(2) s1(2) by simp
  qed
qed simp

lemma bt_insert_ok:
  assumes "btree s slot h root" and "key \<notin> set (map fst (stored s h root))" and "bt_insert fuel slot ordered key pay s = Ret s'"
  shows "\<exists>h' root'. btree s' slot h' root' \<and> inserted (key, pay) (stored s h root) (stored s' h' root')"
  using insert_loop_ok [OF assms(1,2)] assms(3) by (auto simp: bt_insert_def check_def split: if_splits)

text \<open>With room in the leaf the insertion returns, without a change of the shape.\<close>

lemma bt_insert_space:
  assumes b: "btree s slot h root" and f: "h < fuel" and new: "key \<notin> set (map fst (stored s h root))"
    and len: "length key + length pay \<le> maxKVSize" and q: "findLeaf fuel slot key s = Ret q"
    and sp: "hasSpaceFor (t_node s q) (length key) (length pay)"
  shows "\<exists>s'. bt_insert fuel slot ordered key pay s = Ret s' \<and> btree s' slot h root \<and>
    inserted (key, pay) (stored s h root) (stored s' h root)"
proof -
  obtain f' where f': "fuel = Suc f'" using f by (cases fuel) auto
  obtain par k q' lo hi xs ys where w: "walk fuel (\<lambda>_. False) key (t_node s) metadataPageId root = Ret (par, q')"
    "found_at (t_node s) h root [] [] metadataPageId par k q' lo hi xs ys" "in_range lo hi key" "k = 0"
    using walk_ok [OF btreeD(2) [OF b] in_range_root f, where stop = "\<lambda>_. False" and meta = metadataPageId] by blast
  have "findLeaf fuel slot key s = Ret q'"
    using w(1) btreeD(1) [OF b] by (simp add: findLeaf_def descend_walk [of fuel key "t_node s" root metadataPageId])
  then have q': "q' = q" using q by simp
  let ?s = "t_lock q s"
  note a = lock_alike [of s q]
  have B: "btree ?s slot h root" "stored ?s h root = stored s h root" "hasSpaceFor (t_node ?s q) (length key) (length pay)"
    using b alike_tree(4) [OF a] alike_sel(10) [OF a] sp by (simp_all add: btree_lock)
  have fo: "focus (t_node ?s) h root [] [] xs 0 q lo hi ys" using alike_found_at [OF a w(2)] w(4) q' by (simp add: found_at_def)
  obtain n where n: "insertInPage (t_tmp ?s) key pay (t_node ?s q) = Ret n" "btree (t_put q n ?s) slot h root"
    "inserted (key, pay) (stored ?s h root) (stored (t_put q n ?s) h root)"
    using leaf_insert [OF B(1) fo w(3) _ len B(3)] new unfolding B(2) by blast
  have "bt_insert fuel slot ordered key pay s = Ret (t_put q n ?s)"
    using len btreeD(1) [OF b] w(1) sp n(1) by (simp add: bt_insert_def f' q' Let_def)
  then show ?thesis using n(2,3) unfolding B(2) by blast
qed

text \<open>What an insertion means for lookups.\<close>

lemma inserted_map:
  assumes "inserted (k, v) es es'" and "k \<notin> set (map fst es)"
  shows "map_of es' = (map_of es)(k \<mapsto> v)" "length es' = length es + 1"
proof -
  obtain j where j: "j \<le> length es" "es' = put j (k, v) es" using assms(1) by (auto simp: inserted_def)
  have "k \<notin> set (map fst (take j es))" "k \<notin> set (map fst (drop j es))" using assms(2) by (auto dest: in_set_takeD in_set_dropD)
  then have "map_of (take j es) k = None" "map_of (drop j es) k = None" by (simp_all add: map_of_eq_None_iff)
  moreover have "map_of es = map_of (drop j es) ++ map_of (take j es)" by (metis append_take_drop_id map_of_append)
  ultimately show "map_of es' = (map_of es)(k \<mapsto> v)" unfolding j(2) put_def by (auto simp: fun_eq_iff map_add_def split: option.splits)
  show "length es' = length es + 1" using j by (simp add: put_def)
qed

section \<open>A new tree\<close>

lemma BTree_new_ok:
  assumes m: "memory_ok s" and sl: "t_slots s < length (t_roots s)" and al: "t_alloc s < 2 ^ 64 - 1"
  shows "\<exists>s' root. BTree_new s = Ret (t_slots s, s') \<and> btree s' (t_slots s) 0 root \<and> stored s' 0 root = []"
proof -
  define s0 where "s0 = t_lock metadataPageId s"
  define r :: PID where "r = of_nat (t_alloc s)"
  have S0: "t_alloc s0 = t_alloc s" "t_roots s0 = t_roots s" "t_tmp s0 = t_tmp s" "t_slots s0 = t_slots s"
    by (simp_all add: s0_def t_lock_def t_put_def)
  have raw0: "raw_ok (t_node s0 p)" for p using m alike_sel(7) [OF lock_alike] by (simp add: s0_def memory_ok_def)
  define page where "page = (t_node s0 r)\<lparr>b_dirty := True, b_pid := r\<rparr>"
  define n where "n = node_new True page"
  have pg: "raw_ok page" "b_pid page = r" using raw0 [of r] by (simp_all add: page_def raw_ok_def)
  define s' where "s' = s0\<lparr>t_alloc := t_alloc s + 1, t_node := (t_node s0)(r := n), t_slots := (t_slots s + 1) mod 2 ^ 32,
    t_roots := (t_roots s)[t_slots s := r]\<rparr>"
  have "BTree_new s = Ret (t_slots s, s')"
    using al sl by (simp add: BTree_new_def t_new_def t_fresh_def t_put_def setRoot_def Let_def flip: s0_def)
      (simp add: S0 s'_def r_def [symmetric] page_def n_def)
  moreover have u: "unat r = t_alloc s" using al by (simp add: r_def unat_of_nat take_bit_eq_mod)
  note L = node_new_layout [OF pg(1), of True, folded n_def]
  have n: "isLeaf n" "b_pid n = r" "b_link n = noNeighbour" using pg(2) by (simp_all add: n_def node_new_def)
  have "leaf_ok r [] [] n" using L n by (simp add: leaf_ok_def node_at_def node_ok_def fenced_def)
  then have "tree (t_node s') 0 r [] []" by (simp add: s'_def)
  moreover have "memory_ok s'"
    using m raw0 al layout_raw [OF L(1)] S0 by (auto simp: memory_ok_def s'_def)
  moreover have "links (t_node s') [r]" using n(3) by (simp add: links_def s'_def)
  ultimately have "btree s' (t_slots s) 0 r" using sl u m by (simp add: btree_def memory_ok_def) (simp add: s'_def)
  moreover have "stored s' 0 r = []" using L(2) by (simp add: contents_def s'_def)
  ultimately show ?thesis using \<open>BTree_new s = Ret (t_slots s, s')\<close> by blast
qed

end
