(* ===== verification/Btree_Remove.thy ===== *)
theory Btree_Remove
  imports Btree_Insert
begin

text \<open>
  Removal: it returns, the tree has lost exactly the entry of the key, and a leaf that becomes too
  empty is merged with its right sibling where there is room.
\<close>

section \<open>The way down with the position in the parent\<close>

definition spot ::
  "(PID \<Rightarrow> bnode) \<Rightarrow> nat \<Rightarrow> PID \<Rightarrow> u8 list \<Rightarrow> u8 list \<Rightarrow> PID \<Rightarrow> nat \<Rightarrow> PID \<Rightarrow> PID \<Rightarrow> u8 list \<Rightarrow> u8 list \<Rightarrow> PID list \<Rightarrow> PID list \<Rightarrow> bool" where
  "spot N h p l u parent pos meta q lo hi xs ys \<longleftrightarrow> focus N h p l u xs 0 q lo hi ys \<and>
     (h = 0 \<and> q = p \<and> parent = meta \<or>
      (\<exists>xs' ys' l' u' A B. focus N h p l u xs' 1 parent l' u' ys' \<and> kids (N parent) l' u' = A @ (q, lo, hi) # B \<and> length A = pos))"

lemma walk_pos_ok:
  assumes "tree N h p l u" and "in_range l u key" and "h < fuel"
  shows "\<exists>parent pos' q lo hi xs ys. walk_pos fuel key N meta pos p = Ret (parent, pos', q) \<and> spot N h p l u parent pos' meta q lo hi xs ys \<and>
    in_range lo hi key \<and> sides N key xs ys"
  using assms
proof (induction h arbitrary: p l u fuel meta pos)
  case 0
  then obtain f where "fuel = Suc f" by (cases fuel) auto
  moreover have "isLeaf (N p)" using 0 by (simp add: leaf_ok_def)
  moreover have "focus N 0 p l u [] 0 p l u []" using 0(1) by (rule focus.here)
  ultimately show ?case using 0 by (fastforce simp: spot_def sides_def)
next
  case (Suc h)
  then obtain f where f: "fuel = Suc f" "h < f" by (cases fuel) auto
  have n: "inner_ok p l u (N p)" "\<not> isLeaf (N p)" using Suc.prems(1) by (simp_all add: inner_ok_def)
  obtain A c cl ch B fnd where c: "kids (N p) l u = A @ (c, cl, ch) # B" "in_range cl ch key"
    "lowerBound key (N p) = Ret (length A, fnd)" "lookupInner key (N p) = Ret c"
    using lookupInner_ok [OF n(1) Suc.prems(2)] by blast
  have nxt: "(if length A = b_count (N p) then Ret (b_link (N p)) else getChild (N p) (length A)) = Ret c"
    using c(3,4) by (simp add: lookupInner_def)
  have tc: "tree N h c cl ch" using Suc.prems(1) by (simp add: c(1))
  obtain parent pos' q lo hi xs ys where IH: "walk_pos f key N p (length A) c = Ret (parent, pos', q)" "spot N h c cl ch parent pos' p q lo hi xs ys"
    "in_range lo hi key" "sides N key xs ys"
    using Suc.IH [OF tc c(2) f(2), of p "length A"] by blast
  note dn = focus.down [OF Suc.prems(1) c(1)]
  have w: "walk_pos fuel key N meta pos p = Ret (parent, pos', q)"
    using f(1) n(2) c(3) nxt IH(1) by simp
  have fo: "focus N (Suc h) p l u (leaves_of N h A @ xs) 0 q lo hi (ys @ leaves_of N h B)"
    using dn IH(2) by (simp add: spot_def)
  have "\<exists>xs' ys' l' u' A B. focus N (Suc h) p l u xs' 1 parent l' u' ys' \<and> kids (N parent) l' u' = A @ (q, lo, hi) # B \<and> length A = pos'"
  proof (cases "h = 0 \<and> q = c \<and> parent = p")
    case True
    then have e: "lo = cl" "hi = ch" using IH(2) focus_self by (auto simp: spot_def)
    have "pos' = length A"
    proof -
      have "walk_pos f key N p (length A) c = Ret (p, length A, c)" using True tc f(2) by (cases f) (simp_all add: leaf_ok_def)
      then show ?thesis using IH(1) by simp
    qed
    then show ?thesis using focus.here [OF Suc.prems(1)] True c(1) e by (metis One_nat_def)
  next
    case False
    then show ?thesis using IH(2) dn unfolding spot_def by blast
  qed
  moreover have "sides N key (leaves_of N h A @ xs) (ys @ leaves_of N h B)"
    using sides_kids [OF Suc.prems(1) c(1,2)] IH(4) by (simp add: sides_append)
  ultimately show ?case using w fo IH(3) unfolding spot_def by blast
qed

lemma alike_spot:
  assumes a: "alike N N'" and f: "spot N h p l u parent pos meta q lo hi xs ys"
  shows "spot N' h p l u parent pos meta q lo hi xs ys"
  using f alike_focus [OF _ a] alike_sel(3) [OF a] unfolding spot_def by metis

text \<open>A subtree that changes stays in its place.\<close>

lemma focus_update:
  assumes "focus N h p l u xs k q lo hi ys" and "distinct (nodes N h p)"
    and "\<And>x. x \<notin> set (nodes N k q) \<Longrightarrow> N' x = N x" and "tree N' k q lo hi" "distinct (nodes N' k q)" "set (nodes N' k q) \<subseteq> set (nodes N k q)"
  shows "focus N' h p l u xs k q lo hi ys"
  using assms
proof (induction rule: focus.induct)
  case (here h p l u)
  then show ?case by (intro focus.here)
next
  case (down h p l u A c cl ch B xs k q lo hi ys)
  note K = down.hyps(2)
  have nd: "nodes N (Suc h) p = p # nodes_of N h A @ nodes N h c @ nodes_of N h B" using nodes_split K .
  have sub: "set (nodes N k q) \<subseteq> set (nodes N h c)" using focus_nodes [OF down.hyps(3)] .
  have d: "distinct (nodes N h c)" "p \<notin> set (nodes N h c)" "set (nodes_of N h A) \<inter> set (nodes N h c) = {}"
    "set (nodes_of N h B) \<inter> set (nodes N h c) = {}" using down.prems(1) unfolding nd by auto
  have p: "N' p = N p" using down.prems(2) d(2) sub by blast
  have "\<forall>x \<in> set (nodes_of N h A). N' x = N x" "\<forall>x \<in> set (nodes_of N h B). N' x = N x"
    using d(3,4) sub down.prems(2) by blast+
  note lv = kids_frame(2) [OF this(1)] kids_frame(2) [OF this(2)]
  have fo: "focus N (Suc h) p l u (leaves_of N h A @ xs) k q lo hi (ys @ leaves_of N h B)" by (rule focus.down [OF down.hyps])
  have "tree N' (Suc h) p l u \<and> distinct (nodes N' (Suc h) p) \<and> set (nodes N' (Suc h) p) \<subseteq> set (nodes N (Suc h) p) \<union> {} \<and>
      leaves N' (Suc h) p = (leaves_of N h A @ xs) @ leaves N' k q @ ys @ leaves_of N h B \<and>
      (\<forall>x \<in> set (leaves_of N h A @ xs) \<union> set (ys @ leaves_of N h B). N' x = N x)"
    by (rule focus_replace [OF fo down.prems(1)]) (use down.prems(2-5) in simp_all)
  then have t: "tree N' (Suc h) p l u" by blast
  have K': "kids (N' p) l u = A @ (c, cl, ch) # B" using K by (simp add: p)
  have "focus N' h c cl ch xs k q lo hi ys" by (rule down.IH [OF d(1) down.prems(2-5)])
  from focus.down [OF t K' this] show ?case unfolding lv .
qed

lemma focus_leaf_put:
  assumes fo: "focus N h p l u xs 1 par pl pu ys" and d: "distinct (nodes N h p)" and K: "kids (N par) pl pu = A @ (q, lo, hi) # B"
    and n: "leaf_ok q lo hi n"
  shows "focus (N(q := n)) h p l u xs 1 par pl pu ys"
proof -
  let ?N' = "N(q := n)"
  have t: "tree N (Suc 0) par pl pu" and dp: "distinct (nodes N (Suc 0) par)" using focus_tree [OF fo] focus_distinct [OF fo d] by simp_all
  have nd: "nodes N (Suc 0) par = par # nodes_of N 0 A @ [q] @ nodes_of N 0 B" unfolding nodes_kids [of N 0 par pl pu] K by simp
  have ne: "q \<noteq> par" using dp unfolding nd by auto
  have K1: "kids (N par) pl pu = A @ [(q, lo, hi)] @ B" "kids (?N' par) pl pu = A @ [(q, lo, hi)] @ B" using K ne by simp_all
  have ip: "inner_ok par pl pu (?N' par)" using t ne by simp
  have new: "\<forall>(c, lo, hi) \<in> set [(q, lo, hi)]. tree ?N' 0 c lo hi" "distinct (nodes_of ?N' 0 [(q, lo, hi)])"
    "set (nodes_of ?N' 0 [(q, lo, hi)]) \<subseteq> set (nodes_of N 0 [(q, lo, hi)]) \<union> {}" using n by simp_all
  have R: "tree ?N' (Suc 0) par pl pu" "distinct (nodes ?N' (Suc 0) par)" "set (nodes ?N' (Suc 0) par) \<subseteq> set (nodes N (Suc 0) par) \<union> {}"
    by (rule replace_kids [OF t dp K1(1) ip K1(2) _ _ new], simp, simp)+
  have keep: "?N' x = N x" if "x \<notin> set (nodes N 1 par)" for x using that unfolding One_nat_def nd by auto
  show ?thesis by (rule focus_update [OF fo d], erule keep) (use R in \<open>simp_all only: One_nat_def Un_empty_right\<close>)
qed

section \<open>Removal from a leaf\<close>

lemma filter_cut:
  assumes "distinct (map fst es)" and "j < length es"
  shows "filter (\<lambda>e. fst e \<noteq> fst (es ! j)) es = cut j es"
  using assms
proof (induction es arbitrary: j)
  case (Cons e es)
  show ?case
  proof (cases j)
    case 0
    have "fst e \<notin> set (map fst es)" using Cons.prems(1) by simp
    then have "\<forall>x \<in> set es. fst x \<noteq> fst e" unfolding set_map by (metis imageI)
    then show ?thesis using 0 by (simp add: cut_def filter_id_conv)
  next
    case (Suc i)
    then have "es ! i \<in> set es" using Cons.prems by simp
    then have "fst (es ! i) \<noteq> fst e" using Cons.prems(1) by (metis distinct.simps(2) image_eqI list.simps(9) list.set_map)
    then show ?thesis using Cons Suc by (simp add: cut_def)
  qed
qed simp

lemma leaf_remove:
  assumes b: "btree s slot h root" and fo: "focus (t_node s) h root [] [] xs 0 q lo hi ys" and sd: "sides (t_node s) key xs ys"
    and j: "j < b_count (t_node s q)" "keys (t_node s q) ! j = key"
  shows "\<exists>n. removeSlot j (t_node s q) = Ret n \<and> leaf_ok q lo hi n \<and> btree (t_put q n s) slot h root \<and>
    stored (t_put q n s) h root = filter (\<lambda>e. fst e \<noteq> key) (stored s h root) \<and> tame 398 s (t_put q n s)"
proof -
  let ?n = "t_node s q"
  have "tree (t_node s) 0 q lo hi" using focus_tree [OF fo] by blast
  then have n: "leaf_ok q lo hi ?n" by simp
  then have N: "node_ok ?n" "distinct (keys ?n)" by (simp_all add: leaf_ok_def node_at_def)
  have st: "stored s h root = contents_of (t_node s) xs @ entries ?n @ contents_of (t_node s) ys" by (rule focus_contents [OF fo])
  obtain n' where n': "removeSlot j ?n = Ret n'" "node_ok n'" "same_frame ?n n'" "entries n' = take j (entries ?n) @ drop (Suc j) (entries ?n)"
    using removeSlot_ok [OF N(1) j(1)] by blast
  have e: "entries n' = filter (\<lambda>e. fst e \<noteq> key) (entries ?n)"
    using filter_cut [OF N(2), of j] j n'(4) by (simp add: cut_def del: entries_nth)
  have "distinct (keys n')" using N(2) by (simp add: e distinct_map_filter)
  moreover have "\<forall>e \<in> set (entries n'). in_range lo hi (fst e) \<and> pair_ok e"
    using n by (auto simp: e leaf_ok_def node_at_def fenced_def)
  ultimately have lf: "leaf_ok q lo hi n'" using leaf_ok_entries [OF n n'(2,3)] by blast
  have lk: "b_link n' = b_link ?n" using n'(3) by (simp add: same_frame_def)
  note P = leaf_put [OF b fo lf lk]
  have "filter (\<lambda>e. fst e \<noteq> key) (contents_of (t_node s) xs) = contents_of (t_node s) xs"
    "filter (\<lambda>e. fst e \<noteq> key) (contents_of (t_node s) ys) = contents_of (t_node s) ys"
    using sd unfolding sides_def by (intro filter_True; blast)+
  then have "stored (t_put q n' s) h root = filter (\<lambda>e. fst e \<noteq> key) (stored s h root)" unfolding P(2) st filter_append e by simp
  moreover have "tame 398 s (t_put q n' s)"
    by (rule tame_put) (use small_at [OF _ b] focus_nodes [OF fo] n'(2) in \<open>auto simp: e node_ok_def\<close>)
  ultimately show ?thesis using n'(1) lf P(1) by blast
qed

section \<open>Merging two leaves of the tree\<close>

lemma merge_step:
  assumes b: "btree s slot h root" and fo: "focus (t_node s) h root [] [] xs 1 par l u ys"
    and K: "kids (t_node s par) l u = A @ (p, lo, m) # (right, m', hi) # B" and pos: "length A + 1 < b_count (t_node s par)"
  shows "\<exists>ok n' par'. mergeNodes (t_tmp s) (length A) (t_node s p) (t_node s par) (t_node s right) = Ret (ok, n', par') \<and>
    btree (t_put par par' (t_put p n' s)) slot h root \<and> stored (t_put par par' (t_put p n' s)) h root = stored s h root \<and>
    tame 796 s (t_put par par' (t_put p n' s))"
proof -
  let ?N = "t_node s" and ?j = "length A"
  have tq: "tree ?N (Suc 0) par l u" using focus_tree [OF fo] by simp
  then have n: "inner_ok par l u (?N par)" by simp
  have lp: "leaf_ok p lo m (?N p)" and lr: "leaf_ok right m' hi (?N right)" using tq K by auto
  have len: "?j + 1 < length (kids (?N par) l u)" unfolding K by simp
  then have jc: "?j < b_count (?N par)" by simp
  have kj: "kids (?N par) l u ! ?j = (p, lo, m)" "kids (?N par) l u ! Suc ?j = (right, m', hi)" unfolding K by (simp_all add: nth_append)
  have e: "children (?N par) ! ?j = p" "children (?N par) ! Suc ?j = right" "m = keys (?N par) ! ?j" "m' = keys (?N par) ! ?j"
    using kids_nth [of ?j "?N par" l u] kids_nth [of "Suc ?j" "?N par" l u] kj jc by (simp_all add: nth_append del: nth_map)
  have mm: "m' = m" using e by simp
  have "keys (?N par) ! ?j \<in> set (keys (?N par))" using jc by (intro nth_mem) simp
  then have m0: "m \<noteq> []" using n e(3) by (auto simp: inner_ok_def)
  have P: "node_ok (?N p)" "node_ok (?N right)" "node_ok (?N par)" "child_ok (?N par)" "isLeaf (?N p)" "isLeaf (?N right)" "\<not> isLeaf (?N par)"
    "fenced (?N p)" "fenced (?N right)" "upp_key (?N p) = m" "low_key (?N right) = m" "b_pid (?N p) = p" "low_key (?N p) = lo" "upp_key (?N right) = hi"
    using lp lr n mm by (simp_all add: leaf_ok_def inner_ok_def node_at_def)
  have "length lo \<le> maxKVSize" "length hi \<le> maxKVSize"
    using kids_short [OF n, of p lo m] kids_short [OF n, of right m' hi] K focus_short [OF fo] by auto
  then have room: "length (low_key (?N p)) + length (upp_key (?N right)) \<le> 3984" using P(13,14) by (simp add: sizes)
  have adj: "upp_key (?N p) = low_key (?N right)" "low_key (?N right) \<noteq> []" "children (?N par) ! ?j = b_pid (?N p)"
    using P e(1) m0 by simp_all
  obtain ok n' par' where M: "mergeNodes (t_tmp s) ?j (?N p) (?N par) (?N right) = Ret (ok, n', par')"
    "if ok then merge_result (?N p) (?N right) n' \<and> node_ok par' \<and> child_ok par' \<and> same_frame (?N par) par' \<and>
        keys par' = cut ?j (keys (?N par)) \<and> children par' = cut (?j + 1) (children (?N par))
     else n' = ?N p \<and> par' = ?N par"
    using mergeNodes_ok [OF P(1,2,3,4) btreeD(5) [OF b] P(5-9) adj(1,2) room pos adj(3)] by blast
  show ?thesis
  proof (cases ok)
    case False
    then have "t_put par par' (t_put p n' s) = s" using M(2) by (auto simp: t_put_def)
    then show ?thesis using M(1) b tame_refl [of 796 s] by metis
  next
    case True
    then have R: "merge_result (?N p) (?N right) n'" "node_ok par'" "child_ok par'" "same_frame (?N par) par'"
      "keys par' = cut ?j (keys (?N par))" "children par' = cut (Suc ?j) (children (?N par))" using M(2) by simp_all
    have n': "leaf_ok p lo hi n'" "b_link n' = b_link (?N right)" "entries n' = entries (?N p) @ entries (?N right)"
    proof -
      have "k < k'" if "k \<in> set (keys (?N p))" "k' \<in> set (keys (?N right))" for k k'
      proof -
        have "k \<le> m" "m < k'" using that P(8-11) m0 by (auto simp: fenced_def in_range_def)
        then show ?thesis by (rule order.strict_trans1)
      qed
      then have "set (keys (?N p)) \<inter> set (keys (?N right)) = {}" by blast
      then have "distinct (keys n')" using R(1) lp lr by (simp add: merge_result_def leaf_ok_def node_at_def)
      then show "leaf_ok p lo hi n'" "b_link n' = b_link (?N right)" "entries n' = entries (?N p) @ entries (?N right)"
        using R(1) P(12-14) lp lr by (auto simp: merge_result_def leaf_ok_def node_at_def)
    qed
    have K': "kids par' l u = A @ (p, lo, hi) # B"
    proof -
      have "kids par' l u = take ?j (kids (?N par) l u) @ (p, lo, hi) # drop (Suc (Suc ?j)) (kids (?N par) l u)"
        unfolding kids_def R(5,6) by (rule ranges_cut(1)) (use kj jc in \<open>simp_all add: kids_def\<close>)
      then show ?thesis unfolding K by simp
    qed
    have par': "inner_ok par l u par'"
    proof -
      have sub: "set (keys par') \<subseteq> set (keys (?N par))" unfolding R(5) by (rule set_cut)
      have "distinct (keys par')" unfolding R(5) cut_def using n
        by (simp add: inner_ok_def node_at_def set_take_disj_set_drop_if_distinct)
      moreover have "\<forall>e \<in> set (entries par'). in_range l u (fst e)"
      proof
        fix e assume "e \<in> set (entries par')"
        then have "fst e \<in> set (keys (?N par))" using sub by (metis imageI set_map subsetD)
        then show "in_range l u (fst e)" using n by (auto simp: inner_ok_def node_at_def fenced_def)
      qed
      moreover have "\<forall>k \<in> set (keys par'). k \<noteq> [] \<and> length k \<le> maxKVSize" using sub n unfolding inner_ok_def by blast
      ultimately show ?thesis using n R(2,3,4) by (auto simp: inner_ok_def node_at_def fenced_def same_frame_def)
    qed
    have dq: "distinct (nodes ?N (Suc 0) par)" using focus_distinct [OF fo btreeD(3) [OF b]] by simp
    have nd: "nodes ?N (Suc 0) par = par # nodes_of ?N 0 A @ p # right # nodes_of ?N 0 B"
      unfolding nodes_kids [of ?N 0 par l u] K by simp
    have ne: "p \<noteq> par" "right \<noteq> par" "p \<noteq> right" using dq unfolding nd by auto
    define N' where "N' = ?N(p := n', par := par')"
    have N': "N' p = n'" "N' par = par'" "\<And>x. x \<noteq> p \<Longrightarrow> x \<noteq> par \<Longrightarrow> N' x = ?N x" using ne by (auto simp: N'_def)
    have same: "x \<noteq> par \<Longrightarrow> x \<notin> set (nodes_of ?N 0 [(p, lo, m), (right, m', hi)]) \<union> {} \<Longrightarrow> N' x = ?N x" for x using N'(3) by simp
    have K1: "kids (?N par) l u = A @ [(p, lo, m), (right, m', hi)] @ B" "kids (N' par) l u = A @ [(p, lo, hi)] @ B"
      using K K' by (simp_all add: N'(2))
    have ip: "inner_ok par l u (N' par)" using par' by (simp add: N'(2))
    have new: "\<forall>(c, lo, hi) \<in> set [(p, lo, hi)]. tree N' 0 c lo hi" "distinct (nodes_of N' 0 [(p, lo, hi)])"
      "set (nodes_of N' 0 [(p, lo, hi)]) \<subseteq> set (nodes_of ?N 0 [(p, lo, m), (right, m', hi)]) \<union> {}"
      using n'(1) by (simp_all add: N'(1))
    have RK: "tree N' (Suc 0) par l u" "distinct (nodes N' (Suc 0) par)" "set (nodes N' (Suc 0) par) \<subseteq> set (nodes ?N (Suc 0) par) \<union> {}"
      "leaves ?N (Suc 0) par = leaves_of ?N 0 A @ leaves_of ?N 0 [(p, lo, m), (right, m', hi)] @ leaves_of ?N 0 B"
      "leaves N' (Suc 0) par = leaves_of ?N 0 A @ leaves_of N' 0 [(p, lo, hi)] @ leaves_of ?N 0 B"
      "\<forall>x \<in> set (leaves_of ?N 0 A) \<union> set (leaves_of ?N 0 B). N' x = ?N x"
      by (rule replace_kids [OF tq dq K1(1) ip K1(2) _ _ new], erule (1) same, simp)+
    have "same_leaves ?N N' [p, right] [p]"
      using n'(2,3) N'(1) by (simp add: same_leaves_def chain_def)
    then have "same_leaves ?N N' (leaves_of ?N 0 [(p, lo, m), (right, m', hi)]) (leaves_of N' 0 [(p, lo, hi)])" by simp
    from same_leaves_context [OF this RK(6)] have sl: "same_leaves ?N N' (leaves ?N 1 par) (leaves N' 1 par)" using RK(4,5) by (simp only: One_nat_def)
    have keep: "N' x = ?N x" if "x \<notin> set (nodes ?N 1 par) \<union> {}" for x
      using that N'(3) unfolding One_nat_def nd by auto
    have FR: "tree N' h root [] [] \<and> distinct (nodes N' h root) \<and> set (nodes N' h root) \<subseteq> set (nodes ?N h root) \<union> {} \<and>
        leaves N' h root = xs @ leaves N' 1 par @ ys \<and> (\<forall>x \<in> set xs \<union> set ys. N' x = ?N x)"
      by (rule focus_replace [OF fo btreeD(3) [OF b] keep]) (use RK(1-3) in simp_all)
    then have lv: "same_leaves ?N N' (leaves ?N h root) (leaves N' h root)"
      using same_leaves_context [OF sl] focus_leaves [OF fo] by metis
    have raw: "raw_ok (N' x)" for x
      using btreeD(6) [OF b, of x] n'(1) R(2) layout_raw by (auto simp: N'_def leaf_ok_def node_at_def node_ok_def)
    have t: "t_node (t_put par par' (t_put p n' s)) = N'" by (simp add: N'_def)
    have "memory_ok (t_put par par' (t_put p n' s))" using b raw unfolding btree_def memory_ok_def t by simp
    moreover have "links N' (leaves N' h root)" using lv btreeD(4) [OF b] by (simp add: same_leaves_def links_chain)
    ultimately have "btree (t_put par par' (t_put p n' s)) slot h root" using b FR unfolding btree_def t by auto
    moreover have "stored (t_put par par' (t_put p n' s)) h root = stored s h root" using lv unfolding t by (simp add: same_leaves_def contents_def)
    moreover have "tame 796 s (t_put par par' (t_put p n' s))"
    proof -
      have used: "{par, p, right} \<subseteq> set (nodes ?N h root)" using focus_nodes [OF fo] unfolding One_nat_def nd by auto
      have "\<forall>e \<in> set (entries n'). short e" if "small s" using small_at [OF that b] used unfolding n'(3) by auto
      moreover have "short e" if s: "small s" and e: "e \<in> set (entries par')" for e
      proof -
        have "fst e \<in> set (keys (?N par))" using set_cut [of ?j "keys (?N par)"] e unfolding R(5) [symmetric] by (metis imageI set_map subsetD)
        moreover have "length (snd e) = 8" using R(3) e by (simp add: child_ok_def)
        ultimately show ?thesis using small_at [OF s b] used by (auto simp: short_def)
      qed
      moreover have "layout n'" "layout par'" using n'(1) R(2) by (simp_all add: leaf_ok_def node_at_def node_ok_def)
      ultimately have "small s \<longrightarrow> small (t_put par par' (t_put p n' s))" "budget (t_put par par' (t_put p n' s)) \<le> budget s + 796"
        using small_put [of s n' p] small_put [of "t_put p n' s" par' par] budget_put [of p n' s] budget_put [of par par' "t_put p n' s"]
          layoutD(6) [of n'] layoutD(6) [of par'] by (auto simp del: put_sel)
      then show ?thesis by (simp add: tame_def)
    qed
    ultimately show ?thesis using M(1) by blast
  qed
qed

section \<open>Removal\<close>

lemma tame_mono: "tame c s s' \<Longrightarrow> c \<le> 1200 \<Longrightarrow> tame 1200 s s'"
  by (simp add: tame_def)

lemma bt_remove_ok:
  assumes b: "btree s slot h root" and f: "h < fuel"
  shows "\<exists>s'. bt_remove fuel slot key s = Ret (key \<in> set (map fst (stored s h root)), s') \<and> btree s' slot h root \<and>
    stored s' h root = filter (\<lambda>e. fst e \<noteq> key) (stored s h root) \<and> tame 1200 s s'"
proof -
  obtain par pos q lo hi xs ys where w: "walk_pos fuel key (t_node s) metadataPageId 0 root = Ret (par, pos, q)"
    and sp: "spot (t_node s) h root [] [] par pos metadataPageId q lo hi xs ys" and sd: "sides (t_node s) key xs ys"
    using walk_pos_ok [OF btreeD(2) [OF b] in_range_root f] by blast
  let ?n = "t_node s q" and ?par = "t_node s par"
  have fo: "focus (t_node s) h root [] [] xs 0 q lo hi ys" using sp by (simp add: spot_def)
  then have lf: "leaf_ok q lo hi ?n" using focus_tree [OF fo] by simp
  then have N: "node_ok ?n" "distinct (keys ?n)" "sorted (keys ?n)" "layout ?n" by (simp_all add: leaf_ok_def node_at_def node_ok_def)
  have st: "stored s h root = contents_of (t_node s) xs @ entries ?n @ contents_of (t_node s) ys" by (rule focus_contents [OF fo])
  obtain j fnd where j: "lowerBound key ?n = Ret (j, fnd)" "located (keys ?n) key j fnd" using lowerBound_spec [OF N(1)] by blast
  have nk: "key \<notin> set (map fst (contents_of (t_node s) xs))" "key \<notin> set (map fst (contents_of (t_node s) ys))"
    using sd by (force simp: sides_def)+
  have fn: "fnd \<longleftrightarrow> key \<in> set (map fst (stored s h root))"
    using located_mem [OF N(3) j(2)] nk unfolding st by simp
  show ?thesis
  proof (cases fnd)
    case False
    then have "bt_remove fuel slot key s = Ret (False, s)" using btreeD(1) [OF b] w j(1) by (simp add: bt_remove_def Let_def)
    moreover have "filter (\<lambda>e. fst e \<noteq> key) (stored s h root) = stored s h root"
      using fn False by (intro filter_True) (metis in_set_conv_nth length_map nth_map nth_mem)
    ultimately show ?thesis using fn False b by auto
  next
    case True
    have jc: "j < b_count ?n" "keys ?n ! j = key" using j(2) True by (auto simp: located_def)
    have kt: "(key \<in> set (map fst (stored s h root))) = True" using fn True by simp
    define big where "big = (add32 (freeSpaceAfterCompaction ?n) (s_keyLen (b_slot ?n ! j) + s_payloadLen (b_slot ?n ! j)) \<ge> underFullSize \<and>
      par \<noteq> metadataPageId \<and> b_count ?par \<ge> 2 \<and> pos + 1 < b_count ?par)"
    have step: "\<exists>n. removeSlot j (t_node t q) = Ret n \<and> btree (t_put q n t) slot h root \<and>
        stored (t_put q n t) h root = filter (\<lambda>e. fst e \<noteq> key) (stored s h root) \<and> leaf_ok q lo hi n \<and> tame 398 t (t_put q n t)"
      if a: "alike (t_node s) (t_node t)" and bt: "btree t slot h root" for t
    proof -
      have "sides (t_node t) key xs ys" using sd alike_sel(1) [OF a] by (simp add: sides_def)
      moreover have "j < b_count (t_node t q)" using jc alike_sel(9) [OF a] by simp
      moreover have "keys (t_node t q) ! j = key" using jc alike_sel(1,9) [OF a] by simp_all
      from leaf_remove [OF bt alike_focus [OF fo a] calculation this] show ?thesis unfolding alike_tree(4) [OF a] by blast
    qed
    show ?thesis
    proof (cases big)
      case False
      let ?s = "t_lock q s"
      obtain n where n: "removeSlot j (t_node ?s q) = Ret n" "btree (t_put q n ?s) slot h root"
        "stored (t_put q n ?s) h root = filter (\<lambda>e. fst e \<noteq> key) (stored s h root)" "tame 398 s (t_put q n ?s)"
        using step [OF lock_alike] b by (auto simp: btree_lock)
      have "bt_remove fuel slot key s = Ret (True, t_put q n ?s)"
        by (simp only: bt_remove_def Let_def btreeD(1) [OF b] bind_run.simps w prod.case j(1) True slot_facts(1) [OF N(4) jc(1)]
            big_def [symmetric] False if_False not_True_eq_False n(1))
      then show ?thesis using n(2,3) tame_mono [OF n(4), simplified] unfolding kt by blast
    next
      case big: True
      have pm: "par \<noteq> metadataPageId" "pos + 1 < b_count ?par" using big by (simp_all add: big_def)
      obtain xs' ys' l u A B where K: "focus (t_node s) h root [] [] xs' 1 par l u ys'" "kids ?par l u = A @ (q, lo, hi) # B" "length A = pos"
        using sp pm(1) unfolding spot_def by blast
      let ?s1 = "t_lock q (t_lock par s)"
      have a1: "alike (t_node s) (t_node ?s1)" by (rule alike_trans [OF lock_alike lock_alike])
      have "length (kids ?par l u) = b_count ?par + 1" by simp
      then obtain right rlo rhi B' where B: "B = (right, rlo, rhi) # B'" using pm(2) K(2,3) by (cases B) auto
      have ip: "inner_ok par l u (t_node ?s1 par)" using focus_tree [OF K(1)] alike_sel(5) [OF a1] by simp
      have "kids (t_node ?s1 par) l u ! (pos + 1) = (right, rlo, rhi)" using K(2,3) B alike_sel(3) [OF a1] by (simp add: nth_append)
      then have cr: "children (t_node ?s1 par) ! (pos + 1) = right"
        using kids_nth [of "pos + 1" "t_node ?s1 par" l u] pm(2) alike_sel(9) [OF a1] by simp
      have gc: "getChild (t_node ?s1 par) (pos + 1) = Ret right"
        using getChild_ok(1) [of "t_node ?s1 par" "pos + 1"] ip pm(2) alike_sel(9) [OF a1, of par] cr
        by (simp add: inner_ok_def node_at_def node_ok_def)
      let ?s2 = "t_lock right ?s1"
      have a2: "alike (t_node s) (t_node ?s2)" by (rule alike_trans [OF a1 lock_alike])
      have b2: "btree ?s2 slot h root" using b by (simp add: btree_lock)
      obtain n where n: "removeSlot j (t_node ?s2 q) = Ret n" "btree (t_put q n ?s2) slot h root"
        "stored (t_put q n ?s2) h root = filter (\<lambda>e. fst e \<noteq> key) (stored s h root)" "leaf_ok q lo hi n"
        "tame 398 s (t_put q n ?s2)"
        using step [OF a2 b2] by auto
      let ?s3 = "t_put q n ?s2"
      have dq: "distinct (nodes (t_node s) 1 par)" using focus_distinct [OF K(1) btreeD(3) [OF b]] .
      have ne: "q \<noteq> par" "right \<noteq> q" using dq unfolding One_nat_def nodes_kids [of "t_node s" 0 par l u] K(2) B by auto
      have head: "bt_remove fuel slot key s =
        (if freeSpaceAfterCompaction (t_node ?s2 right) \<ge> sub32 pageSize underFullSize then
           bind_run (mergeNodes (t_tmp ?s2) pos n (t_node ?s2 par) (t_node ?s2 right)) (\<lambda>(_, n, par'). Ret (True, t_put par par' (t_put q n ?s2)))
         else Ret (True, ?s3))"
        by (simp only: bt_remove_def Let_def btreeD(1) [OF b] bind_run.simps w prod.case j(1) True slot_facts(1) [OF N(4) jc(1)]
            big_def [symmetric] big if_True if_False not_True_eq_False gc n(1))
      show ?thesis
      proof (cases "freeSpaceAfterCompaction (t_node ?s2 right) \<ge> sub32 pageSize underFullSize")
        case False
        then have "bt_remove fuel slot key s = Ret (True, ?s3)" using head by (simp only: if_False)
        then show ?thesis using n(2,3) tame_mono [OF n(5), simplified] unfolding kt by blast
      next
        case room: True
        have f3: "focus (t_node ?s3) h root [] [] xs' 1 par l u ys'"
        proof -
          have f2: "focus (t_node ?s2) h root [] [] xs' 1 par l u ys'" by (rule alike_focus [OF K(1) a2])
          have "kids (t_node ?s2 par) l u = A @ (q, lo, hi) # B" using K(2) alike_sel(3) [OF a2] by simp
          from focus_leaf_put [OF f2 btreeD(3) [OF b2] this n(4)] show ?thesis by simp
        qed
        have N3: "t_node ?s3 q = n" "t_node ?s3 par = t_node ?s2 par" "t_node ?s3 right = t_node ?s2 right" using ne by simp_all
        have "kids (t_node ?s3 par) l u = A @ (q, lo, hi) # (right, rlo, rhi) # B'" using K(2) B unfolding N3 alike_sel(3) [OF a2] by simp
        moreover have "length A + 1 < b_count (t_node ?s3 par)" using K(3) pm(2) unfolding N3 alike_sel(9) [OF a2] by simp
        ultimately obtain ok n' par' where m: "mergeNodes (t_tmp ?s3) pos (t_node ?s3 q) (t_node ?s3 par) (t_node ?s3 right) = Ret (ok, n', par')"
          "btree (t_put par par' (t_put q n' ?s3)) slot h root"
          "stored (t_put par par' (t_put q n' ?s3)) h root = stored ?s3 h root" "tame 796 ?s3 (t_put par par' (t_put q n' ?s3))"
          using merge_step [OF n(2) f3] K(3) by blast
        have eq: "t_put q n' ?s3 = t_put q n' ?s2" by (simp add: t_put_def)
        have "bt_remove fuel slot key s = Ret (True, t_put par par' (t_put q n' ?s3))"
          using head room m(1) unfolding eq N3 by simp
        then show ?thesis using m(2,3) tame_mono [OF tame_trans [OF n(5) m(4)], simplified] unfolding n(3) kt by blast
      qed
    qed
  qed
qed

end
