(* ===== verification/Btree_Limits.thy ===== *)
theory Btree_Limits
  imports Btree_Remove
begin

text \<open>
  Leaves with a given content, and what a split cannot do: the separator is a fence of both halves,
  and where it is long the left half need not fit in a page; a leaf of two entries is not split.
\<close>

section \<open>Leaves with a given content\<close>

definition blank :: "PID \<Rightarrow> bnode" where
  "blank p = \<lparr>b_dirty = False, b_pid = p, b_link = noNeighbour, lowerFence = \<lparr>f_offset = 0, f_len = 0\<rparr>,
     upperFence = \<lparr>f_offset = 0, f_len = 0\<rparr>, b_count = 0, isLeaf = False, spaceUsed = 0, dataOffset = 0, prefixLen = 0,
     b_hint = replicate hintCount 0, b_slot = replicate slotMax \<lparr>s_offset = 0, s_keyLen = 0, s_payloadLen = 0, s_head = 0\<rparr>,
     b_heap = replicate pageSize 0\<rparr>"

lemma raw_ok_blank [simp]: "raw_ok (blank p)"
  by (simp add: raw_ok_def blank_def sizes)

lemma new_leaf_ok: "raw_ok raw \<Longrightarrow> leaf_ok (b_pid raw) [] [] (node_new True raw) \<and> entries (node_new True raw) = []"
proof -
  assume r: "raw_ok raw"
  note L = node_new_layout [OF r, of True]
  have "isLeaf (node_new True raw)" "b_pid (node_new True raw) = b_pid raw" by (simp_all add: node_new_def)
  then show ?thesis using L by (simp add: leaf_ok_def node_at_def node_ok_def fenced_def)
qed

lemma located_end: "\<forall>k' \<in> set ks. k' < k \<Longrightarrow> located ks k (length ks) False"
  by (auto simp: located_def)

text \<open>A node without fences has no prefix, and its room is what the slots and entries leave.\<close>

lemma bare:
  assumes lay: "layout n" and f: "low_key n = []" "upp_key n = []"
  shows "prefixLen n = 0" "prefix n = []" "freeSpaceAfterCompaction n = 4096 - slotsEnd (b_count n) - entries_size 0 (entries n)"
    "slotsEnd (b_count n) + entries_size 0 (entries n) \<le> 4096"
    "a + c \<le> 4096 \<Longrightarrow> hasSpaceFor n a c \<longleftrightarrow> slotsEnd (b_count n + 1) + entries_size 0 (entries n) + (a + c) \<le> 4096"
proof -
  show p: "prefixLen n = 0" using layoutD(9) [OF lay] f by simp
  then show pre: "prefix n = []" by (simp add: prefix_def bytes_def)
  have "spaceUsed n = entries_size 0 (entries n)" using layout_parts(4) [OF lay] fence_lengths(1,2) [OF lay] f p by simp
  then show free: "freeSpaceAfterCompaction n = 4096 - slotsEnd (b_count n) - entries_size 0 (entries n)"
    and le: "slotsEnd (b_count n) + entries_size 0 (entries n) \<le> 4096"
    using free_facts(2,3) [OF lay] by simp_all
  show "hasSpaceFor n a c \<longleftrightarrow> slotsEnd (b_count n + 1) + entries_size 0 (entries n) + (a + c) \<le> 4096" if "a + c \<le> 4096"
    using that le by (simp add: hasSpaceFor_def free spaceNeeded_def p slotsEnd_def sizes) presburger
qed

lemma unfenced:
  assumes "leaf_ok p [] [] n"
  shows "node_ok n" "layout n" "low_key n = []" "upp_key n = []"
  using assms by (simp_all add: leaf_ok_def node_at_def node_ok_def)

lemma leaf_append:
  assumes n: "leaf_ok p [] [] n" and k: "\<forall>k' \<in> set (keys n). k' < key" and len: "length key + length pay \<le> maxKVSize"
    and room: "slotsEnd (b_count n + 1) + entries_size 0 (entries n) + (length key + length pay) \<le> 4096"
  shows "\<exists>n'. leaf_ok p [] [] n' \<and> entries n' = entries n @ [(key, pay)]"
proof -
  note N = unfenced [OF n]
  note B = bare [OF N(2-4)]
  have pre: "take (prefixLen n) key = prefix n" by (simp add: B)
  have l: "length key + length pay \<le> 4096" using len by (simp add: sizes)
  have sp: "hasSpaceFor n (length key) (length pay)" using room B(5) [OF l] by simp
  obtain n' j f where n': "node_ok n'" "same_frame n n'" "located (keys n) key j f" "entries n' = put j (key, pay) (entries n)"
    using insertInPage_ok [OF N(1) raw_ok_blank pre l sp] by blast
  have new: "key \<notin> set (keys n)" using k by blast
  have "j = length (keys n)" by (rule located_unique(1) [OF n'(3) located_end [OF k] new])
  then have e: "entries n' = entries n @ [(key, pay)]" using n'(4) by (simp add: put_def)
  have "distinct (keys n')" using n new by (simp add: e leaf_ok_def node_at_def)
  moreover have "\<forall>e \<in> set (entries n'). in_range [] [] (fst e) \<and> pair_ok e"
    using n len by (auto simp: e leaf_ok_def pair_ok_def)
  ultimately have "leaf_ok p [] [] n'" using leaf_ok_entries [OF n n'(1,2)] by blast
  then show ?thesis using e by blast
qed

text \<open>Every sorted list of entries that fits in a page is the content of a leaf.\<close>

lemma leaf_exists:
  assumes "sorted_wrt (<) (map fst es)" and "\<forall>e \<in> set es. pair_ok e" and "slotsEnd (length es) + entries_size 0 es \<le> 4096"
  shows "\<exists>n. leaf_ok p [] [] n \<and> entries n = es"
  using assms
proof (induction es rule: rev_induct)
  case Nil
  have "b_pid (blank p) = p" by (simp add: blank_def)
  then show ?case using new_leaf_ok [OF raw_ok_blank [of p]] by (intro exI [of _ "node_new True (blank p)"]) simp
next
  case (snoc e es)
  obtain n where n: "leaf_ok p [] [] n" "entries n = es"
    using snoc by (auto simp: sorted_wrt_append slotsEnd_def)
  have c: "b_count n = length es" using n(2) entries_length by metis
  have size: "entry_size 0 e = length (fst e) + length (snd e)" by (simp add: entry_size_def)
  have "\<forall>k' \<in> set (keys n). k' < fst e" using snoc.prems(1) by (auto simp: n(2) sorted_wrt_append)
  moreover have "length (fst e) + length (snd e) \<le> maxKVSize" using snoc.prems(2) by (simp add: pair_ok_def)
  moreover have "slotsEnd (b_count n + 1) + entries_size 0 (entries n) + (length (fst e) + length (snd e)) \<le> 4096"
    using snoc.prems(3) by (simp add: n(2) c size)
  ultimately show ?case using leaf_append [OF n(1), of "fst e" "snd e"] n(2) by auto
qed

section \<open>A leaf that is not split\<close>

text \<open>A leaf of two entries: the only separator is its first entry.\<close>

lemma two_entries_fail:
  assumes n: "leaf_ok p lo hi n" and c: "b_count n = 2"
  shows "\<exists>info sep. findSeparator ordered n = Ret info \<and> getSep info n = Ret sep \<and>
    splitNode raw page (sep_slot info) sep n parent = Err (Assertion ''sepSlot > 0'')"
proof -
  have "node_ok n" "distinct (keys n)" "isLeaf n" using n by (simp_all add: leaf_ok_def node_at_def)
  then obtain info sep where "findSeparator ordered n = Ret info" "getSep info n = Ret sep" "sep_slot info = 0"
    using findSeparator_ok [of n ordered] c by auto
  then show ?thesis by (intro exI [of _ info] exI [of _ sep]) (simp add: splitNode_def)
qed

text \<open>Four long keys and four short ones: the separator is long.\<close>

definition long_key :: "u8 \<Rightarrow> u8 list" where
  "long_key b = b # replicate 969 0"

definition crowded :: "(u8 list \<times> u8 list) list" where
  "crowded = [(long_key 1, []), (long_key 2, []), (long_key 3, []), (long_key 4, []), ([5], []), ([6], []), ([7], []), ([8], [])]"

lemma crowded_leaf: "\<exists>n. leaf_ok p [] [] n \<and> entries n = crowded"
  by (rule leaf_exists) (simp_all add: crowded_def long_key_def pair_ok_def slotsEnd_def sizes entry_size_def)

lemma crowded_fails:
  assumes n: "leaf_ok p [] [] n" and e: "entries n = crowded"
  shows "\<exists>info sep. findSeparator False n = Ret info \<and> getSep info n = Ret sep \<and> sep_slot info = 3 \<and> sep = long_key 4 \<and>
    \<not> (\<exists>raw page parent res. raw_ok raw \<and> raw_ok page \<and> splitNode raw page (sep_slot info) sep n parent = Ret res)"
proof -
  note N = unfenced [OF n]
  note lay = N(2) and B = bare [OF N(2-4)]
  have c: "b_count n = 8" using e entries_length [of n] by (simp add: crowded_def)
  have at: "entry_at n i = crowded ! i" if "i < 8" for i using entries_nth [of i n] e c that by simp
  have k: "key_at n 3 = long_key 4" "key_at n 4 = [5]"
    using at [of 3] at [of 4] by (simp_all add: entry_at_def B(2) crowded_def)
  note S = slot_facts [OF lay]
  have len: "s_keyLen (b_slot n ! 3) = 970" "s_keyLen (b_slot n ! 4) = 1"
    using S(4) [of 3] S(4) [of 4] c by (simp_all add: k long_key_def)
  have cp: "commonPrefix n 3 4 = Ret 0" using commonPrefix_ok [OF lay, of 3 4] c by (simp add: k long_key_def)
  define info where "info = \<lparr>sep_len = 970, sep_slot = 3, isTruncated = False\<rparr>"
  have f: "findSeparator False n = Ret info"
    using n S(1) [of 3] S(1) [of 4] c by (simp add: findSeparator_def leaf_ok_def bestSlot_def cp len B(1) info_def)
  have g: "getSep info n = Ret (long_key 4)"
    using prefix_facts(6) [OF lay] S(1) [of 3] S(2) [of 3] c k(1) len
    by (simp add: getSep_def info_def B(1,2) getKey_def)
  have "splitNode raw page 3 (long_key 4) n parent \<noteq> Ret res" if "raw_ok raw" "raw_ok page" for raw page parent res
  proof
    assume r: "splitNode raw page 3 (long_key 4) n parent = Ret res"
    have na: "node_at p [] [] n" "isLeaf n \<and> (\<forall>e \<in> set (entries n). pair_ok e) \<or> inner_ok p [] [] n \<and> (\<exists>N h. \<forall>(c, l, u) \<in> set (kids n [] []). tree N h c l u)"
      using n by (simp_all add: leaf_ok_def)
      note P = separator_ok [OF na f g]
    have "can_split n 3 (long_key 4)"
      by (rule split_fits [OF N(1) that _ _ _ _ _ r]) (use P c N(3,4) in \<open>simp_all add: info_def long_key_def\<close>)
    then have "fits [] (long_key 4) (left_part n 3)" by (simp add: can_split_def N(3,4))
    moreover have "left_part n 3 = take 4 crowded" using n e by (simp add: left_part_def leaf_ok_def)
    ultimately show False by (simp add: fits_def crowded_def long_key_def slotsEnd_def sizes entry_size_def)
  qed
  then show ?thesis using f g by (intro exI [of _ info] exI [of _ "long_key 4"]) (auto simp: info_def)
qed

end
