(* ===== verification/Btree_Progress.thy ===== *)
theory Btree_Progress
  imports Btree_Limits
begin

text \<open>
  Why insertions end. A node that has no room for a short entry and has only short ones has many
  entries, so both halves of a split in the middle fit and are smaller by at least two entries. The
  number of entries on the way to a key, which gets the separator one level up, decreases with
  every split.
\<close>

section \<open>The halves of a full node fit\<close>

lemma bestSlot_middle:
  assumes lay: "layout n" and c: "b_count n > 16" and r: "bestSlot False n = Ret r"
  shows "b_count n div 2 - b_count n div 16 \<le> r \<and> r \<le> b_count n div 2"
proof -
  define lower where "lower = b_count n div 2 - b_count n div 16"
  define upper where "upper = b_count n div 2"
  have b: "lower + 1 \<le> upper" "upper + 1 < b_count n" "lower < b_count n" "upper - 1 < b_count n" "0 < b_count n"
    using c unfolding lower_def upper_def by linarith+
  have "r = lower \<or> sep_scan n (common_len (key_at n lower) (key_at n 0)) upper (lower + 1) = Ret r"
    using r c commonPrefix_ok [OF lay b(3,5)] commonPrefix_ok [OF lay b(4,5)]
    by (simp add: bestSlot_def Let_def lower_def upper_def split: if_splits)
  then show ?thesis
    using sep_scan_ok [OF lay b(1), of "common_len (key_at n lower) (key_at n 0)"] b(1,2)
    unfolding lower_def [symmetric] unfolding upper_def [symmetric] by auto
qed

lemma findSeparator_middle:
  assumes lay: "layout n" and c: "b_count n > 16" and f: "findSeparator False n = Ret info"
  shows "b_count n div 2 - b_count n div 16 \<le> sep_slot info \<and> sep_slot info \<le> b_count n div 2"
proof (cases "isLeaf n")
  case False
  then have "sep_slot info = b_count n div 2" using f c by (auto simp: findSeparator_def Let_def run_simps)
  then show ?thesis by simp
next
  case True
  then obtain r where "bestSlot False n = Ret r" "sep_slot info = r"
    using f c by (auto simp: findSeparator_def run_simps split: if_splits)
  then show ?thesis using bestSlot_middle [OF lay c] by simp
qed

lemma entries_size_le: "\<forall>e \<in> set es. short e \<Longrightarrow> entries_size pl es \<le> 128 * length es"
  by (induction es) (auto simp: entry_size_def short_def)

lemma entries_size_antimono: "a \<le> b \<Longrightarrow> entries_size b es \<le> entries_size a es"
  using entries_size_grow [of b es a] by simp

text \<open>A part of the entries with seven entries less fits, whatever short separator becomes a fence.\<close>

lemma part_fits:
  assumes lay: "layout n" and es: "entries n = as @ es @ bs" "length as + length bs \<ge> 7"
    and len: "length l + length u \<le> length (low_key n) + length (upp_key n) + 64" and pl: "prefixLen n \<le> common_len l u"
  shows "fits l u es"
proof -
  note P = layout_parts [OF lay] and F = fence_lengths(1,2) [OF lay]
  have "length (entries n) = b_count n" by simp
  then have c: "length as + length es + length bs = b_count n" unfolding es(1) by simp
  have "entries_size (prefixLen n) es \<le> entries_size (prefixLen n) (entries n)" unfolding es(1) by simp
  then have "entries_size (common_len l u) es \<le> entries_size (prefixLen n) (entries n)"
    using entries_size_antimono [OF pl, of es] by linarith
  then show ?thesis using P(2-4) F c es(2) len by (simp add: fits_def slotsEnd_def sizes)
qed

definition full :: "bnode \<Rightarrow> bool" where
  "full n \<longleftrightarrow> (\<exists>k v. prefixLen n \<le> k \<and> k \<le> 64 \<and> v \<le> 64 \<and> \<not> hasSpaceFor n k v)"

lemma full_count:
  assumes lay: "layout n" and f: "full n" and es: "\<forall>e \<in> set (entries n). short e"
    and len: "length (low_key n) \<le> 64" "length (upp_key n) \<le> 64"
  shows "27 \<le> b_count n"
proof -
  obtain k v where k: "prefixLen n \<le> k" "k \<le> 64" "v \<le> 64" "\<not> hasSpaceFor n k v" using f by (auto simp: full_def)
  note P = layout_parts [OF lay] and F = fence_lengths(1,2) [OF lay]
  have "entries_size (prefixLen n) (entries n) \<le> 128 * b_count n" using entries_size_le [OF es, of "prefixLen n"] by simp
  then have "spaceUsed n \<le> 128 + 128 * b_count n" using P(4) F len by linarith
  moreover have "slotsEnd (b_count n) + spaceUsed n \<le> 4096" using P(2,3) by linarith
  then have "freeSpaceAfterCompaction n + (slotsEnd (b_count n) + spaceUsed n) = 4096"
    by (simp add: freeSpaceAfterCompaction_def sizes)
  moreover have "spaceNeeded n k v \<le> 138" using k by (simp add: spaceNeeded_def sizes)
  ultimately show ?thesis using k(4) by (simp add: hasSpaceFor_def slotsEnd_def sizes)
qed

text \<open>A full node of short entries with its separator in the middle.\<close>

lemma full_can_split:
  assumes n: "node_at p lo hi n" and sh: "\<forall>e \<in> set (entries n). short e" and len: "length lo \<le> 64" "length hi \<le> 64"
    and f: "full n" and s: "b_count n div 2 - b_count n div 16 \<le> s" "s \<le> b_count n div 2"
    and sep: "lo < sep" "hi = [] \<or> sep < hi" "length sep \<le> 64"
    and rng: "\<forall>e \<in> set (left_part n s). in_range lo sep (fst e)" "\<forall>e \<in> set (right_part n s). in_range sep hi (fst e)"
  shows "can_split n s sep" "length (left_part n s) + 2 \<le> b_count n" "length (right_part n s) + 2 \<le> b_count n"
    "(length (left_part n s) - 20) + (length (right_part n s) - 20) + 7 \<le> b_count n - 20"
proof -
  have lay: "layout n" and fe: "low_key n = lo" "upp_key n = hi" using n by (simp_all add: node_at_def node_ok_def)
  have c: "27 \<le> b_count n" by (rule full_count [OF lay f sh]) (simp_all add: fe len)
  have pl: "prefixLen n = common_len lo hi" using layoutD(9) [OF lay] by (simp add: fe)
  have pre: "common_len lo hi \<le> common_len lo sep" "common_len lo hi \<le> common_len sep hi"
  proof -
    have "common_len lo hi \<le> common_len lo sep \<and> common_len lo hi \<le> common_len sep hi"
    proof (cases "hi = []")
      case True
      then have "common_len lo hi = 0" using common_len_le(2) [of lo hi] by simp
      then show ?thesis by simp
    next
      case False
      then have "lo \<le> sep" "sep \<le> hi" using sep(1,2) by (simp_all add: less_imp_le)
      from squeeze(2,3) [OF this] show ?thesis by simp
    qed
    then show "common_len lo hi \<le> common_len lo sep" "common_len lo hi \<le> common_len sep hi" by simp_all
  qed
  define k where "k = (if isLeaf n then s + 1 else s)"
  have le: "left_part n s = take k (entries n)" "right_part n s = drop (s + 1) (entries n)"
    by (simp_all add: left_part_def right_part_def k_def)
  have b: "s + 9 \<le> b_count n" "10 \<le> s" "k + 8 \<le> b_count n" using s c unfolding k_def by (auto split: if_splits)
  have "fits lo sep (left_part n s)"
    by (rule part_fits [OF lay, of "[]" _ "drop k (entries n)"]) (use b le pl pre fe sep(3) in simp_all)
  moreover have "fits sep hi (right_part n s)"
    by (rule part_fits [OF lay, of "take (s + 1) (entries n)" _ "[]"]) (use b le pl pre fe sep(3) in simp_all)
  ultimately show "can_split n s sep" using b rng by (simp add: can_split_def fe)
  show "length (left_part n s) + 2 \<le> b_count n" "length (right_part n s) + 2 \<le> b_count n" using b by (simp_all add: le)
  have "length (left_part n s) + length (right_part n s) \<le> b_count n" "10 \<le> length (left_part n s)" "8 \<le> length (right_part n s)"
    using b unfolding le k_def by auto
  then show "(length (left_part n s) - 20) + (length (right_part n s) - 20) + 7 \<le> b_count n - 20" using c by arith
qed

section \<open>The entries on the way to a key\<close>

fun load :: "(PID \<Rightarrow> bnode) \<Rightarrow> nat \<Rightarrow> u8 list \<Rightarrow> PID \<Rightarrow> u8 list \<Rightarrow> u8 list \<Rightarrow> nat" where
  "load N 0 key p l u = b_count (N p)"
| "load N (Suc h) key p l u = b_count (N p) +
     sum_list (map (\<lambda>(c, lo, hi). if in_range lo hi key then load N h key c lo hi else 0) (kids (N p) l u))"

abbreviation loads :: "(PID \<Rightarrow> bnode) \<Rightarrow> nat \<Rightarrow> u8 list \<Rightarrow> kid list \<Rightarrow> nat" where
  "loads N h key K \<equiv> sum_list (map (\<lambda>(c, lo, hi). if in_range lo hi key then load N h key c lo hi else 0) K)"

lemma load_cong:
  assumes "\<And>x. x \<in> set (nodes N h p) \<Longrightarrow> b_count (N' x) = b_count (N x) \<and> (\<forall>l u. kids (N' x) l u = kids (N x) l u)"
  shows "load N' h key p l u = load N h key p l u"
  using assms
proof (induction h arbitrary: p l u)
  case (Suc h)
  have p: "b_count (N' p) = b_count (N p)" "kids (N' p) l u = kids (N p) l u" using Suc.prems [of p] by simp_all
  have "load N' h key c lo hi = load N h key c lo hi" if "(c, lo, hi) \<in> set (kids (N p) l u)" for c lo hi
  proof (rule Suc.IH)
    fix x assume "x \<in> set (nodes N h c)"
    then have "x \<in> set (nodes N (Suc h) p)" using that unfolding nodes_kids [of N h p l u] by force
    then show "b_count (N' x) = b_count (N x) \<and> (\<forall>l u. kids (N' x) l u = kids (N x) l u)" by (rule Suc.prems)
  qed
  then have "loads N' h key (kids (N p) l u) = loads N h key (kids (N p) l u)"
    by (intro arg_cong [where f = sum_list] map_cong refl) auto
  then show ?case by (simp add: p)
qed simp

lemma load_frame: "(\<And>x. x \<in> set (nodes N h p) \<Longrightarrow> N' x = N x) \<Longrightarrow> load N' h key p l u = load N h key p l u"
  by (rule load_cong) simp

lemma load_alike: "alike N N' \<Longrightarrow> load N' h key p l u = load N h key p l u"
  by (rule load_cong) (simp add: alike_sel)

lemma loads_frame:
  assumes "\<forall>x \<in> set (nodes_of N h K). N' x = N x"
  shows "loads N' h key K = loads N h key K"
proof -
  have "load N' h key c lo hi = load N h key c lo hi" if "(c, lo, hi) \<in> set K" for c lo hi
    by (rule load_frame) (use that assms in force)
  then show ?thesis by (intro arg_cong [where f = sum_list] map_cong refl) auto
qed

text \<open>Each half of a node has less on the way than the node.\<close>

lemma halves_load:
  assumes t: "tree N k p lo hi" and d: "distinct (nodes N k p)" and new: "new \<notin> set (nodes N k p)"
    and c: "can_split (N p) s sep" and r: "split_result (N p) s sep new left right"
    and inner: "\<not> isLeaf (N p) \<Longrightarrow> sep = keys (N p) ! s"
    and N': "N' p = left" "N' new = right" "\<And>x. x \<in> set (nodes N k p) \<Longrightarrow> x \<noteq> p \<Longrightarrow> N' x = N x"
  shows "load N' k key p lo sep + b_count (N p) \<le> load N k key p lo hi + length (left_part (N p) s)"
    and "load N' k key new sep hi + b_count (N p) \<le> load N k key p lo hi + length (right_part (N p) s)"
proof -
  have s: "s < b_count (N p)" using c by (simp add: can_split_def)
  have cnt: "b_count left = length (left_part (N p) s)" "b_count right = length (right_part (N p) s)"
    using r entries_length [of left] entries_length [of right] by (simp_all only: split_result_def)
  have "load N' k key p lo sep + b_count (N p) \<le> load N k key p lo hi + length (left_part (N p) s) \<and>
    load N' k key new sep hi + b_count (N p) \<le> load N k key p lo hi + length (right_part (N p) s)"
  proof (cases k)
    case 0
    then show ?thesis using N'(1,2) cnt by simp
  next
    case (Suc h)
    let ?K = "kids (N p) lo hi"
    have nl: "\<not> isLeaf (N p)" using t Suc by (simp add: inner_ok_def)
    note K = split_kids(1) [OF r nl s inner [OF nl], of lo hi] split_kids(2) [OF r nl s inner [OF nl], where lo = lo and hi = hi]
    let ?A = "take (Suc s) ?K" and ?B = "drop (Suc s) ?K"
    have nd: "nodes N k p = p # nodes_of N h ?A @ nodes_of N h ?B"
      unfolding Suc nodes_kids [of N h p lo hi] by (metis append_take_drop_id concat_append map_append)
    have fr: "\<forall>x \<in> set (nodes_of N h ?A). N' x = N x" "\<forall>x \<in> set (nodes_of N h ?B). N' x = N x"
      using N'(3) d unfolding nd by auto
    have "loads N h key (?A @ ?B) = loads N h key ?A + loads N h key ?B" by (simp only: map_append sum_list_append)
    then have "loads N h key ?K = loads N h key ?A + loads N h key ?B" by (simp only: append_take_drop_id)
    then show ?thesis unfolding Suc using loads_frame [OF fr(1), of key] loads_frame [OF fr(2), of key]
      by (simp add: N' K cnt)
  qed
  then show "load N' k key p lo sep + b_count (N p) \<le> load N k key p lo hi + length (left_part (N p) s)"
    "load N' k key new sep hi + b_count (N p) \<le> load N k key p lo hi + length (right_part (N p) s)" by simp_all
qed

lemma split_load:
  assumes t: "tree N (Suc k) q l u" and d: "distinct (nodes N (Suc k) q)" and new: "new \<notin> set (nodes N (Suc k) q)"
    and K: "kids (N q) l u = A @ (p, lo, hi) # B" and key: "in_range lo hi key"
    and c: "can_split (N p) s sep" and r: "split_result (N p) s sep new left right" and sep: "lo < sep" "hi = [] \<or> sep < hi"
    and inner: "\<not> isLeaf (N p) \<Longrightarrow> sep = keys (N p) ! s" and len: "length sep \<le> maxKVSize"
    and par: "adopted (N q) (length A) sep p new par"
    and cnt: "length (left_part (N p) s) + 2 \<le> b_count (N p)" "length (right_part (N p) s) + 2 \<le> b_count (N p)"
    and N': "N' = N(p := left, new := right, q := par)"
  shows "load N' (Suc k) key q l u + 1 \<le> load N (Suc k) key q l u"
proof -
  have n: "inner_ok q l u (N q)" using t by simp
  note P = adopted_ok [OF n K sep len par]
  have tp: "tree N k p lo hi" using t K by simp
  have nd: "nodes N (Suc k) q = q # nodes_of N k A @ nodes N k p @ nodes_of N k B" using nodes_split K .
  have ne: "q \<notin> set (nodes N k p)" "new \<notin> set (nodes N k p)" "q \<noteq> new" "distinct (nodes N k p)" "p \<noteq> q" "p \<noteq> new"
    using d new root_node [of p N k] unfolding nd by auto
  have Np: "N' p = left" "N' new = right" "N' q = par" "\<And>x. x \<in> set (nodes N k p) \<Longrightarrow> x \<noteq> p \<Longrightarrow> N' x = N x"
    using ne by (auto simp: N')
  note H = halves_load [OF tp ne(4,2) c r inner Np(1,2,4), of key]
  have "x \<noteq> p \<and> x \<noteq> new \<and> x \<noteq> q" if "x \<in> set (nodes_of N k A) \<union> set (nodes_of N k B)" for x
    using that d new root_node [of p N k] unfolding nd by (auto simp del: root_node)
  then have fr: "\<forall>x \<in> set (nodes_of N k A). N' x = N x" "\<forall>x \<in> set (nodes_of N k B). N' x = N x" by (auto simp: N')
  have one: "in_range lo sep key \<noteq> in_range sep hi key"
    using key sep by (auto simp: in_range_def not_le not_less)
  have "b_count par = b_count (N q) + 1"
  proof -
    have "length (keys par) = length (put (length A) sep (keys (N q)))" using par by (simp add: adopted_def)
    then show ?thesis using between_kids(3) [OF n K sep] by (simp add: put_def)
  qed
  then show ?thesis
    using H one cnt key loads_frame [OF fr(1), of key] loads_frame [OF fr(2), of key] by (auto simp: Np(3) P(2) K)
qed

section \<open>The way to a node\<close>

lemma focus_range: "focus N h p l u xs k q lo hi ys \<Longrightarrow> in_range lo hi key \<Longrightarrow> in_range l u key"
proof (induction rule: focus.induct)
  case (down h p l u A c cl ch B xs k q lo hi ys)
  have "inner_ok p l u (N p)" "(c, cl, ch) \<in> set (kids (N p) l u)" using down.hyps(1,2) by simp_all
  then show ?case using kid_range down.IH [OF down.prems] by blast
qed simp

lemma focus_load:
  assumes "focus N h p l u xs k q lo hi ys" and "distinct (nodes N h p)"
    and "\<And>x. x \<notin> set (nodes N k q) \<union> F \<Longrightarrow> N' x = N x" and "F \<inter> set (nodes N h p) = {}" and "in_range lo hi key"
    and "load N' k key q lo hi + d \<le> load N k key q lo hi"
  shows "load N' h key p l u + d \<le> load N h key p l u"
  using assms
proof (induction rule: focus.induct)
  case (down h p l u A c cl ch B xs k q lo hi ys)
  have nd: "nodes N (Suc h) p = p # nodes_of N h A @ nodes N h c @ nodes_of N h B" using nodes_split down.hyps(2) .
  have sub: "set (nodes N k q) \<subseteq> set (nodes N h c)" using focus_nodes [OF down.hyps(3)] .
  have Fc: "F \<inter> set (nodes N h c) = {}" "distinct (nodes N h c)" using down.prems(1,3) unfolding nd by auto
  have keep: "x \<notin> set (nodes N h c) \<union> F" if "x \<in> {p} \<union> set (nodes_of N h A) \<union> set (nodes_of N h B)" for x
    using that down.prems(1,3) unfolding nd by auto
  have "N' x = N x" if "x \<in> {p} \<union> set (nodes_of N h A) \<union> set (nodes_of N h B)" for x
    using down.prems(2) keep [OF that] sub by blast
  then have fr: "N' p = N p" "\<forall>x \<in> set (nodes_of N h A). N' x = N x" "\<forall>x \<in> set (nodes_of N h B). N' x = N x" by auto
  have "in_range cl ch key" by (rule focus_range [OF down.hyps(3) down.prems(4)])
  then show ?case
    using down.IH [OF Fc(2) down.prems(2) Fc(1) down.prems(4,5)] loads_frame [OF fr(2), of key] loads_frame [OF fr(3), of key]
    by (simp add: fr(1) down.hyps(2))
qed simp

lemma kid_unique:
  assumes n: "inner_ok p l u n" and K: "kids n l u = A @ (c, lo, hi) # B" "kids n l u = A' @ (c', lo', hi') # B'"
    and r: "in_range lo hi key" "in_range lo' hi' key"
  shows "c' = c"
proof -
  have at: "kids n l u ! length A = (c, lo, hi)" "kids n l u ! length A' = (c', lo', hi')" by (simp add: K(1)) (simp add: K(2))
  have "length A < length (kids n l u)" unfolding K(1) by simp
  moreover have "length A' < length (kids n l u)" unfolding K(2) by simp
  ultimately have len: "length A < length (kids n l u)" "length A' < length (kids n l u)" .
  note s = kids_sorted [OF n, unfolded sorted_wrt_iff_nth_less, rule_format]
  have "\<not> length A < length A'" using s [of "length A" "length A'"] before_less [of "(c, lo, hi)" "(c', lo', hi')" lo key hi' key] len r
    by (auto simp: at)
  moreover have "\<not> length A' < length A" using s [of "length A'" "length A"] before_less [of "(c', lo', hi')" "(c, lo, hi)" lo' key hi key] len r
    by (auto simp: at)
  ultimately have "length A = length A'" by simp
  then show ?thesis using at by simp
qed

lemma walk_to:
  assumes "focus N h p l u xs k q lo hi ys" and "distinct (nodes N h p)" and "in_range lo hi key" and "h < fuel"
  shows "\<exists>parent. walk fuel (\<lambda>x. x = q) key N meta p = Ret (parent, q) \<and> found_at N h p l u meta parent k q lo hi xs ys"
  using assms
proof (induction arbitrary: fuel meta rule: focus.induct)
  case (here h p l u)
  then obtain f where "fuel = Suc f" by (cases fuel) auto
  then show ?case using focus.here [OF here.hyps] by (auto simp: found_at_def)
next
  case (down h p l u A c cl ch B xs k q lo hi ys)
  obtain f where f: "fuel = Suc f" "h < f" using down.prems(3) by (cases fuel) auto
  have n: "inner_ok p l u (N p)" "\<not> isLeaf (N p)" using down.hyps(1) by (simp_all add: inner_ok_def)
  have nd: "nodes N (Suc h) p = p # nodes_of N h A @ nodes N h c @ nodes_of N h B" using nodes_split down.hyps(2) .
  have "q \<in> set (nodes N h c)" using focus_nodes [OF down.hyps(3)] root_node [of q N k] by blast
  then have pq: "p \<noteq> q" and dc: "distinct (nodes N h c)" using down.prems(1) unfolding nd by auto
  have rc: "in_range cl ch key" by (rule focus_range [OF down.hyps(3) down.prems(2)])
  have kin: "(c, cl, ch) \<in> set (kids (N p) l u)" by (simp add: down.hyps(2))
  obtain A' c' lo' hi' B' where L: "lookupInner key (N p) = Ret c'" "kids (N p) l u = A' @ (c', lo', hi') # B'" "in_range lo' hi' key"
    using lookupInner_ok [OF n(1) kid_range [OF n(1) kin rc]] by blast
  have "c' = c" by (rule kid_unique [OF n(1) down.hyps(2) L(2) rc L(3)])
  then have c: "lookupInner key (N p) = Ret c" using L(1) by simp
  obtain parent where IH: "walk f (\<lambda>x. x = q) key N p c = Ret (parent, q)" "found_at N h c cl ch p parent k q lo hi xs ys"
    using down.IH [OF dc down.prems(2) f(2)] by blast
  have "walk fuel (\<lambda>x. x = q) key N meta p = Ret (parent, q)" using n(2) pq c IH(1) by (simp add: f(1))
  then show ?case using found_down [OF down.hyps(1,2) IH(2)] by blast
qed

section \<open>One split makes progress\<close>

lemma kid_bounds:
  assumes "(c, lo, hi) \<in> set (kids n l u)"
  shows "lo \<in> set (l # keys n)" "hi \<in> set (keys n @ [u])"
proof -
  obtain j where j: "j \<le> b_count n" "kids n l u ! j = (c, lo, hi)" using assms by (auto simp: in_set_conv_nth less_Suc_eq_le)
  have "lo = (l # keys n) ! j" "hi = (keys n @ [u]) ! j" using j kids_nth [OF j(1)] by simp_all
  then show "lo \<in> set (l # keys n)" "hi \<in> set (keys n @ [u])" using j(1) by (metis nth_mem le_imp_less_Suc length_Cons length_append_singleton length_map entries_length)+
qed

lemma focus_bounds:
  "focus N h p l u xs k q lo hi ys \<Longrightarrow> \<forall>x \<in> set (nodes N h p). \<forall>e \<in> set (entries (N x)). short e \<Longrightarrow> length l \<le> 64 \<Longrightarrow> length u \<le> 64 \<Longrightarrow>
    length lo \<le> 64 \<and> length hi \<le> 64"
proof (induction rule: focus.induct)
  case (down h p l u A c cl ch B xs k q lo hi ys)
  have "(c, cl, ch) \<in> set (kids (N p) l u)" by (simp add: down.hyps(2))
  from kid_bounds [OF this] have "length cl \<le> 64" "length ch \<le> 64" using down.prems by (auto simp: short_def)
  moreover have "set (nodes N h c) \<subseteq> set (nodes N (Suc h) p)" unfolding nodes_kids [of N h p l u] down.hyps(2) by auto
  then have "\<forall>x \<in> set (nodes N h c). \<forall>e \<in> set (entries (N x)). short e" using down.prems(1) by blast
  ultimately show ?case using down.IH by blast
qed simp

lemma short_keys:
  assumes "\<forall>e \<in> set (entries n). short e" and "i < b_count n"
  shows "length (keys n ! i) \<le> 64"
proof -
  have "keys n ! i \<in> set (keys n)" using assms(2) by (intro nth_mem) simp
  then show ?thesis using assms(1) by (auto simp: short_def)
qed

lemma sum_three:
  fixes f :: "'a \<Rightarrow> nat"
  assumes "finite S" and "p \<in> S" "q \<in> S" "p \<noteq> q" "w \<notin> S"
  shows "(\<Sum>x \<in> insert w S. (f(p := a, w := b, q := c)) x) + f p + f q = (\<Sum>x \<in> S. f x) + a + b + c"
proof -
  let ?g = "f(p := a, w := b, q := c)"
  have R: "sum h S = h p + (h q + sum h (S - {p} - {q}))" for h :: "'a \<Rightarrow> nat"
    using assms sum.remove [of S p h] sum.remove [of "S - {p}" q h] by simp
  have "sum ?g (S - {p} - {q}) = sum f (S - {p} - {q})" by (rule sum.cong) (use assms(5) in auto)
  moreover have "p \<noteq> w" "q \<noteq> w" using assms by auto
  ultimately show ?thesis using R [of ?g] R [of f] assms by (simp add: sum.insert)
qed

lemma split_now:
  assumes b: "btree s slot h root" and sm: "small s" and fo: "focus (t_node s) h root [] [] xs (Suc k) q l u ys"
    and K: "kids (t_node s q) l u = A @ (p, lo, hi) # B" and key: "in_range lo hi key"
    and f: "findSeparator False (t_node s p) = Ret info" and g: "getSep info (t_node s p) = Ret sep"
    and sp: "hasSpaceFor (t_node s q) (sep_len info) 8" and full: "full (t_node s p)" and fr: "t_fresh s = Ret (new, page, s1)"
  shows "\<exists>left right par. splitNode (t_tmp s1) page (sep_slot info) sep (t_node s1 p) (t_node s1 q) = Ret (left, right, par) \<and>
    small (t_put q par (t_put new right (t_put p left s1))) \<and>
    load (t_node (t_put q par (t_put new right (t_put p left s1)))) h key root [] [] + 1 \<le> load (t_node s) h key root [] [] \<and>
    budget (t_put q par (t_put new right (t_put p left s1))) + 1 \<le> budget s"
proof -
  let ?N = "t_node s" and ?s = "sep_slot info"
  note F = fresh_ok [OF b fr] and L = below [OF fo K]
  have tq: "tree ?N (Suc k) q l u" using focus_tree [OF fo] by blast
  have nq: "set (nodes ?N (Suc k) q) \<subseteq> set (nodes ?N h root)" using focus_nodes [OF fo] .
  have nd: "nodes ?N (Suc k) q = q # nodes_of ?N k A @ nodes ?N k p @ nodes_of ?N k B" using nodes_split K .
  then have pq: "p \<in> set (nodes ?N (Suc k) q)" by simp
  then have used: "p \<in> set (nodes ?N h root)" "q \<in> set (nodes ?N h root)" using nq root_node [of q ?N "Suc k"] by blast+
  have sh: "\<forall>x \<in> set (nodes ?N h root). \<forall>e \<in> set (entries (?N x)). short e" using small_at [OF sm b] by blast
  have shp: "\<forall>e \<in> set (entries (?N p)). short e" using sh used by blast
  have lens: "length lo \<le> 64" "length hi \<le> 64"
  proof -
    have "length l \<le> 64" "length u \<le> 64" using focus_bounds [OF fo sh] by simp_all
    moreover have "(p, lo, hi) \<in> set (kids (?N q) l u)" by (simp add: K)
    from kid_bounds [OF this] have "lo = l \<or> lo \<in> set (keys (?N q))" "hi = u \<or> hi \<in> set (keys (?N q))" by auto
    ultimately show "length lo \<le> 64" "length hi \<le> 64" using sh used(2) by (auto simp: short_def)
  qed
  have N: "node_ok (?N p)" "layout (?N p)" "distinct (keys (?N p))" "low_key (?N p) = lo" "upp_key (?N p) = hi"
    using L(3) by (simp_all add: node_at_def node_ok_def)
  have c: "27 \<le> b_count (?N p)" by (rule full_count [OF N(2) full shp]) (simp_all add: N lens)
  have mid: "b_count (?N p) div 2 - b_count (?N p) div 16 \<le> ?s" "?s \<le> b_count (?N p) div 2"
    using findSeparator_middle [OF N(2) _ f] c by simp_all
  have s0: "0 < ?s" using mid(1) c by linarith
  note S = separator_ok [OF L(3,5) f g s0]
  have sl: "length sep \<le> 64"
  proof -
    obtain i where "i < b_count (?N p)" "length sep \<le> length (keys (?N p) ! i)"
      using findSeparator_ok [OF N(1) _ N(3), of False] c f g by auto
    then show ?thesis using short_keys [OF shp] order.trans by blast
  qed
  note C = full_can_split [OF L(3) shp lens full mid S(3,4) sl S(7,8)]
  obtain left right par where r: "splitNode (t_tmp s) page ?s sep (?N p) (?N q) = Ret (left, right, par)"
    and res: "split_result (?N p) ?s sep new left right" "adopted (?N q) (length A) sep p new par"
    using split_outcome [OF b fo K f g sp F(3) C(1)] F(4) by auto
  let ?s' = "t_put q par (t_put new right (t_put p left s1))"
  define N' where "N' = ?N(p := left, new := right, q := par)"
  have t: "t_node ?s' = N'" by (simp add: N'_def F(5))
  have dq: "distinct (nodes ?N (Suc k) q)" by (rule focus_distinct [OF fo btreeD(3) [OF b]])
  have nw: "new \<notin> set (nodes ?N (Suc k) q)" using F(1) nq by blast
  have keep: "N' x = ?N x" if "x \<notin> set (nodes ?N (Suc k) q) \<union> {new}" for x
    using that pq root_node [of q ?N "Suc k"] by (auto simp: N'_def)
  have "load N' (Suc k) key q l u + 1 \<le> load ?N (Suc k) key q l u"
    by (rule split_load [OF tq dq nw K key C(1) res(1) S(3,4,6,5) res(2) C(2,3) N'_def])
  moreover have "(p, lo, hi) \<in> set (kids (?N q) l u)" by (simp add: K)
  then have "in_range l u key" by (rule kid_range [OF L(1) _ key])
  ultimately have "load N' h key root [] [] + 1 \<le> load ?N h key root [] []"
    using focus_load [OF fo btreeD(3) [OF b] keep] F(1) by blast
  moreover have "small ?s'"
  proof -
    have "\<forall>e \<in> set (entries left). short e" "\<forall>e \<in> set (entries right). short e"
      using split_nodes_at(3,4) [OF L(3) C(1) res(1) S(3,4)] shp by blast+
    moreover have "short e" if e: "e \<in> set (entries par)" for e
    proof -
      have "set (keys par) = insert sep (set (keys (?N q)))" using res(2) by (simp only: adopted_def set_put)
      then have "fst e = sep \<or> fst e \<in> set (keys (?N q))" using e by (metis imageI insertE set_map)
      moreover have "length (snd e) = 8" using res(2) e by (simp add: adopted_def child_ok_def)
      moreover have "\<forall>k \<in> set (keys (?N q)). length k \<le> 64" using sh used(2) by (force simp: short_def)
      ultimately show ?thesis using sl by (auto simp: short_def simp del: set_map)
    qed
    moreover have "unat x \<noteq> t_alloc s" if "x \<noteq> new" for x using that F(2) by (metis word_unat_eq_iff)
    ultimately show ?thesis using sm unfolding small_def t put_sel(2) F(7)
      by (auto simp: N'_def less_Suc_eq)
  qed
  moreover have "budget ?s' + 1 \<le> budget s"
  proof -
    have cnt: "b_count left = length (left_part (?N p) ?s)" "b_count right = length (right_part (?N p) ?s)"
      using res(1) entries_length [of left] entries_length [of right] by (simp_all only: split_result_def)
    have "length (keys par) = length (put (length A) sep (keys (?N q)))" using res(2) by (simp add: adopted_def)
    then have cp: "b_count par = b_count (?N q) + 1" using between_kids(3) [OF L(1) K S(3,4)] by (simp add: put_def)
    have "x \<in> in_use s" if "x \<in> set (nodes ?N h root)" for x using b that by (auto simp: btree_def in_use_def)
    then have iu: "p \<in> in_use s" "q \<in> in_use s" using used by simp_all
    have "q \<noteq> p" using dq root_node [of p ?N k] unfolding nd by (auto simp del: root_node)
    have new: "new \<notin> in_use s" using F(2) by (simp add: in_use_def)
    have "0 < t_alloc s" using btreeD(7) [OF b] .
    then have S': "in_use ?s' = insert new (in_use s)"
      using F(2) by (auto simp: in_use_def F(7) less_Suc_eq word_unat_eq_iff)
    let ?f = "\<lambda>x. b_count (?N x) - 20"
    have "crowd ?s' = (\<Sum>x \<in> insert new (in_use s). (?f(p := b_count left - 20, new := b_count right - 20, q := b_count par - 20)) x)"
      unfolding crowd_def S' t by (rule sum.cong) (auto simp: N'_def)
    then have "crowd ?s' + ?f p + ?f q = crowd s + (b_count left - 20) + (b_count right - 20) + (b_count par - 20)"
      using sum_three [OF finite iu \<open>q \<noteq> p\<close> [symmetric] new] by (simp only: crowd_def)
    then have "crowd ?s' + 6 \<le> crowd s" using C(4) cp cnt by arith
    then show ?thesis by (simp add: budget_def F(7))
  qed
  ultimately have "small ?s'" "budget ?s' + 1 \<le> budget s" "load (t_node ?s') h key root [] [] + 1 \<le> load ?N h key root [] []" by (simp_all only: t)
  moreover have "splitNode (t_tmp s1) page ?s sep (t_node s1 p) (t_node s1 q) = Ret (left, right, par)" using r by (simp only: F(5,8))
  ultimately show ?thesis by blast
qed

section \<open>A split with the splits above makes progress\<close>

definition no_ids :: "'a run \<Rightarrow> pages \<Rightarrow> bool" where
  "no_ids r s \<longleftrightarrow> r = Err (Fatal ''no page id'') \<and> 2 ^ 64 - 1 \<le> t_alloc s"

definition split_done :: "nat \<Rightarrow> u8 list \<Rightarrow> pages \<Rightarrow> nat \<Rightarrow> PID \<Rightarrow> pages \<Rightarrow> bool" where
  "split_done slot key s h root s' \<longleftrightarrow> (\<exists>h' root'. btree s' slot h' root' \<and> stored s' h' root' = stored s h root \<and> small s' \<and>
     h' \<le> h + 1 \<and> budget s' \<le> budget s \<and> load (t_node s') h' key root' [] [] < load (t_node s) h key root [] [])"

lemma full_alike: "alike N N' \<Longrightarrow> full (N' p) = full (N p)"
proof -
  assume "alike N N'"
  then obtain b where "N' p = (N p)\<lparr>b_dirty := b\<rparr>" unfolding alike_def by blast
  then show ?thesis by (simp add: full_def)
qed

text \<open>The step when the parent has room, or is a new root.\<close>

lemma commit_progress:
  assumes b: "btree s slot h root" and sm: "small s" and fo: "focus (t_node s) h root [] [] xs (Suc k) q l u ys"
    and K: "kids (t_node s q) l u = A @ (p, lo, hi) # B" and key: "in_range lo hi key"
    and f: "findSeparator False (t_node s p) = Ret info" and g: "getSep info (t_node s p) = Ret sep"
    and sp: "hasSpaceFor (t_node s q) (sep_len info) 8" and full: "full (t_node s p)"
    and r: "r = bind_run (t_fresh s) (\<lambda>(new, page, s).
       bind_run (splitNode (t_tmp s) page (sep_slot info) sep (t_node s p) (t_node s q)) (\<lambda>(left, right, par).
       Ret (t_put q par (t_put new right (t_put p left s)))))"
  shows "(\<exists>s'. r = Ret s' \<and> btree s' slot h root \<and> stored s' h root = stored s h root \<and> small s' \<and> budget s' + 1 \<le> budget s \<and>
    load (t_node s') h key root [] [] < load (t_node s) h key root [] []) \<or> no_ids r s"
proof (cases "t_alloc s < 2 ^ 64 - 1")
  case False
  then show ?thesis by (simp add: r t_fresh_def Let_def no_ids_def)
next
  case True
  then obtain new page s1 where fr: "t_fresh s = Ret (new, page, s1)" by (auto simp: t_fresh_def Let_def)
  obtain left right par where S: "splitNode (t_tmp s1) page (sep_slot info) sep (t_node s1 p) (t_node s1 q) = Ret (left, right, par)"
    "small (t_put q par (t_put new right (t_put p left s1)))"
    "load (t_node (t_put q par (t_put new right (t_put p left s1)))) h key root [] [] + 1 \<le> load (t_node s) h key root [] []"
    "budget (t_put q par (t_put new right (t_put p left s1))) + 1 \<le> budget s"
    using split_now [OF b sm fo K key f g sp full fr] by blast
  let ?s' = "t_put q par (t_put new right (t_put p left s1))"
  have "r = Ret ?s'" using fr S(1) by (simp add: r)
  moreover note split_commit [OF b fo K f g sp fr S(1)]
  ultimately show ?thesis using S(2-4) by (metis Suc_eq_plus1 Suc_le_eq)
qed

lemma separator_exists:
  assumes n: "node_at p lo hi n" and c: "b_count n > 1"
  shows "\<exists>info sep. findSeparator ordered n = Ret info \<and> getSep info n = Ret sep \<and> sep_len info = length sep \<and>
    (\<exists>i < b_count n. length sep \<le> length (keys n ! i))"
  using findSeparator_ok [of n ordered] n c by (auto simp: node_at_def)

text \<open>The new root.\<close>

lemma grow_root_returns:
  assumes b: "btree s slot h root" and sm: "small s" and al: "t_alloc s < 2 ^ 64 - 1"
  shows "\<exists>q s1. grow_root slot root s = Ret (q, s1) \<and> t_alloc s1 = t_alloc s + 1 \<and> budget s1 = budget s + 1 \<and> t_node s1 root = t_node s root \<and> small s1 \<and>
    load (t_node s1) (Suc h) key q [] [] = load (t_node s) h key root [] [] \<and> (\<forall>k \<le> 64. hasSpaceFor (t_node s1 q) k 8)"
proof -
  obtain q page s0 where f: "t_fresh s = Ret (q, page, s0)" using al by (auto simp: t_fresh_def Let_def)
  note F = fresh_ok [OF b f]
  let ?n = "(node_new False page)\<lparr>b_link := root\<rparr>"
  have s0: "s0 = s\<lparr>t_alloc := t_alloc s + 1\<rparr>" using f by (auto simp: t_fresh_def Let_def split: if_splits)
  define s1 where "s1 = s0\<lparr>t_node := (t_node s)(q := ?n), t_roots := (t_roots s)[slot := q]\<rparr>"
  have "slot < length (t_roots s)" using b by (simp add: btree_def)
  then have g: "grow_root slot root s = Ret (q, s1)"
    by (simp add: grow_root_def t_new_def f Let_def setRoot_def t_put_def s0 s1_def)
  have n1: "t_node s1 = (t_node s)(q := ?n)" "t_alloc s1 = t_alloc s + 1" by (simp_all add: s1_def s0)
  have qr: "q \<noteq> root" using F(1) root_node [of root "t_node s" h] by metis
  note L = node_new_layout [OF F(3), of False]
  have e: "entries ?n = []" "layout ?n" "low_key ?n = []" "upp_key ?n = []" using L by simp_all
  then have c: "b_count ?n = 0" using entries_length [of ?n] by simp
  have "unat x \<noteq> t_alloc s" if "x \<noteq> q" for x using that F(2) by (metis word_unat_eq_iff)
  then have "small s1" using sm e(1) unfolding small_def n1 by (auto simp: less_Suc_eq)
  moreover have "hasSpaceFor (t_node s1 q) k 8" if "k \<le> 64" for k
    unfolding n1(1) fun_upd_same using bare(5) [OF e(2-4), of k 8] that by (simp add: L(2) c slotsEnd_def sizes)
  moreover have "load (t_node s1) (Suc h) key q [] [] = load (t_node s) h key root [] []"
  proof -
    have "load (t_node s1) h key root [] [] = load (t_node s) h key root [] []"
      by (rule load_frame) (use F(1) in \<open>auto simp: n1(1)\<close>)
    then show ?thesis using new_root(2) [OF F(3,4), of root] c by (simp add: n1(1))
  qed
  moreover have "t_node s1 root = t_node s root" using qr by (simp add: n1(1))
  moreover have "budget s1 = budget s + 1"
  proof -
    have "0 < t_alloc s" using btreeD(7) [OF b] .
    then have "in_use s1 = insert q (in_use s)" using F(2) by (auto simp: in_use_def n1(2) less_Suc_eq word_unat_eq_iff)
    moreover have "q \<notin> in_use s" using F(2) by (simp add: in_use_def)
    moreover have "(\<Sum>x \<in> in_use s. b_count (t_node s1 x) - 20) = crowd s"
      unfolding crowd_def by (rule sum.cong) (use \<open>q \<notin> in_use s\<close> in \<open>auto simp: n1(1)\<close>)
    ultimately show ?thesis using c by (simp add: budget_def crowd_def n1)
  qed
  ultimately show ?thesis using g n1(2) by blast
qed

lemma trySplit_progress:
  assumes "btree s slot h root" and "small s" and "found_at (t_node s) h root [] [] metadataPageId parent k p lo hi xs ys"
    and "in_range lo hi key" and "full (t_node s p)" and "2 * (h - k) + h + 3 \<le> fuel"
  shows "(\<exists>s'. trySplit fuel slot False p parent s = Ret s' \<and> split_done slot key s h root s') \<or>
    trySplit fuel slot False p parent s = Err (Fatal ''no page id'') \<and> 2 ^ 64 - 2 \<le> t_alloc s"
  using assms
proof (induction "h - k" arbitrary: s k p lo hi xs ys parent fuel rule: less_induct)
  case less
  note b = less.prems(1) and sm = less.prems(2) and fa = less.prems(3) and key = less.prems(4) and full = less.prems(5)
  obtain fl where fl: "fuel = Suc fl" using less.prems(6) by (cases fuel) auto
  let ?N = "t_node s"
  have fo: "focus ?N h root [] [] xs k p lo hi ys" using fa by (simp add: found_at_def)
  have tp: "tree ?N k p lo hi" using focus_tree [OF fo] by blast
  then have np: "node_at p lo hi (?N p)" by (cases k) (simp_all add: leaf_ok_def inner_ok_def)
  have up: "p \<in> set (nodes ?N h root)" using focus_nodes [OF fo] root_node [of p ?N k] by blast
  have sh: "\<forall>x \<in> set (nodes ?N h root). \<forall>e \<in> set (entries (?N x)). short e" using small_at [OF sm b] by blast
  then have shp: "\<forall>e \<in> set (entries (?N p)). short e" using up by blast
  have lens: "length lo \<le> 64" "length hi \<le> 64" using focus_bounds [OF fo sh] by simp_all
  have c: "b_count (?N p) > 1"
    using full_count [OF _ full shp] np lens by (simp add: node_at_def node_ok_def)
  obtain info sep where S: "findSeparator False (?N p) = Ret info" "getSep info (?N p) = Ret sep" "sep_len info = length sep"
    "\<exists>i < b_count (?N p). length sep \<le> length (keys (?N p) ! i)"
    using separator_exists [OF np c] by blast
  have sl: "length sep \<le> 64" using S(4) short_keys [OF shp] order.trans by blast
  show ?case
  proof (cases "parent = metadataPageId")
    case True
    note p = found_parent(1) [OF b fa True]
    show ?thesis
    proof (cases "t_alloc s < 2 ^ 64 - 1")
      case False
      then show ?thesis using True by (simp add: fl grow_root_def t_new_def t_fresh_def Let_def)
    next
      case al: True
      obtain q s1 where G: "grow_root slot root s = Ret (q, s1)" "t_alloc s1 = t_alloc s + 1" "t_node s1 root = ?N root" "small s1"
        "load (t_node s1) (Suc h) key q [] [] = load ?N h key root [] []" "\<forall>k \<le> 64. hasSpaceFor (t_node s1 q) k 8"
        "budget s1 = budget s + 1"
        using grow_root_returns [OF b sm al, of key] by blast
      note R = grow_root_ok [OF b G(1)]
      have f1: "focus (t_node s1) (Suc h) q [] [] [] (Suc h) q [] [] []" by (rule focus.here [OF btreeD(2) [OF R(1)]])
      have S1: "findSeparator False (t_node s1 root) = Ret info" "getSep info (t_node s1 root) = Ret sep" "full (t_node s1 root)"
        "hasSpaceFor (t_node s1 q) (sep_len info) 8"
        using S(1,2) full G(6) sl unfolding G(3) p S(3) by simp_all
      let ?r = "trySplit fuel slot False p parent s"
      have "?r = bind_run (t_fresh s1) (\<lambda>(new, page, s).
         bind_run (splitNode (t_tmp s) page (sep_slot info) sep (t_node s root) (t_node s q)) (\<lambda>(left, right, par).
         Ret (t_put q par (t_put new right (t_put root left s)))))"
        using S1 G(1) by (simp add: fl True p)
      from commit_progress [OF R(1) G(4) f1 R(3) _ S1(1,2,4,3) this, of key]
      have "(\<exists>s'. ?r = Ret s' \<and> btree s' slot (Suc h) q \<and> stored s' (Suc h) q = stored s1 (Suc h) q \<and> small s' \<and> budget s' + 1 \<le> budget s1 \<and>
        load (t_node s') (Suc h) key q [] [] < load (t_node s1) (Suc h) key q [] []) \<or> no_ids ?r s1" by simp
      then show ?thesis
      proof
        assume "no_ids ?r s1"
        then show ?thesis using G(2) by (simp add: no_ids_def)
      next
        assume "\<exists>s'. ?r = Ret s' \<and> btree s' slot (Suc h) q \<and> stored s' (Suc h) q = stored s1 (Suc h) q \<and> small s' \<and> budget s' + 1 \<le> budget s1 \<and>
          load (t_node s') (Suc h) key q [] [] < load (t_node s1) (Suc h) key q [] []"
        then obtain s' where "?r = Ret s'" "btree s' slot (Suc h) q" "stored s' (Suc h) q = stored s1 (Suc h) q" "small s'"
          "budget s' + 1 \<le> budget s1" "load (t_node s') (Suc h) key q [] [] < load (t_node s1) (Suc h) key q [] []" by blast
        then show ?thesis unfolding split_done_def using G(5,7) R(2) by (intro disjI1 exI [of _ s'] conjI exI [of _ "Suc h"] exI [of _ q]) simp_all
      qed
    qed
  next
    case False
    obtain xs' l u ys' A B where P: "focus ?N h root [] [] xs' (Suc k) parent l u ys'" "kids (?N parent) l u = A @ (p, lo, hi) # B"
      using found_parent(2) [OF b fa False] by blast
    show ?thesis
    proof (cases "hasSpaceFor (?N parent) (sep_len info) 8")
      case room: True
      show ?thesis
      proof -
        let ?r = "trySplit fuel slot False p parent s"
        have "?r = bind_run (t_fresh s) (\<lambda>(new, page, s).
           bind_run (splitNode (t_tmp s) page (sep_slot info) sep (t_node s p) (t_node s parent)) (\<lambda>(left, right, par).
           Ret (t_put parent par (t_put new right (t_put p left s)))))"
          using S(1,2) room by (simp add: fl False)
        from commit_progress [OF b sm P key S(1,2) room full this] show ?thesis
        proof
          assume "no_ids ?r s"
          then show ?thesis by (simp add: no_ids_def)
        next
          assume "\<exists>s'. ?r = Ret s' \<and> btree s' slot h root \<and> stored s' h root = stored s h root \<and> small s' \<and> budget s' + 1 \<le> budget s \<and>
            load (t_node s') h key root [] [] < load ?N h key root [] []"
          then obtain s' where "?r = Ret s'" "btree s' slot h root" "stored s' h root = stored s h root" "small s'"
            "budget s' + 1 \<le> budget s" "load (t_node s') h key root [] [] < load ?N h key root [] []" by blast
          then show ?thesis unfolding split_done_def by (intro disjI1 exI [of _ s'] conjI exI [of _ h] exI [of _ root]) simp_all
        qed
      qed
    next
      case full_par: False
      show ?thesis
      proof -
        have s0: "0 < sep_slot info" using findSeparator_middle [OF _ _ S(1)] full_count [OF _ full shp] np lens
          by (fastforce simp: node_at_def node_ok_def)
        note L = below [OF P]
        note SO = separator_ok [OF L(3,5) S(1,2) s0]
        note B = between_kids [OF L(1) P(2) SO(3,4)]
        have kh: "Suc k \<le> h" by (rule focus_height [OF P(1)])
        obtain f2 where f2: "fl = Suc f2" "h < fl" using less.prems(6) fl by (cases fl) auto
        obtain pp where W: "walk fl (\<lambda>x. x = parent) sep ?N metadataPageId root = Ret (pp, parent)"
          "found_at ?N h root [] [] metadataPageId pp (Suc k) parent l u xs' ys'"
          using walk_to [OF P(1) btreeD(3) [OF b] B(4) f2(2)] by blast
        let ?s = "t_lock parent (t_lock pp s)"
        have a: "alike ?N (t_node ?s)" by (rule alike_trans [OF lock_alike lock_alike])
        have "trySplit fuel slot False p parent s = ensureSpace fl slot False parent sep 8 s"
          using S(1,2) full_par by (simp add: fl False del: ensureSpace.simps)
        also have "\<dots> = trySplit f2 slot False parent pp ?s"
          using W(1) full_par btreeD(1) [OF b] by (simp add: f2(1) S(3) del: trySplit.simps)
        finally have eq: "trySplit fuel slot False p parent s = trySplit f2 slot False parent pp ?s" .
        have lay: "layout (?N parent)" and fe: "low_key (?N parent) = l" "upp_key (?N parent) = u"
          using L(1) by (simp_all add: inner_ok_def node_at_def node_ok_def)
        have "take (prefixLen (?N parent)) sep = prefix (?N parent)"
          using in_range_prefix [OF B(4)] layoutD(9) [OF lay] prefix_facts(4) [OF lay] fe by simp
        then have "prefixLen (?N parent) \<le> length sep" using needed_exact(1) [OF lay, of sep "[]"] sl by simp
        then have "full (?N parent)" using full_par sl unfolding full_def S(3)
          by (intro exI [of _ "length sep"] exI [of _ 8]) simp
        then have fp: "full (t_node ?s parent)" by (simp add: full_alike [OF a])
        have "(p, lo, hi) \<in> set (kids (?N parent) l u)" by (simp add: P(2))
        then have kp: "in_range l u key" by (rule kid_range [OF L(1) _ key])
        have bs: "btree ?s slot h root" "small ?s" "stored ?s h root = stored s h root" "t_alloc ?s = t_alloc s" "budget ?s = budget s"
          using b sm alike_tree(4) [OF a] by (simp_all add: btree_lock)
        have ld: "load (t_node ?s) h key root [] [] = load ?N h key root [] []" by (rule load_alike [OF a])
        have "h - Suc k < h - k" "2 * (h - Suc k) + h + 3 \<le> f2" using kh less.prems(6) fl f2(1) by linarith+
        from less.hyps [OF this(1) bs(1,2) alike_found_at [OF a W(2)] kp fp this(2)]
        show ?thesis unfolding eq split_done_def bs(3-5) ld .
      qed
    qed
  qed
qed

section \<open>Bounds\<close>

text \<open>A tree is lower than the number of its pages, and few entries are on the way to a key.\<close>

lemma nodes_length: "tree N h p l u \<Longrightarrow> h < length (nodes N h p)"
proof (induction h arbitrary: p l u)
  case (Suc h)
  obtain c cl ch B where K: "kids (N p) l u = [] @ (c, cl, ch) # B"
    using kids_length [of "N p" l u] by (cases "kids (N p) l u") auto
  then have "h < length (nodes N h c)" using Suc.prems by (intro Suc.IH [of c cl ch]) simp
  then show ?case using nodes_split [where h = h and N = N and p = p and l = l and u = u and A = "[]", OF K] by simp
qed simp

lemma height_alloc:
  assumes "btree s slot h root"
  shows "h < t_alloc s"
proof -
  have "set (nodes (t_node s) h root) \<subseteq> in_use s" using assms by (auto simp: btree_def in_use_def)
  then have "card (set (nodes (t_node s) h root)) \<le> card (in_use s)" by (intro card_mono) simp
  moreover have "card (set (nodes (t_node s) h root)) = length (nodes (t_node s) h root)"
    using btreeD(3) [OF assms] by (rule distinct_card)
  moreover have "card (in_use s) \<le> card {..<t_alloc s}"
    by (rule card_inj_on_le [where f = unat]) (auto simp: in_use_def inj_on_def word_unat_eq_iff)
  ultimately show ?thesis using nodes_length [OF btreeD(2) [OF assms]] by simp
qed

lemma loads_none: "\<forall>(c, lo, hi) \<in> set K. \<not> in_range lo hi key \<Longrightarrow> loads N h key K = 0"
  by (induction K) auto

lemma load_bound: "tree N h p l u \<Longrightarrow> in_range l u key \<Longrightarrow> load N h key p l u \<le> 398 * (h + 1)"
proof (induction h arbitrary: p l u)
  case 0
  then have "layout (N p)" by (simp add: leaf_ok_def node_at_def node_ok_def)
  then show ?case using layoutD(6) by simp
next
  case (Suc h)
  have n: "inner_ok p l u (N p)" "layout (N p)" using Suc.prems by (simp_all add: inner_ok_def node_at_def node_ok_def)
  obtain A c lo hi B where K: "kids (N p) l u = A @ (c, lo, hi) # B" "in_range lo hi key"
    using lookupInner_ok [OF n(1) Suc.prems(2)] by blast
  have srt: "sorted_wrt before (A @ (c, lo, hi) # B)" using kids_sorted [OF n(1)] by (simp add: K(1))
  have "\<not> in_range lo' hi' key" if "(c', lo', hi') \<in> set A" for c' lo' hi'
    using srt that before_less [of "(c', lo', hi')" "(c, lo, hi)" lo' key hi key] K(2) by (auto simp: sorted_wrt_append)
  moreover have "\<not> in_range lo' hi' key" if "(c', lo', hi') \<in> set B" for c' lo' hi'
    using srt that before_less [of "(c, lo, hi)" "(c', lo', hi')" lo key hi' key] K(2) by (auto simp: sorted_wrt_append)
  ultimately have "loads N h key A = 0" "loads N h key B = 0" by (intro loads_none; blast)+
  moreover have "load N h key c lo hi \<le> 398 * (h + 1)" using Suc.prems(1) K by (intro Suc.IH) auto
  ultimately show ?case using layoutD(6) [OF n(2)] by (simp add: K del: sum_list_eq_0_iff)
qed

section \<open>Insertions return\<close>

lemma insert_loop_returns:
  assumes "btree s slot h root" and "small s" and "key \<notin> set (map fst (stored s h root))" and len: "length key \<le> 64" "length pay \<le> 64"
    and "load (t_node s) h key root [] [] \<le> n" and "3 * h + 4 * n + 6 \<le> fuel" and "budget s < 2 ^ 64 - 2"
  shows "\<exists>s' h' root'. insert_loop fuel slot False key pay s = Ret s' \<and> btree s' slot h' root' \<and>
    inserted (key, pay) (stored s h root) (stored s' h' root') \<and> tame 398 s s'"
  using assms(1-3,6-8)
proof (induction n arbitrary: s h root fuel rule: less_induct)
  case (less n)
  note b = less.prems(1) and sm = less.prems(2) and new = less.prems(3)
  obtain fl where fl: "fuel = Suc fl" using less.prems(5) by (cases fuel) auto
  have "h < Suc fl" using less.prems(5) fl by simp
  from walk_ok [OF btreeD(2) [OF b] in_range_root this, where stop = "\<lambda>_. False" and meta = metadataPageId]
  obtain par q lo hi xs ys where w: "walk (Suc fl) (\<lambda>_. False) key (t_node s) metadataPageId root = Ret (par, q)"
    and f: "found_at (t_node s) h root [] [] metadataPageId par 0 q lo hi xs ys" "in_range lo hi key" by blast
  have eq: "insert_loop fuel slot False key pay s =
      (if hasSpaceFor (t_node s q) (length key) (length pay) then
         let s = t_lock q s in bind_run (insertInPage (t_tmp s) key pay (t_node s q)) (\<lambda>n. Ret (t_put q n s))
       else bind_run (trySplit (Suc fl) slot False q par (t_lock par (t_lock q s))) (insert_loop fl slot False key pay))"
    using btreeD(1) [OF b] w by (simp add: fl del: trySplit.simps)
  have kl: "length key + length pay \<le> maxKVSize" using len by (simp add: sizes)
  show ?case
  proof (cases "hasSpaceFor (t_node s q) (length key) (length pay)")
    case True
    let ?s = "t_lock q s"
    note a = lock_alike [of s q]
    have B: "btree ?s slot h root" "stored ?s h root = stored s h root" "hasSpaceFor (t_node ?s q) (length key) (length pay)"
      using b alike_tree(4) [OF a] alike_sel(10) [OF a] True by (simp_all add: btree_lock)
    have fo: "focus (t_node ?s) h root [] [] xs 0 q lo hi ys" using alike_found_at [OF a f(1)] by (simp add: found_at_def)
    obtain n where n: "insertInPage (t_tmp ?s) key pay (t_node ?s q) = Ret n" "btree (t_put q n ?s) slot h root"
      "inserted (key, pay) (stored ?s h root) (stored (t_put q n ?s) h root)"
      "set (entries n) \<subseteq> insert (key, pay) (set (entries (t_node ?s q)))" "layout n"
      using leaf_insert [OF B(1) fo f(2) _ kl B(3)] new unfolding B(2) by blast
    have "tame 398 ?s (t_put q n ?s)"
    proof (rule tame_put)
      have qn: "q \<in> set (nodes (t_node ?s) h root)" using focus_nodes [OF fo] root_node [of q "t_node ?s" 0] by blast
      show "\<forall>e \<in> set (entries n). short e" if "small ?s"
        using n(4) small_at [OF that B(1) qn] len by (auto simp: short_def)
      show "layout n" by (rule n(5))
    qed
    then have "tame 398 s (t_put q n ?s)" by simp
    moreover have "insert_loop fuel slot False key pay s = Ret (t_put q n ?s)" using True n(1) by (simp add: eq Let_def)
    ultimately show ?thesis using n(2,3) unfolding B(2) by blast
  next
    case False
    let ?s = "t_lock par (t_lock q s)"
    have a: "alike (t_node s) (t_node ?s)" by (rule alike_trans [OF lock_alike lock_alike])
    have B: "btree ?s slot h root" "stored ?s h root = stored s h root" "small ?s" "t_alloc ?s = t_alloc s" "budget ?s = budget s"
      using b sm alike_tree(4) [OF a] by (simp_all add: btree_lock)
    have "focus (t_node s) h root [] [] xs 0 q lo hi ys" using f(1) by (simp add: found_at_def)
    then have "tree (t_node s) 0 q lo hi" using focus_tree by blast
    then have lay: "layout (t_node s q)" and fe: "low_key (t_node s q) = lo" "upp_key (t_node s q) = hi"
      by (simp_all add: leaf_ok_def node_at_def node_ok_def)
    have "take (prefixLen (t_node s q)) key = prefix (t_node s q)"
      using in_range_prefix [OF f(2)] layoutD(9) [OF lay] prefix_facts(4) [OF lay] fe by simp
    then have "prefixLen (t_node s q) \<le> length key" using needed_exact(1) [OF lay, of key "[]"] len by simp
    then have "full (t_node s q)" using False len unfolding full_def
      by (intro exI [of _ "length key"] exI [of _ "length pay"]) simp
    then have fu: "full (t_node ?s q)" by (simp add: full_alike [OF a])
    have fu2: "2 * (h - 0) + h + 3 \<le> Suc fl" using less.prems(5) fl by simp
    have "\<not> 2 ^ 64 - 2 \<le> t_alloc ?s" using less.prems(6) B(4) by (simp add: budget_def)
    then obtain s1 where s1: "trySplit (Suc fl) slot False q par ?s = Ret s1" "split_done slot key ?s h root s1"
      using trySplit_progress [OF B(1,3) alike_found_at [OF a f(1)] f(2) fu fu2] by auto
    obtain h1 root1 where S: "btree s1 slot h1 root1" "stored s1 h1 root1 = stored s h root" "small s1" "h1 \<le> h + 1" "budget s1 \<le> budget s"
      "load (t_node s1) h1 key root1 [] [] < load (t_node s) h key root [] []"
      using s1(2) unfolding split_done_def B(2,5) load_alike [OF a] by blast
    have "load (t_node s1) h1 key root1 [] [] < n" "load (t_node s1) h1 key root1 [] [] \<le> load (t_node s1) h1 key root1 [] []"
      using S(6) less.prems(4) by simp_all
    moreover have "3 * h1 + 4 * load (t_node s1) h1 key root1 [] [] + 6 \<le> fl" "budget s1 < 2 ^ 64 - 2" "key \<notin> set (map fst (stored s1 h1 root1))"
      using S less.prems(3-6) fl by simp_all
    ultimately obtain s' h' root' where I: "insert_loop fl slot False key pay s1 = Ret s'" "btree s' slot h' root'"
      "inserted (key, pay) (stored s1 h1 root1) (stored s' h' root')" "tame 398 s1 s'"
      using less.IH [OF _ S(1,3)] by blast
    have "tame 398 s s'" using I(4) S(3,5) by (simp add: tame_def)
    moreover have "insert_loop fuel slot False key pay s = Ret s'" using False s1(1) I(1) by (simp add: eq del: trySplit.simps)
    ultimately show ?thesis using I(2,3) unfolding S(2) by blast
  qed
qed

lemma bt_insert_returns:
  assumes b: "btree s slot h root" and sm: "small s" and new: "key \<notin> set (map fst (stored s h root))"
    and len: "length key \<le> 64" "length pay \<le> 64" and f: "1600 * (h + 1) \<le> fuel" and bud: "budget s < 2 ^ 64 - 2"
  shows "\<exists>s' h' root'. bt_insert fuel slot False key pay s = Ret s' \<and> btree s' slot h' root' \<and>
    inserted (key, pay) (stored s h root) (stored s' h' root') \<and> tame 398 s s'"
proof -
  have "load (t_node s) h key root [] [] \<le> 398 * (h + 1)" by (rule load_bound [OF btreeD(2) [OF b] in_range_root])
  moreover have "3 * h + 4 * (398 * (h + 1)) + 6 \<le> fuel" using f by simp
  moreover have "length key + length pay \<le> maxKVSize" using len by (simp add: sizes)
  ultimately show ?thesis using insert_loop_returns [OF b sm new len _ _ bud] by (simp add: bt_insert_def)
qed

end
