(* ===== verification/Btree_History.thy ===== *)
theory Btree_History
  imports Btree_Progress
begin

text \<open>
  Histories of operations on one tree, and the same histories on a map from keys to payloads. Keys
  and payloads have at most 64 bytes and a key that is there is not inserted again; then the
  operations return and give the answers of the map.
\<close>

section \<open>Histories\<close>

datatype bt_op = Insert "u8 list" "u8 list" | Remove "u8 list" | Lookup "u8 list" | Update "u8 list" "u8 list \<Rightarrow> u8 list"

datatype bt_answer = Done | Found bool | Value "u8 list option"

fun bt_step :: "nat \<Rightarrow> nat \<Rightarrow> bt_op \<Rightarrow> pages \<Rightarrow> (bt_answer \<times> pages) run" where
  "bt_step fuel slot (Insert k v) s = bind_run (bt_insert fuel slot False k v s) (\<lambda>s. Ret (Done, s))"
| "bt_step fuel slot (Remove k) s = bind_run (bt_remove fuel slot k s) (\<lambda>(found, s). Ret (Found found, s))"
| "bt_step fuel slot (Lookup k) s = bind_run (lookup_fn fuel slot k s) (\<lambda>v. Ret (Value v, s))"
| "bt_step fuel slot (Update k fn) s = bind_run (updateInPlace fuel slot k fn s) (\<lambda>(found, s). Ret (Found found, s))"

fun bt_run :: "nat \<Rightarrow> nat \<Rightarrow> bt_op list \<Rightarrow> pages \<Rightarrow> (bt_answer list \<times> pages) run" where
  "bt_run fuel slot [] s = Ret ([], s)"
| "bt_run fuel slot (p # ps) s = bind_run (bt_step fuel slot p s) (\<lambda>(a, s). bind_run (bt_run fuel slot ps s) (\<lambda>(as, s). Ret (a # as, s)))"

fun dict_step :: "bt_op \<Rightarrow> (u8 list \<rightharpoonup> u8 list) \<Rightarrow> bt_answer \<times> (u8 list \<rightharpoonup> u8 list)" where
  "dict_step (Insert k v) m = (Done, m(k \<mapsto> v))"
| "dict_step (Remove k) m = (Found (m k \<noteq> None), m(k := None))"
| "dict_step (Lookup k) m = (Value (m k), m)"
| "dict_step (Update k fn) m = (Found (m k \<noteq> None), case m k of None \<Rightarrow> m | Some v \<Rightarrow> m(k \<mapsto> fn v))"

fun dict_run :: "bt_op list \<Rightarrow> (u8 list \<rightharpoonup> u8 list) \<Rightarrow> bt_answer list \<times> (u8 list \<rightharpoonup> u8 list)" where
  "dict_run [] m = ([], m)"
| "dict_run (p # ps) m = (let (a, m) = dict_step p m; (as, m) = dict_run ps m in (a # as, m))"

fun allowed :: "bt_op \<Rightarrow> (u8 list \<rightharpoonup> u8 list) \<Rightarrow> bool" where
  "allowed (Insert k v) m \<longleftrightarrow> m k = None \<and> length k \<le> 64 \<and> length v \<le> 64"
| "allowed (Update k fn) m \<longleftrightarrow> (\<forall>v. length (fn v) = length v)"
| "allowed _ m \<longleftrightarrow> True"

fun allowed_run :: "bt_op list \<Rightarrow> (u8 list \<rightharpoonup> u8 list) \<Rightarrow> bool" where
  "allowed_run [] m \<longleftrightarrow> True"
| "allowed_run (p # ps) m \<longleftrightarrow> allowed p m \<and> allowed_run ps (snd (dict_step p m))"

section \<open>The tree gives the answers of the map\<close>

text \<open>A tree that implements a map within a budget.\<close>

definition implements :: "pages \<Rightarrow> nat \<Rightarrow> (u8 list \<rightharpoonup> u8 list) \<Rightarrow> nat \<Rightarrow> bool" where
  "implements s slot m c \<longleftrightarrow> (\<exists>h root. btree s slot h root \<and> map_of (stored s h root) = m) \<and> small s \<and> budget s \<le> c"

lemma map_of_filter_key: "map_of (filter (\<lambda>e. fst e \<noteq> k) es) = (map_of es)(k := None)"
  by (induction es) (auto simp: fun_eq_iff)

lemma map_of_mem: "(k \<in> set (map fst es)) = (map_of es k \<noteq> None)"
  by (simp add: map_of_eq_None_iff)

lemma bt_step_refines:
  assumes i: "implements s slot m c" and al: "allowed p m" and c: "c < 2 ^ 64 - 2" "1600 * c \<le> fuel"
  shows "\<exists>s'. bt_step fuel slot p s = Ret (fst (dict_step p m), s') \<and> implements s' slot (snd (dict_step p m)) (c + 1200)"
proof -
  obtain h root where b: "btree s slot h root" and m: "map_of (stored s h root) = m" and sm: "small s" and bud: "budget s \<le> c"
    using i by (auto simp: implements_def)
  have "h + 1 \<le> c" using height_alloc [OF b] bud by (simp add: budget_def)
  from mult_le_mono2 [OF this, of 1600] have f: "1600 * (h + 1) \<le> fuel" using c(2) by (rule order.trans)
  then have hf: "h < fuel" by simp
  have keep: "implements s' slot m' (c + 1200)" if "tame d s s'" "d \<le> 1200" "btree s' slot h' root'" "map_of (stored s' h' root') = m'"
    for s' h' root' m' d
    using that sm bud by (auto simp: implements_def tame_def)
  show ?thesis
  proof (cases p)
    case (Insert k v)
    then have k: "k \<notin> set (map fst (stored s h root))" "length k \<le> 64" "length v \<le> 64"
      using al by (simp_all add: map_of_mem m del: set_map)
    have "budget s < 2 ^ 64 - 2" using bud c(1) by simp
    from bt_insert_returns [OF b sm k f this] obtain s' h' root' where r: "bt_insert fuel slot False k v s = Ret s'" "btree s' slot h' root'"
      "inserted (k, v) (stored s h root) (stored s' h' root')" "tame 398 s s'" by blast
    have "map_of (stored s' h' root') = m(k \<mapsto> v)" using inserted_map(1) [OF r(3) k(1)] m by simp
    from keep [OF r(4) _ r(2) this] show ?thesis using r(1) by (simp add: Insert)
  next
    case (Remove k)
    from bt_remove_ok [OF b hf, of k] obtain s' where r: "bt_remove fuel slot k s = Ret (k \<in> set (map fst (stored s h root)), s')"
      "btree s' slot h root" "stored s' h root = filter (\<lambda>e. fst e \<noteq> k) (stored s h root)" "tame 1200 s s'" by blast
    have "map_of (stored s' h root) = m(k := None)" by (simp only: r(3) map_of_filter_key m)
    from keep [OF r(4) _ r(2) this] show ?thesis using r(1) by (simp add: Remove map_of_mem m del: set_map)
  next
    case (Lookup k)
    have "lookup_fn fuel slot k s = Ret (m k)" using lookup_ok(2) [OF b hf, of k] m by simp
    then show ?thesis using keep [OF tame_refl _ b m, of 0] by (simp add: Lookup)
  next
    case (Update k fn)
    then have fn: "length (fn v) = length v" for v using al by simp
    from updateInPlace_ok [OF b hf fn, of k] obtain s' where r: "updateInPlace fuel slot k fn s = Ret (m k \<noteq> None, s')" "btree s' slot h root"
      "map_of (stored s' h root) = (case m k of None \<Rightarrow> m | Some v \<Rightarrow> m(k \<mapsto> fn v))" "tame 398 s s'"
      unfolding m by blast
    from keep [OF r(4) _ r(2,3)] show ?thesis using r(1) by (simp add: Update)
  qed
qed

lemma bt_run_refines:
  assumes "implements s slot m c" and "allowed_run ps m" and "c + 1200 * length ps < 2 ^ 64 - 2" and "1600 * (c + 1200 * length ps) \<le> fuel"
  shows "\<exists>s'. bt_run fuel slot ps s = Ret (fst (dict_run ps m), s') \<and> implements s' slot (snd (dict_run ps m)) (c + 1200 * length ps)"
  using assms
proof (induction ps arbitrary: s m c)
  case (Cons p ps)
  have "c < 2 ^ 64 - 2" "1600 * c \<le> fuel" using Cons.prems(3,4) by simp_all
  from bt_step_refines [OF Cons.prems(1) _ this] Cons.prems(2) obtain s1 where
    s1: "bt_step fuel slot p s = Ret (fst (dict_step p m), s1)" "implements s1 slot (snd (dict_step p m)) (c + 1200)" by auto
  have "\<exists>s'. bt_run fuel slot ps s1 = Ret (fst (dict_run ps (snd (dict_step p m))), s') \<and>
      implements s' slot (snd (dict_run ps (snd (dict_step p m)))) (c + 1200 + 1200 * length ps)"
    by (rule Cons.IH [OF s1(2)]) (use Cons.prems in simp_all)
  then obtain s' where "bt_run fuel slot ps s1 = Ret (fst (dict_run ps (snd (dict_step p m))), s')"
    "implements s' slot (snd (dict_run ps (snd (dict_step p m)))) (c + 1200 + 1200 * length ps)" by blast
  then show ?case using s1(1) by (auto simp: case_prod_beta Let_def add.assoc)
qed simp

section \<open>A new tree\<close>

lemma BTree_new_implements:
  assumes m: "memory_ok s" and sm: "small s" and sl: "t_slots s < length (t_roots s)" and al: "t_alloc s < 2 ^ 64 - 1"
  shows "\<exists>s'. BTree_new s = Ret (t_slots s, s') \<and> implements s' (t_slots s) Map.empty (budget s + 1)"
proof -
  obtain s' root where N: "BTree_new s = Ret (t_slots s, s')" "btree s' (t_slots s) 0 root" "stored s' 0 root = []"
    using BTree_new_ok [OF m sl al] by blast
  let ?s0 = "t_lock metadataPageId s"
  obtain pid page s1 where f: "t_fresh ?s0 = Ret (pid, page, s1)" using al by (auto simp: t_fresh_def Let_def)
  have F: "pid = of_nat (t_alloc s)" "raw_ok page" "s1 = ?s0\<lparr>t_alloc := t_alloc s + 1\<rparr>"
  proof -
    have "raw_ok (t_node ?s0 x)" for x using m alike_sel(7) [OF lock_alike] by (simp add: memory_ok_def)
    then show "pid = of_nat (t_alloc s)" "raw_ok page" "s1 = ?s0\<lparr>t_alloc := t_alloc s + 1\<rparr>"
      using f by (auto simp: t_fresh_def Let_def raw_ok_def split: if_splits)
  qed
  have s': "t_node s' = (t_node ?s0)(pid := node_new True page)" "t_alloc s' = t_alloc s + 1"
    using N(1) f sl by (auto simp: BTree_new_def t_new_def setRoot_def Let_def t_put_def F(3) run_simps aset_def split: if_splits)
  have u: "unat pid = t_alloc s" using al by (simp add: F(1) unat_of_nat take_bit_eq_mod)
  have e: "entries (node_new True page) = []" "b_count (node_new True page) = 0"
    using node_new_layout(2) [OF F(2), of True] entries_length [of "node_new True page"] by simp_all
  have lt: "x = pid" if "unat x = t_alloc s" for x using that u by (simp add: word_unat_eq_iff)
  have "small s'" using sm e(1) lt unfolding small_def s'
    by (auto simp: less_Suc_eq alike_sel(1) [OF lock_alike])
  moreover have "budget s' = budget s + 1"
  proof -
    have "0 < t_alloc s" using m by (simp add: memory_ok_def)
    then have "0 < unat x \<and> unat x < t_alloc s + 1 \<longleftrightarrow> x = pid \<or> 0 < unat x \<and> unat x < t_alloc s" for x
      using u lt [of x] by (cases "unat x = t_alloc s") auto
    then have "in_use s' = insert pid (in_use s)" unfolding in_use_def s'(2) by blast
    moreover have "pid \<notin> in_use s" using u by (simp add: in_use_def)
    moreover have "(\<Sum>x \<in> in_use s. b_count (t_node s' x) - 20) = crowd s"
      unfolding crowd_def by (rule sum.cong) (use \<open>pid \<notin> in_use s\<close> in \<open>auto simp: s'(1) alike_sel(9) [OF lock_alike]\<close>)
    ultimately show ?thesis using e(2) by (simp add: budget_def crowd_def s')
  qed
  moreover have "\<exists>h root. btree s' (t_slots s) h root \<and> map_of (stored s' h root) = Map.empty"
    by (rule exI [of _ 0], rule exI [of _ root]) (simp add: N(2,3))
  ultimately show ?thesis using N(1) by (auto simp: implements_def)
qed

end
