(* ===== verification/Btree_Descend.thy ===== *)
theory Btree_Descend
  imports Btree_Lookup
begin

text \<open>
  The descending scan. It goes from a leaf to the one before by searching for the lower fence, which
  is the upper fence of that leaf: the fences of all leaves to the left and to the right of a leaf
  lie outside its own.
\<close>

section \<open>Fences of other leaves\<close>

lemma kid_fences:
  assumes n: "inner_ok p l u n" and k: "(c, lo, hi) \<in> set (kids n l u)"
  shows "l \<noteq> [] \<Longrightarrow> lo \<noteq> [] \<and> l \<le> lo" "u \<noteq> [] \<Longrightarrow> hi \<noteq> [] \<and> hi \<le> u"
proof -
  obtain j where j: "j \<le> b_count n" "kids n l u ! j = (c, lo, hi)" using k by (auto simp: in_set_conv_nth less_Suc_eq_le)
  have b: "lo = (l # keys n) ! j" "hi = (keys n @ [u]) ! j" using j kids_nth [OF j(1)] by simp_all
  have key: "in_range l u (keys n ! i)" "keys n ! i \<noteq> []" if "i < b_count n" for i
  proof -
    have "keys n ! i \<in> set (keys n)" using that by (intro nth_mem) simp
    then show "in_range l u (keys n ! i)" "keys n ! i \<noteq> []"
      using n by (auto simp: inner_ok_def node_at_def fenced_def)
  qed
  show "lo \<noteq> [] \<and> l \<le> lo" if "l \<noteq> []"
    using that key [of "j - 1"] j(1) b(1) by (cases j) (auto simp: in_range_def simp del: nth_map)
  show "hi \<noteq> [] \<and> hi \<le> u" if "u \<noteq> []"
    using that key [of j] j(1) b(2) by (cases "j < b_count n") (auto simp: in_range_def nth_append simp del: nth_map)
qed

lemma leaf_fences:
  assumes "tree N h p l u" and "x \<in> set (leaves N h p)"
  shows "leaf_ok x (low_key (N x)) (upp_key (N x)) (N x)" "l \<noteq> [] \<longrightarrow> low_key (N x) \<noteq> [] \<and> l \<le> low_key (N x)"
    "u \<noteq> [] \<longrightarrow> upp_key (N x) \<noteq> [] \<and> upp_key (N x) \<le> u"
proof -
  have "leaf_ok x (low_key (N x)) (upp_key (N x)) (N x) \<and> (l \<noteq> [] \<longrightarrow> low_key (N x) \<noteq> [] \<and> l \<le> low_key (N x)) \<and>
    (u \<noteq> [] \<longrightarrow> upp_key (N x) \<noteq> [] \<and> upp_key (N x) \<le> u)"
    using assms
  proof (induction h arbitrary: p l u)
    case 0
    then show ?case by (auto simp: leaf_ok_def node_at_def)
  next
    case (Suc h)
    have t: "inner_ok p l u (N p)" "\<forall>(c, lo, hi) \<in> set (kids (N p) l u). tree N h c lo hi" using Suc.prems(1) by simp_all
    obtain c lo hi where k: "(c, lo, hi) \<in> set (kids (N p) l u)" "x \<in> set (leaves N h c)"
      using Suc.prems(2) unfolding leaves_kids [of N h p l u] by auto
    have "tree N h c lo hi" using t(2) k(1) by blast
    note IH = Suc.IH [OF this k(2)] and K = kid_fences [OF t(1) k(1)]
    have "low_key (N x) \<noteq> [] \<and> l \<le> low_key (N x)" if "l \<noteq> []" using IH K(1) [OF that] order.trans by blast
    moreover have "upp_key (N x) \<noteq> [] \<and> upp_key (N x) \<le> u" if "u \<noteq> []" using IH K(2) [OF that] order.trans by blast
    ultimately show ?case using IH by blast
  qed
  then show "leaf_ok x (low_key (N x)) (upp_key (N x)) (N x)" "l \<noteq> [] \<longrightarrow> low_key (N x) \<noteq> [] \<and> l \<le> low_key (N x)"
    "u \<noteq> [] \<longrightarrow> upp_key (N x) \<noteq> [] \<and> upp_key (N x) \<le> u" by blast+
qed

lemma focus_inside:
  "focus N h p l u xs k q lo hi ys \<Longrightarrow> (l \<noteq> [] \<longrightarrow> lo \<noteq> [] \<and> l \<le> lo) \<and> (u \<noteq> [] \<longrightarrow> hi \<noteq> [] \<and> hi \<le> u)"
proof (induction rule: focus.induct)
  case (down h p l u A c cl ch B xs k q lo hi ys)
  have "inner_ok p l u (N p)" using down.hyps(1) by simp
  moreover have "(c, cl, ch) \<in> set (kids (N p) l u)" using down.hyps(2) by simp
  ultimately have K: "l \<noteq> [] \<Longrightarrow> cl \<noteq> [] \<and> l \<le> cl" "u \<noteq> [] \<Longrightarrow> ch \<noteq> [] \<and> ch \<le> u" by (rule kid_fences; simp)+
  show ?case using K down.IH order.trans by blast
qed simp

lemma focus_fences:
  "focus N h p l u xs k q lo hi ys \<Longrightarrow> (\<forall>x \<in> set xs. upp_key (N x) \<noteq> [] \<and> upp_key (N x) \<le> lo) \<and>
    (\<forall>y \<in> set ys. hi \<noteq> [] \<and> low_key (N y) \<noteq> [] \<and> hi \<le> low_key (N y))"
proof (induction rule: focus.induct)
  case (down h p l u A c cl ch B xs k q lo hi ys)
  have n: "inner_ok p l u (N p)" "\<forall>(c, lo, hi) \<in> set (A @ (c, cl, ch) # B). tree N h c lo hi" using down.hyps(1,2) by simp_all
  have s: "sorted_wrt before (A @ (c, cl, ch) # B)" using kids_sorted [OF n(1)] by (simp add: down.hyps(2))
  note r = focus_inside [OF down.hyps(3)]
  have "upp_key (N x) \<noteq> [] \<and> upp_key (N x) \<le> lo" if x: "x \<in> set (leaves_of N h A)" for x
  proof -
    obtain d dl dh where d: "(d, dl, dh) \<in> set A" "x \<in> set (leaves N h d)" using x by auto
    then have t: "tree N h d dl dh" and b: "before (d, dl, dh) (c, cl, ch)" using n(2) s by (fastforce simp: sorted_wrt_append)+
    have "dh \<noteq> []" "cl \<noteq> []" "dh \<le> cl" using b by (simp_all add: before_def)
    then show ?thesis using leaf_fences(3) [OF t d(2)] r order.trans by blast
  qed
  moreover have "hi \<noteq> [] \<and> low_key (N y) \<noteq> [] \<and> hi \<le> low_key (N y)" if y: "y \<in> set (leaves_of N h B)" for y
  proof -
    obtain d dl dh where d: "(d, dl, dh) \<in> set B" "y \<in> set (leaves N h d)" using y by auto
    then have t: "tree N h d dl dh" and b: "before (c, cl, ch) (d, dl, dh)" using n(2) s by (fastforce simp: sorted_wrt_append)+
    have "ch \<noteq> []" "dl \<noteq> []" "ch \<le> dl" using b by (simp_all add: before_def)
    then show ?thesis using leaf_fences(2) [OF t d(2)] r order.trans by blast
  qed
  ultimately show ?case using down.IH by auto
qed simp

section \<open>The leaf before\<close>

lemma leaf_before:
  assumes f: "focus N h p [] [] xs 0 q lo hi ys" and f': "focus N h p [] [] xs' 0 q' lo' hi' ys'"
    and "lo \<noteq> []" and r: "in_range lo' hi' lo"
  shows "contents_of N xs = contents_of N xs' @ entries (N q')" "length xs' < length xs"
proof -
  note F = focus_fences [OF f] and F' = focus_fences [OF f']
  have t: "tree N h p [] []" using focus_tree [OF f] by blast
  have Q: "low_key (N q') = lo'" "upp_key (N q') = hi'" "low_key (N q) = lo"
    using focus_tree [OF f] focus_tree [OF f'] by (auto simp: leaf_ok_def node_at_def)
  have lv: "leaves N h p = xs @ q # ys" "leaves N h p = xs' @ q' # ys'" using focus_leaves [OF f] focus_leaves [OF f'] by simp_all
  have lo: "lo' = [] \<or> lo' < lo" "hi' = [] \<or> lo \<le> hi'" using r by (auto simp: in_range_def)
  have "q' \<noteq> q" using Q(1,3) lo(1) assms(3) by auto
  moreover have "q' \<notin> set ys"
  proof
    assume "q' \<in> set ys"
    then have "lo' \<noteq> []" "hi \<noteq> []" "hi \<le> lo'" using F Q(1) by auto
    moreover have "hi = [] \<or> lo < hi" using focus_tree [OF f] by (auto simp: leaf_ok_def node_at_def fenced_def)
    ultimately show False using lo(1) by auto
  qed
  moreover have "q' \<in> set (xs @ q # ys)" using lv by (metis in_set_conv_decomp)
  ultimately have "q' \<in> set xs" by auto
  then have hi: "hi' = lo" using F Q(2) lo(2) by auto
  have split: "\<exists>zs. xs = xs' @ q' # zs \<and> ys' = zs @ q # ys"
  proof -
    have "xs @ q # ys = xs' @ q' # ys'" using lv by simp
    then consider us where "xs = xs' @ us" "us @ q # ys = q' # ys'" | us where "xs @ us = xs'" "q # ys = us @ q' # ys'"
      by (auto simp: append_eq_append_conv2)
    then show ?thesis
    proof cases
      case 1
      then show ?thesis using \<open>q' \<noteq> q\<close> by (cases us) auto
    next
      case 2
      then have "q' \<in> set ys" using \<open>q' \<noteq> q\<close> by (cases us) auto
      then show ?thesis using \<open>q' \<notin> set ys\<close> by blast
    qed
  qed
  then obtain zs where zs: "xs = xs' @ q' # zs" "ys' = zs @ q # ys" by blast
  have "entries (N z) = []" if z: "z \<in> set zs" for z
  proof -
    have "z \<in> set (leaves N h p)" using z zs lv by auto
    from leaf_fences(1) [OF t this] have *: "\<forall>e \<in> set (entries (N z)). in_range (low_key (N z)) (upp_key (N z)) (fst e)"
      by (simp add: leaf_ok_def node_at_def fenced_def)
    have "low_key (N z) \<noteq> []" "lo \<le> low_key (N z)" "upp_key (N z) \<noteq> []" "upp_key (N z) \<le> lo" using F F' z zs hi by auto
    then have "\<not> in_range (low_key (N z)) (upp_key (N z)) k" for k by (auto simp: in_range_def)
    then show ?thesis using * by (metis list.set_intros(1) neq_Nil_conv)
  qed
  then have "contents_of N zs = []" by simp
  then show "contents_of N xs = contents_of N xs' @ entries (N q')" by (simp add: zs(1))
  show "length xs' < length xs" by (simp add: zs(1))
qed

section \<open>The scan\<close>

text \<open>The function of the scan on the entries alone, which gets the flag as well.\<close>

lemma desc_node_ok:
  assumes fn: "\<And>n i a. i < b_count n \<Longrightarrow> fn n i m a = g (entries n ! i) a" and "k \<le> b_count n"
  shows "visit g (rev (take k (entries n)) @ rest) a =
    (case desc_node fn n m k a of (go, a') \<Rightarrow> if go then visit g rest a' else a')"
  using assms(2)
proof (induction k arbitrary: a)
  case (Suc k)
  then have "rev (take (Suc k) (entries n)) = entries n ! k # rev (take k (entries n))"
    by (simp add: take_Suc_conv_app_nth del: entries_nth)
  then show ?case using Suc fn [of k n] by (simp add: split_beta del: entries_nth)
qed simp

lemma scan_desc_ok:
  assumes b: "btree s slot h root" and fn: "\<And>n i a. i < b_count n \<Longrightarrow> fn n i m a = g (entries n ! i) a"
    and "focus (t_node s) h root [] [] xs 0 q lo hi ys" and "k \<le> b_count (t_node s q)" and "length xs + h < fuel"
  shows "scan_desc fuel slot fn s m q k a = Ret (visit g (rev (contents_of (t_node s) xs @ take k (entries (t_node s q)))) a)"
  using assms(3-)
proof (induction fuel arbitrary: xs q lo hi ys k a)
  case (Suc fuel)
  let ?N = "t_node s"
  note F = focus_fences [OF Suc.prems(1)]
  have q: "leaf_ok q lo hi (?N q)" using focus_tree [OF Suc.prems(1)] by simp
  have L: "layout (?N q)" "low_key (?N q) = lo" using q by (simp_all add: leaf_ok_def node_at_def node_ok_def)
  note fl = fence_lengths [OF L(1)]
  obtain go a' where d: "desc_node fn (?N q) m k a = (go, a')" by fastforce
  have v: "visit g (rev (contents_of ?N xs @ take k (entries (?N q)))) a =
      (if go then visit g (rev (contents_of ?N xs)) a' else a')"
    using desc_node_ok [of fn m g, OF fn Suc.prems(2), of "rev (contents_of ?N xs)" a] d by simp
  show ?case
  proof (cases "go \<and> lo \<noteq> []")
    case False
    have "xs = []" if "lo = []" using F that by (cases xs) auto
    then show ?thesis using False v d fl(1) L(2) by (auto simp: hasLowerFence_def)
  next
    case True
    obtain q' lo' hi' xs' ys' where q': "findLeaf (Suc fuel) slot lo s = Ret q'" "focus ?N h root [] [] xs' 0 q' lo' hi' ys'"
      "in_range lo' hi' lo" using findLeaf_ok [OF b, of "Suc fuel" lo] Suc.prems(3) by auto
    note P = leaf_before [OF Suc.prems(1) q'(2) _ q'(3)]
    have "scan_desc fuel slot fn s m q' (b_count (?N q')) a' =
        Ret (visit g (rev (contents_of ?N xs' @ take (b_count (?N q')) (entries (?N q')))) a')"
      by (rule Suc.IH [OF q'(2)]) (use P(2) True Suc.prems(3) in auto)
    moreover have "hasLowerFence (?N q)" using True fl(1) L(2) by (metis hasLowerFence_def length_0_conv)
    ultimately show ?thesis using True v d fl(5) L(2) q'(1) P(1) by simp
  qed
qed simp

text \<open>
  What the adapter of the benchmarks passes to the scan: the first call is ignored if the flag says that its key is
  not the one that is sought, since the scan then begins with the entry after it.
\<close>

definition skip_inexact :: "(bnode \<Rightarrow> nat \<Rightarrow> 'a \<Rightarrow> bool \<times> 'a) \<Rightarrow> bnode \<Rightarrow> nat \<Rightarrow> bool \<Rightarrow> bool \<times> 'a \<Rightarrow> bool \<times> bool \<times> 'a" where
  "skip_inexact fn node slot exactMatch st =
     (case st of (first, a) \<Rightarrow>
        if first \<and> \<not> exactMatch then (True, (False, a))
        else (case fn node slot a of (go, a) \<Rightarrow> (go, (False, a))))"

definition skipping :: "('e \<Rightarrow> 'a \<Rightarrow> bool \<times> 'a) \<Rightarrow> bool \<Rightarrow> 'e \<Rightarrow> bool \<times> 'a \<Rightarrow> bool \<times> bool \<times> 'a" where
  "skipping g m e st =
     (if fst st \<and> \<not> m then (True, (False, snd st)) else (case g e (snd st) of (go, a) \<Rightarrow> (go, (False, a))))"

lemma visit_skipping:
  "visit (skipping g m) es (False, a) = (False, visit g es a)"
  "snd (visit (skipping g True) es (b, a)) = visit g es a"
  "snd (visit (skipping g False) (e # es) (True, a)) = visit g es a"
proof -
  show *: "visit (skipping g m) es (False, a) = (False, visit g es a)" for m es a
    by (induction es arbitrary: a) (simp_all add: skipping_def split: prod.split)
  show "snd (visit (skipping g True) es (b, a)) = visit g es a"
    by (cases es) (simp_all add: skipping_def * split: prod.split)
  show "snd (visit (skipping g False) (e # es) (True, a)) = visit g es a"
    by (simp add: skipping_def *)
qed

lemma filter_take:
  assumes "\<And>i. i < j \<Longrightarrow> P (es ! i)" and "\<And>i. j \<le> i \<Longrightarrow> i < length es \<Longrightarrow> \<not> P (es ! i)" and "j \<le> length es"
  shows "filter P es = take j es"
proof -
  have "filter P (take j es) = take j es" using assms(1,3) by (intro filter_True) (auto simp: in_set_conv_nth)
  moreover have "filter P (drop j es) = []" using assms(2,3) by (auto simp: filter_empty_conv in_set_conv_nth)
  ultimately show ?thesis by (metis append_take_drop_id filter_append append_Nil2)
qed

lemma entries_to:
  assumes s: "sorted_wrt (\<lambda>a b. fst a < fst b) es" and loc: "located (map fst es) key j f"
  shows "filter (\<lambda>e. fst e \<le> key) es = take (if f then j + 1 else j) es"
proof (rule filter_take)
  note less = sorted_wrt_nth_less [OF s]
  show "fst (es ! i) \<le> key" if "i < (if f then j + 1 else j)" for i
    using loc that less [of i j] by (cases "i = j") (auto simp: located_def less_Suc_eq split: if_splits)
  show "\<not> fst (es ! i) \<le> key" if "(if f then j + 1 else j) \<le> i" "i < length es" for i
    using loc that less [of j i] by (auto simp: located_def not_le split: if_splits)
  show "(if f then j + 1 else j) \<le> length es" using loc by (auto simp: located_def)
qed

lemma scanDesc_ok:
  assumes b: "btree s slot h root" and f: "length (leaves (t_node s) h root) + h < fuel"
    and fn: "\<And>n i a. i < b_count n \<Longrightarrow> fn n i a = g (entries n ! i) a"
  shows "\<exists>first. scanDesc fuel slot key (skip_inexact fn) s (True, a) =
    Ret (first, visit g (rev (filter (\<lambda>e. fst e \<le> key) (stored s h root))) a)"
proof -
  let ?N = "t_node s"
  obtain q lo hi xs ys where q: "findLeaf fuel slot key s = Ret q" "focus ?N h root [] [] xs 0 q lo hi ys"
    "sides ?N key xs ys" "leaf_ok q lo hi (?N q)"
    using findLeaf_ok [OF b, of fuel key] f by auto
  have n: "node_ok (?N q)" "sorted (keys (?N q))" "distinct (keys (?N q))" using q(4) by (simp_all add: leaf_ok_def node_at_def node_ok_def)
  obtain pos fnd where j: "lowerBound key (?N q) = Ret (pos, fnd)" "located (keys (?N q)) key pos fnd" using lowerBound_spec [OF n(1)] by blast
  have lv: "leaves ?N h root = xs @ q # ys" using focus_leaves [OF q(2)] by simp
  have st: "stored s h root = contents_of ?N xs @ entries (?N q) @ contents_of ?N ys" by (rule focus_contents [OF q(2)])
  have srt: "sorted_wrt (\<lambda>a b. fst a < fst b) (entries (?N q))" using n(2,3) by (simp add: strict_sorted_iff flip: sorted_wrt_map)
  have pos: "pos \<le> b_count (?N q)" "fnd \<Longrightarrow> pos < b_count (?N q)" using j(2) by (auto simp: located_def)
  define low where "low = contents_of ?N xs"
  have res: "filter (\<lambda>e. fst e \<le> key) (stored s h root) = low @ take (if fnd then pos + 1 else pos) (entries (?N q))"
  proof -
    have "filter (\<lambda>e. fst e \<le> key) (contents_of ?N xs) = low"
      using q(3) unfolding low_def by (intro filter_True) (force simp: sides_def intro: less_imp_le)
    moreover have "filter (\<lambda>e. fst e \<le> key) (contents_of ?N ys) = []"
      using q(3) unfolding sides_def filter_empty_conv not_le by blast
    ultimately show ?thesis unfolding st filter_append using entries_to [OF srt] j(2) by simp
  qed
  have run: "scan_desc fuel slot (skip_inexact fn) s m q k (True, a) =
      Ret (visit (skipping g m) (rev (low @ take k (entries (?N q)))) (True, a))" if "k \<le> b_count (?N q)" for m k
    unfolding low_def
  proof (rule scan_desc_ok [OF b _ q(2) that])
    show "skip_inexact fn n i m st = skipping g m (entries n ! i) st" if "i < b_count n" for n i st
      using fn [OF that] by (simp add: skip_inexact_def skipping_def split_beta)
    show "length xs + h < fuel" using f by (simp add: lv)
  qed
  let ?r = "visit g (rev (filter (\<lambda>e. fst e \<le> key) (stored s h root))) a"
  have "\<exists>st. scanDesc fuel slot key (skip_inexact fn) s (True, a) = Ret st \<and> snd st = ?r"
  proof (cases "pos = b_count (?N q)")
    case True
    then have "\<not> fnd" using pos(2) by auto
    then show ?thesis using True run [of pos True] q(1) j(1) res by (simp add: scanDesc_def visit_skipping(2))
  next
    case False
    then have lt: "pos < b_count (?N q)" using pos(1) by simp
    then have r: "scanDesc fuel slot key (skip_inexact fn) s (True, a) =
        Ret (visit (skipping g fnd) (rev (low @ take (Suc pos) (entries (?N q)))) (True, a))"
      using run [of "Suc pos" fnd] q(1) j(1) by (simp add: scanDesc_def)
    show ?thesis
    proof (cases fnd)
      case True
      then show ?thesis using r res by (simp add: visit_skipping(2))
    next
      case nf: False
      have "rev (low @ take (Suc pos) (entries (?N q))) = entries (?N q) ! pos # rev (low @ take pos (entries (?N q)))"
        using lt by (simp add: take_Suc_conv_app_nth del: entries_nth)
      then show ?thesis using r res nf by (simp add: visit_skipping(3) del: entries_nth visit.simps)
    qed
  qed
  then show ?thesis by (metis prod.collapse)
qed

end
