(* ===== verification/Btree_Service.thy ===== *)
theory Btree_Service
  imports Btree_History Btree_Descend
begin

text \<open>
  What the B-tree promises to its callers, and what the operations of a node promise to the tree. The
  theorems hold for every tree that satisfies the invariant and every node; the examples are small
  trees and nodes for which they say something.
\<close>

section \<open>Examples\<close>

definition pages0 :: pages where
  "pages0 = \<lparr>t_node = blank, t_roots = replicate 511 0, t_alloc = 1, t_slots = 0, t_tmp = blank 0\<rparr>"

lemma pages0_ok: "memory_ok pages0" "small pages0" "t_slots pages0 < length (t_roots pages0)" "budget pages0 = 1" "t_slots pages0 = 0"
  by (auto simp: memory_ok_def small_def budget_def crowd_def in_use_def pages0_def)

lemma first_tree: "\<exists>s root. BTree_new pages0 = Ret (0, s) \<and> btree s 0 0 root \<and> stored s 0 root = []"
  using BTree_new_ok [OF pages0_ok(1,3)] by (simp add: pages0_ok(5)) (simp add: pages0_def)

lemma empty_leaf:
  assumes b: "btree s slot 0 root" and e: "stored s 0 root = []"
  shows "findLeaf (Suc fuel) slot key s = Ret root"
    and "length key + length pay \<le> maxKVSize \<Longrightarrow> hasSpaceFor (t_node s root) (length key) (length pay)"
proof -
  have n: "leaf_ok root [] [] (t_node s root)" using btreeD(2) [OF b] by simp
  then have "isLeaf (t_node s root)" by (simp add: leaf_ok_def)
  then show "findLeaf (Suc fuel) slot key s = Ret root" using btreeD(1) [OF b] by (simp add: findLeaf_def)
  note B = bare [OF unfenced(2-4) [OF n]]
  have es: "entries (t_node s root) = []" using e by (simp add: contents_def)
  then have c: "b_count (t_node s root) = 0" using entries_length [of "t_node s root"] by simp
  show "hasSpaceFor (t_node s root) (length key) (length pay)" if "length key + length pay \<le> maxKVSize"
    using that B(5) [of "length key" "length pay"] by (simp add: es c slotsEnd_def sizes)
qed

lemma one_entry: "\<exists>s root. btree s 0 0 root \<and> stored s 0 root = [([1], [2])]"
proof -
  obtain s root where b: "btree s 0 0 root" "stored s 0 root = []" using first_tree by blast
  have "\<exists>s'. bt_insert 1 0 False [1] [2] s = Ret s' \<and> btree s' 0 0 root \<and> inserted ([1], [2]) (stored s 0 root) (stored s' 0 root)"
    by (rule bt_insert_space [OF b(1), where q = root]) (use empty_leaf(1) [OF b, where fuel = 0] empty_leaf(2) [OF b, where key = "[1]" and pay = "[2]"] in \<open>simp_all add: b(2) sizes\<close>)
  then show ?thesis using b(2) by (auto simp: inserted_def put_def)
qed

lemma one_key: "\<exists>s h root. btree s 0 h root \<and> map_of (stored s h root) = [[1] \<mapsto> [2]] \<and> small s \<and> budget s < 2 ^ 64 - 2"
proof -
  have "t_alloc pages0 < 2 ^ 64 - 1" by (simp add: pages0_def)
  from BTree_new_implements [OF pages0_ok(1-3) this] obtain s where "implements s 0 Map.empty 2" by (auto simp: pages0_ok numeral_2_eq_2)
  from bt_step_refines [OF this, of "Insert [1] [2]" 3200] obtain s' where "implements s' 0 [[1] \<mapsto> [2]] 1202" by auto
  then obtain h root where "btree s' 0 h root" "map_of (stored s' h root) = [[1] \<mapsto> [2]]" "small s'" "budget s' \<le> 1202"
    unfolding implements_def by blast
  moreover then have "budget s' < 2 ^ 64 - 2" by simp
  ultimately show ?thesis by blast
qed

definition four :: "(u8 list \<times> u8 list) list" where
  "four = [([1], [10]), ([2], [20]), ([3], [30]), ([4], [40])]"

lemma four_leaf: "\<exists>n. leaf_ok 1 [] [] n \<and> entries n = four"
  by (rule leaf_exists) (simp_all add: four_def pair_ok_def slotsEnd_def sizes entry_size_def)

text \<open>An inner node with two separators.\<close>

lemma only_child:
  "\<exists>n. node_ok n \<and> child_ok n \<and> \<not> isLeaf n \<and> keys n = [] \<and> children n = [p] \<and>
     low_key n = [] \<and> upp_key n = [] \<and> prefixLen n = 0 \<and> prefix n = [] \<and> (\<forall>k. k \<le> 1000 \<longrightarrow> hasSpaceFor n k 8)"
proof -
  define n where "n = (node_new False (blank 9))\<lparr>b_link := p\<rparr>"
  have i: "inner_ok 9 [] [] n" "kids n [] [] = [(p, [], [])]"
    using new_root [OF raw_ok_blank [of 9], of 9 p] by (simp_all add: n_def blank_def)
  then have n: "node_ok n" "child_ok n" "\<not> isLeaf n" "layout n" "low_key n = []" "upp_key n = []"
    by (simp_all add: inner_ok_def node_at_def node_ok_def)
  have e: "entries n = []" using node_new_layout(2) [OF raw_ok_blank [of 9], of False] by (simp add: n_def)
  then have c: "b_count n = 0" using entries_length [of n] by simp
  have "children n = [p]" by (simp add: children_def e) (simp add: n_def)
  moreover have "hasSpaceFor n k 8" if "k \<le> 1000" for k
    using that bare(5) [OF n(4-6), of k 8] by (simp add: e c slotsEnd_def sizes)
  ultimately show ?thesis using n bare(1,2) [OF n(4-6)] e by (intro exI [of _ n]) simp
qed

lemma two_separators: "\<exists>n. node_ok n \<and> child_ok n \<and> \<not> isLeaf n \<and> keys n = [[1], [2]] \<and> children n = [1, 2, 3]"
proof -
  obtain n where n: "node_ok n" "child_ok n" "\<not> isLeaf n" "keys n = []" "children n = [3]" "low_key n = []" "upp_key n = []"
    "prefixLen n = 0" "prefix n = []" "hasSpaceFor n (length [2 :: u8]) 8"
    using only_child [of 3] by auto
  have l: "located (keys n) [2] 0 False" by (simp add: n(4) located_def)
  obtain n1 where n1: "node_ok n1" "child_ok n1" "same_frame n n1" "keys n1 = put 0 [2] (keys n)" "children n1 = put 0 2 (children n)"
    using parent_insert_ok [OF n(1,2) raw_ok_blank [of 0], of "[2]" 0 2] n(8-10) l by auto
  then have p: "prefixLen n1 = 0" "prefix n1 = []" "\<not> isLeaf n1" "low_key n1 = []" "upp_key n1 = []" "layout n1"
    and k: "keys n1 = [[2]]" "children n1 = [2, 3]"
    using n by (simp_all add: same_frame_def node_ok_def put_def)
  obtain e where e: "entries n1 = [e]" "fst e = [2]" using k(1) by (cases "entries n1") auto
  moreover have "length (snd e) = 8" using n1(2) by (simp add: child_ok_def e)
  moreover have "b_count n1 = 1" using entries_length [of n1] by (simp add: e)
  ultimately have s: "hasSpaceFor n1 (length [1 :: u8]) 8"
    using bare(5) [OF p(6,4,5), of 1 8] by (simp add: slotsEnd_def sizes entry_size_def)
  have "located (keys n1) [1] 0 False" by (simp add: k located_def)
  then obtain n2 where "node_ok n2" "child_ok n2" "same_frame n1 n2" "keys n2 = put 0 [1] (keys n1)" "children n2 = put 0 1 (children n1)"
    using parent_insert_ok [OF n1(1,2) raw_ok_blank [of 0], of "[1]" 0 1] p(1,2) s by auto
  then show ?thesis using p(3) k by (intro exI [of _ n2]) (simp add: same_frame_def put_def)
qed

text \<open>The leaf of four entries can be split in the middle, under a parent without separators.\<close>

lemma four_ready:
  "\<exists>n p. node_ok n \<and> isLeaf n \<and> b_pid n = 1 \<and> low_key n = [] \<and> upp_key n = [] \<and> entries n = four \<and> left_part n 1 = take 2 four \<and>
     right_part n 1 = drop 2 four \<and> can_split n 1 [2] \<and>
     node_ok p \<and> child_ok p \<and> keys p = [] \<and> children p = [1] \<and> can_adopt p (b_pid n) [2] 0"
proof -
  obtain n where n: "leaf_ok 1 [] [] n" "entries n = four" using four_leaf by blast
  then have ok: "node_ok n" "isLeaf n" "b_pid n = 1" by (simp_all add: leaf_ok_def node_at_def)
  obtain p where p: "node_ok p" "child_ok p" "keys p = []" "children p = [1]" "prefixLen p = 0" "prefix p = []"
    "hasSpaceFor p (length [2 :: u8]) 8"
    using only_child [of 1] by auto
  have c: "b_count n = 4" using n(2) entries_length [of n] by (simp add: four_def)
  have parts: "left_part n 1 = take 2 four" "right_part n 1 = drop 2 four"
    by (simp_all add: left_part_def right_part_def n(2) ok(2) numeral_2_eq_2)
  have "can_split n 1 [2]"
    using unfenced(3,4) [OF n(1)] c unfolding can_split_def parts
    by (simp add: four_def in_range_def fits_def slotsEnd_def sizes entry_size_def)
  moreover have "can_adopt p (b_pid n) [2] 0" using p by (simp add: can_adopt_def ok(3) located_def)
  ultimately show ?thesis using ok n(2) unfenced(3,4) [OF n(1)] parts p by blast
qed

definition four_halves :: "bnode \<Rightarrow> bnode \<Rightarrow> bool" where
  "four_halves n right \<longleftrightarrow> node_ok n \<and> node_ok right \<and> isLeaf n \<and> isLeaf right \<and> fenced n \<and> fenced right \<and> b_pid n = 1 \<and>
     low_key n = [] \<and> upp_key n = [2] \<and> low_key right = [2] \<and> upp_key right = [] \<and> entries n = take 2 four \<and> entries right = drop 2 four"

lemma halves: "\<exists>n right. four_halves n right"
proof -
  obtain n p where n: "node_ok n" "isLeaf n" "b_pid n = 1" "low_key n = []" "upp_key n = []" "left_part n 1 = take 2 four"
    "right_part n 1 = drop 2 four" "can_split n 1 [2]" "node_ok p" "child_ok p" "can_adopt p (b_pid n) [2] 0"
    using four_ready by (elim exE conjE)
  obtain left right where r: "split_result n 1 [2] 2 left right"
    using splitNode_ok [OF n(1,9,10) raw_ok_blank [of 0] raw_ok_blank [of 2] disjI1 [OF n(2)] n(8,11)] by (auto simp: blank_def)
  then have "fenced left" "fenced right"
    using n(4-7) by (simp_all add: split_result_def fenced_def four_def in_range_def del: One_nat_def)
  then show ?thesis using r n(2-7)
    by (intro exI [of _ left] exI [of _ right]) (simp add: four_halves_def split_result_def del: One_nat_def)
qed

text \<open>Where a search from the first key on stops, and whether it has found the key.\<close>

definition position :: "u8 list list \<Rightarrow> u8 list \<Rightarrow> nat \<times> bool" where
  "position ks key = (length (takeWhile (\<lambda>k. k < key) ks), key \<in> set ks)"

text \<open>What \<open>located\<close> says about sorted and different keys.\<close>

lemma located_position:
  assumes "sorted ks" and "distinct ks" and "located ks key j f"
  shows "position ks key = (j, f)"
proof -
  have srt: "sorted_wrt (<) ks" using assms(1,2) by (simp add: strict_sorted_iff)
  have lt: "ks ! i < key" if "i < j" for i
  proof (cases f)
    case True
    then have "j < length ks" "ks ! j = key" using assms(3) by (auto simp: located_def)
    then show ?thesis using sorted_wrt_nth_less [OF srt that] by simp
  qed (use assms(3) that in \<open>simp add: located_def\<close>)
  have ge: "\<not> ks ! j < key" if "j < length ks" using assms(3) that by (cases f) (auto simp: located_def)
  have "takeWhile (\<lambda>k. k < key) ks = take j ks" by (rule takeWhile_eq_take_P_nth) (use lt ge in simp_all)
  moreover have "j \<le> length ks" using assms(3) by (simp add: located_def)
  ultimately show ?thesis using located_mem [OF assms(1,3)] by (simp add: position_def)
qed

section \<open>The tree\<close>

text \<open>
  C11: a lookup returns, and gives the payload that the content of the tree has for the key: its
  length, or -1 if there is none, with at most the bytes that fit in the buffer of the caller; the
  lookup with a function calls it with the whole payload.
\<close>

theorem lookup_gives_stored:
  assumes "btree s slot h root" and "h < fuel"
  shows "lookup fuel slot key room s =
      Ret (case map_of (stored s h root) key of None \<Rightarrow> (- 1, []) | Some v \<Rightarrow> (int (length v), take room v)) \<and>
    lookup_fn fuel slot key s = Ret (map_of (stored s h root) key)"
  using lookup_ok [OF assms] by simp

theorem lookup_gives_stored_witness:
  "\<exists>s root. btree s 0 0 root \<and> lookup 1 0 [1] 10 s = Ret (1, [2]) \<and> lookup 1 0 [2] 10 s = Ret (- 1, [])"
proof -
  obtain s root where s: "btree s 0 0 root" "stored s 0 root = [([1], [2])]" using one_entry by blast
  show ?thesis using lookup_gives_stored [OF s(1), of 1 "[1]" 10] lookup_gives_stored [OF s(1), of 1 "[2]" 10] s by auto
qed

text \<open>
  C31: \<open>updateInPlace\<close> returns whether the key is there, and replaces its payload by what the
  function makes of it, if that has the same length; the keys and the other payloads stay.
\<close>

theorem update_replaces:
  assumes "btree s slot h root" and "h < fuel" and "\<And>v. length (fn v) = length v"
  shows "\<exists>s'. updateInPlace fuel slot key fn s = Ret (map_of (stored s h root) key \<noteq> None, s') \<and> btree s' slot h root \<and>
    map fst (stored s' h root) = map fst (stored s h root) \<and>
    map_of (stored s' h root) = (case map_of (stored s h root) key of None \<Rightarrow> map_of (stored s h root)
      | Some v \<Rightarrow> (map_of (stored s h root))(key \<mapsto> fn v))"
  using updateInPlace_ok [OF assms] by blast

theorem update_replaces_witness:
  "\<exists>s root s'. btree s 0 0 root \<and> updateInPlace 1 0 [1] (map (\<lambda>x. x + 1)) s = Ret (True, s') \<and> map_of (stored s' 0 root) [1] = Some [3]"
proof -
  obtain s root where s: "btree s 0 0 root" "stored s 0 root = [([1], [2])]" using one_entry by blast
  obtain s' where u: "updateInPlace 1 0 [1] (map (\<lambda>x. x + 1)) s = Ret (map_of (stored s 0 root) [1] \<noteq> None, s')"
    "map_of (stored s' 0 root) = (case map_of (stored s 0 root) [1] of None \<Rightarrow> map_of (stored s 0 root)
       | Some v \<Rightarrow> (map_of (stored s 0 root))([1] \<mapsto> map (\<lambda>x. x + 1) v))"
    using update_replaces [OF s(1), where fuel = 1 and key = "[1]" and fn = "map (\<lambda>x. x + 1)"] by auto
  then have "map_of (stored s' 0 root) [1] = Some [3]" unfolding s(2) by simp
  then show ?thesis using s u(1) by auto
qed

text \<open>
  C12: \<open>scanAsc\<close> calls its function with the entries from the key on, in the order of the keys, over
  the links of the leaves, until the function says that it has enough; with fuel for the entries
  and the leaves it returns.
\<close>

theorem scan_visits_in_order:
  assumes "btree s slot h root" and "h < fuel" and "length (stored s h root) + length (leaves (t_node s) h root) \<le> fuel"
    and "\<And>n i a. i < b_count n \<Longrightarrow> fn n i a = g (entries n ! i) a"
  shows "scanAsc fuel slot key fn s a = Ret (visit g (filter (\<lambda>e. key \<le> fst e) (stored s h root)) a) \<and>
    sorted_wrt (\<lambda>d e. fst d < fst e) (stored s h root)"
proof
  show "scanAsc fuel slot key fn s a = Ret (visit g (filter (\<lambda>e. key \<le> fst e) (stored s h root)) a)"
    by (rule scanAsc_ok [OF assms(1-3)]) (rule assms(4))
  show "sorted_wrt (\<lambda>d e. fst d < fst e) (stored s h root)" by (rule contents_sorted [OF btreeD(2) [OF assms(1)]])
qed

theorem scan_visits_in_order_witness:
  "\<exists>s root. btree s 0 0 root \<and> scanAsc 2 0 [] (\<lambda>n i a. (True, a @ [fst (entries n ! i)])) s [] = Ret [[1]]"
proof -
  obtain s root where s: "btree s 0 0 root" "stored s 0 root = [([1], [2])]" using one_entry by blast
  show ?thesis
    using scan_visits_in_order [OF s(1), where fuel = 2 and key = "[]" and a = "[]" and fn = "\<lambda>n i a. (True, a @ [fst (entries n ! i)])"
        and g = "\<lambda>e a. (True, a @ [fst e])"] s by auto
qed

text \<open>
  C13: \<open>scanDesc\<close>, called as the adapter of the benchmarks calls it, visits the entries up to the
  key in descending order, from leaf to leaf over the lower fences, until the function says that it
  has enough: the flag \<open>exactMatch\<close> tells the adapter in every case whether the first call is one too
  many. With fuel for the leaves and the height it returns.
\<close>

theorem scan_descends:
  assumes "btree s slot h root" and "length (leaves (t_node s) h root) + h < fuel"
    and "\<And>n i a. i < b_count n \<Longrightarrow> fn n i a = g (entries n ! i) a"
  shows "\<exists>first. scanDesc fuel slot key (skip_inexact fn) s (True, a) =
    Ret (first, visit g (rev (filter (\<lambda>e. fst e \<le> key) (stored s h root))) a)"
  by (rule scanDesc_ok [OF assms(1,2)]) (rule assms(3))

theorem scan_descends_witness:
  "\<exists>s root first. btree s 0 0 root \<and>
    scanDesc 2 0 [7] (skip_inexact (\<lambda>n i a. (True, a @ [fst (entries n ! i)]))) s (True, []) = Ret (first, [[1]])"
proof -
  obtain s root where s: "btree s 0 0 root" "stored s 0 root = [([1], [2])]" using one_entry by blast
  show ?thesis
    using scan_descends [OF s(1), where fuel = 2 and key = "[7]" and a = "[]" and fn = "\<lambda>n i a. (True, a @ [fst (entries n ! i)])"
        and g = "\<lambda>e a. (True, a @ [fst e])"] s by auto
qed

text \<open>
  C9: \<open>remove\<close> returns whether the key was there, and the content of the tree is the old one without
  the key, whether the leaf is merged with its right neighbour or not.
\<close>

theorem remove_deletes:
  assumes "btree s slot h root" and "h < fuel"
  shows "\<exists>s'. bt_remove fuel slot key s = Ret (key \<in> set (map fst (stored s h root)), s') \<and> btree s' slot h root \<and>
    stored s' h root = filter (\<lambda>e. fst e \<noteq> key) (stored s h root)"
  using bt_remove_ok [OF assms] by blast

theorem remove_deletes_witness:
  "\<exists>s root s'. btree s 0 0 root \<and> stored s 0 root = [([1], [2])] \<and> bt_remove 1 0 [1] s = Ret (True, s') \<and> stored s' 0 root = []"
proof -
  obtain s root where s: "btree s 0 0 root" "stored s 0 root = [([1], [2])]" using one_entry by blast
  show ?thesis using remove_deletes [OF s(1), of 1 "[1]"] s by auto
qed

text \<open>
  C10: an insertion of a new key that returns has added its entry, however many splits it took, and
  has kept the invariant. It returns, in a tree with entries of at most 64 bytes that is not
  split in key order, for a key and a payload of at most 64 bytes, with fuel for the height of the tree
  and as long as there are page ids.
\<close>

theorem insert_adds:
  assumes "btree s slot h root" and "key \<notin> set (map fst (stored s h root))"
  shows "(\<forall>s'. bt_insert fuel slot ordered key pay s = Ret s' \<longrightarrow> (\<exists>h' root'. btree s' slot h' root' \<and>
      map_of (stored s' h' root') = (map_of (stored s h root))(key \<mapsto> pay) \<and> length (stored s' h' root') = length (stored s h root) + 1)) \<and>
    (small s \<and> \<not> ordered \<and> length key \<le> 64 \<and> length pay \<le> 64 \<and> 1600 * (h + 1) \<le> fuel \<and> budget s < 2 ^ 64 - 2 \<longrightarrow>
      (\<exists>s'. bt_insert fuel slot ordered key pay s = Ret s'))"
proof
  show "\<forall>s'. bt_insert fuel slot ordered key pay s = Ret s' \<longrightarrow> (\<exists>h' root'. btree s' slot h' root' \<and>
      map_of (stored s' h' root') = (map_of (stored s h root))(key \<mapsto> pay) \<and> length (stored s' h' root') = length (stored s h root) + 1)"
    using bt_insert_ok [OF assms] inserted_map [OF _ assms(2)] by blast
  show "small s \<and> \<not> ordered \<and> length key \<le> 64 \<and> length pay \<le> 64 \<and> 1600 * (h + 1) \<le> fuel \<and> budget s < 2 ^ 64 - 2 \<longrightarrow>
      (\<exists>s'. bt_insert fuel slot ordered key pay s = Ret s')"
  proof
    assume a: "small s \<and> \<not> ordered \<and> length key \<le> 64 \<and> length pay \<le> 64 \<and> 1600 * (h + 1) \<le> fuel \<and> budget s < 2 ^ 64 - 2"
    then have p: "small s" "length key \<le> 64" "length pay \<le> 64" "1600 * (h + 1) \<le> fuel" "budget s < 2 ^ 64 - 2" "ordered = False"
      by (elim conjE; assumption | simp)+
    show "\<exists>s'. bt_insert fuel slot ordered key pay s = Ret s'"
      unfolding p(6) using bt_insert_returns [OF assms(1) p(1) assms(2) p(2-5)] by (elim exE conjE) (rule exI)
  qed
qed

theorem insert_adds_witness:
  "\<exists>s h root fuel s' h' root'. btree s 0 h root \<and> map_of (stored s h root) = [[1] \<mapsto> [2]] \<and> bt_insert fuel 0 False [3] [4] s = Ret s' \<and>
     btree s' 0 h' root' \<and> map_of (stored s' h' root') = [[1] \<mapsto> [2], [3] \<mapsto> [4]]"
proof -
  obtain s h root where s: "btree s 0 h root" "map_of (stored s h root) = [[1] \<mapsto> [2]]" "small s" "budget s < 2 ^ 64 - 2"
    using one_key by blast
  have new: "[3] \<notin> set (map fst (stored s h root))" by (simp only: map_of_mem s(2)) simp
  note I = insert_adds [OF s(1) new, where fuel = "1600 * (h + 1)" and pay = "[4]" and ordered = False]
  have "length [3 :: u8] \<le> 64" "length [4 :: u8] \<le> 64" by simp_all
  with conjunct2 [OF I] s(3,4) obtain s' where r: "bt_insert (1600 * (h + 1)) 0 False [3] [4] s = Ret s'" by blast
  obtain h' root' where t: "btree s' 0 h' root'" "map_of (stored s' h' root') = (map_of (stored s h root))([3] \<mapsto> [4])"
    using conjunct1 [OF I, rule_format, OF r] by (elim exE conjE)
  show ?thesis
    by (rule exI [of _ s], rule exI [of _ h], rule exI [of _ root], rule exI [of _ "1600 * (h + 1)"], rule exI [of _ s'],
        rule exI [of _ h'], rule exI [of _ root']) (intro conjI s(1,2) r t(1), simp only: t(2) s(2))
qed

text \<open>
  C2: the tree is a map. On a new tree every history of insertions, removals, lookups and updates that
  inserts only keys that are not there, with keys and payloads of at most 64 bytes, returns and gives
  the answers of the same history on a map, and the content of the tree is that map. The fuel and
  the page ids it takes grow with the length of the history.
\<close>

theorem tree_is_map:
  assumes "memory_ok s0" and "small s0" and "t_slots s0 < length (t_roots s0)" and "allowed_run ops Map.empty"
    and "budget s0 + 1 + 1200 * length ops < 2 ^ 64 - 2" and "1600 * (budget s0 + 1 + 1200 * length ops) \<le> fuel"
  shows "\<exists>s s' h root. BTree_new s0 = Ret (t_slots s0, s) \<and>
    bt_run fuel (t_slots s0) ops s = Ret (fst (dict_run ops Map.empty), s') \<and>
    btree s' (t_slots s0) h root \<and> map_of (stored s' h root) = snd (dict_run ops Map.empty)"
proof -
  have "t_alloc s0 < 2 ^ 64 - 1" using assms(5) by (simp add: budget_def)
  from BTree_new_implements [OF assms(1-3) this] obtain s where s: "BTree_new s0 = Ret (t_slots s0, s)"
    "implements s (t_slots s0) Map.empty (budget s0 + 1)" by blast
  from bt_run_refines [OF s(2) assms(4-6)] s(1) show ?thesis by (auto simp: implements_def)
qed

theorem tree_is_map_witness:
  "\<exists>fuel s s'. BTree_new pages0 = Ret (0, s) \<and>
     bt_run fuel 0 [Insert [1] [2], Insert [0] [3, 4], Lookup [1], Update [0] rev, Remove [1], Lookup [1], Lookup [0]] s =
       Ret ([Done, Done, Value (Some [2]), Found True, Found True, Value None, Value (Some [4, 3])], s')"
proof -
  let ?ops = "[Insert [1] [2], Insert [0] [3, 4], Lookup [1], Update [0] rev, Remove [1], Lookup [1], Lookup [0]]"
  have "allowed_run ?ops Map.empty" by simp
  from tree_is_map [OF pages0_ok(1,2,3) this, of "1600 * (budget pages0 + 1 + 1200 * length ?ops)"]
  show ?thesis using pages0_ok(4,5) by auto
qed

section \<open>The nodes\<close>

text \<open>
  C15: the search of a node, which narrows the range by the hint and compares the heads of the keys
  first, finds what a search through the whole keys from the first one on finds.
\<close>

theorem lowerBound_is_position:
  assumes "node_ok n" and "distinct (keys n)"
  shows "lowerBound key n = Ret (position (keys n) key)"
proof -
  obtain j f where j: "lowerBound key n = Ret (j, f)" "located (keys n) key j f" using lowerBound_spec [OF assms(1)] by blast
  have "sorted (keys n)" using assms(1) by (simp add: node_ok_def)
  then show ?thesis using j(1) located_position [OF _ assms(2) j(2)] by (simp only:)
qed

theorem lowerBound_is_position_witness:
  "\<exists>n. node_ok n \<and> entries n = four \<and> lowerBound [3] n = Ret (2, True) \<and> lowerBound [3, 0] n = Ret (3, False)"
proof -
  obtain n where n: "leaf_ok 1 [] [] n" "entries n = four" using four_leaf by blast
  then have "node_ok n" "distinct (keys n)" by (simp_all add: leaf_ok_def node_at_def)
  then show ?thesis using lowerBound_is_position [of n "[3]"] lowerBound_is_position [of n "[3, 0]"] n(2)
    by (auto simp: position_def four_def)
qed

text \<open>
  C30: with room for the entry, after a compaction if it needs one, \<open>insertInPage\<close> returns a node with
  the entry at the position of its key; for an inner node with a key that is not there, this is how
  it gets a separator.
\<close>

theorem insertInPage_adds:
  assumes "node_ok n" and "raw_ok raw" and "take (prefixLen n) key = prefix n" and "length key + length pay \<le> pageSize"
    and "hasSpaceFor n (length key) (length pay)" and "distinct (keys n)"
  shows "\<exists>n'. insertInPage raw key pay n = Ret n' \<and> node_ok n' \<and> same_frame n n' \<and>
    entries n' = put (fst (position (keys n) key)) (key, pay) (entries n)"
proof -
  obtain n' j f where n': "insertInPage raw key pay n = Ret n'" "node_ok n'" "same_frame n n'" "located (keys n) key j f"
    "entries n' = put j (key, pay) (entries n)"
    using insertInPage_ok [OF assms(1-3) _ assms(5)] assms(4) by (auto simp: sizes)
  have "sorted (keys n)" using assms(1) by (simp add: node_ok_def)
  from located_position [OF this assms(6) n'(4)] have "fst (position (keys n) key) = j" by (simp only: fst_conv)
  then show ?thesis using n' by blast
qed

theorem insertInPage_adds_witness:
  "\<exists>n n'. entries n = four \<and> insertInPage (blank 0) [2, 0] [25] n = Ret n' \<and> node_ok n' \<and>
     entries n' = [([1], [10]), ([2], [20]), ([2, 0], [25]), ([3], [30]), ([4], [40])]"
proof -
  obtain n where n: "leaf_ok 1 [] [] n" "entries n = four" using four_leaf by blast
  then have ok: "node_ok n" "distinct (keys n)" by (simp_all add: leaf_ok_def node_at_def)
  note B = bare [OF unfenced(2-4) [OF n(1)]]
  have "b_count n = 4" using n(2) entries_length [of n] by (simp add: four_def)
  then have "hasSpaceFor n (length [2, 0 :: u8]) (length [25 :: u8])"
    using B(5) [of 2 1] n(2) by (simp add: four_def slotsEnd_def sizes entry_size_def numeral_2_eq_2)
  then show ?thesis using insertInPage_adds [OF ok(1) raw_ok_blank [of 0], of "[2, 0]" "[25]"] B(1,2) ok(2) n(2)
    by (auto simp: position_def four_def put_def sizes)
qed

text \<open>
  C16: a compaction and a removal return and give nodes: the slots in use point to disjoint parts of
  the heap, the hint and the heads agree with the keys, and the keys are sorted. A compaction
  keeps the entries and leaves the free space in one piece; a removal takes out the key alone.
\<close>

theorem node_kept:
  assumes "node_ok n" and "raw_ok raw" and "distinct (keys n)"
  shows "(\<exists>n'. compactify raw n = Ret n' \<and> node_ok n' \<and> entries n' = entries n \<and> dataOffset n' + spaceUsed n' = pageSize) \<and>
    (\<exists>n'. removeInPage key n = Ret (key \<in> set (keys n), n') \<and> node_ok n' \<and> entries n' = filter (\<lambda>e. fst e \<noteq> key) (entries n))"
proof
  show "\<exists>n'. compactify raw n = Ret n' \<and> node_ok n' \<and> entries n' = entries n \<and> dataOffset n' + spaceUsed n' = pageSize"
    using compactify_ok [OF assms(1,2)] by (auto simp: sizes)
  obtain n' b where r: "removeInPage key n = Ret (b, n')" "node_ok n'" "b \<longleftrightarrow> key \<in> set (keys n)"
    "if b then \<exists>j. j < b_count n \<and> keys n ! j = key \<and> entries n' = take j (entries n) @ drop (Suc j) (entries n) else n' = n"
    using removeInPage_ok [OF assms(1), of key] by blast
  have "entries n' = filter (\<lambda>e. fst e \<noteq> key) (entries n)"
  proof (cases b)
    case True
    then obtain j where "j < b_count n" "keys n ! j = key" "entries n' = take j (entries n) @ drop (Suc j) (entries n)" using r(4) by auto
    then show ?thesis using filter_cut [OF assms(3), of j] by (simp add: cut_def)
  next
    case False
    then have "filter (\<lambda>e. fst e \<noteq> key) (entries n) = entries n" using r(3) by (intro filter_True) auto
    then show ?thesis using r(4) False by simp
  qed
  then show "\<exists>n'. removeInPage key n = Ret (key \<in> set (keys n), n') \<and> node_ok n' \<and> entries n' = filter (\<lambda>e. fst e \<noteq> key) (entries n)"
    using r by blast
qed

theorem node_kept_witness:
  "\<exists>n n' n''. entries n = four \<and> compactify (blank 0) n = Ret n' \<and> entries n' = four \<and>
     removeInPage [2] n = Ret (True, n'') \<and> entries n'' = [([1], [10]), ([3], [30]), ([4], [40])]"
proof -
  obtain n where n: "leaf_ok 1 [] [] n" "entries n = four" using four_leaf by blast
  then have ok: "node_ok n" "distinct (keys n)" by (simp_all add: leaf_ok_def node_at_def)
  obtain n' where "compactify (blank 0) n = Ret n'" "entries n' = four" using node_kept [OF ok(1) raw_ok_blank [of 0] ok(2)] n(2) by auto
  moreover obtain n'' where "removeInPage [2] n = Ret (True, n'')" "entries n'' = [([1], [10]), ([3], [30]), ([4], [40])]"
    using node_kept [OF ok(1) raw_ok_blank [of 0] ok(2), of "[2]"] n(2) by (auto simp: four_def)
  ultimately show ?thesis using n(2) by blast
qed

text \<open>
  C29: the separator that a node with more than one entry is split at is not below the entry of its
  slot, in a leaf it is below the next, and it is not longer than some key; only in a leaf of two
  entries it is the first key.
\<close>

theorem separator_between:
  assumes "node_ok n" and "b_count n > 1" and "distinct (keys n)"
  shows "\<exists>info sep. findSeparator ordered n = Ret info \<and> getSep info n = Ret sep \<and> sep_len info = length sep \<and>
    keys n ! sep_slot info \<le> sep \<and> (\<exists>i < b_count n. length sep \<le> length (keys n ! i)) \<and>
    (if isLeaf n then sep_slot info + 1 < b_count n \<and> sep < keys n ! (sep_slot info + 1) \<and> (sep_slot info = 0 \<longleftrightarrow> b_count n = 2)
     else sep_slot info = b_count n div 2 \<and> sep = keys n ! sep_slot info)"
  by (rule findSeparator_ok [OF assms])

theorem separator_between_witness:
  "\<exists>n info sep. entries n = four \<and> findSeparator True n = Ret info \<and> getSep info n = Ret sep \<and> 0 < sep_slot info \<and> [2] \<le> sep \<and> sep < [4]"
proof -
  obtain n where n: "leaf_ok 1 [] [] n" "entries n = four" using four_leaf by blast
  then have ok: "node_ok n" "distinct (keys n)" "isLeaf n" by (simp_all add: leaf_ok_def node_at_def)
  have c: "b_count n = 4" and k: "keys n = [[1], [2], [3], [4]]" using n(2) entries_length [of n] by (simp_all add: four_def)
  obtain info sep where f: "findSeparator True n = Ret info" "getSep info n = Ret sep" "keys n ! sep_slot info \<le> sep"
    "sep_slot info + 1 < 4" "sep < keys n ! (sep_slot info + 1)" "sep_slot info \<noteq> 0"
    using separator_between [OF ok(1) _ ok(2), of True] ok(3) c by auto
  then have "sep_slot info = 1 \<or> sep_slot info = 2" by linarith
  then have "[2] \<le> sep \<and> sep < [4]"
  proof
    assume "sep_slot info = 1"
    then have "[2] \<le> sep" "sep < [3]" using f(3,5) unfolding k by simp_all
    moreover have "[3] < [4 :: u8]" by simp
    ultimately show ?thesis by (blast intro: order.strict_trans)
  next
    assume "sep_slot info = 2"
    then have "[3] \<le> sep" "sep < [4]" using f(3,5) unfolding k by simp_all
    moreover have "[2] \<le> [3 :: u8]" by simp
    ultimately show ?thesis by (blast intro: order.trans)
  qed
  then show ?thesis using n(2) f(1,2,6) by blast
qed

text \<open>A child that is set is the child that is read, and the keys and the other children stay.\<close>

theorem child_round_trip:
  assumes "node_ok n" and "child_ok n" and "j < b_count n"
  shows "\<exists>n'. setChild j p n = Ret n' \<and> node_ok n' \<and> getChild n' j = Ret p \<and> keys n' = keys n \<and>
    (\<forall>i < b_count n. i \<noteq> j \<longrightarrow> getChild n' i = getChild n i)"
proof -
  obtain n' where n': "setChild j p n = Ret n'" "node_ok n'" "child_ok n'" "b_count n' = b_count n" "keys n' = keys n"
    "children n' = (children n)[j := p]"
    using setChild_ok [OF assms] by blast
  have lay: "layout n" "layout n'" using assms(1) n'(2) by (simp_all add: node_ok_def)
  have "getChild n' i = Ret ((children n)[j := p] ! i)" "getChild n i = Ret (children n ! i)" if "i < b_count n" for i
    using getChild_ok(1) [OF lay(2) n'(3), of i] getChild_ok(1) [OF lay(1) assms(2), of i] that by (simp_all add: n'(4,6))
  then show ?thesis using n' assms(3) by (intro exI [of _ n']) simp
qed

theorem child_round_trip_witness:
  "\<exists>n n'. children n = [1, 2, 3] \<and> setChild 1 7 n = Ret n' \<and> getChild n' 1 = Ret 7 \<and> getChild n' 0 = getChild n 0"
proof -
  obtain n where n: "node_ok n" "child_ok n" "children n = [1, 2, 3]" using two_separators by blast
  then have "b_count n = 2" using children_length [of n] by simp
  then show ?thesis using child_round_trip [OF n(1,2), of 1 7] n(3) by auto
qed

text \<open>
  C14: a split of a node under a parent, where the slot and the separator divide the node and the
  parent can adopt the separator, returns. \<open>can_split\<close>: the slot is not the first one; the keys of the
  left half (up to the slot in a leaf, below it in an inner node) are above the lower fence and at most
  the separator, those of the right half above the separator and at most the upper fence; and both
  halves fit a page with the separator as a fence. \<open>can_adopt\<close>: the separator has its position in the
  parent where the child is this node, shares the prefix of the parent, and the parent has room for it
  and a child. Not every full node has these: a leaf whose left half does not fit is stuck, as stated
  further down. Then the halves have the entries up to and from the separator, an inner node gives the entry
  of its slot to the parent, the fences meet at the separator, the links lead from the left half to
  the right one and on, and the parent has the separator between the two.
\<close>

theorem splitNode_divides:
  assumes "node_ok n" "node_ok p" "child_ok p" "raw_ok raw" "raw_ok page" and "isLeaf n \<or> child_ok n"
    and "can_split n s sep" and "can_adopt p (b_pid n) sep j"
  shows "\<exists>left right p'. splitNode raw page s sep n p = Ret (left, right, p') \<and> split_result n s sep (b_pid page) left right \<and>
    node_ok p' \<and> child_ok p' \<and> keys p' = put j sep (keys p) \<and> children p' = put j (b_pid n) ((children p)[j := b_pid page]) \<and>
    b_pid p' = b_pid p \<and> isLeaf p' = isLeaf p \<and> low_key p' = low_key p \<and> upp_key p' = upp_key p"
  by (rule splitNode_ok [OF assms])

theorem splitNode_divides_witness:
  "\<exists>n p left right p'. entries n = four \<and> children p = [1] \<and> splitNode (blank 0) (blank 2) 1 [2] n p = Ret (left, right, p') \<and>
     entries left = take 2 four \<and> entries right = drop 2 four \<and> b_link left = 2 \<and> keys p' = [[2]] \<and> children p' = [1, 2]"
proof -
  obtain n p where n: "node_ok n" "isLeaf n" "b_pid n = 1" "entries n = four" "left_part n 1 = take 2 four"
    "right_part n 1 = drop 2 four" "can_split n 1 [2]" "node_ok p" "child_ok p" "keys p = []" "children p = [1]"
    "can_adopt p (b_pid n) [2] 0"
    using four_ready by (elim exE conjE)
  obtain left right p' where r: "splitNode (blank 0) (blank 2) 1 [2] n p = Ret (left, right, p')"
    "split_result n 1 [2] (b_pid (blank 2)) left right" "keys p' = put 0 [2] (keys p)"
    "children p' = put 0 (b_pid n) ((children p)[0 := b_pid (blank 2)])"
    using splitNode_divides [OF n(1,8,9) raw_ok_blank [of 0] raw_ok_blank [of 2] disjI1 [OF n(2)] n(7,12)] by blast
  have "b_pid (blank 2) = 2" by (simp add: blank_def)
  then have "entries left = take 2 four" "entries right = drop 2 four" "b_link left = 2" "keys p' = [[2]]" "children p' = [1, 2]"
    using r(2-4) n(2,3,5,6,10,11) by (simp_all add: split_result_def put_def del: One_nat_def)
  then show ?thesis using r(1) n(4,11)
    by (intro exI [of _ n] exI [of _ p] exI [of _ left] exI [of _ right] exI [of _ p'] conjI)
qed

text \<open>
  C28: a merge of two neighbouring leaves returns; it takes place if and only if the size that the code
  computes for the merged leaf is at most that of a page, and then the left leaf has the entries of
  both, the fences from outside and the link of the right one, and the parent has lost the separator
  between them and the right leaf.
\<close>

theorem mergeNodes_joins:
  assumes "node_ok n" "node_ok right" "node_ok p" "child_ok p" "raw_ok raw" and "isLeaf n" "isLeaf right" "\<not> isLeaf p"
    and "fenced n" "fenced right" "upp_key n = low_key right" "low_key right \<noteq> []"
    and "length (low_key n) + length (upp_key right) \<le> 3984" and "i + 1 < b_count p" "children p ! i = b_pid n"
  shows "\<exists>b n' p'. mergeNodes raw i n p right = Ret (b, n', p') \<and> (b \<longleftrightarrow> merge_bound n right \<le> pageSize) \<and>
    (if b then merge_result n right n' \<and> node_ok p' \<and> child_ok p' \<and> same_frame p p' \<and> keys p' = cut i (keys p) \<and>
       children p' = cut (i + 1) (children p)
     else n' = n \<and> p' = p)"
  by (rule mergeNodes_ok [OF assms])

theorem mergeNodes_joins_witness:
  "\<exists>n right p n' p'. entries n = take 2 four \<and> entries right = drop 2 four \<and> children p = [1, 2, 3] \<and>
     mergeNodes (blank 0) 0 n p right = Ret (True, n', p') \<and> entries n' = four \<and> keys p' = [[2]] \<and> children p' = [1, 3]"
proof -
  obtain n right where "four_halves n right" using halves by blast
  then have n: "node_ok n" "node_ok right" "isLeaf n" "isLeaf right" "fenced n" "fenced right" "b_pid n = 1"
    "low_key n = []" "upp_key n = [2]" "low_key right = [2]" "upp_key right = []" "entries n = take 2 four" "entries right = drop 2 four"
    by (simp_all add: four_halves_def)
  obtain p where p: "node_ok p" "child_ok p" "\<not> isLeaf p" "keys p = [[1], [2]]" "children p = [1, 2, 3]"
    using two_separators by (elim exE conjE)
  have c: "b_count p = 2" "b_count n = 2" "b_count right = 2"
  proof -
    have "length (children p) = b_count p + 1" by simp
    then show "b_count p = 2" unfolding p(5) by simp
    have "length (entries n) = b_count n" "length (entries right) = b_count right" by simp_all
    then show "b_count n = 2" "b_count right = 2" unfolding n(12,13) four_def by simp_all
  qed
  have lay: "layout n" "layout right" using n(1,2) by (simp_all add: node_ok_def)
  have pl: "prefixLen n = 0" "prefixLen right = 0" using layoutD(9) [OF lay(1)] layoutD(9) [OF lay(2)] n(8-11) by simp_all
  have "spaceUsed n = 5" "spaceUsed right = 5"
    using layout_parts(4) [OF lay(1)] layout_parts(4) [OF lay(2)] fence_lengths(1,2) [OF lay(1)] fence_lengths(1,2) [OF lay(2)]
    by (simp_all add: n(8-13) pl four_def entry_size_def)
  then have b: "merge_bound n right \<le> pageSize" by (simp add: merge_bound_def c pl slotsEnd_def sizes)
  have pre: "upp_key n = low_key right" "low_key right \<noteq> []" "length (low_key n) + length (upp_key right) \<le> 3984"
    "0 + 1 < b_count p" "children p ! 0 = b_pid n" using n(7-11) p(5) c(1) by simp_all
  obtain m n' p' where r: "mergeNodes (blank 0) 0 n p right = Ret (m, n', p')" "m \<longleftrightarrow> merge_bound n right \<le> pageSize"
    "if m then merge_result n right n' \<and> node_ok p' \<and> child_ok p' \<and> same_frame p p' \<and> keys p' = cut 0 (keys p) \<and>
       children p' = cut (0 + 1) (children p) else n' = n \<and> p' = p"
    using mergeNodes_joins [OF n(1,2) p(1,2) raw_ok_blank [of 0] n(3,4) p(3) n(5,6) pre] by (elim exE conjE)
  have m: "m" using r(2) b by blast
  then have "merge_result n right n'" "keys p' = cut 0 (keys p)" "children p' = cut 1 (children p)" using r(3) by simp_all
  then have e: "entries n' = four" "keys p' = [[2]]" "children p' = [1, 3]"
    using n(12,13) unfolding p(4,5) by (simp_all add: merge_result_def cut_def)
  have "mergeNodes (blank 0) 0 n p right = Ret (True, n', p')" using r(1) m by simp
  then show ?thesis using e n(12,13) p(5)
    by (intro exI [of _ n] exI [of _ right] exI [of _ p] exI [of _ n'] exI [of _ p'] conjI)
qed

text \<open>
  C32: there is a leaf whose split cannot return. The separator is a fence of both halves, and
  nobody checks that the left half has room for it: for four keys of 970 bytes followed by four of
  one byte the separator is the fourth key, and the left half would have to hold the four keys and
  the separator.
\<close>

theorem crowded_leaf_stuck:
  assumes "leaf_ok p [] [] n" and "entries n = crowded"
  shows "\<exists>info sep. findSeparator False n = Ret info \<and> getSep info n = Ret sep \<and> sep_slot info = 3 \<and> sep = long_key 4 \<and>
    \<not> (\<exists>raw page parent res. raw_ok raw \<and> raw_ok page \<and> splitNode raw page (sep_slot info) sep n parent = Ret res)"
  by (rule crowded_fails [OF assms])

theorem crowded_leaf_stuck_witness:
  "\<exists>n info sep. leaf_ok 1 [] [] n \<and> findSeparator False n = Ret info \<and> getSep info n = Ret sep \<and>
     (\<forall>parent res. splitNode (blank 0) (blank 2) (sep_slot info) sep n parent \<noteq> Ret res)"
proof -
  obtain n where "leaf_ok 1 [] [] n" "entries n = crowded" using crowded_leaf by blast
  then show ?thesis using crowded_leaf_stuck [of 1 n] raw_ok_blank by blast
qed

end
