(* ===== verification/Io_Interfaces.thy ===== *)
theory Io_Interfaces
  imports Eviction "HOL-Library.Multiset"
begin

text \<open>
  \<open>uring_interface.hpp\<close>, the batch writer over \<open>io_uring\<close> that can take the place of
  \<open>libaio_interface.hpp\<close>, and the operations on one page of both. The library \<open>liburing\<close>, the
  kernel and the files behind them are a parameter: a record of the calls the source makes, over
  a state of the ring of any type. Its documented behaviour is \<open>ring_laws\<close>.
\<close>

section \<open>The library\<close>

text \<open>A request: the file, the frame of the buffer, the number of bytes and the offset.\<close>

datatype sqe =
    Write_Page int nat u32 u64
  | Read_Page int nat u32 u64
  | Dont_Need nat u64

text \<open>
  \<open>get_sqe\<close> is None for a null pointer; \<open>prep_sqe\<close> fills in the entry that was got last.
  \<open>submit_sqes\<close> and \<open>wait_cqe\<close> give the kernel the memory of the program. The latter returns
  the value of the call and the field \<open>res\<close> of the completion, or None if it waits for ever.
\<close>

record 'r uring =
  get_sqe :: "'r \<Rightarrow> 'r option"
  prep_sqe :: "sqe \<Rightarrow> 'r \<Rightarrow> 'r"
  submit_sqes :: "page list \<Rightarrow> 'r \<Rightarrow> int \<times> page list \<times> 'r"
  wait_cqe :: "page list \<Rightarrow> 'r \<Rightarrow> ((int \<times> int) \<times> page list \<times> 'r) option"
  cqe_seen :: "'r \<Rightarrow> 'r"

section \<open>The interface\<close>

definition pageSize :: u64 where "pageSize = 4096"

definition uring_maxIOs :: nat where "uring_maxIOs = 1024"

text \<open>The interface, the memory its page pointers point into, and what it has printed.\<close>

record 'r uring_if =
  fds :: "int list"
  ring :: 'r
  mem :: "page list"
  printed :: "int list"

definition uring_new :: "(nat \<Rightarrow> int \<times> 'r) \<Rightarrow> int list \<Rightarrow> page list \<Rightarrow> 'r uring_if run" where
  "uring_new queue_init files m =
     (case queue_init uring_maxIOs of (ret, r) \<Rightarrow>
        if ret < 0 then Err (Fatal ''io_uring_queue_init error'')
        else Ret \<lparr>fds = files, ring = r, mem = m, printed = []\<rparr>)"

definition uring_getFileAndIndex :: "'r uring_if \<Rightarrow> PID \<Rightarrow> (u64 \<times> u64) run" where
  "uring_getFileAndIndex s pid =
     (let n = of_nat (length (fds s))
      in if n = 0 then Err (Fatal ''division by zero'') else Ret (pid mod n, pid div n))"

definition uring_clean :: "nat \<Rightarrow> 'r uring_if \<Rightarrow> 'r uring_if run" where
  "uring_clean x s = bind_run (aget (mem s) x) (\<lambda>p. Ret (s\<lparr>mem := (mem s)[x := p\<lparr>dirty := False\<rparr>]\<rparr>))"

text \<open>\<open>io_uring_get_sqe\<close> with its check for null.\<close>

definition uring_sqe :: "'r uring \<Rightarrow> 'r uring_if \<Rightarrow> 'r uring_if run" where
  "uring_sqe U s =
     (case get_sqe U (ring s) of
        None \<Rightarrow> Err (Fatal ''io_uring_get_sqe failed'')
      | Some r \<Rightarrow> Ret (s\<lparr>ring := r\<rparr>))"

definition uring_prep_rw :: "'r uring \<Rightarrow> (int \<Rightarrow> nat \<Rightarrow> u32 \<Rightarrow> u64 \<Rightarrow> sqe) \<Rightarrow> u64 \<times> u64 \<Rightarrow> nat \<Rightarrow>
    'r uring_if \<Rightarrow> 'r uring_if run" where
  "uring_prep_rw U op fileAndIndex x s =
     bind_run (aget (fds s) (unat (fst fileAndIndex))) (\<lambda>fd.
       Ret (s\<lparr>ring := prep_sqe U (op fd x (ucast pageSize) (pageSize * snd fileAndIndex)) (ring s)\<rparr>))"

definition uring_submit :: "'r uring \<Rightarrow> nat \<Rightarrow> string \<Rightarrow> 'r uring_if \<Rightarrow> 'r uring_if run" where
  "uring_submit U n msg s =
     (case submit_sqes U (mem s) (ring s) of (submitted, m, r) \<Rightarrow>
        if submitted < 0 then Err (Fatal ''io_uring_submit error'')
        else check (submitted = int n) msg (Ret (s\<lparr>mem := m, ring := r\<rparr>)))"

text \<open>One completion: its field \<open>res\<close>, which says whether the request succeeded, is not read.\<close>

definition uring_wait :: "'r uring \<Rightarrow> 'r uring_if \<Rightarrow> 'r uring_if run" where
  "uring_wait U s =
     (case wait_cqe U (mem s) (ring s) of
        None \<Rightarrow> Loop
      | Some ((ret, _), m, r) \<Rightarrow>
          if ret < 0 then Err (Fatal ''io_uring_wait_cqe error'')
          else Ret (s\<lparr>mem := m, ring := cqe_seen U r\<rparr>))"

fun uring_prep_batch :: "'r uring \<Rightarrow> PID list \<Rightarrow> nat list \<Rightarrow> 'r uring_if \<Rightarrow> 'r uring_if run" where
  "uring_prep_batch U pids [] s = Ret s"
| "uring_prep_batch U [] (x # xs) s = Err (OutOfBounds 0 0)"
| "uring_prep_batch U (pid # pids) (x # xs) s =
     bind_run (uring_clean x s) (\<lambda>s.
     bind_run (uring_sqe U s) (\<lambda>s.
     bind_run (uring_getFileAndIndex s pid) (\<lambda>fi.
     bind_run (uring_prep_rw U Write_Page fi x s) (uring_prep_batch U pids xs))))"

fun uring_reap :: "'r uring \<Rightarrow> nat \<Rightarrow> 'r uring_if \<Rightarrow> 'r uring_if run" where
  "uring_reap U 0 s = Ret s"
| "uring_reap U (Suc pending) s = bind_run (uring_wait U s) (uring_reap U pending)"

definition uring_writePages :: "'r uring \<Rightarrow> PID list \<Rightarrow> nat list \<Rightarrow> 'r uring_if \<Rightarrow> 'r uring_if run" where
  "uring_writePages U pids pages s =
     check (length pages \<le> uring_maxIOs) ''pages.size() <= maxIOs''
       (bind_run (uring_prep_batch U pids pages s) (\<lambda>s.
        bind_run (uring_submit U (length pages) ''submitted == static_cast<int>(pages.size())'' s)
          (uring_reap U (length pages))))"

definition uring_writePage :: "'r uring \<Rightarrow> PID \<Rightarrow> nat \<Rightarrow> 'r uring_if \<Rightarrow> 'r uring_if run" where
  "uring_writePage U pid page s =
     bind_run (uring_getFileAndIndex s pid) (\<lambda>fi.
     bind_run (uring_clean page s) (\<lambda>s.
     bind_run (uring_sqe U s) (\<lambda>s.
     bind_run (uring_prep_rw U Write_Page fi page s) (\<lambda>s.
     bind_run (uring_submit U 1 ''submitted == 1'' s) (uring_wait U)))))"

definition uring_readPage :: "'r uring \<Rightarrow> PID \<Rightarrow> nat \<Rightarrow> 'r uring_if \<Rightarrow> (int \<times> 'r uring_if) run" where
  "uring_readPage U pid page s =
     bind_run (uring_getFileAndIndex s pid) (\<lambda>fi.
     bind_run (uring_sqe U s) (\<lambda>s.
     bind_run (uring_prep_rw U Read_Page fi page s) (\<lambda>s.
     bind_run (uring_submit U 1 ''submitted == 1'' s) (\<lambda>s.
     bind_run (uring_wait U s) (\<lambda>s. Ret (1, s))))))"

text \<open>
  \<open>madvDontneed\<close> compares the number of submitted requests with nothing; a completion that
  failed is printed.
\<close>

fun uring_prep_dontneed :: "'r uring \<Rightarrow> nat list \<Rightarrow> 'r uring_if \<Rightarrow> 'r uring_if run" where
  "uring_prep_dontneed U [] s = Ret s"
| "uring_prep_dontneed U (x # xs) s =
     (case get_sqe U (ring s) of
        None \<Rightarrow> Err (Fatal ''io_uring_get_sqe'')
      | Some r \<Rightarrow> uring_prep_dontneed U xs (s\<lparr>ring := prep_sqe U (Dont_Need x pageSize) r\<rparr>))"

fun uring_reap_dontneed :: "'r uring \<Rightarrow> nat \<Rightarrow> 'r uring_if \<Rightarrow> 'r uring_if run" where
  "uring_reap_dontneed U 0 s = Ret s"
| "uring_reap_dontneed U (Suc n) s =
     (case wait_cqe U (mem s) (ring s) of
        None \<Rightarrow> Loop
      | Some ((ret, outcome), m, r) \<Rightarrow>
          if ret < 0 then Err (Fatal ''io_uring_wait_cqe'')
          else uring_reap_dontneed U n
                 (s\<lparr>mem := m, ring := cqe_seen U r, printed := printed s @ (if outcome < 0 then [- outcome] else [])\<rparr>))"

definition uring_madvDontneed :: "'r uring \<Rightarrow> nat list \<Rightarrow> 'r uring_if \<Rightarrow> 'r uring_if run" where
  "uring_madvDontneed U pages s =
     (if pages = [] then Ret s
      else bind_run (uring_prep_dontneed U pages s) (\<lambda>s.
        case submit_sqes U (mem s) (ring s) of (submitted, m, r) \<Rightarrow>
          if submitted < 0 then Err (Fatal ''io_uring_submit'')
          else uring_reap_dontneed U (length pages) (s\<lparr>mem := m, ring := r\<rparr>)))"

section \<open>The build with \<open>USE_POSIX_IO\<close>\<close>

text \<open>
  \<open>pwrite\<close> and \<open>pread\<close> on a file, a frame of the memory, a number of bytes and an offset.
  \<open>page + written\<close> adds to a pointer of type \<open>Page*\<close>: the frame \<open>written\<close> places further.
\<close>

record 'r posix =
  pwrite :: "int \<Rightarrow> nat \<Rightarrow> u64 \<Rightarrow> u64 \<Rightarrow> page list \<Rightarrow> 'r \<Rightarrow> int \<times> 'r"
  pread :: "int \<Rightarrow> nat \<Rightarrow> u64 \<Rightarrow> u64 \<Rightarrow> page list \<Rightarrow> 'r \<Rightarrow> int \<times> page list \<times> 'r"
  madvise_dontneed :: "nat \<Rightarrow> u64 \<Rightarrow> page list \<Rightarrow> 'r \<Rightarrow> page list \<times> 'r"

fun posix_write_loop :: "nat \<Rightarrow> 'r posix \<Rightarrow> int \<Rightarrow> nat \<Rightarrow> u64 \<Rightarrow> u64 \<Rightarrow> 'r uring_if \<Rightarrow> 'r uring_if run" where
  "posix_write_loop 0 P fd page index written s = Loop"
| "posix_write_loop (Suc fuel) P fd page index written s =
     (if written < pageSize then
        case pwrite P fd (page + unat written) (pageSize - written) (pageSize * index + written) (mem s) (ring s) of
          (result, r) \<Rightarrow>
            if result < 0 then Err (Fatal ''write error'')
            else posix_write_loop fuel P fd page index (written + of_int result) (s\<lparr>ring := r\<rparr>)
      else Ret s)"

definition posix_writePage :: "nat \<Rightarrow> 'r posix \<Rightarrow> PID \<Rightarrow> nat \<Rightarrow> 'r uring_if \<Rightarrow> 'r uring_if run" where
  "posix_writePage fuel P pid page s =
     bind_run (uring_getFileAndIndex s pid) (\<lambda>fi.
     bind_run (uring_clean page s) (\<lambda>s.
     bind_run (aget (fds s) (unat (fst fi))) (\<lambda>fd. posix_write_loop fuel P fd page (snd fi) 0 s)))"

fun posix_writePages :: "nat \<Rightarrow> 'r posix \<Rightarrow> PID list \<Rightarrow> nat list \<Rightarrow> 'r uring_if \<Rightarrow> 'r uring_if run" where
  "posix_writePages fuel P [] pages s = Ret s"
| "posix_writePages fuel P (pid # pids) [] s = Err (OutOfBounds 0 0)"
| "posix_writePages fuel P (pid # pids) (x # xs) s =
     bind_run (posix_writePage fuel P pid x s) (posix_writePages fuel P pids xs)"

definition posix_readPage :: "'r posix \<Rightarrow> PID \<Rightarrow> nat \<Rightarrow> 'r uring_if \<Rightarrow> (int \<times> 'r uring_if) run" where
  "posix_readPage P pid page s =
     bind_run (uring_getFileAndIndex s pid) (\<lambda>fi.
     bind_run (aget (fds s) (unat (fst fi))) (\<lambda>fd.
       case pread P fd page pageSize (pageSize * snd fi) (mem s) (ring s) of (n, m, r) \<Rightarrow>
         Ret (if n > 0 then 1 else 0, s\<lparr>mem := m, ring := r\<rparr>)))"

fun posix_madvDontneed :: "'r posix \<Rightarrow> nat list \<Rightarrow> 'r uring_if \<Rightarrow> 'r uring_if" where
  "posix_madvDontneed P [] s = s"
| "posix_madvDontneed P (x # xs) s =
     (case madvise_dontneed P x pageSize (mem s) (ring s) of (m, r) \<Rightarrow>
        posix_madvDontneed P xs (s\<lparr>mem := m, ring := r\<rparr>))"

text \<open>
  A device that writes a page at once is called once. After a short write the next call takes
  another frame, and where the pool has none the write is fatal.
\<close>

lemma posix_full_write:
  "pwrite P fd page 4096 (4096 * index) (mem s) (ring s) = (4096, r) \<Longrightarrow>
    posix_write_loop (Suc (Suc fuel)) P fd page index 0 s = Ret (s\<lparr>ring := r\<rparr>)"
  by (simp add: pageSize_def)

lemma posix_short_write:
  assumes "pwrite P fd page 4096 (4096 * index) (mem s) (ring s) = (k, r)" and "0 < k" "k < 4096"
    and fault: "\<And>fd x n off m r. length m \<le> x \<Longrightarrow> fst (pwrite P fd x n off m r) < 0"
    and "length (mem s) \<le> page + nat k"
  shows "posix_write_loop (Suc (Suc fuel)) P fd page index 0 s = Err (Fatal ''write error'')"
proof -
  have u: "uint (of_int k :: u64) = k" using assms(2,3) by (simp add: uint_word_of_int)
  then have k: "unat (of_int k :: u64) = nat k" "(of_int k :: u64) < 4096"
    using assms(3) by (simp_all add: unat_eq_nat_uint word_less_alt)
  define off where "off = 4096 * index + (of_int k :: u64)"
  obtain c r' where c: "pwrite P fd (page + nat k) (4096 - of_int k) off (mem s) r = (c, r')" by fastforce
  have "fst (pwrite P fd (page + nat k) (4096 - of_int k) off (mem s) r) < 0" by (rule fault [OF assms(5)])
  then have "c < 0" by (simp add: c)
  then show ?thesis using assms(1) k c by (simp add: pageSize_def off_def)
qed

section \<open>One page through libaio\<close>

text \<open>On the state of the manager, as \<open>writePages\<close>; a read behind the end of a file reads nothing.\<close>

definition libaio_writePage :: "PID \<Rightarrow> nat \<Rightarrow> bm \<Rightarrow> bm run" where
  "libaio_writePage pid x s =
     bind_run (upd_page x (\<lambda>p. p\<lparr>dirty := False\<rparr>) s) (\<lambda>s.
       check (io_submit s 1 = 1) ''cnt == 1'' (do_writes [(pid, x)] s))"

definition libaio_readPage :: "PID \<Rightarrow> nat \<Rightarrow> bm \<Rightarrow> (int \<times> bm) run" where
  "libaio_readPage pid x s =
     check (io_submit s 1 = 1) ''cnt == 1''
       (case disk s (getFileAndIndex (blockfds s) pid) of
          None \<Rightarrow> Ret (1, s)
        | Some p \<Rightarrow> bind_run (upd_page x (\<lambda>_. p) s) (\<lambda>s. Ret (1, s)))"

lemma libaio_writePage_batch: "libaio_writePage pid x s = Ret s' \<longleftrightarrow> writePages [(pid, x)] s = Ret s'"
  by (cases "upd_page x (\<lambda>p. p\<lparr>dirty := False\<rparr>) s")
    (simp_all add: libaio_writePage_def writePages_def maxIOs_def check_eq_Ret)

section \<open>What the library promises\<close>

type_synonym files = "int \<times> u64 \<Rightarrow> page option"

definition zero_page :: page where
  "zero_page = \<lparr>dirty = False, ppid = 0, body = replicate 4080 0\<rparr>"

text \<open>What a request for a whole page does to the memory and the files.\<close>

fun perform :: "sqe \<Rightarrow> page list \<times> files \<Rightarrow> page list \<times> files" where
  "perform (Write_Page fd x n off) (m, f) = (m, f((fd, off) \<mapsto> m ! x))"
| "perform (Read_Page fd x n off) (m, f) = (case f (fd, off) of None \<Rightarrow> (m, f) | Some p \<Rightarrow> (m[x := p], f))"
| "perform (Dont_Need x n) (m, f) = (m[x := zero_page], f)"

text \<open>The requests that are prepared, those that are submitted and not reaped, and the files.\<close>

record 'r ring_view =
  queued :: "'r \<Rightarrow> sqe list"
  inflight :: "'r \<Rightarrow> sqe multiset"
  on_disk :: "'r \<Rightarrow> files"

text \<open>
  The ring has room for \<open>depth\<close> prepared requests; submitting takes all of them; every
  submitted request completes once, in any order, with the value \<open>outcome\<close> and the effect \<open>act\<close>.
  \<open>act = perform\<close> is a device that works.
\<close>

definition ring_laws :: "'r uring \<Rightarrow> 'r ring_view \<Rightarrow> nat \<Rightarrow>
    (sqe \<Rightarrow> page list \<times> files \<Rightarrow> page list \<times> files) \<Rightarrow> int \<Rightarrow> bool" where
  "ring_laws U v depth act outcome \<longleftrightarrow>
     (\<forall>r. length (queued v r) < depth \<longrightarrow> (\<exists>r'. get_sqe U r = Some r' \<and>
        (\<forall>e. queued v (prep_sqe U e r') = queued v r @ [e] \<and> inflight v (prep_sqe U e r') = inflight v r \<and>
             on_disk v (prep_sqe U e r') = on_disk v r))) \<and>
     (\<forall>m r. \<exists>r'. submit_sqes U m r = (int (length (queued v r)), m, r') \<and> queued v r' = [] \<and>
        inflight v r' = inflight v r + mset (queued v r) \<and> on_disk v r' = on_disk v r) \<and>
     (\<forall>m r. inflight v r \<noteq> {#} \<longrightarrow> (\<exists>e m' r'. wait_cqe U m r = Some ((0, outcome), m', r') \<and>
        inflight v r = add_mset e (inflight v (cqe_seen U r')) \<and> queued v (cqe_seen U r') = queued v r \<and>
        act e (m, on_disk v r) = (m', on_disk v (cqe_seen U r'))))"

lemma ring_lawsD:
  assumes "ring_laws U v depth act outcome"
  shows "length (queued v r) < depth \<Longrightarrow> \<exists>r'. get_sqe U r = Some r' \<and>
        (\<forall>e. queued v (prep_sqe U e r') = queued v r @ [e] \<and> inflight v (prep_sqe U e r') = inflight v r \<and>
             on_disk v (prep_sqe U e r') = on_disk v r)"
    and "\<exists>r'. submit_sqes U m r = (int (length (queued v r)), m, r') \<and> queued v r' = [] \<and>
        inflight v r' = inflight v r + mset (queued v r) \<and> on_disk v r' = on_disk v r"
    and "inflight v r \<noteq> {#} \<Longrightarrow> \<exists>e m' r'. wait_cqe U m r = Some ((0, outcome), m', r') \<and>
        inflight v r = add_mset e (inflight v (cqe_seen U r')) \<and> queued v (cqe_seen U r') = queued v r \<and>
        act e (m, on_disk v r) = (m', on_disk v (cqe_seen U r'))"
  using assms unfolding ring_laws_def by blast+

text \<open>The ring as the operations find it and leave it.\<close>

definition idle :: "'r ring_view \<Rightarrow> 'r uring_if \<Rightarrow> bool" where
  "idle v s \<longleftrightarrow> queued v (ring s) = [] \<and> inflight v (ring s) = {#}"

definition place :: "int list \<Rightarrow> PID \<Rightarrow> int \<times> u64" where
  "place fs pid = (fs ! unat (pid mod of_nat (length fs)), 4096 * (pid div of_nat (length fs)))"

definition write_req :: "int list \<Rightarrow> PID \<times> nat \<Rightarrow> sqe" where
  "write_req fs w = Write_Page (fst (place fs (fst w))) (snd w) 4096 (snd (place fs (fst w)))"

section \<open>A batch is prepared, submitted and reaped\<close>

definition fds_ok :: "int list \<Rightarrow> bool" where
  "fds_ok fs \<longleftrightarrow> fs \<noteq> [] \<and> length fs < 2 ^ 64"

lemma fds_okD:
  assumes "fds_ok fs"
  shows "of_nat (length fs) \<noteq> (0::u64)" "unat (pid mod of_nat (length fs) :: u64) < length fs"
proof -
  have n: "unat (of_nat (length fs) :: u64) = length fs" using assms by (simp add: fds_ok_def unat_of_nat)
  then show "of_nat (length fs) \<noteq> (0::u64)" using assms by (metis fds_ok_def length_0_conv unat_0)
  show "unat (pid mod of_nat (length fs) :: u64) < length fs"
    using assms by (simp add: unat_mod n fds_ok_def)
qed

lemma getFileAndIndex_ok:
  "fds_ok (fds s) \<Longrightarrow> uring_getFileAndIndex s pid = Ret (pid mod of_nat (length (fds s)), pid div of_nat (length (fds s)))"
  using fds_okD(1) by (simp add: uring_getFileAndIndex_def Let_def)

lemma prep_one:
  assumes "ring_laws U v depth act outcome" and "length (queued v (ring s)) < depth" and "fds_ok (fds s)"
  shows "\<exists>r. get_sqe U (ring s) = Some r \<and> (\<forall>op x. \<exists>r'.
     uring_prep_rw U op (pid mod of_nat (length (fds s)), pid div of_nat (length (fds s))) x (s\<lparr>ring := r\<rparr>) = Ret (s\<lparr>ring := r'\<rparr>) \<and>
     queued v r' = queued v (ring s) @ [op (fst (place (fds s) pid)) x 4096 (snd (place (fds s) pid))] \<and>
     inflight v r' = inflight v (ring s) \<and> on_disk v r' = on_disk v (ring s))"
proof -
  obtain r where r: "get_sqe U (ring s) = Some r" "\<And>e. queued v (prep_sqe U e r) = queued v (ring s) @ [e]"
    "\<And>e. inflight v (prep_sqe U e r) = inflight v (ring s)" "\<And>e. on_disk v (prep_sqe U e r) = on_disk v (ring s)"
    using ring_lawsD(1) [OF assms(1,2)] by blast
  then show ?thesis using fds_okD(2) [OF assms(3)] by (auto simp: uring_prep_rw_def place_def pageSize_def)
qed

lemma prep_batch_ok:
  assumes "ring_laws U v depth act outcome" and "fds_ok (fds s)"
    and "length (queued v (ring s)) + length ws \<le> depth" and "\<forall>w \<in> set ws. snd w < length (mem s)"
  shows "\<exists>r. uring_prep_batch U (map fst ws) (map snd ws) s = Ret (s\<lparr>mem := cleaned (snd ` set ws) (mem s), ring := r\<rparr>) \<and>
    queued v r = queued v (ring s) @ map (write_req (fds s)) ws \<and> inflight v r = inflight v (ring s) \<and>
    on_disk v r = on_disk v (ring s)"
  using assms(2-)
proof (induction ws arbitrary: s)
  case (Cons w ws)
  obtain p x where w: "w = (p, x)" by fastforce
  define s1 where "s1 = s\<lparr>mem := (mem s)[x := (mem s ! x)\<lparr>dirty := False\<rparr>]\<rparr>"
  have c: "uring_clean x s = Ret s1" using Cons.prems(3) by (simp add: uring_clean_def w s1_def)
  have q: "length (queued v (ring s1)) < depth" "fds_ok (fds s1)" using Cons.prems(1,2) by (simp_all add: s1_def)
  obtain r r' where r: "get_sqe U (ring s1) = Some r"
    and r': "uring_prep_rw U Write_Page (p mod of_nat (length (fds s1)), p div of_nat (length (fds s1))) x (s1\<lparr>ring := r\<rparr>) = Ret (s1\<lparr>ring := r'\<rparr>)"
      "queued v r' = queued v (ring s) @ [write_req (fds s) w]" "inflight v r' = inflight v (ring s)"
      "on_disk v r' = on_disk v (ring s)"
    using prep_one [OF assms(1) q, of p] by (force simp: write_req_def s1_def w)
  define s2 where "s2 = s1\<lparr>ring := r'\<rparr>"
  have "uring_prep_batch U (map fst (w # ws)) (map snd (w # ws)) s = uring_prep_batch U (map fst ws) (map snd ws) s2"
    using c r r'(1) getFileAndIndex_ok [of "s1\<lparr>ring := r\<rparr>" p] q(2) by (simp add: w uring_sqe_def s2_def)
  moreover have "cleaned (snd ` set ws) (mem s2) = cleaned (snd ` set (w # ws)) (mem s)"
    using Cons.prems(3) by (simp add: w s1_def s2_def cleaned_insert)
  ultimately show ?case
    using Cons.IH [of s2] Cons.prems r'(2-) by (auto simp: s2_def s1_def)
next
  case Nil
  show ?case by (intro exI [of _ "ring s"]) simp
qed

lemma wait_ok:
  assumes "ring_laws U v depth act outcome" and "inflight v (ring s) \<noteq> {#}"
  shows "\<exists>e m r. uring_wait U s = Ret (s\<lparr>mem := m, ring := r\<rparr>) \<and> inflight v (ring s) = add_mset e (inflight v r) \<and>
    queued v r = queued v (ring s) \<and> act e (mem s, on_disk v (ring s)) = (m, on_disk v r)"
  using ring_lawsD(3) [OF assms(1), of "ring s" "mem s"] assms(2) by (force simp: uring_wait_def)

lemma reap_ok:
  assumes "ring_laws U v depth act outcome" and "size (inflight v (ring s)) = n"
  shows "\<exists>es m r. uring_reap U n s = Ret (s\<lparr>mem := m, ring := r\<rparr>) \<and> mset es = inflight v (ring s) \<and>
    inflight v r = {#} \<and> queued v r = queued v (ring s) \<and> fold act es (mem s, on_disk v (ring s)) = (m, on_disk v r)"
  using assms(2)
proof (induction n arbitrary: s)
  case 0
  then show ?case by (intro exI [of _ "[]"] exI [of _ "mem s"] exI [of _ "ring s"]) simp
next
  case (Suc n)
  then have "inflight v (ring s) \<noteq> {#}" by auto
  from wait_ok [OF assms(1) this] obtain e m1 r1 where w: "uring_wait U s = Ret (s\<lparr>mem := m1, ring := r1\<rparr>)"
    "inflight v (ring s) = add_mset e (inflight v r1)" "queued v r1 = queued v (ring s)"
    "act e (mem s, on_disk v (ring s)) = (m1, on_disk v r1)" by blast
  have "size (inflight v (ring (s\<lparr>mem := m1, ring := r1\<rparr>))) = n" using Suc.prems w(2) by simp
  from Suc.IH [OF this] obtain es m r where r: "uring_reap U n (s\<lparr>mem := m1, ring := r1\<rparr>) = Ret (s\<lparr>mem := m, ring := r\<rparr>)"
    "mset es = inflight v r1" "inflight v r = {#}" "queued v r = queued v r1" "fold act es (m1, on_disk v r1) = (m, on_disk v r)"
    by auto
  then show ?case using w by (intro exI [of _ "e # es"] exI [of _ m] exI [of _ r]) simp
qed

lemma submit_ok:
  assumes "ring_laws U v depth act outcome" and "length (queued v (ring s)) = n"
  shows "\<exists>r. (\<forall>msg. uring_submit U n msg s = Ret (s\<lparr>ring := r\<rparr>)) \<and> queued v r = [] \<and>
    inflight v r = inflight v (ring s) + mset (queued v (ring s)) \<and> on_disk v r = on_disk v (ring s)"
  using ring_lawsD(2) [OF assms(1), of "mem s" "ring s"] assms(2) by (force simp: uring_submit_def)

lemma writePages_runs:
  assumes laws: "ring_laws U v uring_maxIOs act outcome" and "fds_ok (fds s)" and "idle v s"
    and "length ws \<le> uring_maxIOs" and "\<forall>w \<in> set ws. snd w < length (mem s)"
  shows "\<exists>es m r. uring_writePages U (map fst ws) (map snd ws) s = Ret (s\<lparr>mem := m, ring := r\<rparr>) \<and>
    mset es = mset (map (write_req (fds s)) ws) \<and> idle v (s\<lparr>mem := m, ring := r\<rparr>) \<and>
    fold act es (cleaned (snd ` set ws) (mem s), on_disk v (ring s)) = (m, on_disk v r)"
proof -
  have q: "queued v (ring s) = []" "inflight v (ring s) = {#}" using assms(3) by (simp_all add: idle_def)
  define s1 where "s1 r = s\<lparr>mem := cleaned (snd ` set ws) (mem s), ring := r\<rparr>" for r
  from prep_batch_ok [OF laws assms(2) _ assms(5)] assms(4) q obtain r1 where r1:
    "uring_prep_batch U (map fst ws) (map snd ws) s = Ret (s1 r1)"
    "queued v r1 = map (write_req (fds s)) ws" "inflight v r1 = {#}" "on_disk v r1 = on_disk v (ring s)"
    by (auto simp: s1_def)
  from submit_ok [OF laws, of "s1 r1" "length ws"] r1(2-) obtain r2 where r2:
    "\<And>msg. uring_submit U (length ws) msg (s1 r1) = Ret (s1 r2)" "queued v r2 = []"
    "inflight v r2 = mset (map (write_req (fds s)) ws)" "on_disk v r2 = on_disk v (ring s)"
    by (auto simp: s1_def)
  from reap_ok [OF laws, of "s1 r2" "length ws"] r2(2-) obtain es m r where r:
    "uring_reap U (length ws) (s1 r2) = Ret (s\<lparr>mem := m, ring := r\<rparr>)" "mset es = mset (map (write_req (fds s)) ws)"
    "inflight v r = {#}" "queued v r = []"
    "fold act es (cleaned (snd ` set ws) (mem s), on_disk v (ring s)) = (m, on_disk v r)"
    by (auto simp: s1_def)
  have "uring_writePages U (map fst ws) (map snd ws) s = Ret (s\<lparr>mem := m, ring := r\<rparr>)"
    using assms(4) r1(1) r2(1) r(1) by (simp add: uring_writePages_def)
  then show ?thesis using r by (auto simp: idle_def)
qed

section \<open>Batches on a device that works\<close>

text \<open>Completions of writes to different places commute.\<close>

fun target :: "sqe \<Rightarrow> int \<times> u64" where
  "target (Write_Page fd x n off) = (fd, off)"
| "target (Read_Page fd x n off) = (fd, off)"
| "target (Dont_Need x n) = (0, 0)"

lemma fold_writes:
  assumes "\<forall>e \<in> set es. \<exists>fd x n off. e = Write_Page fd x n off" and "distinct (map target es)"
  shows "\<exists>f'. fold perform es (m, f) = (m, f') \<and> (\<forall>l. l \<notin> target ` set es \<longrightarrow> f' l = f l) \<and>
    (\<forall>fd x n off. Write_Page fd x n off \<in> set es \<longrightarrow> f' (fd, off) = Some (m ! x))"
  using assms
proof (induction es arbitrary: f)
  case (Cons e es)
  obtain fd x n off where e: "e = Write_Page fd x n off" using Cons.prems(1) by auto
  have "\<exists>f'. fold perform es (m, f((fd, off) \<mapsto> m ! x)) = (m, f') \<and>
      (\<forall>l. l \<notin> target ` set es \<longrightarrow> f' l = (f((fd, off) \<mapsto> m ! x)) l) \<and>
      (\<forall>fd x n off. Write_Page fd x n off \<in> set es \<longrightarrow> f' (fd, off) = Some (m ! x))"
    by (rule Cons.IH) (use Cons.prems in auto)
  then obtain f' where f':
    "fold perform es (m, f((fd, off) \<mapsto> m ! x)) = (m, f')" "\<And>l. l \<notin> target ` set es \<Longrightarrow> f' l = (f((fd, off) \<mapsto> m ! x)) l"
    "\<And>fd x n off. Write_Page fd x n off \<in> set es \<Longrightarrow> f' (fd, off) = Some (m ! x)" by blast
  moreover have "(fd, off) \<notin> target ` set es" using Cons.prems(2) by (simp add: e)
  ultimately show ?case by (intro exI [of _ f']) (auto simp: e)
qed simp

lemma page_offset_inj:
  assumes "i < 2 ^ 52" and "j < 2 ^ 52" and "4096 * i = (4096 * j :: u64)"
  shows "i = j"
proof -
  have u: "unat (4096 * i :: u64) = 4096 * unat i" if "i < 2 ^ 52" for i :: u64
  proof -
    have "unat i < 2 ^ 52" using that unat_mono by fastforce
    then show ?thesis by (simp add: unat_word_ariths)
  qed
  have "4096 * unat i = 4096 * unat j" using u [OF assms(1)] u [OF assms(2)] assms(3) by simp
  then show ?thesis by (simp add: word_unat_eq_iff)
qed

lemma place_loc:
  assumes "fds_ok fs" and "distinct fs" and "k < length fs" and "i < 2 ^ 52" and "p div of_nat (length fs) < 2 ^ 52"
  shows "(fs ! k, 4096 * i) = place fs p \<longleftrightarrow> (of_nat k, i) = getFileAndIndex (of_nat (length fs)) p"
proof -
  have k: "unat (of_nat k :: u64) = k" using assms(1,3) by (simp add: fds_ok_def unat_of_nat)
  have "fs ! k = fs ! unat (p mod of_nat (length fs) :: u64) \<longleftrightarrow> k = unat (p mod of_nat (length fs) :: u64)"
    using nth_eq_iff_index_eq [OF assms(2,3) fds_okD(2) [OF assms(1)]] .
  also have "\<dots> \<longleftrightarrow> of_nat k = p mod of_nat (length fs)" using k by (metis word_unat_eq_iff)
  finally show ?thesis using page_offset_inj [OF assms(4,5)] by (auto simp: place_def getFileAndIndex_def)
qed

text \<open>A batch: every page once, in frames of the pool, at offsets that do not wrap around.\<close>

definition batch_ok :: "int list \<Rightarrow> page list \<Rightarrow> (PID \<times> nat) list \<Rightarrow> bool" where
  "batch_ok fs m ws \<longleftrightarrow> fds_ok fs \<and> distinct fs \<and> distinct (map fst ws) \<and>
     (\<forall>w \<in> set ws. snd w < length m \<and> fst w div of_nat (length fs) < 2 ^ 52)"

lemma place_inj:
  assumes "fds_ok fs" and "distinct fs" and "p div of_nat (length fs) < 2 ^ 52" and "q div of_nat (length fs) < 2 ^ 52"
    and "place fs p = place fs q"
  shows "p = q"
proof -
  have e: "(fs ! unat (p mod of_nat (length fs) :: u64), 4096 * (p div of_nat (length fs))) = place fs q"
    using assms(5) by (simp add: place_def)
  have "(of_nat (unat (p mod of_nat (length fs) :: u64)), p div of_nat (length fs)) = getFileAndIndex (of_nat (length fs)) q"
    by (rule iffD1 [OF place_loc [OF assms(1,2) fds_okD(2) [OF assms(1)] assms(3,4)] e])
  then have "getFileAndIndex (of_nat (length fs)) p = getFileAndIndex (of_nat (length fs)) q"
    by (simp add: getFileAndIndex_def)
  moreover have "0 < (of_nat (length fs) :: u64)" using fds_okD(1) [OF assms(1)] by (simp add: word_neq_0_conv)
  ultimately show ?thesis using loc_inj by blast
qed

lemma writePages_works:
  assumes "ring_laws U v uring_maxIOs perform outcome" and "idle v s" and ws: "batch_ok (fds s) (mem s) ws"
    and "length ws \<le> uring_maxIOs"
  shows "\<exists>r. uring_writePages U (map fst ws) (map snd ws) s = Ret (s\<lparr>mem := cleaned (snd ` set ws) (mem s), ring := r\<rparr>) \<and>
    idle v (s\<lparr>ring := r\<rparr>) \<and>
    (\<forall>w \<in> set ws. on_disk v r (place (fds s) (fst w)) = Some ((mem s ! snd w)\<lparr>dirty := False\<rparr>)) \<and>
    (\<forall>l. l \<notin> place (fds s) ` fst ` set ws \<longrightarrow> on_disk v r l = on_disk v (ring s) l)"
proof -
  have B: "fds_ok (fds s)" "distinct (fds s)" "distinct (map fst ws)" "\<forall>w \<in> set ws. snd w < length (mem s)"
    "\<And>p. p \<in> fst ` set ws \<Longrightarrow> p div of_nat (length (fds s)) < 2 ^ 52" using ws by (auto simp: batch_ok_def)
  from writePages_runs [OF assms(1) B(1) assms(2,4) B(4)] obtain es m r where r:
    "uring_writePages U (map fst ws) (map snd ws) s = Ret (s\<lparr>mem := m, ring := r\<rparr>)"
    "mset es = mset (map (write_req (fds s)) ws)" "idle v (s\<lparr>ring := r\<rparr>)"
    "fold perform es (cleaned (snd ` set ws) (mem s), on_disk v (ring s)) = (m, on_disk v r)"
    by (auto simp: idle_def)
  have es: "set es = write_req (fds s) ` set ws" using mset_eq_setD [OF r(2)] by simp
  have tg: "target (write_req (fds s) w) = place (fds s) (fst w)" for w by (simp add: write_req_def)
  have "distinct (map (place (fds s)) (map fst ws))"
    using B(3) place_inj [OF B(1,2) B(5) B(5)] unfolding distinct_map by (auto simp: inj_on_def)
  moreover have "mset (map target es) = mset (map (place (fds s)) (map fst ws))"
    using arg_cong [OF r(2), of "image_mset target"] by (simp add: tg multiset.map_comp comp_def)
  ultimately have "distinct (map target es)" using mset_eq_imp_distinct_iff by blast
  from fold_writes [OF _ this, of "cleaned (snd ` set ws) (mem s)" "on_disk v (ring s)"] obtain f' where f':
    "fold perform es (cleaned (snd ` set ws) (mem s), on_disk v (ring s)) = (cleaned (snd ` set ws) (mem s), f')"
    "\<And>l. l \<notin> target ` set es \<Longrightarrow> f' l = on_disk v (ring s) l"
    "\<And>fd x n off. Write_Page fd x n off \<in> set es \<Longrightarrow> f' (fd, off) = Some (cleaned (snd ` set ws) (mem s) ! x)"
    by (auto simp: es write_req_def)
  have m: "m = cleaned (snd ` set ws) (mem s)" "on_disk v r = f'" using r(4) f'(1) by auto
  have "f' (place (fds s) (fst w)) = Some ((mem s ! snd w)\<lparr>dirty := False\<rparr>)" if "w \<in> set ws" for w
  proof -
    have "write_req (fds s) w \<in> set es" using that es by blast
    from f'(3) [OF this [unfolded write_req_def]] show ?thesis using that B(4) by (simp add: cleaned_nth)
  qed
  moreover have "target ` set es = place (fds s) ` fst ` set ws" by (simp add: es image_comp tg comp_def)
  ultimately show ?thesis using r(1,3) f'(2) m by (intro exI [of _ r]) auto
qed

text \<open>The files seen as the disk of the manager: page \<open>i\<close> of file \<open>k\<close>.\<close>

definition same_files :: "int list \<Rightarrow> files \<Rightarrow> (u64 \<times> u64 \<Rightarrow> page option) \<Rightarrow> bool" where
  "same_files fs f d \<longleftrightarrow> (\<forall>k < length fs. \<forall>i. i < 2 ^ 52 \<longrightarrow> f (fs ! k, 4096 * i) = d (of_nat k, i))"

lemma same_filesI:
  assumes "fds_ok fs" "distinct fs" and old: "same_files fs f d"
    and ps: "\<And>p. p \<in> P \<Longrightarrow> p div of_nat (length fs) < 2 ^ 52"
    and inP: "\<And>p. p \<in> P \<Longrightarrow> f' (place fs p) = d' (getFileAndIndex (of_nat (length fs)) p)"
    and out: "\<And>l. l \<notin> place fs ` P \<Longrightarrow> f' l = f l" "\<And>l. l \<notin> getFileAndIndex (of_nat (length fs)) ` P \<Longrightarrow> d' l = d l"
  shows "same_files fs f' d'"
  unfolding same_files_def
proof (intro allI impI)
  fix k i assume k: "k < length fs" and i: "i < (2 ^ 52 :: u64)"
  note loc = place_loc [OF assms(1,2) k i ps]
  show "f' (fs ! k, 4096 * i) = d' (of_nat k, i)"
  proof (cases "(fs ! k, 4096 * i) \<in> place fs ` P")
    case True
    then obtain p where p: "p \<in> P" "(fs ! k, 4096 * i) = place fs p" by blast
    then show ?thesis using inP [OF p(1)] loc [OF p(1)] by simp
  next
    case False
    then have "(of_nat k, i) \<notin> getFileAndIndex (of_nat (length fs)) ` P" using loc by blast
    then show ?thesis using False out old k i by (simp add: same_files_def)
  qed
qed

section \<open>One page\<close>

lemma readPage_runs:
  assumes "ring_laws U v uring_maxIOs act outcome" and "fds_ok (fds s)" and "idle v s"
  shows "\<exists>m r. uring_readPage U pid y s = Ret (1, s\<lparr>mem := m, ring := r\<rparr>) \<and> idle v (s\<lparr>ring := r\<rparr>) \<and>
    act (Read_Page (fst (place (fds s) pid)) y 4096 (snd (place (fds s) pid))) (mem s, on_disk v (ring s)) = (m, on_disk v r)"
proof -
  have q: "queued v (ring s) = []" "inflight v (ring s) = {#}" using assms(3) by (simp_all add: idle_def)
  then have "length (queued v (ring s)) < uring_maxIOs" by (simp add: uring_maxIOs_def)
  from prep_one [OF assms(1) this assms(2), of pid] obtain r where r: "get_sqe U (ring s) = Some r"
    "\<And>op x. \<exists>r'. uring_prep_rw U op (pid mod of_nat (length (fds s)), pid div of_nat (length (fds s))) x (s\<lparr>ring := r\<rparr>) = Ret (s\<lparr>ring := r'\<rparr>) \<and>
     queued v r' = queued v (ring s) @ [op (fst (place (fds s) pid)) x 4096 (snd (place (fds s) pid))] \<and>
     inflight v r' = inflight v (ring s) \<and> on_disk v r' = on_disk v (ring s)" by blast
  from r(2) [of Read_Page y] q obtain r1 where r1:
    "uring_prep_rw U Read_Page (pid mod of_nat (length (fds s)), pid div of_nat (length (fds s))) y (s\<lparr>ring := r\<rparr>) = Ret (s\<lparr>ring := r1\<rparr>)"
    "queued v r1 = [Read_Page (fst (place (fds s) pid)) y 4096 (snd (place (fds s) pid))]"
    "inflight v r1 = {#}" "on_disk v r1 = on_disk v (ring s)" by auto
  from submit_ok [OF assms(1), of "s\<lparr>ring := r1\<rparr>" 1] r1(2-) obtain r2 where r2:
    "\<And>msg. uring_submit U 1 msg (s\<lparr>ring := r1\<rparr>) = Ret (s\<lparr>ring := r2\<rparr>)" "queued v r2 = []"
    "inflight v r2 = {#Read_Page (fst (place (fds s) pid)) y 4096 (snd (place (fds s) pid))#}"
    "on_disk v r2 = on_disk v (ring s)" by auto
  from wait_ok [OF assms(1), of "s\<lparr>ring := r2\<rparr>"] r2(2-) obtain m r3 where r3:
    "uring_wait U (s\<lparr>ring := r2\<rparr>) = Ret (s\<lparr>mem := m, ring := r3\<rparr>)" "queued v r3 = []" "inflight v r3 = {#}"
    "act (Read_Page (fst (place (fds s) pid)) y 4096 (snd (place (fds s) pid))) (mem s, on_disk v (ring s)) = (m, on_disk v r3)"
    by (auto simp: single_is_union)
  show ?thesis
    using r(1) r1(1) r2(1) r3 getFileAndIndex_ok [OF assms(2)]
    by (intro exI [of _ m] exI [of _ r3]) (simp add: uring_readPage_def uring_sqe_def idle_def)
qed

text \<open>Writing one page is writing a batch of one, up to the order of two steps and a message.\<close>

lemma reap_none: "uring_reap U 0 = Ret"
  by (rule ext) simp

lemma bind_Ret_right: "bind_run m Ret = m"
  by (cases m) auto

lemma writePage_batch:
  assumes "fds_ok (fds s)"
  shows "uring_writePage U pid x s = Ret s' \<longleftrightarrow> uring_writePages U [pid] [x] s = Ret s'"
proof (cases "uring_clean x s")
  case c: (Ret s1)
  then have "fds s1 = fds s" by (auto simp: uring_clean_def run_simps)
  show ?thesis
  proof (cases "uring_sqe U s1")
    case q: (Ret s2)
    then have "fds s2 = fds s" using \<open>fds s1 = fds s\<close> by (auto simp: uring_sqe_def split: option.splits)
    then have fi: "uring_getFileAndIndex s2 pid = uring_getFileAndIndex s pid" by (simp add: uring_getFileAndIndex_def)
    show ?thesis
    proof (cases "uring_prep_rw U Write_Page (pid mod of_nat (length (fds s)), pid div of_nat (length (fds s))) x s2")
      case (Ret s3)
      then show ?thesis using c q fi assms
        by (simp add: uring_writePage_def uring_writePages_def uring_maxIOs_def getFileAndIndex_ok uring_submit_def
            reap_none bind_Ret_right check_def split: prod.split)
    qed (use c q fi assms in \<open>simp_all add: uring_writePage_def uring_writePages_def uring_maxIOs_def getFileAndIndex_ok\<close>)
  qed (use c assms in \<open>simp_all add: uring_writePage_def uring_writePages_def uring_maxIOs_def getFileAndIndex_ok\<close>)
qed (use assms in \<open>simp_all add: uring_writePage_def uring_writePages_def uring_maxIOs_def getFileAndIndex_ok\<close>)

section \<open>Dropping pages\<close>

lemma prep_dontneed_ok:
  assumes "ring_laws U v depth act outcome" and "length (queued v (ring s)) + length xs \<le> depth"
  shows "\<exists>r. uring_prep_dontneed U xs s = Ret (s\<lparr>ring := r\<rparr>) \<and>
    queued v r = queued v (ring s) @ map (\<lambda>x. Dont_Need x pageSize) xs \<and> inflight v r = inflight v (ring s) \<and>
    on_disk v r = on_disk v (ring s)"
  using assms(2)
proof (induction xs arbitrary: s)
  case Nil
  show ?case by (intro exI [of _ "ring s"]) simp
next
  case (Cons x xs)
  then have "length (queued v (ring s)) < depth" by simp
  from ring_lawsD(1) [OF assms(1) this] obtain r where r: "get_sqe U (ring s) = Some r"
    "\<And>e. queued v (prep_sqe U e r) = queued v (ring s) @ [e]" "\<And>e. inflight v (prep_sqe U e r) = inflight v (ring s)"
    "\<And>e. on_disk v (prep_sqe U e r) = on_disk v (ring s)" by blast
  from Cons.IH [of "s\<lparr>ring := prep_sqe U (Dont_Need x pageSize) r\<rparr>"] Cons.prems r show ?case by auto
qed

text \<open>A device that fails each of these requests has its errors printed, and nothing else happens.\<close>

lemma reap_dontneed_ok:
  assumes "ring_laws U v depth act outcome" and "size (inflight v (ring s)) = n"
  shows "\<exists>es m r. uring_reap_dontneed U n s =
      Ret (s\<lparr>mem := m, ring := r, printed := printed s @ (if outcome < 0 then replicate n (- outcome) else [])\<rparr>) \<and>
    mset es = inflight v (ring s) \<and> inflight v r = {#} \<and> queued v r = queued v (ring s) \<and>
    fold act es (mem s, on_disk v (ring s)) = (m, on_disk v r)"
  using assms(2)
proof (induction n arbitrary: s)
  case 0
  then show ?case by (intro exI [of _ "[]"] exI [of _ "mem s"] exI [of _ "ring s"]) simp
next
  case (Suc n)
  then have "inflight v (ring s) \<noteq> {#}" by auto
  from ring_lawsD(3) [OF assms(1) this, of "mem s"] obtain e m1 r1 where w:
    "wait_cqe U (mem s) (ring s) = Some ((0, outcome), m1, r1)"
    "inflight v (ring s) = add_mset e (inflight v (cqe_seen U r1))" "queued v (cqe_seen U r1) = queued v (ring s)"
    "act e (mem s, on_disk v (ring s)) = (m1, on_disk v (cqe_seen U r1))" by blast
  define s1 where "s1 = s\<lparr>mem := m1, ring := cqe_seen U r1, printed := printed s @ (if outcome < 0 then [- outcome] else [])\<rparr>"
  have "size (inflight v (ring s1)) = n" using Suc.prems w(2) by (simp add: s1_def)
  from Suc.IH [OF this] obtain es m r where r:
    "uring_reap_dontneed U n s1 =
      Ret (s1\<lparr>mem := m, ring := r, printed := printed s1 @ (if outcome < 0 then replicate n (- outcome) else [])\<rparr>)"
    "mset es = inflight v (ring s1)" "inflight v r = {#}" "queued v r = queued v (ring s1)"
    "fold act es (mem s1, on_disk v (ring s1)) = (m, on_disk v r)" by blast
  then show ?case using w by (intro exI [of _ "e # es"] exI [of _ m] exI [of _ r]) (simp add: s1_def)
qed

lemma fold_dontneed:
  "\<forall>e \<in> set es. \<exists>x n. e = Dont_Need x n \<Longrightarrow>
    \<exists>m'. fold perform es (m, f) = (m', f) \<and> length m' = length m \<and>
      (\<forall>i < length m. m' ! i = (if \<exists>n. Dont_Need i n \<in> set es then zero_page else m ! i))"
proof (induction es arbitrary: m)
  case (Cons e es)
  obtain x n where e: "e = Dont_Need x n" using Cons.prems by auto
  have "\<exists>m'. fold perform es (m[x := zero_page], f) = (m', f) \<and> length m' = length (m[x := zero_page]) \<and>
      (\<forall>i < length (m[x := zero_page]). m' ! i = (if \<exists>n. Dont_Need i n \<in> set es then zero_page else m[x := zero_page] ! i))"
    by (rule Cons.IH) (use Cons.prems in auto)
  then show ?case by (fastforce simp: e nth_list_update)
qed simp

lemma madvDontneed_zeroes:
  assumes "ring_laws U v uring_maxIOs perform outcome" and "idle v s" and "0 \<le> outcome" and "length xs \<le> uring_maxIOs"
  shows "\<exists>m r. uring_madvDontneed U xs s = Ret (s\<lparr>mem := m, ring := r\<rparr>) \<and> idle v (s\<lparr>ring := r\<rparr>) \<and>
    on_disk v r = on_disk v (ring s) \<and> length m = length (mem s) \<and>
    (\<forall>i < length m. m ! i = (if i \<in> set xs then zero_page else mem s ! i))"
proof (cases "xs = []")
  case True
  then show ?thesis using assms(2)
    by (intro exI [of _ "mem s"] exI [of _ "ring s"]) (simp add: uring_madvDontneed_def)
next
  case False
  have q: "queued v (ring s) = []" "inflight v (ring s) = {#}" using assms(2) by (simp_all add: idle_def)
  from prep_dontneed_ok [OF assms(1), of s xs] assms(4) q obtain r1 where r1:
    "uring_prep_dontneed U xs s = Ret (s\<lparr>ring := r1\<rparr>)" "queued v r1 = map (\<lambda>x. Dont_Need x pageSize) xs"
    "inflight v r1 = {#}" "on_disk v r1 = on_disk v (ring s)" by auto
  from ring_lawsD(2) [OF assms(1), of "mem s" r1] r1(2-) obtain r2 where r2:
    "submit_sqes U (mem s) r1 = (int (length xs), mem s, r2)" "queued v r2 = []"
    "inflight v r2 = mset (map (\<lambda>x. Dont_Need x pageSize) xs)" "on_disk v r2 = on_disk v (ring s)" by auto
  from reap_dontneed_ok [OF assms(1), of "s\<lparr>ring := r2\<rparr>" "length xs"] r2(2-) assms(3) obtain es m r where r:
    "uring_reap_dontneed U (length xs) (s\<lparr>ring := r2\<rparr>) = Ret (s\<lparr>mem := m, ring := r\<rparr>)"
    "mset es = mset (map (\<lambda>x. Dont_Need x pageSize) xs)" "inflight v r = {#}" "queued v r = []"
    "fold perform es (mem s, on_disk v (ring s)) = (m, on_disk v r)" by auto
  have es: "set es = (\<lambda>x. Dont_Need x pageSize) ` set xs" using mset_eq_setD [OF r(2)] by simp
  from fold_dontneed [of es "mem s" "on_disk v (ring s)"] es r(5) have
    "on_disk v r = on_disk v (ring s)" "length m = length (mem s)"
    "\<And>i. i < length (mem s) \<Longrightarrow> m ! i = (if i \<in> set xs then zero_page else mem s ! i)" by auto
  moreover have "uring_madvDontneed U xs s = Ret (s\<lparr>mem := m, ring := r\<rparr>)"
    using False r1(1) r2(1) r(1) by (simp add: uring_madvDontneed_def)
  ultimately show ?thesis using r(3,4) by (intro exI [of _ m] exI [of _ r]) (simp add: idle_def)
qed

end
