(* ===== verification/Io_Service.thy ===== *)
theory Io_Service
  imports Pool_Start Io_Interfaces
begin

text \<open>
  What clients of the batch writers rely on, for every library that keeps \<open>ring_laws\<close>: the two
  interfaces write the same files, a page that is written is read back, and what neither notices.
  A small ring that completes requests in their order shows that the laws can hold.
\<close>

section \<open>A ring\<close>

record small_ring =
  c_queue :: "sqe list"
  c_flight :: "sqe list"
  c_files :: files

definition small_uring :: "(sqe \<Rightarrow> page list \<times> files \<Rightarrow> page list \<times> files) \<Rightarrow> int \<Rightarrow> small_ring uring" where
  "small_uring act outcome =
     \<lparr>get_sqe = (\<lambda>r. if length (c_queue r) < uring_maxIOs then Some r else None),
      prep_sqe = (\<lambda>e r. r\<lparr>c_queue := c_queue r @ [e]\<rparr>),
      submit_sqes = (\<lambda>m r. (int (length (c_queue r)), m, r\<lparr>c_queue := [], c_flight := c_flight r @ c_queue r\<rparr>)),
      wait_cqe = (\<lambda>m r. case c_flight r of [] \<Rightarrow> None
        | e # _ \<Rightarrow> (case act e (m, c_files r) of (m', f) \<Rightarrow> Some ((0, outcome), m', r\<lparr>c_files := f\<rparr>))),
      cqe_seen = (\<lambda>r. r\<lparr>c_flight := tl (c_flight r)\<rparr>)\<rparr>"

definition small_view :: "small_ring ring_view" where
  "small_view = \<lparr>queued = c_queue, inflight = \<lambda>r. mset (c_flight r), on_disk = c_files\<rparr>"

lemma small_ring_laws: "ring_laws (small_uring act outcome) small_view uring_maxIOs act outcome"
  unfolding ring_laws_def
proof (intro conjI allI impI)
  fix m r assume "inflight small_view r \<noteq> {#}"
  then obtain e es where "c_flight r = e # es" by (cases "c_flight r") (auto simp: small_view_def)
  then show "\<exists>e m' r'. wait_cqe (small_uring act outcome) m r = Some ((0, outcome), m', r') \<and>
      inflight small_view r = add_mset e (inflight small_view (cqe_seen (small_uring act outcome) r')) \<and>
      queued small_view (cqe_seen (small_uring act outcome) r') = queued small_view r \<and>
      act e (m, on_disk small_view r) = (m', on_disk small_view (cqe_seen (small_uring act outcome) r'))"
    by (simp add: small_uring_def small_view_def split: prod.split)
qed (auto simp: small_uring_def small_view_def)

definition new_ring :: small_ring where
  "new_ring = \<lparr>c_queue = [], c_flight = [], c_files = Map.empty\<rparr>"

text \<open>Two files, and two frames with content, one of them dirty.\<close>

definition two_frames :: "page list" where
  "two_frames = [\<lparr>dirty = True, ppid = 5, body = [1, 2]\<rparr>, \<lparr>dirty = False, ppid = 6, body = [3, 4]\<rparr>]"

definition small_if :: "small_ring uring_if" where
  "small_if = \<lparr>fds = [7, 8], ring = new_ring, mem = two_frames, printed = []\<rparr>"

definition small_bm :: bm where
  "small_bm = (bm_blank example_world 2 64 \<lparr>slots = [], rcount = 0, rmask = 0, clockPos = 0, rsize = 0\<rparr>
     \<lparr>table = [], heap = [], entryFreeList = [], hcount = 0\<rparr>)\<lparr>blockfds := 2, virtMem := two_frames\<rparr>"

lemma small_if_ok:
  "idle small_view small_if" "batch_ok (fds small_if) (mem small_if) [(5, 0), (6, 1)]" "fds_ok (fds small_if)"
  "same_files (fds small_if) (on_disk small_view (ring small_if)) (disk small_bm)"
  "virtMem small_bm = mem small_if" "blockfds small_bm = of_nat (length (fds small_if))" "io_submit small_bm n = n"
  by (auto simp: idle_def small_view_def small_if_def new_ring_def batch_ok_def fds_ok_def two_frames_def
      same_files_def small_bm_def bm_blank_def example_world_def word_less_nat_alt unat_div)

section \<open>The two interfaces\<close>

text \<open>
  C18: The two batch writers. On a library that keeps its promises and on a device that works, in
  whatever order it completes the writes, the uring interface writes every batch of at most 1024
  distinct pages whose byte offsets fit in 64 bits: it returns, every page is marked clean and nothing else in memory changes, and
  each page is in page \<open>pid / n\<close> of file \<open>pid mod n\<close>. The libaio interface agrees on batches of
  at most 255 pages: it returns with the same memory and the same files. On batches of 256 to 1024
  pages the two differ, since libaio hits its assertion.
\<close>

theorem uring_writes_like_libaio:
  assumes "ring_laws U v uring_maxIOs perform outcome" and "idle v s" and "batch_ok (fds s) (mem s) ws"
    and "length ws \<le> uring_maxIOs" and "io_submit b (length ws) = length ws"
    and "virtMem b = mem s" and "blockfds b = of_nat (length (fds s))"
    and "same_files (fds s) (on_disk v (ring s)) (disk b)"
  shows "\<exists>s'. uring_writePages U (map fst ws) (map snd ws) s = Ret s' \<and> idle v s' \<and> fds s' = fds s \<and>
    mem s' = cleaned (snd ` set ws) (mem s) \<and>
    (\<forall>(p, x) \<in> set ws. on_disk v (ring s') (place (fds s) p) = Some ((mem s ! x)\<lparr>dirty := False\<rparr>)) \<and>
    (if length ws < maxIOs
     then \<exists>b'. writePages ws b = Ret b' \<and> mem s' = virtMem b' \<and> same_files (fds s) (on_disk v (ring s')) (disk b') \<and>
       (\<forall>(p, x) \<in> set ws. disk b' (p mod blockfds b, p div blockfds b) = Some ((mem s ! x)\<lparr>dirty := False\<rparr>))
     else writePages ws b = Err (Assertion ''pages.size() < maxIOs''))"
proof -
  have W: "fds_ok (fds s)" "distinct (fds s)" "distinct (map fst ws)" "\<forall>w \<in> set ws. snd w < length (virtMem b)"
    "\<And>p. p \<in> fst ` set ws \<Longrightarrow> p div of_nat (length (fds s)) < 2 ^ 52" using assms(3,6) by (auto simp: batch_ok_def)
  have pos: "0 < blockfds b" using fds_okD(1) [OF W(1)] assms(7) by (simp add: word_neq_0_conv)
  define vm where "vm = cleaned (snd ` set ws) (mem s)"
  define b1 where "b1 = b\<lparr>virtMem := vm\<rparr>"
  define b' where "b' = b1\<lparr>disk := disk_after b1 ws\<rparr>"
  have b: "writePages ws b = (if length ws < maxIOs then Ret b' else Err (Assertion ''pages.size() < maxIOs''))"
    using prep_writes_ok [OF W(4)] do_writes_ok [of ws b1] W(4) assms(5,6)
    by (simp add: writePages_def b1_def b'_def vm_def)
  from writePages_works [OF assms(1-4)] obtain r where r:
    "uring_writePages U (map fst ws) (map snd ws) s = Ret (s\<lparr>mem := vm, ring := r\<rparr>)" "idle v (s\<lparr>ring := r\<rparr>)"
    "\<And>w. w \<in> set ws \<Longrightarrow> on_disk v r (place (fds s) (fst w)) = Some ((mem s ! snd w)\<lparr>dirty := False\<rparr>)"
    "\<And>l. l \<notin> place (fds s) ` fst ` set ws \<Longrightarrow> on_disk v r l = on_disk v (ring s) l"
    by (auto simp: vm_def)
  have d: "disk b' (loc b p) = Some ((mem s ! x)\<lparr>dirty := False\<rparr>)" if "(p, x) \<in> set ws" for p x
  proof -
    have "x \<in> snd ` set ws" "x < length (mem s)" using image_eqI [OF _ that, of x snd] W(4) that assms(6) by auto
    then show ?thesis using disk_after_in [OF that W(3), of b1] pos by (simp add: b'_def b1_def vm_def cleaned_nth)
  qed
  have "same_files (fds s) (on_disk v r) (disk b')"
  proof (rule same_filesI [OF W(1,2) assms(8) W(5)])
    fix p assume "p \<in> fst ` set ws"
    then show "on_disk v r (place (fds s) p) = disk b' (getFileAndIndex (of_nat (length (fds s))) p)"
      using r(3) d assms(7) by force
  next
    fix l assume "l \<notin> getFileAndIndex (of_nat (length (fds s))) ` fst ` set ws"
    then show "disk b' l = disk b l" using disk_after_out [of l b1 ws] assms(7) by (simp add: b'_def b1_def)
  qed (use r(4) in auto)
  moreover have "\<forall>(p, x) \<in> set ws. on_disk v r (place (fds s) p) = Some ((mem s ! x)\<lparr>dirty := False\<rparr>)"
    using r(3) by fastforce
  ultimately show ?thesis using b r(1,2) d
    by (intro exI [of _ "s\<lparr>mem := vm, ring := r\<rparr>"])
      (auto simp: b'_def b1_def idle_def getFileAndIndex_def vm_def)
qed

theorem uring_writes_like_libaio_witness:
  "\<exists>s' b'. uring_writePages (small_uring perform 4096) [5, 6] [0, 1] small_if = Ret s' \<and>
    writePages [(5, 0), (6, 1)] small_bm = Ret b' \<and> mem s' = virtMem b' \<and>
    disk b' (1, 2) = Some \<lparr>dirty = False, ppid = 5, body = [1, 2]\<rparr>"
  using uring_writes_like_libaio [OF small_ring_laws small_if_ok(1,2) _ small_if_ok(7,5,6,4), of 4096]
  by (auto simp: maxIOs_def uring_maxIOs_def small_bm_def small_if_def two_frames_def)

text \<open>
  C19: A page that the uring interface has written to a file is what it reads back from there,
  into any frame, and both operations return on a device that works.
\<close>

theorem written_page_read_back:
  assumes "ring_laws U v uring_maxIOs perform outcome" and "idle v s" and "batch_ok (fds s) (mem s) [(pid, x)]"
    and "y < length (mem s)"
  shows "\<exists>s' s''. uring_writePage U pid x s = Ret s' \<and> uring_readPage U pid y s' = Ret (1, s'') \<and> idle v s'' \<and>
    mem s'' ! y = (mem s ! x)\<lparr>dirty := False\<rparr> \<and> (\<forall>i. i \<noteq> x \<and> i \<noteq> y \<longrightarrow> mem s'' ! i = mem s ! i)"
proof -
  have W: "fds_ok (fds s)" "x < length (mem s)" using assms(3) by (auto simp: batch_ok_def)
  define m where "m = (mem s)[x := (mem s ! x)\<lparr>dirty := False\<rparr>]"
  have m: "cleaned {x} (mem s) = m" using cleaned_insert [OF W(2), of "{}"] by (simp add: m_def)
  from writePages_works [OF assms(1-3)] m obtain r where r:
    "uring_writePages U [pid] [x] s = Ret (s\<lparr>mem := m, ring := r\<rparr>)" "idle v (s\<lparr>ring := r\<rparr>)"
    "on_disk v r (place (fds s) pid) = Some ((mem s ! x)\<lparr>dirty := False\<rparr>)"
    by (auto simp: uring_maxIOs_def)
  define s' where "s' = s\<lparr>mem := m, ring := r\<rparr>"
  have "uring_writePage U pid x s = Ret s'" using writePage_batch [OF W(1)] r(1) by (simp add: s'_def)
  moreover have "idle v s'" using r(2) by (simp add: s'_def idle_def)
  moreover from readPage_runs [OF assms(1) _ this, of pid y] W(1) obtain m2 r2 where r2:
    "uring_readPage U pid y s' = Ret (1, s'\<lparr>mem := m2, ring := r2\<rparr>)" "idle v (s'\<lparr>ring := r2\<rparr>)"
    "perform (Read_Page (fst (place (fds s) pid)) y 4096 (snd (place (fds s) pid))) (m, on_disk v r) = (m2, on_disk v r2)"
    by (auto simp: s'_def)
  moreover have "m2 = m[y := (mem s ! x)\<lparr>dirty := False\<rparr>]" using r2(3) r(3) by simp
  moreover have "m2 ! y = (mem s ! x)\<lparr>dirty := False\<rparr>" "\<forall>i. i \<noteq> x \<and> i \<noteq> y \<longrightarrow> m2 ! i = mem s ! i"
    using \<open>m2 = _\<close> assms(4) by (auto simp: m_def)
  ultimately show ?thesis
    by (intro exI [of _ s'] exI [of _ "s'\<lparr>mem := m2, ring := r2\<rparr>"]) (auto simp: idle_def)
qed

theorem written_page_read_back_witness:
  "\<exists>s' s''. uring_writePage (small_uring perform 4096) 5 0 small_if = Ret s' \<and>
    uring_readPage (small_uring perform 4096) 5 1 s' = Ret (1, s'') \<and> body (mem s'' ! 1) = [1, 2]"
proof -
  have "batch_ok (fds small_if) (mem small_if) [(5, 0)]" "1 < length (mem small_if)"
    using small_if_ok(2) by (auto simp: batch_ok_def small_if_def two_frames_def)
  from written_page_read_back [OF small_ring_laws small_if_ok(1) this, of 4096] show ?thesis
    by (auto simp: small_if_def two_frames_def)
qed

text \<open>
  C20: A device that fails every write goes unnoticed: the value \<open>res\<close> of a completion is not
  read, so a batch returns as if it had been written, with every page marked clean and none of
  them in its file.
\<close>

theorem failed_writes_unnoticed:
  assumes "ring_laws U v uring_maxIOs (\<lambda>_ mf. mf) outcome" and "outcome < 0" and "idle v s" and "fds_ok (fds s)"
    and "length ws \<le> uring_maxIOs" and "\<forall>w \<in> set ws. snd w < length (mem s)"
  shows "\<exists>s'. uring_writePages U (map fst ws) (map snd ws) s = Ret s' \<and> idle v s' \<and>
    (\<forall>w \<in> set ws. \<not> dirty (mem s' ! snd w) \<and> body (mem s' ! snd w) = body (mem s ! snd w)) \<and>
    on_disk v (ring s') = on_disk v (ring s)"
proof -
  from writePages_runs [OF assms(1,4,3,5,6)] obtain es m r where r:
    "uring_writePages U (map fst ws) (map snd ws) s = Ret (s\<lparr>mem := m, ring := r\<rparr>)" "idle v (s\<lparr>mem := m, ring := r\<rparr>)"
    "fold (\<lambda>(_::sqe) mf. mf) es (cleaned (snd ` set ws) (mem s), on_disk v (ring s)) = (m, on_disk v r)" by blast
  have "fold (\<lambda>(_::sqe) mf. mf) es mf = mf" for mf :: "page list \<times> files" by (induction es) auto
  then have "m = cleaned (snd ` set ws) (mem s)" "on_disk v r = on_disk v (ring s)" using r(3) by auto
  then show ?thesis using r(1,2) assms(6)
    by (intro exI [of _ "s\<lparr>mem := m, ring := r\<rparr>"]) (auto simp: cleaned_nth)
qed

theorem failed_writes_unnoticed_witness:
  "\<exists>s'. uring_writePages (small_uring (\<lambda>_ mf. mf) (- 5)) [5, 6] [0, 1] small_if = Ret s' \<and>
    \<not> dirty (mem s' ! 0) \<and> on_disk small_view (ring s') = Map.empty"
  using failed_writes_unnoticed [OF small_ring_laws _ small_if_ok(1,3), of "- 5" "[(5, 0), (6, 1)]"]
  by (auto simp: uring_maxIOs_def small_if_def two_frames_def small_view_def new_ring_def)

end
