(* ===== verification/Driver.thy ===== *)
theory Driver
  imports Pool_Start
begin

text \<open>
  The choice of the workload in \<open>main\<close> of \<open>predicache.cpp\<close>, from the environment, up to the call
  of the benchmark, which is outside the model, as are the statistics printed after it.
\<close>

datatype benchmark =
    TPCCBenchmark u32 u64 u64
  | RndReadBenchmark u32 u64 u64
  | YCSBBenchmark u32 u64 u64

text \<open>\<open>std::tolower\<close> in the C locale.\<close>

definition c_tolower :: "char \<Rightarrow> char" where
  "c_tolower c = (if 65 \<le> (of_char c :: nat) \<and> (of_char c :: nat) \<le> 90 then char_of (of_char c + 32 :: nat) else c)"

definition choose_benchmark :: "string \<Rightarrow> u32 \<Rightarrow> u64 \<Rightarrow> u64 \<Rightarrow> benchmark run" where
  "choose_benchmark benchmarkName nthreads n runForSec =
     (if benchmarkName = ''tpc-c'' \<or> benchmarkName = ''tpcc'' then Ret (TPCCBenchmark nthreads n runForSec)
      else if benchmarkName = ''rnd-read'' \<or> benchmarkName = ''rndread'' then Ret (RndReadBenchmark nthreads n runForSec)
      else if benchmarkName = ''ycsb'' then Ret (YCSBBenchmark nthreads n runForSec)
      else Err (Fatal ''unknown workload''))"

text \<open>The manager is a global object: it has been constructed before, and its counters are reset.\<close>

definition main_setup :: "(string \<Rightarrow> string option) \<Rightarrow> bm \<Rightarrow> (benchmark \<times> bm) run" where
  "main_setup genv bm =
     bind_run (envOr genv ''THREADS'' 1) (\<lambda>nthreads.
     bind_run (envOr genv ''DATASIZE'' 10) (\<lambda>n.
     bind_run (envOr genv ''RUNFOR'' 30) (\<lambda>runForSec.
     bind_run (envOr genv ''RNDREAD'' 0) (\<lambda>isRndread.
     let defaultWorkload = (if isRndread \<noteq> 0 then ''rndread'' else ''tpcc'');
         benchmarkName = map c_tolower (case genv ''WORKLOAD'' of Some w \<Rightarrow> w | None \<Rightarrow> defaultWorkload)
     in bind_run (choose_benchmark benchmarkName (ucast nthreads) n runForSec) (\<lambda>benchmark.
          Ret (benchmark, bm\<lparr>readCount := 0, writeCount := 0\<rparr>))))))"

lemma c_tolower_idem [simp]: "c_tolower (c_tolower c) = c_tolower c"
proof -
  have "(of_char (char_of (n :: nat) :: char) :: nat) = n" if "n < 256" for n
    using that by (simp add: of_char_of)
  then show ?thesis by (simp add: c_tolower_def)
qed

text \<open>The case of the letters of \<open>WORKLOAD\<close> does not matter, and an unset environment means TPC-C.\<close>

lemma workload_case:
  "genv ''WORKLOAD'' = Some w \<Longrightarrow>
    main_setup (genv(''WORKLOAD'' \<mapsto> map c_tolower w)) bm = main_setup genv bm"
  by (simp add: main_setup_def envOr_def comp_def)

lemma default_workload:
  "main_setup (\<lambda>_. None) bm = Ret (TPCCBenchmark 1 10 30, bm\<lparr>readCount := 0, writeCount := 0\<rparr>)"
  by (simp add: main_setup_def envOr_def choose_benchmark_def c_tolower_def)

lemma unknown_workload:
  assumes "genv ''WORKLOAD'' = Some w" and "main_setup genv bm = Ret b"
  shows "map c_tolower w \<in> {''tpc-c'', ''tpcc'', ''rnd-read'', ''rndread'', ''ycsb''}"
  using assms by (auto simp: main_setup_def run_simps choose_benchmark_def Let_def split: if_splits)

end
