(* ===== verification/Spec2Isabelle.thy ===== *)
theory Spec2Isabelle
  imports Pool_Service Promotion Tpb_Decision Btree_Service Io_Service Driver
begin

text \<open>
  PrediCache, the buffer manager under \<open>src/repo/PrediCache\<close>, as HOL functions on explicit
  states, with the theorems that make its parts correct.

  The program. A fixed pool of 4 KiB frames caches the pages of one or more block files. A page
  has a preferred frame, given by the hash of its page id, and threads first look there
  (\<open>guards.hpp\<close>); a chained hash table (\<open>ht.hpp\<close>) says where each page in the pool really is.
  Every page has a hybrid latch (\<open>PageState\<close>, \<open>page.hpp\<close>) that is locked exclusively, shared, or
  read optimistically and validated by its version. A second-chance clock over the set of
  resident pages (\<open>ResidentPageSet\<close>, \<open>page.hpp\<close>) finds victims; dirty victims are written in
  batches (\<open>libaio_interface.hpp\<close>, or
  \<open>uring_interface.hpp\<close>). On unfix, a page outside its preferred frame is promoted with
  a probability that is configured (\<open>buffer_manager.hpp\<close>) or adapted by one of three controllers
  (\<open>cbp.hpp\<close>). On top of it a B-tree keeps its nodes in pages (\<open>btree.hpp\<close>, \<open>btree.cpp\<close>): slotted
  nodes with fences, a common prefix that is cut off the keys, heads of four bytes and a hint of
  16 heads; leaves are linked, nodes are split from below and leaves are merged on removal.

  Conventions. Machine integers are words of the source's width. An operation returns
  \<open>'a run\<close> (Prelude): a value, the failure of an assertion of the debug build, a fatal error or an
  access out of bounds, or \<open>Loop\<close> when a loop has used up its fuel. An atomic operation is a
  function of what its cell holds at that moment; a retry loop takes the list of what its
  iterations see, or runs alone. Queues, the kernel and the sources of randomness are
  parameters of the state or arguments.

  Theories:
  \<^item> Page_State: the packed latch word and every operation on it, with its wrap-around.
  \<^item> Lock_Protocol: any number of threads on one latch as a step relation, the invariant by rule
    induction, mutual exclusion, and the soundness of optimistic reads and upgrades.
  \<^item> Versioned_Lock: the lock of a bucket.
  \<^item> Hashing: the page hash and its injectivity, powers of two, frames and buckets.
  \<^item> Resident_Set: the open-addressing set; locale \<open>page_set\<close> and its interpretation; the clock, which
    hands out every resident page once in each turn of the table.
  \<^item> Random_Generator: Mersenne Twister and xorshift128+.
  \<^item> Promotion: the static configuration of the promotion dice and the share of random words that
    each of them accepts.
  \<^item> Floats, Cbp_Controllers, Tpb_Decision: IEEE rounding on rationals, the three controllers, the
    invariant of their chances and the decision of TPB.
  \<^item> Hash_Table, Page_Table: the chained table as a heap of entries, its operations and the
    correctness of each; locale \<open>page_table\<close>, interpreted by the table.
  \<^item> Buffer_Manager: the state of the pool and every operation of \<open>BufferManager\<close>, for one thread.
  \<^item> Pool_Invariant, Eviction, Pool_Operations, Fixing, Pool_Promotion: the invariant of the pool, the
    content of a page as clients see it, and the correctness of eviction, faults, allocation,
    fixing, promotion and unfixing.
  \<^item> Pool_Start: the constructor, which establishes that invariant, or dies if a device cannot be opened.
  \<^item> Eviction_Progress, Pool_Returns: waiting for a frame ends, and so do all operations that do.
  \<^item> Pool_Shape: what every operation keeps of the controllers, the page sizes and the page ids.
  \<^item> Guards: the guard objects on the state of the pool.
  \<^item> Pool_Sessions, Pool_Flush, Pool_Service: sessions of a client as steps on a map, flush and clear,
    and the statements about the pool that clients rely on.
  \<^item> Io_Interfaces, Io_Service: \<open>uring_interface.hpp\<close>, the other batch writer, in both of its builds, with
    liburing as a record of functions and \<open>ring_laws\<close> as its documented behaviour; both writers leave the
    same files on a device that works, for batches below 256 pages (libaio asserts on larger ones), and
    neither sees that a write has failed.
  \<^item> Driver: how \<open>main\<close> of \<open>predicache.cpp\<close> chooses the workload.
  \<^item> Btree_Node: a node and its operations. The slots and the heap, which share a page from both ends,
    are two fields, and the invariant keeps them apart; 16-bit and 32-bit arithmetic wraps.
  \<^item> Btree_Keys, Btree_Search, Btree_Layout, Btree_Update: heads and the order of keys, the search, the
    layout of a node, and insertion, removal and compaction in a node.
  \<^item> Btree_Split: separators, the split and the merge of nodes, and when they succeed.
  \<^item> Btree_Tree: the tree over pages named by their ids, and every operation of \<open>BTree\<close>.
  \<^item> Btree_Shape, Btree_Focus: the invariant of a tree of a given height, its content, a subtree in its
    tree and the way down to it.
  \<^item> Btree_Lookup, Btree_Descend, Btree_Fits, Btree_Grow, Btree_Insert, Btree_Remove: lookups, updates and
    both scans; splits in the tree, insertion and removal.
  \<^item> Btree_Limits, Btree_Progress: what a split cannot do, and why insertions of short entries end: the
    halves of a full node fit, and every split lowers the number of entries on the way to the key.
  \<^item> Btree_History, Btree_Service: histories of operations as histories on a map, and the statements
    about nodes and trees.

  Fuel. The loops of the resident set and of the hash table get as much fuel as the table has
  slots or the heap has entries, which the proofs show to be enough; loops that wait for another
  thread, or for a frame, have a fuel argument, and \<open>Loop\<close> is then a possible result. The way down
  a tree of height \<open>h\<close> needs fuel above \<open>h\<close>; a scan, as much as it visits entries and leaves, or
  downwards leaves and levels; an insertion, 1600 times \<open>h + 1\<close>, which covers 398 splits for every level.

  Not modelled: third-party code; the benchmarks, which drive the program, and what
  \<open>predicache.cpp\<close> prints after them; statistics output and
  destructors; \<open>io_setup\<close>, which dies or opens the context of libaio, and the counters of a build with
  \<open>COPY_STATS\<close>; the branch of \<open>HTBufferManager::remove\<close> that is switched off by \<open>false &&\<close>. The
  hash table and the buffer manager are modelled for one thread; concurrency is modelled at the
  latch, where an exclusive release is one step (only its holder writes a locked word), and in the
  loop of \<open>GuardO::init\<close>. The operations of the B-tree are modelled as they run
  alone: no optimistic read is restarted, a page stands for the frame that holds it (\<open>ensureSpace\<close>
  compares frames), and the pages are a map, which the sessions of the pool refine.
  The model of the pool writes to a device that works.
\<close>

end
